(* ===== verification/Prelude.thy ===== *)
theory Prelude
  imports Main "HOL-Library.Monad_Syntax" "HOL-Library.Signed_Division"
begin

text \<open>
  The shared base of the development: Rust's machine integers, the idioms of
  \<open>Option\<close> and \<open>Result\<close>, bounds-checked indexing of slices, and generic facts on them.

  A signed integer of the source is an \<open>int\<close>, an unsigned one a \<open>nat\<close>. The checked
  operations (\<open>checked_add\<close>, \<open>try_from\<close>, ...) are \<open>chk_i64\<close> and its kin applied to
  the exact mathematical result: \<open>None\<close> outside the range of the type. An operation
  the source leaves unchecked wraps in a release build (the profiles of
  \<open>Cargo.toml\<close> do not enable overflow checks); it is written with \<open>wrap_i64\<close>
  wherever it can leave the range. \<open>usize\<close> is 64 bits wide. Indexing a slice out of
  range panics: where the model keeps panics, \<open>idx\<close> and \<open>upd\<close> return \<open>None\<close>.
\<close>

named_theorems machine_int "definitions of the machine integer ranges and checks"
named_theorems res_simps "rewrite rules of the Result and Option idioms"

section \<open>Machine integers\<close>

definition i64_min :: int where [machine_int]: "i64_min = - 9223372036854775808"
definition i64_max :: int where [machine_int]: "i64_max = 9223372036854775807"
definition i128_min :: int where
  [machine_int]: "i128_min = - 170141183460469231731687303715884105728"
definition i128_max :: int where
  [machine_int]: "i128_max = 170141183460469231731687303715884105727"
definition u128_max :: nat where
  [machine_int]: "u128_max = 340282366920938463463374607431768211455"
definition usize_max :: nat where [machine_int]: "usize_max = 18446744073709551615"
definition u32_max :: nat where [machine_int]: "u32_max = 4294967295"

definition in_i64 :: "int \<Rightarrow> bool" where
  [machine_int]: "in_i64 x \<longleftrightarrow> i64_min \<le> x \<and> x \<le> i64_max"

definition in_i128 :: "int \<Rightarrow> bool" where
  [machine_int]: "in_i128 x \<longleftrightarrow> i128_min \<le> x \<and> x \<le> i128_max"

definition chk_i64 :: "int \<Rightarrow> int option" where
  "chk_i64 x = (if in_i64 x then Some x else None)"

definition chk_i128 :: "int \<Rightarrow> int option" where
  "chk_i128 x = (if in_i128 x then Some x else None)"

definition chk_u128 :: "nat \<Rightarrow> nat option" where
  "chk_u128 x = (if x \<le> u128_max then Some x else None)"

definition chk_usize :: "nat \<Rightarrow> nat option" where
  "chk_usize x = (if x \<le> usize_max then Some x else None)"

definition chk_u32 :: "nat \<Rightarrow> nat option" where
  "chk_u32 x = (if x \<le> u32_max then Some x else None)"

text \<open>\<open>usize::try_from\<close> of a signed value.\<close>

definition usize_of_int :: "int \<Rightarrow> nat option" where
  "usize_of_int x = (if 0 \<le> x \<and> x \<le> int usize_max then Some (nat x) else None)"

text \<open>The value an unchecked 64-bit operation leaves in its register.\<close>

definition wrap_i64 :: "int \<Rightarrow> int" where
  "wrap_i64 x = (x + 9223372036854775808) mod 18446744073709551616 - 9223372036854775808"

lemma chk_i64_Some [simp]: "chk_i64 x = Some y \<longleftrightarrow> y = x \<and> in_i64 x"
  by (auto simp: chk_i64_def)

lemma chk_i64_None [simp]: "chk_i64 x = None \<longleftrightarrow> \<not> in_i64 x"
  by (simp add: chk_i64_def)

lemma chk_i128_Some [simp]: "chk_i128 x = Some y \<longleftrightarrow> y = x \<and> in_i128 x"
  by (auto simp: chk_i128_def)

lemma chk_i128_None [simp]: "chk_i128 x = None \<longleftrightarrow> \<not> in_i128 x"
  by (simp add: chk_i128_def)

lemma chk_u128_Some [simp]: "chk_u128 x = Some y \<longleftrightarrow> y = x \<and> x \<le> u128_max"
  by (auto simp: chk_u128_def)

lemma chk_u128_None [simp]: "chk_u128 x = None \<longleftrightarrow> u128_max < x"
  by (simp add: chk_u128_def not_le)

lemma chk_usize_Some [simp]: "chk_usize x = Some y \<longleftrightarrow> y = x \<and> x \<le> usize_max"
  by (auto simp: chk_usize_def)

lemma chk_usize_None [simp]: "chk_usize x = None \<longleftrightarrow> usize_max < x"
  by (simp add: chk_usize_def not_le)

lemma chk_u32_Some [simp]: "chk_u32 x = Some y \<longleftrightarrow> y = x \<and> x \<le> u32_max"
  by (auto simp: chk_u32_def)

lemma usize_of_int_Some [simp]:
  "usize_of_int x = Some y \<longleftrightarrow> x = int y \<and> y \<le> usize_max"
  by (auto simp: usize_of_int_def)

text \<open>The range checks on naturals, for evaluation, by comparing integers.\<close>

lemma chk_code [code]:
  "chk_usize x = (if int x \<le> 18446744073709551615 then Some x else None)"
  "chk_u32 x = (if int x \<le> 4294967295 then Some x else None)"
  "chk_u128 x = (if int x \<le> 340282366920938463463374607431768211455 then Some x else None)"
  "usize_of_int y = (if 0 \<le> y \<and> y \<le> 18446744073709551615 then Some (nat y) else None)"
  by (auto simp: chk_usize_def chk_u32_def chk_u128_def usize_of_int_def machine_int)

lemma set_map_filter_iff: "y \<in> set (List.map_filter f xs) \<longleftrightarrow> (\<exists>x \<in> set xs. f x = Some y)"
  by (induction xs) (auto simp: List.map_filter_simps split: option.splits)

lemma wrap_i64_in [simp]: "in_i64 (wrap_i64 x)"
  by (auto simp: wrap_i64_def machine_int)

lemma wrap_i64_id [simp]: "in_i64 x \<Longrightarrow> wrap_i64 x = x"
  by (simp add: wrap_i64_def machine_int)

lemma in_i64_between: "in_i64 a \<Longrightarrow> in_i64 b \<Longrightarrow> a \<le> x \<Longrightarrow> x \<le> b \<Longrightarrow> in_i64 x"
  by (auto simp: in_i64_def)

lemma in_i64_neg: "in_i64 x \<Longrightarrow> in_i64 (- x) \<longleftrightarrow> x \<noteq> i64_min"
  by (auto simp: machine_int)

section \<open>Option and Result\<close>

definition bindR :: "'e + 'a \<Rightarrow> ('a \<Rightarrow> 'e + 'b) \<Rightarrow> 'e + 'b" where
  "bindR r f = (case r of Inl e \<Rightarrow> Inl e | Inr x \<Rightarrow> f x)"

definition ok_or :: "'a option \<Rightarrow> 'e \<Rightarrow> 'e + 'a" where
  "ok_or r e = (case r of None \<Rightarrow> Inl e | Some x \<Rightarrow> Inr x)"

lemma bindR_simps [simp, res_simps]:
  "bindR (Inl e) f = Inl e" "bindR (Inr x) f = f x"
  by (simp_all add: bindR_def)

lemma ok_or_simps [simp, res_simps]: "ok_or None e = Inl e" "ok_or (Some x) e = Inr x"
  by (simp_all add: ok_or_def)

lemma bindR_Inr_iff [res_simps]:
  "bindR r f = Inr y \<longleftrightarrow> (\<exists>x. r = Inr x \<and> f x = Inr y)"
  by (cases r) auto

lemma bindR_Inl_iff [res_simps]:
  "bindR r f = Inl e \<longleftrightarrow> r = Inl e \<or> (\<exists>x. r = Inr x \<and> f x = Inl e)"
  by (cases r) auto

lemma ok_or_Inr_iff [res_simps]: "ok_or r e = Inr x \<longleftrightarrow> r = Some x"
  by (cases r) auto

lemma ok_or_Inl_iff [res_simps]: "ok_or r e = Inl e' \<longleftrightarrow> r = None \<and> e' = e"
  by (cases r) auto

lemma bindR_cong [fundef_cong]:
  "r = r' \<Longrightarrow> (\<And>x. r' = Inr x \<Longrightarrow> f x = g x) \<Longrightarrow> bindR r f = bindR r' g"
  by (cases r') auto

lemma bind_Some_iff [res_simps]:
  "Option.bind r f = Some y \<longleftrightarrow> (\<exists>x. r = Some x \<and> f x = Some y)"
  by (cases r) auto

lemma bind_None_iff [res_simps]:
  "Option.bind r f = None \<longleftrightarrow> r = None \<or> (\<exists>x. r = Some x \<and> f x = None)"
  by (cases r) auto

text \<open>\<open>iter().try_fold(acc, f)\<close> on \<open>Option\<close>, and its collecting form \<open>those\<close>.\<close>

fun try_fold :: "('s \<Rightarrow> 'a \<Rightarrow> 's option) \<Rightarrow> 's \<Rightarrow> 'a list \<Rightarrow> 's option" where
  "try_fold f s [] = Some s"
| "try_fold f s (x # xs) = (case f s x of None \<Rightarrow> None | Some s' \<Rightarrow> try_fold f s' xs)"

lemma try_fold_append:
  "try_fold f s (xs @ ys) = (case try_fold f s xs of None \<Rightarrow> None | Some t \<Rightarrow> try_fold f t ys)"
  by (induction xs arbitrary: s) (auto split: option.splits)

text \<open>An invariant of every step is one of the loop, and a loop of defined steps is defined.\<close>

lemma try_fold_invariant:
  assumes "try_fold f s xs = Some s'" and "I s"
    and "\<And>s x s'. x \<in> set xs \<Longrightarrow> I s \<Longrightarrow> f s x = Some s' \<Longrightarrow> I s'"
  shows "I s'"
  using assms
proof (induction xs arbitrary: s)
  case (Cons x xs)
  then obtain s1 where s1: "f s x = Some s1" "try_fold f s1 xs = Some s'"
    by (auto split: option.splits)
  then have "I s1" using Cons.prems(2,3) by auto
  with Cons.IH [OF s1(2)] Cons.prems(3) show ?case by auto
qed simp

lemma try_fold_total:
  assumes "I s" and "\<And>s x. x \<in> set xs \<Longrightarrow> I s \<Longrightarrow> \<exists>s'. f s x = Some s' \<and> I s'"
  shows "\<exists>s'. try_fold f s xs = Some s' \<and> I s'"
  using assms
proof (induction xs arbitrary: s)
  case (Cons x xs)
  then obtain s1 where s1: "f s x = Some s1" "I s1" by force
  with Cons.IH [OF s1(2)] Cons.prems(2) show ?case by auto
qed simp

lemma try_fold_defined:
  assumes "\<And>s x. x \<in> set xs \<Longrightarrow> \<exists>s'. f s x = Some s'"
  shows "\<exists>s'. try_fold f s xs = Some s'"
  using try_fold_total [of "\<lambda>_. True" s xs f] assms by simp

text \<open>The invariant rule of a counting loop.\<close>

lemma try_fold_upt:
  assumes "P 0 s" and "\<And>i s. i < n \<Longrightarrow> P i s \<Longrightarrow> \<exists>s'. f s i = Some s' \<and> P (Suc i) s'"
  shows "\<exists>s'. try_fold f s [0..<n] = Some s' \<and> P n s'"
proof -
  have "k \<le> n \<Longrightarrow> \<exists>s'. try_fold f s [0..<k] = Some s' \<and> P k s'" for k
  proof (induction k)
    case (Suc k)
    then obtain s1 where "try_fold f s [0..<k] = Some s1" "P k s1" by auto
    with assms(2) [of k s1] Suc.prems show ?case by (auto simp: try_fold_append)
  qed (simp add: assms(1))
  then show ?thesis by blast
qed

lemma those_map_Some_iff:
  "those (map f xs) = Some ys \<longleftrightarrow>
     length ys = length xs \<and> (\<forall>i < length xs. f (xs ! i) = Some (ys ! i))"
proof (induction xs arbitrary: ys)
  case Nil
  then show ?case by auto
next
  case (Cons x xs)
  show ?case
  proof (cases ys)
    case Nil
    then show ?thesis by (auto split: option.splits)
  next
    case (Cons y ys')
    then show ?thesis
      using Cons.IH [of ys']
      by (auto split: option.splits simp: less_Suc_eq_0_disj)
  qed
qed

lemma those_map_None_iff: "those (map f xs) = None \<longleftrightarrow> (\<exists>x \<in> set xs. f x = None)"
  by (induction xs) (auto split: option.splits)

section \<open>Slices\<close>

definition idx :: "'a list \<Rightarrow> nat \<Rightarrow> 'a option" where
  "idx xs i = (if i < length xs then Some (xs ! i) else None)"

definition upd :: "'a list \<Rightarrow> nat \<Rightarrow> 'a \<Rightarrow> 'a list option" where
  "upd xs i v = (if i < length xs then Some (xs[i := v]) else None)"

lemma idx_Some [simp]: "idx xs i = Some x \<longleftrightarrow> i < length xs \<and> x = xs ! i"
  by (auto simp: idx_def)

lemma idx_None [simp]: "idx xs i = None \<longleftrightarrow> length xs \<le> i"
  by (simp add: idx_def not_less)

lemma idx_in [simp]: "i < length xs \<Longrightarrow> idx xs i = Some (xs ! i)"
  by simp

lemma idx_out [simp]: "length xs \<le> i \<Longrightarrow> idx xs i = None"
  by simp

lemma upd_Some [simp]: "upd xs i v = Some ys \<longleftrightarrow> i < length xs \<and> ys = xs[i := v]"
  by (auto simp: upd_def)

lemma upd_None [simp]: "upd xs i v = None \<longleftrightarrow> length xs \<le> i"
  by (simp add: upd_def not_less)

lemma upd_in [simp]: "i < length xs \<Longrightarrow> upd xs i v = Some (xs[i := v])"
  by simp

text \<open>A slot read through \<open>get(i).copied().flatten()\<close>.\<close>

definition slot :: "'a option list \<Rightarrow> nat \<Rightarrow> 'a option" where
  "slot xs i = (if i < length xs then xs ! i else None)"

lemma slot_Some [simp]: "slot xs i = Some x \<longleftrightarrow> i < length xs \<and> xs ! i = Some x"
  by (auto simp: slot_def)

lemma slot_in: "i < length xs \<Longrightarrow> slot xs i = xs ! i"
  by (simp add: slot_def)

text \<open>The number of entries of a slice that satisfy a predicate drops when one stops to.\<close>

lemma length_filter_update_less:
  assumes "i < length xs" and "P (xs ! i)" and "\<not> P v"
  shows "length (filter P (xs[i := v])) < length (filter P xs)"
proof -
  have xs: "xs = take i xs @ xs ! i # drop (Suc i) xs"
    using assms(1) by (rule id_take_nth_drop)
  have "xs[i := v] = take i xs @ v # drop (Suc i) xs"
    using assms(1) by (rule upd_conv_take_nth_drop)
  then have "length (filter P (xs[i := v])) =
      length (filter P (take i xs)) + length (filter P (drop (Suc i) xs))"
    using assms(3) by simp
  moreover have "length (filter P xs) =
      length (filter P (take i xs)) + length (filter P (drop (Suc i) xs)) + 1"
    by (subst xs) (simp add: assms(2))
  ultimately show ?thesis by simp
qed

section \<open>Decimal numerals\<close>

text \<open>The \<open>Display\<close> form of an unsigned integer.\<close>

fun show_nat :: "nat \<Rightarrow> string" where
  "show_nat n = (if n < 10 then [char_of (48 + n)] else show_nat (n div 10) @ [char_of (48 + n mod 10)])"

declare show_nat.simps [simp del]

definition is_digit :: "char \<Rightarrow> bool" where
  "is_digit c \<longleftrightarrow> 48 \<le> (of_char c :: nat) \<and> (of_char c :: nat) < 58"

definition read_nat :: "string \<Rightarrow> nat" where
  "read_nat s = foldl (\<lambda>n c. 10 * n + (of_char c - 48)) 0 s"

lemma of_char_digit [simp]: "d < 10 \<Longrightarrow> of_char (char_of (48 + d) :: char) = (48 + d :: nat)"
  by (simp add: of_char_of)

lemma show_nat_read: "read_nat (show_nat n) = n"
proof (induction n rule: show_nat.induct)
  case (1 n)
  show ?case
  proof (cases "n < 10")
    case True
    then show ?thesis by (subst show_nat.simps) (simp add: read_nat_def)
  next
    case False
    then have "read_nat (show_nat (n div 10) @ [char_of (48 + n mod 10)]) = 10 * read_nat (show_nat (n div 10)) + n mod 10"
      by (simp add: read_nat_def)
    with 1 False show ?thesis by (subst show_nat.simps) simp
  qed
qed

lemma show_nat_inj: "show_nat a = show_nat b \<Longrightarrow> a = b"
  by (metis show_nat_read)

lemma show_nat_digits: "c \<in> set (show_nat n) \<Longrightarrow> is_digit c"
proof (induction n rule: show_nat.induct)
  case (1 n)
  then show ?case by (cases "n < 10") (subst (asm) (2) show_nat.simps; auto simp: is_digit_def)+
qed

lemma show_nat_nonempty: "show_nat n \<noteq> []"
  by (subst show_nat.simps) simp

section \<open>Results of code that may panic\<close>

text \<open>
  A \<open>Result\<close> computed by code that may also panic: \<open>None\<close> is the panic, \<open>Err\<close> and \<open>Ok\<close> the two
  values. \<open>bindQ\<close> is the \<open>?\<close> operator and \<open>foldQ\<close> a loop whose body uses it.
\<close>

abbreviation Ok :: "'a \<Rightarrow> ('e + 'a) option" where "Ok x \<equiv> Some (Inr x)"
abbreviation Err :: "'e \<Rightarrow> ('e + 'a) option" where "Err e \<equiv> Some (Inl e)"

definition bindQ :: "('e + 'a) option \<Rightarrow> ('a \<Rightarrow> ('e + 'b) option) \<Rightarrow> ('e + 'b) option" where
  "bindQ r f = (case r of None \<Rightarrow> None | Some (Inl e) \<Rightarrow> Err e | Some (Inr x) \<Rightarrow> f x)"

lemma bindQ_simps [simp]: "bindQ None f = None" "bindQ (Err e) f = Err e" "bindQ (Ok x) f = f x"
  by (simp_all add: bindQ_def)

lemma bindQ_Ok_iff: "bindQ r f = Ok y \<longleftrightarrow> (\<exists>x. r = Ok x \<and> f x = Ok y)"
  by (auto simp: bindQ_def split: option.splits sum.splits)

lemma bindQ_cong [fundef_cong]: "r = r' \<Longrightarrow> (\<And>x. r' = Ok x \<Longrightarrow> f x = g x) \<Longrightarrow> bindQ r f = bindQ r' g"
  by (auto simp: bindQ_def split: option.splits sum.splits)

fun foldQ :: "('s \<Rightarrow> 'a \<Rightarrow> ('e + 's) option) \<Rightarrow> 's \<Rightarrow> 'a list \<Rightarrow> ('e + 's) option" where
  "foldQ f s [] = Ok s"
| "foldQ f s (x # xs) = bindQ (f s x) (\<lambda>s'. foldQ f s' xs)"

lemma foldQ_append: "foldQ f s (xs @ ys) = bindQ (foldQ f s xs) (\<lambda>t. foldQ f t ys)"
  by (induction xs arbitrary: s) (auto simp: bindQ_def split: option.splits sum.splits)

text \<open>A loop that may end in an error keeps an invariant; one whose steps succeed under it succeeds.\<close>

lemma foldQ_invariant:
  assumes "foldQ f s xs = Ok s'" and "I s" and "\<And>s x s'. x \<in> set xs \<Longrightarrow> I s \<Longrightarrow> f s x = Ok s' \<Longrightarrow> I s'"
  shows "I s'"
  using assms
proof (induction xs arbitrary: s)
  case (Cons x xs)
  then obtain s1 where s1: "f s x = Ok s1" "foldQ f s1 xs = Ok s'" by (auto simp: bindQ_Ok_iff)
  then have "I s1" using Cons.prems(2,3) by auto
  with Cons.IH [OF s1(2)] Cons.prems(3) show ?case by auto
qed simp

lemma foldQ_total:
  assumes "I s" and "\<And>s x. x \<in> set xs \<Longrightarrow> I s \<Longrightarrow> \<exists>s'. f s x = Ok s' \<and> I s'"
  shows "\<exists>s'. foldQ f s xs = Ok s' \<and> I s'"
  using assms
proof (induction xs arbitrary: s)
  case (Cons x xs)
  then obtain s1 where s1: "f s x = Ok s1" "I s1" by force
  with Cons.IH [OF s1(2)] Cons.prems(2) show ?case by auto
qed simp

text \<open>The invariant rule of a loop over a list, indexed by the number of items done.\<close>

lemma foldQ_steps:
  assumes "P 0 s" and "\<And>i s. i < length xs \<Longrightarrow> P i s \<Longrightarrow> \<exists>s'. f s (xs ! i) = Ok s' \<and> P (Suc i) s'"
  shows "\<exists>s'. foldQ f s xs = Ok s' \<and> P (length xs) s'"
  using assms
proof (induction xs arbitrary: s P)
  case (Cons x xs)
  obtain s1 where s1: "f s x = Ok s1" "P (Suc 0) s1" using Cons.prems(2) [of 0 s] Cons.prems(1) by auto
  from Cons.IH [of "\<lambda>i. P (Suc i)", OF s1(2)] Cons.prems(2) s1(1) show ?case by force
qed simp

end
