(* ===== verification/Integer_Arith.thy ===== *)
theory Integer_Arith
  imports Prelude
begin

text \<open>
  The compile-time Integer semantics shared by the evaluators:
  \<open>integer_division.rs\<close> and \<open>integer_binary.rs\<close> of \<open>rumoca-core\<close>. Values are
  \<open>i64\<close>; \<open>checked_div\<close> and \<open>checked_rem\<close> refuse a zero divisor and the pair
  \<open>(i64::MIN, -1)\<close>, whose quotient does not fit.
\<close>

section \<open>Division, remainder and modulo\<close>

definition checked_div_i64 :: "int \<Rightarrow> int \<Rightarrow> int option" where
  "checked_div_i64 lhs rhs = (if rhs = 0 then None else chk_i64 (lhs sdiv rhs))"

definition checked_rem_i64 :: "int \<Rightarrow> int \<Rightarrow> int option" where
  "checked_rem_i64 lhs rhs =
     (if rhs = 0 \<or> (lhs = i64_min \<and> rhs = -1) then None else Some (lhs smod rhs))"

definition eval_integer_slash :: "int \<Rightarrow> int \<Rightarrow> int option" where
  "eval_integer_slash lhs rhs = do {
     quotient \<leftarrow> checked_div_i64 lhs rhs;
     rem \<leftarrow> checked_rem_i64 lhs rhs;
     (if rem = 0 then Some quotient else None)
   }"

definition eval_integer_div_builtin :: "int \<Rightarrow> int \<Rightarrow> int option" where
  "eval_integer_div_builtin lhs rhs = checked_div_i64 lhs rhs"

definition eval_integer_mod_builtin :: "int \<Rightarrow> int \<Rightarrow> int option" where
  "eval_integer_mod_builtin lhs rhs =
     (if rhs = -1 then Some 0
      else do {
        rem \<leftarrow> checked_rem_i64 lhs rhs;
        (if rem \<noteq> 0 \<and> (rem < 0) \<noteq> (rhs < 0) then chk_i64 (rem + rhs) else Some rem)
      })"

definition eval_integer_rem_builtin :: "int \<Rightarrow> int \<Rightarrow> int option" where
  "eval_integer_rem_builtin lhs rhs =
     (if rhs = -1 then Some 0 else checked_rem_i64 lhs rhs)"

section \<open>Binary operators\<close>

definition integer_within_binary64_exact_range :: "int \<Rightarrow> bool" where
  "integer_within_binary64_exact_range value \<longleftrightarrow>
     - 9007199254740992 \<le> value \<and> value \<le> 9007199254740992"

datatype IntegerBinaryOperator = IAdd | ISub | IMul | IDiv | IExp

text \<open>
  The standard library's \<open>i64::checked_pow\<close>: the exact power, \<open>None\<close> if it does
  not fit.
\<close>

definition checked_pow_i64 :: "int \<Rightarrow> nat \<Rightarrow> int option" where
  "checked_pow_i64 base exponent = chk_i64 (base ^ exponent)"

definition eval_integer_binary :: "IntegerBinaryOperator \<Rightarrow> int \<Rightarrow> int \<Rightarrow> int option" where
  "eval_integer_binary op lhs rhs =
     (case op of
        IAdd \<Rightarrow> chk_i64 (lhs + rhs)
      | ISub \<Rightarrow> chk_i64 (lhs - rhs)
      | IMul \<Rightarrow> chk_i64 (lhs * rhs)
      | IDiv \<Rightarrow> eval_integer_slash lhs rhs
      | IExp \<Rightarrow> (if 0 \<le> rhs \<and> rhs \<le> int u32_max then checked_pow_i64 lhs (nat rhs) else None))"

datatype OpBinary =
    OpEmpty | OpAdd | OpSub | OpMul | OpDiv | OpEq | OpNeq | OpLt | OpLe | OpGt | OpGe
  | OpAnd | OpOr | OpExp | OpExpElem | OpAddElem | OpSubElem | OpMulElem | OpDivElem | OpAssign

definition integer_binary_operator_from_op :: "OpBinary \<Rightarrow> IntegerBinaryOperator option" where
  "integer_binary_operator_from_op op =
     (if op = OpAdd \<or> op = OpAddElem then Some IAdd
      else if op = OpSub \<or> op = OpSubElem then Some ISub
      else if op = OpMul \<or> op = OpMulElem then Some IMul
      else if op = OpDiv \<or> op = OpDivElem then Some IDiv
      else if op = OpExp \<or> op = OpExpElem then Some IExp
      else None)"

definition eval_ast_integer_binary :: "OpBinary \<Rightarrow> int \<Rightarrow> int \<Rightarrow> int option" where
  "eval_ast_integer_binary op lhs rhs = do {
     operator \<leftarrow> integer_binary_operator_from_op op;
     eval_integer_binary operator lhs rhs
   }"

section \<open>Correctness\<close>

lemma checked_div_i64_Some:
  "checked_div_i64 a b = Some q \<longleftrightarrow> b \<noteq> 0 \<and> q = a sdiv b \<and> in_i64 q"
  by (auto simp: checked_div_i64_def)

lemma sdiv_in_i64:
  assumes "in_i64 a" and "\<not> (a = i64_min \<and> b = -1)"
  shows "in_i64 (a sdiv b)"
proof (cases "a = i64_min")
  case False
  then have "- i64_max \<le> - \<bar>a\<bar>" and "\<bar>a\<bar> \<le> i64_max"
    using assms(1) by (auto simp: machine_int)
  with sdiv_int_range [of a b] show ?thesis by (auto simp: machine_int)
next
  case True
  with assms(2) have b: "b \<noteq> -1" by simp
  have le: "\<bar>a sdiv b\<bar> = \<bar>a\<bar> div \<bar>b\<bar>" if "b \<noteq> 0"
    using that True
    by (auto simp: signed_divide_int_def abs_mult abs_sgn_eq machine_int pos_imp_zdiv_nonneg_iff)
  show ?thesis
  proof (cases "b \<in> {0, 1}")
    case True
    with assms(1) show ?thesis by (auto simp: machine_int)
  next
    case False
    with b have "2 \<le> \<bar>b\<bar>" by auto
    then have "\<bar>a\<bar> div \<bar>b\<bar> \<le> \<bar>a\<bar> div 2"
      by (intro zdiv_mono2) auto
    with le False show ?thesis using True by (auto simp: machine_int)
  qed
qed

lemma smod_dvd_iff: "a smod b = 0 \<longleftrightarrow> b dvd (a::int)"
proof
  assume "a smod b = 0"
  then have "a = a sdiv b * b" using sdiv_mult_smod_eq [of a b] by simp
  then show "b dvd a" by (metis dvd_triv_right)
next
  assume "b dvd a"
  then have "\<bar>a\<bar> mod \<bar>b\<bar> = 0" by simp
  then show "a smod b = 0" by (simp add: signed_modulo_int_def)
qed

text \<open>The floored modulo corrects the truncated remainder by at most one divisor.\<close>

lemma mod_from_smod:
  fixes a b :: int
  assumes "b \<noteq> 0"
  shows "a mod b =
    (if a smod b \<noteq> 0 \<and> (a smod b < 0) \<noteq> (b < 0) then a smod b + b else a smod b)"
proof (cases "b dvd a")
  case True
  then show ?thesis by (simp add: smod_dvd_iff)
next
  case False
  then have nz: "a smod b \<noteq> 0" by (simp add: smod_dvd_iff)
  have "a \<noteq> 0" using False by auto
  have pos: "0 < \<bar>a\<bar> mod \<bar>b\<bar>"
    using False assms by (simp add: order_less_le flip: dvd_eq_mod_eq_0)
  have "a smod b < 0 \<longleftrightarrow> a < 0"
    using pos \<open>a \<noteq> 0\<close> by (auto simp: signed_modulo_int_def sgn_if)
  moreover have "sgn a \<noteq> sgn b \<longleftrightarrow> (a < 0) \<noteq> (b < 0)"
    using \<open>a \<noteq> 0\<close> assms by (auto simp: sgn_if)
  ultimately show ?thesis
    using nz False by (simp add: modulo_int_eq_signed_modulo_int)
qed

lemma mod_in_i64:
  assumes "in_i64 b" and "b \<noteq> 0"
  shows "in_i64 (a mod b)"
proof (cases "0 < b")
  case True
  then have "0 \<le> a mod b" and "a mod b < b" by simp_all
  with assms(1) show ?thesis by (auto simp: machine_int)
next
  case False
  with assms(2) have "a mod b \<le> 0" and "b < a mod b" by simp_all
  with assms(1) show ?thesis by (auto simp: machine_int)
qed

lemma sdiv_dvd:
  fixes a b :: int
  assumes "b dvd a" and "b \<noteq> 0"
  shows "a sdiv b = a div b"
proof -
  have "a sdiv b * b = a" using sdiv_mult_smod_eq [of a b] smod_dvd_iff [of a b] assms(1) by simp
  then show ?thesis using assms(2) by (metis nonzero_mult_div_cancel_right)
qed

lemma eval_integer_slash_iff:
  "eval_integer_slash lhs rhs = Some q \<longleftrightarrow>
     rhs \<noteq> 0 \<and> in_i64 q \<and> lhs = q * rhs \<and> (lhs \<noteq> i64_min \<or> rhs \<noteq> -1)"
proof -
  have "eval_integer_slash lhs rhs = Some q \<longleftrightarrow>
      rhs \<noteq> 0 \<and> in_i64 q \<and> rhs dvd lhs \<and> q = lhs sdiv rhs \<and> (lhs \<noteq> i64_min \<or> rhs \<noteq> -1)"
    by (auto simp: eval_integer_slash_def checked_div_i64_Some checked_rem_i64_def res_simps
        smod_dvd_iff)
  moreover have "rhs dvd lhs \<and> q = lhs sdiv rhs \<longleftrightarrow> lhs = q * rhs" if "rhs \<noteq> 0"
    using that sdiv_dvd [of rhs lhs] by auto
  ultimately show ?thesis by blast
qed

section \<open>Properties\<close>

text \<open>C39: \<open>mod\<close> of two Integers is the floored modulo \<open>lhs - floor(lhs/rhs) * rhs\<close> for
  every pair of 64-bit values with a nonzero divisor, \<open>(i64::MIN, -1)\<close> included, and
  fails only for a zero divisor.\<close>

theorem eval_integer_mod_correct:
  assumes "in_i64 lhs" and "in_i64 rhs"
  shows "eval_integer_mod_builtin lhs rhs = (if rhs = 0 then None else Some (lhs mod rhs))"
proof -
  consider (zero) "rhs = 0" | (one) "rhs = -1" | (other) "rhs \<noteq> 0" "rhs \<noteq> -1" by blast
  then show ?thesis
  proof cases
    case other
    then show ?thesis
      using mod_from_smod [of rhs lhs] mod_in_i64 [OF assms(2), of lhs]
      by (auto simp: eval_integer_mod_builtin_def checked_rem_i64_def chk_i64_def split: if_splits)
  qed (auto simp: eval_integer_mod_builtin_def checked_rem_i64_def)
qed

theorem eval_integer_mod_correct_witness:
  "eval_integer_mod_builtin (-7) 3 = Some 2 \<and> eval_integer_mod_builtin i64_min (-1) = Some 0"
  using eval_integer_mod_correct [of "-7" 3] eval_integer_mod_correct [of i64_min "-1"]
  by (simp add: machine_int)

text \<open>C40: \<open>div\<close> truncates toward zero and fails exactly for a zero divisor or the one
  quotient that leaves \<open>i64\<close>; \<open>rem\<close> fails only for a zero divisor; together they
  satisfy \<open>lhs = rhs * div + rem\<close> with \<open>|rem| < |rhs|\<close> and the sign of the dividend; and
  \<open>/\<close> folds exactly the representable exact quotients.\<close>

theorem eval_integer_div_rem_correct:
  assumes "in_i64 lhs" and "in_i64 rhs"
  shows "(eval_integer_div_builtin lhs rhs = None \<longleftrightarrow> rhs = 0 \<or> (lhs = i64_min \<and> rhs = -1)) \<and>
    (eval_integer_rem_builtin lhs rhs = None \<longleftrightarrow> rhs = 0) \<and>
    (\<forall>q r. eval_integer_div_builtin lhs rhs = Some q \<longrightarrow> eval_integer_rem_builtin lhs rhs = Some r \<longrightarrow>
      lhs = rhs * q + r \<and> \<bar>r\<bar> < \<bar>rhs\<bar> \<and> 0 \<le> lhs * r) \<and>
    (\<forall>q. eval_integer_slash lhs rhs = Some q \<longleftrightarrow> rhs \<noteq> 0 \<and> in_i64 q \<and> lhs = q * rhs)"
proof (intro conjI allI impI)
  have min: "\<not> in_i64 (i64_min sdiv (-1))" by (simp add: machine_int signed_divide_int_def)
  show "eval_integer_div_builtin lhs rhs = None \<longleftrightarrow> rhs = 0 \<or> (lhs = i64_min \<and> rhs = -1)"
    using sdiv_in_i64 [OF assms(1), of rhs] min
    by (auto simp: eval_integer_div_builtin_def checked_div_i64_def chk_i64_def split: if_splits)
  show "eval_integer_rem_builtin lhs rhs = None \<longleftrightarrow> rhs = 0"
    by (auto simp: eval_integer_rem_builtin_def checked_rem_i64_def)
  fix q r
  assume q: "eval_integer_div_builtin lhs rhs = Some q" and r: "eval_integer_rem_builtin lhs rhs = Some r"
  have q': "q = lhs sdiv rhs" "rhs \<noteq> 0"
    using q by (auto simp: eval_integer_div_builtin_def checked_div_i64_Some)
  have r': "r = lhs smod rhs"
    using r smod_dvd_iff [of lhs "-1"]
    by (auto simp: eval_integer_rem_builtin_def checked_rem_i64_def split: if_splits)
  show "lhs = rhs * q + r"
    using sdiv_mult_smod_eq [of lhs rhs] by (simp add: q' r' mult.commute)
  show "\<bar>r\<bar> < \<bar>rhs\<bar>" "0 \<le> lhs * r"
    using q'(2) by (auto simp: r' signed_modulo_int_def abs_mult sgn_if mult_le_0_iff)
next
  fix q show "eval_integer_slash lhs rhs = Some q \<longleftrightarrow> rhs \<noteq> 0 \<and> in_i64 q \<and> lhs = q * rhs"
    by (auto simp: eval_integer_slash_iff machine_int)
qed

theorem eval_integer_div_rem_correct_witness:
  "eval_integer_div_builtin i64_min (-1) = None \<and> eval_integer_rem_builtin i64_min (-1) \<noteq> None \<and>
   eval_integer_slash 12 4 = Some 3 \<and> eval_integer_slash 7 2 \<noteq> Some 3"
  using eval_integer_div_rem_correct [of i64_min "-1"] eval_integer_div_rem_correct [of 12 4]
    eval_integer_div_rem_correct [of 7 2]
  by (simp add: machine_int)

text \<open>Folding an Integer operator of the syntax tree never wraps: a result is in
  \<open>i64\<close> and is the exact sum, difference, product, quotient or power, and the sum,
  difference and product are folded whenever they fit.\<close>

lemma eval_ast_integer_binary_exact:
  "(\<forall>v. eval_ast_integer_binary op lhs rhs = Some v \<longrightarrow> in_i64 v \<and>
      (op \<in> {OpAdd, OpAddElem} \<and> v = lhs + rhs \<or> op \<in> {OpSub, OpSubElem} \<and> v = lhs - rhs \<or>
       op \<in> {OpMul, OpMulElem} \<and> v = lhs * rhs \<or>
       op \<in> {OpDiv, OpDivElem} \<and> rhs \<noteq> 0 \<and> v * rhs = lhs \<or>
       op \<in> {OpExp, OpExpElem} \<and> 0 \<le> rhs \<and> v = lhs ^ nat rhs)) \<and>
    (in_i64 (lhs + rhs) \<longrightarrow> eval_ast_integer_binary OpAdd lhs rhs = Some (lhs + rhs)) \<and>
    (in_i64 (lhs - rhs) \<longrightarrow> eval_ast_integer_binary OpSub lhs rhs = Some (lhs - rhs)) \<and>
    (in_i64 (lhs * rhs) \<longrightarrow> eval_ast_integer_binary OpMul lhs rhs = Some (lhs * rhs))"
  by (auto simp: eval_ast_integer_binary_def integer_binary_operator_from_op_def
      eval_integer_binary_def checked_pow_i64_def eval_integer_slash_iff res_simps
      split: if_splits)

end
