(* ===== verification/Intervals.thy ===== *)
theory Intervals
  imports Integer_Arith
begin

text \<open>
  Integer intervals with unproven endpoints, \<open>structured_domain/interval.rs\<close> of
  \<open>rumoca-core\<close>: the facts a guard proves about an Integer. An endpoint is an \<open>i64\<close>
  or absent; every operation is checked and drops an endpoint that overflows. The
  abstract meaning is the set of integers between the endpoints; each operation is
  shown sound for it, and the lattice operations exact.
\<close>

section \<open>The data and its operations\<close>

record IntegerInterval =
  lower :: "int option"
  upper :: "int option"

definition UNBOUNDED :: IntegerInterval where
  "UNBOUNDED = \<lparr>lower = None, upper = None\<rparr>"

definition finite_interval :: "int \<Rightarrow> int \<Rightarrow> IntegerInterval" where
  "finite_interval lo up = \<lparr>lower = Some (min lo up), upper = Some (max lo up)\<rparr>"

definition exact_interval :: "int \<Rightarrow> IntegerInterval" where
  "exact_interval value = finite_interval value value"

definition bounds :: "IntegerInterval \<Rightarrow> (int \<times> int) option" where
  "bounds iv = do { lo \<leftarrow> lower iv; up \<leftarrow> upper iv; Some (lo, up) }"

definition interval_is_unbounded :: "IntegerInterval \<Rightarrow> bool" where
  "interval_is_unbounded iv \<longleftrightarrow> lower iv = None \<and> upper iv = None"

definition interval_is_empty :: "IntegerInterval \<Rightarrow> bool" where
  "interval_is_empty iv =
     (case (lower iv, upper iv) of (Some lo, Some up) \<Rightarrow> lo > up | _ \<Rightarrow> False)"

definition max_endpoint :: "int option \<Rightarrow> int option \<Rightarrow> int option" where
  "max_endpoint lhs rhs =
     (case (lhs, rhs) of (Some a, Some b) \<Rightarrow> Some (max a b) | (v, None) \<Rightarrow> v | (None, v) \<Rightarrow> v)"

definition min_endpoint :: "int option \<Rightarrow> int option \<Rightarrow> int option" where
  "min_endpoint lhs rhs =
     (case (lhs, rhs) of (Some a, Some b) \<Rightarrow> Some (min a b) | (v, None) \<Rightarrow> v | (None, v) \<Rightarrow> v)"

definition zip_with :: "(int \<Rightarrow> int \<Rightarrow> int) \<Rightarrow> int option \<Rightarrow> int option \<Rightarrow> int option" where
  "zip_with f lhs rhs = do { a \<leftarrow> lhs; b \<leftarrow> rhs; Some (f a b) }"

definition meet :: "IntegerInterval \<Rightarrow> IntegerInterval \<Rightarrow> IntegerInterval" where
  "meet a b = \<lparr>lower = max_endpoint (lower a) (lower b), upper = min_endpoint (upper a) (upper b)\<rparr>"

definition hull :: "IntegerInterval \<Rightarrow> IntegerInterval \<Rightarrow> IntegerInterval" where
  "hull a b = \<lparr>lower = zip_with min (lower a) (lower b), upper = zip_with max (upper a) (upper b)\<rparr>"

definition negate :: "IntegerInterval \<Rightarrow> IntegerInterval" where
  "negate a =
     \<lparr>lower = Option.bind (upper a) (\<lambda>v. chk_i64 (- v)),
      upper = Option.bind (lower a) (\<lambda>v. chk_i64 (- v))\<rparr>"

definition checked_endpoint ::
  "int option \<Rightarrow> int option \<Rightarrow> (int \<Rightarrow> int \<Rightarrow> int option) \<Rightarrow> int option" where
  "checked_endpoint lhs rhs operation = do { a \<leftarrow> lhs; b \<leftarrow> rhs; operation a b }"

definition plus_interval :: "IntegerInterval \<Rightarrow> IntegerInterval \<Rightarrow> IntegerInterval" where
  "plus_interval a b =
     \<lparr>lower = checked_endpoint (lower a) (lower b) (\<lambda>x y. chk_i64 (x + y)),
      upper = checked_endpoint (upper a) (upper b) (\<lambda>x y. chk_i64 (x + y))\<rparr>"

definition minus_interval :: "IntegerInterval \<Rightarrow> IntegerInterval \<Rightarrow> IntegerInterval" where
  "minus_interval a b = plus_interval a (negate b)"

definition corner_products :: "int \<times> int \<Rightarrow> int \<times> int \<Rightarrow> (int \<times> int) option" where
  "corner_products lhs rhs = do {
     p \<leftarrow> chk_i64 (fst lhs * fst rhs);
     q \<leftarrow> chk_i64 (fst lhs * snd rhs);
     r \<leftarrow> chk_i64 (snd lhs * fst rhs);
     s \<leftarrow> chk_i64 (snd lhs * snd rhs);
     Some (min (min p q) (min r s), max (max p q) (max r s))
   }"

definition constant_value :: "IntegerInterval \<Rightarrow> int option" where
  "constant_value a = do { (lo, up) \<leftarrow> bounds a; (if lo = up then Some lo else None) }"

definition scale :: "IntegerInterval \<Rightarrow> int \<Rightarrow> IntegerInterval" where
  "scale a factor =
     (let scaled = \<lparr>lower = Option.bind (lower a) (\<lambda>v. chk_i64 (v * factor)),
                    upper = Option.bind (upper a) (\<lambda>v. chk_i64 (v * factor))\<rparr>
      in if factor < 0 then \<lparr>lower = upper scaled, upper = lower scaled\<rparr> else scaled)"

definition times_interval :: "IntegerInterval \<Rightarrow> IntegerInterval \<Rightarrow> IntegerInterval" where
  "times_interval a b =
     (case (bounds a, bounds b) of
        (Some lhs, Some rhs) \<Rightarrow>
          (case corner_products lhs rhs of
             None \<Rightarrow> UNBOUNDED
           | Some (lo, up) \<Rightarrow> finite_interval lo up)
      | _ \<Rightarrow>
          (case (constant_value a, constant_value b) of
             (Some factor, _) \<Rightarrow> scale b factor
           | (None, Some factor) \<Rightarrow> scale a factor
           | (None, None) \<Rightarrow> UNBOUNDED))"

definition minimum_interval :: "IntegerInterval \<Rightarrow> IntegerInterval \<Rightarrow> IntegerInterval" where
  "minimum_interval a b =
     \<lparr>lower = zip_with min (lower a) (lower b), upper = min_endpoint (upper a) (upper b)\<rparr>"

definition maximum_interval :: "IntegerInterval \<Rightarrow> IntegerInterval \<Rightarrow> IntegerInterval" where
  "maximum_interval a b =
     \<lparr>lower = max_endpoint (lower a) (lower b), upper = zip_with max (upper a) (upper b)\<rparr>"

definition divided_by :: "IntegerInterval \<Rightarrow> int \<Rightarrow> IntegerInterval" where
  "divided_by a divisor =
     (if divisor \<le> 0 then UNBOUNDED
      else \<lparr>lower = Option.bind (lower a) (\<lambda>v. checked_div_i64 v divisor),
            upper = Option.bind (upper a) (\<lambda>v. checked_div_i64 v divisor)\<rparr>)"

section \<open>Meaning\<close>

definition gamma :: "IntegerInterval \<Rightarrow> int set" where
  "gamma iv = {v. (\<forall>lo. lower iv = Some lo \<longrightarrow> lo \<le> v) \<and> (\<forall>up. upper iv = Some up \<longrightarrow> v \<le> up)}"

definition interval_ok :: "IntegerInterval \<Rightarrow> bool" where
  "interval_ok iv \<longleftrightarrow> (\<forall>v. lower iv = Some v \<longrightarrow> in_i64 v) \<and> (\<forall>v. upper iv = Some v \<longrightarrow> in_i64 v)"

text \<open>
  The contract the binary operations share: the operation on intervals covers the
  operation on the values. A chain of operations is covered too.
\<close>

locale covers =
  fixes meaning :: "'a \<Rightarrow> int set"
    and concrete :: "int \<Rightarrow> int \<Rightarrow> int"
    and abstract :: "'a \<Rightarrow> 'a \<Rightarrow> 'a"
  assumes sound: "x \<in> meaning a \<Longrightarrow> y \<in> meaning b \<Longrightarrow> concrete x y \<in> meaning (abstract a b)"
begin

lemma fold_sound:
  assumes "list_all2 (\<lambda>x a. x \<in> meaning a) xs as" and "x \<in> meaning a"
  shows "foldl concrete x xs \<in> meaning (foldl abstract a as)"
  using assms
proof (induction xs as arbitrary: x a rule: list_all2_induct)
  case Nil
  then show ?case by simp
next
  case (Cons y ys b bs)
  then have "concrete x y \<in> meaning (abstract a b)" by (simp add: sound)
  then show ?case using Cons.IH by simp
qed

end

lemma gamma_UNBOUNDED [simp]: "gamma UNBOUNDED = UNIV"
  by (simp add: gamma_def UNBOUNDED_def)

lemma bounds_Some: "bounds a = Some (lo, up) \<longleftrightarrow> lower a = Some lo \<and> upper a = Some up"
  by (cases "lower a"; cases "upper a") (auto simp: bounds_def)

lemma constant_value_Some: "constant_value a = Some k \<longleftrightarrow> lower a = Some k \<and> upper a = Some k"
  by (cases "lower a"; cases "upper a") (auto simp: constant_value_def bounds_def)

lemma gamma_finite [simp]: "gamma (finite_interval lo up) = {min lo up..max lo up}"
  by (auto simp: gamma_def finite_interval_def)

lemma gamma_constant: "constant_value a = Some k \<Longrightarrow> x \<in> gamma a \<Longrightarrow> x = k"
  by (auto simp: constant_value_Some gamma_def)

lemma gamma_bounds: "bounds a = Some (lo, up) \<Longrightarrow> gamma a = {lo..up}"
  by (auto simp: bounds_Some gamma_def)

lemma gamma_negate: "x \<in> gamma a \<Longrightarrow> - x \<in> gamma (negate a)"
  by (auto simp: gamma_def negate_def res_simps)

lemma gamma_plus: "x \<in> gamma a \<Longrightarrow> y \<in> gamma b \<Longrightarrow> x + y \<in> gamma (plus_interval a b)"
  by (force simp: gamma_def plus_interval_def checked_endpoint_def res_simps intro: add_mono)

lemma gamma_scale: "x \<in> gamma a \<Longrightarrow> x * k \<in> gamma (scale a k)"
  by (auto simp: gamma_def scale_def Let_def res_simps intro: mult_right_mono mult_right_mono_neg)

text \<open>A product of two bounded factors lies between the least and the greatest corner.\<close>

lemma mult_between:
  fixes x k a b :: int
  assumes "a \<le> x" and "x \<le> b"
  shows "min (a * k) (b * k) \<le> x * k" and "x * k \<le> max (a * k) (b * k)"
  using assms by (cases "0 \<le> k"; auto simp: min_def max_def
      intro: mult_right_mono mult_right_mono_neg order_trans)+

lemma corner_bounds:
  fixes x y a b c d :: int
  assumes "a \<le> x" "x \<le> b" "c \<le> y" "y \<le> d"
  shows "min (min (a * c) (a * d)) (min (b * c) (b * d)) \<le> x * y"
    and "x * y \<le> max (max (a * c) (a * d)) (max (b * c) (b * d))"
proof -
  have 1: "min (a * y) (b * y) \<le> x * y" "x * y \<le> max (a * y) (b * y)"
    using mult_between [OF assms(1,2)] by auto
  have 2: "min (a * c) (a * d) \<le> a * y" "a * y \<le> max (a * c) (a * d)"
    using mult_between [OF assms(3,4), of a] by (auto simp: mult.commute)
  have 3: "min (b * c) (b * d) \<le> b * y" "b * y \<le> max (b * c) (b * d)"
    using mult_between [OF assms(3,4), of b] by (auto simp: mult.commute)
  show "min (min (a * c) (a * d)) (min (b * c) (b * d)) \<le> x * y"
    using 1(1) 2(1) 3(1) by linarith
  show "x * y \<le> max (max (a * c) (a * d)) (max (b * c) (b * d))"
    using 1(2) 2(2) 3(2) by linarith
qed

lemma gamma_times_finite:
  assumes "bounds a = Some (la, ua)" "bounds b = Some (lb, ub)"
    and "x \<in> gamma a" "y \<in> gamma b"
  shows "x * y \<in> gamma (times_interval a b)"
proof (cases "corner_products (la, ua) (lb, ub)")
  case None
  with assms(1,2) show ?thesis by (simp add: times_interval_def)
next
  case (Some p)
  have x: "la \<le> x" "x \<le> ua" using gamma_bounds [OF assms(1)] assms(3) by auto
  have y: "lb \<le> y" "y \<le> ub" using gamma_bounds [OF assms(2)] assms(4) by auto
  have p: "p = (min (min (la * lb) (la * ub)) (min (ua * lb) (ua * ub)),
      max (max (la * lb) (la * ub)) (max (ua * lb) (ua * ub)))"
    using Some by (auto simp: corner_products_def res_simps)
  show ?thesis
    using assms(1,2) Some corner_bounds [OF x y]
    by (simp add: times_interval_def p min_le_iff_disj le_max_iff_disj)
qed

lemma gamma_times: "x \<in> gamma a \<Longrightarrow> y \<in> gamma b \<Longrightarrow> x * y \<in> gamma (times_interval a b)"
proof (cases "bounds a = None \<or> bounds b = None")
  case True
  assume x: "x \<in> gamma a" and y: "y \<in> gamma b"
  have t: "times_interval a b = (case (constant_value a, constant_value b) of
      (Some factor, _) \<Rightarrow> scale b factor | (None, Some factor) \<Rightarrow> scale a factor
    | (None, None) \<Rightarrow> UNBOUNDED)"
    using True by (auto simp: times_interval_def split: option.splits)
  show ?thesis
  proof (cases "constant_value a")
    case (Some k)
    then have "x = k" using x by (rule gamma_constant)
    then show ?thesis using Some gamma_scale [OF y, of k] t by (simp add: mult.commute)
  next
    case None
    show ?thesis
    proof (cases "constant_value b")
      case (Some k)
      then have "y = k" using y by (rule gamma_constant)
      then show ?thesis using None Some gamma_scale [OF x, of k] t by simp
    next
      case None
      with \<open>constant_value a = None\<close> show ?thesis using t by simp
    qed
  qed
next
  case False
  then show "x \<in> gamma a \<Longrightarrow> y \<in> gamma b \<Longrightarrow> x * y \<in> gamma (times_interval a b)"
    using gamma_times_finite by auto
qed

lemma gamma_minimum:
  "x \<in> gamma a \<Longrightarrow> y \<in> gamma b \<Longrightarrow> min x y \<in> gamma (minimum_interval a b)"
  by (force simp: gamma_def minimum_interval_def zip_with_def min_endpoint_def res_simps
      split: option.splits)

lemma gamma_maximum:
  "x \<in> gamma a \<Longrightarrow> y \<in> gamma b \<Longrightarrow> max x y \<in> gamma (maximum_interval a b)"
  by (force simp: gamma_def maximum_interval_def zip_with_def max_endpoint_def res_simps
      split: option.splits)

lemma gamma_minus: "x \<in> gamma a \<Longrightarrow> y \<in> gamma b \<Longrightarrow> x - y \<in> gamma (minus_interval a b)"
  using gamma_plus [OF _ gamma_negate, of x a y b] by (simp add: minus_interval_def)

interpretation cov_plus: covers gamma "(+)" plus_interval
  by unfold_locales (rule gamma_plus)

interpretation cov_minus: covers gamma "(-)" minus_interval
  by unfold_locales (rule gamma_minus)

interpretation cov_times: covers gamma "(*)" times_interval
  by unfold_locales (rule gamma_times)

interpretation cov_min: covers gamma min minimum_interval
  by unfold_locales (rule gamma_minimum)

interpretation cov_max: covers gamma max maximum_interval
  by unfold_locales (rule gamma_maximum)

lemma gamma_meet: "gamma (meet a b) = gamma a \<inter> gamma b"
  by (force simp: gamma_def meet_def max_endpoint_def min_endpoint_def split: option.splits)

lemma gamma_hull_upper: "gamma a \<union> gamma b \<subseteq> gamma (hull a b)"
  by (force simp: gamma_def hull_def zip_with_def res_simps)

lemma sdiv_mono:
  fixes a b d :: int
  assumes "a \<le> b" and "0 < d"
  shows "a sdiv d \<le> b sdiv d"
proof -
  consider "0 \<le> a" | "a < 0" "0 \<le> b" | "b < 0" using assms(1) by linarith
  then show ?thesis
  proof cases
    case 1
    then have "a sdiv d = a div d" "b sdiv d = b div d"
      using assms by (auto simp: signed_divide_int_def sgn_if)
    then show ?thesis using assms by (simp add: zdiv_mono1)
  next
    case 2
    then have "a sdiv d \<le> 0" "0 \<le> b sdiv d"
      using assms by (auto simp: signed_divide_int_def sgn_if pos_imp_zdiv_nonneg_iff)
    then show ?thesis by linarith
  next
    case 3
    then have "a sdiv d = - ((- a) div d)" "b sdiv d = - ((- b) div d)"
      using assms by (auto simp: signed_divide_int_def sgn_if)
    then show ?thesis using assms by (simp add: zdiv_mono1)
  qed
qed

lemma gamma_divided_by: "0 < d \<Longrightarrow> x \<in> gamma a \<Longrightarrow> x sdiv d \<in> gamma (divided_by a d)"
  by (auto simp: gamma_def divided_by_def res_simps checked_div_i64_Some intro: sdiv_mono)

text \<open>An interval that is not empty holds both its endpoints, so the hull is least.\<close>

lemma gamma_lower_in: "\<not> interval_is_empty a \<Longrightarrow> lower a = Some lo \<Longrightarrow> lo \<in> gamma a"
  by (auto simp: gamma_def interval_is_empty_def split: option.splits)

lemma gamma_upper_in: "\<not> interval_is_empty a \<Longrightarrow> upper a = Some up \<Longrightarrow> up \<in> gamma a"
  by (auto simp: gamma_def interval_is_empty_def split: option.splits)

lemma gamma_empty_iff: "gamma a = {} \<longleftrightarrow> interval_is_empty a"
proof
  show "interval_is_empty a" if "gamma a = {}"
  proof (rule ccontr)
    assume ne: "\<not> interval_is_empty a"
    show False
    proof (cases "lower a")
      case None
      then have "(case upper a of None \<Rightarrow> 0 | Some u \<Rightarrow> u) \<in> gamma a"
        by (auto simp: gamma_def split: option.splits)
      with that show False by simp
    next
      case (Some lo)
      with ne gamma_lower_in that show False by blast
    qed
  qed
qed (auto simp: gamma_def interval_is_empty_def split: option.splits)

lemma lower_None_unbounded:
  assumes "lower a = None"
  shows "\<exists>v \<in> gamma a. v < k"
proof -
  define v where "v = min (k - 1) (case upper a of None \<Rightarrow> 0 | Some u \<Rightarrow> u)"
  have "v \<in> gamma a" using assms by (auto simp: gamma_def v_def split: option.splits)
  moreover have "v < k" by (simp add: v_def)
  ultimately show ?thesis by blast
qed

lemma upper_None_unbounded:
  assumes "upper a = None"
  shows "\<exists>v \<in> gamma a. k < v"
proof -
  define v where "v = max (k + 1) (case lower a of None \<Rightarrow> 0 | Some u \<Rightarrow> u)"
  have "v \<in> gamma a" using assms by (auto simp: gamma_def v_def split: option.splits)
  moreover have "k < v" by (simp add: v_def)
  ultimately show ?thesis by blast
qed

lemma hull_least:
  assumes ne: "\<not> interval_is_empty a" "\<not> interval_is_empty b"
    and sub: "gamma a \<union> gamma b \<subseteq> gamma c"
  shows "gamma (hull a b) \<subseteq> gamma c"
proof
  fix v assume v: "v \<in> gamma (hull a b)"
  have "k \<le> v" if k: "lower c = Some k" for k
  proof -
    have ge: "\<And>w. w \<in> gamma a \<union> gamma b \<Longrightarrow> k \<le> w"
      using sub k by (auto simp: gamma_def)
    obtain la where la: "lower a = Some la"
      using lower_None_unbounded [of a k] ge by (cases "lower a") (auto, fastforce)
    obtain lb where lb: "lower b = Some lb"
      using lower_None_unbounded [of b k] ge by (cases "lower b") (auto, fastforce)
    have "k \<le> min la lb" using ge gamma_lower_in ne la lb by auto
    with v la lb show ?thesis by (auto simp: gamma_def hull_def zip_with_def)
  qed
  moreover have "v \<le> k" if k: "upper c = Some k" for k
  proof -
    have ge: "\<And>w. w \<in> gamma a \<union> gamma b \<Longrightarrow> w \<le> k"
      using sub k by (auto simp: gamma_def)
    obtain la where la: "upper a = Some la"
      using upper_None_unbounded [of a k] ge by (cases "upper a") (auto, fastforce)
    obtain lb where lb: "upper b = Some lb"
      using upper_None_unbounded [of b k] ge by (cases "upper b") (auto, fastforce)
    have "max la lb \<le> k" using ge gamma_upper_in ne la lb by auto
    with v la lb show ?thesis by (auto simp: gamma_def hull_def zip_with_def)
  qed
  ultimately show "v \<in> gamma c" by (auto simp: gamma_def)
qed

section \<open>Properties\<close>

text \<open>C38: Interval arithmetic is sound: a chain of additions, subtractions,
  multiplications, minima or maxima over values lying in their intervals lies in the
  interval the same chain of interval operations computes, whatever endpoints are
  unproven and whatever endpoint overflows; negation and truncating division by a
  positive constant are sound too.\<close>

theorem interval_arithmetic_sound:
  assumes xs: "list_all2 (\<lambda>x a. x \<in> gamma a) xs as" and x: "x \<in> gamma a"
  shows "foldl (+) x xs \<in> gamma (foldl plus_interval a as) \<and>
    foldl (-) x xs \<in> gamma (foldl minus_interval a as) \<and>
    foldl (*) x xs \<in> gamma (foldl times_interval a as) \<and>
    foldl min x xs \<in> gamma (foldl minimum_interval a as) \<and>
    foldl max x xs \<in> gamma (foldl maximum_interval a as) \<and>
    - x \<in> gamma (negate a) \<and> (0 < d \<longrightarrow> x sdiv d \<in> gamma (divided_by a d))"
  using cov_plus.fold_sound [OF assms] cov_minus.fold_sound [OF assms] cov_times.fold_sound [OF assms]
    cov_min.fold_sound [OF assms] cov_max.fold_sound [OF assms] gamma_negate [OF x] gamma_divided_by [OF _ x]
  by simp

theorem interval_arithmetic_sound_witness:
  "foldl (*) 2 [- 4] \<in> gamma (foldl times_interval (finite_interval (-3) 2)
     [\<lparr>lower = Some (-5), upper = Some 7\<rparr>])"
proof -
  have a: "list_all2 (\<lambda>x a. x \<in> gamma a) [- 4 :: int] [\<lparr>lower = Some (-5), upper = Some 7\<rparr>]"
    by (simp add: gamma_def)
  have b: "2 \<in> gamma (finite_interval (-3) 2)" by simp
  show ?thesis using interval_arithmetic_sound [OF a b] by blast
qed

text \<open>The lattice operations are exact: \<open>meet\<close> is intersection, an interval is
  reported empty iff no Integer lies in it, and \<open>hull\<close> of non-empty intervals is the
  least interval that holds both.\<close>

lemma interval_lattice_exact:
  "gamma (meet a b) = gamma a \<inter> gamma b \<and> (interval_is_empty a \<longleftrightarrow> gamma a = {}) \<and>
   gamma a \<union> gamma b \<subseteq> gamma (hull a b) \<and>
   (\<not> interval_is_empty a \<and> \<not> interval_is_empty b \<and> gamma a \<union> gamma b \<subseteq> gamma c \<longrightarrow>
     gamma (hull a b) \<subseteq> gamma c)"
  using gamma_meet gamma_empty_iff [of a] gamma_hull_upper hull_least by blast

end
