(* ===== verification/Clock_Lattice.thy ===== *)
theory Clock_Lattice
  imports Prelude Complex_Main
begin

text \<open>
  Exact rational base-clock lattices, \<open>clock_lattice.rs\<close> of \<open>rumoca-core\<close>: reduced
  \<open>i128\<close> fractions with checked arithmetic and an overflow-free comparison, and the
  periodic clocks of MLS 16 built from them with the sub-clock conversions.
  \<open>rational\<close> is the number a fraction stands for and \<open>canonical\<close> the invariant of
  the type; the arithmetic is shown exact, the product and the same-denominator sum
  also complete, the comparison the order of the numbers, and the conversion operators
  the tick relations the language defines. The conversions from and to \<open>f64\<close> seconds
  are not modelled here.
\<close>

section \<open>Errors, fractions and their helpers\<close>

datatype ClockLatticeErrorKind =
    NonFiniteSeconds | ZeroDenominator | NonPositivePeriod | NonPositiveFactor
  | IntegerOverflow | NotRationallyRepresentable | ClockStartsBeforeBaseClock

type_synonym 'a LatticeResult = "ClockLatticeErrorKind + 'a"

record ClockRational =
  num :: int
  den :: int

definition ZERO :: ClockRational where "ZERO = \<lparr>num = 0, den = 1\<rparr>"

definition ONE :: ClockRational where "ONE = \<lparr>num = 1, den = 1\<rparr>"

definition integer_rational :: "int \<Rightarrow> ClockRational" where
  "integer_rational value = \<lparr>num = value, den = 1\<rparr>"

definition is_zero :: "ClockRational \<Rightarrow> bool" where "is_zero r \<longleftrightarrow> num r = 0"

definition is_positive :: "ClockRational \<Rightarrow> bool" where "is_positive r \<longleftrightarrow> num r > 0"

text \<open>\<open>i128::unsigned_abs\<close>, and the cast \<open>as u128\<close>.\<close>

definition unsigned_abs :: "int \<Rightarrow> nat" where "unsigned_abs x = nat \<bar>x\<bar>"

definition as_u128 :: "int \<Rightarrow> nat" where
  "as_u128 x = nat (x mod 340282366920938463463374607431768211456)"

function gcd_loop :: "nat \<Rightarrow> nat \<Rightarrow> nat" where
  "gcd_loop a b = (if b \<noteq> 0 then gcd_loop b (a mod b) else a)"
  by pat_completeness auto
termination
  by (relation "measure snd") auto

declare gcd_loop.simps [simp del]

definition gcd_u128 :: "nat \<Rightarrow> nat \<Rightarrow> nat" where
  "gcd_u128 a b = (let a = gcd_loop a b in if a = 0 then 1 else a)"

definition positive_from_magnitude :: "nat \<Rightarrow> int LatticeResult" where
  "positive_from_magnitude value = ok_or (chk_i128 (int value)) IntegerOverflow"

definition signed_from_magnitude :: "nat \<Rightarrow> bool \<Rightarrow> int LatticeResult" where
  "signed_from_magnitude value negative =
     (if \<not> negative then positive_from_magnitude value
      else if value = 170141183460469231731687303715884105728 then Inr i128_min
      else bindR (positive_from_magnitude value) (\<lambda>v. Inr (- v)))"

definition divide_signed_by_unsigned :: "int \<Rightarrow> nat \<Rightarrow> int LatticeResult" where
  "divide_signed_by_unsigned value divisor =
     signed_from_magnitude (unsigned_abs value div divisor) (value < 0)"

definition divide_positive_by_unsigned :: "int \<Rightarrow> nat \<Rightarrow> int LatticeResult" where
  "divide_positive_by_unsigned value divisor = positive_from_magnitude (as_u128 value div divisor)"

section \<open>Checked arithmetic\<close>

definition from_signed_magnitude :: "nat \<Rightarrow> bool \<Rightarrow> nat \<Rightarrow> ClockRational LatticeResult" where
  "from_signed_magnitude numerator negative denominator =
     (if numerator = 0 then Inr ZERO
      else let divisor = gcd_u128 numerator denominator in
        bindR (signed_from_magnitude (numerator div divisor) negative) (\<lambda>n.
        bindR (positive_from_magnitude (denominator div divisor)) (\<lambda>d.
        Inr \<lparr>num = n, den = d\<rparr>)))"

definition reduce :: "int \<Rightarrow> int \<Rightarrow> ClockRational LatticeResult" where
  "reduce n d =
     (if d = 0 then Inl ZeroDenominator
      else if n = 0 then Inr ZERO
      else from_signed_magnitude (unsigned_abs n) ((n < 0) \<noteq> (d < 0)) (unsigned_abs d))"

definition new_rational :: "int \<Rightarrow> int \<Rightarrow> ClockRational LatticeResult" where
  "new_rational n d = reduce n d"

definition checked_same_denominator ::
  "ClockRational \<Rightarrow> ClockRational \<Rightarrow> bool \<Rightarrow> ClockRational LatticeResult" where
  "checked_same_denominator a b subtract =
     (let lhs_negative = num a < 0; rhs_negative = ((num b < 0) \<noteq> subtract);
          lhs = unsigned_abs (num a); rhs = unsigned_abs (num b) in
      bindR
        (if lhs_negative = rhs_negative
         then bindR (ok_or (chk_u128 (lhs + rhs)) IntegerOverflow) (\<lambda>m. Inr (m, lhs_negative))
         else if lhs \<ge> rhs then Inr (lhs - rhs, lhs_negative)
         else Inr (rhs - lhs, rhs_negative))
        (\<lambda>(magnitude, negative). from_signed_magnitude magnitude negative (as_u128 (den a))))"

text \<open>\<open>checked_add\<close> and \<open>checked_sub\<close> differ in the sign they combine the scaled numerators with.\<close>

definition checked_add :: "ClockRational \<Rightarrow> ClockRational \<Rightarrow> ClockRational LatticeResult" where
  "checked_add a b =
     (if den a = den b then checked_same_denominator a b False
      else
        bindR (positive_from_magnitude (gcd_u128 (as_u128 (den a)) (as_u128 (den b)))) (\<lambda>g.
        let lhs_scale = den b sdiv g; rhs_scale = den a sdiv g in
        bindR (ok_or (chk_i128 (num a * lhs_scale)) IntegerOverflow) (\<lambda>lhs.
        bindR (ok_or (chk_i128 (num b * rhs_scale)) IntegerOverflow) (\<lambda>rhs.
        bindR (ok_or (chk_i128 (lhs + rhs)) IntegerOverflow) (\<lambda>n.
        bindR (ok_or (chk_i128 (den a * lhs_scale)) IntegerOverflow) (\<lambda>d.
        reduce n d))))))"

definition checked_sub :: "ClockRational \<Rightarrow> ClockRational \<Rightarrow> ClockRational LatticeResult" where
  "checked_sub a b =
     (if den a = den b then checked_same_denominator a b True
      else
        bindR (positive_from_magnitude (gcd_u128 (as_u128 (den a)) (as_u128 (den b)))) (\<lambda>g.
        let lhs_scale = den b sdiv g; rhs_scale = den a sdiv g in
        bindR (ok_or (chk_i128 (num a * lhs_scale)) IntegerOverflow) (\<lambda>lhs.
        bindR (ok_or (chk_i128 (num b * rhs_scale)) IntegerOverflow) (\<lambda>rhs.
        bindR (ok_or (chk_i128 (lhs - rhs)) IntegerOverflow) (\<lambda>n.
        bindR (ok_or (chk_i128 (den a * lhs_scale)) IntegerOverflow) (\<lambda>d.
        reduce n d))))))"

definition checked_mul :: "ClockRational \<Rightarrow> ClockRational \<Rightarrow> ClockRational LatticeResult" where
  "checked_mul a b =
     (if is_zero a \<or> is_zero b then Inr ZERO
      else
        let left_divisor = gcd_u128 (unsigned_abs (num a)) (as_u128 (den b));
            right_divisor = gcd_u128 (unsigned_abs (num b)) (as_u128 (den a)) in
        bindR (divide_signed_by_unsigned (num a) left_divisor) (\<lambda>lhs_num.
        bindR (divide_signed_by_unsigned (num b) right_divisor) (\<lambda>rhs_num.
        bindR (divide_positive_by_unsigned (den a) right_divisor) (\<lambda>lhs_den.
        bindR (divide_positive_by_unsigned (den b) left_divisor) (\<lambda>rhs_den.
        bindR (ok_or (chk_i128 (lhs_num * rhs_num)) IntegerOverflow) (\<lambda>n.
        bindR (ok_or (chk_i128 (lhs_den * rhs_den)) IntegerOverflow) (\<lambda>d.
        reduce n d)))))))"

definition checked_div :: "ClockRational \<Rightarrow> ClockRational \<Rightarrow> ClockRational LatticeResult" where
  "checked_div a b =
     (if is_zero b then Inl ZeroDenominator
      else if is_zero a then Inr ZERO
      else
        let numerator_divisor = gcd_u128 (unsigned_abs (num a)) (unsigned_abs (num b));
            denominator_divisor = gcd_u128 (as_u128 (den a)) (as_u128 (den b)) in
        bindR (divide_signed_by_unsigned (num a) numerator_divisor) (\<lambda>lhs_num.
        bindR (divide_signed_by_unsigned (num b) numerator_divisor) (\<lambda>rhs_num.
        bindR (divide_positive_by_unsigned (den a) denominator_divisor) (\<lambda>lhs_den.
        bindR (divide_positive_by_unsigned (den b) denominator_divisor) (\<lambda>rhs_den.
        bindR (ok_or (chk_i128 (lhs_num * rhs_den)) IntegerOverflow) (\<lambda>n.
        bindR (ok_or (chk_i128 (lhs_den * rhs_num)) IntegerOverflow) (\<lambda>d.
        reduce n d)))))))"

definition checked_mul_integer :: "ClockRational \<Rightarrow> int \<Rightarrow> ClockRational LatticeResult" where
  "checked_mul_integer a factor = checked_mul a (integer_rational factor)"

definition checked_div_integer :: "ClockRational \<Rightarrow> int \<Rightarrow> ClockRational LatticeResult" where
  "checked_div_integer a divisor =
     (if divisor = 0 then Inl ZeroDenominator else checked_div a (integer_rational divisor))"

section \<open>Comparison\<close>

datatype Ordering = Less | Equal | Greater

fun reverse :: "Ordering \<Rightarrow> Ordering" where
  "reverse Less = Greater" | "reverse Equal = Equal" | "reverse Greater = Less"

definition cmp_nat :: "nat \<Rightarrow> nat \<Rightarrow> Ordering" where
  "cmp_nat a b = (if a < b then Less else if a = b then Equal else Greater)"

text \<open>\<open>None\<close> is the panic of a division by zero.\<close>

function compare_positive_fractions ::
  "bool \<Rightarrow> nat \<Rightarrow> nat \<Rightarrow> nat \<Rightarrow> nat \<Rightarrow> Ordering option" where
  "compare_positive_fractions reversed lhs_num lhs_den rhs_num rhs_den =
     (if lhs_den = 0 \<or> rhs_den = 0 then None
      else let lhs_integer = lhs_num div lhs_den; rhs_integer = rhs_num div rhs_den in
        if lhs_integer \<noteq> rhs_integer then
          let ordering = cmp_nat lhs_integer rhs_integer in
          Some (if reversed then reverse ordering else ordering)
        else let lhs_remainder = lhs_num mod lhs_den; rhs_remainder = rhs_num mod rhs_den in
          if lhs_remainder = 0 \<and> rhs_remainder = 0 then Some Equal
          else if lhs_remainder = 0 then Some (if reversed then Greater else Less)
          else if rhs_remainder = 0 then Some (if reversed then Less else Greater)
          else compare_positive_fractions (\<not> reversed) lhs_den lhs_remainder rhs_den rhs_remainder)"
  by pat_completeness auto
termination
  by (relation "measure (\<lambda>(r, ln, ld, rn, rd). ld)") auto

declare compare_positive_fractions.simps [simp del]

definition cmp_rational :: "ClockRational \<Rightarrow> ClockRational \<Rightarrow> Ordering option" where
  "cmp_rational a b =
     (case (num a < 0, num b < 0) of
        (True, False) \<Rightarrow> Some Less
      | (False, True) \<Rightarrow> Some Greater
      | (False, False) \<Rightarrow>
          compare_positive_fractions False (as_u128 (num a)) (as_u128 (den a))
            (as_u128 (num b)) (as_u128 (den b))
      | (True, True) \<Rightarrow>
          compare_positive_fractions False (unsigned_abs (num b)) (as_u128 (den b))
            (unsigned_abs (num a)) (as_u128 (den a)))"

section \<open>Periodic clocks\<close>

record ClockLattice =
  period :: ClockRational
  phase :: ClockRational

datatype ClockPhaseAnchor = Absolute | SimulationStart

record PeriodicClockSchedule =
  lattice :: ClockLattice
  anchor :: ClockPhaseAnchor

definition new_lattice :: "ClockRational \<Rightarrow> ClockRational \<Rightarrow> ClockLattice LatticeResult" where
  "new_lattice per ph =
     (if \<not> is_positive per then Inl NonPositivePeriod else Inr \<lparr>period = per, phase = ph\<rparr>)"

definition absolute :: "ClockLattice \<Rightarrow> PeriodicClockSchedule LatticeResult" where
  "absolute l = bindR (new_lattice (period l) (phase l)) (\<lambda>l'.
     Inr \<lparr>lattice = l', anchor = Absolute\<rparr>)"

definition simulation_start_relative :: "ClockLattice \<Rightarrow> PeriodicClockSchedule LatticeResult" where
  "simulation_start_relative l = bindR (new_lattice (period l) (phase l)) (\<lambda>l'.
     Inr \<lparr>lattice = l', anchor = SimulationStart\<rparr>)"

definition from_interval_counter :: "int \<Rightarrow> int \<Rightarrow> ClockLattice LatticeResult" where
  "from_interval_counter interval_counter resolution =
     (if interval_counter \<le> 0 \<or> resolution \<le> 0 then Inl NonPositiveFactor
      else bindR (new_rational interval_counter resolution) (\<lambda>p. new_lattice p ZERO))"

definition sub_sample :: "ClockLattice \<Rightarrow> int \<Rightarrow> ClockLattice LatticeResult" where
  "sub_sample l factor =
     (if factor \<le> 0 then Inl NonPositiveFactor
      else bindR (checked_mul_integer (period l) factor) (\<lambda>p. new_lattice p (phase l)))"

definition super_sample :: "ClockLattice \<Rightarrow> int \<Rightarrow> ClockLattice LatticeResult" where
  "super_sample l factor =
     (if factor \<le> 0 then Inl NonPositiveFactor
      else bindR (checked_div_integer (period l) factor) (\<lambda>p. new_lattice p (phase l)))"

definition shift_offset :: "ClockLattice \<Rightarrow> int \<Rightarrow> int \<Rightarrow> ClockRational LatticeResult" where
  "shift_offset l counter resolution =
     (if counter < 0 \<or> resolution \<le> 0 then Inl NonPositiveFactor
      else bindR (new_rational counter resolution) (\<lambda>q. checked_mul (period l) q))"

definition shift_sample :: "ClockLattice \<Rightarrow> int \<Rightarrow> int \<Rightarrow> ClockLattice LatticeResult" where
  "shift_sample l shift_counter resolution =
     bindR (shift_offset l shift_counter resolution) (\<lambda>offset.
     bindR (checked_add (phase l) offset) (\<lambda>ph. new_lattice (period l) ph))"

definition back_sample :: "ClockLattice \<Rightarrow> int \<Rightarrow> int \<Rightarrow> ClockLattice LatticeResult" where
  "back_sample l back_counter resolution =
     bindR (shift_offset l back_counter resolution) (\<lambda>offset.
     bindR (checked_sub (phase l) offset) (\<lambda>ph.
     if num ph < 0 then Inl ClockStartsBeforeBaseClock else new_lattice (period l) ph))"

definition tick_time :: "ClockLattice \<Rightarrow> int \<Rightarrow> ClockRational LatticeResult" where
  "tick_time l index =
     bindR (checked_mul_integer (period l) index) (\<lambda>o'. checked_add (phase l) o')"

section \<open>Canonical fractions\<close>

definition rational :: "ClockRational \<Rightarrow> rat" where
  "rational r = of_int (num r) / of_int (den r)"

definition canonical :: "ClockRational \<Rightarrow> bool" where
  "canonical r \<longleftrightarrow> in_i128 (num r) \<and> in_i128 (den r) \<and> 0 < den r \<and> coprime (num r) (den r)"

definition representable :: "rat \<Rightarrow> bool" where
  "representable q \<longleftrightarrow> (\<exists>r. canonical r \<and> rational r = q)"

lemma gcd_loop_eq: "gcd_loop a b = gcd a b"
proof (induction a b rule: gcd_loop.induct)
  case (1 a b)
  then show ?case
    by (cases "b = 0")
      (simp_all add: gcd_loop.simps [of a b] gcd_loop.simps [of a 0] gcd_red_nat [of a b])
qed

lemma gcd_u128_eq: "gcd_u128 a b = (if a = 0 \<and> b = 0 then 1 else gcd a b)"
  by (simp add: gcd_u128_def gcd_loop_eq Let_def)

lemma gcd_u128_pos [simp]: "0 < gcd_u128 a b"
  by (simp add: gcd_u128_eq)

lemma gcd_u128_dvd: "gcd_u128 a b dvd a" "gcd_u128 a b dvd b"
  by (auto simp: gcd_u128_eq)

lemma as_u128_pos [simp]: "in_i128 x \<Longrightarrow> 0 \<le> x \<Longrightarrow> as_u128 x = nat x"
  by (simp add: as_u128_def machine_int)

lemma positive_from_magnitude_iff:
  "positive_from_magnitude v = (if in_i128 (int v) then Inr (int v) else Inl IntegerOverflow)"
  by (auto simp: positive_from_magnitude_def chk_i128_def)

lemma signed_from_magnitude_iff:
  "signed_from_magnitude v neg =
     (let s = (if neg then - int v else int v) in
      if in_i128 s then Inr s else Inl IntegerOverflow)"
  by (auto simp: signed_from_magnitude_def positive_from_magnitude_iff Let_def machine_int)

lemma canonical_unique:
  assumes "canonical r" "canonical s" "rational r = rational s"
  shows "r = s"
proof -
  have pos: "0 < den r" "0 < den s" and cop: "coprime (num r) (den r)" "coprime (num s) (den s)"
    using assms by (auto simp: canonical_def)
  have "quotient_of (Fract (num r) (den r)) = (num r, den r)"
    "quotient_of (Fract (num s) (den s)) = (num s, den s)"
    using pos cop by (simp_all add: quotient_of_Fract normalize_def)
  moreover have "Fract (num r) (den r) = Fract (num s) (den s)"
    using assms(3) by (simp add: rational_def Fract_of_int_quotient)
  ultimately have "(num r, den r) = (num s, den s)" by metis
  then show ?thesis by simp
qed

text \<open>
  A fraction in lowest terms decides representability: its parts are the only
  candidates.
\<close>

lemma representable_iff_lowest:
  fixes n d :: int
  assumes "0 < d" "coprime n d"
  shows "representable (of_int n / of_int d) \<longleftrightarrow> in_i128 n \<and> in_i128 d"
proof
  assume "representable (of_int n / of_int d)"
  then obtain r where r: "canonical r" "rational r = of_int n / of_int d"
    by (auto simp: representable_def)
  have "quotient_of (Fract (num r) (den r)) = (num r, den r)"
    using r(1) by (simp add: quotient_of_Fract normalize_def canonical_def)
  moreover have "quotient_of (Fract n d) = (n, d)"
    using assms by (simp add: quotient_of_Fract normalize_def)
  moreover have "Fract (num r) (den r) = Fract n d"
    using r(2) by (simp add: rational_def Fract_of_int_quotient)
  ultimately have "(num r, den r) = (n, d)" by metis
  then have "num r = n" "den r = d" by simp_all
  with r(1) show "in_i128 n \<and> in_i128 d" by (auto simp: canonical_def)
next
  assume "in_i128 n \<and> in_i128 d"
  with assms have "canonical \<lparr>num = n, den = d\<rparr>" by (simp add: canonical_def)
  then show "representable (of_int n / of_int d)"
    unfolding representable_def by (intro exI conjI) (auto simp: rational_def)
qed

lemma canonical_ZERO [simp]: "canonical ZERO" and rational_ZERO [simp]: "rational ZERO = 0"
  by (simp_all add: canonical_def rational_def ZERO_def machine_int)

lemma canonical_integer [simp]: "in_i128 n \<Longrightarrow> canonical (integer_rational n)"
  by (simp add: canonical_def integer_rational_def machine_int)

lemma rational_integer [simp]: "rational (integer_rational n) = of_int n"
  by (simp add: rational_def integer_rational_def)

lemma rational_pos_iff: "canonical r \<Longrightarrow> is_positive r \<longleftrightarrow> 0 < rational r"
  by (auto simp: canonical_def is_positive_def rational_def zero_less_divide_iff)

lemma rational_zero_iff: "canonical r \<Longrightarrow> is_zero r \<longleftrightarrow> rational r = 0"
  by (auto simp: canonical_def is_zero_def rational_def)

lemma rational_neg_iff: "canonical r \<Longrightarrow> num r < 0 \<longleftrightarrow> rational r < 0"
  by (auto simp: canonical_def rational_def divide_less_0_iff)

text \<open>What it means for a checked operation to compute a number exactly.\<close>

definition computes :: "ClockRational LatticeResult \<Rightarrow> rat \<Rightarrow> bool" where
  "computes res q \<longleftrightarrow> (\<forall>r. res = Inr r \<longrightarrow> canonical r \<and> rational r = q)"

definition decides :: "ClockRational LatticeResult \<Rightarrow> rat \<Rightarrow> bool" where
  "decides res q \<longleftrightarrow> computes res q \<and> (representable q \<longleftrightarrow> (\<exists>r. res = Inr r)) \<and>
     (\<not> representable q \<longrightarrow> res = Inl IntegerOverflow)"

lemma computesD: "computes res q \<Longrightarrow> res = Inr r \<Longrightarrow> canonical r \<and> rational r = q"
  by (simp add: computes_def)

lemma decides_computes: "decides res q \<Longrightarrow> computes res q"
  unfolding decides_def by (elim conjE)

lemma decides_Inr:
  assumes "decides res q" and "canonical r" and "rational r = q"
  shows "res = Inr r"
proof -
  have "representable q" using assms(2,3) by (auto simp: representable_def)
  with assms(1) obtain s where s: "res = Inr s" unfolding decides_def by blast
  with decides_computes [OF assms(1)] have "canonical s" "rational s = q"
    by (auto dest: computesD)
  then have "s = r" using assms(2,3) by (intro canonical_unique) auto
  with s show ?thesis by simp
qed


section \<open>Reduction and arithmetic are exact\<close>

lemma decides_lowest:
  assumes "0 < d" "coprime n d"
  shows "decides (if in_i128 n \<and> in_i128 d then Inr \<lparr>num = n, den = d\<rparr> else Inl IntegerOverflow)
    (of_int n / of_int d)"
  using representable_iff_lowest [OF assms] assms
  by (auto simp: decides_def computes_def canonical_def rational_def)

lemma decides_0: "decides (Inr ZERO) 0"
proof -
  have "representable 0" unfolding representable_def by (rule exI [of _ ZERO]) simp
  then show ?thesis by (simp add: decides_def computes_def)
qed

lemma from_signed_magnitude_decides:
  assumes "0 < d"
  shows "decides (from_signed_magnitude n neg d)
    ((if neg then - of_nat n else of_nat n) / of_nat d)"
proof (cases "n = 0")
  case True
  then show ?thesis by (simp add: from_signed_magnitude_def decides_0)
next
  case False
  define g where "g = gcd n d"
  define n' where "n' = n div g"
  define d' where "d' = d div g"
  define s where "s = (if neg then - int n' else int n')"
  have g: "gcd_u128 n d = g" using False by (simp add: gcd_u128_eq g_def)
  have "0 < g" using False by (simp add: g_def)
  have n: "n = g * n'" and d: "d = g * d'" by (simp_all add: n'_def d'_def g_def)
  have "0 < d'" using assms d by (cases d') auto
  have "coprime n' d'"
    unfolding n'_def d'_def g_def using False by (intro div_gcd_coprime) auto
  then have cop: "coprime s (int d')" by (simp add: s_def)
  have "from_signed_magnitude n neg d =
      (if in_i128 s \<and> in_i128 (int d') then Inr \<lparr>num = s, den = int d'\<rparr> else Inl IntegerOverflow)"
    using False
    by (simp add: from_signed_magnitude_def g signed_from_magnitude_iff positive_from_magnitude_iff
        Let_def s_def n'_def d'_def)
  moreover have "(if neg then - of_nat n else of_nat n) / (of_nat d :: rat) = of_int s / of_int (int d')"
    using \<open>0 < g\<close> \<open>0 < d'\<close> by (simp add: n d s_def)
  ultimately show ?thesis using decides_lowest [OF _ cop] \<open>0 < d'\<close> by simp
qed

lemma of_nat_unsigned_abs: "of_nat (unsigned_abs x) = (\<bar>of_int x\<bar> :: rat)"
  by (simp add: unsigned_abs_def)

lemma reduce_decides:
  assumes "d \<noteq> 0"
  shows "decides (reduce n d) (of_int n / of_int d)"
proof (cases "n = 0")
  case True
  then show ?thesis using assms by (simp add: reduce_def decides_0)
next
  case False
  have "(if (n < 0) \<noteq> (d < 0) then - of_nat (unsigned_abs n) else of_nat (unsigned_abs n)) /
      of_nat (unsigned_abs d) = (of_int n / of_int d :: rat)"
    using assms by (auto simp: of_nat_unsigned_abs abs_if)
  moreover have "0 < unsigned_abs d" using assms by (simp add: unsigned_abs_def)
  ultimately show ?thesis
    using from_signed_magnitude_decides [of "unsigned_abs d" "unsigned_abs n" "(n < 0) \<noteq> (d < 0)"]
      assms False by (simp add: reduce_def)
qed

lemma reduce_computes: "computes (reduce n d) (of_int n / of_int d)"
  using reduce_decides [of d n] decides_computes
  by (cases "d = 0") (auto simp: reduce_def computes_def)

lemma new_rational_decides: "d \<noteq> 0 \<Longrightarrow> decides (new_rational n d) (of_int n / of_int d)"
  by (simp add: new_rational_def reduce_decides)

lemma computes_bindR:
  assumes "\<And>x. r = Inr x \<Longrightarrow> computes (f x) q"
  shows "computes (bindR r f) q"
  using assms by (cases r) (auto simp: computes_def)

lemma canonicalD:
  assumes "canonical r"
  shows "0 < den r" "in_i128 (num r)" "in_i128 (den r)" "coprime (num r) (den r)"
    "as_u128 (den r) = nat (den r)"
  using assms by (auto simp: canonical_def)

text \<open>Two numerators of full negative magnitude are the one sum that leaves \<open>u128\<close>.\<close>

lemma same_denominator_overflow:
  assumes a: "canonical a" and b: "in_i128 (num b)"
    and over: "u128_max < unsigned_abs (num a) + unsigned_abs (num b)"
  shows "\<not> representable (2 * of_int (num a) / of_int (den a))"
proof -
  have na: "num a = i128_min"
    using canonicalD(2) [OF a] b over by (auto simp: unsigned_abs_def machine_int)
  have "coprime 2 (den a)"
    using canonicalD(4) [OF a]
    by (rule coprime_divisors [rotated 2]) (simp_all add: na machine_int)
  then have "coprime (2 ^ 128) (den a)" by (subst coprime_power_left_iff) simp
  then have "coprime (- (2 ^ 128)) (den a)" by (subst coprime_minus_left_iff)
  from representable_iff_lowest [OF canonicalD(1) [OF a] this]
  have "\<not> representable (of_int (- (2 ^ 128)) / of_int (den a))"
    by (simp only:) (simp add: machine_int)
  moreover have "(2 * of_int (num a) :: rat) = of_int (- (2 ^ 128))"
    by (simp add: na machine_int)
  ultimately show ?thesis by (simp only: not_False_eq_True)
qed

lemma checked_same_denominator_decides:
  assumes a: "canonical a" and b: "canonical b" and den: "den a = den b"
  shows "decides (checked_same_denominator a b subtract)
    (if subtract then rational a - rational b else rational a + rational b)"
proof -
  define q where "q = (if subtract then - num b else num b)"
  define ln where "ln \<longleftrightarrow> num a < 0"
  define rn where "rn \<longleftrightarrow> (num b < 0) \<noteq> subtract"
  define lhs where "lhs = unsigned_abs (num a)"
  define rhs where "rhs = unsigned_abs (num b)"
  have pos: "0 < nat (den a)" using canonicalD(1) [OF a] by simp
  have target: "(if subtract then rational a - rational b else rational a + rational b) =
      (of_int (num a) + of_int q) / of_int (den a)"
    using den by (simp add: rational_def q_def diff_divide_distrib add_divide_distrib)
  have na: "of_int (num a) = (if ln then - of_nat lhs else of_nat lhs :: rat)"
    by (simp add: lhs_def ln_def of_nat_unsigned_abs)
  have nb: "of_int q = (if rn then - of_nat rhs else of_nat rhs :: rat)"
    by (auto simp: rhs_def rn_def q_def of_nat_unsigned_abs)
  have dd: "of_int (den a) = (of_nat (nat (den a)) :: rat)"
    using canonicalD(1) [OF a] by simp
  have fsm: "decides (from_signed_magnitude m s (nat (den a)))
      ((if s then - of_nat m else of_nat m) / of_nat (nat (den a)))" for m s
    using pos by (rule from_signed_magnitude_decides)
  consider (over) "ln = rn" "u128_max < lhs + rhs" | (same) "ln = rn" "lhs + rhs \<le> u128_max"
    | (ge) "ln \<noteq> rn" "rhs \<le> lhs" | (lt) "ln \<noteq> rn" "lhs < rhs" by linarith
  then show ?thesis
  proof cases
    case over
    then have res: "checked_same_denominator a b subtract = Inl IntegerOverflow"
      unfolding checked_same_denominator_def Let_def
      by (simp add: lhs_def rhs_def ln_def rn_def chk_u128_def)
    have "num a = i128_min" "num b = i128_min"
      using over(2) canonicalD(2) [OF a] canonicalD(2) [OF b]
      by (auto simp: lhs_def rhs_def unsigned_abs_def machine_int)
    moreover from this over(1) have "q = num a" by (auto simp: q_def ln_def rn_def machine_int)
    ultimately have "(of_int (num a) + of_int q) / of_int (den a) = (2 * of_int (num a) / of_int (den a) :: rat)"
      by simp
    moreover have "\<not> representable (2 * of_int (num a) / of_int (den a))"
      using a canonicalD(2) [OF b] over(2) [unfolded lhs_def rhs_def]
      by (rule same_denominator_overflow)
    ultimately show ?thesis
      unfolding target res decides_def computes_def by (simp only: ) simp
  next
    case same
    have "checked_same_denominator a b subtract = from_signed_magnitude (lhs + rhs) ln (nat (den a))"
      using same unfolding checked_same_denominator_def Let_def lhs_def [symmetric] rhs_def [symmetric]
        ln_def [symmetric] rn_def [symmetric] chk_u128_def canonicalD(5) [OF a]
      by simp
    moreover have "(of_int (num a) + of_int q :: rat) =
        (if ln then - of_nat (lhs + rhs) else of_nat (lhs + rhs))"
      unfolding na nb same(1) by simp
    ultimately show ?thesis unfolding target dd using fsm [of "lhs + rhs" ln] by (simp only:)
  next
    case ge
    have "checked_same_denominator a b subtract = from_signed_magnitude (lhs - rhs) ln (nat (den a))"
      using ge unfolding checked_same_denominator_def Let_def lhs_def [symmetric] rhs_def [symmetric]
        ln_def [symmetric] rn_def [symmetric] canonicalD(5) [OF a]
      by simp
    moreover have "(of_int (num a) + of_int q :: rat) =
        (if ln then - of_nat (lhs - rhs) else of_nat (lhs - rhs))"
      using ge na nb by auto
    ultimately show ?thesis unfolding target dd using fsm [of "lhs - rhs" ln] by (simp only:)
  next
    case lt
    have "checked_same_denominator a b subtract = from_signed_magnitude (rhs - lhs) rn (nat (den a))"
      using lt unfolding checked_same_denominator_def Let_def lhs_def [symmetric] rhs_def [symmetric]
        ln_def [symmetric] rn_def [symmetric] canonicalD(5) [OF a]
      by simp
    moreover have "(of_int (num a) + of_int q :: rat) =
        (if rn then - of_nat (rhs - lhs) else of_nat (rhs - lhs))"
      using lt na nb by auto
    ultimately show ?thesis unfolding target dd using fsm [of "rhs - lhs" rn] by (simp only:)
  qed
qed

lemma scaled_denominators:
  assumes a: "canonical a" and b: "canonical b"
    and g: "positive_from_magnitude (gcd_u128 (as_u128 (den a)) (as_u128 (den b))) = Inr g"
  shows "0 < g" "den b sdiv g * g = den b" "den a sdiv g * g = den a"
proof -
  have *: "g = gcd (den a) (den b)"
    using g canonicalD(1,5) [OF a] canonicalD(1,5) [OF b]
    by (auto simp: positive_from_magnitude_iff gcd_u128_eq gcd_int_def split: if_splits)
  then show "0 < g" using canonicalD(1) [OF a] by simp
  have "x sdiv g * g = x" if "g dvd x" for x :: int
    using that sdiv_mult_smod_eq [of x g] by (auto simp: signed_modulo_int_def)
  with * show "den b sdiv g * g = den b" "den a sdiv g * g = den a" by auto
qed

lemma scaled_sum:
  fixes g na nb da db k :: int
  assumes "0 < g" "kb * g = db" "ka * g = da" "0 < da" "0 < db"
  shows "(of_int (na * kb) + of_int (nb * ka)) / of_int (da * kb) =
    (of_int na / of_int da + of_int nb / of_int db :: rat)"
proof -
  have "0 < kb" "0 < ka" using assms by (auto simp: zero_less_mult_iff)
  then show ?thesis
    using assms by (simp add: assms(2,3) [symmetric] field_simps)
qed

lemma checked_add_computes:
  assumes a: "canonical a" and b: "canonical b"
  shows "computes (checked_add a b) (rational a + rational b)"
proof (cases "den a = den b")
  case True
  with checked_same_denominator_decides [OF a b, of False] show ?thesis
    by (simp add: checked_add_def decides_computes)
next
  case False
  have "computes (reduce (num a * (den b sdiv g) + num b * (den a sdiv g)) (den a * (den b sdiv g)))
      (rational a + rational b)"
    if g: "positive_from_magnitude (gcd_u128 (as_u128 (den a)) (as_u128 (den b))) = Inr g" for g
    using reduce_computes scaled_sum [OF scaled_denominators [OF a b g] canonicalD(1) [OF a] canonicalD(1) [OF b],
        of "num a" "num b"]
    by (metis rational_def of_int_add)
  with False show ?thesis
    by (auto simp: checked_add_def Let_def res_simps intro!: computes_bindR)
qed

lemma checked_sub_computes:
  assumes a: "canonical a" and b: "canonical b"
  shows "computes (checked_sub a b) (rational a - rational b)"
proof (cases "den a = den b")
  case True
  with checked_same_denominator_decides [OF a b, of True] show ?thesis
    by (simp add: checked_sub_def decides_computes)
next
  case False
  have "computes (reduce (num a * (den b sdiv g) - num b * (den a sdiv g)) (den a * (den b sdiv g)))
      (rational a - rational b)"
    if g: "positive_from_magnitude (gcd_u128 (as_u128 (den a)) (as_u128 (den b))) = Inr g" for g
    using reduce_computes [of "num a * (den b sdiv g) - num b * (den a sdiv g)" "den a * (den b sdiv g)"]
      scaled_sum [OF scaled_denominators [OF a b g] canonicalD(1) [OF a] canonicalD(1) [OF b],
        of "num a" "- num b"]
    by (simp add: rational_def)
  with False show ?thesis
    by (auto simp: checked_sub_def Let_def res_simps intro!: computes_bindR)
qed


lemma int_gcd_u128: "x \<noteq> 0 \<Longrightarrow> int (gcd_u128 (unsigned_abs x) (unsigned_abs y)) = gcd x y"
  unfolding gcd_int_def by (simp add: gcd_u128_eq unsigned_abs_def del: gcd_int_int_eq)

lemma as_u128_den: "canonical r \<Longrightarrow> as_u128 (den r) = unsigned_abs (den r)"
  using canonicalD(1,5) [of r] by (simp add: unsigned_abs_def)

lemma divide_signed_exact:
  assumes "in_i128 v" "int g dvd v" "0 < g"
  shows "divide_signed_by_unsigned v g = Inr (v div int g)"
proof -
  obtain k where k: "v = int g * k" using assms(2) by auto
  have "unsigned_abs v div g = nat \<bar>k\<bar>"
    using assms(3) by (simp add: k unsigned_abs_def abs_mult nat_mult_distrib)
  moreover have sign: "v < 0 \<longleftrightarrow> k < 0" using assms(3) by (simp add: k mult_less_0_iff)
  moreover have "in_i128 k"
  proof -
    have "\<bar>k\<bar> \<le> \<bar>v\<bar>" using assms(3) by (simp add: k abs_mult mult_le_cancel_right1)
    with sign show ?thesis using assms(1) by (auto simp: machine_int)
  qed
  ultimately show ?thesis
    using assms(3) by (auto simp: divide_signed_by_unsigned_def signed_from_magnitude_iff k Let_def)
qed

lemma divide_positive_exact:
  assumes "in_i128 v" "0 < v" "int g dvd v" "0 < g"
  shows "divide_positive_by_unsigned v g = Inr (v div int g)"
proof -
  have "as_u128 v div g = nat (v div int g)"
    using assms(1,2) by (simp add: nat_div_distrib)
  moreover have "0 \<le> v div int g" "v div int g \<le> v"
    using assms zdiv_mono2 [of v 1 "int g"] by (simp_all add: pos_imp_zdiv_nonneg_iff)
  ultimately show ?thesis
    using assms(1) by (auto simp: divide_positive_by_unsigned_def positive_from_magnitude_iff machine_int)
qed

text \<open>The cross-cancelled quotient of the parts is in lowest terms.\<close>

lemma cross_cancel:
  fixes na da nb db :: int
  assumes "coprime na da" "coprime nb db" "na \<noteq> 0" "nb \<noteq> 0"
  shows "coprime (na div gcd na db * (nb div gcd nb da)) (da div gcd nb da * (db div gcd na db))"
proof -
  have dvd: "x div gcd x y dvd x" "x div gcd y x dvd x" for x y :: int
    by (metis dvd_div_mult_self dvd_triv_left gcd_dvd1, metis dvd_div_mult_self dvd_triv_left gcd_dvd2)
  have "coprime (na div gcd na db) (db div gcd na db)"
    using assms(3) by (intro div_gcd_coprime) auto
  moreover have "coprime (nb div gcd nb da) (da div gcd nb da)"
    using assms(4) by (intro div_gcd_coprime) auto
  moreover have "coprime (na div gcd na db) (da div gcd nb da)"
    using assms(1) by (rule coprime_divisors [rotated 2]) (rule dvd)+
  moreover have "coprime (nb div gcd nb da) (db div gcd na db)"
    using assms(2) by (rule coprime_divisors [rotated 2]) (rule dvd)+
  ultimately show ?thesis by simp
qed

lemma checked_product_decides:
  assumes "0 < d" "coprime n d"
  shows "decides (bindR (ok_or (chk_i128 n) IntegerOverflow) (\<lambda>n.
      bindR (ok_or (chk_i128 d) IntegerOverflow) (\<lambda>d. reduce n d))) (of_int n / of_int d)"
proof (cases "in_i128 n \<and> in_i128 d")
  case True
  then show ?thesis using reduce_decides [of d n] assms by (simp add: chk_i128_def)
next
  case False
  then have "\<not> representable (of_int n / of_int d)"
    using representable_iff_lowest [OF assms] by simp
  with False show ?thesis by (auto simp: chk_i128_def decides_def computes_def)
qed

lemma checked_mul_decides:
  assumes a: "canonical a" and b: "canonical b"
  shows "decides (checked_mul a b) (rational a * rational b)"
proof (cases "is_zero a \<or> is_zero b")
  case True
  then have "rational a * rational b = 0" by (auto simp: rational_def is_zero_def)
  moreover have "checked_mul a b = Inr ZERO" using True by (simp add: checked_mul_def)
  ultimately show ?thesis by (simp only: decides_0)
next
  case False
  then have nz: "num a \<noteq> 0" "num b \<noteq> 0" by (auto simp: is_zero_def)
  define g where "g = gcd (num a) (den b)"
  define h where "h = gcd (num b) (den a)"
  have g: "int (gcd_u128 (unsigned_abs (num a)) (as_u128 (den b))) = g"
    and h: "int (gcd_u128 (unsigned_abs (num b)) (as_u128 (den a))) = h"
    using nz by (simp_all only: as_u128_den [OF a] as_u128_den [OF b] int_gcd_u128 g_def h_def
        not_False_eq_True)
  have gh: "0 < g" "0 < h" using nz by (simp_all add: g_def h_def)
  have dv: "g dvd num a" "g dvd den b" "h dvd num b" "h dvd den a" by (simp_all add: g_def h_def)
  have pos: "0 < den a div h" "0 < den b div g"
    using canonicalD(1) [OF a] canonicalD(1) [OF b] dv gh
    by (auto simp: pos_imp_zdiv_pos_iff zdvd_imp_le)
  have cop: "coprime (num a div g * (num b div h)) (den a div h * (den b div g))"
    unfolding g_def h_def using canonicalD(4) [OF a] canonicalD(4) [OF b] nz by (rule cross_cancel)
  have eq: "checked_mul a b =
      bindR (ok_or (chk_i128 (num a div g * (num b div h))) IntegerOverflow) (\<lambda>n.
      bindR (ok_or (chk_i128 (den a div h * (den b div g))) IntegerOverflow) (\<lambda>d. reduce n d))"
    using False dv gh canonicalD(1-3) [OF a] canonicalD(1-3) [OF b]
    by (simp add: checked_mul_def Let_def divide_signed_exact divide_positive_exact g h
        del: as_u128_pos)
  have "of_int (num a div g * (num b div h)) / of_int (den a div h * (den b div g)) =
      (rational a * rational b :: rat)"
  proof -
    have "(of_int (num a) :: rat) = of_int (num a div g) * of_int g"
      "(of_int (num b) :: rat) = of_int (num b div h) * of_int h"
      "(of_int (den a) :: rat) = of_int (den a div h) * of_int h"
      "(of_int (den b) :: rat) = of_int (den b div g) * of_int g"
      using dv by (simp_all flip: of_int_mult)
    then show ?thesis using gh pos by (simp add: rational_def field_simps)
  qed
  with checked_product_decides [OF _ cop] pos eq show ?thesis by simp
qed

text \<open>Division by a positive number is complete; a negative divisor only computes.\<close>

lemma checked_div_parts:
  assumes a: "canonical a" and b: "canonical b" and nz: "num a \<noteq> 0" "num b \<noteq> 0"
  defines "g \<equiv> gcd (num a) (num b)" and "h \<equiv> gcd (den a) (den b)"
  shows "checked_div a b =
      bindR (ok_or (chk_i128 (num a div g * (den b div h))) IntegerOverflow) (\<lambda>n.
      bindR (ok_or (chk_i128 (den a div h * (num b div g))) IntegerOverflow) (\<lambda>d. reduce n d))"
    and "of_int (num a div g * (den b div h)) / of_int (den a div h * (num b div g)) =
      (rational a / rational b :: rat)"
    and "coprime (num a div g * (den b div h)) (den a div h * (num b div g))"
    and "0 < den a div h"
proof -
  have g: "int (gcd_u128 (unsigned_abs (num a)) (unsigned_abs (num b))) = g"
    and h: "int (gcd_u128 (as_u128 (den a)) (as_u128 (den b))) = h"
    using nz canonicalD(1) [OF a]
    by (simp_all only: as_u128_den [OF a] as_u128_den [OF b] int_gcd_u128 g_def h_def
        not_False_eq_True less_imp_neq [THEN not_sym])
  have gh: "0 < g" "0 < h" using nz canonicalD(1) [OF a] by (simp_all add: g_def h_def)
  have dv: "g dvd num a" "g dvd num b" "h dvd den b" "h dvd den a" by (simp_all add: g_def h_def)
  show pos: "0 < den a div h"
    using canonicalD(1) [OF a] dv gh by (auto simp: pos_imp_zdiv_pos_iff zdvd_imp_le)
  show "checked_div a b =
      bindR (ok_or (chk_i128 (num a div g * (den b div h))) IntegerOverflow) (\<lambda>n.
      bindR (ok_or (chk_i128 (den a div h * (num b div g))) IntegerOverflow) (\<lambda>d. reduce n d))"
    using nz dv gh canonicalD(1-3) [OF a] canonicalD(1-3) [OF b]
    by (simp add: checked_div_def is_zero_def Let_def divide_signed_exact divide_positive_exact g h
        del: as_u128_pos)
  have "(of_int (num a) :: rat) = of_int (num a div g) * of_int g"
    "(of_int (num b) :: rat) = of_int (num b div g) * of_int g"
    "(of_int (den a) :: rat) = of_int (den a div h) * of_int h"
    "(of_int (den b) :: rat) = of_int (den b div h) * of_int h"
    using dv by (simp_all flip: of_int_mult)
  then show "of_int (num a div g * (den b div h)) / of_int (den a div h * (num b div g)) =
      (rational a / rational b :: rat)"
    using gh by (simp add: rational_def)
  have "coprime (num a div gcd (num a) (num b) * (den b div gcd (den b) (den a)))
      (den a div gcd (den b) (den a) * (num b div gcd (num a) (num b)))"
    using canonicalD(4) [OF a] canonicalD(4) [OF b] canonicalD(1) [OF b] nz
    by (intro cross_cancel) (auto simp: coprime_commute)
  then show "coprime (num a div g * (den b div h)) (den a div h * (num b div g))"
    by (simp add: g_def h_def gcd.commute)
qed

lemma checked_div_computes:
  assumes a: "canonical a" and b: "canonical b"
  shows "computes (checked_div a b) (rational a / rational b)"
proof (cases "num a = 0 \<or> num b = 0")
  case True
  then show ?thesis
    by (auto simp: checked_div_def is_zero_def computes_def rational_def [of a])
next
  case False
  then have nz: "num a \<noteq> 0" "num b \<noteq> 0" by auto
  note p = checked_div_parts [OF a b nz]
  show ?thesis
    unfolding p(1) p(2) [symmetric]
    using reduce_computes by (intro computes_bindR) (auto simp: res_simps simp del: of_int_mult)
qed

lemma checked_div_decides:
  assumes a: "canonical a" and b: "canonical b" and pos: "0 < num b"
  shows "decides (checked_div a b) (rational a / rational b)"
proof (cases "num a = 0")
  case True
  then show ?thesis using pos by (simp add: checked_div_def is_zero_def rational_def decides_0)
next
  case False
  note p = checked_div_parts [OF a b False, OF less_imp_neq [THEN not_sym], OF pos]
  have "0 < num b div gcd (num a) (num b)"
    using pos by (simp add: pos_imp_zdiv_pos_iff zdvd_imp_le)
  then show ?thesis
    using checked_product_decides [OF _ p(3)] p(4) unfolding p(1) p(2) [symmetric] by simp
qed

section \<open>The comparison is the order of the numbers\<close>

definition cmp_rat :: "rat \<Rightarrow> rat \<Rightarrow> Ordering" where
  "cmp_rat x y = (if x < y then Less else if x = y then Equal else Greater)"

lemma reverse_cmp_nat [simp]: "reverse (cmp_nat a b) = cmp_nat b a"
  by (simp add: cmp_nat_def)

text \<open>Unequal integer parts already order the fractions.\<close>

lemma div_less_cross:
  fixes a b c d :: nat
  assumes "0 < b" "0 < d" "a div b < c div d"
  shows "a * d < c * b"
proof -
  have "a < Suc (a div b) * b" using dividend_less_div_times [OF assms(1), of a] by simp
  also have "\<dots> \<le> c div d * b" using assms(3) by (intro mult_le_mono1) simp
  finally have "a * d < c div d * b * d" using assms(2) by simp
  also have "\<dots> = c div d * d * b" by (simp add: mult.commute mult.left_commute)
  also have "\<dots> \<le> c * b" by (intro mult_le_mono1) simp
  finally show ?thesis .
qed

lemma cmp_nat_remainders:
  assumes "0 < b" "0 < d" "a div b = c div d"
  shows "cmp_nat (a * d) (c * b) = cmp_nat (a mod b * d) (c mod d * b)"
proof -
  have "a * d = a div b * b * d + a mod b * d"
    by (metis add_mult_distrib div_mult_mod_eq)
  moreover have "c * b = a div b * b * d + c mod d * b"
    by (metis add_mult_distrib assms(3) div_mult_mod_eq mult.commute mult.left_commute)
  ultimately show ?thesis by (simp add: cmp_nat_def)
qed

lemma compare_positive_fractions_cross:
  assumes "0 < d" "0 < e"
  shows "compare_positive_fractions r n d m e =
    Some (if r then cmp_nat (m * d) (n * e) else cmp_nat (n * e) (m * d))"
  using assms
proof (induction r n d m e rule: compare_positive_fractions.induct)
  case (1 r n d m e)
  note step = compare_positive_fractions.simps [of r n d m e]
  consider (lt) "n div d < m div e" | (gt) "m div e < n div d" | (eq) "n div d = m div e"
    by linarith
  then show ?case
  proof cases
    case lt
    with div_less_cross [OF 1(2,3) lt] show ?thesis using 1(2,3)
      by (simp add: step cmp_nat_def)
  next
    case gt
    with div_less_cross [OF 1(3,2) gt] show ?thesis using 1(2,3)
      by (simp add: step cmp_nat_def)
  next
    case eq
    note rem = cmp_nat_remainders [OF 1(2,3) eq] cmp_nat_remainders [OF 1(3,2) eq [symmetric]]
    show ?thesis
    proof (cases "n mod d = 0 \<or> m mod e = 0")
      case True
      then show ?thesis using 1(2,3) eq
        by (auto simp: step rem) (auto simp: cmp_nat_def)
    next
      case False
      have "compare_positive_fractions (\<not> r) d (n mod d) e (m mod e) =
          Some (if \<not> r then cmp_nat (e * (n mod d)) (d * (m mod e))
            else cmp_nat (d * (m mod e)) (e * (n mod d)))"
        using False 1(2,3) eq by (intro 1(1)) auto
      with False show ?thesis unfolding rem step using 1(2,3) eq by (simp add: mult.commute)
    qed
  qed
qed

lemma cmp_nat_rat:
  assumes "0 < b" "0 < d"
  shows "cmp_nat (a * d) (c * b) = cmp_rat (of_nat a / of_nat b) (of_nat c / of_nat d)"
proof -
  have "(of_nat a / of_nat b < (of_nat c / of_nat d :: rat)) \<longleftrightarrow> (of_nat (a * d) :: rat) < of_nat (c * b)"
    using assms by (simp add: divide_less_eq less_divide_eq mult.commute)
  moreover have "(of_nat a / of_nat b = (of_nat c / of_nat d :: rat)) \<longleftrightarrow>
      (of_nat (a * d) :: rat) = of_nat (c * b)"
    using assms by (simp add: frac_eq_eq)
  ultimately show ?thesis by (simp only: cmp_nat_def cmp_rat_def of_nat_less_iff of_nat_eq_iff)
qed

lemma rational_nonneg: "canonical r \<Longrightarrow> \<not> num r < 0 \<Longrightarrow>
    rational r = of_nat (as_u128 (num r)) / of_nat (as_u128 (den r))"
  by (simp add: rational_def canonical_def)

lemma rational_negative: "canonical r \<Longrightarrow> num r < 0 \<Longrightarrow>
    rational r = - (of_nat (unsigned_abs (num r)) / of_nat (as_u128 (den r)))"
  by (simp add: rational_def canonical_def unsigned_abs_def)

lemma cmp_rational_eq:
  assumes a: "canonical a" and b: "canonical b"
  shows "cmp_rational a b = Some (cmp_rat (rational a) (rational b))"
proof -
  have den: "0 < as_u128 (den a)" "0 < as_u128 (den b)"
    using canonicalD(1,5) [OF a] canonicalD(1,5) [OF b] by simp_all
  consider (np) "num a < 0" "\<not> num b < 0" | (pn) "\<not> num a < 0" "num b < 0"
    | (pp) "\<not> num a < 0" "\<not> num b < 0" | (nn) "num a < 0" "num b < 0" by blast
  then show ?thesis
  proof cases
    case np
    with rational_neg_iff [OF a] rational_neg_iff [OF b] show ?thesis
      by (simp add: cmp_rational_def cmp_rat_def)
  next
    case pn
    with rational_neg_iff [OF a] rational_neg_iff [OF b] show ?thesis
      by (simp add: cmp_rational_def cmp_rat_def)
  next
    case pp
    then show ?thesis
      unfolding rational_nonneg [OF a pp(1)] rational_nonneg [OF b pp(2)] cmp_nat_rat [OF den, symmetric]
      by (simp add: cmp_rational_def compare_positive_fractions_cross den del: as_u128_pos)
  next
    case nn
    have "cmp_rat (- x) (- y) = cmp_rat y x" for x y by (simp add: cmp_rat_def)
    with nn show ?thesis
      unfolding rational_negative [OF a nn(1)] rational_negative [OF b nn(2)]
      by (simp add: cmp_rational_def compare_positive_fractions_cross den cmp_nat_rat
          del: as_u128_pos)
  qed
qed

section \<open>Ticks\<close>

definition lattice_ok :: "ClockLattice \<Rightarrow> bool" where
  "lattice_ok l \<longleftrightarrow> canonical (period l) \<and> canonical (phase l) \<and> is_positive (period l)"

text \<open>The abstract clock: the time of its \<open>n\<close>-th tick.\<close>

definition tick :: "ClockLattice \<Rightarrow> int \<Rightarrow> rat" where
  "tick l n = rational (phase l) + of_int n * rational (period l)"

lemma lattice_okD:
  assumes "lattice_ok l"
  shows "canonical (period l)" "canonical (phase l)" "0 < rational (period l)"
  using assms rational_pos_iff by (auto simp: lattice_ok_def)

lemma new_lattice_Inr:
  "new_lattice p q = Inr l \<longleftrightarrow> is_positive p \<and> l = \<lparr>period = p, phase = q\<rparr>"
  by (auto simp: new_lattice_def)

lemma lattice_eqI:
  "lattice_ok l \<Longrightarrow> lattice_ok m \<Longrightarrow> rational (period l) = rational (period m) \<Longrightarrow>
    rational (phase l) = rational (phase m) \<Longrightarrow> l = (m :: ClockLattice)"
  using canonical_unique by (auto simp: lattice_ok_def)

lemma sub_sample_Inr:
  assumes l: "lattice_ok l" and f: "in_i128 f" and res: "sub_sample l f = Inr l'"
  shows "lattice_ok l'" "0 < f" "phase l' = phase l"
    "rational (period l') = of_int f * rational (period l)"
proof -
  show "0 < f" using res by (simp add: sub_sample_def split: if_splits)
  from res obtain p where p: "checked_mul_integer (period l) f = Inr p"
    and l': "new_lattice p (phase l) = Inr l'"
    by (auto simp: sub_sample_def res_simps split: if_splits)
  have "canonical p \<and> rational p = rational (period l) * of_int f"
    using decides_computes [OF checked_mul_decides [OF lattice_okD(1) [OF l] canonical_integer [OF f]]]
      p by (auto simp: checked_mul_integer_def dest: computesD)
  with l' l show "lattice_ok l'" "phase l' = phase l"
    "rational (period l') = of_int f * rational (period l)"
    by (auto simp: new_lattice_Inr lattice_ok_def)
qed

lemma super_sample_Inr:
  assumes l: "lattice_ok l" and f: "in_i128 f" and res: "super_sample l f = Inr l'"
  shows "lattice_ok l'" "0 < f" "phase l' = phase l"
    "rational (period l') = rational (period l) / of_int f"
proof -
  show pos: "0 < f" using res by (simp add: super_sample_def split: if_splits)
  from res obtain p where p: "checked_div_integer (period l) f = Inr p"
    and l': "new_lattice p (phase l) = Inr l'"
    by (auto simp: super_sample_def res_simps split: if_splits)
  have "canonical p \<and> rational p = rational (period l) / of_int f"
    using checked_div_computes [OF lattice_okD(1) [OF l] canonical_integer [OF f]] p pos
    by (auto simp: checked_div_integer_def dest: computesD)
  with l' l show "lattice_ok l'" "phase l' = phase l"
    "rational (period l') = rational (period l) / of_int f"
    by (auto simp: new_lattice_Inr lattice_ok_def)
qed

text \<open>Both operators fail only when the new period is not an \<open>i128\<close> fraction.\<close>

lemma sub_sample_representable:
  assumes l: "lattice_ok l" and f: "in_i128 f" "0 < f"
    and rep: "canonical p" "rational p = of_int f * rational (period l)"
  shows "sub_sample l f = Inr \<lparr>period = p, phase = phase l\<rparr>"
proof -
  have "checked_mul (period l) (integer_rational f) = Inr p"
    using checked_mul_decides [OF lattice_okD(1) [OF l] canonical_integer [OF f(1)]] rep
    by (intro decides_Inr) (auto simp: mult.commute)
  moreover have "is_positive p"
    using rep f lattice_okD(3) [OF l] by (simp add: rational_pos_iff)
  ultimately show ?thesis using f by (simp add: sub_sample_def checked_mul_integer_def new_lattice_def)
qed

lemma super_sample_representable:
  assumes l: "lattice_ok l" and f: "in_i128 f" "0 < f"
    and rep: "canonical p" "rational p = rational (period l) / of_int f"
  shows "super_sample l f = Inr \<lparr>period = p, phase = phase l\<rparr>"
proof -
  have "checked_div (period l) (integer_rational f) = Inr p"
    using checked_div_decides [OF lattice_okD(1) [OF l] canonical_integer [OF f(1)]] f(2) rep
    by (intro decides_Inr) (auto simp: integer_rational_def [of f] rational_def [of "\<lparr>num = f, den = 1\<rparr>"])
  moreover have "is_positive p"
    using rep f lattice_okD(3) [OF l] by (simp add: rational_pos_iff)
  ultimately show ?thesis using f by (simp add: super_sample_def checked_div_integer_def new_lattice_def)
qed

lemma shift_offset_Inr:
  assumes l: "lattice_ok l" and res: "shift_offset l c k = Inr q"
  shows "canonical q" "rational q = rational (period l) * (of_int c / of_int k)" "0 \<le> c" "0 < k"
proof -
  show c: "0 \<le> c" "0 < k" using res by (simp_all add: shift_offset_def split: if_splits)
  from res obtain s where s: "new_rational c k = Inr s" and q: "checked_mul (period l) s = Inr q"
    by (auto simp: shift_offset_def res_simps split: if_splits)
  have s': "canonical s \<and> rational s = of_int c / of_int k"
    using decides_computes [OF new_rational_decides [of k c]] s c by (auto dest: computesD)
  show "canonical q" "rational q = rational (period l) * (of_int c / of_int k)"
    using decides_computes [OF checked_mul_decides [OF lattice_okD(1) [OF l], of s]] s' q
    by (auto dest: computesD)
qed

lemma shift_sample_Inr:
  assumes l: "lattice_ok l" and res: "shift_sample l c k = Inr l'"
  shows "lattice_ok l'" "period l' = period l"
    "rational (phase l') = rational (phase l) + rational (period l) * (of_int c / of_int k)"
proof -
  from res obtain q ph where q: "shift_offset l c k = Inr q" and ph: "checked_add (phase l) q = Inr ph"
    and l': "new_lattice (period l) ph = Inr l'"
    by (auto simp: shift_sample_def res_simps)
  have "canonical ph \<and> rational ph = rational (phase l) + rational q"
    using checked_add_computes [OF lattice_okD(2) [OF l] shift_offset_Inr(1) [OF l q]] ph
    by (auto dest: computesD)
  with l' l shift_offset_Inr(2) [OF l q] show "lattice_ok l'" "period l' = period l"
    "rational (phase l') = rational (phase l) + rational (period l) * (of_int c / of_int k)"
    by (auto simp: new_lattice_Inr lattice_ok_def)
qed

lemma back_sample_Inr:
  assumes l: "lattice_ok l" and res: "back_sample l c k = Inr l'"
  shows "lattice_ok l'" "period l' = period l" "0 \<le> rational (phase l')"
    "rational (phase l') = rational (phase l) - rational (period l) * (of_int c / of_int k)"
proof -
  from res obtain q ph where q: "shift_offset l c k = Inr q" and ph: "checked_sub (phase l) q = Inr ph"
    and nn: "\<not> num ph < 0" and l': "new_lattice (period l) ph = Inr l'"
    by (auto simp: back_sample_def res_simps split: if_splits)
  have "canonical ph \<and> rational ph = rational (phase l) - rational q"
    using checked_sub_computes [OF lattice_okD(2) [OF l] shift_offset_Inr(1) [OF l q]] ph
    by (auto dest: computesD)
  with l' l nn shift_offset_Inr(2) [OF l q] show "lattice_ok l'" "period l' = period l"
    "0 \<le> rational (phase l')"
    "rational (phase l') = rational (phase l) - rational (period l) * (of_int c / of_int k)"
    by (auto simp: new_lattice_Inr lattice_ok_def rational_neg_iff not_less)
qed

lemmas magnitude_defs = positive_from_magnitude_iff signed_from_magnitude_iff Let_def

lemma reduce_errors: "reduce n d = Inl e \<Longrightarrow> e \<in> {ZeroDenominator, IntegerOverflow}"
  by (auto simp: reduce_def from_signed_magnitude_def magnitude_defs res_simps split: if_splits)

lemma checked_sub_errors: "checked_sub a b = Inl e \<Longrightarrow> e \<in> {ZeroDenominator, IntegerOverflow}"
  by (auto simp: checked_sub_def checked_same_denominator_def from_signed_magnitude_def
      magnitude_defs res_simps dest: reduce_errors split: if_splits prod.splits)

lemma checked_mul_errors: "checked_mul a b = Inl e \<Longrightarrow> e \<in> {ZeroDenominator, IntegerOverflow}"
  by (auto simp: checked_mul_def divide_signed_by_unsigned_def divide_positive_by_unsigned_def
      magnitude_defs res_simps dest: reduce_errors split: if_splits)

lemma shift_offset_errors:
  "shift_offset l c k = Inl e \<Longrightarrow> e \<in> {NonPositiveFactor, ZeroDenominator, IntegerOverflow}"
  by (auto simp: shift_offset_def new_rational_def res_simps
      dest: reduce_errors checked_mul_errors split: if_splits)

text \<open>A refusal for starting too early is a phase that would be negative.\<close>

lemma back_sample_early:
  assumes l: "lattice_ok l" and res: "back_sample l c k = Inl ClockStartsBeforeBaseClock"
  shows "rational (phase l) < rational (period l) * (of_int c / of_int k)"
proof (cases "\<exists>q ph. shift_offset l c k = Inr q \<and> checked_sub (phase l) q = Inr ph \<and> num ph < 0")
  case True
  then obtain q ph where q: "shift_offset l c k = Inr q" and ph: "checked_sub (phase l) q = Inr ph"
    and neg: "num ph < 0" by blast
  have "canonical ph \<and> rational ph = rational (phase l) - rational q"
    using checked_sub_computes [OF lattice_okD(2) [OF l] shift_offset_Inr(1) [OF l q]] ph
    by (auto dest: computesD)
  with neg shift_offset_Inr(2) [OF l q] show ?thesis by (auto simp: rational_neg_iff)
next
  case False
  with res show ?thesis
    by (auto simp: back_sample_def new_lattice_def res_simps split: if_splits
        dest: checked_sub_errors shift_offset_errors)
qed

lemma tick_time_computes:
  assumes l: "lattice_ok l" and n: "in_i128 n"
  shows "computes (tick_time l n) (tick l n)"
  unfolding tick_time_def
proof (rule computes_bindR)
  fix q assume q: "checked_mul_integer (period l) n = Inr q"
  have "canonical q \<and> rational q = rational (period l) * of_int n"
    using decides_computes [OF checked_mul_decides [OF lattice_okD(1) [OF l] canonical_integer [OF n]]] q
    by (auto simp: checked_mul_integer_def dest: computesD)
  with checked_add_computes [OF lattice_okD(2) [OF l], of q]
  show "computes (checked_add (phase l) q) (tick l n)" by (simp add: tick_def mult.commute)
qed

section \<open>Properties\<close>

text \<open>Sums and differences of canonical fractions are exact: whatever \<open>checked_add\<close> or
  \<open>checked_sub\<close> returns is again canonical and is the rational sum or difference; with
  equal denominators they return it whenever it is an \<open>i128\<close> fraction at all, even when
  the numerators overflow on the way, and report \<open>IntegerOverflow\<close> otherwise.\<close>

lemma clock_sum_exact:
  assumes "canonical a" and "canonical b"
  shows "computes (checked_add a b) (rational a + rational b) \<and>
    computes (checked_sub a b) (rational a - rational b) \<and>
    (den a = den b \<longrightarrow> decides (checked_add a b) (rational a + rational b) \<and>
      decides (checked_sub a b) (rational a - rational b))"
  using checked_add_computes [OF assms] checked_sub_computes [OF assms]
    checked_same_denominator_decides [OF assms, of True]
    checked_same_denominator_decides [OF assms, of False]
  by (simp add: checked_add_def checked_sub_def)

text \<open>The product is complete: \<open>checked_mul\<close> cancels across the factors, so it
  returns the canonical product whenever that is an \<open>i128\<close> fraction, and
  \<open>IntegerOverflow\<close> exactly when it is not.\<close>

lemma clock_product_complete:
  assumes "canonical a" and "canonical b"
  shows "decides (checked_mul a b) (rational a * rational b)"
  using assms by (rule checked_mul_decides)

text \<open>Division is exact, refuses a zero divisor with \<open>ZeroDenominator\<close>, and by a
  positive divisor returns the quotient whenever it is an \<open>i128\<close> fraction.\<close>

lemma clock_division_exact:
  assumes "canonical a" and "canonical b"
  shows "computes (checked_div a b) (rational a / rational b) \<and>
    (checked_div a b = Inl ZeroDenominator \<longleftrightarrow> rational b = 0) \<and>
    (0 < rational b \<longrightarrow> decides (checked_div a b) (rational a / rational b))"
proof -
  have "rational b = 0" if "checked_div a b = Inl ZeroDenominator"
  proof (rule ccontr)
    assume "rational b \<noteq> 0"
    then have nb: "num b \<noteq> 0" by (auto simp: rational_def)
    with that have na: "num a \<noteq> 0" by (auto simp: checked_div_def is_zero_def)
    note p = checked_div_parts [OF assms na nb]
    have nz: "den a div gcd (den a) (den b) * (num b div gcd (num a) (num b)) \<noteq> 0"
      using p(4) nb dvd_div_eq_0_iff [OF gcd_dvd2, of "num b" "num a"] by simp
    show False
      using that nz by (auto simp: p(1) res_simps reduce_def from_signed_magnitude_def
          magnitude_defs split: if_splits)
  qed
  moreover have "checked_div a b = Inl ZeroDenominator" if "rational b = 0"
    using that rational_zero_iff [OF assms(2)] by (simp add: checked_div_def)
  moreover have "0 < num b" if "0 < rational b"
    using that rational_pos_iff [OF assms(2)] by (simp add: is_positive_def)
  ultimately show ?thesis
    using checked_div_computes [OF assms] checked_div_decides [OF assms] by blast
qed

text \<open>C36: Fraction arithmetic on canonical \<open>i128\<close> fractions is exact: whatever addition, subtraction,
  multiplication or division returns is the canonical result, and division answers
  \<open>ZeroDenominator\<close> exactly for a zero divisor. Multiplication, division by a positive number, and addition
  and subtraction over a common denominator return the result whenever it is an \<open>i128\<close>
  fraction at all and answer \<open>IntegerOverflow\<close> otherwise.\<close>

theorem clock_arithmetic_exact:
  assumes "canonical a" and "canonical b"
  shows "computes (checked_add a b) (rational a + rational b) \<and> computes (checked_sub a b) (rational a - rational b) \<and>
    (den a = den b \<longrightarrow> decides (checked_add a b) (rational a + rational b) \<and> decides (checked_sub a b) (rational a - rational b)) \<and>
    decides (checked_mul a b) (rational a * rational b) \<and>
    computes (checked_div a b) (rational a / rational b) \<and>
    (checked_div a b = Inl ZeroDenominator \<longleftrightarrow> rational b = 0) \<and>
    (0 < rational b \<longrightarrow> decides (checked_div a b) (rational a / rational b))"
  using clock_sum_exact [OF assms] clock_product_complete [OF assms] clock_division_exact [OF assms] by blast

theorem clock_arithmetic_exact_witness:
  "checked_div \<lparr>num = 3, den = 4\<rparr> ZERO = Inl ZeroDenominator \<and>
   decides (checked_mul \<lparr>num = 170141183460469231731687303715884105727, den = 2\<rparr> \<lparr>num = 2, den = 3\<rparr>)
     (rational \<lparr>num = 170141183460469231731687303715884105727, den = 2\<rparr> * rational \<lparr>num = 2, den = 3\<rparr>)"
proof -
  have a: "canonical \<lparr>num = 3, den = 4\<rparr>" by (simp add: canonical_def machine_int) code_simp
  have b: "canonical \<lparr>num = 170141183460469231731687303715884105727, den = 2\<rparr>" "canonical \<lparr>num = 2, den = 3\<rparr>"
    by (simp_all add: canonical_def machine_int)
  have "rational ZERO = 0" by (simp add: rational_def ZERO_def)
  then show ?thesis using clock_arithmetic_exact [OF a canonical_ZERO] clock_arithmetic_exact [OF b] by blast
qed

text \<open>Comparing two canonical fractions never divides by zero and, without forming a
  cross product that could overflow, returns the order of the two numbers: \<open>cmp_rational_eq\<close>.\<close>

text \<open>C37: The conversion operators relate ticks as MLS 16.5.2 defines: the \<open>n\<close>-th tick of
  \<open>subSample(c, f)\<close> is tick \<open>f * n\<close> of \<open>c\<close>, tick \<open>f * n\<close> of
  \<open>superSample(c, f)\<close> is the \<open>n\<close>-th tick of \<open>c\<close>; super-sampling a sub-sampled clock by
  the same factor always succeeds and gives back the clock, and so does the converse.\<close>

theorem clock_sampling_round_trip:
  assumes "lattice_ok l" and "in_i128 f"
  shows "(\<forall>l'. sub_sample l f = Inr l' \<longrightarrow> lattice_ok l' \<and> (\<forall>n. tick l' n = tick l (f * n)) \<and>
      super_sample l' f = Inr l) \<and>
    (\<forall>l'. super_sample l f = Inr l' \<longrightarrow> lattice_ok l' \<and> (\<forall>n. tick l' (f * n) = tick l n) \<and>
      sub_sample l' f = Inr l)"
proof (intro conjI allI impI)
  fix l' assume s: "sub_sample l f = Inr l'"
  note i = sub_sample_Inr [OF assms s]
  show "lattice_ok l'" by (rule i(1))
  show "tick l' n = tick l (f * n)" for n using i by (simp add: tick_def)
  show "super_sample l' f = Inr l"
    using super_sample_representable [OF i(1) assms(2) i(2) lattice_okD(1) [OF assms(1)]] i by simp
next
  fix l' assume s: "super_sample l f = Inr l'"
  note i = super_sample_Inr [OF assms s]
  show "lattice_ok l'" by (rule i(1))
  show "tick l' (f * n) = tick l n" for n using i by (simp add: tick_def)
  show "sub_sample l' f = Inr l"
    using sub_sample_representable [OF i(1) assms(2) i(2) lattice_okD(1) [OF assms(1)]] i by simp
qed

theorem clock_sampling_round_trip_witness:
  "super_sample \<lparr>period = \<lparr>num = 3, den = 100\<rparr>, phase = ZERO\<rparr> 3 =
     Inr \<lparr>period = \<lparr>num = 1, den = 100\<rparr>, phase = ZERO\<rparr>"
proof -
  have l: "lattice_ok \<lparr>period = \<lparr>num = 1, den = 100\<rparr>, phase = ZERO\<rparr>"
    by (simp add: lattice_ok_def is_positive_def canonical_def [of "\<lparr>num = 1, den = 100\<rparr>"] machine_int)
  have f: "in_i128 3" by (simp add: machine_int)
  have "sub_sample \<lparr>period = \<lparr>num = 1, den = 100\<rparr>, phase = ZERO\<rparr> 3 =
      Inr \<lparr>period = \<lparr>num = 3, den = 100\<rparr>, phase = ZERO\<rparr>" by code_simp
  then show ?thesis using clock_sampling_round_trip [OF l f] by blast
qed

text \<open>\<open>shiftSample(c, k, r)\<close> delays every tick by \<open>k / r\<close> periods and
  \<open>backSample\<close> advances it, never to a negative start; stepping back after a shift
  returns to the clock or overflows, it never yields another clock and is never refused
  for starting too early.\<close>

lemma clock_shift_ticks:
  assumes "lattice_ok l"
  shows "(\<forall>l'. shift_sample l c k = Inr l' \<longrightarrow> lattice_ok l' \<and>
      (\<forall>n. tick l' n = tick l n + rational (period l) * (of_int c / of_int k)) \<and>
      (0 \<le> rational (phase l) \<longrightarrow> (\<forall>l''. back_sample l' c k = Inr l'' \<longrightarrow> l'' = l) \<and>
        back_sample l' c k \<noteq> Inl ClockStartsBeforeBaseClock)) \<and>
    (\<forall>l'. back_sample l c k = Inr l' \<longrightarrow> lattice_ok l' \<and> 0 \<le> rational (phase l') \<and>
      (\<forall>n. tick l' n = tick l n - rational (period l) * (of_int c / of_int k)))"
proof (intro conjI allI impI)
  fix l' assume s: "shift_sample l c k = Inr l'"
  note i = shift_sample_Inr [OF assms s]
  show "lattice_ok l'" by (rule i(1))
  show "tick l' n = tick l n + rational (period l) * (of_int c / of_int k)" for n
    using i by (simp add: tick_def)
  assume ph: "0 \<le> rational (phase l)"
  show "back_sample l' c k \<noteq> Inl ClockStartsBeforeBaseClock"
    using back_sample_early [OF i(1)] i(2,3) ph by fastforce
  fix l'' assume b: "back_sample l' c k = Inr l''"
  show "l'' = l" using back_sample_Inr [OF i(1) b] i assms by (intro lattice_eqI) auto
next
  fix l' assume s: "back_sample l c k = Inr l'"
  note i = back_sample_Inr [OF assms s]
  show "lattice_ok l'" "0 \<le> rational (phase l')" by (rule i(1), rule i(3))
  show "tick l' n = tick l n - rational (period l) * (of_int c / of_int k)" for n
    using i by (simp add: tick_def)
qed

text \<open>\<open>tick_time\<close> returns exactly the time of the tick of the given index, as a
  canonical fraction, whenever it returns; the ticks are strictly increasing.\<close>

lemma clock_tick_time_exact:
  assumes "lattice_ok l" and "in_i128 n"
  shows "(\<forall>t. tick_time l n = Inr t \<longrightarrow> canonical t \<and>
      rational t = rational (phase l) + of_int n * rational (period l)) \<and>
    (\<forall>m. n < m \<longrightarrow> tick l n < tick l m)"
  using tick_time_computes [OF assms] lattice_okD(3) [OF assms(1)]
  by (auto simp: computes_def tick_def)

end
