(* ===== verification/Graph.thy ===== *)
theory Graph
  imports Prelude
begin

text \<open>
  Directed graphs as the phases hold them, a slice of successor lists: the edge
  relation, reachability, and the specification of a component sequence that the
  providers of strongly connected components are shown to meet and that the
  block sorting relies on.
\<close>

section \<open>Adjacency lists\<close>

text \<open>\<open>adj.get(v)\<close>: a node without a row has no successors.\<close>

definition nbrs :: "nat list list \<Rightarrow> nat \<Rightarrow> nat list" where
  "nbrs adj v = (if v < length adj then adj ! v else [])"

definition edges :: "nat list list \<Rightarrow> (nat \<times> nat) set" where
  "edges adj = {(v, w). w \<in> set (nbrs adj v)}"

definition adj_ok :: "nat \<Rightarrow> nat list list \<Rightarrow> bool" where
  "adj_ok n adj \<longleftrightarrow> (\<forall>v < n. \<forall>w \<in> set (nbrs adj v). w < n)"

abbreviation reach :: "nat list list \<Rightarrow> nat \<Rightarrow> nat \<Rightarrow> bool" where
  "reach adj u v \<equiv> (u, v) \<in> (edges adj)\<^sup>*"

lemma edges_iff [simp]: "(v, w) \<in> edges adj \<longleftrightarrow> w \<in> set (nbrs adj v)"
  by (simp add: edges_def)

lemma reach_step: "w \<in> set (nbrs adj v) \<Longrightarrow> reach adj v w"
  by (simp add: r_into_rtrancl)

lemma reach_in_range:
  assumes "adj_ok n adj" and "reach adj u v" and "u < n"
  shows "v < n"
  using assms(2,3) by induction (use assms(1) in \<open>auto simp: adj_ok_def\<close>)

section \<open>Component sequences\<close>

text \<open>
  The contract: the components partition the nodes, each is strongly connected, and
  an edge leads into its own or an earlier component (reverse topological order).
\<close>

definition scc_sequence :: "nat \<Rightarrow> nat list list \<Rightarrow> nat list list \<Rightarrow> bool" where
  "scc_sequence n adj C \<longleftrightarrow>
     distinct (concat C) \<and> set (concat C) = {..<n} \<and> [] \<notin> set C \<and>
     (\<forall>c \<in> set C. \<forall>u \<in> set c. \<forall>v \<in> set c. reach adj u v) \<and>
     (\<forall>i < length C. \<forall>u \<in> set (C ! i). \<forall>w \<in> set (nbrs adj u). \<exists>j \<le> i. w \<in> set (C ! j))"

lemma concat_index_unique:
  assumes "distinct (concat C)" "i < length C" "j < length C" "x \<in> set (C ! i)" "x \<in> set (C ! j)"
  shows "i = j"
  using assms
proof (induction C arbitrary: i j)
  case (Cons c C)
  have *: "x \<notin> set (C ! k)" if "x \<in> set c" "k < length C" for k
    using Cons.prems(1) that by (auto dest!: nth_mem simp: disjoint_iff)
  show ?case
    using Cons.prems Cons.IH [of "i - 1" "j - 1"] * by (cases i; cases j) auto
qed simp

lemma scc_sequence_reach:
  assumes seq: "scc_sequence n adj C" and uv: "reach adj u v"
    and i: "i < length C" "u \<in> set (C ! i)"
  shows "\<exists>j \<le> i. v \<in> set (C ! j)"
  using uv
proof induction
  case base
  then show ?case using i by blast
next
  case (step v w)
  then obtain j where "j \<le> i" "v \<in> set (C ! j)" by blast
  moreover have "\<exists>k \<le> j. w \<in> set (C ! k)"
    using seq step(2) i(1) \<open>j \<le> i\<close> \<open>v \<in> set (C ! j)\<close> unfolding scc_sequence_def by fastforce
  ultimately show ?case by (meson order_trans)
qed

text \<open>Two nodes share a component exactly when they reach each other.\<close>

lemma scc_sequence_mutual:
  assumes seq: "scc_sequence n adj C" and i: "i < length C" "u \<in> set (C ! i)"
    and j: "j < length C" "v \<in> set (C ! j)"
  shows "i = j \<longleftrightarrow> reach adj u v \<and> reach adj v u"
proof
  assume "i = j"
  then show "reach adj u v \<and> reach adj v u"
    using seq i j unfolding scc_sequence_def by (metis nth_mem)
next
  assume r: "reach adj u v \<and> reach adj v u"
  have d: "distinct (concat C)" using seq by (simp add: scc_sequence_def)
  obtain k where k: "k \<le> i" "v \<in> set (C ! k)"
    using scc_sequence_reach [OF seq _ i] r by blast
  obtain l where l: "l \<le> j" "u \<in> set (C ! l)"
    using scc_sequence_reach [OF seq _ j] r by blast
  have "k = j" using concat_index_unique [OF d _ j(1) k(2) j(2)] k(1) i(1) by linarith
  moreover have "l = i" using concat_index_unique [OF d _ i(1) l(2) i(2)] l(1) j(1) by linarith
  ultimately show "i = j" using k(1) l(1) by simp
qed

text \<open>The components of a graph are determined up to their order.\<close>

lemma scc_sequence_subset:
  assumes C: "scc_sequence n adj C" and D: "scc_sequence n adj D"
  shows "set ` set C \<subseteq> set ` set D"
proof
  have same: "set (E ! i) = {v. v < n \<and> reach adj u v \<and> reach adj v u}"
    if E: "scc_sequence n adj E" and i: "i < length E" "u \<in> set (E ! i)" for E i u
  proof (intro set_eqI iffI CollectI conjI)
    fix v assume v: "v \<in> set (E ! i)"
    then show "v < n" using E i(1) unfolding scc_sequence_def by (force simp: set_concat)
    show "reach adj u v" "reach adj v u" using scc_sequence_mutual [OF E i i(1) v] by blast+
  next
    fix v assume v: "v \<in> {v. v < n \<and> reach adj u v \<and> reach adj v u}"
    then have "v \<in> set (concat E)" using E by (simp add: scc_sequence_def)
    then obtain c where "c \<in> set E" "v \<in> set c" by auto
    then obtain j where j: "j < length E" "v \<in> set (E ! j)" by (metis in_set_conv_nth)
    then show "v \<in> set (E ! i)" using scc_sequence_mutual [OF E i j] v by blast
  qed
  fix X assume "X \<in> set ` set C"
  then obtain i where i: "i < length C" "X = set (C ! i)" by (auto simp: in_set_conv_nth)
  moreover have "C ! i \<noteq> []" using C i(1) by (metis nth_mem scc_sequence_def)
  ultimately obtain u where u: "u \<in> set (C ! i)" by (metis last_in_set)
  have "u \<in> set (concat D)" using u i(1) C D by (auto simp: scc_sequence_def)
  then obtain d where "d \<in> set D" "u \<in> set d" by auto
  then obtain j where j: "j < length D" "u \<in> set (D ! j)" by (metis in_set_conv_nth)
  have "X = set (D ! j)" using same [OF C i(1) u] same [OF D j] i(2) by simp
  then show "X \<in> set ` set D" using j(1) by simp
qed

lemma scc_sequence_unique: "scc_sequence n adj C \<Longrightarrow> scc_sequence n adj D \<Longrightarrow> set ` set C = set ` set D"
  by (intro equalityI scc_sequence_subset)

text \<open>
  The interface the block sorting relies on: a provider returns a component sequence
  for every graph whose edges stay in range.
\<close>

locale scc_provider =
  fixes scc :: "nat \<Rightarrow> nat list list \<Rightarrow> nat list list option"
  assumes scc_ok: "adj_ok n adj \<Longrightarrow> \<exists>C. scc n adj = Some C \<and> scc_sequence n adj C"
begin

lemma scc_result: "adj_ok n adj \<Longrightarrow> scc n adj = Some C \<Longrightarrow> scc_sequence n adj C"
  using scc_ok [of n adj] by auto

lemma same_component:
  assumes "adj_ok n adj" "scc n adj = Some C" "i < length C" "j < length C" "u \<in> set (C ! i)" "v \<in> set (C ! j)"
  shows "i = j \<longleftrightarrow> reach adj u v \<and> reach adj v u"
  using scc_sequence_mutual [OF scc_result [OF assms(1,2)] assms(3,5,4,6)] .

lemma component_order:
  assumes "adj_ok n adj" "scc n adj = Some C" "i < length C" "j < length C" "u \<in> set (C ! i)" "v \<in> set (C ! j)"
    and "reach adj u v"
  shows "j \<le> i"
proof -
  have seq: "scc_sequence n adj C" using assms(1,2) by (rule scc_result)
  obtain k where k: "k \<le> i" "v \<in> set (C ! k)"
    using scc_sequence_reach [OF seq assms(7,3,5)] by blast
  have "k = j"
    using seq concat_index_unique [of C k j v] k assms(3,4,6) by (auto simp: scc_sequence_def)
  with k show ?thesis by simp
qed

lemma components_partition:
  assumes "adj_ok n adj" "scc n adj = Some C"
  shows "distinct (concat C)" "set (concat C) = {..<n}" "[] \<notin> set C"
  using scc_result [OF assms] by (auto simp: scc_sequence_def)

end

end
