(* ===== verification/Incidence.thy ===== *)
theory Incidence
  imports Graph
begin

text \<open>
  The scalar compatibility graph of \<open>rumoca-phase-structural\<close>: the compressed sparse
  rows of \<open>incidence/rows.rs\<close> and their builder, the affine structured families of
  \<open>incidence.rs\<close> and the dependency graph a matching induces. The rows are shown to
  refine a plain list of canonical (strictly ascending) runs. The builder's scratch
  buffer, emptied at every use, and the source spans are left out.
\<close>

section \<open>Compressed sparse rows\<close>

record IncidenceRows =
  offsets :: "nat list"
  columns :: "nat list"

definition rows_default :: IncidenceRows where
  "rows_default = \<lparr>offsets = [0], columns = []\<rparr>"

definition rows_len :: "IncidenceRows \<Rightarrow> nat" where
  "rows_len r = length (offsets r) - 1"

definition rows_is_empty :: "IncidenceRows \<Rightarrow> bool" where
  "rows_is_empty r \<longleftrightarrow> rows_len r = 0"

text \<open>\<open>columns.get(start..end)\<close>.\<close>

definition slice :: "'a list \<Rightarrow> nat \<Rightarrow> nat \<Rightarrow> 'a list option" where
  "slice xs a b = (if a \<le> b \<and> b \<le> length xs then Some (take (b - a) (drop a xs)) else None)"

definition row :: "IncidenceRows \<Rightarrow> nat \<Rightarrow> nat list" where
  "row r equation =
     (case idx (offsets r) equation of
        None \<Rightarrow> []
      | Some start \<Rightarrow>
          (case idx (offsets r) (equation + 1) of
             None \<Rightarrow> []
           | Some end_offset \<Rightarrow>
               (case slice (columns r) start end_offset of None \<Rightarrow> [] | Some run \<Rightarrow> run)))"

definition get_row :: "IncidenceRows \<Rightarrow> nat \<Rightarrow> nat list option" where
  "get_row r equation = (if equation < rows_len r then Some (row r equation) else None)"

text \<open>
  The standard library's \<open>binary_search\<close> on a strictly ascending slice: the position of
  the element if it occurs.
\<close>

definition binary_search :: "nat list \<Rightarrow> nat \<Rightarrow> nat option" where
  "binary_search xs x = (if x \<in> set xs then Some (length (takeWhile (\<lambda>y. y \<noteq> x) xs)) else None)"

definition contains :: "IncidenceRows \<Rightarrow> nat \<Rightarrow> nat \<Rightarrow> bool" where
  "contains r equation variable \<longleftrightarrow> binary_search (row r equation) variable \<noteq> None"

definition entry_count :: "IncidenceRows \<Rightarrow> nat" where
  "entry_count r = length (columns r)"

definition rows_iter :: "IncidenceRows \<Rightarrow> nat list list" where
  "rows_iter r = map (row r) [0..<rows_len r]"

record IncidenceRowsBuilder =
  b_offsets :: "nat list"
  b_columns :: "nat list"

definition builder_default :: IncidenceRowsBuilder where
  "builder_default = \<lparr>b_offsets = [0], b_columns = []\<rparr>"

definition with_row_capacity :: "nat \<Rightarrow> IncidenceRowsBuilder" where
  "with_row_capacity n = \<lparr>b_offsets = [0], b_columns = []\<rparr>"

definition row_count :: "IncidenceRowsBuilder \<Rightarrow> nat" where
  "row_count b = length (b_offsets b) - 1"

definition builder_row :: "IncidenceRowsBuilder \<Rightarrow> nat \<Rightarrow> nat list option" where
  "builder_row b equation = do {
     start \<leftarrow> idx (b_offsets b) equation;
     end_offset \<leftarrow> idx (b_offsets b) (equation + 1);
     slice (b_columns b) start end_offset
   }"

definition append_run :: "nat list \<Rightarrow> IncidenceRowsBuilder \<Rightarrow> IncidenceRowsBuilder" where
  "append_run run b =
     (let cols = b_columns b @ run in
      \<lparr>b_offsets = b_offsets b @ [length cols], b_columns = cols\<rparr>)"

text \<open>\<open>sort_unstable\<close> and \<open>dedup\<close>; unsigned integers have one sorted order.\<close>

definition push_unsorted :: "nat list \<Rightarrow> IncidenceRowsBuilder \<Rightarrow> IncidenceRowsBuilder" where
  "push_unsorted cols b = append_run (remdups_adj (sort cols)) b"

definition push_occurrences :: "nat list \<Rightarrow> IncidenceRowsBuilder \<Rightarrow> IncidenceRowsBuilder" where
  "push_occurrences occurrences b = push_unsorted occurrences b"

definition push_canonical_row :: "nat list \<Rightarrow> IncidenceRowsBuilder \<Rightarrow> IncidenceRowsBuilder" where
  "push_canonical_row cols b = append_run cols b"

definition finish :: "IncidenceRowsBuilder \<Rightarrow> IncidenceRows" where
  "finish b = \<lparr>offsets = b_offsets b, columns = b_columns b\<rparr>"

text \<open>A hash set is the list of its elements in the order the iteration yields them.\<close>

definition from_sets :: "nat list list \<Rightarrow> IncidenceRows" where
  "from_sets rows = finish (foldl (\<lambda>b r. push_unsorted r b) (with_row_capacity (length rows)) rows)"

section \<open>Structured families\<close>

record StructuredMatchingFamily =
  source_owner_index :: nat
  first_equation_index :: nat
  equations_per_point :: nat
  point_count :: nat
  extents :: "nat list"
  cell_strides :: "nat list"
  base_unknowns :: "nat list"
  unknown_steps :: "int list list"

definition cell_coordinate :: "nat \<Rightarrow> nat \<Rightarrow> nat \<Rightarrow> nat" where
  "cell_coordinate point stride extent =
     (if stride = 0 \<or> extent = 0 then 0 else (point div stride) mod extent)"

text \<open>
  The loop both candidate functions share, over the enumerated steps; the coordinate of
  a dimension is what they differ in.
\<close>

fun candidate_loop :: "(nat \<Rightarrow> nat option) \<Rightarrow> nat \<Rightarrow> int list \<Rightarrow> int \<Rightarrow> int option" where
  "candidate_loop coord dimension [] unknown = Some unknown"
| "candidate_loop coord dimension (step # steps) unknown = do {
     c \<leftarrow> coord dimension;
     c' \<leftarrow> chk_i64 (int c);
     delta \<leftarrow> chk_i64 (c' * step);
     u \<leftarrow> chk_i64 (unknown + delta);
     candidate_loop coord (dimension + 1) steps u
   }"

definition candidate_with ::
  "(nat \<Rightarrow> nat option) \<Rightarrow> StructuredMatchingFamily \<Rightarrow> nat \<Rightarrow> nat \<Rightarrow> (nat \<times> nat) option" where
  "candidate_with coord family point equation_position =
     (if point \<ge> point_count family \<or> equation_position \<ge> equations_per_point family then None
      else do {
        p \<leftarrow> chk_usize (point * equations_per_point family);
        q \<leftarrow> chk_usize (p + equation_position);
        equation \<leftarrow> chk_usize (q + first_equation_index family);
        base \<leftarrow> idx (base_unknowns family) equation_position;
        base \<leftarrow> chk_i64 (int base);
        steps \<leftarrow> idx (unknown_steps family) equation_position;
        unknown \<leftarrow> candidate_loop coord 0 steps base;
        u \<leftarrow> usize_of_int unknown;
        Some (equation, u)
      })"

definition candidate :: "StructuredMatchingFamily \<Rightarrow> nat \<Rightarrow> nat \<Rightarrow> (nat \<times> nat) option" where
  "candidate family point equation_position =
     candidate_with (\<lambda>dimension. do {
         stride \<leftarrow> idx (cell_strides family) dimension;
         extent \<leftarrow> idx (extents family) dimension;
         Some (cell_coordinate point stride extent)
       }) family point equation_position"

definition family_row_count :: "StructuredMatchingFamily \<Rightarrow> nat option" where
  "family_row_count family = chk_usize (point_count family * equations_per_point family)"

definition row_range :: "StructuredMatchingFamily \<Rightarrow> (nat \<times> nat) option" where
  "row_range family = do {
     n \<leftarrow> family_row_count family;
     end_row \<leftarrow> chk_usize (first_equation_index family + n);
     Some (first_equation_index family, end_row)
   }"

definition singleton_builder_row :: "IncidenceRowsBuilder \<Rightarrow> nat \<Rightarrow> nat option" where
  "singleton_builder_row rows r = do {
     values \<leftarrow> builder_row rows r;
     (if length values = 1 then Some (values ! 0) else None)
   }"

text \<open>The descending loop that fills the strides, from the last dimension.\<close>

fun row_major_strides_from :: "nat list \<Rightarrow> nat list option" where
  "row_major_strides_from [] = Some []"
| "row_major_strides_from [e] = Some [1]"
| "row_major_strides_from (e # e' # es) = do {
     strides \<leftarrow> row_major_strides_from (e' # es);
     s \<leftarrow> chk_usize (hd strides * e');
     Some (s # strides)
   }"

definition family_steps ::
  "IncidenceRowsBuilder \<Rightarrow> nat \<Rightarrow> nat \<Rightarrow> nat list \<Rightarrow> nat list \<Rightarrow> nat list \<Rightarrow> nat \<Rightarrow> int list option" where
  "family_steps rows first per_point exts strides bases position =
     those (map (\<lambda>dimension.
       (if exts ! dimension \<le> 1 then Some 0
        else do {
          s \<leftarrow> chk_usize (strides ! dimension * per_point);
          r \<leftarrow> chk_usize (first + s);
          r \<leftarrow> chk_usize (r + position);
          corner \<leftarrow> singleton_builder_row rows r;
          c \<leftarrow> chk_i64 (int corner);
          b \<leftarrow> chk_i64 (int (bases ! position));
          chk_i64 (c - b)
        })) [0..<length strides])"

definition derive_structured_matching ::
  "nat \<Rightarrow> IncidenceRowsBuilder \<Rightarrow> nat \<Rightarrow> nat \<Rightarrow> nat list \<Rightarrow> StructuredMatchingFamily option" where
  "derive_structured_matching owner_index rows first per_point exts =
     (if per_point = 0 \<or> 0 \<in> set exts then None
      else do {
        count \<leftarrow> try_fold (\<lambda>count extent. chk_usize (count * extent)) 1 exts;
        strides \<leftarrow> row_major_strides_from exts;
        bases \<leftarrow> those (map (\<lambda>position. singleton_builder_row rows (first + position)) [0..<per_point]);
        steps \<leftarrow> those (map (family_steps rows first per_point exts strides bases) [0..<per_point]);
        (let descriptor = \<lparr>source_owner_index = owner_index, first_equation_index = first,
               equations_per_point = per_point, point_count = count, extents = exts,
               cell_strides = strides, base_unknowns = bases, unknown_steps = steps\<rparr> in
         if (\<forall>point \<in> set [0..<count]. \<forall>position \<in> set [0..<per_point].
              (case candidate descriptor point position of
                 None \<Rightarrow> False
               | Some (r, predicted) \<Rightarrow> singleton_builder_row rows r = Some predicted))
         then Some descriptor else None)
      })"

section \<open>The dependency graph of a matching\<close>

definition build_dependency_graph :: "IncidenceRows \<Rightarrow> nat option list \<Rightarrow> nat \<Rightarrow> nat list list" where
  "build_dependency_graph eq_unknowns match_var n_eq =
     map (\<lambda>equation. remdups_adj (sort (filter (\<lambda>owner. owner \<noteq> equation)
       (List.map_filter (slot match_var) (row eq_unknowns equation))))) [0..<n_eq]"

section \<open>The rows refine a list of canonical runs\<close>

definition csr :: "nat list \<Rightarrow> nat list \<Rightarrow> nat list list \<Rightarrow> bool" where
  "csr offs cols rs \<longleftrightarrow> offs = map (\<lambda>i. length (concat (take i rs))) [0..<length rs + 1] \<and> cols = concat rs"

definition csr_ok :: "IncidenceRows \<Rightarrow> bool" where
  "csr_ok r \<longleftrightarrow> (\<exists>rs. csr (offsets r) (columns r) rs \<and> (\<forall>run \<in> set rs. sorted_wrt (<) run))"

lemma slice_run:
  assumes "i < length rs"
  shows "slice (concat rs) (length (concat (take i rs))) (length (concat (take (Suc i) rs))) = Some (rs ! i)"
proof -
  have eq: "concat rs = concat (take i rs) @ rs ! i @ concat (drop (Suc i) rs)"
    by (subst id_take_nth_drop [OF assms]) simp
  have "concat (take (Suc i) rs) = concat (take i rs) @ rs ! i"
    using assms by (simp add: take_Suc_conv_app_nth)
  then show ?thesis by (simp add: slice_def eq)
qed

lemma csr_builder_row:
  "csr (b_offsets b) (b_columns b) rs \<Longrightarrow> builder_row b i = (if i < length rs then Some (rs ! i) else None)"
  using slice_run [of i rs] by (auto simp: builder_row_def csr_def nth_append simp del: upt_Suc)

lemma csr_row: "csr (offsets r) (columns r) rs \<Longrightarrow> row r i = (if i < length rs then rs ! i else [])"
  using slice_run [of i rs] by (auto simp: row_def csr_def idx_def simp del: upt_Suc)

lemma csr_len: "csr (offsets r) (columns r) rs \<Longrightarrow> rows_len r = length rs"
  by (simp add: rows_len_def csr_def)

lemma csr_append:
  "csr (b_offsets b) (b_columns b) rs \<Longrightarrow>
     csr (b_offsets (append_run run b)) (b_columns (append_run run b)) (rs @ [run])"
  by (auto simp: csr_def append_run_def Let_def)

lemma sorted_remdups_adj_strict: "sorted xs \<Longrightarrow> sorted_wrt (<) (remdups_adj (xs :: nat list))"
proof (induction xs rule: remdups_adj.induct)
  case (3 x y xs)
  then have "x \<le> z" if "z \<in> set (y # xs)" for z using that by auto
  with 3 show ?case by (cases "x = y") (auto simp: le_less)
qed auto

lemma canonical_run: "remdups_adj (sort xs) = sorted_list_of_set (set (xs :: nat list))"
  using sorted_remdups_adj_strict [of "sort xs"]
  by (intro sorted_distinct_set_unique) (auto simp: strict_sorted_iff)

lemma csr_ok_sorted: "csr_ok r \<Longrightarrow> sorted_wrt (<) (row r i)"
  by (auto simp: csr_ok_def csr_row)

lemma csr_ok_distinct: "csr_ok r \<Longrightarrow> distinct (row r i)"
  using csr_ok_sorted [of r i] by (simp add: strict_sorted_iff)

lemma row_out_of_range: "rows_len r \<le> i \<Longrightarrow> row r i = []"
  by (auto simp: row_def rows_len_def idx_def)

lemma contains_iff [simp]: "contains r e v \<longleftrightarrow> v \<in> set (row r e)"
  by (simp add: contains_def binary_search_def)

lemma binary_search_Some:
  assumes "binary_search xs x = Some i"
  shows "i < length xs" "xs ! i = x"
proof -
  have x: "x \<in> set xs" and i: "i = length (takeWhile (\<lambda>y. y \<noteq> x) xs)"
    using assms by (auto simp: binary_search_def split: if_splits)
  have "dropWhile (\<lambda>y. y \<noteq> x) xs \<noteq> []" using x by auto
  then show "i < length xs"
    by (metis i length_takeWhile_le le_neq_implies_less takeWhile_eq_all_conv takeWhile_dropWhile_id append_Nil2 append_same_eq length_append add_right_cancel length_0_conv add_cancel_right_right)
  then show "xs ! i = x" using nth_length_takeWhile [of "\<lambda>y. y \<noteq> x" xs] by (simp add: i)
qed

lemma csr_foldl:
  "csr (b_offsets b) (b_columns b) rs \<Longrightarrow>
     csr (b_offsets (foldl (\<lambda>b r. push_unsorted r b) b xs)) (b_columns (foldl (\<lambda>b r. push_unsorted r b) b xs))
       (rs @ map (\<lambda>r. remdups_adj (sort r)) xs)"
proof (induction xs arbitrary: b rs)
  case (Cons x xs)
  from Cons.IH [of "push_unsorted x b" "rs @ [remdups_adj (sort x)]"] csr_append [OF Cons.prems]
  show ?case by (simp add: push_unsorted_def)
qed simp

lemma csr_from_sets:
  "csr (offsets (from_sets rows)) (columns (from_sets rows)) (map (\<lambda>r. remdups_adj (sort r)) rows)"
  using csr_foldl [of "with_row_capacity (length rows)" "[]" rows]
  by (simp add: from_sets_def finish_def with_row_capacity_def csr_def)

lemma csr_ok_from_sets: "csr_ok (from_sets rows)"
  unfolding csr_ok_def
  by (intro exI conjI, rule csr_from_sets) (auto intro: sorted_remdups_adj_strict)

section \<open>The dependency edges\<close>

lemma dependency_edge:
  "w \<in> set (nbrs (build_dependency_graph rows match_var n_eq) e) \<longleftrightarrow>
     e < n_eq \<and> w \<noteq> e \<and> (\<exists>v \<in> set (row rows e). slot match_var v = Some w)"
  by (auto simp: nbrs_def build_dependency_graph_def set_map_filter_iff)

lemma dependency_adj_ok:
  assumes "\<And>v w. slot match_var v = Some w \<Longrightarrow> w < n_eq"
  shows "adj_ok n_eq (build_dependency_graph rows match_var n_eq)"
  using assms by (auto simp: adj_ok_def dependency_edge)

section \<open>Properties\<close>

text \<open>C32: Building rows from sets gives a canonical store: as many rows as sets, row \<open>i\<close> the
  ascending duplicate-free run of set \<open>i\<close> whatever order the set was iterated in, the
  empty run out of range, and \<open>contains\<close> exactly membership.\<close>

theorem from_sets_canonical:
  "csr_ok (from_sets rows) \<and> rows_len (from_sets rows) = length rows \<and>
   (\<forall>i. row (from_sets rows) i = (if i < length rows then sorted_list_of_set (set (rows ! i)) else [])) \<and>
   (\<forall>i v. contains (from_sets rows) i v \<longleftrightarrow> i < length rows \<and> v \<in> set (rows ! i))"
  using csr_ok_from_sets csr_row [OF csr_from_sets] csr_len [OF csr_from_sets]
  by (auto simp: canonical_run)

text \<open>C31: A family descriptor is derived only if it predicts the rows exactly: for every
  point and position of the family the affine candidate exists, is the equation at
  \<open>first + point * per_point + position\<close>, and names the one unknown of that row.\<close>

theorem derive_structured_matching_exact:
  assumes "derive_structured_matching owner rows first per_point exts = Some d"
  shows "\<forall>point < point_count d. \<forall>position < per_point. \<exists>v.
    candidate d point position = Some (first + point * per_point + position, v) \<and>
    builder_row rows (first + point * per_point + position) = Some [v]"
proof (intro allI impI)
  fix point position assume p: "point < point_count d" "position < per_point"
  have d: "equations_per_point d = per_point" "first_equation_index d = first"
    using assms by (auto simp: derive_structured_matching_def Let_def res_simps split: if_splits)
  have "\<forall>point \<in> set [0..<point_count d]. \<forall>position \<in> set [0..<per_point].
      (case candidate d point position of None \<Rightarrow> False
       | Some (r, predicted) \<Rightarrow> singleton_builder_row rows r = Some predicted)"
    using assms by (auto simp: derive_structured_matching_def Let_def res_simps split: if_splits)
  then have chk: "case candidate d point position of None \<Rightarrow> False
       | Some (r, predicted) \<Rightarrow> singleton_builder_row rows r = Some predicted"
    using p by simp
  then obtain r v where c: "candidate d point position = Some (r, v)"
    by (cases "candidate d point position") auto
  with chk have s: "singleton_builder_row rows r = Some v" by simp
  have r: "r = first + point * per_point + position"
    using c by (auto simp: candidate_def candidate_with_def res_simps d split: if_splits)
  from s have "builder_row rows r = Some [v]"
    by (auto simp: singleton_builder_row_def res_simps length_Suc_conv split: if_splits)
  with c r show "\<exists>v. candidate d point position = Some (first + point * per_point + position, v) \<and>
      builder_row rows (first + point * per_point + position) = Some [v]" by blast
qed

theorem derive_structured_matching_exact_witness:
  "\<exists>d. derive_structured_matching 0 (push_occurrences [5] (push_occurrences [3] builder_default)) 0 1 [2] = Some d \<and>
     (\<forall>point < point_count d. \<forall>position < 1. \<exists>v. candidate d point position = Some (0 + point * 1 + position, v) \<and>
       builder_row (push_occurrences [5] (push_occurrences [3] builder_default)) (0 + point * 1 + position) = Some [v])"
proof -
  have "derive_structured_matching 0 (push_occurrences [5] (push_occurrences [3] builder_default)) 0 1 [2] =
      Some \<lparr>source_owner_index = 0, first_equation_index = 0, equations_per_point = 1, point_count = 2,
        extents = [2], cell_strides = [1], base_unknowns = [3], unknown_steps = [[2]]\<rparr>"
    by code_simp
  then show ?thesis using derive_structured_matching_exact by blast
qed

text \<open>C33: In the dependency graph of a matching, an equation points to exactly the other
  equations that own one of its unknowns, and all edges stay in range.\<close>

theorem dependency_graph_exact:
  assumes "\<forall>v w. slot match_var v = Some w \<longrightarrow> w < n_eq"
  shows "adj_ok n_eq (build_dependency_graph rows match_var n_eq) \<and>
    (\<forall>e w. (e, w) \<in> edges (build_dependency_graph rows match_var n_eq) \<longleftrightarrow>
      e < n_eq \<and> w \<noteq> e \<and> (\<exists>v \<in> set (row rows e). slot match_var v = Some w))"
  using assms dependency_adj_ok [of match_var n_eq rows] by (simp add: dependency_edge)

theorem dependency_graph_exact_witness:
  "adj_ok 2 (build_dependency_graph (from_sets [[0, 1], [1]]) [Some 0, Some 1] 2)"
proof -
  have "\<forall>v w. slot [Some 0, Some 1] v = Some w \<longrightarrow> w < (2 :: nat)"
    by (auto simp: slot_def less_Suc_eq nth_Cons split: if_splits nat.splits)
  from dependency_graph_exact [OF this] show ?thesis by blast
qed

end
