(* ===== verification/Matching.thy ===== *)
theory Matching
  imports Incidence
begin

text \<open>
  The maximum matching of equations and variables, \<open>matching.rs\<close> of
  \<open>rumoca-phase-structural\<close>: seeding from the affine families, Kuhn's augmenting search
  on an explicit stack with epoch-stamped marks, and the relocation pass that keeps
  causal targets. A vector used as a stack is a list with its last element at the head;
  an out-of-range index is \<open>None\<close>. The reusable stack buffer of \<open>AugmentScratch\<close> is
  cleared at each use and left out.
\<close>

section \<open>Data\<close>

record Matching =
  match_eq :: "nat option list"
  match_var :: "nat option list"

record MatchContext =
  eq_vars :: IncidenceRows
  preferred_vars :: "nat option list"

record RowOrder =
  order_row :: "nat list"
  preferred_position :: "nat option"

definition row_order :: "MatchContext \<Rightarrow> nat \<Rightarrow> RowOrder" where
  "row_order context eq =
     (let r = row (eq_vars context) eq in
      \<lparr>order_row = r,
       preferred_position = Option.bind (slot (preferred_vars context) eq) (binary_search r)\<rparr>)"

definition row_order_get :: "RowOrder \<Rightarrow> nat \<Rightarrow> nat option" where
  "row_order_get order cur =
     (case preferred_position order of
        None \<Rightarrow> idx (order_row order) cur
      | Some position \<Rightarrow>
          (case cur of
             0 \<Rightarrow> idx (order_row order) position
           | Suc remaining \<Rightarrow>
               idx (order_row order) (if remaining < position then remaining else remaining + 1)))"

record AugmentFrame =
  frame_eq :: nat
  frame_cursor :: nat
  chosen :: "nat option"

definition new_frame :: "nat \<Rightarrow> AugmentFrame" where
  "new_frame e = \<lparr>frame_eq = e, frame_cursor = 0, chosen = None\<rparr>"

record AugmentScratch =
  visited_epoch :: "nat list"
  epoch :: nat

definition scratch_new :: "nat \<Rightarrow> AugmentScratch" where
  "scratch_new n_var = \<lparr>visited_epoch = replicate n_var 0, epoch = 0\<rparr>"

definition next_visit_epoch :: "nat \<Rightarrow> nat list \<Rightarrow> nat \<times> nat list" where
  "next_visit_epoch current visited =
     (if int current = 18446744073709551615 then (1, map (\<lambda>_. 0) visited) else (current + 1, visited))"

definition begin_search :: "AugmentScratch \<Rightarrow> AugmentScratch" where
  "begin_search s =
     (let (e, v) = next_visit_epoch (epoch s) (visited_epoch s) in \<lparr>visited_epoch = v, epoch = e\<rparr>)"

section \<open>Seeding from structured families\<close>

record DomainOdometer =
  coordinates :: "nat list"
  odo_extents :: "nat list"

definition odometer_new :: "nat list \<Rightarrow> DomainOdometer" where
  "odometer_new exts = \<lparr>coordinates = replicate (length exts) 0, odo_extents = exts\<rparr>"

text \<open>The descending loop of \<open>advance\<close>; its argument is one past the dimension.\<close>

fun advance_from :: "nat \<Rightarrow> nat list \<Rightarrow> nat list \<Rightarrow> nat list" where
  "advance_from 0 cs es = cs"
| "advance_from (Suc d) cs es =
     (if d < length es then
        (if cs ! d + 1 < es ! d then cs[d := cs ! d + 1] else advance_from d (cs[d := 0]) es)
      else advance_from d cs es)"

definition advance :: "DomainOdometer \<Rightarrow> DomainOdometer" where
  "advance od = od\<lparr>coordinates := advance_from (length (coordinates od)) (coordinates od) (odo_extents od)\<rparr>"

definition odometer_candidate ::
  "DomainOdometer \<Rightarrow> StructuredMatchingFamily \<Rightarrow> nat \<Rightarrow> nat \<Rightarrow> (nat \<times> nat) option" where
  "odometer_candidate od family point equation_position =
     candidate_with (\<lambda>dimension. idx (coordinates od) dimension) family point equation_position"

definition seed_structured_candidate ::
  "IncidenceRows \<Rightarrow> (nat \<times> nat) option \<Rightarrow> Matching \<Rightarrow> bool \<times> Matching" where
  "seed_structured_candidate rows cand m =
     (case cand of
        None \<Rightarrow> (False, m)
      | Some (equation, variable) \<Rightarrow>
          if equation \<ge> length (match_eq m) \<or> variable \<ge> length (match_var m) then (False, m)
          else if match_eq m ! equation \<noteq> None \<or> match_var m ! variable \<noteq> None then (False, m)
          else if \<not> contains rows equation variable then (False, m)
          else (True, m\<lparr>match_eq := (match_eq m)[equation := Some variable],
                        match_var := (match_var m)[variable := Some equation]\<rparr>))"

definition seed_point ::
  "IncidenceRows \<Rightarrow> StructuredMatchingFamily \<Rightarrow> DomainOdometer \<Rightarrow> nat \<Rightarrow> bool \<times> Matching \<Rightarrow> bool \<times> Matching" where
  "seed_point rows family od point acc =
     foldl (\<lambda>(full, m) position.
       (case seed_structured_candidate rows (odometer_candidate od family point position) m of
          (b, m) \<Rightarrow> (full \<and> b, m))) acc [0..<equations_per_point family]"

definition seed_one_family :: "IncidenceRows \<Rightarrow> StructuredMatchingFamily \<Rightarrow> Matching \<Rightarrow> bool \<times> Matching" where
  "seed_one_family rows family m =
     snd (foldl (\<lambda>(od, acc) point. (advance od, seed_point rows family od point acc))
       (odometer_new (extents family), (True, m)) [0..<point_count family])"

definition seed_structured_family_matches ::
  "IncidenceRows \<Rightarrow> StructuredMatchingFamily list \<Rightarrow> Matching \<Rightarrow> (nat \<times> nat) list \<times> Matching" where
  "seed_structured_family_matches rows families m =
     (let (ranges, m) = foldl (\<lambda>(ranges, m) family.
          (case seed_one_family rows family m of
             (full, m) \<Rightarrow>
               (case (full, row_range family) of
                  (True, Some rng) \<Rightarrow> (ranges @ [rng], m)
                | _ \<Rightarrow> (ranges, m)))) ([], m) families
      in (sort_key fst ranges, m))"

section \<open>The order of the search\<close>

fun unseeded_loop :: "nat \<Rightarrow> nat \<Rightarrow> (nat \<times> nat) list \<Rightarrow> nat list" where
  "unseeded_loop n_eq r [] = [r..<n_eq]"
| "unseeded_loop n_eq r ((start, stop) # ranges) =
     (let rows = (if start > r then [r..<min start n_eq] else []); r = max r stop in
      if r \<ge> n_eq then rows else rows @ unseeded_loop n_eq r ranges)"

definition unseeded_rows :: "nat \<Rightarrow> (nat \<times> nat) list \<Rightarrow> nat list" where
  "unseeded_rows n_eq seeded_ranges = unseeded_loop n_eq 0 seeded_ranges"

definition kuhn_equation_order ::
  "nat \<Rightarrow> nat option list \<Rightarrow> nat option list \<Rightarrow> (nat \<times> nat) list \<Rightarrow> nat list" where
  "kuhn_equation_order n_eq meq preferred seeded =
     (let residue = unseeded_rows n_eq seeded in
      filter (\<lambda>e. meq ! e = None \<and> slot preferred e = None) residue @
      filter (\<lambda>e. meq ! e = None \<and> slot preferred e \<noteq> None) residue)"

section \<open>The augmenting search\<close>

datatype AugmentStep = Claim nat | Descend nat nat | Exhausted

lemma row_order_get_bound: "row_order_get order c = Some v \<Longrightarrow> c \<le> length (order_row order)"
  by (auto simp: row_order_get_def split: option.splits nat.splits if_splits)

function augment_scan ::
  "RowOrder \<Rightarrow> nat \<Rightarrow> Matching \<Rightarrow> AugmentScratch \<Rightarrow> (AugmentStep \<times> nat \<times> AugmentScratch) option" where
  "augment_scan order c m s =
     (case row_order_get order c of
        None \<Rightarrow> Some (Exhausted, c, s)
      | Some variable \<Rightarrow>
          (case idx (visited_epoch s) variable of
             None \<Rightarrow> None
           | Some stamp \<Rightarrow>
               if stamp = epoch s then augment_scan order (c + 1) m s
               else do {
                 owner \<leftarrow> idx (match_var m) variable;
                 (let s = s\<lparr>visited_epoch := (visited_epoch s)[variable := epoch s]\<rparr> in
                  case owner of
                    None \<Rightarrow> Some (Claim variable, c + 1, s)
                  | Some e \<Rightarrow> Some (Descend variable e, c + 1, s))
               }))"
  by pat_completeness auto
termination
  by (relation "measure (\<lambda>(order, c, m, s). Suc (length (order_row order)) - c)")
    (auto dest: row_order_get_bound)

declare augment_scan.simps [simp del]

definition next_augment_step ::
  "nat \<Rightarrow> nat \<Rightarrow> Matching \<Rightarrow> MatchContext \<Rightarrow> AugmentScratch \<Rightarrow> (AugmentStep \<times> nat \<times> AugmentScratch) option" where
  "next_augment_step e c m context s = augment_scan (row_order context e) c m s"

definition commit_frame :: "Matching \<Rightarrow> AugmentFrame \<Rightarrow> Matching option" where
  "commit_frame m frame =
     (case chosen frame of
        None \<Rightarrow> Some m
      | Some variable \<Rightarrow> do {
          me \<leftarrow> upd (match_eq m) (frame_eq frame) (Some variable);
          mv \<leftarrow> upd (match_var m) variable (Some (frame_eq frame));
          Some \<lparr>match_eq = me, match_var = mv\<rparr>
        })"

definition commit_augment :: "AugmentFrame list \<Rightarrow> Matching \<Rightarrow> Matching option" where
  "commit_augment frames m = try_fold commit_frame m frames"

definition unmarked :: "AugmentScratch \<Rightarrow> nat" where
  "unmarked s = length (filter (\<lambda>t. t \<noteq> epoch s) (visited_epoch s))"

lemma augment_scan_effect:
  "augment_scan order c m s = Some (step, c', s') \<Longrightarrow>
     unmarked s' \<le> unmarked s \<and> (\<forall>v e. step = Descend v e \<longrightarrow> unmarked s' < unmarked s)"
proof (induction order c m s rule: augment_scan.induct)
  case (1 order c m s)
  note eq = augment_scan.simps [of order c m s]
  show ?case
  proof (cases "row_order_get order c")
    case None
    with 1(2) show ?thesis by (auto simp: eq)
  next
    case (Some v)
    with 1(2) have v: "v < length (visited_epoch s)" by (auto simp: eq split: option.splits)
    show ?thesis
    proof (cases "visited_epoch s ! v = epoch s")
      case True
      with 1(1) [OF Some _ True] 1(2) Some v show ?thesis by (auto simp: eq)
    next
      case False
      have "unmarked (s\<lparr>visited_epoch := (visited_epoch s)[v := epoch s]\<rparr>) < unmarked s"
        using v False by (simp add: unmarked_def length_filter_update_less)
      with 1(2) Some v False show ?thesis
        by (auto simp: eq res_simps Let_def split: option.splits)
    qed
  qed
qed

function run_augment_search ::
  "AugmentFrame list \<Rightarrow> Matching \<Rightarrow> MatchContext \<Rightarrow> AugmentScratch \<Rightarrow> (bool \<times> Matching \<times> AugmentScratch) option" where
  "run_augment_search frames m context s =
     (case frames of
        [] \<Rightarrow> Some (False, m, s)
      | frame # rest \<Rightarrow>
          (case next_augment_step (frame_eq frame) (frame_cursor frame) m context s of
             None \<Rightarrow> None
           | Some (step, c, s') \<Rightarrow>
               (case step of
                  Claim variable \<Rightarrow> do {
                    m \<leftarrow> commit_augment (frame\<lparr>frame_cursor := c, chosen := Some variable\<rparr> # rest) m;
                    Some (True, m, s')
                  }
                | Descend variable e \<Rightarrow>
                    run_augment_search (new_frame e # frame\<lparr>frame_cursor := c, chosen := Some variable\<rparr> # rest)
                      m context s'
                | Exhausted \<Rightarrow> run_augment_search rest m context s')))"
  by pat_completeness auto
termination
proof (relation "measures [\<lambda>(fs, m, ctx, s). unmarked s, \<lambda>(fs, m, ctx, s). length fs]", goal_cases)
  case (2 frames m ctx s frame rest p step q c s' v e)
  then show ?case using augment_scan_effect by (auto simp: next_augment_step_def)
next
  case (3 frames m ctx s frame rest p step q c s')
  then have "unmarked s' \<le> unmarked s" using augment_scan_effect by (auto simp: next_augment_step_def)
  then show ?case using 3 by auto
qed simp

declare run_augment_search.simps [simp del]

definition augment ::
  "nat \<Rightarrow> Matching \<Rightarrow> MatchContext \<Rightarrow> AugmentScratch \<Rightarrow> (bool \<times> Matching \<times> AugmentScratch) option" where
  "augment start m context s = run_augment_search [new_frame start] m context s"

section \<open>Preserving preferences\<close>

record RelocationVisits =
  equations :: "nat list"
  variables :: "nat list"
  visit_epoch :: nat

definition relocation_visits_new :: "nat \<Rightarrow> nat \<Rightarrow> RelocationVisits" where
  "relocation_visits_new n_eq n_var =
     \<lparr>equations = replicate n_eq 0, variables = replicate n_var 0, visit_epoch = 0\<rparr>"

definition begin_relocation :: "RelocationVisits \<Rightarrow> RelocationVisits" where
  "begin_relocation w =
     (if int (visit_epoch w) = 18446744073709551615
      then \<lparr>equations = map (\<lambda>_. 0) (equations w), variables = map (\<lambda>_. 0) (variables w), visit_epoch = 1\<rparr>
      else w\<lparr>visit_epoch := visit_epoch w + 1\<rparr>)"

datatype RelocationStep = RelocationClaim nat | RelocationDescend nat nat | RelocationExhausted

definition assign_match :: "nat \<Rightarrow> nat \<Rightarrow> Matching \<Rightarrow> Matching option" where
  "assign_match equation variable m = do {
     previous \<leftarrow> idx (match_eq m) equation;
     mv \<leftarrow> (case previous of
        None \<Rightarrow> Some (match_var m)
      | Some p \<Rightarrow> do {
          owner \<leftarrow> idx (match_var m) p;
          Some (if owner = Some equation then (match_var m)[p := None] else match_var m)
        });
     mv \<leftarrow> upd mv variable (Some equation);
     Some \<lparr>match_eq = (match_eq m)[equation := Some variable], match_var = mv\<rparr>
   }"

function relocation_scan ::
  "nat \<Rightarrow> bool list \<Rightarrow> nat \<Rightarrow> RowOrder \<Rightarrow> nat \<Rightarrow> Matching \<Rightarrow> RelocationVisits \<Rightarrow>
   (RelocationStep \<times> nat \<times> RelocationVisits) option" where
  "relocation_scan root locked e order c m w =
     (case row_order_get order c of
        None \<Rightarrow> Some (RelocationExhausted, c, w)
      | Some variable \<Rightarrow> do {
          current \<leftarrow> idx (match_eq m) e;
          stamp \<leftarrow> idx (variables w) variable;
          (if current = Some variable \<or> stamp = visit_epoch w
           then relocation_scan root locked e order (c + 1) m w
           else (let w = w\<lparr>variables := (variables w)[variable := visit_epoch w]\<rparr> in do {
             owner \<leftarrow> idx (match_var m) variable;
             (case owner of
                None \<Rightarrow> Some (RelocationClaim variable, c + 1, w)
              | Some own \<Rightarrow>
                  if own = root then Some (RelocationClaim variable, c + 1, w)
                  else do {
                    mark \<leftarrow> idx (equations w) own;
                    lock \<leftarrow> idx locked own;
                    (if mark = visit_epoch w \<or> lock
                     then relocation_scan root locked e order (c + 1) m w
                     else Some (RelocationDescend variable own, c + 1,
                       w\<lparr>equations := (equations w)[own := visit_epoch w]\<rparr>))
                  })
           }))
        })"
  by pat_completeness auto
termination
  by (relation "measure (\<lambda>(root, locked, e, order, c, m, w). Suc (length (order_row order)) - c)")
    (auto dest!: row_order_get_bound)

declare relocation_scan.simps [simp del]

definition next_relocation_step ::
  "nat \<Rightarrow> bool list \<Rightarrow> MatchContext \<Rightarrow> nat \<Rightarrow> nat \<Rightarrow> Matching \<Rightarrow> RelocationVisits \<Rightarrow>
   (RelocationStep \<times> nat \<times> RelocationVisits) option" where
  "next_relocation_step root locked ctx e c m w =
     relocation_scan root locked e (row_order ctx e) c m w"

definition commit_relocation :: "AugmentFrame list \<Rightarrow> Matching \<Rightarrow> Matching option" where
  "commit_relocation frames m =
     try_fold (\<lambda>m frame. (case chosen frame of
        None \<Rightarrow> Some m
      | Some variable \<Rightarrow> assign_match (frame_eq frame) variable m)) m frames"

definition relocation_unmarked :: "RelocationVisits \<Rightarrow> nat" where
  "relocation_unmarked w = length (filter (\<lambda>t. t \<noteq> visit_epoch w) (variables w))"

lemma relocation_mark:
  "v < length (variables w) \<Longrightarrow> variables w ! v \<noteq> visit_epoch w \<Longrightarrow>
     relocation_unmarked (w\<lparr>variables := (variables w)[v := visit_epoch w]\<rparr>) < relocation_unmarked w"
  by (simp add: relocation_unmarked_def length_filter_update_less)

lemma relocation_scan_effect:
  "relocation_scan root locked e order c m w = Some (step, c', w') \<Longrightarrow>
     relocation_unmarked w' \<le> relocation_unmarked w \<and>
     (\<forall>v own. step = RelocationDescend v own \<longrightarrow> relocation_unmarked w' < relocation_unmarked w)"
proof (induction root locked e order c m w rule: relocation_scan.induct)
  case (1 root locked e order c m w)
  note eq = relocation_scan.simps [of root locked e order c m w]
  show ?case
  proof (cases "row_order_get order c")
    case None
    with 1(3) show ?thesis by (auto simp: eq)
  next
    case (Some v)
    with 1(3) have b: "e < length (match_eq m)" "v < length (variables w)"
      by (auto simp: eq res_simps)
    show ?thesis
    proof (cases "match_eq m ! e = Some v \<or> variables w ! v = visit_epoch w")
      case True
      with 1(1) [OF Some, of "match_eq m ! e" "variables w ! v"] 1(3) Some b show ?thesis
        by (auto simp: eq)
    next
      case False
      define w1 where "w1 = w\<lparr>variables := (variables w)[v := visit_epoch w]\<rparr>"
      have less: "relocation_unmarked w1 < relocation_unmarked w"
        using relocation_mark b False by (simp add: w1_def)
      have ih: "relocation_scan root locked e order (c + 1) m w1 = Some (step, c', w') \<Longrightarrow>
          match_var m ! v = Some own \<Longrightarrow> v < length (match_var m) \<Longrightarrow> own \<noteq> root \<Longrightarrow>
          own < length (equations w1) \<Longrightarrow> own < length locked \<Longrightarrow>
          equations w1 ! own = visit_epoch w1 \<or> locked ! own \<Longrightarrow>
          relocation_unmarked w' \<le> relocation_unmarked w1 \<and>
          (\<forall>v own. step = RelocationDescend v own \<longrightarrow> relocation_unmarked w' < relocation_unmarked w1)" for own
        using 1(2) [OF Some, of "match_eq m ! e" "variables w ! v" w1 "Some own" own
            "equations w1 ! own" "locked ! own"] b False
        by (simp add: w1_def)
      have upd: "relocation_unmarked (w1\<lparr>equations := x\<rparr>) = relocation_unmarked w1" for x
        by (simp add: relocation_unmarked_def)
      show ?thesis
        using 1(3) Some b False less ih upd
        by (auto simp: eq Let_def w1_def [symmetric] res_simps split: option.splits if_splits)
    qed
  qed
qed

function relocate_loop ::
  "nat \<Rightarrow> bool list \<Rightarrow> MatchContext \<Rightarrow> AugmentFrame list \<Rightarrow> Matching \<Rightarrow> RelocationVisits \<Rightarrow>
   (bool \<times> Matching \<times> RelocationVisits) option" where
  "relocate_loop root locked ctx frames m w =
     (case frames of
        [] \<Rightarrow> Some (False, m, w)
      | frame # rest \<Rightarrow>
          (case next_relocation_step root locked ctx (frame_eq frame) (frame_cursor frame) m w of
             None \<Rightarrow> None
           | Some (step, c, w') \<Rightarrow>
               (case step of
                  RelocationClaim variable \<Rightarrow> do {
                    m \<leftarrow> commit_relocation (frame\<lparr>frame_cursor := c, chosen := Some variable\<rparr> # rest) m;
                    Some (True, m, w')
                  }
                | RelocationDescend variable own \<Rightarrow>
                    relocate_loop root locked ctx
                      (new_frame own # frame\<lparr>frame_cursor := c, chosen := Some variable\<rparr> # rest) m w'
                | RelocationExhausted \<Rightarrow> relocate_loop root locked ctx rest m w')))"
  by pat_completeness auto
termination
proof (relation "measures [\<lambda>(root, locked, ctx, fs, m, w). relocation_unmarked w,
    \<lambda>(root, locked, ctx, fs, m, w). length fs]", goal_cases)
  case (2 root locked ctx frames m w frame rest p step q c w' v own)
  then show ?case using relocation_scan_effect by (auto simp: next_relocation_step_def)
next
  case (3 root locked ctx frames m w frame rest p step q c w')
  then have "relocation_unmarked w' \<le> relocation_unmarked w"
    using relocation_scan_effect by (auto simp: next_relocation_step_def)
  then show ?case using 3 by auto
qed simp

declare relocate_loop.simps [simp del]

definition relocate ::
  "nat \<Rightarrow> bool list \<Rightarrow> MatchContext \<Rightarrow> nat \<Rightarrow> Matching \<Rightarrow> RelocationVisits \<Rightarrow>
   (bool \<times> Matching \<times> RelocationVisits) option" where
  "relocate root locked ctx start m w = do {
     mark \<leftarrow> idx (equations w) start;
     lock \<leftarrow> idx locked start;
     (if mark = visit_epoch w \<or> lock then Some (False, m, w)
      else relocate_loop root locked ctx [new_frame start] m
        (w\<lparr>equations := (equations w)[start := visit_epoch w]\<rparr>))
   }"

definition try_claim_preferred ::
  "nat \<Rightarrow> nat \<Rightarrow> bool list \<Rightarrow> MatchContext \<Rightarrow> Matching \<Rightarrow> RelocationVisits \<Rightarrow>
   (bool \<times> Matching \<times> RelocationVisits) option" where
  "try_claim_preferred e preferred locked ctx m w = do {
     owner \<leftarrow> idx (match_var m) preferred;
     (case owner of
        None \<Rightarrow> do { m \<leftarrow> assign_match e preferred m; Some (True, m, w) }
      | Some own \<Rightarrow>
          if own = e then Some (False, m, w)
          else (let w = begin_relocation w in do {
            vars \<leftarrow> upd (variables w) preferred (visit_epoch w);
            (relocated, m, w) \<leftarrow> relocate e locked ctx own m (w\<lparr>variables := vars\<rparr>);
            (if \<not> relocated then Some (False, m, w)
             else do { m \<leftarrow> assign_match e preferred m; Some (True, m, w) })
          }))
   }"

definition preference_step ::
  "MatchContext \<Rightarrow> bool list \<times> Matching \<times> RelocationVisits \<Rightarrow> nat \<Rightarrow>
   (bool list \<times> Matching \<times> RelocationVisits) option" where
  "preference_step ctx = (\<lambda>(locked, m, w) e.
     (case slot (preferred_vars ctx) e of
        None \<Rightarrow> Some (locked, m, w)
      | Some preferred \<Rightarrow>
          if \<not> contains (eq_vars ctx) e preferred then Some (locked, m, w)
          else do {
            current \<leftarrow> idx (match_eq m) e;
            (if current = Some preferred then do {
               locked \<leftarrow> upd locked e True;
               Some (locked, m, w)
             } else do {
               (claimed, m, w) \<leftarrow> try_claim_preferred e preferred locked ctx m w;
               (if claimed then do {
                  locked \<leftarrow> upd locked e True;
                  Some (locked, m, w)
                } else Some (locked, m, w))
             })
          }))"

definition maximize_preserved_preferences :: "MatchContext \<Rightarrow> Matching \<Rightarrow> Matching option" where
  "maximize_preserved_preferences ctx m = do {
     (_, m, _) \<leftarrow> try_fold (preference_step ctx)
       (replicate (length (match_eq m)) False, m,
        relocation_visits_new (length (match_eq m)) (length (match_var m))) [0..<length (match_eq m)];
     Some m
   }"

section \<open>The matching\<close>

definition kuhn_step ::
  "MatchContext \<Rightarrow> Matching \<times> AugmentScratch \<Rightarrow> nat \<Rightarrow> (Matching \<times> AugmentScratch) option" where
  "kuhn_step ctx = (\<lambda>(m, s) e. do {
     (_, m, s) \<leftarrow> augment e m ctx (begin_search s);
     Some (m, s)
   })"

definition maximum_matching_with_structured ::
  "nat \<Rightarrow> nat \<Rightarrow> IncidenceRows \<Rightarrow> nat option list \<Rightarrow> StructuredMatchingFamily list \<Rightarrow> Matching option" where
  "maximum_matching_with_structured n_eq n_var rows preferred families =
     (let (seeded, m) = seed_structured_family_matches rows families
            \<lparr>match_eq = replicate n_eq None, match_var = replicate n_var None\<rparr>;
          ctx = \<lparr>eq_vars = rows, preferred_vars = preferred\<rparr>;
          equation_order = kuhn_equation_order n_eq (match_eq m) preferred seeded
      in do {
        (m, _) \<leftarrow> try_fold (kuhn_step ctx) (m, scratch_new n_var) equation_order;
        maximize_preserved_preferences ctx m
      })"

end
