(* ===== verification/Odometer.thy ===== *)
theory Odometer
  imports Matching
begin

text \<open>
  The odometer that seeds structured families agrees with the division formula of the
  family descriptor: both read the mixed-radix digits of the point.
\<close>

section \<open>Mixed-radix digits\<close>

primrec digits :: "nat list \<Rightarrow> nat \<Rightarrow> nat list" where
  "digits [] p = []"
| "digits (e # es) p = (p div prod_list es) mod e # digits es p"

lemma length_digits [simp]: "length (digits es p) = length es"
  by (induction es) auto

lemma digits_snoc: "digits (es @ [e]) p = digits es (p div e) @ [p mod e]"
  by (induction es) (simp_all add: div_mult2_eq [symmetric] mult.commute)

lemma digits_nth: "d < length es \<Longrightarrow> digits es p ! d = (p div prod_list (drop (Suc d) es)) mod es ! d"
  by (induction es arbitrary: d) (auto simp: nth_Cons split: nat.splits)

lemma digits_zero: "digits es 0 = replicate (length es) 0"
  by (induction es) auto

lemma div_Suc_carry: "0 < e \<Longrightarrow> Suc p div e = (if Suc (p mod e) < e then p div e else Suc (p div e))"
  by (simp add: div_Suc mod_Suc)  (metis Suc_lessI mod_less_divisor)

lemma mod_Suc_carry: "0 < e \<Longrightarrow> Suc p mod e = (if Suc (p mod e) < e then Suc (p mod e) else 0)"
  by (metis Suc_lessI mod_Suc mod_less_divisor nat_neq_iff)

lemma advance_digits:
  "0 \<notin> set es \<Longrightarrow> advance_from (length es) (digits es p @ ys) (es @ zs) = digits es (Suc p) @ ys"
proof (induction es arbitrary: p ys zs rule: rev_induct)
  case (snoc e es)
  then have e: "0 < e" "0 \<notin> set es" by auto
  show ?case
  proof (cases "Suc (p mod e) < e")
    case True
    then show ?thesis
      using e by (simp add: digits_snoc nth_append div_Suc_carry mod_Suc_carry list_update_append)
  next
    case False
    have "advance_from (length es) (digits es (p div e) @ 0 # ys) (es @ e # zs) =
        digits es (Suc (p div e)) @ 0 # ys"
      by (rule snoc.IH) (rule e)
    with False e show ?thesis
      by (simp add: digits_snoc nth_append div_Suc_carry mod_Suc_carry list_update_append)
  qed
qed simp

lemma odometer_digits:
  assumes "0 \<notin> set es"
  shows "(advance ^^ p) (odometer_new es) = \<lparr>coordinates = digits es p, odo_extents = es\<rparr>"
proof (induction p)
  case 0
  then show ?case by (simp add: odometer_new_def digits_zero)
next
  case (Suc p)
  have "advance_from (length es) (digits es p) es = digits es (Suc p)"
    using advance_digits [OF assms, of p "[]" "[]"] by simp
  with Suc show ?case by (simp add: advance_def)
qed

lemma row_major_strides_from_nth:
  "row_major_strides_from es = Some strides \<Longrightarrow>
     length strides = length es \<and> (\<forall>d < length es. strides ! d = prod_list (drop (Suc d) es))"
proof (induction es arbitrary: strides rule: row_major_strides_from.induct)
  case (3 e e' es)
  then obtain ss where ss: "row_major_strides_from (e' # es) = Some ss" "strides = hd ss * e' # ss"
    by (auto simp: res_simps)
  note ih = 3(1) [OF ss(1)]
  then have "hd ss = prod_list es" by (cases ss) auto
  with ih ss(2) show ?case by (auto simp: nth_Cons mult.commute split: nat.splits)
qed auto

section \<open>Property\<close>

text \<open>C34: For a family with row-major strides and non-zero extents, the candidate read off
  the odometer after \<open>point\<close> advances is the one the descriptor computes by division,
  at every point and equation position: the division-free seeding changes nothing.\<close>

theorem seed_odometer_agrees:
  assumes strides: "row_major_strides_from (extents family) = Some (cell_strides family)"
    and pos: "0 \<notin> set (extents family)"
  shows "odometer_candidate ((advance ^^ point) (odometer_new (extents family))) family point position =
    candidate family point position"
proof -
  define es where "es = extents family"
  note s = row_major_strides_from_nth [OF strides, folded es_def]
  have coord: "idx (digits es point) d = do {
      stride \<leftarrow> idx (cell_strides family) d;
      extent \<leftarrow> idx es d;
      Some (cell_coordinate point stride extent) }" for d
  proof (cases "d < length es")
    case True
    have "0 \<notin> set (drop (Suc d) es)" using pos [folded es_def] set_drop_subset [of "Suc d" es] by blast
    then have "prod_list (drop (Suc d) es) \<noteq> 0" by (simp add: prod_list_zero_iff)
    moreover have "es ! d \<in> set es" using True by simp
    then have "es ! d \<noteq> 0" using pos [folded es_def] by metis
    ultimately show ?thesis using True s by (simp add: cell_coordinate_def digits_nth)
  next
    case False
    then show ?thesis using s by simp
  qed
  show ?thesis
    unfolding odometer_candidate_def candidate_def es_def [symmetric] odometer_digits [OF pos [folded es_def]]
    by (simp add: coord [symmetric])
qed

theorem seed_odometer_agrees_witness:
  "odometer_candidate ((advance ^^ 4) (odometer_new [2, 3]))
      \<lparr>source_owner_index = 0, first_equation_index = 7, equations_per_point = 1, point_count = 6,
       extents = [2, 3], cell_strides = [3, 1], base_unknowns = [1], unknown_steps = [[3, 1]]\<rparr> 4 0 =
   candidate
      \<lparr>source_owner_index = 0, first_equation_index = 7, equations_per_point = 1, point_count = 6,
       extents = [2, 3], cell_strides = [3, 1], base_unknowns = [1], unknown_steps = [[3, 1]]\<rparr> 4 0"
  using seed_odometer_agrees [of "\<lparr>source_owner_index = 0, first_equation_index = 7, equations_per_point = 1,
      point_count = 6, extents = [2, 3], cell_strides = [3, 1], base_unknowns = [1], unknown_steps = [[3, 1]]\<rparr>" 4 0]
  by (simp add: machine_int chk_usize_def)

end
