(* ===== verification/Tarjan.thy ===== *)
theory Tarjan
  imports Graph
begin

text \<open>
  Tarjan's strongly connected components on an explicit stack, \<open>tarjan.rs\<close> of
  \<open>rumoca-phase-structural\<close>. The vectors \<open>stack\<close> and \<open>frames\<close> are lists with the last
  element of the vector at the head. An out-of-range index and a failed \<open>expect\<close> are
  \<open>None\<close>; the search is a total function, by the lexicographic measure of unvisited
  nodes and frames. The result is shown to exist and to be a component sequence.
\<close>

section \<open>State and operations\<close>

record TarjanFrame =
  node :: nat
  cursor :: nat

record TarjanState =
  index_counter :: nat
  stack :: "nat list"
  frames :: "TarjanFrame list"
  on_stack :: "bool list"
  index :: "nat option list"
  lowlink :: "nat list"
  sccs :: "nat list list"

definition tarjan_new :: "nat \<Rightarrow> TarjanState" where
  "tarjan_new n = \<lparr>index_counter = 0, stack = [], frames = [], on_stack = replicate n False,
     index = replicate n None, lowlink = replicate n 0, sccs = []\<rparr>"

definition enter :: "nat \<Rightarrow> TarjanState \<Rightarrow> TarjanState option" where
  "enter v st = do {
     ix \<leftarrow> upd (index st) v (Some (index_counter st));
     lo \<leftarrow> upd (lowlink st) v (index_counter st);
     os \<leftarrow> upd (on_stack st) v True;
     Some (st\<lparr>index := ix, lowlink := lo, index_counter := index_counter st + 1,
       stack := v # stack st, on_stack := os\<rparr>)
   }"

definition set_cursor :: "nat \<Rightarrow> TarjanState \<Rightarrow> TarjanState" where
  "set_cursor c st =
     (case frames st of [] \<Rightarrow> st | f # fs \<Rightarrow> st\<lparr>frames := f\<lparr>cursor := c\<rparr> # fs\<rparr>)"

function next_child_loop ::
  "nat \<Rightarrow> nat list \<Rightarrow> nat \<Rightarrow> TarjanState \<Rightarrow> (nat option \<times> TarjanState) option" where
  "next_child_loop v neighbors c st =
     (if c < length neighbors then
        (let w = neighbors ! c; c = c + 1 in do {
          iw \<leftarrow> idx (index st) w;
          (if iw = None then Some (Some w, set_cursor c st)
           else do {
             os \<leftarrow> idx (on_stack st) w;
             (if os then do {
                child_index \<leftarrow> iw;
                lv \<leftarrow> idx (lowlink st) v;
                lo \<leftarrow> upd (lowlink st) v (min lv child_index);
                next_child_loop v neighbors c (st\<lparr>lowlink := lo\<rparr>)
              } else next_child_loop v neighbors c st)
           })
        })
      else Some (None, set_cursor c st))"
  by pat_completeness auto
termination
  by (relation "measure (\<lambda>(v, nb, c, st). length nb - c)") auto

declare next_child_loop.simps [simp del]

definition next_child ::
  "TarjanFrame \<Rightarrow> nat list list \<Rightarrow> TarjanState \<Rightarrow> (nat option \<times> TarjanState) option" where
  "next_child frame adj st =
     (case idx adj (node frame) of
        None \<Rightarrow> Some (None, st)
      | Some neighbors \<Rightarrow> next_child_loop (node frame) neighbors (cursor frame) st)"

definition push_frame :: "nat \<Rightarrow> TarjanState \<Rightarrow> TarjanState" where
  "push_frame v st = st\<lparr>frames := \<lparr>node = v, cursor = 0\<rparr> # frames st\<rparr>"

definition descend :: "nat \<Rightarrow> TarjanState \<Rightarrow> TarjanState option" where
  "descend child st = do { st \<leftarrow> enter child st; Some (push_frame child st) }"

fun pop_scc_loop :: "nat \<Rightarrow> nat list \<Rightarrow> bool list \<Rightarrow> nat list \<Rightarrow> (nat list \<times> bool list \<times> nat list) option" where
  "pop_scc_loop root [] os scc = None"
| "pop_scc_loop root (w # stk) os scc = do {
     os \<leftarrow> upd os w False;
     (if w = root then Some (stk, os, scc @ [w]) else pop_scc_loop root stk os (scc @ [w]))
   }"

definition pop_scc :: "nat \<Rightarrow> TarjanState \<Rightarrow> TarjanState option" where
  "pop_scc root st = do {
     (stk, os, scc) \<leftarrow> pop_scc_loop root (stack st) (on_stack st) [];
     Some (st\<lparr>stack := stk, on_stack := os, sccs := sccs st @ [scc]\<rparr>)
   }"

definition finish_node :: "nat \<Rightarrow> TarjanState \<Rightarrow> TarjanState option" where
  "finish_node v st0 = (let st = st0\<lparr>frames := tl (frames st0)\<rparr> in do {
     lv \<leftarrow> idx (lowlink st) v;
     iv \<leftarrow> Option.bind (idx (index st) v) id;
     st \<leftarrow> (if lv = iv then pop_scc v st else Some st);
     (case frames st of
        [] \<Rightarrow> Some st
      | parent # _ \<Rightarrow> do {
          lp \<leftarrow> idx (lowlink st) (node parent);
          lv \<leftarrow> idx (lowlink st) v;
          lo \<leftarrow> upd (lowlink st) (node parent) (min lp lv);
          Some (st\<lparr>lowlink := lo\<rparr>)
        })
   })"

definition search_step :: "nat list list \<Rightarrow> TarjanFrame \<Rightarrow> TarjanState \<Rightarrow> TarjanState option" where
  "search_step adj frame st = do {
     (r, st) \<leftarrow> next_child frame adj st;
     (case r of Some child \<Rightarrow> descend child st | None \<Rightarrow> finish_node (node frame) st)
   }"

text \<open>
  The loop of \<open>strongconnect\<close> ends: a descent visits an unvisited node, every other
  step removes a frame.
\<close>

definition unvisited :: "TarjanState \<Rightarrow> nat" where
  "unvisited st = length (filter (\<lambda>x. x = None) (index st))"

lemma set_cursor_simps [simp]:
  "index (set_cursor c st) = index st" "stack (set_cursor c st) = stack st"
  "on_stack (set_cursor c st) = on_stack st" "lowlink (set_cursor c st) = lowlink st"
  "sccs (set_cursor c st) = sccs st" "index_counter (set_cursor c st) = index_counter st"
  "length (frames (set_cursor c st)) = length (frames st)"
  by (simp_all add: set_cursor_def split: list.splits)

lemma next_child_loop_effect:
  "next_child_loop v nb c st = Some (r, st') \<Longrightarrow>
     index st' = index st \<and> length (frames st') = length (frames st) \<and>
     (\<forall>w. r = Some w \<longrightarrow> w < length (index st) \<and> index st ! w = None)"
proof (induction v nb c st rule: next_child_loop.induct)
  case (1 v nb c st)
  show ?case
  proof (cases "c < length nb")
    case False
    with 1(3) show ?thesis by (auto simp: next_child_loop.simps [of v nb c st])
  next
    case True
    from 1(3) have w: "nb ! c < length (index st)"
      by (auto simp: next_child_loop.simps [of v nb c st] True Let_def res_simps)
    show ?thesis
    proof (cases "index st ! (nb ! c)")
      case None
      with 1(3) w show ?thesis
        by (auto simp: next_child_loop.simps [of v nb c st] True Let_def)
    next
      case (Some k)
      note loop = 1(3) [unfolded next_child_loop.simps [of v nb c st] Let_def]
      have o: "nb ! c < length (on_stack st)" using loop True w Some by (auto simp: res_simps)
      show ?thesis
      proof (cases "on_stack st ! (nb ! c)")
        case True
        have "next_child_loop v nb (c + 1) (st\<lparr>lowlink := (lowlink st)[v := min (lowlink st ! v) k]\<rparr>) =
            Some (r, st')" "v < length (lowlink st)"
          using loop \<open>c < length nb\<close> w Some o True by (auto simp: res_simps)
        with 1(1) [OF \<open>c < length nb\<close>, of "nb ! c" "c + 1" "Some k" True k "lowlink st ! v"] True w Some o
        show ?thesis by auto
      next
        case False
        have "next_child_loop v nb (c + 1) st = Some (r, st')"
          using loop \<open>c < length nb\<close> w Some o False by (auto simp: res_simps)
        with 1(2) [OF \<open>c < length nb\<close>, of "nb ! c" "c + 1" "Some k" False] False w Some o
        show ?thesis by auto
      qed
    qed
  qed
qed

lemma next_child_effect:
  "next_child f adj st = Some (r, st') \<Longrightarrow>
     index st' = index st \<and> length (frames st') = length (frames st) \<and>
     (\<forall>w. r = Some w \<longrightarrow> w < length (index st) \<and> index st ! w = None)"
  by (auto simp: next_child_def split: option.splits dest: next_child_loop_effect)

lemma pop_scc_effect:
  "pop_scc v st = Some st' \<Longrightarrow> index st' = index st \<and> frames st' = frames st"
  by (auto simp: pop_scc_def res_simps)

lemma finish_node_effect:
  assumes "finish_node v st = Some st'"
  shows "index st' = index st \<and> length (frames st') = length (frames st) - 1"
proof -
  define s0 where "s0 = st\<lparr>frames := tl (frames st)\<rparr>"
  obtain lv iv :: nat and s where s: "(if lv = iv then pop_scc v s0 else Some s0) = Some s"
    and rest: "(case frames s of [] \<Rightarrow> Some s | parent # _ \<Rightarrow> do {
          lp \<leftarrow> idx (lowlink s) (node parent);
          lv \<leftarrow> idx (lowlink s) v;
          lo \<leftarrow> upd (lowlink s) (node parent) (min lp lv);
          Some (s\<lparr>lowlink := lo\<rparr>) }) = Some st'"
    using assms unfolding finish_node_def Let_def s0_def [symmetric] bind_Some_iff by blast
  have "index s = index s0 \<and> frames s = frames s0"
    using s pop_scc_effect by (auto split: if_splits)
  moreover have "index st' = index s \<and> frames st' = frames s"
    using rest by (cases "frames s") (auto simp: res_simps)
  ultimately show ?thesis by (simp add: s0_def)
qed

lemma search_step_decreases:
  assumes step: "search_step adj f st = Some st'" and ne: "frames st \<noteq> []"
  shows "(st', st) \<in> measures [unvisited, \<lambda>s. length (frames s)]"
proof -
  from step obtain r s where nc: "next_child f adj st = Some (r, s)"
    and rest: "(case r of Some child \<Rightarrow> descend child s | None \<Rightarrow> finish_node (node f) s) = Some st'"
    by (auto simp: search_step_def res_simps)
  note e = next_child_effect [OF nc]
  show ?thesis
  proof (cases r)
    case None
    with rest e finish_node_effect [of "node f" s st'] ne show ?thesis
      by (cases "frames st") (auto simp: unvisited_def)
  next
    case (Some w)
    with rest have "index st' = (index st)[w := Some (index_counter s)]"
      using e by (auto simp: descend_def enter_def push_frame_def res_simps)
    then have "unvisited st' < unvisited st"
      using e Some unfolding unvisited_def by (auto intro: length_filter_update_less)
    then show ?thesis by simp
  qed
qed

function search_loop :: "nat list list \<Rightarrow> TarjanState \<Rightarrow> TarjanState option" where
  "search_loop adj st =
     (case frames st of
        [] \<Rightarrow> Some st
      | frame # _ \<Rightarrow>
          (case search_step adj frame st of None \<Rightarrow> None | Some st' \<Rightarrow> search_loop adj st'))"
  by pat_completeness auto
termination
proof (relation "inv_image (measures [unvisited, \<lambda>s. length (frames s)]) snd")
  fix adj st frame fs st'
  assume "frames st = frame # fs" "search_step adj frame st = Some st'"
  then have "(st', st) \<in> measures [unvisited, \<lambda>s. length (frames s)]"
    by (intro search_step_decreases) auto
  then show "((adj, st'), adj, st) \<in> inv_image (measures [unvisited, \<lambda>s. length (frames s)]) snd"
    by simp
qed simp

declare search_loop.simps [simp del]

definition strongconnect :: "nat \<Rightarrow> nat list list \<Rightarrow> TarjanState \<Rightarrow> TarjanState option" where
  "strongconnect root adj st = do {
     st \<leftarrow> enter root st;
     search_loop adj (push_frame root st)
   }"

definition tarjan_scc :: "nat \<Rightarrow> nat list list \<Rightarrow> nat list list option" where
  "tarjan_scc n adj = do {
     st \<leftarrow> try_fold (\<lambda>st v. do {
         iv \<leftarrow> idx (index st) v;
         (if iv = None then strongconnect v adj st else Some st)
       }) (tarjan_new n) [0..<n];
     Some (sccs st)
   }"

section \<open>The invariant of the search\<close>

text \<open>
  The invariant is stated on the mathematical content of the state: the partial map
  \<open>I\<close> of indices, the stack \<open>S\<close>, the frames \<open>F\<close> with their cursors, the lowlinks \<open>L\<close> and
  the components \<open>C\<close> emitted so far. \<open>dfn I v\<close> is the index of a visited node.
\<close>

abbreviation dfn :: "(nat \<Rightarrow> nat option) \<Rightarrow> nat \<Rightarrow> nat" where "dfn I v \<equiv> the (I v)"

definition visits :: "nat \<Rightarrow> (nat \<Rightarrow> nat option) \<Rightarrow> nat \<Rightarrow> nat list \<Rightarrow> nat list list \<Rightarrow> bool" where
  "visits n I k S C \<longleftrightarrow> distinct (S @ concat C) \<and> set S \<union> set (concat C) = dom I \<and>
     dom I \<subseteq> {..<n} \<and> (\<forall>v \<in> dom I. dfn I v < k) \<and>
     sorted_wrt (\<lambda>a b. dfn I b < dfn I a) S"

definition scans ::
  "nat list list \<Rightarrow> (nat \<Rightarrow> nat option) \<Rightarrow> nat list \<Rightarrow> (nat \<times> nat) list \<Rightarrow> bool" where
  "scans adj I S F \<longleftrightarrow> sorted_wrt (\<lambda>a b. dfn I b < dfn I a) (map fst F) \<and> fst ` set F \<subseteq> set S \<and>
     (\<forall>(v, c) \<in> set F. \<forall>i < c. i < length (nbrs adj v) \<longrightarrow> nbrs adj v ! i \<in> dom I) \<and>
     (\<forall>v \<in> dom I - fst ` set F. set (nbrs adj v) \<subseteq> dom I)"

definition paths ::
  "nat list list \<Rightarrow> (nat \<Rightarrow> nat option) \<Rightarrow> nat list \<Rightarrow> (nat \<times> nat) list \<Rightarrow> bool" where
  "paths adj I S F \<longleftrightarrow>
     (\<forall>u \<in> set S. \<forall>v \<in> set S. dfn I u \<le> dfn I v \<longrightarrow> reach adj u v) \<and>
     (\<forall>x \<in> set S. \<exists>f \<in> fst ` set F. dfn I f \<le> dfn I x \<and> reach adj x f)"

text \<open>
  A lowlink names a reachable stack node, and the lowlink of a frame is at most the
  index of every scanned edge into the stack that leaves the nodes above that frame
  and below the next.
\<close>

definition above_frame :: "(nat \<Rightarrow> nat option) \<Rightarrow> nat list \<Rightarrow> (nat \<times> nat) list \<Rightarrow> nat \<Rightarrow> nat \<Rightarrow> bool" where
  "above_frame I S F f x \<longleftrightarrow> x \<in> set S \<and> dfn I f \<le> dfn I x \<and>
     (\<forall>g \<in> fst ` set F. dfn I f < dfn I g \<longrightarrow> dfn I x < dfn I g)"

definition lows ::
  "nat list list \<Rightarrow> (nat \<Rightarrow> nat option) \<Rightarrow> nat list \<Rightarrow> (nat \<times> nat) list \<Rightarrow> (nat \<Rightarrow> nat) \<Rightarrow> bool" where
  "lows adj I S F L \<longleftrightarrow>
     (\<forall>v \<in> set S. L v \<le> dfn I v \<and> (\<exists>u \<in> set S. dfn I u = L v \<and> reach adj v u)) \<and>
     (\<forall>f c x i. (f, c) \<in> set F \<longrightarrow> above_frame I S F f x \<longrightarrow> i < length (nbrs adj x) \<longrightarrow>
       (x = f \<longrightarrow> i < c) \<longrightarrow> nbrs adj x ! i \<in> set S \<longrightarrow> L f \<le> dfn I (nbrs adj x ! i))"

definition emitted :: "nat list list \<Rightarrow> nat list list \<Rightarrow> bool" where
  "emitted adj C \<longleftrightarrow> [] \<notin> set C \<and>
     (\<forall>c \<in> set C. \<forall>u \<in> set c. \<forall>v \<in> set c. reach adj u v) \<and>
     (\<forall>i < length C. \<forall>u \<in> set (C ! i). \<forall>w \<in> set (nbrs adj u). \<exists>j \<le> i. w \<in> set (C ! j))"

definition tarjan_inv ::
  "nat \<Rightarrow> nat list list \<Rightarrow> (nat \<Rightarrow> nat option) \<Rightarrow> nat \<Rightarrow> nat list \<Rightarrow> (nat \<times> nat) list \<Rightarrow>
   (nat \<Rightarrow> nat) \<Rightarrow> nat list list \<Rightarrow> bool" where
  "tarjan_inv n adj I k S F L C \<longleftrightarrow>
     visits n I k S C \<and> scans adj I S F \<and> paths adj I S F \<and> lows adj I S F L \<and> emitted adj C"

section \<open>The steps keep the invariant\<close>

lemma lows_sound:
  "lows adj I S F L \<Longrightarrow> v \<in> set S \<Longrightarrow> L v \<le> dfn I v \<and> (\<exists>u \<in> set S. dfn I u = L v \<and> reach adj v u)"
  by (simp add: lows_def)

lemma lows_complete:
  "lows adj I S F L \<Longrightarrow> (f, c) \<in> set F \<Longrightarrow> above_frame I S F f x \<Longrightarrow> i < length (nbrs adj x) \<Longrightarrow>
     (x = f \<Longrightarrow> i < c) \<Longrightarrow> nbrs adj x ! i \<in> set S \<Longrightarrow> L f \<le> dfn I (nbrs adj x ! i)"
  unfolding lows_def by blast

lemma paths_frame:
  "paths adj I S F \<Longrightarrow> x \<in> set S \<Longrightarrow> \<exists>f \<in> fst ` set F. dfn I f \<le> dfn I x \<and> reach adj x f"
  unfolding paths_def by (elim conjE bspec)

lemma visits_num: "visits n I k S C \<Longrightarrow> u \<in> set S \<Longrightarrow> dfn I u < k \<and> u \<in> dom I"
  unfolding visits_def by blast

lemma sorted_num_update:
  "w \<notin> set xs \<Longrightarrow> sorted_wrt (\<lambda>a b. dfn (I(w \<mapsto> k)) b < dfn (I(w \<mapsto> k)) a) xs \<longleftrightarrow>
     sorted_wrt (\<lambda>a b. dfn I b < dfn I a) xs"
  by (induction xs) auto

lemma visits_enter:
  assumes v: "visits n I k S C" and w: "w \<notin> dom I" "w < n"
  shows "visits n (I(w \<mapsto> k)) (k + 1) (w # S) C"
proof -
  have S: "w \<notin> set S" "w \<notin> set (concat C)" using v w unfolding visits_def by auto
  have "sorted_wrt (\<lambda>a b. dfn (I(w \<mapsto> k)) b < dfn (I(w \<mapsto> k)) a) S"
    using v S(1) unfolding visits_def by (subst sorted_num_update) auto
  then show ?thesis
    using v w S visits_num [OF v] unfolding visits_def by (auto simp: less_Suc_eq) 
qed

lemma paths_to_top:
  assumes "paths adj I S F" "scans adj I S F" "F = (v, c) # F'" "u \<in> set S"
  shows "reach adj u v"
proof -
  obtain f where f: "f \<in> fst ` set F" "reach adj u f"
    using assms(1,4) unfolding paths_def by blast
  then have "dfn I f \<le> dfn I v" "f \<in> set S" "v \<in> set S"
    using assms(2,3) unfolding scans_def by auto
  then have "reach adj f v" using assms(1) unfolding paths_def by blast
  with f(2) show ?thesis by simp
qed

lemma inv_enter_child:
  assumes inv: "tarjan_inv n adj I k S ((v, c) # F) L C"
    and c: "c < length (nbrs adj v)" "nbrs adj v ! c = w" and w: "w \<notin> dom I" "w < n"
  shows "tarjan_inv n adj (I(w \<mapsto> k)) (k + 1) (w # S) ((w, 0) # (v, c + 1) # F) (L(w := k)) C"
proof -
  have V: "visits n I k S C" and N: "scans adj I S ((v, c) # F)" and P: "paths adj I S ((v, c) # F)"
    and L: "lows adj I S ((v, c) # F) L" and E: "emitted adj C"
    using inv by (auto simp: tarjan_inv_def)
  have wS: "w \<notin> set S" using V w unfolding visits_def by auto
  have S: "u \<noteq> w \<and> dfn I u < k \<and> u \<in> dom I" if "u \<in> set S" for u
    using visits_num [OF V that] w by auto
  have F: "f \<noteq> w \<and> f \<in> set S \<and> dfn I f < k" if "f \<in> fst ` set ((v, c) # F)" for f
    using N that S unfolding scans_def by blast
  have "v \<in> set S" using F by simp
  have top: "reach adj u w" if "u \<in> set S" for u
    using paths_to_top [OF P N refl that] reach_step [of w adj v] c
    by (metis nth_mem rtrancl_trans)
  have "scans adj (I(w \<mapsto> k)) (w # S) ((w, 0) # (v, c + 1) # F)"
  proof -
    have "sorted_wrt (\<lambda>a b. dfn I b < dfn I a) (map fst ((v, c + 1) # F))"
      using N unfolding scans_def by simp
    moreover have "w \<notin> set (map fst ((v, c + 1) # F))" using F by fastforce
    ultimately have "sorted_wrt (\<lambda>a b. dfn (I(w \<mapsto> k)) b < dfn (I(w \<mapsto> k)) a) (map fst ((v, c + 1) # F))"
      by (subst sorted_num_update) auto
    then have "sorted_wrt (\<lambda>a b. dfn (I(w \<mapsto> k)) b < dfn (I(w \<mapsto> k)) a) (map fst ((w, 0) # (v, c + 1) # F))"
      using F by auto
    then show ?thesis
      using N F c unfolding scans_def by (auto simp: less_Suc_eq)
  qed
  moreover have "paths adj (I(w \<mapsto> k)) (w # S) ((w, 0) # (v, c + 1) # F)"
    using P S F top unfolding paths_def by (auto 0 4) (meson S leD)
  moreover have "lows adj (I(w \<mapsto> k)) (w # S) ((w, 0) # (v, c + 1) # F) (L(w := k))"
    unfolding lows_def
  proof (intro conjI ballI allI impI)
    fix u assume "u \<in> set (w # S)"
    then show "(L(w := k)) u \<le> dfn (I(w \<mapsto> k)) u"
      using lows_sound [OF L, of u] by auto
    show "\<exists>u' \<in> set (w # S). dfn (I(w \<mapsto> k)) u' = (L(w := k)) u \<and> reach adj u u'"
    proof (cases "u = w")
      case False
      with \<open>u \<in> set (w # S)\<close> lows_sound [OF L, of u]
      obtain u' where "u' \<in> set S" "dfn I u' = L u" "reach adj u u'" by auto
      with False S show ?thesis by (intro bexI [of _ u']) auto
    qed simp
  next
    fix f d x i
    assume f: "(f, d) \<in> set ((w, 0) # (v, c + 1) # F)"
      and x: "above_frame (I(w \<mapsto> k)) (w # S) ((w, 0) # (v, c + 1) # F) f x"
      and i: "i < length (nbrs adj x)" "x = f \<longrightarrow> i < d" "nbrs adj x ! i \<in> set (w # S)"
    show "(L(w := k)) f \<le> dfn (I(w \<mapsto> k)) (nbrs adj x ! i)"
    proof (cases "f = w")
      case True
      have "x = w"
      proof (rule ccontr)
        assume "x \<noteq> w"
        with x True S [of x] show False by (auto simp: above_frame_def)
      qed
      moreover have "w \<notin> fst ` set ((v, c) # F)" using F by blast
      then have "d = 0" using f True by (auto simp: image_iff)
      ultimately show ?thesis using i(2) True by simp
    next
      case False
      with f have f': "f \<in> fst ` set ((v, c) # F)" by force
      have fk: "dfn I f < k" using F [OF f'] by blast
      have "x \<noteq> w" using x fk False unfolding above_frame_def by auto
      have x': "above_frame I S ((v, c) # F) f x"
        unfolding above_frame_def
      proof (intro conjI ballI impI)
        show "x \<in> set S" "dfn I f \<le> dfn I x" using x \<open>x \<noteq> w\<close> False unfolding above_frame_def by auto
        fix g assume g: "g \<in> fst ` set ((v, c) # F)" "dfn I f < dfn I g"
        then have "g \<in> fst ` set ((w, 0) # (v, c + 1) # F)" "g \<noteq> w" using F [OF g(1)] by auto
        with g(2) x \<open>x \<noteq> w\<close> False show "dfn I x < dfn I g" unfolding above_frame_def by auto
      qed
      have low: "L f < k" using lows_sound [OF L] F [OF f'] by fastforce
      show ?thesis
      proof (cases "nbrs adj x ! i = w")
        case True
        with low \<open>f \<noteq> w\<close> show ?thesis by simp
      next
        case False
        then have nb: "nbrs adj x ! i \<in> set S" using i(3) by simp
        have "\<exists>d'. (f, d') \<in> set ((v, c) # F) \<and> (x = f \<longrightarrow> i < d')"
          using f i(2) \<open>f \<noteq> w\<close> False c(2)
          by (intro exI [of _ "if (f, d) = (v, c + 1) then c else d"]) (auto simp: less_Suc_eq)
        then obtain d' where "(f, d') \<in> set ((v, c) # F)" "x = f \<Longrightarrow> i < d'" by blast
        with lows_complete [OF L _ x' i(1)] nb have "L f \<le> dfn I (nbrs adj x ! i)" by blast
        then show ?thesis using \<open>f \<noteq> w\<close> False by simp
      qed
    qed
  qed
  ultimately show ?thesis using visits_enter [OF V w] E by (simp add: tarjan_inv_def)
qed

lemma inv_enter_root:
  assumes inv: "tarjan_inv n adj I k S [] L C" and w: "w \<notin> dom I" "w < n"
  shows "tarjan_inv n adj (I(w \<mapsto> k)) (k + 1) (w # S) [(w, 0)] (L(w := k)) C"
proof -
  have S: "S = []" using inv by (auto simp: tarjan_inv_def paths_def)
  show ?thesis
    using inv visits_enter [OF _ w, of k S C] w
    by (auto simp: tarjan_inv_def S scans_def paths_def lows_def)
qed

lemma inv_scan:
  assumes inv: "tarjan_inv n adj I k S ((v, c) # F) L C"
    and c: "c < length (nbrs adj v)" "nbrs adj v ! c = w" and w: "w \<in> dom I"
  shows "tarjan_inv n adj I k S ((v, c + 1) # F) (if w \<in> set S then L(v := min (L v) (dfn I w)) else L) C"
proof -
  have N: "scans adj I S ((v, c) # F)" and P: "paths adj I S ((v, c) # F)"
    and L: "lows adj I S ((v, c) # F) L"
    using inv by (auto simp: tarjan_inv_def)
  have "scans adj I S ((v, c + 1) # F)" using N c w unfolding scans_def by (auto simp: less_Suc_eq)
  moreover have "paths adj I S ((v, c + 1) # F)" using P unfolding paths_def by simp
  moreover have "lows adj I S ((v, c + 1) # F) (if w \<in> set S then L(v := min (L v) (dfn I w)) else L)"
    (is "lows _ _ _ _ ?L")
    unfolding lows_def
  proof (intro conjI ballI allI impI)
    fix u assume u: "u \<in> set S"
    then show "?L u \<le> dfn I u" "\<exists>u' \<in> set S. dfn I u' = ?L u \<and> reach adj u u'"
      using lows_sound [OF L u] reach_step [of w adj v] c nth_mem [OF c(1)]
      by (auto simp: min_def)
  next
    fix f d x i
    assume f: "(f, d) \<in> set ((v, c + 1) # F)" and x: "above_frame I S ((v, c + 1) # F) f x"
      and i: "i < length (nbrs adj x)" "x = f \<longrightarrow> i < d" "nbrs adj x ! i \<in> set S"
    have x': "above_frame I S ((v, c) # F) f x" using x by (simp add: above_frame_def)
    show "?L f \<le> dfn I (nbrs adj x ! i)"
    proof (cases "x = v \<and> f = v \<and> i = c")
      case True
      then show ?thesis using c i(3) by simp
    next
      case False
      have "\<exists>d'. (f, d') \<in> set ((v, c) # F) \<and> (x = f \<longrightarrow> i < d')"
        using f i(2) False by (intro exI [of _ "if (f, d) = (v, c + 1) then c else d"]) auto
      then obtain d' where "(f, d') \<in> set ((v, c) # F)" "x = f \<Longrightarrow> i < d'" by blast
      with lows_complete [OF L _ x' i(1)] i(3) have "L f \<le> dfn I (nbrs adj x ! i)" by blast
      then show ?thesis by auto
    qed
  qed
  ultimately show ?thesis using inv by (simp add: tarjan_inv_def)
qed


lemma emitted_snoc:
  assumes "\<And>x y. x \<in> set (T @ [v]) \<Longrightarrow> y \<in> set (T @ [v]) \<Longrightarrow> reach adj x y"
    and "\<And>x w. x \<in> set (T @ [v]) \<Longrightarrow> w \<in> set (nbrs adj x) \<Longrightarrow> w \<in> set (concat C) \<union> set (T @ [v])"
    and "emitted adj C"
  shows "emitted adj (C @ [T @ [v]])"
  unfolding emitted_def
proof (intro conjI allI impI ballI)
  fix i u w
  assume i: "i < length (C @ [T @ [v]])" "u \<in> set ((C @ [T @ [v]]) ! i)" "w \<in> set (nbrs adj u)"
  show "\<exists>j \<le> i. w \<in> set ((C @ [T @ [v]]) ! j)"
  proof (cases "i < length C")
    case True
    with i(2) have "u \<in> set (C ! i)" by (simp add: nth_append)
    with i(3) True assms(3) obtain j where "j \<le> i" "w \<in> set (C ! j)"
      unfolding emitted_def by blast
    with True show ?thesis by (intro exI [of _ j]) (auto simp: nth_append)
  next
    case False
    with i(1) have "i = length C" by simp
    with i(2) have u: "i = length C" "u \<in> set (T @ [v])" by simp_all
    from assms(2) [OF u(2) i(3)] consider "w \<in> set (concat C)" | "w \<in> set (T @ [v])" by blast
    then show ?thesis
    proof cases
      case 1
      then obtain j where "j < length C" "w \<in> set (C ! j)"
        by (metis UN_E in_set_conv_nth set_concat)
      with u(1) show ?thesis by (intro exI [of _ j]) (simp add: nth_append)
    next
      case 2
      with u(1) show ?thesis by (intro exI [of _ i]) simp
    qed
  qed
qed (use assms in \<open>auto simp: emitted_def\<close>)

lemma sorted_frames:
  assumes "scans adj I S ((v, c) # F)" "f \<in> fst ` set F"
  shows "dfn I f < dfn I v" "f \<noteq> v" "f \<in> set S"
  using assms by (auto simp: scans_def)

lemma above_top:
  assumes "scans adj I S ((v, c) # F)" "x \<in> set S" "dfn I v \<le> dfn I x"
  shows "above_frame I S ((v, c) # F) v x"
proof -
  have "\<not> dfn I v < dfn I g" if "g \<in> fst ` set ((v, c) # F)" for g
    using that sorted_frames(1) [OF assms(1), of g] by (cases "g = v") auto
  with assms(2,3) show ?thesis by (simp add: above_frame_def)
qed

lemma scans_finish:
  assumes "scans adj I S ((v, c) # F)" "length (nbrs adj v) \<le> c"
  shows "scans adj I S F"
proof -
  have "nbrs adj v ! i \<in> dom I" if "i < length (nbrs adj v)" for i
    using assms that unfolding scans_def by auto
  then have "set (nbrs adj v) \<subseteq> dom I" by (metis in_set_conv_nth subsetI)
  then show ?thesis using assms(1) unfolding scans_def by auto
qed

text \<open>A finished node that is not a component root joins the nodes above its parent.\<close>

lemma inv_finish_inner:
  assumes inv: "tarjan_inv n adj I k S ((v, c) # F) L C"
    and c: "length (nbrs adj v) \<le> c" and low: "L v \<noteq> dfn I v"
  shows "\<exists>p d F'. F = (p, d) # F' \<and> tarjan_inv n adj I k S F (L(p := min (L p) (L v))) C"
proof -
  have N: "scans adj I S ((v, c) # F)" and P: "paths adj I S ((v, c) # F)"
    and L: "lows adj I S ((v, c) # F) L"
    using inv by (auto simp: tarjan_inv_def)
  have v: "v \<in> set S" using N by (simp add: scans_def)
  obtain u where u: "u \<in> set S" "dfn I u = L v" "reach adj v u" "dfn I u < dfn I v"
    using lows_sound [OF L v] low by (metis le_neq_implies_less)
  obtain f where "f \<in> fst ` set ((v, c) # F)" and f: "dfn I f \<le> dfn I u" "reach adj u f"
    using paths_frame [OF P u(1)] by blast
  with u(4) have f: "f \<in> fst ` set F" "dfn I f \<le> dfn I u" "reach adj u f" by auto
  then obtain p d F' where F: "F = (p, d) # F'" by (cases F) auto
  have p: "dfn I p < dfn I v" "p \<noteq> v" "p \<in> set S" using sorted_frames [OF N, of p] F by auto
  have "scans adj I S F" using N c by (rule scans_finish)
  moreover have "paths adj I S F"
    unfolding paths_def
  proof (intro conjI ballI)
    show "\<exists>f \<in> fst ` set F. dfn I f \<le> dfn I x \<and> reach adj x f" if x: "x \<in> set S" for x
    proof -
      obtain g where g: "g \<in> fst ` set ((v, c) # F)" "dfn I g \<le> dfn I x" "reach adj x g"
        using paths_frame [OF P x] by blast
      show ?thesis
      proof (cases "g = v")
        case True
        then have "dfn I f \<le> dfn I x" using f(2) u(4) g(2) by simp
        moreover have "reach adj x f"
          using g(3) u(3) f(3) True by (blast intro: rtrancl_trans)
        ultimately have "dfn I f \<le> dfn I x" "reach adj x f" by blast+
        then show ?thesis using f(1) by blast
      next
        case False
        then show ?thesis using g by auto
      qed
    qed
  qed (use P in \<open>auto simp: paths_def\<close>)
  moreover have "lows adj I S F (L(p := min (L p) (L v)))" (is "lows _ _ _ _ ?L")
    unfolding lows_def
  proof (intro conjI ballI allI impI)
    fix x assume x: "x \<in> set S"
    have "reach adj p v" using P p v unfolding paths_def by auto
    then show "?L x \<le> dfn I x" "\<exists>y \<in> set S. dfn I y = ?L x \<and> reach adj x y"
      using lows_sound [OF L x] u by (auto simp: min_def intro: rtrancl_trans)
  next
    fix g e x i
    assume g: "(g, e) \<in> set F" and x: "above_frame I S F g x"
      and i: "i < length (nbrs adj x)" "x = g \<longrightarrow> i < e" "nbrs adj x ! i \<in> set S"
    show "?L g \<le> dfn I (nbrs adj x ! i)"
    proof (cases "dfn I x < dfn I v")
      case True
      then have "above_frame I S ((v, c) # F) g x" using x by (simp add: above_frame_def)
      with lows_complete [OF L _ _ i(1), of g e] g i(2,3) show ?thesis by auto
    next
      case False
      have "g = p"
      proof (rule ccontr)
        assume "g \<noteq> p"
        then have "dfn I g < dfn I p" using g N F by (auto simp: scans_def)
        then have "dfn I x < dfn I p" using x F by (simp add: above_frame_def)
        with False p show False by simp
      qed
      have "above_frame I S ((v, c) # F) v x"
        using above_top [OF N] False x by (simp add: above_frame_def)
      then have "L v \<le> dfn I (nbrs adj x ! i)"
        using c i by (intro lows_complete [OF L, of v c x i]) auto
      with \<open>g = p\<close> show ?thesis by simp
    qed
  qed
  ultimately show ?thesis using inv F by (auto simp: tarjan_inv_def)
qed


text \<open>
  A finished node whose lowlink is its own index is the root of a component: the part
  of the stack above it is strongly connected, and no edge leaves it but into
  components already emitted.
\<close>

lemma inv_finish_root:
  assumes inv: "tarjan_inv n adj I k (T @ v # S) ((v, c) # F) L C"
    and c: "length (nbrs adj v) \<le> c" and low: "L v = dfn I v"
  shows "tarjan_inv n adj I k S F L (C @ [T @ [v]])"
proof -
  have V: "visits n I k (T @ v # S) C" and N: "scans adj I (T @ v # S) ((v, c) # F)"
    and P: "paths adj I (T @ v # S) ((v, c) # F)" and L: "lows adj I (T @ v # S) ((v, c) # F) L"
    and E: "emitted adj C"
    using inv by (auto simp: tarjan_inv_def)
  have lt: "dfn I x < dfn I v" if "x \<in> set S" for x
    using V that unfolding visits_def by (auto simp: sorted_wrt_append)
  have ge: "dfn I v \<le> dfn I x" if "x \<in> set (T @ [v])" for x
    using V that unfolding visits_def by (auto simp: sorted_wrt_append intro: less_imp_le)
  have F: "f \<in> set S" if "f \<in> fst ` set F" for f
    using sorted_frames [OF N that] ge [of f] by auto
  have N': "scans adj I (T @ v # S) F" using N c by (rule scans_finish)
  have "scans adj I S F" using N' F unfolding scans_def by auto
  moreover have "visits n I k S (C @ [T @ [v]])"
    using V unfolding visits_def by (auto simp: sorted_wrt_append)
  moreover have "paths adj I S F"
    unfolding paths_def
  proof (intro conjI ballI)
    fix x assume x: "x \<in> set S"
    then have "x \<in> set (T @ v # S)" by simp
    then obtain f where f: "f \<in> fst ` set ((v, c) # F)" "dfn I f \<le> dfn I x" "reach adj x f"
      using paths_frame [OF P] by blast
    then have "f \<noteq> v" using lt [OF x] by auto
    with f show "\<exists>f \<in> fst ` set F. dfn I f \<le> dfn I x \<and> reach adj x f" by auto
  qed (use P in \<open>auto simp: paths_def\<close>)
  moreover have "lows adj I S F L"
    unfolding lows_def
  proof (intro conjI ballI allI impI)
    fix x assume x: "x \<in> set S"
    then have "x \<in> set (T @ v # S)" by simp
    from lows_sound [OF L this] obtain u where u: "u \<in> set (T @ v # S)" "dfn I u = L x" "reach adj x u"
      and le: "L x \<le> dfn I x" by blast
    show "L x \<le> dfn I x" by (rule le)
    have "u \<in> set S" using u(1,2) le lt [OF x] ge [of u] by auto
    with u show "\<exists>u \<in> set S. dfn I u = L x \<and> reach adj x u" by blast
  next
    fix f d x i
    assume f: "(f, d) \<in> set F" and x: "above_frame I S F f x"
      and i: "i < length (nbrs adj x)" "x = f \<longrightarrow> i < d" "nbrs adj x ! i \<in> set S"
    have "above_frame I (T @ v # S) ((v, c) # F) f x" using x lt by (auto simp: above_frame_def)
    with lows_complete [OF L _ _ i(1), of f d] f i(2,3) show "L f \<le> dfn I (nbrs adj x ! i)" by auto
  qed
  moreover have "emitted adj (C @ [T @ [v]])"
  proof -
    have "reach adj x y" if "x \<in> set (T @ [v])" "y \<in> set (T @ [v])" for x y
    proof -
      have "reach adj x v" using that by (intro paths_to_top [OF P N refl]) auto
      moreover have "reach adj v y" using P ge [OF that(2)] that(2) unfolding paths_def by auto
      ultimately show ?thesis by simp
    qed
    moreover have "w \<in> set (concat C) \<union> set (T @ [v])" if x: "x \<in> set (T @ [v])" "w \<in> set (nbrs adj x)" for x w
    proof -
      have "x \<notin> fst ` set F" using F lt ge [OF x(1)] by (meson leD)
      moreover have "x \<in> dom I" using x(1) visits_num [OF V, of x] by auto
      ultimately have "x \<in> dom I - fst ` set F" by blast
      then have "w \<in> dom I" using N' x(2) unfolding scans_def by blast
      then have w: "w \<in> set (T @ v # S) \<union> set (concat C)" using V unfolding visits_def by blast
      have "w \<notin> set S"
      proof
        assume "w \<in> set S"
        obtain i where i: "i < length (nbrs adj x)" "nbrs adj x ! i = w"
          using x(2) by (auto simp: in_set_conv_nth)
        have "above_frame I (T @ v # S) ((v, c) # F) v x"
          using x(1) ge [OF x(1)] by (intro above_top [OF N]) auto
        then have "L v \<le> dfn I (nbrs adj x ! i)"
          using c i \<open>w \<in> set S\<close> by (intro lows_complete [OF L, of v c x i]) auto
        then have "L v \<le> dfn I w" by (simp add: i(2))
        with lt [OF \<open>w \<in> set S\<close>] low show False by simp
      qed
      with w show ?thesis by auto
    qed
    ultimately show ?thesis using E by (rule emitted_snoc)
  qed
  ultimately show ?thesis by (simp add: tarjan_inv_def)
qed


section \<open>The program keeps the invariant\<close>

abbreviation frame_pairs :: "TarjanState \<Rightarrow> (nat \<times> nat) list" where
  "frame_pairs st \<equiv> map (\<lambda>f. (node f, cursor f)) (frames st)"

definition st_inv :: "nat \<Rightarrow> nat list list \<Rightarrow> TarjanState \<Rightarrow> bool" where
  "st_inv n adj st \<longleftrightarrow> length (index st) = n \<and> length (lowlink st) = n \<and> length (on_stack st) = n \<and>
     (\<forall>v < n. on_stack st ! v \<longleftrightarrow> v \<in> set (stack st)) \<and>
     tarjan_inv n adj (slot (index st)) (index_counter st) (stack st) (frame_pairs st)
       ((!) (lowlink st)) (sccs st)"

lemma slot_update: "i < length xs \<Longrightarrow> slot (xs[i := Some k]) = (slot xs)(i \<mapsto> k)"
  by (auto simp: fun_eq_iff slot_def nth_list_update)

lemma nth_update: "i < length xs \<Longrightarrow> (!) (xs[i := k]) = ((!) xs)(i := k)"
  by (auto simp: fun_eq_iff nth_list_update)

lemma set_cursor_frames: "frames st = f # fs \<Longrightarrow> set_cursor c st = st\<lparr>frames := f\<lparr>cursor := c\<rparr> # fs\<rparr>"
  by (simp add: set_cursor_def)

lemma st_inv_stack: "st_inv n adj st \<Longrightarrow> v \<in> set (stack st) \<Longrightarrow> v < n \<and> v \<in> dom (slot (index st))"
  unfolding st_inv_def tarjan_inv_def visits_def by blast

lemma st_inv_frame:
  assumes "st_inv n adj st" "frames st = f # fs"
  shows "node f \<in> set (stack st)" "node f < n"
proof -
  show "node f \<in> set (stack st)"
    using assms by (auto simp: st_inv_def tarjan_inv_def scans_def)
  with st_inv_stack [OF assms(1)] show "node f < n" by blast
qed

lemma next_child_loop_inv:
  assumes inv: "st_inv n adj (set_cursor c st)" and f: "frames st = f # fs" "node f = v"
    and ok: "adj_ok n adj"
  shows "(\<exists>c' st'. next_child_loop v (nbrs adj v) c st = Some (None, st') \<and> length (nbrs adj v) \<le> c' \<and>
      st_inv n adj st' \<and> frames st' = f\<lparr>cursor := c'\<rparr> # fs \<and> index st' = index st) \<or>
    (\<exists>c' s. next_child_loop v (nbrs adj v) c st = Some (Some (nbrs adj v ! c'), set_cursor (c' + 1) s) \<and>
      c' < length (nbrs adj v) \<and> nbrs adj v ! c' \<notin> dom (slot (index s)) \<and>
      st_inv n adj (set_cursor c' s) \<and> frames s = f # fs \<and> index s = index st)"
  using inv f(1)
proof (induction "length (nbrs adj v) - c" arbitrary: c st)
  case 0
  then have "next_child_loop v (nbrs adj v) c st = Some (None, set_cursor c st)"
    by (simp add: next_child_loop.simps)
  with 0 show ?case by (auto simp: set_cursor_frames)
next
  case (Suc m)
  then have c: "c < length (nbrs adj v)" by simp
  define w where "w = nbrs adj v ! c"
  note inv' = Suc.prems(1)
  have v: "v < n" using st_inv_frame [OF inv'] Suc.prems(2) f(2) by (auto simp: set_cursor_frames)
  have w: "w < n" using ok v c unfolding adj_ok_def w_def by auto
  have len: "length (index st) = n" "length (lowlink st) = n" "length (on_stack st) = n"
    and os: "on_stack st ! w \<longleftrightarrow> w \<in> set (stack st)"
    using inv' w by (auto simp: st_inv_def)
  have ti: "tarjan_inv n adj (slot (index st)) (index_counter st) (stack st)
      ((v, c) # map (\<lambda>f. (node f, cursor f)) fs) ((!) (lowlink st)) (sccs st)"
    using inv' Suc.prems(2) f(2) by (simp add: st_inv_def set_cursor_frames)
  show ?case
  proof (cases "index st ! w")
    case None
    then have "next_child_loop v (nbrs adj v) c st = Some (Some w, set_cursor (c + 1) st)"
      using c w len by (simp add: next_child_loop.simps [of v _ c] w_def [symmetric] Let_def)
    with None c Suc.prems show ?thesis
      by (intro disjI2 exI [of _ c] exI [of _ st]) (auto simp: w_def slot_def split: if_splits)
  next
    case (Some k)
    then have wd: "w \<in> dom (slot (index st))" "the (slot (index st) w) = k"
      using w len by (auto simp: slot_def)
    define s where "s = (if w \<in> set (stack st) then st\<lparr>lowlink := (lowlink st)[v := min (lowlink st ! v) k]\<rparr> else st)"
    have step: "next_child_loop v (nbrs adj v) c st = next_child_loop v (nbrs adj v) (c + 1) s"
      using c w len Some os v
      by (simp add: next_child_loop.simps [of v _ c] w_def [symmetric] Let_def s_def)
    have s: "frames s = f # fs" "index s = index st" using Suc.prems(2) by (auto simp: s_def)
    have "st_inv n adj (set_cursor (c + 1) s)"
      using inv_scan [OF ti c w_def [symmetric] wd(1)] inv' len v Suc.prems(2) f(2)
      by (auto simp: st_inv_def set_cursor_frames s s_def wd(2) nth_update)
    from Suc.hyps(1) [OF _ this s(1)] Suc.hyps(2) show ?thesis unfolding step s(2) by simp
  qed
qed

lemma next_child_inv:
  assumes inv: "st_inv n adj st" and f: "frames st = f # fs" and ok: "adj_ok n adj"
  shows "(\<exists>c' st'. next_child f adj st = Some (None, st') \<and> length (nbrs adj (node f)) \<le> c' \<and>
      st_inv n adj st' \<and> frames st' = f\<lparr>cursor := c'\<rparr> # fs \<and> index st' = index st) \<or>
    (\<exists>c' s. next_child f adj st = Some (Some (nbrs adj (node f) ! c'), set_cursor (c' + 1) s) \<and>
      c' < length (nbrs adj (node f)) \<and> nbrs adj (node f) ! c' \<notin> dom (slot (index s)) \<and>
      st_inv n adj (set_cursor c' s) \<and> frames s = f # fs \<and> index s = index st)"
proof (cases "node f < length adj")
  case True
  have "set_cursor (cursor f) st = st" using f by (simp add: set_cursor_frames)
  with next_child_loop_inv [of n adj "cursor f" st f fs "node f"] inv f ok True show ?thesis
    by (simp add: next_child_def nbrs_def)
next
  case False
  then show ?thesis
    using inv f by (intro disjI1 exI [of _ "cursor f"] exI [of _ st])
      (simp add: next_child_def nbrs_def)
qed

lemma enter_inv:
  assumes len: "length (index st) = n" "length (lowlink st) = n" "length (on_stack st) = n"
    and os: "\<forall>v < n. on_stack st ! v \<longleftrightarrow> v \<in> set (stack st)" and w: "w < n"
    and ti: "tarjan_inv n adj ((slot (index st))(w \<mapsto> index_counter st)) (index_counter st + 1) (w # stack st)
      ((w, 0) # frame_pairs st) (((!) (lowlink st))(w := index_counter st)) (sccs st)"
  shows "\<exists>st'. descend w st = Some st' \<and> st_inv n adj st' \<and>
    dom (slot (index st')) = insert w (dom (slot (index st)))"
  using len w os ti
  by (auto simp: descend_def enter_def push_frame_def st_inv_def slot_update nth_update nth_list_update)

lemma descend_inv:
  assumes inv: "st_inv n adj (set_cursor c s)" and f: "frames s = f # fs" and ok: "adj_ok n adj"
    and c: "c < length (nbrs adj (node f))" and w: "nbrs adj (node f) ! c \<notin> dom (slot (index s))"
  shows "\<exists>st'. descend (nbrs adj (node f) ! c) (set_cursor (c + 1) s) = Some st' \<and> st_inv n adj st' \<and>
    dom (slot (index s)) \<subseteq> dom (slot (index st'))"
proof -
  define w where "w = nbrs adj (node f) ! c"
  have "node f < n" using st_inv_frame(2) [OF inv, of "f\<lparr>cursor := c\<rparr>" fs] f by (simp add: set_cursor_frames)
  then have "w < n" using ok c unfolding adj_ok_def w_def by auto
  have ti: "tarjan_inv n adj (slot (index s)) (index_counter s) (stack s)
      ((node f, c) # map (\<lambda>f. (node f, cursor f)) fs) ((!) (lowlink s)) (sccs s)"
    using inv f by (simp add: st_inv_def set_cursor_frames)
  have "\<exists>st'. descend w (set_cursor (c + 1) s) = Some st' \<and> st_inv n adj st' \<and>
      dom (slot (index st')) = insert w (dom (slot (index (set_cursor (c + 1) s))))"
    using inv_enter_child [OF ti c w_def [symmetric] w [folded w_def] \<open>w < n\<close>] inv f \<open>w < n\<close>
    by (intro enter_inv) (auto simp: st_inv_def set_cursor_frames)
  then show ?thesis by (auto simp: w_def)
qed


lemma pop_scc_loop_eq:
  assumes "v \<notin> set T" "\<forall>w \<in> set (T @ [v]). w < length os"
  shows "\<exists>os'. pop_scc_loop v (T @ v # S) os scc = Some (S, os', scc @ T @ [v]) \<and>
    length os' = length os \<and> (\<forall>x < length os. os' ! x \<longleftrightarrow> os ! x \<and> x \<notin> set (T @ [v]))"
  using assms
proof (induction T arbitrary: os scc)
  case Nil
  then show ?case by (auto simp: nth_list_update)
next
  case (Cons w T)
  have "\<exists>os'. pop_scc_loop v (T @ v # S) (os[w := False]) (scc @ [w]) = Some (S, os', (scc @ [w]) @ T @ [v]) \<and>
      length os' = length (os[w := False]) \<and>
      (\<forall>x < length (os[w := False]). os' ! x \<longleftrightarrow> os[w := False] ! x \<and> x \<notin> set (T @ [v]))"
    using Cons.prems by (intro Cons.IH) auto
  then show ?case using Cons.prems by (auto simp: nth_list_update)
qed

lemma finish_node_eq:
  assumes "frames st = f # fs" "v < length (index st)" "v < length (lowlink st)" "index st ! v = Some iv"
    and "(if lowlink st ! v = iv then pop_scc v (st\<lparr>frames := fs\<rparr>) else Some (st\<lparr>frames := fs\<rparr>)) = Some s"
    and "frames s = fs" "v < length (lowlink s)"
  shows "finish_node v st = (case fs of [] \<Rightarrow> Some s | g # _ \<Rightarrow> do {
      lp \<leftarrow> idx (lowlink s) (node g);
      lo \<leftarrow> upd (lowlink s) (node g) (min lp (lowlink s ! v));
      Some (s\<lparr>lowlink := lo\<rparr>) })"
  unfolding finish_node_def Let_def assms(1) list.sel
  using assms(2-7) by (simp split: list.split)

lemma finish_node_inner:
  assumes inv: "st_inv n adj st" and f: "frames st = f # fs"
    and c: "length (nbrs adj (node f)) \<le> cursor f"
    and low: "lowlink st ! node f \<noteq> the (slot (index st) (node f))"
  shows "\<exists>st'. finish_node (node f) st = Some st' \<and> st_inv n adj st' \<and> index st' = index st"
proof -
  define v where "v = node f"
  note v = st_inv_frame [OF inv f, folded v_def]
  then obtain iv where iv: "index st ! v = Some iv" "iv = the (slot (index st) v)"
    using st_inv_stack [OF inv v(1)] by auto
  have low': "lowlink st ! v \<noteq> iv" using low iv(2) by (simp add: v_def)
  have len: "length (index st) = n" "length (lowlink st) = n" using inv by (auto simp: st_inv_def)
  have ti: "tarjan_inv n adj (slot (index st)) (index_counter st) (stack st)
      ((v, cursor f) # map (\<lambda>f. (node f, cursor f)) fs) ((!) (lowlink st)) (sccs st)"
    using inv f by (simp add: st_inv_def v_def)
  from inv_finish_inner [OF ti c [folded v_def] low [folded v_def]] obtain p d F' where p: "map (\<lambda>f. (node f, cursor f)) fs = (p, d) # F'"
    and ti': "tarjan_inv n adj (slot (index st)) (index_counter st) (stack st)
      (map (\<lambda>f. (node f, cursor f)) fs) (((!) (lowlink st))(p := min (lowlink st ! p) (lowlink st ! v))) (sccs st)"
    by (elim exE conjE)
  then obtain g gs where fs: "fs = g # gs" "node g = p" by (cases fs) auto
  have "p \<in> set (stack st)" using ti' p by (auto simp: tarjan_inv_def scans_def)
  then have pn: "p < n" using st_inv_stack [OF inv] by blast
  have "finish_node v st = Some (st\<lparr>frames := fs, lowlink := (lowlink st)[p := min (lowlink st ! p) (lowlink st ! v)]\<rparr>)"
    using finish_node_eq [OF f, of v iv "st\<lparr>frames := fs\<rparr>"] iv(1) len v(2) low' pn fs by simp
  moreover have "st_inv n adj (st\<lparr>frames := fs, lowlink := (lowlink st)[p := min (lowlink st ! p) (lowlink st ! v)]\<rparr>)"
    using inv ti' pn len by (simp add: st_inv_def nth_update)
  ultimately show ?thesis by (simp add: v_def)
qed

lemma finish_node_root:
  assumes inv: "st_inv n adj st" and f: "frames st = f # fs"
    and c: "length (nbrs adj (node f)) \<le> cursor f"
    and low: "lowlink st ! node f = the (slot (index st) (node f))"
  shows "\<exists>st'. finish_node (node f) st = Some st' \<and> st_inv n adj st' \<and> index st' = index st"
proof -
  define v where "v = node f"
  note v = st_inv_frame [OF inv f, folded v_def]
  then obtain iv where iv: "index st ! v = Some iv" "iv = the (slot (index st) v)"
    using st_inv_stack [OF inv v(1)] by auto
  have len: "length (index st) = n" "length (lowlink st) = n" "length (on_stack st) = n"
    using inv by (auto simp: st_inv_def)
  obtain T S where S: "stack st = T @ v # S" using v(1) by (auto simp: in_set_conv_decomp)
  have ti: "tarjan_inv n adj (slot (index st)) (index_counter st) (T @ v # S)
      ((v, cursor f) # map (\<lambda>f. (node f, cursor f)) fs) ((!) (lowlink st)) (sccs st)"
    using inv f S by (simp add: st_inv_def v_def)
  then have dist: "distinct (T @ v # S)" by (auto simp: tarjan_inv_def visits_def)
  have sn: "\<forall>w \<in> set (T @ [v]). w < length (on_stack st)"
    using st_inv_stack [OF inv] S len by auto
  from inv_finish_root [OF ti] c low
  have ti': "tarjan_inv n adj (slot (index st)) (index_counter st) S
      (map (\<lambda>f. (node f, cursor f)) fs) ((!) (lowlink st)) (sccs st @ [T @ [v]])"
    by (simp add: v_def)
  obtain os where os: "pop_scc_loop v (T @ v # S) (on_stack st) [] = Some (S, os, T @ [v])"
    "length os = n" "\<forall>x < n. os ! x \<longleftrightarrow> on_stack st ! x \<and> x \<notin> set (T @ [v])"
    using pop_scc_loop_eq [of v T "on_stack st" S "[]"] dist sn len by auto
  define s where "s = st\<lparr>frames := fs, stack := S, on_stack := os, sccs := sccs st @ [T @ [v]]\<rparr>"
  have pop: "pop_scc v (st\<lparr>frames := fs\<rparr>) = Some s"
    using os(1) S by (simp add: pop_scc_def s_def)
  have inv': "st_inv n adj s"
    using inv ti' os(2,3) dist S by (auto simp: st_inv_def s_def)
  have "lowlink st ! v = iv" using low iv(2) by (simp add: v_def)
  with pop have fin: "finish_node v st = (case fs of [] \<Rightarrow> Some s | g # _ \<Rightarrow> do {
      lp \<leftarrow> idx (lowlink s) (node g);
      lo \<leftarrow> upd (lowlink s) (node g) (min lp (lowlink s ! v));
      Some (s\<lparr>lowlink := lo\<rparr>) })"
    using len v(2) by (intro finish_node_eq [OF f _ _ iv(1)]) (simp_all add: s_def)
  show ?thesis
  proof (cases fs)
    case Nil
    have "finish_node v st = Some s" using fin Nil by simp
    with inv' show ?thesis by (simp add: v_def s_def)
  next
    case (Cons g gs)
    have g: "node g \<in> set S" "node g < n"
      using st_inv_frame [OF inv', of g gs] Cons by (auto simp: s_def)
    have "dfn (slot (index st)) (node g) < dfn (slot (index st)) v"
      using ti Cons by (auto simp: tarjan_inv_def scans_def)
    moreover have "lowlink st ! node g \<le> dfn (slot (index st)) (node g)"
      using inv' g(1) by (auto simp: st_inv_def tarjan_inv_def lows_def s_def)
    ultimately have "min (lowlink st ! node g) (lowlink st ! v) = lowlink st ! node g"
      using low by (simp add: v_def)
    then have "finish_node v st = Some s" using fin Cons g len by (simp add: s_def)
    with inv' show ?thesis by (simp add: v_def s_def)
  qed
qed

lemma search_step_inv:
  assumes inv: "st_inv n adj st" and f: "frames st = f # fs" and ok: "adj_ok n adj"
  shows "\<exists>st'. search_step adj f st = Some st' \<and> st_inv n adj st' \<and>
    dom (slot (index st)) \<subseteq> dom (slot (index st'))"
  using next_child_inv [OF assms]
proof (elim disjE exE conjE)
  fix c' s
  assume nc: "next_child f adj st = Some (None, s)" and c: "length (nbrs adj (node f)) \<le> c'"
    and s: "st_inv n adj s" "frames s = f\<lparr>cursor := c'\<rparr> # fs" "index s = index st"
  have "\<exists>st'. finish_node (node f) s = Some st' \<and> st_inv n adj st' \<and> index st' = index s"
    using finish_node_inner [OF s(1,2)] finish_node_root [OF s(1,2)] c by auto
  with nc s(3) show ?thesis by (auto simp: search_step_def)
next
  fix c' s
  assume nc: "next_child f adj st = Some (Some (nbrs adj (node f) ! c'), set_cursor (c' + 1) s)"
    and c: "c' < length (nbrs adj (node f))" "nbrs adj (node f) ! c' \<notin> dom (slot (index s))"
    and s: "st_inv n adj (set_cursor c' s)" "frames s = f # fs" "index s = index st"
  from descend_inv [OF s(1,2) ok c] nc s(3) show ?thesis by (auto simp: search_step_def)
qed

lemma search_loop_inv:
  assumes "st_inv n adj st" "adj_ok n adj"
  shows "\<exists>st'. search_loop adj st = Some st' \<and> st_inv n adj st' \<and> frames st' = [] \<and>
    dom (slot (index st)) \<subseteq> dom (slot (index st'))"
  using assms
proof (induction adj st rule: search_loop.induct)
  case (1 adj st)
  show ?case
  proof (cases "frames st")
    case Nil
    with 1(2) show ?thesis by (simp add: search_loop.simps [of adj st])
  next
    case (Cons f fs)
    obtain st' where st': "search_step adj f st = Some st'" "st_inv n adj st'"
      "dom (slot (index st)) \<subseteq> dom (slot (index st'))"
      using search_step_inv [OF 1(2) Cons 1(3)] by blast
    from 1(1) [OF Cons st'(1,2) 1(3)] st' Cons show ?thesis
      by (fastforce simp: search_loop.simps [of adj st])
  qed
qed

lemma strongconnect_inv:
  assumes inv: "st_inv n adj st" and fr: "frames st = []" and ok: "adj_ok n adj"
    and w: "w < n" "index st ! w = None"
  shows "\<exists>st'. strongconnect w adj st = Some st' \<and> st_inv n adj st' \<and> frames st' = [] \<and>
    insert w (dom (slot (index st))) \<subseteq> dom (slot (index st'))"
proof -
  have len: "length (index st) = n" and ti: "tarjan_inv n adj (slot (index st)) (index_counter st) (stack st) []
      ((!) (lowlink st)) (sccs st)"
    using inv fr by (auto simp: st_inv_def)
  have "w \<notin> dom (slot (index st))" using w len by (auto simp: slot_def split: if_splits)
  from inv_enter_root [OF ti this w(1)]
  have "\<exists>s. descend w st = Some s \<and> st_inv n adj s \<and> dom (slot (index s)) = insert w (dom (slot (index st)))"
    using inv fr w(1) by (intro enter_inv) (auto simp: st_inv_def)
  then obtain s where s: "descend w st = Some s" "st_inv n adj s"
    "dom (slot (index s)) = insert w (dom (slot (index st)))" by blast
  have "strongconnect w adj st = search_loop adj s"
    using s(1) by (auto simp: strongconnect_def descend_def res_simps)
  with search_loop_inv [OF s(2) ok] s(3) show ?thesis by auto
qed

lemma st_inv_new: "st_inv n adj (tarjan_new n)"
proof -
  have "slot (replicate n None) = Map.empty" by (auto simp: fun_eq_iff slot_def)
  then show ?thesis
    by (auto simp: st_inv_def tarjan_new_def tarjan_inv_def visits_def scans_def paths_def lows_def emitted_def)
qed

lemma tarjan_loop_inv:
  assumes ok: "adj_ok n adj" and "set vs \<subseteq> {..<n}" "st_inv n adj st" "frames st = []"
  shows "\<exists>st'. try_fold (\<lambda>st v. do {
         iv \<leftarrow> idx (index st) v;
         (if iv = None then strongconnect v adj st else Some st)
       }) st vs = Some st' \<and> st_inv n adj st' \<and> frames st' = [] \<and>
     set vs \<union> dom (slot (index st)) \<subseteq> dom (slot (index st'))"
  using assms(2-4)
proof (induction vs arbitrary: st)
  case Nil
  then show ?case by simp
next
  case (Cons v vs)
  have v: "v < n" "length (index st) = n" using Cons.prems by (auto simp: st_inv_def)
  obtain s where s: "do { iv \<leftarrow> idx (index st) v; (if iv = None then strongconnect v adj st else Some st) } = Some s"
    "st_inv n adj s" "frames s = []" "insert v (dom (slot (index st))) \<subseteq> dom (slot (index s))"
  proof (cases "index st ! v")
    case None
    with strongconnect_inv [OF Cons.prems(2,3) ok v(1)] v that show ?thesis by auto
  next
    case (Some k)
    then have "v \<in> dom (slot (index st))" using v by (auto simp: slot_def)
    with Some that [of st] Cons.prems v show ?thesis by auto
  qed
  have "set vs \<subseteq> {..<n}" using Cons.prems by simp
  from Cons.IH [OF this s(2,3)] obtain t where t: "try_fold (\<lambda>st v. do {
         iv \<leftarrow> idx (index st) v;
         (if iv = None then strongconnect v adj st else Some st)
       }) s vs = Some t" "st_inv n adj t" "frames t = []"
    "set vs \<union> dom (slot (index s)) \<subseteq> dom (slot (index t))" by blast
  have "set (v # vs) \<union> dom (slot (index st)) \<subseteq> dom (slot (index t))"
    using s(4) t(4) by (simp del: domIff) blast
  with t s(1) show ?case by simp
qed

lemma tarjan_scc_correct:
  assumes "adj_ok n adj"
  shows "\<exists>C. tarjan_scc n adj = Some C \<and> scc_sequence n adj C"
proof -
  obtain st where st: "tarjan_scc n adj = Some (sccs st)" "st_inv n adj st" "frames st = []"
    "{..<n} \<subseteq> dom (slot (index st))"
    using tarjan_loop_inv [OF assms _ st_inv_new, of "[0..<n]"]
    by (auto simp: tarjan_scc_def tarjan_new_def atLeast0LessThan)
  have ti: "tarjan_inv n adj (slot (index st)) (index_counter st) (stack st) [] ((!) (lowlink st)) (sccs st)"
    using st(2,3) by (simp add: st_inv_def)
  then have "stack st = []" by (auto simp: tarjan_inv_def paths_def)
  with ti st(4) have "scc_sequence n adj (sccs st)"
    by (auto simp: tarjan_inv_def visits_def emitted_def scc_sequence_def)
  with st(1) show ?thesis by blast
qed

interpretation tj: scc_provider tarjan_scc
  by unfold_locales (rule tarjan_scc_correct)

section \<open>Properties\<close>

text \<open>C5: On every graph whose edges stay in range the search ends without a panic and
  returns the strongly connected components in reverse topological order: the
  components are non-empty and partition the nodes, two nodes share a component
  exactly when they reach each other, and a node reaches only nodes of its own or an
  earlier component.\<close>

theorem tarjan_components:
  assumes "adj_ok n adj"
  shows "\<exists>C. tarjan_scc n adj = Some C \<and> distinct (concat C) \<and> set (concat C) = {..<n} \<and> [] \<notin> set C \<and>
    (\<forall>i < length C. \<forall>j < length C. \<forall>u \<in> set (C ! i). \<forall>v \<in> set (C ! j).
      (i = j \<longleftrightarrow> reach adj u v \<and> reach adj v u) \<and> (reach adj u v \<longrightarrow> j \<le> i))"
proof -
  obtain C where C: "tarjan_scc n adj = Some C" using tj.scc_ok [OF assms] by blast
  show ?thesis
    using C tj.components_partition [OF assms C] tj.same_component [OF assms C] tj.component_order [OF assms C]
    by (intro exI [of _ C]) blast
qed

theorem tarjan_components_witness:
  "\<exists>C. tarjan_scc 3 [[1], [0], [1]] = Some C \<and> set (concat C) = {..<3}"
proof -
  have "adj_ok 3 [[1], [0], [1]]" by (auto simp: adj_ok_def nbrs_def less_Suc_eq numeral_3_eq_3)
  from tarjan_components [OF this] show ?thesis by blast
qed

end
