(* ===== verification/Substitution.thy ===== *)
theory Substitution
  imports Prelude
begin

text \<open>
  The contract of a solve order. A plan is a set of given unknowns and a sequence of
  blocks, each a list of equations and the unknowns it solves for. It is triangular if
  every equation reads only given unknowns and unknowns of its own and earlier blocks
  and no unknown is solved twice; solving the blocks one after the other then
  satisfies every equation. The providers are the causal sequence of a torn loop and
  the sorted blocks of a system.
\<close>

type_synonym block = "nat list \<times> nat list"

definition triangular :: "(nat \<Rightarrow> nat set) \<Rightarrow> nat set \<Rightarrow> block list \<Rightarrow> bool" where
  "triangular reads given_vars bs \<longleftrightarrow>
     distinct (concat (map snd bs)) \<and> set (concat (map snd bs)) \<inter> given_vars = {} \<and>
     (\<forall>k < length bs. \<forall>e \<in> set (fst (bs ! k)).
        reads e \<subseteq> given_vars \<union> set (concat (map snd (take (Suc k) bs))))"

text \<open>
  What solving means: an equation depends on the unknowns it reads only, and the
  solver of a block changes the block's unknowns only and makes its equations hold.
\<close>

definition local_equations :: "(nat \<Rightarrow> nat set) \<Rightarrow> (nat \<Rightarrow> (nat \<Rightarrow> 'a) \<Rightarrow> bool) \<Rightarrow> bool" where
  "local_equations reads holds \<longleftrightarrow>
     (\<forall>e x y. (\<forall>w \<in> reads e. x w = y w) \<longrightarrow> holds e x \<longrightarrow> holds e y)"

definition block_solver ::
  "(nat \<Rightarrow> (nat \<Rightarrow> 'a) \<Rightarrow> bool) \<Rightarrow> (block \<Rightarrow> (nat \<Rightarrow> 'a) \<Rightarrow> (nat \<Rightarrow> 'a)) \<Rightarrow> block \<Rightarrow> bool" where
  "block_solver holds solve b \<longleftrightarrow>
     (\<forall>x. (\<forall>w. w \<notin> set (snd b) \<longrightarrow> solve b x w = x w) \<and> (\<forall>e \<in> set (fst b). holds e (solve b x)))"

definition run_plan :: "(block \<Rightarrow> (nat \<Rightarrow> 'a) \<Rightarrow> (nat \<Rightarrow> 'a)) \<Rightarrow> block list \<Rightarrow> (nat \<Rightarrow> 'a) \<Rightarrow> (nat \<Rightarrow> 'a)" where
  "run_plan solve bs x = foldl (\<lambda>x b. solve b x) x bs"

lemma run_plan_append: "run_plan solve (bs @ [b]) x = solve b (run_plan solve bs x)"
  by (simp add: run_plan_def)

lemma triangular_butlast: "triangular reads given_vars (bs @ [b]) \<Longrightarrow> triangular reads given_vars bs"
  unfolding triangular_def by (auto simp: nth_append split: if_splits)

lemma run_plan_outside:
  assumes "\<forall>b \<in> set bs. block_solver holds solve b" and "w \<notin> set (concat (map snd bs))"
  shows "run_plan solve bs x w = x w"
  using assms by (induction bs rule: rev_induct) (auto simp: run_plan_append run_plan_def block_solver_def)

lemma triangular_reads:
  assumes "triangular reads given_vars bs" "b \<in> set bs" "e \<in> set (fst b)"
  shows "reads e \<subseteq> given_vars \<union> set (concat (map snd bs))"
proof -
  obtain k where k: "k < length bs" "b = bs ! k" using assms(2) by (metis in_set_conv_nth)
  then have "reads e \<subseteq> given_vars \<union> set (concat (map snd (take (Suc k) bs)))"
    using assms(1,3) by (simp add: triangular_def)
  moreover have "set (concat (map snd (take (Suc k) bs))) \<subseteq> set (concat (map snd bs))"
    using set_take_subset [of "Suc k" bs] by fastforce
  ultimately show ?thesis by blast
qed

lemma triangular_solved:
  assumes "triangular reads given_vars bs" and "local_equations reads holds"
    and "\<forall>b \<in> set bs. block_solver holds solve b" and "b \<in> set bs" "e \<in> set (fst b)"
  shows "holds e (run_plan solve bs x)"
  using assms(1,3,4)
proof (induction bs rule: rev_induct)
  case (snoc c bs)
  show ?case
  proof (cases "b \<in> set bs")
    case True
    note t = triangular_butlast [OF snoc.prems(1)]
    have h: "holds e (run_plan solve bs x)" using snoc.IH [OF t] snoc.prems(2) True by simp
    have "reads e \<inter> set (snd c) = {}"
      using triangular_reads [OF t True assms(5)] snoc.prems(1) by (fastforce simp: triangular_def)
    then have "run_plan solve bs x w = run_plan solve (bs @ [c]) x w" if "w \<in> reads e" for w
    proof -
      have "block_solver holds solve c" using snoc.prems(2) by simp
      moreover have "w \<notin> set (snd c)" using that \<open>reads e \<inter> set (snd c) = {}\<close> by blast
      ultimately show ?thesis unfolding run_plan_append block_solver_def by metis
    qed
    with assms(2) h show ?thesis unfolding local_equations_def by blast
  next
    case False
    with snoc.prems have "b = c" "block_solver holds solve c" by auto
    then show ?thesis using assms(5) by (simp add: run_plan_append block_solver_def)
  qed
qed simp

text \<open>
  The interface: a planner whose every answer is triangular for the input it was
  computed from.
\<close>

locale solve_planner =
  fixes planner :: "'i \<Rightarrow> (nat set \<times> block list) option"
    and reads :: "'i \<Rightarrow> nat \<Rightarrow> nat set"
  assumes planner_triangular: "planner i = Some (given_vars, bs) \<Longrightarrow> triangular (reads i) given_vars bs"
begin

lemma substitution:
  assumes "planner i = Some (given_vars, bs)" and "local_equations (reads i) holds"
    and "\<forall>b \<in> set bs. block_solver holds solve b"
  shows "(\<forall>b \<in> set bs. \<forall>e \<in> set (fst b). holds e (run_plan solve bs x)) \<and>
    (\<forall>w \<in> given_vars. run_plan solve bs x w = x w)"
proof -
  note t = planner_triangular [OF assms(1)]
  have "set (concat (map snd bs)) \<inter> given_vars = {}" using t by (simp add: triangular_def)
  then have "run_plan solve bs x w = x w" if "w \<in> given_vars" for w
    using run_plan_outside [OF assms(3), of w x] that by blast
  then show ?thesis using triangular_solved [OF t assms(2,3)] by blast
qed

end

end
