(* ===== verification/Tearing.thy ===== *)
theory Tearing
  imports Substitution "HOL-Library.Product_Lexorder"
begin

text \<open>
  The greedy tearing of an algebraic loop (\<open>tearing.rs\<close>): causal resolution, the one-pass
  unlock counts, the two priorities and the choice between their plans. A hash set of
  local indices is the list of its elements in iteration order, a \<open>BTreeSet\<close> its ascending
  list, a \<open>BTreeMap\<close> the list of its entries by ascending key. \<open>None\<close> is a panic (an index
  out of range or an \<open>unwrap\<close> of nothing); the theorems show there is none.
\<close>

section \<open>Ordered maps\<close>

text \<open>\<open>entry(k)\<close> followed by an update of the value in place.\<close>

fun entry_update :: "nat \<Rightarrow> ('a option \<Rightarrow> 'a) \<Rightarrow> (nat \<times> 'a) list \<Rightarrow> (nat \<times> 'a) list" where
  "entry_update k f [] = [(k, f None)]"
| "entry_update k f ((k', x) # m) =
     (if k < k' then (k, f None) # (k', x) # m
      else if k = k' then (k, f (Some x)) # m
      else (k', x) # entry_update k f m)"

definition or_default :: "'a \<Rightarrow> 'a option \<Rightarrow> 'a" where
  "or_default d r = (case r of None \<Rightarrow> d | Some x \<Rightarrow> x)"

text \<open>\<open>Iterator::max_by_key\<close>: the last of the maximal elements.\<close>

fun max_by_key :: "('a \<Rightarrow> 'k :: linorder) \<Rightarrow> 'a list \<Rightarrow> 'a option" where
  "max_by_key key [] = None"
| "max_by_key key (x # xs) =
     Some (foldl (\<lambda>best y. if key best \<le> key y then y else best) x xs)"

text \<open>\<open>std::cmp::Reverse\<close>.\<close>

datatype reverse = Reverse nat

instantiation reverse :: linorder
begin

fun less_eq_reverse :: "reverse \<Rightarrow> reverse \<Rightarrow> bool" where
  "Reverse a \<le> Reverse b \<longleftrightarrow> b \<le> a"

definition less_reverse :: "reverse \<Rightarrow> reverse \<Rightarrow> bool" where
  "less_reverse a b \<longleftrightarrow> a \<le> b \<and> \<not> b \<le> (a :: reverse)"

instance
proof
  fix a b c :: reverse
  show "a < b \<longleftrightarrow> a \<le> b \<and> \<not> b \<le> a" by (simp add: less_reverse_def)
  show "a \<le> a" by (cases a) simp
  show "a \<le> b \<Longrightarrow> b \<le> c \<Longrightarrow> a \<le> c" by (cases a; cases b; cases c) simp
  show "a \<le> b \<Longrightarrow> b \<le> a \<Longrightarrow> a = b" by (cases a; cases b) simp
  show "a \<le> b \<or> b \<le> a" by (cases a; cases b) auto
qed

end

section \<open>Causal resolution\<close>

record TearingResult =
  tear_var_local_indices :: "nat list"
  residual_eq_local_indices :: "nat list"
  causal_sequence :: "(nat \<times> nat) list"

record TearState =
  remaining_eqs :: "nat list"
  remaining_unknowns :: "nat list"
  causal_steps :: "(nat \<times> nat) list"

definition live :: "nat list \<Rightarrow> nat list \<Rightarrow> nat list" where
  "live unknowns remaining = filter (\<lambda>v. v \<in> set remaining) unknowns"

definition unique_live_causal_candidate ::
  "nat \<Rightarrow> nat list \<Rightarrow> nat list list \<Rightarrow> nat list list \<Rightarrow> nat option option" where
  "unique_live_causal_candidate equation remaining equation_unknowns causal_candidates = do {
     unknowns \<leftarrow> idx equation_unknowns equation;
     (case live unknowns remaining of
        [] \<Rightarrow> Some None
      | variable # rest \<Rightarrow>
          if rest = [] then do {
            candidates \<leftarrow> idx causal_candidates equation;
            Some (if variable \<in> set candidates then Some variable else None)
          } else Some None)
   }"

text \<open>The map from each solvable variable to the equations that solve it.\<close>

definition collect_equation ::
  "nat list \<Rightarrow> nat list list \<Rightarrow> nat list list \<Rightarrow> (nat \<times> (nat \<times> nat) list) list \<Rightarrow> nat \<Rightarrow>
   (nat \<times> (nat \<times> nat) list) list option" where
  "collect_equation remaining eq_unknowns causal_candidates m eq = do {
     found \<leftarrow> unique_live_causal_candidate eq remaining eq_unknowns causal_candidates;
     (case found of
        None \<Rightarrow> Some m
      | Some var \<Rightarrow> do {
          unknowns \<leftarrow> idx eq_unknowns eq;
          Some (entry_update var (\<lambda>r. or_default [] r @ [(eq, length unknowns)]) m)
        })
   }"

definition var_to_eqs ::
  "nat list \<Rightarrow> nat list \<Rightarrow> nat list list \<Rightarrow> nat list list \<Rightarrow> (nat \<times> (nat \<times> nat) list) list option" where
  "var_to_eqs eqs remaining eq_unknowns causal_candidates =
     try_fold (collect_equation remaining eq_unknowns causal_candidates) [] eqs"

text \<open>One solved variable: the equation with the fewest unknowns, then the lowest index.\<close>

definition solve_variable ::
  "TearState \<times> bool \<Rightarrow> nat \<times> (nat \<times> nat) list \<Rightarrow> (TearState \<times> bool) option" where
  "solve_variable = (\<lambda>(st, changed) (var, candidates).
     (if var \<notin> set (remaining_unknowns st) then Some (st, changed)
      else do {
        (best_eq, total) \<leftarrow> idx (sort_key (\<lambda>(eq, total). (total, eq)) candidates) 0;
        Some (\<lparr>remaining_eqs = removeAll best_eq (remaining_eqs st),
               remaining_unknowns = removeAll var (remaining_unknowns st),
               causal_steps = causal_steps st @ [(best_eq, var)]\<rparr>, True)
      }))"

definition resolve_pass ::
  "nat list list \<Rightarrow> nat list list \<Rightarrow> TearState \<Rightarrow> (TearState \<times> bool) option" where
  "resolve_pass eq_unknowns causal_candidates st = do {
     m \<leftarrow> var_to_eqs (remaining_eqs st) (remaining_unknowns st) eq_unknowns causal_candidates;
     try_fold solve_variable (st, False) m
   }"

lemma solve_variable_shrinks:
  assumes "solve_variable (st, changed) entry = Some (st', changed')"
  shows "length (remaining_unknowns st') \<le> length (remaining_unknowns st)"
    "changed' \<Longrightarrow> \<not> changed \<Longrightarrow> length (remaining_unknowns st') < length (remaining_unknowns st)"
proof -
  obtain var candidates where e: "entry = (var, candidates)" by (cases entry)
  have d: "(st', changed') = (st, changed) \<or> var \<in> set (remaining_unknowns st) \<and>
      remaining_unknowns st' = removeAll var (remaining_unknowns st)"
    using assms by (auto simp: solve_variable_def e res_simps split: if_splits prod.splits)
  have lt: "length (removeAll var (remaining_unknowns st)) < length (remaining_unknowns st)"
    if "var \<in> set (remaining_unknowns st)"
    using that by (metis length_removeAll_less)
  show "length (remaining_unknowns st') \<le> length (remaining_unknowns st)"
    using d lt by fastforce
  show "length (remaining_unknowns st') < length (remaining_unknowns st)" if "changed'" "\<not> changed"
    using d lt that by auto
qed

lemma solve_fold_shrinks:
  "try_fold solve_variable (st, changed) m = Some (st', changed') \<Longrightarrow>
     length (remaining_unknowns st') \<le> length (remaining_unknowns st) \<and>
     (changed' \<longrightarrow> \<not> changed \<longrightarrow> length (remaining_unknowns st') < length (remaining_unknowns st))"
proof (induction m arbitrary: st changed)
  case (Cons entry m)
  then obtain st1 c1 where s: "solve_variable (st, changed) entry = Some (st1, c1)"
    and r: "try_fold solve_variable (st1, c1) m = Some (st', changed')"
    by (auto split: option.splits)
  from Cons.IH [OF r] solve_variable_shrinks [OF s] show ?case by fastforce
qed auto

lemma resolve_pass_shrinks:
  assumes "resolve_pass eq_unknowns causal_candidates st = Some (st', changed)"
  shows "length (remaining_unknowns st') \<le> length (remaining_unknowns st)"
    "changed \<Longrightarrow> length (remaining_unknowns st') < length (remaining_unknowns st)"
  using assms solve_fold_shrinks [of st False] by (auto simp: resolve_pass_def res_simps)

text \<open>\<open>while changed\<close>: another pass after every pass that solved something.\<close>

function resolve_causal_equations ::
  "nat list list \<Rightarrow> nat list list \<Rightarrow> TearState \<Rightarrow> TearState option" where
  "resolve_causal_equations eq_unknowns causal_candidates st =
     (case resolve_pass eq_unknowns causal_candidates st of
        None \<Rightarrow> None
      | Some (st', changed) \<Rightarrow>
          if changed then resolve_causal_equations eq_unknowns causal_candidates st' else Some st')"
  by pat_completeness auto
termination
  by (relation "measure (\<lambda>(_, _, st). length (remaining_unknowns st))")
    (auto dest: resolve_pass_shrinks(2))

declare resolve_causal_equations.simps [simp del]

section \<open>Choosing a tear variable\<close>

text \<open>\<open>unlock_counts\<close> is \<open>UnlockCounts::count\<close>; a hash map of counters is a partial map.\<close>

definition count_row :: "nat list \<Rightarrow> (nat \<times> nat) list \<Rightarrow> nat list \<Rightarrow> (nat \<times> nat) list" where
  "count_row remaining =
     foldl (\<lambda>m v. if v \<in> set remaining then entry_update v (\<lambda>r. or_default 0 r + 1) m else m)"

definition count_var_appearances ::
  "nat list \<Rightarrow> nat list list \<Rightarrow> nat list \<Rightarrow> (nat \<times> nat) list option" where
  "count_var_appearances eqs eq_unknowns remaining =
     try_fold (\<lambda>var_count eq. do {
       unknowns \<leftarrow> idx eq_unknowns eq;
       Some (count_row remaining var_count unknowns)
     }) [] eqs"

record UnlockCounts =
  lone :: nat
  lone_on :: "nat \<rightharpoonup> nat"
  paired :: "nat \<rightharpoonup> nat"

definition bump :: "nat \<Rightarrow> (nat \<rightharpoonup> nat) \<Rightarrow> (nat \<rightharpoonup> nat)" where
  "bump k m = m(k \<mapsto> or_default 0 (m k) + 1)"

definition count_pair :: "nat list \<Rightarrow> nat \<Rightarrow> nat \<Rightarrow> UnlockCounts \<Rightarrow> UnlockCounts" where
  "count_pair candidates first second u =
     (let u = (if second \<in> set candidates then u\<lparr>paired := bump first (paired u)\<rparr> else u) in
      if first \<in> set candidates then u\<lparr>paired := bump second (paired u)\<rparr> else u)"

definition count_equation :: "nat list \<Rightarrow> nat list list \<Rightarrow> nat list list \<Rightarrow> UnlockCounts \<Rightarrow> nat \<Rightarrow> UnlockCounts option" where
  "count_equation remaining eq_unknowns causal_candidates u eq = do {
     unknowns \<leftarrow> idx eq_unknowns eq;
     (case live unknowns remaining of
        [] \<Rightarrow> Some u
      | first # rest \<Rightarrow> do {
          candidates \<leftarrow> idx causal_candidates eq;
          Some (case rest of
             [] \<Rightarrow> if first \<in> set candidates then u\<lparr>lone := lone u + 1, lone_on := bump first (lone_on u)\<rparr> else u
           | [second] \<Rightarrow> count_pair candidates first second u
           | _ \<Rightarrow> u)
        })
   }"

definition unlock_counts :: "nat list \<Rightarrow> nat list \<Rightarrow> nat list list \<Rightarrow> nat list list \<Rightarrow> UnlockCounts option" where
  "unlock_counts eqs remaining eq_unknowns causal_candidates =
     try_fold (count_equation remaining eq_unknowns causal_candidates)
       \<lparr>lone = 0, lone_on = Map.empty, paired = Map.empty\<rparr> eqs"

definition for_tear :: "UnlockCounts \<Rightarrow> nat \<Rightarrow> nat" where
  "for_tear u tear_var =
     lone u - or_default 0 (lone_on u tear_var) + or_default 0 (paired u tear_var)"

datatype TearPriority = CausalUnlocks | VariableDegree

fun score :: "TearPriority \<Rightarrow> nat \<Rightarrow> nat \<Rightarrow> nat \<Rightarrow> nat \<times> nat \<times> reverse" where
  "score CausalUnlocks unlocked degree variable = (unlocked, degree, Reverse variable)"
| "score VariableDegree unlocked degree variable = (degree, unlocked, Reverse variable)"

section \<open>The tearing loop\<close>

lemma entry_update_keys: "fst ` set (entry_update k f m) = insert k (fst ` set m)"
  by (induction k f m rule: entry_update.induct) (auto simp: image_iff)

lemma max_by_key_mem: "max_by_key key xs = Some x \<Longrightarrow> x \<in> set xs"
proof (cases xs)
  case (Cons y ys)
  have "foldl (\<lambda>best y. if key best \<le> key y then y else best) y ys \<in> set (y # ys)"
    by (induction ys arbitrary: y) auto
  moreover assume "max_by_key key xs = Some x"
  ultimately show ?thesis using Cons by auto
qed simp

lemma count_row_keys:
  "fst ` set m \<subseteq> set remaining \<Longrightarrow> fst ` set (count_row remaining m vs) \<subseteq> set remaining"
  unfolding count_row_def by (induction vs arbitrary: m) (auto simp: entry_update_keys)

lemma count_var_appearances_keys:
  assumes "count_var_appearances eqs eq_unknowns remaining = Some m"
  shows "fst ` set m \<subseteq> set remaining"
  using assms unfolding count_var_appearances_def
  by (rule try_fold_invariant) (auto simp: res_simps dest: subsetD [OF count_row_keys])

text \<open>
  One turn of the loop: \<open>Inr\<close> the state to go on with after tearing a variable, \<open>Inl\<close> the
  state the loop is left with.
\<close>

definition tear_turn ::
  "nat list list \<Rightarrow> nat list list \<Rightarrow> TearPriority \<Rightarrow> TearState \<Rightarrow> (TearState + TearState \<times> nat) option" where
  "tear_turn eq_unknowns causal_candidates priority st = do {
     st \<leftarrow> resolve_causal_equations eq_unknowns causal_candidates st;
     (if remaining_eqs st = [] then Some (Inl st)
      else do {
        var_count \<leftarrow> count_var_appearances (remaining_eqs st) eq_unknowns (remaining_unknowns st);
        unlocks \<leftarrow> unlock_counts (remaining_eqs st) (remaining_unknowns st) eq_unknowns causal_candidates;
        (if var_count = [] then Some (Inl st)
         else do {
           (tear_var, _) \<leftarrow> max_by_key (\<lambda>(v, count). score priority (for_tear unlocks v) count v) var_count;
           Some (Inr (st\<lparr>remaining_unknowns := removeAll tear_var (remaining_unknowns st)\<rparr>, tear_var))
         })
      })
   }"

lemma resolve_causal_equations_shrinks:
  "resolve_causal_equations eq_unknowns causal_candidates st = Some st' \<Longrightarrow>
     length (remaining_unknowns st') \<le> length (remaining_unknowns st)"
proof (induction eq_unknowns causal_candidates st rule: resolve_causal_equations.induct)
  case (1 eq_unknowns causal_candidates st)
  from "1.prems" obtain st1 changed where
    p: "resolve_pass eq_unknowns causal_candidates st = Some (st1, changed)"
    by (subst (asm) resolve_causal_equations.simps) (auto split: option.splits)
  show ?case
  proof (cases changed)
    case True
    then have "resolve_causal_equations eq_unknowns causal_candidates st1 = Some st'"
      using "1.prems" p by (subst (asm) resolve_causal_equations.simps) simp
    from "1.IH" [OF p refl True this] resolve_pass_shrinks(1) [OF p] show ?thesis by simp
  next
    case False
    then have "st' = st1" using "1.prems" p by (subst (asm) resolve_causal_equations.simps) simp
    then show ?thesis using resolve_pass_shrinks(1) [OF p] by simp
  qed
qed

lemma tear_turn_shrinks:
  assumes "tear_turn eq_unknowns causal_candidates priority st = Some (Inr (st', v))"
  shows "length (remaining_unknowns st') < length (remaining_unknowns st)"
proof -
  obtain st1 m u c where r: "resolve_causal_equations eq_unknowns causal_candidates st = Some st1"
    and m: "count_var_appearances (remaining_eqs st1) eq_unknowns (remaining_unknowns st1) = Some m"
    and v: "max_by_key (\<lambda>(v, count). score priority (for_tear u v) count v) m = Some (v, c)"
    and st': "st' = st1\<lparr>remaining_unknowns := removeAll v (remaining_unknowns st1)\<rparr>"
    using assms by (auto simp: tear_turn_def res_simps split: if_splits prod.splits)
  have "v \<in> set (remaining_unknowns st1)"
    using max_by_key_mem [OF v] count_var_appearances_keys [OF m] by force
  then have "length (remaining_unknowns st') < length (remaining_unknowns st1)"
    using st' length_removeAll_less by simp
  with resolve_causal_equations_shrinks [OF r] show ?thesis by simp
qed

function tear_loop ::
  "nat list list \<Rightarrow> nat list list \<Rightarrow> TearPriority \<Rightarrow> TearState \<Rightarrow> nat list \<Rightarrow> (TearState \<times> nat list) option" where
  "tear_loop eq_unknowns causal_candidates priority st tear_vars =
     (case tear_turn eq_unknowns causal_candidates priority st of
        None \<Rightarrow> None
      | Some (Inl st') \<Rightarrow> Some (st', tear_vars)
      | Some (Inr (st', tear_var)) \<Rightarrow>
          tear_loop eq_unknowns causal_candidates priority st' (tear_vars @ [tear_var]))"
  by pat_completeness auto
termination
  by (relation "measure (\<lambda>(_, _, _, st, _). length (remaining_unknowns st))")
    (auto dest: tear_turn_shrinks)

declare tear_loop.simps [simp del]

definition tear_with_priority ::
  "nat \<Rightarrow> nat list list \<Rightarrow> nat list list \<Rightarrow> TearPriority \<Rightarrow> TearingResult option option" where
  "tear_with_priority n eq_unknowns causal_candidates priority = do {
     (st, tear_vars) \<leftarrow> tear_loop eq_unknowns causal_candidates priority
       \<lparr>remaining_eqs = [0..<n], remaining_unknowns = [0..<n], causal_steps = []\<rparr> [];
     (let residual_eqs = sort (remaining_eqs st) in
      if tear_vars = [] \<or> length tear_vars \<ge> n then Some None
      else if length residual_eqs \<noteq> length tear_vars then Some None
      else Some (Some \<lparr>tear_var_local_indices = tear_vars,
             residual_eq_local_indices = residual_eqs,
             causal_sequence = causal_steps st\<rparr>))
   }"

definition tear_algebraic_loop_with_causal_candidates ::
  "nat \<Rightarrow> nat list list \<Rightarrow> nat list list \<Rightarrow> TearingResult option option" where
  "tear_algebraic_loop_with_causal_candidates n eq_unknowns causal_candidates =
     (if n = 0 then Some None
      else if length eq_unknowns \<noteq> n \<or> length causal_candidates \<noteq> n then Some None
      else do {
        primary \<leftarrow> tear_with_priority n eq_unknowns causal_candidates CausalUnlocks;
        (if (case primary of None \<Rightarrow> False | Some plan \<Rightarrow> length (tear_var_local_indices plan) = 1)
         then Some primary
         else do {
           alternative \<leftarrow> tear_with_priority n eq_unknowns causal_candidates VariableDegree;
           Some (case (primary, alternative) of
               (Some p, Some a) \<Rightarrow>
                 if length (tear_var_local_indices a) < length (tear_var_local_indices p) then Some a else Some p
             | (Some p, None) \<Rightarrow> Some p
             | (None, alternative) \<Rightarrow> alternative)
         })
      })"

definition tear_algebraic_loop :: "nat \<Rightarrow> nat list list \<Rightarrow> TearingResult option option" where
  "tear_algebraic_loop n eq_unknowns =
     tear_algebraic_loop_with_causal_candidates n eq_unknowns eq_unknowns"

section \<open>The causal resolution keeps a triangular plan\<close>

definition causal_ok ::
  "nat \<Rightarrow> nat list list \<Rightarrow> nat list list \<Rightarrow> nat set \<Rightarrow> (nat \<times> nat) list \<Rightarrow> bool" where
  "causal_ok n eq_unknowns causal_candidates tears steps \<longleftrightarrow>
     (\<forall>k < length steps. \<forall>e v. steps ! k = (e, v) \<longrightarrow>
        v \<in> set (eq_unknowns ! e) \<and> v \<in> set (causal_candidates ! e) \<and>
        (\<forall>w \<in> set (eq_unknowns ! e). w < n \<longrightarrow> w \<in> tears \<or> w \<in> snd ` set (take (Suc k) steps)))"

definition tear_inv ::
  "nat \<Rightarrow> nat list list \<Rightarrow> nat list list \<Rightarrow> nat list \<Rightarrow> TearState \<Rightarrow> bool" where
  "tear_inv n eq_unknowns causal_candidates tears st \<longleftrightarrow>
     distinct (remaining_eqs st @ map fst (causal_steps st)) \<and>
     set (remaining_eqs st @ map fst (causal_steps st)) = {..<n} \<and>
     distinct (remaining_unknowns st @ map snd (causal_steps st) @ tears) \<and>
     set (remaining_unknowns st @ map snd (causal_steps st) @ tears) = {..<n} \<and>
     causal_ok n eq_unknowns causal_candidates (set tears) (causal_steps st)"

lemma causal_ok_mono:
  "causal_ok n eq_unknowns causal_candidates tears steps \<Longrightarrow> tears \<subseteq> tears' \<Longrightarrow>
     causal_ok n eq_unknowns causal_candidates tears' steps"
  unfolding causal_ok_def by blast

lemma causal_ok_snoc:
  assumes "causal_ok n eq_unknowns causal_candidates tears steps"
    and "v \<in> set (eq_unknowns ! e)" "v \<in> set (causal_candidates ! e)"
    and "\<forall>w \<in> set (eq_unknowns ! e). w < n \<longrightarrow> w \<in> tears \<or> w \<in> snd ` set steps \<or> w = v"
  shows "causal_ok n eq_unknowns causal_candidates tears (steps @ [(e, v)])"
  unfolding causal_ok_def
proof (intro allI impI)
  fix k e' v' assume k: "k < length (steps @ [(e, v)])" "(steps @ [(e, v)]) ! k = (e', v')"
  show "v' \<in> set (eq_unknowns ! e') \<and> v' \<in> set (causal_candidates ! e') \<and>
      (\<forall>w \<in> set (eq_unknowns ! e'). w < n \<longrightarrow> w \<in> tears \<or> w \<in> snd ` set (take (Suc k) (steps @ [(e, v)])))"
  proof (cases "k < length steps")
    case True
    then have "steps ! k = (e', v')" using k by (simp add: nth_append)
    with assms(1) True show ?thesis by (simp add: causal_ok_def)
  next
    case False
    with k have "k = length steps" "e' = e" "v' = v" by (auto simp: nth_append)
    with assms(2-4) show ?thesis by auto
  qed
qed

text \<open>An entry of the map: equations still open whose one live unknown is the key.\<close>

definition entry_ok ::
  "nat list list \<Rightarrow> nat list list \<Rightarrow> nat list \<Rightarrow> nat list \<Rightarrow> nat \<times> (nat \<times> nat) list \<Rightarrow> bool" where
  "entry_ok eq_unknowns causal_candidates eqs remaining entry \<longleftrightarrow>
     snd entry \<noteq> [] \<and> (\<forall>c \<in> set (snd entry).
       fst c \<in> set eqs \<and> live (eq_unknowns ! fst c) remaining = [fst entry] \<and>
       fst entry \<in> set (causal_candidates ! fst c))"

lemma live_single: "live us R = [v] \<Longrightarrow> v \<in> set us \<and> v \<in> set R \<and> (\<forall>w \<in> set us. w \<in> set R \<longrightarrow> w = v)"
proof -
  assume "live us R = [v]"
  then have "{w \<in> set us. w \<in> set R} = {v}" unfolding live_def by (metis list.set(1,2) set_filter)
  then show ?thesis by blast
qed

lemma entry_update_sorted:
  "sorted_wrt (<) (map fst m) \<Longrightarrow> sorted_wrt (<) (map fst (entry_update k f m))"
proof (induction k f m rule: entry_update.induct)
  case (2 k f k' x m)
  have "k' < y" if "k' < k" "y \<in> fst ` set (entry_update k f m)" for y
    using 2(2) that by (auto simp: entry_update_keys)
  with 2 show ?case by auto
qed simp

lemma entry_update_mem:
  "(k', y) \<in> set (entry_update k f m) \<Longrightarrow>
     (k', y) \<in> set m \<or> k' = k \<and> (y = f None \<or> (\<exists>x. (k, x) \<in> set m \<and> y = f (Some x)))"
  by (induction k f m rule: entry_update.induct) (auto split: if_splits)

lemma unique_live_ok:
  assumes "eq < length eq_unknowns" "eq < length causal_candidates"
  shows "\<exists>found. unique_live_causal_candidate eq remaining eq_unknowns causal_candidates = Some found \<and>
    (\<forall>v. found = Some v \<longrightarrow> live (eq_unknowns ! eq) remaining = [v] \<and> v \<in> set (causal_candidates ! eq))"
  using assms by (cases "live (eq_unknowns ! eq) remaining") (auto simp: unique_live_causal_candidate_def)

lemma collect_equation_ok:
  assumes len: "length eq_unknowns = n" "length causal_candidates = n" and r: "eq < n" "eq \<in> set eqs"
    and I: "sorted_wrt (<) (map fst m)" "\<forall>entry \<in> set m. entry_ok eq_unknowns causal_candidates eqs remaining entry"
  shows "\<exists>m'. collect_equation remaining eq_unknowns causal_candidates m eq = Some m' \<and>
    sorted_wrt (<) (map fst m') \<and> (\<forall>entry \<in> set m'. entry_ok eq_unknowns causal_candidates eqs remaining entry)"
proof -
  obtain found where f: "unique_live_causal_candidate eq remaining eq_unknowns causal_candidates = Some found"
    and fv: "\<And>v. found = Some v \<Longrightarrow> live (eq_unknowns ! eq) remaining = [v] \<and> v \<in> set (causal_candidates ! eq)"
    using unique_live_ok [of eq eq_unknowns causal_candidates remaining] r(1) len by auto
  show ?thesis
  proof (cases found)
    case None
    then show ?thesis using f I by (simp add: collect_equation_def)
  next
    case (Some var)
    let ?m = "entry_update var (\<lambda>r. or_default [] r @ [(eq, length (eq_unknowns ! eq))]) m"
    have "entry_ok eq_unknowns causal_candidates eqs remaining entry" if "entry \<in> set ?m" for entry
    proof -
      obtain k y where e: "entry = (k, y)" by (cases entry)
      show ?thesis
        using entry_update_mem [OF that [unfolded e]] fv [OF Some] r(2)
          I(2) [rule_format, of "(k, y)"] I(2) [rule_format, of "(var, x)" for x]
        by (auto simp: e entry_ok_def or_default_def) fastforce+
    qed
    then show ?thesis using f Some r len I(1) entry_update_sorted by (simp add: collect_equation_def)
  qed
qed

lemma var_to_eqs_ok:
  assumes "length eq_unknowns = n" "length causal_candidates = n" "set eqs \<subseteq> {..<n}"
  shows "\<exists>m. var_to_eqs eqs remaining eq_unknowns causal_candidates = Some m \<and>
    (sorted_wrt (<) (map fst m) \<and> (\<forall>entry \<in> set m. entry_ok eq_unknowns causal_candidates eqs remaining entry))"
  unfolding var_to_eqs_def
  by (rule try_fold_total) (use collect_equation_ok [OF assms(1,2)] assms(3) in \<open>auto 0 3\<close>)

lemma solve_variable_ok:
  assumes inv: "tear_inv n eq_unknowns causal_candidates tears st"
    and out: "{..<n} - set R0 \<subseteq> set tears \<union> snd ` set (causal_steps st)"
    and e: "entry_ok eq_unknowns causal_candidates (remaining_eqs st) R0 (var, candidates)"
    and v: "var \<in> set (remaining_unknowns st)"
  shows "\<exists>st' best. solve_variable (st, changed) (var, candidates) = Some (st', True) \<and>
    tear_inv n eq_unknowns causal_candidates tears st' \<and> live (eq_unknowns ! best) R0 = [var] \<and>
    remaining_eqs st' = removeAll best (remaining_eqs st) \<and>
    remaining_unknowns st' = removeAll var (remaining_unknowns st) \<and>
    causal_steps st' = causal_steps st @ [(best, var)]"
proof -
  let ?s = "sort_key (\<lambda>(eq, total). (total, eq)) candidates"
  have c: "candidates \<noteq> []" using e by (simp add: entry_ok_def)
  have ne: "?s \<noteq> []" "candidates \<noteq> []" using c length_sort [of "\<lambda>(eq, total). (total, eq)" candidates] by fastforce+
  obtain best total where h: "?s ! 0 = (best, total)" by (cases "?s ! 0")
  have "(best, total) \<in> set candidates"
    using ne(1) h by (metis length_greater_0_conv nth_mem set_sort)
  then have b: "best \<in> set (remaining_eqs st)" "live (eq_unknowns ! best) R0 = [var]"
    "var \<in> set (causal_candidates ! best)"
    using e by (auto simp: entry_ok_def)
  define st' where "st' = \<lparr>remaining_eqs = removeAll best (remaining_eqs st),
    remaining_unknowns = removeAll var (remaining_unknowns st), causal_steps = causal_steps st @ [(best, var)]\<rparr>"
  have "solve_variable (st, changed) (var, candidates) = Some (st', True)"
  proof -
    have "idx ?s 0 = Some (best, total)" using ne h by (simp add: idx_def)
    then show ?thesis using v c h by (simp add: solve_variable_def st'_def)
  qed
  moreover have "causal_ok n eq_unknowns causal_candidates (set tears) (causal_steps st')"
  proof -
    have "w \<in> set tears \<or> w \<in> snd ` set (causal_steps st) \<or> w = var"
      if "w \<in> set (eq_unknowns ! best)" "w < n" for w
      using live_single [OF b(2)] out that by blast
    then show ?thesis
      using inv live_single [OF b(2)] b(3) by (auto simp: tear_inv_def st'_def intro!: causal_ok_snoc)
  qed
  then have "tear_inv n eq_unknowns causal_candidates tears st'"
    using inv b(1) v by (auto simp: tear_inv_def st'_def distinct_removeAll)
  ultimately show ?thesis using b(2) by (auto simp: st'_def)
qed

lemma solve_fold_ok:
  assumes "tear_inv n eq_unknowns causal_candidates tears st"
    and "{..<n} - set R0 \<subseteq> set tears \<union> snd ` set (causal_steps st)"
    and "\<forall>entry \<in> set m. entry_ok eq_unknowns causal_candidates (remaining_eqs st) R0 entry"
    and "fst ` set m \<subseteq> set (remaining_unknowns st)" and "distinct (map fst m)"
  shows "\<exists>st' changed'. try_fold solve_variable (st, changed) m = Some (st', changed') \<and>
    tear_inv n eq_unknowns causal_candidates tears st'"
  using assms
proof (induction m arbitrary: st changed)
  case (Cons entry m)
  obtain var candidates where e: "entry = (var, candidates)" by (cases entry)
  obtain st1 best where s: "solve_variable (st, changed) entry = Some (st1, True)"
    and inv: "tear_inv n eq_unknowns causal_candidates tears st1"
    and b: "live (eq_unknowns ! best) R0 = [var]"
    and st1: "remaining_eqs st1 = removeAll best (remaining_eqs st)"
      "remaining_unknowns st1 = removeAll var (remaining_unknowns st)"
      "causal_steps st1 = causal_steps st @ [(best, var)]"
    using solve_variable_ok [OF Cons.prems(1,2), of var candidates changed] Cons.prems(3,4)
    unfolding e by auto
  have "entry_ok eq_unknowns causal_candidates (remaining_eqs st1) R0 f" if "f \<in> set m" for f
  proof -
    have f: "entry_ok eq_unknowns causal_candidates (remaining_eqs st) R0 f" using Cons.prems(3) that by simp
    have "fst f \<noteq> var" using Cons.prems(5) that e by auto
    with f b show ?thesis by (auto simp: entry_ok_def st1(1))
  qed
  moreover have "fst ` set m \<subseteq> set (remaining_unknowns st1)"
    using Cons.prems(4,5) by (auto simp: st1(2) e)
  moreover have "{..<n} - set R0 \<subseteq> set tears \<union> snd ` set (causal_steps st1)"
    using Cons.prems(2) by (auto simp: st1(3))
  ultimately show ?case using Cons.IH [OF inv, of True] Cons.prems(5) s by simp
qed simp

lemma resolve_pass_ok:
  assumes len: "length eq_unknowns = n" "length causal_candidates = n"
    and inv: "tear_inv n eq_unknowns causal_candidates tears st"
  shows "\<exists>st' changed. resolve_pass eq_unknowns causal_candidates st = Some (st', changed) \<and>
    tear_inv n eq_unknowns causal_candidates tears st'"
proof -
  have "set (remaining_eqs st) \<subseteq> {..<n}" using inv by (auto simp: tear_inv_def)
  then obtain m where m: "var_to_eqs (remaining_eqs st) (remaining_unknowns st) eq_unknowns causal_candidates = Some m"
      "sorted_wrt (<) (map fst m)"
    and e: "\<forall>entry \<in> set m. entry_ok eq_unknowns causal_candidates (remaining_eqs st) (remaining_unknowns st) entry"
    using var_to_eqs_ok [OF len] by blast
  have keys: "fst entry \<in> set (remaining_unknowns st)" if "entry \<in> set m" for entry
  proof -
    have "snd entry \<noteq> []" and l: "\<forall>c \<in> set (snd entry). live (eq_unknowns ! fst c) (remaining_unknowns st) = [fst entry]"
      using e that by (auto simp: entry_ok_def)
    then have "live (eq_unknowns ! fst (hd (snd entry))) (remaining_unknowns st) = [fst entry]" by simp
    from live_single [OF this] show ?thesis by simp
  qed
  have "fst ` set m \<subseteq> set (remaining_unknowns st)" using keys by blast
  moreover have "{..<n} - set (remaining_unknowns st) \<subseteq> set tears \<union> snd ` set (causal_steps st)"
    using inv by (auto simp: tear_inv_def)
  moreover have "distinct (map fst m)" using m(2) by (simp add: strict_sorted_iff)
  ultimately show ?thesis
    using solve_fold_ok [OF inv, of "remaining_unknowns st" m False] e m(1)
    by (auto simp: resolve_pass_def)
qed

lemma resolve_causal_equations_ok:
  assumes "length eq_unknowns = n" "length causal_candidates = n"
  shows "tear_inv n eq_unknowns causal_candidates tears st \<Longrightarrow>
    \<exists>st'. resolve_causal_equations eq_unknowns causal_candidates st = Some st' \<and>
      tear_inv n eq_unknowns causal_candidates tears st'"
  using assms
proof (induction eq_unknowns causal_candidates st rule: resolve_causal_equations.induct)
  case (1 eq_unknowns causal_candidates st)
  from resolve_pass_ok [OF "1.prems"(2,3,1)] obtain st1 changed where
    p: "resolve_pass eq_unknowns causal_candidates st = Some (st1, changed)"
    "tear_inv n eq_unknowns causal_candidates tears st1" by blast
  show ?case
    using "1.IH" [OF p(1) refl _ p(2) "1.prems"(2,3)] p
    by (subst resolve_causal_equations.simps) auto
qed

section \<open>The tearing loop keeps it\<close>

lemma count_var_appearances_total:
  "set eqs \<subseteq> {..<length eq_unknowns} \<Longrightarrow> \<exists>m. count_var_appearances eqs eq_unknowns remaining = Some m"
  unfolding count_var_appearances_def by (rule try_fold_defined) auto

lemma count_equation_total:
  assumes "eq < length eq_unknowns" "eq < length causal_candidates"
  shows "\<exists>u'. count_equation remaining eq_unknowns causal_candidates u eq = Some u'"
  using assms by (cases "live (eq_unknowns ! eq) remaining") (auto simp: count_equation_def)

lemma unlock_counts_total:
  assumes "set eqs \<subseteq> {..<length eq_unknowns}" "length causal_candidates = length eq_unknowns"
  shows "\<exists>u. unlock_counts eqs remaining eq_unknowns causal_candidates = Some u"
  unfolding unlock_counts_def
  by (rule try_fold_defined, rule count_equation_total) (use assms in auto)

lemma tear_turn_ok:
  assumes len: "length eq_unknowns = n" "length causal_candidates = n"
    and inv: "tear_inv n eq_unknowns causal_candidates tears st"
  shows "(\<exists>st'. tear_turn eq_unknowns causal_candidates priority st = Some (Inl st') \<and>
      tear_inv n eq_unknowns causal_candidates tears st') \<or>
    (\<exists>st' v. tear_turn eq_unknowns causal_candidates priority st = Some (Inr (st', v)) \<and>
      tear_inv n eq_unknowns causal_candidates (tears @ [v]) st')"
proof -
  obtain st1 where r: "resolve_causal_equations eq_unknowns causal_candidates st = Some st1"
    and inv1: "tear_inv n eq_unknowns causal_candidates tears st1"
    using resolve_causal_equations_ok [OF len inv] by blast
  have s: "set (remaining_eqs st1) \<subseteq> {..<length eq_unknowns}" using inv1 len by (auto simp: tear_inv_def)
  obtain m where m: "count_var_appearances (remaining_eqs st1) eq_unknowns (remaining_unknowns st1) = Some m"
    using count_var_appearances_total [OF s] by blast
  obtain u where u: "unlock_counts (remaining_eqs st1) (remaining_unknowns st1) eq_unknowns causal_candidates = Some u"
    using unlock_counts_total [OF s] len by metis
  show ?thesis
  proof (cases "remaining_eqs st1 = [] \<or> m = []")
    case True
    then show ?thesis using r m u inv1 by (auto simp: tear_turn_def)
  next
    case False
    let ?key = "\<lambda>(v, count). score priority (for_tear u v) count v"
    have "max_by_key ?key m \<noteq> None" using False by (cases m) auto
    then obtain v c where v: "max_by_key ?key m = Some (v, c)" by auto
    have vr: "v \<in> set (remaining_unknowns st1)"
      using max_by_key_mem [OF v] count_var_appearances_keys [OF m] by force
    have "causal_ok n eq_unknowns causal_candidates (set (tears @ [v])) (causal_steps st1)"
      by (rule causal_ok_mono [of _ _ _ "set tears"]) (use inv1 in \<open>auto simp: tear_inv_def\<close>)
    then have "tear_inv n eq_unknowns causal_candidates (tears @ [v])
        (st1\<lparr>remaining_unknowns := removeAll v (remaining_unknowns st1)\<rparr>)"
      using inv1 vr by (auto simp: tear_inv_def distinct_removeAll)
    then show ?thesis using r m u v False by (auto simp: tear_turn_def)
  qed
qed

lemma tear_loop_ok:
  assumes "length eq_unknowns = n" "length causal_candidates = n"
  shows "tear_inv n eq_unknowns causal_candidates tears st \<Longrightarrow>
    \<exists>st' tears'. tear_loop eq_unknowns causal_candidates priority st tears = Some (st', tears') \<and>
      tear_inv n eq_unknowns causal_candidates tears' st'"
  using assms
proof (induction eq_unknowns causal_candidates priority st tears rule: tear_loop.induct)
  case (1 eq_unknowns causal_candidates priority st tears)
  from tear_turn_ok [OF "1.prems"(2,3,1), of priority] show ?case
  proof (elim disjE exE conjE)
    fix st' v assume t: "tear_turn eq_unknowns causal_candidates priority st = Some (Inr (st', v))"
      "tear_inv n eq_unknowns causal_candidates (tears @ [v]) st'"
    from "1.IH" [OF t(1) refl refl t(2) "1.prems"(2,3)] t(1) show ?case
      by (subst tear_loop.simps) simp
  qed (subst tear_loop.simps, simp)
qed

section \<open>Plans\<close>

text \<open>
  A plan: the causal and the residual equations partition the loop's equations, the
  causal and the tear variables its unknowns, and each causal step solves an admissible
  variable of its equation whose other unknowns are torn or solved before.
\<close>

definition plan_ok :: "nat \<Rightarrow> nat list list \<Rightarrow> nat list list \<Rightarrow> TearingResult \<Rightarrow> bool" where
  "plan_ok n eq_unknowns causal_candidates plan \<longleftrightarrow>
     distinct (residual_eq_local_indices plan @ map fst (causal_sequence plan)) \<and>
     set (residual_eq_local_indices plan @ map fst (causal_sequence plan)) = {..<n} \<and>
     distinct (tear_var_local_indices plan @ map snd (causal_sequence plan)) \<and>
     set (tear_var_local_indices plan @ map snd (causal_sequence plan)) = {..<n} \<and>
     causal_ok n eq_unknowns causal_candidates (set (tear_var_local_indices plan)) (causal_sequence plan) \<and>
     0 < length (tear_var_local_indices plan) \<and> length (tear_var_local_indices plan) < n \<and>
     length (residual_eq_local_indices plan) = length (tear_var_local_indices plan)"

lemma tear_with_priority_ok:
  assumes len: "length eq_unknowns = n" "length causal_candidates = n"
  shows "\<exists>r. tear_with_priority n eq_unknowns causal_candidates priority = Some r \<and>
    (\<forall>plan. r = Some plan \<longrightarrow> plan_ok n eq_unknowns causal_candidates plan)"
proof -
  let ?st = "\<lparr>remaining_eqs = [0..<n], remaining_unknowns = [0..<n], causal_steps = []\<rparr>"
  have "tear_inv n eq_unknowns causal_candidates [] ?st" by (auto simp: tear_inv_def causal_ok_def)
  then obtain st tears where t: "tear_loop eq_unknowns causal_candidates priority ?st [] = Some (st, tears)"
    and inv: "tear_inv n eq_unknowns causal_candidates tears st"
    using tear_loop_ok [OF len] by blast
  have a: "length (remaining_eqs st) + length (causal_steps st) = n"
    using distinct_card [of "remaining_eqs st @ map fst (causal_steps st)"] inv
    by (simp only: tear_inv_def) simp
  have "length (remaining_unknowns st) + length (causal_steps st) + length tears = n"
    using distinct_card [of "remaining_unknowns st @ map snd (causal_steps st) @ tears"] inv
    by (simp only: tear_inv_def) simp
  with a have fin: "remaining_unknowns st = []" if "length (remaining_eqs st) = length tears" using that by auto
  have "plan_ok n eq_unknowns causal_candidates \<lparr>tear_var_local_indices = tears,
      residual_eq_local_indices = sort (remaining_eqs st), causal_sequence = causal_steps st\<rparr>"
    if "length (remaining_eqs st) = length tears" "tears \<noteq> []" "length tears < n"
    using inv fin [OF that(1)] that by (auto simp: plan_ok_def tear_inv_def)
  then show ?thesis using t by (auto simp: tear_with_priority_def Let_def)
qed

lemma tear_with_candidates_ok:
  "\<exists>r. tear_algebraic_loop_with_causal_candidates n eq_unknowns causal_candidates = Some r \<and>
     (\<forall>plan. r = Some plan \<longrightarrow> plan_ok n eq_unknowns causal_candidates plan)"
proof (cases "n = 0 \<or> length eq_unknowns \<noteq> n \<or> length causal_candidates \<noteq> n")
  case True
  then show ?thesis by (auto simp: tear_algebraic_loop_with_causal_candidates_def)
next
  case False
  then have len: "length eq_unknowns = n" "length causal_candidates = n" by auto
  obtain p where p: "tear_with_priority n eq_unknowns causal_candidates CausalUnlocks = Some p"
    "\<forall>plan. p = Some plan \<longrightarrow> plan_ok n eq_unknowns causal_candidates plan"
    using tear_with_priority_ok [OF len] by blast
  obtain a where a: "tear_with_priority n eq_unknowns causal_candidates VariableDegree = Some a"
    "\<forall>plan. a = Some plan \<longrightarrow> plan_ok n eq_unknowns causal_candidates plan"
    using tear_with_priority_ok [OF len] by blast
  show ?thesis
    using False p a by (cases p; cases a) (auto simp: tear_algebraic_loop_with_causal_candidates_def)
qed

section \<open>The causal sequence is a solve order\<close>

type_synonym loop = "nat \<times> nat list list \<times> nat list list"

definition loop_reads :: "loop \<Rightarrow> nat \<Rightarrow> nat set" where
  "loop_reads = (\<lambda>(n, eq_unknowns, _) e. {w \<in> set (eq_unknowns ! e). w < n})"

definition step_blocks :: "(nat \<times> nat) list \<Rightarrow> block list" where
  "step_blocks steps = map (\<lambda>(e, v). ([e], [v])) steps"

definition tearing_planner :: "loop \<Rightarrow> (nat set \<times> block list) option" where
  "tearing_planner = (\<lambda>(n, eq_unknowns, causal_candidates).
     (case tear_algebraic_loop_with_causal_candidates n eq_unknowns causal_candidates of
        Some (Some plan) \<Rightarrow> Some (set (tear_var_local_indices plan), step_blocks (causal_sequence plan))
      | _ \<Rightarrow> None))"

lemma step_blocks_vars: "concat (map snd (step_blocks steps)) = map snd steps"
  by (induction steps) (auto simp: step_blocks_def)

lemma plan_triangular:
  assumes "plan_ok n eq_unknowns causal_candidates plan"
  shows "triangular (loop_reads (n, eq_unknowns, causal_candidates)) (set (tear_var_local_indices plan))
    (step_blocks (causal_sequence plan))"
proof -
  let ?s = "causal_sequence plan"
  have tk: "take k (step_blocks ?s) = step_blocks (take k ?s)" for k by (simp add: step_blocks_def take_map)
  have "loop_reads (n, eq_unknowns, causal_candidates) e \<subseteq>
      set (tear_var_local_indices plan) \<union> snd ` set (take (Suc k) ?s)"
    if k: "k < length ?s" "e \<in> set (fst (step_blocks ?s ! k))" for k e
  proof -
    obtain v where "?s ! k = (e, v)" using k by (cases "?s ! k") (simp add: step_blocks_def)
    moreover have "causal_ok n eq_unknowns causal_candidates (set (tear_var_local_indices plan)) ?s"
      using assms by (simp add: plan_ok_def)
    ultimately show ?thesis
      using k(1) unfolding causal_ok_def loop_reads_def by auto
  qed
  moreover have "length (step_blocks ?s) = length ?s" by (simp add: step_blocks_def)
  moreover have "distinct (map snd ?s)" "set (map snd ?s) \<inter> set (tear_var_local_indices plan) = {}"
    using assms by (auto simp: plan_ok_def)
  ultimately show ?thesis unfolding triangular_def step_blocks_vars tk by simp
qed

interpretation torn: solve_planner tearing_planner loop_reads
proof
  fix i given_vars bs assume a: "tearing_planner i = Some (given_vars, bs)"
  obtain n eq_unknowns causal_candidates where i: "i = (n, eq_unknowns, causal_candidates)" by (cases i)
  from a obtain plan where p: "tear_algebraic_loop_with_causal_candidates n eq_unknowns causal_candidates = Some (Some plan)"
    and g: "given_vars = set (tear_var_local_indices plan)" "bs = step_blocks (causal_sequence plan)"
    by (auto simp: tearing_planner_def i split: option.splits)
  have "plan_ok n eq_unknowns causal_candidates plan"
    using tear_with_candidates_ok [of n eq_unknowns causal_candidates] p by auto
  then show "triangular (loop_reads i) given_vars bs" unfolding i g by (rule plan_triangular)
qed

section \<open>The one-pass unlock counts\<close>

text \<open>
  The direct count the source keeps as the reference of \<open>UnlockCounts\<close>: the equations
  that tearing a variable leaves with one live unknown they can solve.
\<close>

definition unlocks :: "nat list list \<Rightarrow> nat list list \<Rightarrow> nat list \<Rightarrow> nat \<Rightarrow> nat \<Rightarrow> bool" where
  "unlocks eq_unknowns causal_candidates remaining tear_var eq \<longleftrightarrow>
     (case filter (\<lambda>v. v \<noteq> tear_var) (live (eq_unknowns ! eq) remaining) of
        [c] \<Rightarrow> c \<in> set (causal_candidates ! eq)
      | _ \<Rightarrow> False)"

definition causal_steps_unlocked_by_tearing ::
  "nat \<Rightarrow> nat list \<Rightarrow> nat list \<Rightarrow> nat list list \<Rightarrow> nat list list \<Rightarrow> nat" where
  "causal_steps_unlocked_by_tearing tear_var eqs remaining eq_unknowns causal_candidates =
     length (filter (unlocks eq_unknowns causal_candidates remaining tear_var) eqs)"

definition counts_ok :: "UnlockCounts \<Rightarrow> bool" where
  "counts_ok u \<longleftrightarrow> (\<forall>v. or_default 0 (lone_on u v) \<le> lone u)"

lemma bump_get: "or_default 0 (bump k m v) = or_default 0 (m v) + (if v = k then 1 else 0)"
  by (simp add: bump_def or_default_def)

lemma count_pair_for_tear:
  "for_tear (count_pair cs a b u) v =
     for_tear u v + (if v = a \<and> b \<in> set cs then 1 else 0) + (if v = b \<and> a \<in> set cs then 1 else 0)"
  by (simp add: count_pair_def for_tear_def bump_get Let_def)

lemma count_pair_counts: "counts_ok (count_pair cs a b u) \<longleftrightarrow> counts_ok u"
  by (simp add: counts_ok_def count_pair_def Let_def)

lemma filter_long: "length (filter (\<lambda>v. v \<noteq> t) xs) = 1 \<Longrightarrow> distinct xs \<Longrightarrow> length xs \<le> 2"
proof -
  assume a: "length (filter (\<lambda>v. v \<noteq> t) xs) = 1" "distinct xs"
  have "filter (\<lambda>v. v \<noteq> t) xs = remove1 t xs" using a(2) by (simp add: distinct_remove1_removeAll removeAll_filter_not_eq eq_commute)
  then show ?thesis using a(1) by (auto simp: length_remove1 split: if_splits)
qed

lemma unlocks_long: "length (live (eq_unknowns ! eq) remaining) > 2 \<Longrightarrow> distinct (eq_unknowns ! eq) \<Longrightarrow>
    \<not> unlocks eq_unknowns causal_candidates remaining t eq"
  using filter_long [of t "live (eq_unknowns ! eq) remaining"]
  by (auto simp: unlocks_def live_def split: list.splits)

lemma count_equation_for_tear:
  assumes c: "count_equation remaining eq_unknowns causal_candidates u eq = Some u'"
    and ok: "counts_ok u" and d: "distinct (eq_unknowns ! eq)"
  shows "counts_ok u' \<and> (\<forall>t. for_tear u' t =
    for_tear u t + (if unlocks eq_unknowns causal_candidates remaining t eq then 1 else 0))"
proof -
  have r: "eq < length eq_unknowns" using c by (auto simp: count_equation_def res_simps)
  have dl: "distinct (live (eq_unknowns ! eq) remaining)" using d by (simp add: live_def)
  consider (nil) "live (eq_unknowns ! eq) remaining = []"
    | (one) a where "live (eq_unknowns ! eq) remaining = [a]"
    | (two) a b where "live (eq_unknowns ! eq) remaining = [a, b]"
    | (more) a b x xs where "live (eq_unknowns ! eq) remaining = a # b # x # xs"
    by (metis list.exhaust)
  then show ?thesis
  proof cases
    case nil
    then show ?thesis using c ok r by (simp add: count_equation_def unlocks_def)
  next
    case one
    then have u': "u' = (if a \<in> set (causal_candidates ! eq)
        then u\<lparr>lone := lone u + 1, lone_on := bump a (lone_on u)\<rparr> else u)"
      using c r by (auto simp: count_equation_def res_simps)
    have "or_default 0 (lone_on u t) \<le> lone u" for t using ok by (simp add: counts_ok_def)
    then show ?thesis using one ok
      by (auto simp: u' counts_ok_def for_tear_def bump_get unlocks_def Suc_diff_le le_SucI trans_le_add1)
  next
    case two
    then have "u' = count_pair (causal_candidates ! eq) a b u" using c r by (auto simp: count_equation_def res_simps)
    moreover have "a \<noteq> b" using dl two by simp
    ultimately show ?thesis using two ok by (auto simp: count_pair_counts count_pair_for_tear unlocks_def)
  next
    case more
    then have "u' = u" using c r by (auto simp: count_equation_def res_simps)
    then show ?thesis using ok more unlocks_long [OF _ d, of remaining causal_candidates] by simp
  qed
qed

lemma unlock_fold_for_tear:
  "try_fold (count_equation remaining eq_unknowns causal_candidates) u eqs = Some u' \<Longrightarrow> counts_ok u \<Longrightarrow>
     \<forall>eq \<in> set eqs. distinct (eq_unknowns ! eq) \<Longrightarrow>
     for_tear u' t = for_tear u t + causal_steps_unlocked_by_tearing t eqs remaining eq_unknowns causal_candidates"
proof (induction eqs arbitrary: u)
  case (Cons eq eqs)
  then obtain u1 where u1: "count_equation remaining eq_unknowns causal_candidates u eq = Some u1"
    "try_fold (count_equation remaining eq_unknowns causal_candidates) u1 eqs = Some u'"
    by (auto split: option.splits)
  have "counts_ok u1" "for_tear u1 t = for_tear u t +
      (if unlocks eq_unknowns causal_candidates remaining t eq then 1 else 0)"
    using count_equation_for_tear [OF u1(1) Cons.prems(2)] Cons.prems(3) by auto
  with Cons.IH [OF u1(2)] Cons.prems(3) show ?case by (simp add: causal_steps_unlocked_by_tearing_def)
qed (simp add: causal_steps_unlocked_by_tearing_def)

section \<open>Properties\<close>

text \<open>C8: Tearing ends without a panic on every loop, and a plan it returns is one: causal and
  residual equations partition the equations, causal and tear variables partition the
  unknowns, there are as many residuals as tear variables, at least one and fewer than
  unknowns, and every causal step solves a variable that its equation may solve for and
  whose other unknowns are torn or solved by an earlier step.\<close>

theorem tearing_plan_sound:
  "\<exists>r. tear_algebraic_loop_with_causal_candidates n eq_unknowns causal_candidates = Some r \<and>
     (\<forall>plan. r = Some plan \<longrightarrow> 
        distinct (residual_eq_local_indices plan @ map fst (causal_sequence plan)) \<and>
        set (residual_eq_local_indices plan @ map fst (causal_sequence plan)) = {..<n} \<and>
        distinct (tear_var_local_indices plan @ map snd (causal_sequence plan)) \<and>
        set (tear_var_local_indices plan @ map snd (causal_sequence plan)) = {..<n} \<and>
        length (residual_eq_local_indices plan) = length (tear_var_local_indices plan) \<and>
        0 < length (tear_var_local_indices plan) \<and> length (tear_var_local_indices plan) < n \<and>
        (\<forall>k < length (causal_sequence plan). \<forall>e v. causal_sequence plan ! k = (e, v) \<longrightarrow>
           v \<in> set (eq_unknowns ! e) \<and> v \<in> set (causal_candidates ! e) \<and>
           (\<forall>w \<in> set (eq_unknowns ! e). w < n \<longrightarrow> w \<in> set (tear_var_local_indices plan) \<or>
              w \<in> snd ` set (take (Suc k) (causal_sequence plan)))))"
  using tear_with_candidates_ok [of n eq_unknowns causal_candidates]
  by (simp only: plan_ok_def causal_ok_def) metis

theorem tearing_plan_sound_witness:
  "\<exists>plan. tear_algebraic_loop_with_causal_candidates 2 [[0, 1], [0, 1]] [[0, 1], [0, 1]] = Some (Some plan) \<and>
     length (residual_eq_local_indices plan) = length (tear_var_local_indices plan)"
proof -
  have "tear_algebraic_loop_with_causal_candidates 2 [[0, 1], [0, 1]] [[0, 1], [0, 1]] =
      Some (Some \<lparr>tear_var_local_indices = [0], residual_eq_local_indices = [1], causal_sequence = [(0, 1)]\<rparr>)"
    by code_simp
  with tearing_plan_sound [of 2 "[[0, 1], [0, 1]]" "[[0, 1], [0, 1]]"] show ?thesis by auto
qed

text \<open>C9: Back-substitution along a torn loop is sound: for equations that depend only on the
  unknowns they reference, solving the causal steps in order from any values of the tear
  variables leaves those values alone and satisfies every causal equation, so that only
  the residual equations are left to the iteration.\<close>

theorem tearing_back_substitution:
  assumes plan: "tear_algebraic_loop_with_causal_candidates n eq_unknowns causal_candidates = Some (Some plan)"
    and loc: "local_equations (loop_reads (n, eq_unknowns, causal_candidates)) holds"
    and solve: "\<forall>(e, v) \<in> set (causal_sequence plan). block_solver holds solve ([e], [v])"
  shows "(\<forall>(e, v) \<in> set (causal_sequence plan).
      holds e (run_plan solve (step_blocks (causal_sequence plan)) x)) \<and>
    (\<forall>t \<in> set (tear_var_local_indices plan). run_plan solve (step_blocks (causal_sequence plan)) x t = x t)"
proof -
  have p: "tearing_planner (n, eq_unknowns, causal_candidates) =
      Some (set (tear_var_local_indices plan), step_blocks (causal_sequence plan))"
    by (simp add: tearing_planner_def plan)
  have "\<forall>b \<in> set (step_blocks (causal_sequence plan)). block_solver holds solve b"
    using solve by (auto simp: step_blocks_def)
  from torn.substitution [OF p loc this, of x] show ?thesis by (auto simp: step_blocks_def split_beta)
qed

theorem tearing_back_substitution_witness:
  "let holds = (\<lambda>e x. if e = 0 then x 0 + x 1 = (3 :: int) else x 0 - x 1 = 1);
       solve = (\<lambda>b x. x(1 := 3 - x 0)) in
   \<exists>plan. tear_algebraic_loop_with_causal_candidates 2 [[0, 1], [0, 1]] [[0, 1], [0, 1]] = Some (Some plan) \<and>
     (\<forall>(e, v) \<in> set (causal_sequence plan). holds e (run_plan solve (step_blocks (causal_sequence plan)) (\<lambda>_. 7)))"
proof -
  let ?holds = "\<lambda>e x. if e = 0 then x 0 + x 1 = (3 :: int) else x 0 - x 1 = 1"
  let ?solve = "\<lambda>b x. x(1 := 3 - x 0)"
  let ?plan = "\<lparr>tear_var_local_indices = [0], residual_eq_local_indices = [1], causal_sequence = [(0, 1)]\<rparr>"
  let ?u = "[[0, 1], [0, 1]]"
  have p: "tear_algebraic_loop_with_causal_candidates 2 ?u ?u = Some (Some ?plan)" by code_simp
  have "(\<forall>w \<in> {0, 1}. x w = y w) \<longrightarrow> ?holds e x \<longrightarrow> ?holds e y" for e and x y :: "nat \<Rightarrow> int" by auto
  moreover have "loop_reads (2, ?u, ?u) e = {0, 1}" if "e < 2" for e
    using that by (auto simp: loop_reads_def less_2_cases_iff)
  ultimately have l: "local_equations (loop_reads (2, ?u, ?u)) (\<lambda>e x. e < 2 \<and> ?holds e x)"
    unfolding local_equations_def by metis
  have s: "\<forall>(e, v) \<in> set (causal_sequence ?plan). block_solver (\<lambda>e x. e < 2 \<and> ?holds e x) ?solve ([e], [v])"
    by (simp add: block_solver_def)
  from tearing_back_substitution [OF p l s, of "\<lambda>_. 7"] p show ?thesis by auto
qed

text \<open>C29: The one-pass unlock counts agree with the direct count for every tear variable: on
  duplicate-free unknown sets, \<open>for_tear\<close> is the number of open equations that tearing
  the variable leaves with exactly one live unknown they can solve; its subtraction
  never underflows.\<close>

theorem unlock_counts_reference:
  assumes "unlock_counts eqs remaining eq_unknowns causal_candidates = Some u"
    and "\<forall>eq \<in> set eqs. distinct (eq_unknowns ! eq)"
  shows "for_tear u t = causal_steps_unlocked_by_tearing t eqs remaining eq_unknowns causal_candidates \<and>
    or_default 0 (lone_on u t) \<le> lone u"
proof -
  have 0: "counts_ok \<lparr>lone = 0, lone_on = Map.empty, paired = Map.empty\<rparr>" by (simp add: counts_ok_def or_default_def)
  note f = assms(1) [unfolded unlock_counts_def]
  have "counts_ok u"
    by (rule try_fold_invariant [where I = counts_ok, OF f 0])
      (use assms(2) count_equation_for_tear in blast)
  then show ?thesis
    using unlock_fold_for_tear [OF f 0 assms(2), of t] by (simp add: counts_ok_def for_tear_def or_default_def)
qed

theorem unlock_counts_reference_witness:
  "\<exists>u. unlock_counts [0, 1] [0, 1] [[0, 1], [1]] [[0, 1], [1]] = Some u \<and>
     for_tear u 0 = causal_steps_unlocked_by_tearing 0 [0, 1] [0, 1] [[0, 1], [1]] [[0, 1], [1]]"
proof -
  obtain u where u: "unlock_counts [0, 1] [0, 1] [[0, 1], [1]] [[0, 1], [1]] = Some u"
    using unlock_counts_total [of "[0, 1]" "[[0, 1], [1]]" "[[0, 1], [1]]" "[0, 1]"] by auto
  from unlock_counts_reference [OF this, of 0] u show ?thesis by auto
qed

text \<open>C30: The plan returned is a smallest of the two priorities' plans: whenever one priority
  yields a plan, a plan is returned, and it tears no more variables than that one.\<close>

theorem tearing_smallest_of_two:
  assumes "tear_with_priority n eq_unknowns causal_candidates priority = Some (Some plan)"
    and "n \<noteq> 0" "length eq_unknowns = n" "length causal_candidates = n"
  shows "\<exists>best. tear_algebraic_loop_with_causal_candidates n eq_unknowns causal_candidates = Some (Some best) \<and>
    length (tear_var_local_indices best) \<le> length (tear_var_local_indices plan)"
proof -
  obtain p where p: "tear_with_priority n eq_unknowns causal_candidates CausalUnlocks = Some p"
    using tear_with_priority_ok [OF assms(3,4)] by blast
  obtain a where a: "tear_with_priority n eq_unknowns causal_candidates VariableDegree = Some a"
    using tear_with_priority_ok [OF assms(3,4)] by blast
  have "0 < length (tear_var_local_indices plan)"
    using tear_with_priority_ok [OF assms(3,4), of priority] assms(1) by (auto simp: plan_ok_def)
  then show ?thesis
    using assms p a
    by (cases priority; cases p; cases a) (auto simp: tear_algebraic_loop_with_causal_candidates_def)
qed

theorem tearing_smallest_of_two_witness:
  "\<exists>plan best. tear_with_priority 2 [[0, 1], [0, 1]] [[0, 1], [0, 1]] VariableDegree = Some (Some plan) \<and>
     tear_algebraic_loop_with_causal_candidates 2 [[0, 1], [0, 1]] [[0, 1], [0, 1]] = Some (Some best) \<and>
     length (tear_var_local_indices best) \<le> length (tear_var_local_indices plan)"
proof -
  have p: "tear_with_priority 2 [[0, 1], [0, 1]] [[0, 1], [0, 1]] VariableDegree =
      Some (Some \<lparr>tear_var_local_indices = [0], residual_eq_local_indices = [1], causal_sequence = [(0, 1)]\<rparr>)"
    by code_simp
  from tearing_smallest_of_two [OF p] p show ?thesis by auto
qed

end
