(* ===== verification/Blt.thy ===== *)
theory Blt
  imports Tarjan Tearing Matching "HOL-Library.AList"
begin

text \<open>
  Block lower triangular form (\<open>blt.rs\<close>, \<open>blt/declaration_runs.rs\<close>) and the sorting of a
  system from its incidence (\<open>lib.rs\<close>): compact blocks for self-contained families, the
  condensed graph, the conversion of components to blocks and the report of a singular
  system. A view of the DAE is what these functions read of it: the owner of a
  continuous equation and the extents of a domain. Identifiers of states, algebraic
  variables, families and domains are their indices. The outer \<open>None\<close> of a result is a
  panic.
\<close>

section \<open>Data\<close>

type_synonym Span = "nat \<times> nat \<times> nat"

datatype EquationRef = EquationRef nat

datatype UnknownId = Derivative nat nat | Algebraic nat nat | Solver nat | Unmatched nat

record Incidence =
  inc_n_eq :: nat
  inc_n_var :: nat
  inc_eq_unknowns :: IncidenceRows
  inc_unknowns :: "UnknownId list"
  inc_unknown_spans :: "Span list"
  inc_equation_refs :: "EquationRef list"
  inc_equation_spans :: "Span list"
  inc_structured_matching :: "StructuredMatchingFamily list"
  inc_owner_first_row :: "nat list"

record StructuredFamilyView =
  family_domain :: nat
  family_bodies :: nat
  family_scalar_rows :: nat

datatype ContinuousOwnerView = Residual nat | Structured nat StructuredFamilyView

record DaeView =
  continuous_owner :: "nat \<Rightarrow> ContinuousOwnerView option"
  domain_extents :: "nat \<Rightarrow> nat list option"

record StructuredFamilyContext =
  context_source :: nat
  context_domain :: nat
  declaration_bases :: "UnknownId list option"

record StructuredScalarBlock =
  block_matching :: StructuredMatchingFamily
  block_context :: "StructuredFamilyContext option"

datatype BltBlock =
  Scalar EquationRef UnknownId
| AlgebraicLoop "EquationRef list" "UnknownId list" "TearingResult option"
| StructuredScalar StructuredScalarBlock

section \<open>Declaration runs\<close>

definition base_declarations :: "StructuredMatchingFamily \<Rightarrow> Incidence \<Rightarrow> UnknownId list option" where
  "base_declarations family incidence =
     those (map (\<lambda>var_index. do {
       declaration \<leftarrow> idx (inc_unknowns incidence) var_index;
       (case declaration of
          Derivative _ _ \<Rightarrow> Some declaration
        | Algebraic _ _ \<Rightarrow> Some declaration
        | _ \<Rightarrow> None)
     }) (base_unknowns family))"

definition shifted_scalar :: "int \<Rightarrow> nat \<Rightarrow> nat option" where
  "shifted_scalar displacement base = do {
     scalar \<leftarrow> chk_i64 (int base + displacement);
     (if 0 \<le> scalar \<and> scalar \<le> 4294967295 then Some (nat scalar) else None)
   }"

definition project_declaration ::
  "StructuredMatchingFamily \<Rightarrow> UnknownId list \<Rightarrow> nat \<Rightarrow> nat \<Rightarrow> UnknownId option" where
  "project_declaration family bases var_index position = do {
     base \<leftarrow> idx bases position;
     base_index \<leftarrow> idx (base_unknowns family) position;
     i \<leftarrow> chk_i64 (int var_index);
     b \<leftarrow> chk_i64 (int base_index);
     displacement \<leftarrow> chk_i64 (i - b);
     (case base of
        Derivative state scalar \<Rightarrow> map_option (Derivative state) (shifted_scalar displacement scalar)
      | Algebraic variable scalar \<Rightarrow> map_option (Algebraic variable) (shifted_scalar displacement scalar)
      | _ \<Rightarrow> None)
   }"

definition matches_declaration ::
  "StructuredMatchingFamily \<Rightarrow> Incidence \<Rightarrow> UnknownId list \<Rightarrow> nat \<Rightarrow> nat \<Rightarrow> bool" where
  "matches_declaration family incidence bases var_index position =
     (case project_declaration family bases var_index position of
        None \<Rightarrow> False
      | Some projected \<Rightarrow> idx (inc_unknowns incidence) var_index = Some projected)"

definition bind_source ::
  "DaeView \<Rightarrow> StructuredMatchingFamily \<Rightarrow> UnknownId list option \<Rightarrow> StructuredFamilyContext option" where
  "bind_source view family declarations =
     (case continuous_owner view (source_owner_index family) of
        Some (Structured ident fview) \<Rightarrow>
          Some \<lparr>context_source = ident, context_domain = family_domain fview,
                declaration_bases = declarations\<rparr>
      | _ \<Rightarrow> None)"

text \<open>The conditions under which \<open>checked_source\<close> binds the family to its source.\<close>

definition source_checked :: "DaeView \<Rightarrow> StructuredMatchingFamily \<Rightarrow> Incidence \<Rightarrow> bool" where
  "source_checked view family incidence =
     (case row_range family of
        None \<Rightarrow> False
      | Some (first, end_row) \<Rightarrow>
          idx (inc_owner_first_row incidence) (source_owner_index family) = Some first \<and>
          idx (inc_owner_first_row incidence) (source_owner_index family + 1) = Some end_row \<and>
          (case continuous_owner view (source_owner_index family) of
             Some (Structured _ fview) \<Rightarrow>
               (case domain_extents view (family_domain fview) of
                  None \<Rightarrow> False
                | Some exts \<Rightarrow>
                    family_bodies fview = equations_per_point family \<and>
                    Some (family_scalar_rows fview) = family_row_count family \<and>
                    exts = extents family)
           | _ \<Rightarrow> False))"

definition checked_source ::
  "DaeView \<Rightarrow> StructuredMatchingFamily \<Rightarrow> Incidence \<Rightarrow> UnknownId list option \<Rightarrow>
   StructuredFamilyContext option option" where
  "checked_source view family incidence declarations =
     (if source_checked view family incidence then map_option Some (bind_source view family declarations)
      else Some None)"

section \<open>Structured blocks\<close>

definition block_row_range :: "StructuredScalarBlock \<Rightarrow> (nat \<times> nat) option" where
  "block_row_range b = row_range (block_matching b)"

definition structured_block_count :: "StructuredScalarBlock \<Rightarrow> nat option" where
  "structured_block_count b = family_row_count (block_matching b)"

definition scalar_row :: "StructuredScalarBlock \<Rightarrow> nat \<Rightarrow> nat \<Rightarrow> (EquationRef \<times> nat) option" where
  "scalar_row b point position =
     map_option (\<lambda>(equation, unknown). (EquationRef equation, unknown))
       (candidate (block_matching b) point position)"

text \<open>A contract violation names the point and the position it cannot address.\<close>

definition scalar_rows :: "StructuredScalarBlock \<Rightarrow> ((nat \<times> nat) + (EquationRef \<times> nat)) list" where
  "scalar_rows b =
     concat (map (\<lambda>point. map (\<lambda>position. ok_or (scalar_row b point position) (point, position))
       [0..<equations_per_point (block_matching b)]) [0..<point_count (block_matching b)])"

definition matched_declaration :: "StructuredScalarBlock \<Rightarrow> nat \<Rightarrow> nat \<Rightarrow> (EquationRef \<times> UnknownId) option" where
  "matched_declaration b point position = do {
     ctx \<leftarrow> block_context b;
     bases \<leftarrow> declaration_bases ctx;
     (r, var_index) \<leftarrow> candidate (block_matching b) point position;
     declaration \<leftarrow> project_declaration (block_matching b) bases var_index position;
     Some (EquationRef r, declaration)
   }"

definition scalar_block_count :: "BltBlock \<Rightarrow> nat option" where
  "scalar_block_count b =
     (case b of
        Scalar _ _ \<Rightarrow> Some 1
      | AlgebraicLoop _ _ _ \<Rightarrow> Some 0
      | StructuredScalar s \<Rightarrow> structured_block_count s)"

definition row_is_self_contained ::
  "StructuredMatchingFamily \<Rightarrow> Incidence \<Rightarrow> nat option list \<Rightarrow> nat \<Rightarrow> nat \<Rightarrow> nat option" where
  "row_is_self_contained family incidence m_eq point position = do {
     (r, unknown) \<leftarrow> candidate family point position;
     (if row (inc_eq_unknowns incidence) r = [unknown] \<and> slot m_eq r = Some unknown
      then Some unknown else None)
   }"

definition check_row ::
  "StructuredMatchingFamily \<Rightarrow> Incidence \<Rightarrow> nat option list \<Rightarrow> UnknownId list option \<Rightarrow> nat \<times> nat \<Rightarrow>
   UnknownId list option option" where
  "check_row family incidence m_eq = (\<lambda>declarations (point, position). do {
     unknown \<leftarrow> row_is_self_contained family incidence m_eq point position;
     Some (case declarations of
         Some bases \<Rightarrow> if matches_declaration family incidence bases unknown position then Some bases else None
       | None \<Rightarrow> None)
   })"

definition family_cells :: "StructuredMatchingFamily \<Rightarrow> (nat \<times> nat) list" where
  "family_cells family =
     concat (map (\<lambda>point. map (\<lambda>position. (point, position)) [0..<equations_per_point family])
       [0..<point_count family])"

definition family_is_self_contained ::
  "StructuredMatchingFamily \<Rightarrow> Incidence \<Rightarrow> nat option list \<Rightarrow> UnknownId list option option" where
  "family_is_self_contained family incidence m_eq = do {
     (first, end_row) \<leftarrow> row_range family;
     (if end_row > inc_n_eq incidence \<or> point_count family = 0 \<or> equations_per_point family = 0 then None
      else try_fold (check_row family incidence m_eq) (base_declarations family incidence) (family_cells family))
   }"

definition structured_scalar_block ::
  "DaeView option \<Rightarrow> StructuredMatchingFamily \<Rightarrow> Incidence \<Rightarrow> UnknownId list option \<Rightarrow> StructuredScalarBlock option" where
  "structured_scalar_block view family incidence declarations =
     (case view of
        None \<Rightarrow> Some \<lparr>block_matching = family, block_context = None\<rparr>
      | Some view \<Rightarrow> map_option (\<lambda>ctx. \<lparr>block_matching = family, block_context = ctx\<rparr>)
          (checked_source view family incidence declarations))"

definition claim_rows :: "bool list \<Rightarrow> nat \<times> nat \<Rightarrow> bool \<times> bool list" where
  "claim_rows flags = (\<lambda>(first, end_row).
     (if \<exists>r \<in> set [first..<end_row]. idx flags r \<noteq> Some True then (False, flags)
      else (True, foldl (\<lambda>flags r. flags[r := False]) flags [first..<end_row])))"

definition split_step ::
  "DaeView option \<Rightarrow> Incidence \<Rightarrow> nat option list \<Rightarrow> StructuredScalarBlock list \<times> bool list option \<Rightarrow>
   StructuredMatchingFamily \<Rightarrow> (StructuredScalarBlock list \<times> bool list option) option" where
  "split_step view incidence m_eq = (\<lambda>(blocks, keep) family.
     (case row_range family of
        None \<Rightarrow> Some (blocks, keep)
      | Some rng \<Rightarrow>
          (case family_is_self_contained family incidence m_eq of
             None \<Rightarrow> Some (blocks, keep)
           | Some declarations \<Rightarrow>
               (let flags = (case keep of None \<Rightarrow> replicate (inc_n_eq incidence) True | Some flags \<Rightarrow> flags);
                    (claimed, flags) = claim_rows flags rng in
                if \<not> claimed then Some (blocks, Some flags)
                else do {
                  b \<leftarrow> structured_scalar_block view family incidence declarations;
                  Some (blocks @ [b], Some flags)
                }))))"

definition split_self_contained_families ::
  "DaeView option \<Rightarrow> Incidence \<Rightarrow> nat option list \<Rightarrow> (StructuredScalarBlock list \<times> bool list option) option" where
  "split_self_contained_families view incidence m_eq = do {
     (blocks, keep) \<leftarrow> try_fold (split_step view incidence m_eq) ([], None) (inc_structured_matching incidence);
     Some (if blocks = [] then ([], None) else (blocks, keep))
   }"

section \<open>Condensing the graph\<close>

text \<open>A removed node, marked \<open>usize::MAX\<close> in the source, has no local number.\<close>

definition number_nodes :: "bool list \<Rightarrow> nat option list \<times> nat list" where
  "number_nodes keep =
     foldl (\<lambda>(local_of_node, node_of_local) node.
         (if keep ! node
          then (local_of_node[node := Some (length node_of_local)], node_of_local @ [node])
          else (local_of_node, node_of_local)))
       (replicate (length keep) None, []) [0..<length keep]"

definition condense_nodes :: "nat list list \<Rightarrow> bool list \<Rightarrow> nat list list \<times> nat list" where
  "condense_nodes adj keep =
     (let (local_of_node, node_of_local) = number_nodes keep in
      (map (\<lambda>node. List.map_filter (slot local_of_node) (nbrs adj node)) node_of_local, node_of_local))"

section \<open>Blocks\<close>

text \<open>
  The hash map from a variable to its position in the component is an association list,
  the hash set of a row's positions the list of its elements.
\<close>

definition local_positions :: "nat option list \<Rightarrow> nat list \<Rightarrow> (nat \<times> nat) list option" where
  "local_positions m_eq scc =
     try_fold (\<lambda>var_local (position, eq). do {
       matched \<leftarrow> idx m_eq eq;
       Some (case matched of Some var \<Rightarrow> AList.update var position var_local | None \<Rightarrow> var_local)
     }) [] (enumerate 0 scc)"

definition local_rows :: "IncidenceRows \<Rightarrow> (nat \<times> nat) list \<Rightarrow> nat list \<Rightarrow> nat list list" where
  "local_rows rows var_local scc =
     map (\<lambda>eq. remdups (List.map_filter (map_of var_local) (row rows eq))) scc"

fun any_unmatched :: "nat option list \<Rightarrow> nat list \<Rightarrow> bool option" where
  "any_unmatched m_eq [] = Some False"
| "any_unmatched m_eq (eq # scc) = do {
     matched \<leftarrow> idx m_eq eq;
     (if matched = None then Some True else any_unmatched m_eq scc)
   }"

definition tear_scc :: "nat list \<Rightarrow> Incidence \<Rightarrow> nat option list \<Rightarrow> TearingResult option option" where
  "tear_scc scc incidence m_eq = do {
     unmatched_equation \<leftarrow> any_unmatched m_eq scc;
     (if unmatched_equation then Some None
      else do {
        var_local \<leftarrow> local_positions m_eq scc;
        (if length var_local \<noteq> length scc then Some None
         else tear_algebraic_loop (length scc) (local_rows (inc_eq_unknowns incidence) var_local scc))
      })
   }"

definition scc_to_block :: "Incidence \<Rightarrow> nat option list \<Rightarrow> nat list \<Rightarrow> BltBlock option" where
  "scc_to_block incidence m_eq scc =
     (case scc of
        [eq_idx] \<Rightarrow> do {
          eq_ref \<leftarrow> idx (inc_equation_refs incidence) eq_idx;
          matched \<leftarrow> idx m_eq eq_idx;
          unknown \<leftarrow> (case matched of
             Some var_idx \<Rightarrow> idx (inc_unknowns incidence) var_idx
           | None \<Rightarrow> Some (Unmatched eq_idx));
          Some (Scalar eq_ref unknown)
        }
      | _ \<Rightarrow> do {
          equations \<leftarrow> those (map (idx (inc_equation_refs incidence)) scc);
          matched \<leftarrow> those (map (idx m_eq) scc);
          unknowns \<leftarrow> those (map (idx (inc_unknowns incidence)) (List.map_filter id matched));
          tearing \<leftarrow> tear_scc scc incidence m_eq;
          Some (AlgebraicLoop equations unknowns tearing)
        })"

definition sccs_to_blocks :: "nat list list \<Rightarrow> Incidence \<Rightarrow> nat option list \<Rightarrow> BltBlock list option" where
  "sccs_to_blocks comps incidence m_eq = those (map (scc_to_block incidence m_eq) comps)"

definition build_blt_blocks ::
  "DaeView option \<Rightarrow> Incidence \<Rightarrow> nat option list \<Rightarrow> nat list list \<Rightarrow> BltBlock list option" where
  "build_blt_blocks view incidence m_eq adj = do {
     (structured, condensed) \<leftarrow> split_self_contained_families view incidence m_eq;
     (case condensed of
        None \<Rightarrow> do {
          comps \<leftarrow> tarjan_scc (inc_n_eq incidence) adj;
          sccs_to_blocks comps incidence m_eq
        }
      | Some keep \<Rightarrow>
          (let (sub_adj, node_of_local) = condense_nodes adj keep in do {
            comps \<leftarrow> tarjan_scc (length node_of_local) sub_adj;
            blocks \<leftarrow> those (map (\<lambda>scc. scc_to_block incidence m_eq (List.map_filter (idx node_of_local) scc)) comps);
            Some (map StructuredScalar structured @ blocks)
          }))
   }"

end
