(* ===== verification/Matching_Correct.thy ===== *)
theory Matching_Correct
  imports Matching
begin

text \<open>
  The matching is valid and maximum. \<open>matching_ok\<close> is the invariant of the two halves;
  a successful search flips an alternating path and a failed one leaves a closed set of
  equations: all their variables are matched into the set. Closed sets survive later
  augmentations, and one that holds every unmatched equation bounds every matching. A failed
  relocation of the preference pass leaves a blocking set in the same way, by which the pass
  skips no causal target that a matching of the same equations could still grant.
\<close>

declare slot_Some [simp del]

lemma slot_range: "slot xs i = Some x \<Longrightarrow> i < length xs"
  by (simp add: slot_Some)

section \<open>The visit order covers the row\<close>

lemma row_order_get_row: "row_order_get (row_order ctx e) c = Some v \<Longrightarrow> v \<in> set (row (eq_vars ctx) e)"
  by (auto simp: row_order_get_def row_order_def Let_def split: option.splits nat.splits if_splits)

lemma row_order_covers:
  assumes "\<And>c v. row_order_get (row_order ctx e) c = Some v \<Longrightarrow> v \<in> V"
  shows "set (row (eq_vars ctx) e) \<subseteq> V"
proof
  fix v assume "v \<in> set (row (eq_vars ctx) e)"
  then obtain i where i: "i < length (row (eq_vars ctx) e)" "row (eq_vars ctx) e ! i = v"
    by (auto simp: in_set_conv_nth)
  define pos where "pos = preferred_position (row_order ctx e)"
  show "v \<in> V"
  proof (cases pos)
    case None
    then have "row_order_get (row_order ctx e) i = Some v"
      using i by (simp add: row_order_get_def pos_def [symmetric]) (simp add: row_order_def Let_def)
    then show ?thesis by (rule assms)
  next
    case (Some p)
    consider "i < p" | "i = p" | "p < i" by linarith
    then have "\<exists>c. row_order_get (row_order ctx e) c = Some v"
    proof cases
      case 1
      then show ?thesis using i Some
        by (intro exI [of _ "Suc i"]) (simp add: row_order_get_def pos_def [symmetric], simp add: row_order_def Let_def)
    next
      case 2
      then show ?thesis using i Some
        by (intro exI [of _ 0]) (simp add: row_order_get_def pos_def [symmetric], simp add: row_order_def Let_def)
    next
      case 3
      then show ?thesis using i Some
        by (intro exI [of _ i]) (cases i; simp add: row_order_get_def pos_def [symmetric]; simp add: row_order_def Let_def)
    qed
    then show ?thesis using assms by blast
  qed
qed

text \<open>Past the end of the order there is nothing.\<close>

lemma row_order_get_None:
  assumes "row_order_get (row_order ctx e) c = None" "c \<le> d"
  shows "row_order_get (row_order ctx e) d = None"
proof -
  have "p < length (row (eq_vars ctx) e)" if "preferred_position (row_order ctx e) = Some p" for p
    using that binary_search_Some(1) by (auto simp: row_order_def Let_def res_simps)
  then show ?thesis
    using assms unfolding row_order_get_def
    by (auto simp: row_order_def Let_def split: option.splits nat.splits if_splits)
qed

section \<open>Valid matchings and alternating paths\<close>

definition matching_ok :: "IncidenceRows \<Rightarrow> nat \<Rightarrow> nat \<Rightarrow> Matching \<Rightarrow> bool" where
  "matching_ok rows n_eq n_var m \<longleftrightarrow> length (match_eq m) = n_eq \<and> length (match_var m) = n_var \<and>
     (\<forall>e v. slot (match_eq m) e = Some v \<longleftrightarrow> slot (match_var m) v = Some e) \<and>
     (\<forall>e v. slot (match_eq m) e = Some v \<longrightarrow> v \<in> set (row rows e))"

lemma matching_okD:
  assumes "matching_ok rows n_eq n_var m"
  shows "length (match_eq m) = n_eq" "length (match_var m) = n_var"
    "slot (match_eq m) e = Some v \<longleftrightarrow> slot (match_var m) v = Some e"
    "slot (match_eq m) e = Some v \<Longrightarrow> v \<in> set (row rows e)"
  using assms by (auto simp: matching_ok_def)

lemma slot_update_eq: "slot (xs[i := x]) j = (if i = j \<and> i < length xs then x else slot xs j)"
  by (auto simp: slot_def nth_list_update)

fun alt_path :: "IncidenceRows \<Rightarrow> Matching \<Rightarrow> AugmentFrame list \<Rightarrow> bool" where
  "alt_path rows m [] = False"
| "alt_path rows m [f] \<longleftrightarrow> frame_eq f < length (match_eq m) \<and> slot (match_eq m) (frame_eq f) = None"
| "alt_path rows m (f # g # fs) \<longleftrightarrow>
     (\<exists>v. chosen g = Some v \<and> v \<in> set (row rows (frame_eq g)) \<and> slot (match_var m) v = Some (frame_eq f)) \<and>
     alt_path rows m (g # fs)"

text \<open>Two matchings that differ only where the next assignment writes commit alike.\<close>

lemma commit_frame_eq:
  "chosen f = Some v \<Longrightarrow> frame_eq f < length (match_eq m) \<Longrightarrow> v < length (match_var m) \<Longrightarrow>
   commit_augment (f # fs) m =
     commit_augment fs \<lparr>match_eq = (match_eq m)[frame_eq f := Some v],
       match_var = (match_var m)[v := Some (frame_eq f)]\<rparr>"
  by (simp add: commit_augment_def commit_frame_def)

lemma alt_path_eq_range:
  "matching_ok rows n_eq n_var m \<Longrightarrow> alt_path rows m (f # fs) \<Longrightarrow> frame_eq f < n_eq"
proof (cases fs)
  case (Cons g gs)
  assume ok: "matching_ok rows n_eq n_var m" and "alt_path rows m (f # fs)"
  then obtain v where "slot (match_var m) v = Some (frame_eq f)" using Cons by auto
  then have "slot (match_eq m) (frame_eq f) = Some v" using matching_okD(3) [OF ok] by simp
  then show ?thesis using matching_okD(1) [OF ok] by (auto dest: slot_range)
qed (simp add: matching_ok_def)

lemma alt_path_update:
  assumes "alt_path rows m fs" "length (match_eq m') = length (match_eq m)"
    and "\<And>v. v \<in> set (List.map_filter chosen (tl fs)) \<Longrightarrow> slot (match_var m') v = slot (match_var m) v"
    and "slot (match_eq m') (frame_eq (last fs)) = slot (match_eq m) (frame_eq (last fs))"
  shows "alt_path rows m' fs"
  using assms
proof (induction rows m fs rule: alt_path.induct)
  case (3 rows m f g fs)
  then obtain v where v: "chosen g = Some v" "v \<in> set (row rows (frame_eq g))"
    "slot (match_var m) v = Some (frame_eq f)" by auto
  have "slot (match_var m') v = slot (match_var m) v"
    using 3(4) [of v] v(1) by (simp add: List.map_filter_simps)
  moreover have "alt_path rows m' (g # fs)"
  proof (rule 3(1))
    show "alt_path rows m (g # fs)" using 3(2) by simp
    show "slot (match_var m') x = slot (match_var m) x" if "x \<in> set (List.map_filter chosen (tl (g # fs)))" for x
      using that 3(4) [of x] by (simp add: List.map_filter_simps split: option.splits)
    show "length (match_eq m') = length (match_eq m)" by (rule 3(3))
    show "slot (match_eq m') (frame_eq (last (g # fs))) = slot (match_eq m) (frame_eq (last (g # fs)))"
      using 3(5) by simp
  qed
  ultimately show ?case using v by auto
qed simp_all

lemma alt_path_last: "alt_path rows m fs \<Longrightarrow> slot (match_eq m) (frame_eq (last fs)) = None"
  by (induction rows m fs rule: alt_path.induct) auto

lemma alt_path_chosen:
  "alt_path rows m (f # fs) \<Longrightarrow> x \<in> set (List.map_filter chosen fs) \<Longrightarrow> \<exists>e. slot (match_var m) x = Some e"
proof (induction fs arbitrary: f)
  case (Cons g gs)
  then show ?case
    by (cases "chosen g = Some x") (auto simp: List.map_filter_simps split: option.splits)
qed (simp add: List.map_filter_simps)

lemma matching_ok_claim:
  assumes ok: "matching_ok rows n_eq n_var m" and e: "e < n_eq" "slot (match_eq m) e = None"
    and v: "v < n_var" "v \<in> set (row rows e)" "slot (match_var m) v = None"
  shows "matching_ok rows n_eq n_var
    \<lparr>match_eq = (match_eq m)[e := Some v], match_var = (match_var m)[v := Some e]\<rparr>"
proof -
  have "slot (match_eq m) a \<noteq> Some v" "slot (match_var m) a \<noteq> Some e" for a
    using matching_okD(3) [OF ok, of a v] matching_okD(3) [OF ok, of e a] e(2) v(3) by auto
  then show ?thesis
    using ok e v unfolding matching_ok_def by (auto simp: slot_update_eq)
qed

text \<open>Moving an equation to a free variable frees the one it had.\<close>

lemma matching_ok_move:
  assumes ok: "matching_ok rows n_eq n_var m" and e: "slot (match_eq m) e = Some w"
    and v: "v < n_var" "v \<in> set (row rows e)" "slot (match_var m) v = None"
  shows "matching_ok rows n_eq n_var
    \<lparr>match_eq = (match_eq m)[e := Some v], match_var = (match_var m)[v := Some e, w := None]\<rparr>"
proof -
  have w: "slot (match_var m) w = Some e" using e matching_okD(3) [OF ok] by simp
  then have vw: "v \<noteq> w" "e < n_eq" "w < n_var"
    using v(3) e matching_okD(1,2) [OF ok] by (auto dest: slot_range)
  have "slot (match_eq m) a \<noteq> Some v" for a using matching_okD(3) [OF ok] v(3) by auto
  moreover have "slot (match_eq m) a = Some w \<longleftrightarrow> a = e" for a using matching_okD(3) [OF ok, of a w] w by auto
  moreover have "slot (match_var m) a = Some e \<longleftrightarrow> a = w" for a using matching_okD(3) [OF ok, of e a] e by auto
  ultimately show ?thesis
    using ok v vw unfolding matching_ok_def by (auto simp: slot_update_eq) (metis option.inject)
qed

lemma commit_augment_ok:
  assumes "matching_ok rows n_eq n_var m" "alt_path rows m (f # fs)"
    and "chosen f = Some v" "v < n_var" "v \<in> set (row rows (frame_eq f))" "slot (match_var m) v = None"
    and "distinct (List.map_filter chosen fs)"
    and "\<And>e x. x \<in> set (row rows e) \<Longrightarrow> x < n_var"
  shows "\<exists>m'. commit_augment (f # fs) m = Some m' \<and> matching_ok rows n_eq n_var m' \<and>
    dom (slot (match_eq m')) = insert (frame_eq (last (f # fs))) (dom (slot (match_eq m))) \<and>
    (\<forall>e. e \<notin> frame_eq ` set (f # fs) \<longrightarrow> slot (match_eq m') e = slot (match_eq m) e)"
  using assms(1-7)
proof (induction fs arbitrary: f v m)
  case Nil
  note ok = Nil(1)
  have e: "frame_eq f < n_eq" "slot (match_eq m) (frame_eq f) = None"
    using Nil(2) matching_okD(1) [OF ok] by auto
  have "commit_augment [f] m = Some \<lparr>match_eq = (match_eq m)[frame_eq f := Some v],
      match_var = (match_var m)[v := Some (frame_eq f)]\<rparr>"
    using commit_frame_eq [OF Nil(3), of m "[]"] e Nil(4) matching_okD(1,2) [OF ok]
    by (simp add: commit_augment_def)
  with matching_ok_claim [OF ok e Nil(4,5,6)] e matching_okD(1) [OF ok] show ?case
    by (auto simp: slot_update_eq split: if_splits)
next
  case (Cons g gs)
  note ok = Cons.prems(1)
  obtain w where w: "chosen g = Some w" "w \<in> set (row rows (frame_eq g))" "slot (match_var m) w = Some (frame_eq f)"
    and path: "alt_path rows m (g # gs)" using Cons.prems(2) by auto
  define e where "e = frame_eq f"
  define m1 where "m1 = \<lparr>match_eq = (match_eq m)[e := Some v], match_var = (match_var m)[v := Some e, w := None]\<rparr>"
  have ew: "slot (match_eq m) e = Some w" using w(3) matching_okD(3) [OF ok] by (simp add: e_def)
  have en: "e < n_eq" "w < n_var" using ew w(3) matching_okD(1,2) [OF ok] by (auto dest: slot_range)
  have len: "length (match_eq m) = n_eq" "length (match_var m) = n_var" using matching_okD(1,2) [OF ok] .
  have vw: "v \<noteq> w" using Cons.prems(6) w(3) by auto
  have ok1: "matching_ok rows n_eq n_var m1"
    unfolding m1_def using matching_ok_move [OF ok ew Cons.prems(4)] Cons.prems(5,6) by (simp add: e_def)
  have gn: "frame_eq g < n_eq" using alt_path_eq_range [OF ok path] .
  have last: "frame_eq (last (g # gs)) \<noteq> e" using alt_path_last [OF path] ew by auto
  have path1: "alt_path rows m1 (g # gs)"
  proof (rule alt_path_update [OF path])
    fix x assume "x \<in> set (List.map_filter chosen (tl (g # gs)))"
    then have "x \<in> set (List.map_filter chosen gs)" by simp
    then have "x \<noteq> w" "x \<noteq> v"
      using Cons.prems(6,7) w(1) alt_path_chosen [OF path, of x] by (auto simp: List.map_filter_simps)
    then show "slot (match_var m1) x = slot (match_var m) x" by (auto simp: m1_def slot_update_eq)
  qed (use last in \<open>auto simp: m1_def slot_update_eq\<close>)
  have "commit_augment (f # g # gs) m = commit_augment (g # gs) m1"
    using commit_frame_eq [OF Cons.prems(3), of m "g # gs"] commit_frame_eq [OF w(1), of _ gs]
      en gn len Cons.prems(4) by (simp add: m1_def e_def)
  moreover have "w \<notin> dom (slot (match_var m1))" using en len by (auto simp: m1_def slot_update_eq)
  then have "slot (match_var m1) w = None" by blast
  then obtain m' where m': "commit_augment (g # gs) m1 = Some m'" "matching_ok rows n_eq n_var m'"
    "dom (slot (match_eq m')) = insert (frame_eq (last (g # gs))) (dom (slot (match_eq m1)))"
    "\<forall>e. e \<notin> frame_eq ` set (g # gs) \<longrightarrow> slot (match_eq m') e = slot (match_eq m1) e"
    using Cons.IH [OF ok1 path1 w(1) en(2) w(2)] Cons.prems(7) w(1) by (auto simp: List.map_filter_simps)
  moreover have "dom (slot (match_eq m1)) = dom (slot (match_eq m))"
    using ew en len by (auto simp: m1_def slot_update_eq split: if_splits)
  moreover have "slot (match_eq m1) a = slot (match_eq m) a" if "a \<noteq> e" for a
    using that by (simp add: m1_def slot_update_eq)
  ultimately show ?case by (auto simp: e_def)
qed


section \<open>The augmenting search\<close>

definition closed :: "IncidenceRows \<Rightarrow> nat set \<Rightarrow> Matching \<Rightarrow> bool" where
  "closed rows C m \<longleftrightarrow> (\<forall>e \<in> C. \<forall>v \<in> set (row rows e). \<exists>e' \<in> C. slot (match_var m) v = Some e')"

definition marked :: "AugmentScratch \<Rightarrow> nat set" where
  "marked s = {v. v < length (visited_epoch s) \<and> visited_epoch s ! v = epoch s}"

definition scratch_ok :: "nat \<Rightarrow> AugmentScratch \<Rightarrow> bool" where
  "scratch_ok n_var s \<longleftrightarrow> length (visited_epoch s) = n_var \<and> (\<forall>t \<in> set (visited_epoch s). t \<le> epoch s)"

definition seen :: "MatchContext \<Rightarrow> nat \<Rightarrow> nat \<Rightarrow> nat set \<Rightarrow> bool" where
  "seen ctx e c V \<longleftrightarrow> (\<forall>d < c. \<forall>x. row_order_get (row_order ctx e) d = Some x \<longrightarrow> x \<in> V)"

definition rows_bounded :: "IncidenceRows \<Rightarrow> nat \<Rightarrow> bool" where
  "rows_bounded rows n_var \<longleftrightarrow> (\<forall>e. \<forall>v \<in> set (row rows e). v < n_var)"

lemma seen_Suc: "seen ctx e c V \<Longrightarrow> row_order_get (row_order ctx e) c = Some v \<Longrightarrow> v \<in> V \<Longrightarrow> seen ctx e (c + 1) V"
  by (auto simp: seen_def less_Suc_eq)

lemma seen_mono: "seen ctx e c V \<Longrightarrow> V \<subseteq> W \<Longrightarrow> seen ctx e c W"
  by (auto simp: seen_def)

lemma seen_all:
  assumes "seen ctx e c V" "row_order_get (row_order ctx e) c = None"
  shows "set (row (eq_vars ctx) e) \<subseteq> V"
proof (rule row_order_covers)
  fix d v assume d: "row_order_get (row_order ctx e) d = Some v"
  then have "d < c" using row_order_get_None [OF assms(2), of d] by (cases "d < c") auto
  with assms(1) d show "v \<in> V" by (auto simp: seen_def)
qed

lemma mark_ok:
  assumes "scratch_ok n_var s" "v < n_var"
  shows "scratch_ok n_var (s\<lparr>visited_epoch := (visited_epoch s)[v := epoch s]\<rparr>)"
    "marked (s\<lparr>visited_epoch := (visited_epoch s)[v := epoch s]\<rparr>) = insert v (marked s)"
  using assms set_update_subset_insert [of "visited_epoch s" v "epoch s"]
  by (auto simp: scratch_ok_def marked_def nth_list_update)

lemma augment_scan_ok:
  assumes ok: "matching_ok rows n_eq n_var m" and ctx: "eq_vars ctx = rows" and b: "rows_bounded rows n_var"
    and "scratch_ok n_var s" "seen ctx e c (marked s)"
  shows "\<exists>step c' s'. augment_scan (row_order ctx e) c m s = Some (step, c', s') \<and> scratch_ok n_var s' \<and>
    epoch s' = epoch s \<and>
    (case step of
       Exhausted \<Rightarrow> s' = s \<and> set (row rows e) \<subseteq> marked s
     | Claim v \<Rightarrow> v \<in> set (row rows e) \<and> slot (match_var m) v = None
     | Descend v own \<Rightarrow> v \<in> set (row rows e) \<and> slot (match_var m) v = Some own \<and> v \<notin> marked s \<and>
         marked s' = insert v (marked s) \<and> seen ctx e c' (marked s'))"
  using assms(5)
proof (induction "Suc (length (order_row (row_order ctx e))) - c" arbitrary: c rule: less_induct)
  case less
  note eq = augment_scan.simps [of "row_order ctx e" c]
  show ?case
  proof (cases "row_order_get (row_order ctx e) c")
    case None
    with seen_all [OF less(2) None] assms(4) ctx show ?thesis by (simp add: eq)
  next
    case (Some v)
    have row: "v \<in> set (row rows e)" using row_order_get_row [OF Some] ctx by simp
    then have v: "v < n_var" using b by (auto simp: rows_bounded_def)
    have len: "length (visited_epoch s) = n_var" "length (match_var m) = n_var"
      using assms(4) matching_okD(2) [OF ok] by (auto simp: scratch_ok_def)
    show ?thesis
    proof (cases "visited_epoch s ! v = epoch s")
      case True
      then have "seen ctx e (c + 1) (marked s)"
        using seen_Suc [OF less(2) Some] v len by (simp add: marked_def)
      moreover have "Suc (length (order_row (row_order ctx e))) - (c + 1) <
          Suc (length (order_row (row_order ctx e))) - c"
        using row_order_get_bound [OF Some] by simp
      moreover have "augment_scan (row_order ctx e) c m s = augment_scan (row_order ctx e) (c + 1) m s"
        using Some True v len by (simp add: eq)
      ultimately show ?thesis using less(1) [of "c + 1"] by presburger
    next
      case False
      let ?s = "s\<lparr>visited_epoch := (visited_epoch s)[v := epoch s]\<rparr>"
      have nm: "v \<notin> marked s" using False by (simp add: marked_def)
      have "seen ctx e (c + 1) (marked ?s)"
        unfolding mark_ok(2) [OF assms(4) v]
        using seen_Suc [OF seen_mono [OF less(2)] Some] by blast
      with False Some v len row nm mark_ok [OF assms(4) v] show ?thesis
        by (cases "match_var m ! v") (simp_all add: eq Let_def slot_def)
    qed
  qed
qed

section \<open>A search succeeds along an alternating path or leaves a closed set\<close>

lemma alt_path_avoids:
  assumes C: "closed rows C m"
  shows "alt_path rows m (f # fs) \<Longrightarrow> frame_eq f \<notin> C \<Longrightarrow> frame_eq ` set (f # fs) \<inter> C = {}"
proof (induction fs arbitrary: f)
  case (Cons g gs)
  then obtain w where w: "w \<in> set (row rows (frame_eq g))" "slot (match_var m) w = Some (frame_eq f)" by auto
  have "frame_eq g \<notin> C"
  proof
    assume "frame_eq g \<in> C"
    with C w obtain e' where "e' \<in> C" "slot (match_var m) w = Some e'" unfolding closed_def by blast
    with w(2) Cons.prems(2) show False by simp
  qed
  with Cons show ?case by auto
qed simp

lemma closed_transfer:
  assumes "matching_ok rows n_eq n_var m" "matching_ok rows n_eq n_var m'" "closed rows C m"
    and "\<And>e. e \<in> C \<Longrightarrow> slot (match_eq m') e = slot (match_eq m) e"
  shows "closed rows C m'"
  unfolding closed_def
proof (intro ballI)
  fix e v assume "e \<in> C" "v \<in> set (row rows e)"
  then obtain e' where e': "e' \<in> C" "slot (match_var m) v = Some e'"
    using assms(3) by (auto simp: closed_def)
  then have "slot (match_eq m') e' = Some v"
    using assms(4) matching_okD(3) [OF assms(1)] by simp
  then show "\<exists>e' \<in> C. slot (match_var m') v = Some e'"
    using e'(1) matching_okD(3) [OF assms(2)] by blast
qed

definition search_inv ::
  "MatchContext \<Rightarrow> Matching \<Rightarrow> nat \<Rightarrow> nat set \<Rightarrow> AugmentFrame list \<Rightarrow> AugmentScratch \<Rightarrow> bool" where
  "search_inv ctx m start D fs s \<longleftrightarrow>
     (fs \<noteq> [] \<longrightarrow> alt_path (eq_vars ctx) m fs \<and> frame_eq (last fs) = start) \<and>
     (\<forall>f \<in> set fs. seen ctx (frame_eq f) (frame_cursor f) (marked s)) \<and>
     (\<forall>v \<in> marked s. \<exists>e \<in> D \<union> frame_eq ` set fs. slot (match_var m) v = Some e) \<and>
     (\<forall>e \<in> D. set (row (eq_vars ctx) e) \<subseteq> marked s) \<and>
     distinct (List.map_filter chosen (tl fs)) \<and> set (List.map_filter chosen (tl fs)) \<subseteq> marked s \<and>
     start \<in> D \<union> frame_eq ` set fs"

lemma search_inv_pop:
  assumes inv: "search_inv ctx m start D (f # fs) s" and row: "set (row (eq_vars ctx) (frame_eq f)) \<subseteq> marked s"
  shows "search_inv ctx m start (insert (frame_eq f) D) fs s"
proof -
  have "alt_path (eq_vars ctx) m fs \<and> frame_eq (last fs) = start" if "fs \<noteq> []"
    using inv that by (cases fs) (auto simp: search_inv_def)
  moreover have "set (List.map_filter chosen (tl fs)) \<subseteq> set (List.map_filter chosen fs)"
    "distinct (List.map_filter chosen fs) \<longrightarrow> distinct (List.map_filter chosen (tl fs))"
    by (cases fs; auto simp: List.map_filter_simps split: option.splits)+
  ultimately show ?thesis using inv row by (auto simp: search_inv_def)
qed

lemma search_inv_push:
  assumes inv: "search_inv ctx m start D (f # fs) s" and v: "v \<in> set (row (eq_vars ctx) (frame_eq f))"
    "slot (match_var m) v = Some own" "v \<notin> marked s"
    and s': "marked s' = insert v (marked s)" "seen ctx (frame_eq f) c (marked s')"
  shows "search_inv ctx m start D (new_frame own # f\<lparr>frame_cursor := c, chosen := Some v\<rparr> # fs) s'"
proof -
  define g where "g = f\<lparr>frame_cursor := c, chosen := Some v\<rparr>"
  have g: "frame_eq g = frame_eq f" "frame_cursor g = c" "chosen g = Some v" by (simp_all add: g_def)
  have path: "alt_path (eq_vars ctx) m (f # fs)" "frame_eq (last (f # fs)) = start"
    using inv by (auto simp: search_inv_def)
  have "alt_path (eq_vars ctx) m (g # fs)" using path(1) g by (cases fs) auto
  then have "alt_path (eq_vars ctx) m (new_frame own # g # fs)" using v g by (simp add: new_frame_def)
  moreover have "frame_eq (last (new_frame own # g # fs)) = start" using path(2) g by (cases fs) auto
  moreover have "seen ctx (frame_eq x) (frame_cursor x) (marked s')" if "x \<in> set (new_frame own # g # fs)" for x
    using that inv s' g by (auto simp: search_inv_def new_frame_def seen_def)
  moreover have "\<exists>e \<in> D \<union> frame_eq ` set (new_frame own # g # fs). slot (match_var m) x = Some e" if "x \<in> marked s'" for x
    using that inv s' g v(2) by (fastforce simp: search_inv_def new_frame_def)
  ultimately show ?thesis
    using inv v(3) s'(1) g unfolding g_def [symmetric]
    by (auto simp: search_inv_def List.map_filter_simps)
qed

lemma run_augment_search_ok:
  assumes "matching_ok rows n_eq n_var m" and "eq_vars ctx = rows" and "rows_bounded rows n_var"
    and "scratch_ok n_var s" "search_inv ctx m start D fs s"
  shows "\<exists>b m' s'. run_augment_search fs m ctx s = Some (b, m', s') \<and> scratch_ok n_var s' \<and>
    matching_ok rows n_eq n_var m' \<and>
    (b \<longrightarrow> dom (slot (match_eq m')) = insert start (dom (slot (match_eq m))) \<and>
      (\<forall>C. closed rows C m \<longrightarrow> closed rows C m')) \<and>
    (\<not> b \<longrightarrow> m' = m \<and> (\<exists>D. start \<in> D \<and> closed rows D m))"
  using assms
proof (induction fs m ctx s arbitrary: D rule: run_augment_search.induct)
  case (1 fs m ctx s)
  note inv = 1(7)
  show ?case
  proof (cases fs)
    case Nil
    with inv 1(4) have "start \<in> D" "closed rows D m" by (auto simp: search_inv_def closed_def)
    with Nil 1(3,6) show ?thesis by (auto simp: run_augment_search.simps [of "[]" m ctx s])
  next
    case (Cons f gs)
    have sn: "seen ctx (frame_eq f) (frame_cursor f) (marked s)" using inv Cons by (auto simp: search_inv_def)
    obtain step c s' where scan: "augment_scan (row_order ctx (frame_eq f)) (frame_cursor f) m s = Some (step, c, s')"
      and s': "scratch_ok n_var s'" and st: "case step of
       Exhausted \<Rightarrow> s' = s \<and> set (row rows (frame_eq f)) \<subseteq> marked s
     | Claim v \<Rightarrow> v \<in> set (row rows (frame_eq f)) \<and> slot (match_var m) v = None
     | Descend v own \<Rightarrow> v \<in> set (row rows (frame_eq f)) \<and> slot (match_var m) v = Some own \<and> v \<notin> marked s \<and>
         marked s' = insert v (marked s) \<and> seen ctx (frame_eq f) c (marked s')"
      using augment_scan_ok [OF 1(3,4,5,6) sn] by blast
    note next_step = scan [folded next_augment_step_def]
    show ?thesis
    proof (cases step)
      case (Claim v)
      with st have v: "v \<in> set (row rows (frame_eq f))" "slot (match_var m) v = None" by auto
      define g where "g = f\<lparr>frame_cursor := c, chosen := Some v\<rparr>"
      have g: "frame_eq g = frame_eq f" "chosen g = Some v" by (simp_all add: g_def)
      have "alt_path rows m (f # gs)" "frame_eq (last (f # gs)) = start" "distinct (List.map_filter chosen gs)"
        using inv Cons 1(4) by (auto simp: search_inv_def)
      then have path: "alt_path rows m (g # gs)" "frame_eq (last (g # gs)) = start"
        "distinct (List.map_filter chosen gs)" using g by (cases gs; auto)+
      obtain m' where m': "commit_augment (g # gs) m = Some m'" "matching_ok rows n_eq n_var m'"
        "dom (slot (match_eq m')) = insert start (dom (slot (match_eq m)))"
        "\<forall>e. e \<notin> frame_eq ` set (g # gs) \<longrightarrow> slot (match_eq m') e = slot (match_eq m) e"
        using commit_augment_ok [OF 1(3) path(1) g(2)] v g path 1(5) unfolding rows_bounded_def by auto
      have "closed rows C m'" if C: "closed rows C m" for C
      proof (rule closed_transfer [OF 1(3) m'(2) C])
        have "frame_eq g \<notin> C" using C v unfolding closed_def g(1) by fastforce
        then have "frame_eq ` set (g # gs) \<inter> C = {}" by (rule alt_path_avoids [OF C path(1)])
        then show "slot (match_eq m') e = slot (match_eq m) e" if "e \<in> C" for e using m'(4) that by blast
      qed
      moreover have "run_augment_search fs m ctx s = Some (True, m', s')"
        using m'(1) next_step Claim
        by (simp add: Cons run_augment_search.simps [of "f # gs" m ctx s] g_def)
      ultimately show ?thesis using m'(2,3) s' by (intro exI [of _ True] exI [of _ m'] exI [of _ s']) simp
    next
      case (Descend v own)
      have "search_inv ctx m start D (new_frame own # f\<lparr>frame_cursor := c, chosen := Some v\<rparr> # gs) s'"
        using st inv Cons Descend 1(4) by (intro search_inv_push) auto
      note ih = 1(1) [OF Cons next_step refl refl Descend 1(3,4,5) s' this]
      have "run_augment_search fs m ctx s =
          run_augment_search (new_frame own # f\<lparr>frame_cursor := c, chosen := Some v\<rparr> # gs) m ctx s'"
        using next_step Descend by (simp add: Cons run_augment_search.simps [of "f # gs" m ctx s])
      with ih show ?thesis by (simp only:)
    next
      case Exhausted
      have "search_inv ctx m start (insert (frame_eq f) D) gs s'"
        using st inv Cons Exhausted 1(4) by (auto intro: search_inv_pop)
      note ih = 1(2) [OF Cons next_step refl refl Exhausted 1(3,4,5) s' this]
      have "run_augment_search fs m ctx s = run_augment_search gs m ctx s'"
        using next_step Exhausted by (simp add: Cons run_augment_search.simps [of "f # gs" m ctx s])
      with ih show ?thesis by (simp only:)
    qed
  qed
qed


section \<open>The loop over the equations\<close>

lemma begin_search_ok:
  "scratch_ok n_var s \<Longrightarrow> scratch_ok n_var (begin_search s) \<and> marked (begin_search s) = {}"
  by (auto simp: scratch_ok_def begin_search_def next_visit_epoch_def marked_def le_Suc_eq)
    (metis Suc_n_not_le_n nth_mem)

lemma augment_ok:
  assumes ok: "matching_ok rows n_eq n_var m" and ctx: "eq_vars ctx = rows" and b: "rows_bounded rows n_var"
    and s: "scratch_ok n_var s" and e: "e < n_eq" "slot (match_eq m) e = None"
  shows "\<exists>m' s'. kuhn_step ctx (m, s) e = Some (m', s') \<and> scratch_ok n_var s' \<and> matching_ok rows n_eq n_var m' \<and>
    dom (slot (match_eq m)) \<subseteq> dom (slot (match_eq m')) \<and> dom (slot (match_eq m')) \<subseteq> insert e (dom (slot (match_eq m))) \<and>
    (\<forall>C. closed rows C m \<longrightarrow> closed rows C m') \<and>
    (slot (match_eq m') e = None \<longrightarrow> (\<exists>D. e \<in> D \<and> closed rows D m'))"
proof -
  have "search_inv ctx m e {} [new_frame e] (begin_search s)"
    using begin_search_ok [OF s] e matching_okD(1) [OF ok]
    by (auto simp: search_inv_def new_frame_def seen_def List.map_filter_simps)
  from run_augment_search_ok [OF ok ctx b _ this] begin_search_ok [OF s]
  obtain f m' s' where r: "run_augment_search [new_frame e] m ctx (begin_search s) = Some (f, m', s')"
    "scratch_ok n_var s'" "matching_ok rows n_eq n_var m'"
    "f \<longrightarrow> dom (slot (match_eq m')) = insert e (dom (slot (match_eq m))) \<and>
      (\<forall>C. closed rows C m \<longrightarrow> closed rows C m')"
    "\<not> f \<longrightarrow> m' = m \<and> (\<exists>D. e \<in> D \<and> closed rows D m)" by blast
  have "kuhn_step ctx (m, s) e = Some (m', s')" using r(1) by (simp add: kuhn_step_def augment_def)
  with r show ?thesis by (cases f) auto
qed

lemma closed_Un: "closed rows C m \<Longrightarrow> closed rows D m \<Longrightarrow> closed rows (C \<union> D) m"
  unfolding closed_def by blast

lemma kuhn_loop_ok:
  assumes ctx: "eq_vars ctx = rows" and b: "rows_bounded rows n_var"
    and "matching_ok rows n_eq n_var m" "scratch_ok n_var s"
    and "\<forall>e \<in> set es. e < n_eq \<and> slot (match_eq m) e = None" "distinct es" "closed rows C m"
  shows "\<exists>m' s' C'. try_fold (kuhn_step ctx) (m, s) es = Some (m', s') \<and> matching_ok rows n_eq n_var m' \<and>
    dom (slot (match_eq m)) \<subseteq> dom (slot (match_eq m')) \<and> C \<subseteq> C' \<and> closed rows C' m' \<and>
    (\<forall>e \<in> set es. slot (match_eq m') e = None \<longrightarrow> e \<in> C')"
  using assms(3-)
proof (induction es arbitrary: m s C)
  case Nil
  then show ?case by auto
next
  case (Cons e es)
  obtain m1 s1 where 1: "kuhn_step ctx (m, s) e = Some (m1, s1)" "scratch_ok n_var s1" "matching_ok rows n_eq n_var m1"
    "dom (slot (match_eq m)) \<subseteq> dom (slot (match_eq m1))"
    "dom (slot (match_eq m1)) \<subseteq> insert e (dom (slot (match_eq m)))"
    "closed rows C m1" "slot (match_eq m1) e = None \<longrightarrow> (\<exists>D. e \<in> D \<and> closed rows D m1)"
  proof -
    have "e < n_eq" "slot (match_eq m) e = None" using Cons.prems(3) by auto
    from augment_ok [OF Cons.prems(1) ctx b Cons.prems(2) this] obtain m' s' where
      "kuhn_step ctx (m, s) e = Some (m', s')" "scratch_ok n_var s'" "matching_ok rows n_eq n_var m'"
      "dom (slot (match_eq m)) \<subseteq> dom (slot (match_eq m'))"
      "dom (slot (match_eq m')) \<subseteq> insert e (dom (slot (match_eq m)))"
      "\<forall>C. closed rows C m \<longrightarrow> closed rows C m'"
      "slot (match_eq m') e = None \<longrightarrow> (\<exists>D. e \<in> D \<and> closed rows D m')" by (elim exE conjE)
    with Cons.prems(5) show ?thesis by (intro that [of m' s']) blast+
  qed
  obtain C1 where C1: "C \<subseteq> C1" "closed rows C1 m1" "slot (match_eq m1) e = None \<longrightarrow> e \<in> C1"
  proof (cases "slot (match_eq m1) e = None")
    case True
    with 1(7) obtain D where "e \<in> D" "closed rows D m1" by blast
    with 1(6) closed_Un that [of "C \<union> D"] show ?thesis by blast
  next
    case False
    with 1(6) that [of C] show ?thesis by blast
  qed
  have es: "\<forall>x \<in> set es. x < n_eq \<and> slot (match_eq m1) x = None"
    using Cons.prems(3,4) 1(5) by (auto simp: dom_def)
  obtain m' s' C' where ih: "try_fold (kuhn_step ctx) (m1, s1) es = Some (m', s')" "matching_ok rows n_eq n_var m'"
    "dom (slot (match_eq m1)) \<subseteq> dom (slot (match_eq m'))" "C1 \<subseteq> C'" "closed rows C' m'"
    "\<forall>e \<in> set es. slot (match_eq m') e = None \<longrightarrow> e \<in> C'"
    using Cons.IH [OF 1(3,2) es _ C1(2)] Cons.prems(4) by auto
  have "slot (match_eq m') e = None \<longrightarrow> e \<in> C'" using ih(3,4) C1(3) by (auto simp: dom_def)
  moreover have "dom (slot (match_eq m)) \<subseteq> dom (slot (match_eq m'))" using 1(4) ih(3) by (rule subset_trans)
  moreover have "C \<subseteq> C'" using C1(1) ih(4) by (rule subset_trans)
  ultimately show ?case using ih(1,2,5,6) 1(1) by (intro exI [of _ m'] exI [of _ s'] exI [of _ C']) simp
qed

section \<open>A closed set that holds the unmatched equations bounds every matching\<close>

definition is_matching :: "IncidenceRows \<Rightarrow> nat \<Rightarrow> (nat \<Rightarrow> nat option) \<Rightarrow> bool" where
  "is_matching rows n_eq f \<longleftrightarrow> (\<forall>e v. f e = Some v \<longrightarrow> e < n_eq \<and> v \<in> set (row rows e)) \<and>
     inj_on f (dom f)"

lemma closed_maximum:
  assumes ok: "matching_ok rows n_eq n_var m" and C: "closed rows C m"
    and U: "\<And>e. e < n_eq \<Longrightarrow> slot (match_eq m) e = None \<Longrightarrow> e \<in> C" and f: "is_matching rows n_eq f"
  shows "card (dom f) \<le> card (dom (slot (match_eq m)))"
proof -
  define g where "g = slot (match_eq m)"
  have fin: "finite (dom g)" unfolding g_def by (rule finite_subset [of _ "{..<length (match_eq m)}"]) (auto dest: slot_range)
  have finf: "finite (dom f)" using f by (intro finite_subset [of "dom f" "{..<n_eq}"]) (auto simp: is_matching_def)
  define N where "N = {v. \<exists>e \<in> C. v \<in> set (row rows e)}"
  have "f ` (dom f \<inter> C) \<subseteq> g ` (dom g \<inter> C)"
  proof
    fix y assume "y \<in> f ` (dom f \<inter> C)"
    then obtain e v where "e \<in> C" "f e = Some v" "y = Some v" by auto
    then have "v \<in> set (row rows e)" using f by (auto simp: is_matching_def)
    with C \<open>e \<in> C\<close> obtain e' where "e' \<in> C" "slot (match_var m) v = Some e'" by (auto simp: closed_def)
    then have "g e' = Some v" using matching_okD(3) [OF ok] by (simp add: g_def)
    with \<open>e' \<in> C\<close> \<open>y = Some v\<close> show "y \<in> g ` (dom g \<inter> C)" by (auto intro: image_eqI [of _ _ e'])
  qed
  then have "card (f ` (dom f \<inter> C)) \<le> card (g ` (dom g \<inter> C))" using fin by (intro card_mono) auto
  moreover have "card (f ` (dom f \<inter> C)) = card (dom f \<inter> C)"
    using f by (intro card_image) (auto simp: is_matching_def intro: inj_on_subset)
  moreover have "card (g ` (dom g \<inter> C)) \<le> card (dom g \<inter> C)" using fin by (intro card_image_le) auto
  ultimately have 1: "card (dom f \<inter> C) \<le> card (dom g \<inter> C)" by linarith
  have "dom f - C \<subseteq> dom g - C" using f U by (auto simp: is_matching_def g_def)
  then have 2: "card (dom f - C) \<le> card (dom g - C)" using fin by (intro card_mono) auto
  have "card A = card (A \<inter> C) + card (A - C)" if "finite A" for A :: "nat set"
    using that by (rule card_Int_Diff)
  from this [OF fin] this [OF finf] 1 2 show ?thesis by (simp add: g_def)
qed


section \<open>Seeding\<close>

definition grows :: "IncidenceRows \<Rightarrow> nat \<Rightarrow> nat \<Rightarrow> Matching \<Rightarrow> Matching \<Rightarrow> bool" where
  "grows rows n_eq n_var m m' \<longleftrightarrow> matching_ok rows n_eq n_var m' \<and>
     dom (slot (match_eq m)) \<subseteq> dom (slot (match_eq m'))"

lemma grows_trans: "grows rows n_eq n_var m m1 \<Longrightarrow> grows rows n_eq n_var m1 m2 \<Longrightarrow> grows rows n_eq n_var m m2"
  unfolding grows_def by blast

lemma seed_candidate_ok:
  assumes ok: "matching_ok rows n_eq n_var m" and s: "seed_structured_candidate rows cand m = (b, m')"
  shows "grows rows n_eq n_var m m' \<and> (b \<longrightarrow> (\<exists>e v. cand = Some (e, v) \<and> e \<in> dom (slot (match_eq m'))))"
proof (cases b)
  case False
  then have "m' = m" using s by (auto simp: seed_structured_candidate_def split: option.splits if_splits)
  with ok False show ?thesis by (simp add: grows_def)
next
  case True
  with s obtain e v where c: "cand = Some (e, v)" "e < length (match_eq m)" "v < length (match_var m)"
    "match_eq m ! e = None" "match_var m ! v = None" "v \<in> set (row rows e)"
    and m': "m' = m\<lparr>match_eq := (match_eq m)[e := Some v], match_var := (match_var m)[v := Some e]\<rparr>"
    by (auto simp: seed_structured_candidate_def split: option.splits if_splits)
  have "matching_ok rows n_eq n_var m'"
    using matching_ok_claim [OF ok, of e v] c matching_okD(1,2) [OF ok] unfolding m'
    by (simp add: slot_in matching_ok_def)
  with c show ?thesis by (auto simp: grows_def m' slot_update_eq)
qed

lemma candidate_with_row:
  "candidate_with coord family point position = Some (e, v) \<Longrightarrow>
     e = first_equation_index family + point * equations_per_point family + position"
  by (auto simp: candidate_with_def res_simps split: if_splits)

text \<open>The rows a family has seeded so far, while every candidate was taken.\<close>

lemma seed_point_ok:
  fixes rows family od point n_eq n_var
  defines "step \<equiv> \<lambda>(full, m) position.
       (case seed_structured_candidate rows (odometer_candidate od family point position) m of
          (b, m) \<Rightarrow> (full \<and> b, m))"
  assumes "matching_ok rows n_eq n_var m" "foldl step (full, m) ps = (full', m')"
  shows "grows rows n_eq n_var m m' \<and> (full' \<longrightarrow> full \<and> (\<forall>p \<in> set ps.
    first_equation_index family + point * equations_per_point family + p \<in> dom (slot (match_eq m'))))"
  using assms(2,3)
proof (induction ps arbitrary: m full)
  case Nil
  then show ?case by (simp add: grows_def)
next
  case (Cons p ps)
  obtain b m1 where s: "seed_structured_candidate rows (odometer_candidate od family point p) m = (b, m1)"
    by (cases "seed_structured_candidate rows (odometer_candidate od family point p) m")
  note s1 = seed_candidate_ok [OF Cons.prems(1) s]
  then have ok1: "matching_ok rows n_eq n_var m1" by (simp add: grows_def)
  have fl: "foldl step (full \<and> b, m1) ps = (full', m')" using Cons.prems(2) s by (simp add: step_def)
  note ih = Cons.IH [OF ok1 fl]
  have "first_equation_index family + point * equations_per_point family + p \<in> dom (slot (match_eq m'))" if full'
  proof -
    have b using ih that by simp
    with s1 obtain e v where "odometer_candidate od family point p = Some (e, v)" "e \<in> dom (slot (match_eq m1))"
      by blast
    then have "first_equation_index family + point * equations_per_point family + p \<in> dom (slot (match_eq m1))"
      using candidate_with_row unfolding odometer_candidate_def by blast
    then show ?thesis using ih by (auto simp: grows_def)
  qed
  with ih s1 show ?case by (auto intro: grows_trans)
qed

lemma seed_points_ok:
  assumes "matching_ok rows n_eq n_var m"
    and "foldl (\<lambda>(od, acc) point. (advance od, seed_point rows family od point acc)) (od, (full, m)) ps = (od', (full', m'))"
  shows "grows rows n_eq n_var m m' \<and> (full' \<longrightarrow> full \<and> (\<forall>point \<in> set ps. \<forall>p < equations_per_point family.
    first_equation_index family + point * equations_per_point family + p \<in> dom (slot (match_eq m'))))"
  using assms
proof (induction ps arbitrary: m full od)
  case Nil
  then show ?case by (simp add: grows_def)
next
  case (Cons q ps)
  obtain f1 m1 where s: "seed_point rows family od q (full, m) = (f1, m1)"
    by (cases "seed_point rows family od q (full, m)")
  note s1 = seed_point_ok [OF Cons.prems(1) s [unfolded seed_point_def]]
  then have ok1: "matching_ok rows n_eq n_var m1" by (simp add: grows_def)
  have fl: "foldl (\<lambda>(od, acc) point. (advance od, seed_point rows family od point acc)) (advance od, (f1, m1)) ps =
      (od', (full', m'))"
    using Cons.prems(2) s by simp
  note ih = Cons.IH [OF ok1 fl]
  have "dom (slot (match_eq m1)) \<subseteq> dom (slot (match_eq m'))" using ih by (simp add: grows_def)
  then have "first_equation_index family + q * equations_per_point family + p \<in> dom (slot (match_eq m'))"
    if f: f1 "p < equations_per_point family" for p
  proof (rule subsetD)
    have "p \<in> set [0..<equations_per_point family]" using f(2) by simp
    with s1 f(1) show "first_equation_index family + q * equations_per_point family + p \<in> dom (slot (match_eq m1))"
      by blast
  qed
  moreover have "grows rows n_eq n_var m m'" using s1 ih by (blast intro: grows_trans)
  ultimately show ?case using ih s1 by auto
qed

lemma seed_one_family_ok:
  assumes ok: "matching_ok rows n_eq n_var m" and s: "seed_one_family rows family m = (full, m')"
  shows "grows rows n_eq n_var m m' \<and> (full \<longrightarrow> (\<forall>a b. row_range family = Some (a, b) \<longrightarrow>
    a \<le> b \<and> {a..<b} \<subseteq> dom (slot (match_eq m'))))"
proof -
  define F where "F = foldl (\<lambda>(od, acc) point. (advance od, seed_point rows family od point acc))
      (odometer_new (extents family), (True, m)) [0..<point_count family]"
  have "snd F = (full, m')" using s by (simp add: seed_one_family_def F_def)
  then obtain od' where fl: "foldl (\<lambda>(od, acc) point. (advance od, seed_point rows family od point acc))
      (odometer_new (extents family), (True, m)) [0..<point_count family] = (od', (full, m'))"
    unfolding F_def [symmetric] by (cases F) simp
  note p = seed_points_ok [OF ok fl]
  have "{a..<b} \<subseteq> dom (slot (match_eq m'))" if full and r: "row_range family = Some (a, b)" for a b
  proof
    fix x assume x: "x \<in> {a..<b}"
    define k where "k = equations_per_point family"
    have ab: "a = first_equation_index family" "b = a + point_count family * k"
      using r by (auto simp: row_range_def family_row_count_def res_simps k_def)
    define d where "d = x - a"
    have d: "d < point_count family * k" "x = a + d" using x ab by (auto simp: d_def)
    then have "0 < k" by (cases k) auto
    then have "d div k < point_count family" "d mod k < k" using d(1) by (simp_all add: less_mult_imp_div_less)
    then have "a + d div k * k + d mod k \<in> dom (slot (match_eq m'))"
      using p that(1) unfolding ab(1) k_def by (metis atLeast_upt lessThan_iff)
    moreover have "a + d div k * k + d mod k = x" using d(2) by (simp add: add.assoc)
    ultimately show "x \<in> dom (slot (match_eq m'))" by (simp only:)
  qed
  moreover have "a \<le> b" if "row_range family = Some (a, b)" for a b
    using that by (auto simp: row_range_def family_row_count_def res_simps)
  ultimately show ?thesis using p by blast
qed


definition ranges_ok :: "Matching \<Rightarrow> (nat \<times> nat) list \<Rightarrow> bool" where
  "ranges_ok m ranges \<longleftrightarrow> (\<forall>(a, b) \<in> set ranges. a \<le> b \<and> {a..<b} \<subseteq> dom (slot (match_eq m)))"

lemma ranges_ok_grows: "ranges_ok m ranges \<Longrightarrow> grows rows n_eq n_var m m' \<Longrightarrow> ranges_ok m' ranges"
  unfolding ranges_ok_def grows_def by blast

lemma seed_families_ok:
  fixes rows n_eq n_var
  defines "step \<equiv> \<lambda>(ranges, m) family.
          (case seed_one_family rows family m of
             (full, m) \<Rightarrow>
               (case (full, row_range family) of
                  (True, Some rng) \<Rightarrow> (ranges @ [rng], m)
                | _ \<Rightarrow> (ranges, m)))"
  assumes "matching_ok rows n_eq n_var m" "ranges_ok m ranges" "foldl step (ranges, m) families = (ranges', m')"
  shows "matching_ok rows n_eq n_var m' \<and> ranges_ok m' ranges'"
  using assms(2-)
proof (induction families arbitrary: m ranges)
  case (Cons family families)
  obtain full m1 where s: "seed_one_family rows family m = (full, m1)"
    by (cases "seed_one_family rows family m")
  note s1 = seed_one_family_ok [OF Cons.prems(1) s]
  define ranges1 where "ranges1 = (case (full, row_range family) of (True, Some rng) \<Rightarrow> ranges @ [rng] | _ \<Rightarrow> ranges)"
  have "step (ranges, m) family = (ranges1, m1)"
    using s by (simp add: step_def ranges1_def split: bool.splits option.splits)
  with Cons.prems(3) have fl: "foldl step (ranges1, m1) families = (ranges', m')" by simp
  have "ranges_ok m1 ranges" using Cons.prems(2) s1 ranges_ok_grows by blast
  then have "ranges_ok m1 ranges1"
    using s1 unfolding ranges1_def by (auto simp: ranges_ok_def split: bool.splits option.splits)
  with Cons.IH [OF _ this fl] s1 show ?case by (simp add: grows_def)
qed simp

lemma empty_matching_ok: "matching_ok rows n_eq n_var \<lparr>match_eq = replicate n_eq None, match_var = replicate n_var None\<rparr>"
  by (simp add: matching_ok_def slot_def)

lemma seed_structured_ok:
  assumes "seed_structured_family_matches rows families
    \<lparr>match_eq = replicate n_eq None, match_var = replicate n_var None\<rparr> = (ranges, m)"
  shows "matching_ok rows n_eq n_var m \<and> ranges_ok m ranges"
proof -
  let ?m0 = "\<lparr>match_eq = replicate n_eq None, match_var = replicate n_var None\<rparr>"
  obtain ranges0 where "foldl (\<lambda>(ranges, m) family. (case seed_one_family rows family m of
       (full, m) \<Rightarrow> (case (full, row_range family) of (True, Some rng) \<Rightarrow> (ranges @ [rng], m)
         | _ \<Rightarrow> (ranges, m)))) ([], ?m0) families = (ranges0, m)" "ranges = sort_key fst ranges0"
    using assms by (auto simp: seed_structured_family_matches_def split: prod.splits)
  with seed_families_ok [OF empty_matching_ok [of rows n_eq n_var], of "[]" families ranges0 m]
  show ?thesis by (simp add: ranges_ok_def)
qed

lemma unseeded_loop_bounds:
  "\<forall>(a, b) \<in> set ranges. a \<le> b \<Longrightarrow> set (unseeded_loop n r ranges) \<subseteq> {r..<n} \<and> distinct (unseeded_loop n r ranges)"
proof (induction n r ranges rule: unseeded_loop.induct)
  case (2 n r start stop ranges)
  show ?case
  proof (cases "n \<le> max r stop")
    case True
    then show ?thesis by (auto simp: Let_def)
  next
    case False
    with 2 have ih: "set (unseeded_loop n (max r stop) ranges) \<subseteq> {max r stop..<n}"
      "distinct (unseeded_loop n (max r stop) ranges)" and "start \<le> stop"
      by (auto simp: Let_def)
    have "x \<notin> {r..<min start n}" if "x \<in> set (unseeded_loop n (max r stop) ranges)" for x
      using ih(1) that \<open>start \<le> stop\<close> by auto
    moreover have "unseeded_loop n r ((start, stop) # ranges) =
        (if start > r then [r..<min start n] else []) @ unseeded_loop n (max r stop) ranges"
      using False by (simp add: Let_def)
    ultimately show ?thesis using ih by (auto simp: disjoint_iff)
  qed
qed simp

lemma unseeded_loop_covers:
  "r \<le> x \<Longrightarrow> x < n \<Longrightarrow> \<forall>(a, b) \<in> set ranges. x \<notin> {a..<b} \<Longrightarrow> x \<in> set (unseeded_loop n r ranges)"
proof (induction n r ranges rule: unseeded_loop.induct)
  case (2 n r start stop ranges)
  show ?case
  proof (cases "x < start")
    case True
    with 2(2,3) show ?thesis by (auto simp: Let_def)
  next
    case False
    with 2 have "stop \<le> x" by auto
    with 2 have "x \<in> set (unseeded_loop n (max r stop) ranges)" "\<not> n \<le> max r stop" by (auto simp: Let_def)
    then show ?thesis by (simp add: Let_def)
  qed
qed auto

lemma kuhn_order_ok:
  assumes ok: "matching_ok rows n_eq n_var m" and ranges: "ranges_ok m ranges"
  shows "\<forall>e \<in> set (kuhn_equation_order n_eq (match_eq m) preferred ranges). e < n_eq \<and> slot (match_eq m) e = None"
    and "distinct (kuhn_equation_order n_eq (match_eq m) preferred ranges)"
    and "e < n_eq \<Longrightarrow> slot (match_eq m) e = None \<Longrightarrow> e \<in> set (kuhn_equation_order n_eq (match_eq m) preferred ranges)"
proof -
  have le: "\<forall>(a, b) \<in> set ranges. a \<le> b" using ranges by (auto simp: ranges_ok_def)
  note b = unseeded_loop_bounds [OF le, of n_eq 0, folded unseeded_rows_def]
  have len: "length (match_eq m) = n_eq" using matching_okD(1) [OF ok] .
  then have sl: "match_eq m ! e = slot (match_eq m) e" if "e < n_eq" for e using that by (simp add: slot_in)
  show "\<forall>e \<in> set (kuhn_equation_order n_eq (match_eq m) preferred ranges). e < n_eq \<and> slot (match_eq m) e = None"
    using b sl by (auto simp: kuhn_equation_order_def Let_def)
  show "distinct (kuhn_equation_order n_eq (match_eq m) preferred ranges)"
    using b by (auto simp: kuhn_equation_order_def Let_def)
  show "e \<in> set (kuhn_equation_order n_eq (match_eq m) preferred ranges)"
    if e: "e < n_eq" "slot (match_eq m) e = None"
  proof -
    have "e \<notin> {a..<b}" if "(a, b) \<in> set ranges" for a b
    proof
      assume "e \<in> {a..<b}"
      then have "e \<in> dom (slot (match_eq m))" using ranges that unfolding ranges_ok_def by blast
      with e(2) show False by auto
    qed
    then have "e \<in> set (unseeded_rows n_eq ranges)"
      unfolding unseeded_rows_def using e by (intro unseeded_loop_covers) auto
    with e sl show ?thesis by (auto simp: kuhn_equation_order_def Let_def)
  qed
qed

text \<open>The two phases before the preferences: a valid matching and a closed set that holds the unmatched.\<close>

lemma kuhn_phase_ok:
  assumes b: "rows_bounded rows n_var"
    and seed: "seed_structured_family_matches rows families
      \<lparr>match_eq = replicate n_eq None, match_var = replicate n_var None\<rparr> = (ranges, m)"
  shows "\<exists>m' s'. try_fold (kuhn_step \<lparr>eq_vars = rows, preferred_vars = preferred\<rparr>) (m, scratch_new n_var)
      (kuhn_equation_order n_eq (match_eq m) preferred ranges) = Some (m', s') \<and> matching_ok rows n_eq n_var m' \<and>
    (\<exists>C. closed rows C m' \<and> (\<forall>e < n_eq. slot (match_eq m') e = None \<longrightarrow> e \<in> C))"
proof -
  note s = seed_structured_ok [OF seed]
  then have ok: "matching_ok rows n_eq n_var m" and ranges: "ranges_ok m ranges" by auto
  have ctx: "eq_vars \<lparr>eq_vars = rows, preferred_vars = preferred\<rparr> = rows" by simp
  have c0: "closed rows {} m" by (simp add: closed_def)
  have sc: "scratch_ok n_var (scratch_new n_var)" by (simp add: scratch_ok_def scratch_new_def)
  obtain m' s' C' where l: "try_fold (kuhn_step \<lparr>eq_vars = rows, preferred_vars = preferred\<rparr>) (m, scratch_new n_var)
      (kuhn_equation_order n_eq (match_eq m) preferred ranges) = Some (m', s')" "matching_ok rows n_eq n_var m'"
    "dom (slot (match_eq m)) \<subseteq> dom (slot (match_eq m'))" "closed rows C' m'"
    "\<forall>e \<in> set (kuhn_equation_order n_eq (match_eq m) preferred ranges). slot (match_eq m') e = None \<longrightarrow> e \<in> C'"
    using kuhn_loop_ok [OF ctx b ok sc kuhn_order_ok(1,2) [OF ok ranges, of preferred] c0] by blast
  have "e \<in> C'" if e: "e < n_eq" "slot (match_eq m') e = None" for e
  proof -
    have "slot (match_eq m) e = None" using e(2) l(3) by (auto simp: dom_def)
    then have "e \<in> set (kuhn_equation_order n_eq (match_eq m) preferred ranges)"
      by (rule kuhn_order_ok(3) [OF ok ranges e(1)])
    with l(5) e(2) show ?thesis by blast
  qed
  with l show ?thesis by blast
qed


section \<open>Preferences\<close>

text \<open>
  While a path is committed the entry of the root equation may be stale: its variable
  already has a new owner. Everything else stays a matching.
\<close>

definition weak_ok :: "nat \<Rightarrow> IncidenceRows \<Rightarrow> nat \<Rightarrow> nat \<Rightarrow> Matching \<Rightarrow> bool" where
  "weak_ok root rows n_eq n_var m \<longleftrightarrow> length (match_eq m) = n_eq \<and> length (match_var m) = n_var \<and>
     (\<forall>e v. slot (match_var m) v = Some e \<longrightarrow> slot (match_eq m) e = Some v) \<and>
     (\<forall>e v. e \<noteq> root \<longrightarrow> slot (match_eq m) e = Some v \<longrightarrow> slot (match_var m) v = Some e) \<and>
     (\<forall>e v. slot (match_eq m) e = Some v \<longrightarrow> v \<in> set (row rows e))"

lemma weak_okD:
  assumes "weak_ok root rows n_eq n_var m"
  shows "length (match_eq m) = n_eq" "length (match_var m) = n_var"
    "slot (match_var m) v = Some e \<Longrightarrow> slot (match_eq m) e = Some v"
    "e \<noteq> root \<Longrightarrow> slot (match_eq m) e = Some v \<Longrightarrow> slot (match_var m) v = Some e"
    "slot (match_eq m) e = Some v \<Longrightarrow> v \<in> set (row rows e)"
  using assms unfolding weak_ok_def by blast+

lemma matching_ok_weak: "matching_ok rows n_eq n_var m \<Longrightarrow> weak_ok root rows n_eq n_var m"
  unfolding matching_ok_def weak_ok_def by blast

lemma assign_move:
  assumes ok: "weak_ok root rows n_eq n_var m" and e: "slot (match_eq m) e = Some w" "e \<noteq> root"
    and v: "v < n_var" "v \<in> set (row rows e)" "slot (match_var m) v = None \<or> slot (match_var m) v = Some root"
  shows "\<exists>m'. assign_match e v m = Some m' \<and> weak_ok root rows n_eq n_var m' \<and>
    slot (match_eq m') = (slot (match_eq m))(e \<mapsto> v) \<and>
    slot (match_var m') = (slot (match_var m))(w := None, v \<mapsto> e)"
proof -
  have w: "slot (match_var m) w = Some e" using weak_okD(4) [OF ok e(2,1)] .
  then have vw: "v \<noteq> w" "e < n_eq" "w < n_var"
    using v(3) e weak_okD(1,2) [OF ok] by (auto dest: slot_range)
  define m' where "m' = \<lparr>match_eq = (match_eq m)[e := Some v], match_var = (match_var m)[w := None, v := Some e]\<rparr>"
  have "assign_match e v m = Some m'"
    using e(1) w vw v(1) weak_okD(1,2) [OF ok] by (simp add: assign_match_def m'_def slot_def)
  moreover have eq: "slot (match_eq m') = (slot (match_eq m))(e \<mapsto> v)"
    "slot (match_var m') = (slot (match_var m))(w := None, v \<mapsto> e)"
    using vw v(1) weak_okD(1,2) [OF ok] by (auto simp: m'_def fun_eq_iff slot_update_eq)
  have nv: "x \<noteq> v" if "a \<noteq> root" "slot (match_eq m) a = Some x" for a x
    using weak_okD(4) [OF ok that] v(3) that(1) by auto
  have nw: "x \<noteq> w" if "a \<noteq> root" "a \<noteq> e" "slot (match_eq m) a = Some x" for a x
    using weak_okD(4) [OF ok that(1,3)] w that(2) by auto
  have ne: "a \<noteq> e" if "slot (match_var m) x = Some a" "x \<noteq> w" for a x
    using weak_okD(3) [OF ok that(1)] e(1) that(2) by auto
  have "weak_ok root rows n_eq n_var m'"
    unfolding weak_ok_def
  proof (intro conjI allI impI)
    show "length (match_eq m') = n_eq" "length (match_var m') = n_var"
      using weak_okD(1,2) [OF ok] by (simp_all add: m'_def)
    show "slot (match_eq m') a = Some x" if "slot (match_var m') x = Some a" for a x
      using that weak_okD(3) [OF ok, of x a] ne [of x a] by (auto simp: eq split: if_splits)
    show "slot (match_var m') x = Some a" if "a \<noteq> root" "slot (match_eq m') a = Some x" for a x
      using that weak_okD(4) [OF ok that(1), of x] nv [of a x] nw [of a x] by (auto simp: eq split: if_splits)
    show "x \<in> set (row rows a)" if "slot (match_eq m') a = Some x" for a x
      using that weak_okD(5) [OF ok, of a x] v(2) by (auto simp: eq split: if_splits)
  qed
  with \<open>assign_match e v m = Some m'\<close> eq show ?thesis by blast
qed

lemma assign_root:
  assumes ok: "weak_ok root rows n_eq n_var m" and b: "rows_bounded rows n_var"
    and p: "p \<in> set (row rows root)" "slot (match_var m) p = None" and root: "root < n_eq"
  shows "\<exists>m'. assign_match root p m = Some m' \<and> matching_ok rows n_eq n_var m' \<and>
    slot (match_eq m') = (slot (match_eq m))(root \<mapsto> p)"
proof -
  have pn: "p < n_var" using b p(1) by (auto simp: rows_bounded_def)
  define mv where "mv = (case slot (match_eq m) root of None \<Rightarrow> match_var m | Some u \<Rightarrow>
      (if slot (match_var m) u = Some root then (match_var m)[u := None] else match_var m))"
  define m' where "m' = \<lparr>match_eq = (match_eq m)[root := Some p], match_var = mv[p := Some root]\<rparr>"
  have len: "length (match_eq m) = n_eq" "length (match_var m) = n_var" "length mv = n_var"
    using weak_okD(1,2) [OF ok] by (auto simp: mv_def split: option.splits)
  have un: "u < n_var" if "slot (match_eq m) root = Some u" for u
    using weak_okD(5) [OF ok that] b by (auto simp: rows_bounded_def)
  have "assign_match root p m = Some m'"
  proof (cases "match_eq m ! root")
    case None
    then show ?thesis using root pn len by (simp add: assign_match_def m'_def mv_def slot_def)
  next
    case (Some u)
    then have "u < n_var" using un root len by (simp add: slot_def)
    with Some show ?thesis using root pn len by (simp add: assign_match_def m'_def mv_def slot_def)
  qed
  moreover have eq: "slot (match_eq m') = (slot (match_eq m))(root \<mapsto> p)"
    using root len by (auto simp: m'_def fun_eq_iff slot_update_eq)
  moreover have mv: "slot mv x = (if slot (match_var m) x = Some root then None else slot (match_var m) x)" for x
  proof (cases "slot (match_var m) x = Some root")
    case True
    with weak_okD(3) [OF ok True] show ?thesis
      using slot_range [OF True] by (simp add: mv_def slot_update_eq)
  next
    case False
    then show ?thesis by (auto simp: mv_def slot_update_eq split: option.splits)
  qed
  have mv': "slot (match_var m') x = (if x = p then Some root else if slot (match_var m) x = Some root then None
      else slot (match_var m) x)" for x
    using pn len by (simp add: m'_def slot_update_eq mv)
  have np: "x \<noteq> p" if "a \<noteq> root" "slot (match_eq m) a = Some x" for a x
    using weak_okD(4) [OF ok that] p(2) by auto
  have "matching_ok rows n_eq n_var m'"
    unfolding matching_ok_def
  proof (intro conjI allI impI)
    show "length (match_eq m') = n_eq" "length (match_var m') = n_var" using len by (simp_all add: m'_def)
    show "slot (match_eq m') a = Some x \<longleftrightarrow> slot (match_var m') x = Some a" for a x
    proof (cases "a = root")
      case True
      then show ?thesis by (auto simp: eq mv')
    next
      case False
      have "slot (match_eq m) a = Some x \<longleftrightarrow> slot (match_var m) x = Some a"
        using weak_okD(3) [OF ok] weak_okD(4) [OF ok False] by blast
      with False np [OF False, of x] show ?thesis by (cases "x = p") (auto simp: eq mv')
    qed
    show "x \<in> set (row rows a)" if "slot (match_eq m') a = Some x" for a x
      using that weak_okD(5) [OF ok, of a x] p(1) by (auto simp: eq split: if_splits)
  qed
  with \<open>assign_match root p m = Some m'\<close> eq show ?thesis by (intro exI conjI)
qed

fun relocation_path :: "IncidenceRows \<Rightarrow> Matching \<Rightarrow> nat \<Rightarrow> AugmentFrame list \<Rightarrow> bool" where
  "relocation_path rows m p [] = False"
| "relocation_path rows m p [f] \<longleftrightarrow> slot (match_var m) p = Some (frame_eq f)"
| "relocation_path rows m p (f # g # fs) \<longleftrightarrow>
     (\<exists>v. chosen g = Some v \<and> v \<in> set (row rows (frame_eq g)) \<and> slot (match_var m) v = Some (frame_eq f)) \<and>
     relocation_path rows m p (g # fs)"

lemma relocation_path_update:
  assumes "relocation_path rows m p fs"
    and "\<And>v. v \<in> insert p (set (List.map_filter chosen (tl fs))) \<Longrightarrow> slot (match_var m') v = slot (match_var m) v"
  shows "relocation_path rows m' p fs"
  using assms
proof (induction rows m p fs rule: relocation_path.induct)
  case (3 rows m p f g fs)
  then obtain v where v: "chosen g = Some v" "v \<in> set (row rows (frame_eq g))"
    "slot (match_var m) v = Some (frame_eq f)" by auto
  have "slot (match_var m') v = slot (match_var m) v"
    using 3(3) [of v] v(1) by (simp add: List.map_filter_simps)
  moreover have "relocation_path rows m' p (g # fs)"
  proof (rule 3(1))
    show "relocation_path rows m p (g # fs)" using 3(2) by simp
    show "slot (match_var m') x = slot (match_var m) x"
      if "x \<in> insert p (set (List.map_filter chosen (tl (g # fs))))" for x
      using that 3(3) [of x] by (auto simp: List.map_filter_simps split: option.splits)
  qed
  ultimately show ?case using v by auto
qed simp_all

lemma relocation_path_chosen:
  "relocation_path rows m p (f # fs) \<Longrightarrow> x \<in> insert p (set (List.map_filter chosen fs)) \<Longrightarrow>
     \<exists>g \<in> set (f # fs). slot (match_var m) x = Some (frame_eq g)"
proof (induction fs arbitrary: f)
  case (Cons g gs)
  show ?case
  proof (cases "chosen g = Some x")
    case True
    with Cons.prems(1) show ?thesis by auto
  next
    case False
    with Cons.prems(2) have "x \<in> insert p (set (List.map_filter chosen gs))"
      by (auto simp: List.map_filter_simps split: option.splits)
    with Cons.IH [of g] Cons.prems(1) show ?thesis by auto
  qed
qed (auto simp: List.map_filter_simps)

lemma commit_relocation_ok:
  assumes "weak_ok root rows n_eq n_var m" "relocation_path rows m p (f # fs)"
    and "chosen f = Some v" "v \<in> set (row rows (frame_eq f))"
    and "slot (match_var m) v = None \<or> slot (match_var m) v = Some root"
    and "\<forall>g \<in> set (f # fs). frame_eq g \<noteq> root" "distinct (p # List.map_filter chosen fs)"
    and "rows_bounded rows n_var"
  shows "\<exists>m'. commit_relocation (f # fs) m = Some m' \<and> weak_ok root rows n_eq n_var m' \<and>
    slot (match_var m') p = None \<and> dom (slot (match_eq m')) = dom (slot (match_eq m)) \<and>
    (\<forall>e. e \<notin> frame_eq ` set (f # fs) \<longrightarrow> slot (match_eq m') e = slot (match_eq m) e)"
  using assms(1-7)
proof (induction fs arbitrary: f v m)
  case Nil
  define e where "e = frame_eq f"
  have e: "slot (match_eq m) e = Some p" "e \<noteq> root"
    using Nil(2,6) weak_okD(3) [OF Nil(1)] by (auto simp: e_def)
  have vn: "v < n_var" "v \<noteq> p" using Nil(2,4,5,6) assms(8) by (auto simp: rows_bounded_def)
  obtain m' where m': "assign_match e v m = Some m'" "weak_ok root rows n_eq n_var m'"
    "slot (match_eq m') = (slot (match_eq m))(e \<mapsto> v)"
    "slot (match_var m') = (slot (match_var m))(p := None, v \<mapsto> e)"
    using assign_move [OF Nil(1) e vn(1)] Nil(4,5) by (auto simp: e_def)
  moreover have "commit_relocation [f] m = Some m'"
    using m'(1) Nil(3) by (simp add: commit_relocation_def e_def)
  ultimately show ?case using e vn by (auto simp: e_def)
next
  case (Cons g gs)
  define e where "e = frame_eq f"
  obtain w where w: "chosen g = Some w" "w \<in> set (row rows (frame_eq g))" "slot (match_var m) w = Some e"
    and path: "relocation_path rows m p (g # gs)" using Cons.prems(2) by (auto simp: e_def)
  have e: "slot (match_eq m) e = Some w" "e \<noteq> root"
    using w(3) weak_okD(3) [OF Cons.prems(1)] Cons.prems(6) by (auto simp: e_def)
  have vn: "v < n_var" using Cons.prems(4) assms(8) by (auto simp: rows_bounded_def)
  obtain m1 where m1: "assign_match e v m = Some m1" "weak_ok root rows n_eq n_var m1"
    "slot (match_eq m1) = (slot (match_eq m))(e \<mapsto> v)"
    "slot (match_var m1) = (slot (match_var m))(w := None, v \<mapsto> e)"
    using assign_move [OF Cons.prems(1) e vn] Cons.prems(4,5) by (auto simp: e_def)
  have vne: "v \<noteq> x" if "x \<in> insert p (set (List.map_filter chosen (g # gs)))" for x
    using relocation_path_chosen [OF Cons.prems(2) that] Cons.prems(5,6) by auto
  have "slot (match_var m1) x = slot (match_var m) x" if "x \<in> insert p (set (List.map_filter chosen gs))" for x
    using that vne [of x] Cons.prems(7) w(1) by (auto simp: m1(4) List.map_filter_simps)
  then have path1: "relocation_path rows m1 p (g # gs)"
    by (intro relocation_path_update [OF path]) auto
  have "v \<noteq> w" using vne [of w] w(1) by (simp add: List.map_filter_simps)
  then have wf: "slot (match_var m1) w = None \<or> slot (match_var m1) w = Some root" by (simp add: m1(4))
  have roots: "\<forall>g \<in> set (g # gs). frame_eq g \<noteq> root" using Cons.prems(6) by simp
  have dist: "distinct (p # List.map_filter chosen gs)"
    using Cons.prems(7) w(1) by (auto simp: List.map_filter_simps)
  obtain m' where m': "commit_relocation (g # gs) m1 = Some m'" "weak_ok root rows n_eq n_var m'"
    "slot (match_var m') p = None" "dom (slot (match_eq m')) = dom (slot (match_eq m1))"
    "\<forall>e. e \<notin> frame_eq ` set (g # gs) \<longrightarrow> slot (match_eq m') e = slot (match_eq m1) e"
    using Cons.IH [OF m1(2) path1 w(1,2) wf roots dist] by blast
  moreover have "commit_relocation (f # g # gs) m = Some m'"
    using m'(1) m1(1) Cons.prems(3) by (simp add: commit_relocation_def e_def)
  moreover have "dom (slot (match_eq m1)) = dom (slot (match_eq m))" using e(1) by (auto simp: m1(3))
  ultimately show ?case by (auto simp: m1(3) e_def)
qed


text \<open>The search for a relocation: what a scan returns and what a path satisfies.\<close>

definition relocation_marked :: "RelocationVisits \<Rightarrow> nat set" where
  "relocation_marked w = {v. v < length (variables w) \<and> variables w ! v = visit_epoch w}"

definition relocation_reached :: "RelocationVisits \<Rightarrow> nat set" where
  "relocation_reached w = {e. e < length (equations w) \<and> equations w ! e = visit_epoch w}"

definition visits_ok :: "nat \<Rightarrow> nat \<Rightarrow> RelocationVisits \<Rightarrow> bool" where
  "visits_ok n_eq n_var w \<longleftrightarrow> length (equations w) = n_eq \<and> length (variables w) = n_var \<and>
     (\<forall>t \<in> set (equations w) \<union> set (variables w). t \<le> visit_epoch w)"

lemma visits_mark_variable:
  assumes "visits_ok n_eq n_var w" "v < n_var"
  shows "visits_ok n_eq n_var (w\<lparr>variables := (variables w)[v := visit_epoch w]\<rparr>)"
    "relocation_marked (w\<lparr>variables := (variables w)[v := visit_epoch w]\<rparr>) = insert v (relocation_marked w)"
    "relocation_reached (w\<lparr>variables := (variables w)[v := visit_epoch w]\<rparr>) = relocation_reached w"
  using assms set_update_subset_insert [of "variables w" v "visit_epoch w"]
  by (auto simp: visits_ok_def relocation_marked_def relocation_reached_def nth_list_update)

lemma visits_mark_equation:
  assumes "visits_ok n_eq n_var w" "e < n_eq"
  shows "visits_ok n_eq n_var (w\<lparr>equations := (equations w)[e := visit_epoch w]\<rparr>)"
    "relocation_marked (w\<lparr>equations := (equations w)[e := visit_epoch w]\<rparr>) = relocation_marked w"
    "relocation_reached (w\<lparr>equations := (equations w)[e := visit_epoch w]\<rparr>) = insert e (relocation_reached w)"
  using assms set_update_subset_insert [of "equations w" e "visit_epoch w"]
  by (auto simp: visits_ok_def relocation_marked_def relocation_reached_def nth_list_update)

text \<open>
  What the marks of a search record: a marked variable belongs to an equation that was
  reached or that is locked, and the variables an equation has shown so far are marked, its own
  match excepted.
\<close>

definition owners_known :: "Matching \<Rightarrow> nat \<Rightarrow> bool list \<Rightarrow> RelocationVisits \<Rightarrow> bool" where
  "owners_known m root locked w \<longleftrightarrow> (\<forall>v \<in> relocation_marked w. \<exists>a. slot (match_var m) v = Some a \<and> a \<noteq> root \<and>
     (a \<in> relocation_reached w \<or> locked ! a))"

definition row_shown :: "MatchContext \<Rightarrow> Matching \<Rightarrow> nat \<Rightarrow> nat \<Rightarrow> RelocationVisits \<Rightarrow> bool" where
  "row_shown ctx m e c w \<longleftrightarrow> seen ctx e c (relocation_marked w \<union> {v. slot (match_eq m) e = Some v})"

lemma row_shown_Suc:
  assumes "row_shown ctx m e c w" "relocation_marked w \<subseteq> relocation_marked w'"
    and "row_order_get (row_order ctx e) c = Some v" "v \<in> relocation_marked w' \<or> slot (match_eq m) e = Some v"
  shows "row_shown ctx m e (c + 1) w'"
  using seen_Suc [OF seen_mono [of ctx e c _ "relocation_marked w' \<union> {v. slot (match_eq m) e = Some v}"] assms(3)]
    assms(1,2,4) by (auto simp: row_shown_def)

lemma relocation_scan_ok:
  assumes ok: "matching_ok rows n_eq n_var m" and ctx: "eq_vars ctx = rows" and b: "rows_bounded rows n_var"
    and e: "e < n_eq" and lk: "length locked = n_eq" and "visits_ok n_eq n_var w"
    and "row_shown ctx m e c w" "owners_known m root locked w"
  shows "\<exists>step c' w'. relocation_scan root locked e (row_order ctx e) c m w = Some (step, c', w') \<and>
    visits_ok n_eq n_var w' \<and> relocation_marked w \<subseteq> relocation_marked w' \<and>
    (case step of
       RelocationExhausted \<Rightarrow> owners_known m root locked w' \<and> relocation_reached w' = relocation_reached w \<and>
         set (row rows e) \<subseteq> relocation_marked w' \<union> {v. slot (match_eq m) e = Some v}
     | RelocationClaim v \<Rightarrow> v \<in> set (row rows e) \<and>
         (slot (match_var m) v = None \<or> slot (match_var m) v = Some root)
     | RelocationDescend v own \<Rightarrow> v \<in> set (row rows e) \<and> slot (match_var m) v = Some own \<and> own \<noteq> root \<and>
         \<not> locked ! own \<and> v \<notin> relocation_marked w \<and> v \<in> relocation_marked w' \<and>
         owners_known m root locked w' \<and> relocation_reached w' = insert own (relocation_reached w) \<and>
         row_shown ctx m e c' w')"
  using assms(6-8)
proof (induction "Suc (length (order_row (row_order ctx e))) - c" arbitrary: c w rule: less_induct)
  case less
  note eq = relocation_scan.simps [of root locked e "row_order ctx e" c]
  have len: "length (match_eq m) = n_eq" "length (match_var m) = n_var" "length (variables w) = n_var"
    "length (equations w) = n_eq"
    using matching_okD(1,2) [OF ok] less(2) by (auto simp: visits_ok_def)
  show ?case
  proof (cases "row_order_get (row_order ctx e) c")
    case None
    have "set (row rows e) \<subseteq> relocation_marked w \<union> {v. slot (match_eq m) e = Some v}"
      using seen_all [OF less(3) [unfolded row_shown_def] None] ctx by simp
    with None less(2,4) show ?thesis by (simp add: eq)
  next
    case (Some v)
    have row: "v \<in> set (row rows e)" using row_order_get_row [OF Some] ctx by simp
    then have v: "v < n_var" using b by (auto simp: rows_bounded_def)
    have meas: "Suc (length (order_row (row_order ctx e))) - (c + 1) < Suc (length (order_row (row_order ctx e))) - c"
      using row_order_get_bound [OF Some] by simp
    show ?thesis
    proof (cases "match_eq m ! e = Some v \<or> variables w ! v = visit_epoch w")
      case True
      have "relocation_scan root locked e (row_order ctx e) c m w =
          relocation_scan root locked e (row_order ctx e) (c + 1) m w"
        using Some True v e len by (simp add: eq)
      moreover have "v \<in> relocation_marked w \<or> slot (match_eq m) e = Some v"
        using True v e len by (auto simp: relocation_marked_def slot_in)
      then have "row_shown ctx m e (c + 1) w" by (rule row_shown_Suc [OF less(3) subset_refl Some])
      ultimately show ?thesis using less(1) [OF meas less(2) _ less(4)] by (simp only:)
    next
      case False
      define w1 where "w1 = w\<lparr>variables := (variables w)[v := visit_epoch w]\<rparr>"
      note w1 = visits_mark_variable [OF less(2) v, folded w1_def]
      have nm: "v \<notin> relocation_marked w" using False by (simp add: relocation_marked_def)
      have shown: "row_shown ctx m e (c + 1) w'" if "insert v (relocation_marked w) \<subseteq> relocation_marked w'" for w'
        using that by (intro row_shown_Suc [OF less(3) _ Some]) auto
      have red: "relocation_scan root locked e (row_order ctx e) c m w =
          (case match_var m ! v of None \<Rightarrow> Some (RelocationClaim v, c + 1, w1)
           | Some own \<Rightarrow> if own = root then Some (RelocationClaim v, c + 1, w1)
              else do { mark \<leftarrow> idx (equations w1) own; lock \<leftarrow> idx locked own;
                (if mark = visit_epoch w1 \<or> lock then relocation_scan root locked e (row_order ctx e) (c + 1) m w1
                 else Some (RelocationDescend v own, c + 1,
                   w1\<lparr>equations := (equations w1)[own := visit_epoch w1]\<rparr>)) })"
        using Some False v e len unfolding eq Let_def w1_def by (cases "match_var m ! v") simp_all
      show ?thesis
      proof (cases "match_var m ! v = None \<or> match_var m ! v = Some root")
        case True
        then have "relocation_scan root locked e (row_order ctx e) c m w = Some (RelocationClaim v, c + 1, w1)"
          using red by auto
        with True w1 row v len show ?thesis by (auto simp: slot_in)
      next
        case False
        then obtain own where own: "match_var m ! v = Some own" "own \<noteq> root" by auto
        then have sl: "slot (match_var m) v = Some own" using v len by (simp add: slot_in)
        then have on: "own < n_eq" using matching_okD(3) [OF ok, of own v] len slot_range by metis
        have red': "relocation_scan root locked e (row_order ctx e) c m w =
            (if equations w1 ! own = visit_epoch w1 \<or> locked ! own
             then relocation_scan root locked e (row_order ctx e) (c + 1) m w1
             else Some (RelocationDescend v own, c + 1, w1\<lparr>equations := (equations w1)[own := visit_epoch w1]\<rparr>))"
          using red own on lk w1(1) by (simp add: visits_ok_def)
        show ?thesis
        proof (cases "equations w1 ! own = visit_epoch w1 \<or> locked ! own")
          case True
          have "own \<in> relocation_reached w1 \<or> locked ! own"
            using True on w1(1) by (auto simp: relocation_reached_def visits_ok_def)
          then have "owners_known m root locked w1"
            using less(4) sl own(2) w1(2,3) by (auto simp: owners_known_def)
          then obtain step c' w' where run: "relocation_scan root locked e (row_order ctx e) (c + 1) m w1 = Some (step, c', w')"
            and w': "visits_ok n_eq n_var w'" "relocation_marked w1 \<subseteq> relocation_marked w'"
            and st: "case step of
               RelocationExhausted \<Rightarrow> owners_known m root locked w' \<and> relocation_reached w' = relocation_reached w1 \<and>
                 set (row rows e) \<subseteq> relocation_marked w' \<union> {v. slot (match_eq m) e = Some v}
             | RelocationClaim v \<Rightarrow> v \<in> set (row rows e) \<and>
                 (slot (match_var m) v = None \<or> slot (match_var m) v = Some root)
             | RelocationDescend v own \<Rightarrow> v \<in> set (row rows e) \<and> slot (match_var m) v = Some own \<and> own \<noteq> root \<and>
                 \<not> locked ! own \<and> v \<notin> relocation_marked w1 \<and> v \<in> relocation_marked w' \<and>
                 owners_known m root locked w' \<and> relocation_reached w' = insert own (relocation_reached w1) \<and>
                 row_shown ctx m e c' w'"
            using less(1) [OF meas w1(1) shown] w1(2) by blast
          show ?thesis
            using red' True run w' st w1(2,3)
            by (intro exI [of _ step] exI [of _ c'] exI [of _ w']) (auto split: RelocationStep.splits)
        next
          case False
          define w2 where "w2 = w1\<lparr>equations := (equations w1)[own := visit_epoch w1]\<rparr>"
          note w2 = visits_mark_equation [OF w1(1) on, folded w2_def]
          have "owners_known m root locked w2"
            using less(4) sl own(2) w1(2,3) w2(2,3) by (auto simp: owners_known_def)
          moreover have "row_shown ctx m e (c + 1) w2" using w1(2) w2(2) by (intro shown) simp
          ultimately show ?thesis using red' False row sl own nm w1 w2
            by (simp add: w2_def [symmetric] subset_insertI)
        qed
      qed
    qed
  qed
qed

definition relocation_inv ::
  "MatchContext \<Rightarrow> Matching \<Rightarrow> nat \<Rightarrow> nat \<Rightarrow> bool list \<Rightarrow> AugmentFrame list \<Rightarrow> RelocationVisits \<Rightarrow> bool" where
  "relocation_inv ctx m root p locked fs w \<longleftrightarrow>
     (fs \<noteq> [] \<longrightarrow> relocation_path (eq_vars ctx) m p fs) \<and>
     (\<forall>f \<in> set fs. frame_eq f < length (match_eq m) \<and> frame_eq f \<noteq> root \<and> \<not> locked ! frame_eq f) \<and>
     distinct (p # List.map_filter chosen (tl fs)) \<and>
     insert p (set (List.map_filter chosen (tl fs))) \<subseteq> relocation_marked w"

lemma relocation_inv_pop:
  assumes "relocation_inv ctx m root p locked (f # fs) w" "relocation_marked w \<subseteq> relocation_marked w'"
  shows "relocation_inv ctx m root p locked fs w'"
proof -
  have "relocation_path (eq_vars ctx) m p fs" if "fs \<noteq> []"
    using assms(1) that by (cases fs) (auto simp: relocation_inv_def)
  moreover have "set (List.map_filter chosen (tl fs)) \<subseteq> set (List.map_filter chosen fs)"
    "distinct (List.map_filter chosen fs) \<longrightarrow> distinct (List.map_filter chosen (tl fs))"
    by (cases fs; auto simp: List.map_filter_simps split: option.splits)+
  ultimately show ?thesis using assms by (auto simp: relocation_inv_def)
qed

lemma relocation_inv_push:
  assumes inv: "relocation_inv ctx m root p locked (f # fs) w"
    and v: "v \<in> set (row (eq_vars ctx) (frame_eq f))" "slot (match_var m) v = Some own" "own \<noteq> root" "\<not> locked ! own"
      "own < length (match_eq m)" "v \<notin> relocation_marked w" "v \<in> relocation_marked w'"
      "relocation_marked w \<subseteq> relocation_marked w'"
  shows "relocation_inv ctx m root p locked (new_frame own # f\<lparr>frame_cursor := c, chosen := Some v\<rparr> # fs) w'"
proof -
  define g where "g = f\<lparr>frame_cursor := c, chosen := Some v\<rparr>"
  have g: "frame_eq g = frame_eq f" "chosen g = Some v" by (simp_all add: g_def)
  have "relocation_path (eq_vars ctx) m p (g # fs)"
    using inv g by (cases fs) (auto simp: relocation_inv_def)
  then have "relocation_path (eq_vars ctx) m p (new_frame own # g # fs)" using v g by (simp add: new_frame_def)
  moreover have "distinct (p # v # List.map_filter chosen fs)"
    using inv v(6) by (auto simp: relocation_inv_def)
  ultimately show ?thesis
    using inv v g unfolding g_def [symmetric]
    by (auto simp: relocation_inv_def List.map_filter_simps new_frame_def)
qed


text \<open>
  A failed relocation leaves a set of equations that blocks the target: none of them is
  locked or the one that asks, all are matched, and every variable they refer to belongs to
  one of them or to a locked equation.
\<close>

definition relocation_blocked :: "IncidenceRows \<Rightarrow> Matching \<Rightarrow> nat \<Rightarrow> bool list \<Rightarrow> nat set \<Rightarrow> bool" where
  "relocation_blocked rows m root locked D \<longleftrightarrow> (\<forall>d \<in> D. d \<noteq> root \<and> \<not> locked ! d \<and> slot (match_eq m) d \<noteq> None \<and>
     (\<forall>v \<in> set (row rows d). \<exists>a. slot (match_var m) v = Some a \<and> (a \<in> D \<or> locked ! a)))"

definition relocation_closing ::
  "MatchContext \<Rightarrow> Matching \<Rightarrow> nat \<Rightarrow> bool list \<Rightarrow> AugmentFrame list \<Rightarrow> RelocationVisits \<Rightarrow> bool" where
  "relocation_closing ctx m root locked fs w \<longleftrightarrow> owners_known m root locked w \<and>
     (\<forall>f \<in> set fs. row_shown ctx m (frame_eq f) (frame_cursor f) w) \<and>
     (\<forall>d \<in> relocation_reached w. d \<noteq> root \<and> \<not> locked ! d \<and> slot (match_eq m) d \<noteq> None \<and>
        (d \<in> frame_eq ` set fs \<or>
         set (row (eq_vars ctx) d) \<subseteq> relocation_marked w \<union> {v. slot (match_eq m) d = Some v}))"

lemma row_shown_mono:
  "row_shown ctx m e c w \<Longrightarrow> relocation_marked w \<subseteq> relocation_marked w' \<Longrightarrow> row_shown ctx m e c w'"
  unfolding row_shown_def by (erule seen_mono) blast

lemma relocation_closing_pop:
  assumes "relocation_closing ctx m root locked (f # fs) w"
    and "relocation_marked w \<subseteq> relocation_marked w'" "relocation_reached w' = relocation_reached w"
    and "owners_known m root locked w'"
    and "set (row (eq_vars ctx) (frame_eq f)) \<subseteq> relocation_marked w' \<union> {v. slot (match_eq m) (frame_eq f) = Some v}"
  shows "relocation_closing ctx m root locked fs w'"
  unfolding relocation_closing_def
proof (intro conjI ballI)
  show "row_shown ctx m (frame_eq g) (frame_cursor g) w'" if "g \<in> set fs" for g
    using assms(1) that row_shown_mono [OF _ assms(2)] by (simp add: relocation_closing_def)
  fix d assume "d \<in> relocation_reached w'"
  then have d: "d \<noteq> root" "\<not> locked ! d" "slot (match_eq m) d \<noteq> None"
    "d = frame_eq f \<or> d \<in> frame_eq ` set fs \<or>
     set (row (eq_vars ctx) d) \<subseteq> relocation_marked w \<union> {v. slot (match_eq m) d = Some v}"
    using assms(1,3) by (auto simp: relocation_closing_def)
  then show "d \<noteq> root" "\<not> locked ! d" "slot (match_eq m) d \<noteq> None" by blast+
  show "d \<in> frame_eq ` set fs \<or>
      set (row (eq_vars ctx) d) \<subseteq> relocation_marked w' \<union> {v. slot (match_eq m) d = Some v}"
    using d(4) assms(2,5) by blast
qed (rule assms(4))

lemma relocation_closing_push:
  assumes "relocation_closing ctx m root locked (f # fs) w"
    and "relocation_marked w \<subseteq> relocation_marked w'" "relocation_reached w' = insert own (relocation_reached w)"
    and "owners_known m root locked w'" "row_shown ctx m (frame_eq f) c w'"
    and "own \<noteq> root" "\<not> locked ! own" "slot (match_eq m) own \<noteq> None"
  shows "relocation_closing ctx m root locked (new_frame own # f\<lparr>frame_cursor := c, chosen := x\<rparr> # fs) w'"
  unfolding relocation_closing_def
proof (intro conjI ballI)
  show "row_shown ctx m (frame_eq g) (frame_cursor g) w'"
    if "g \<in> set (new_frame own # f\<lparr>frame_cursor := c, chosen := x\<rparr> # fs)" for g
  proof -
    have "row_shown ctx m own 0 w'" by (simp add: row_shown_def seen_def)
    moreover have "row_shown ctx m (frame_eq g) (frame_cursor g) w'" if "g \<in> set fs"
      using assms(1) that by (intro row_shown_mono [OF _ assms(2)]) (simp add: relocation_closing_def)
    ultimately show ?thesis using that assms(5) by (auto simp: new_frame_def)
  qed
  fix d assume d: "d \<in> relocation_reached w'"
  then show "d \<noteq> root" "\<not> locked ! d" "slot (match_eq m) d \<noteq> None"
    using assms(1,3,6-8) by (auto simp: relocation_closing_def)
  have "d = own \<or> d = frame_eq f \<or> d \<in> frame_eq ` set fs \<or>
      set (row (eq_vars ctx) d) \<subseteq> relocation_marked w \<union> {v. slot (match_eq m) d = Some v}"
    using d assms(1,3) by (auto simp: relocation_closing_def)
  then show "d \<in> frame_eq ` set (new_frame own # f\<lparr>frame_cursor := c, chosen := x\<rparr> # fs) \<or>
      set (row (eq_vars ctx) d) \<subseteq> relocation_marked w' \<union> {v. slot (match_eq m) d = Some v}"
    using assms(2) by (auto simp: new_frame_def)
qed (rule assms(4))

lemma relocation_closing_done:
  assumes ok: "matching_ok rows n_eq n_var m" and ctx: "eq_vars ctx = rows"
    and cl: "relocation_closing ctx m root locked [] w"
  shows "relocation_blocked rows m root locked (relocation_reached w)"
  unfolding relocation_blocked_def
proof (intro ballI conjI)
  fix d assume d: "d \<in> relocation_reached w"
  then show "d \<noteq> root" "\<not> locked ! d" "slot (match_eq m) d \<noteq> None" using cl by (auto simp: relocation_closing_def)
  fix v assume "v \<in> set (row rows d)"
  then consider "v \<in> relocation_marked w" | "slot (match_eq m) d = Some v"
    using cl d ctx by (auto simp: relocation_closing_def)
  then show "\<exists>a. slot (match_var m) v = Some a \<and> (a \<in> relocation_reached w \<or> locked ! a)"
    using cl d matching_okD(3) [OF ok] by cases (auto simp: relocation_closing_def owners_known_def)
qed

text \<open>
  By counting, no matching of at least the same equations gives a blocked target to the
  equation that asks while the locked equations stay where they are.
\<close>

lemma relocation_blocked_no_matching:
  assumes ok: "matching_ok rows n_eq n_var m" and D: "relocation_blocked rows m root locked D"
    and p: "slot (match_var m) p = Some own" "own \<noteq> root" "own \<in> D \<or> locked ! own"
    and f: "is_matching rows n_eq f" "dom (slot (match_eq m)) \<subseteq> dom f" "f root = Some p"
    and lk: "\<And>j. j < n_eq \<Longrightarrow> locked ! j \<Longrightarrow> f j = slot (match_eq m) j"
  shows False
proof -
  have inj: "inj_on f (dom f)" and sub: "\<And>e v. f e = Some v \<Longrightarrow> v \<in> set (row rows e)"
    using f(1) by (auto simp: is_matching_def)
  have me: "slot (match_eq m) a = Some v \<longleftrightarrow> slot (match_var m) v = Some a" for a v
    by (rule matching_okD(3) [OF ok])
  have Dm: "D \<subseteq> dom f" using D f(2) unfolding relocation_blocked_def by (meson domIff subsetD subsetI)
  have lt: "a < n_eq" if "slot (match_var m) v = Some a" for a v
    using that me matching_okD(1) [OF ok] slot_range by metis
  have fin: "finite D" using Dm f(1) finite_subset [of D "{..<n_eq}"] by (fastforce simp: is_matching_def)
  have own: "own \<in> D"
  proof (rule ccontr)
    assume "own \<notin> D"
    with p(3) have "f own = Some p" using lk [OF lt [OF p(1)]] p(1) me by simp
    then have "own = root" using inj f(3) unfolding inj_on_def by (metis domI)
    with p(2) show False by simp
  qed
  have "f ` D \<subseteq> slot (match_eq m) ` (D - {own})"
  proof (rule image_subsetI)
    fix d assume d: "d \<in> D"
    then obtain v where v: "f d = Some v" using Dm by blast
    obtain a where a: "slot (match_var m) v = Some a" "a \<in> D \<or> locked ! a"
      using D d sub [OF v] by (auto simp: relocation_blocked_def)
    have "a \<in> D"
    proof (rule ccontr)
      assume "a \<notin> D"
      with a have "f a = Some v" using lk [OF lt [OF a(1)]] me by simp
      then have "a = d" using inj v unfolding inj_on_def by (metis domI)
      with \<open>a \<notin> D\<close> d show False by simp
    qed
    moreover have "a \<noteq> own"
    proof
      assume "a = own"
      then have "v = p" using a(1) p(1) me by (metis option.inject)
      then have "d = root" using inj v f(3) unfolding inj_on_def by (metis domI)
      then show False using D d unfolding relocation_blocked_def by blast
    qed
    ultimately show "f d \<in> slot (match_eq m) ` (D - {own})" using a(1) v me by (metis DiffI imageI singletonD)
  qed
  then have "card (f ` D) \<le> card (D - {own})"
    using fin by (metis card_image_le card_mono finite_Diff finite_imageI order_trans)
  moreover have "card (f ` D) = card D" using inj Dm by (metis card_image inj_on_subset)
  moreover have "card (D - {own}) < card D" using fin own by (rule card_Diff1_less)
  ultimately show False by simp
qed

lemma relocate_loop_ok:
  assumes "matching_ok rows n_eq n_var m" "eq_vars ctx = rows" "rows_bounded rows n_var"
    and "length locked = n_eq" "visits_ok n_eq n_var w" "relocation_inv ctx m root p locked fs w"
    and "relocation_closing ctx m root locked fs w"
  shows "\<exists>r m' w'. relocate_loop root locked ctx fs m w = Some (r, m', w') \<and> visits_ok n_eq n_var w' \<and>
    (\<not> r \<longrightarrow> m' = m \<and> relocation_reached w \<subseteq> relocation_reached w' \<and>
      relocation_blocked rows m root locked (relocation_reached w')) \<and>
    (r \<longrightarrow> weak_ok root rows n_eq n_var m' \<and> slot (match_var m') p = None \<and>
      dom (slot (match_eq m')) = dom (slot (match_eq m)) \<and>
      (\<forall>e. e = root \<or> locked ! e \<longrightarrow> slot (match_eq m') e = slot (match_eq m) e))"
  using assms
proof (induction root locked ctx fs m w rule: relocate_loop.induct)
  case (1 root locked ctx fs m w)
  note ok = 1(3)
  show ?case
  proof (cases fs)
    case Nil
    with 1(7) relocation_closing_done [OF ok 1(4)] 1(9) show ?thesis
      by (auto simp: relocate_loop.simps [of root locked ctx "[]"])
  next
    case (Cons f gs)
    note inv = 1(8) [unfolded Cons]
    note cl = 1(9) [unfolded Cons]
    have known: "row_shown ctx m (frame_eq f) (frame_cursor f) w" "owners_known m root locked w"
      using cl by (simp_all add: relocation_closing_def)
    have f: "frame_eq f < n_eq" using inv matching_okD(1) [OF ok] by (simp add: relocation_inv_def)
    obtain step c w' where scan: "relocation_scan root locked (frame_eq f) (row_order ctx (frame_eq f)) (frame_cursor f) m w =
        Some (step, c, w')" and w': "visits_ok n_eq n_var w'" "relocation_marked w \<subseteq> relocation_marked w'"
      and st: "case step of
         RelocationExhausted \<Rightarrow> owners_known m root locked w' \<and> relocation_reached w' = relocation_reached w \<and>
           set (row rows (frame_eq f)) \<subseteq> relocation_marked w' \<union> {v. slot (match_eq m) (frame_eq f) = Some v}
       | RelocationClaim v \<Rightarrow> v \<in> set (row rows (frame_eq f)) \<and>
           (slot (match_var m) v = None \<or> slot (match_var m) v = Some root)
       | RelocationDescend v own \<Rightarrow> v \<in> set (row rows (frame_eq f)) \<and> slot (match_var m) v = Some own \<and> own \<noteq> root \<and>
           \<not> locked ! own \<and> v \<notin> relocation_marked w \<and> v \<in> relocation_marked w' \<and>
           owners_known m root locked w' \<and> relocation_reached w' = insert own (relocation_reached w) \<and>
           row_shown ctx m (frame_eq f) c w'"
      using relocation_scan_ok [OF ok 1(4,5) f 1(6,7) known] by blast
    note ns = scan [folded next_relocation_step_def]
    note eq = relocate_loop.simps [of root locked ctx "f # gs" m w]
    show ?thesis
    proof (cases step)
      case (RelocationClaim v)
      define g where "g = f\<lparr>frame_cursor := c, chosen := Some v\<rparr>"
      have g: "frame_eq g = frame_eq f" "chosen g = Some v" by (simp_all add: g_def)
      have path: "relocation_path rows m p (g # gs)"
        using inv g 1(4) by (cases gs) (auto simp: relocation_inv_def)
      have v: "v \<in> set (row rows (frame_eq g))" "slot (match_var m) v = None \<or> slot (match_var m) v = Some root"
        using st RelocationClaim g by auto
      have fr: "\<forall>x \<in> set (g # gs). frame_eq x \<noteq> root \<and> \<not> locked ! frame_eq x"
        "distinct (p # List.map_filter chosen gs)" using inv g by (auto simp: relocation_inv_def)
      have nr: "\<forall>x \<in> set (g # gs). frame_eq x \<noteq> root" using fr(1) by blast
      obtain m' where m': "commit_relocation (g # gs) m = Some m'" "weak_ok root rows n_eq n_var m'"
        "slot (match_var m') p = None" "dom (slot (match_eq m')) = dom (slot (match_eq m))"
        "\<forall>e. e \<notin> frame_eq ` set (g # gs) \<longrightarrow> slot (match_eq m') e = slot (match_eq m) e"
        using commit_relocation_ok [OF matching_ok_weak [OF ok] path g(2) v nr fr(2) 1(5)] by blast
      have "relocate_loop root locked ctx fs m w = Some (True, m', w')"
        using m'(1) ns RelocationClaim by (simp add: Cons eq g_def)
      moreover have "e \<notin> frame_eq ` set (g # gs)" if "e = root \<or> locked ! e" for e using fr(1) that by blast
      ultimately show ?thesis using m' w'(1) by (intro exI [of _ True] exI [of _ m'] exI [of _ w']) simp
    next
      case (RelocationDescend v own)
      have own: "own < length (match_eq m)" using st RelocationDescend matching_okD(3) [OF ok, of own v] slot_range by auto
      have "relocation_inv ctx m root p locked (new_frame own # f\<lparr>frame_cursor := c, chosen := Some v\<rparr> # gs) w'"
        using st RelocationDescend 1(4) own w'(2) by (intro relocation_inv_push [OF inv]) auto
      note inv' = this
      have "slot (match_eq m) own \<noteq> None" using st RelocationDescend matching_okD(3) [OF ok, of own v] by simp
      then have "relocation_closing ctx m root locked (new_frame own # f\<lparr>frame_cursor := c, chosen := Some v\<rparr> # gs) w'"
        using st RelocationDescend w'(2) by (intro relocation_closing_push [OF cl]) auto
      note ih = 1(1) [OF Cons ns refl refl RelocationDescend 1(3-6) w'(1) inv' this]
      have "relocate_loop root locked ctx fs m w =
          relocate_loop root locked ctx (new_frame own # f\<lparr>frame_cursor := c, chosen := Some v\<rparr> # gs) m w'"
        using ns RelocationDescend by (simp add: Cons eq)
      moreover have "relocation_reached w \<subseteq> relocation_reached w'" using st RelocationDescend by auto
      ultimately show ?thesis using ih subset_trans [of "relocation_reached w" "relocation_reached w'"]
        by (simp only:) blast
    next
      case RelocationExhausted
      have "relocation_closing ctx m root locked gs w'"
        using st RelocationExhausted 1(4) w'(2) by (intro relocation_closing_pop [OF cl]) auto
      note ih = 1(2) [OF Cons ns refl refl RelocationExhausted 1(3-6) w'(1) relocation_inv_pop [OF inv w'(2)] this]
      have "relocate_loop root locked ctx fs m w = relocate_loop root locked ctx gs m w'"
        using ns RelocationExhausted by (simp add: Cons eq)
      moreover have "relocation_reached w' = relocation_reached w" using st RelocationExhausted by simp
      ultimately show ?thesis using ih by (simp only:)
    qed
  qed
qed

lemma begin_relocation_ok:
  assumes "visits_ok n_eq n_var w"
  shows "visits_ok n_eq n_var (begin_relocation w)"
    "relocation_marked (begin_relocation w) = {}" "relocation_reached (begin_relocation w) = {}"
proof -
  have le: "xs ! i \<le> visit_epoch w" if "i < length xs" "xs = equations w \<or> xs = variables w" for xs i
    using assms that by (auto simp: visits_ok_def)
  show "visits_ok n_eq n_var (begin_relocation w)"
    using assms by (auto simp: visits_ok_def begin_relocation_def intro: le_SucI)
  have ne: "xs ! i \<noteq> Suc (visit_epoch w)" if "i < length xs" "xs = equations w \<or> xs = variables w" for xs i
    using le [OF that] by simp
  show "relocation_marked (begin_relocation w) = {}"
    using ne [of _ "variables w"] by (auto simp: relocation_marked_def begin_relocation_def)
  show "relocation_reached (begin_relocation w) = {}"
    using ne [of _ "equations w"] by (auto simp: relocation_reached_def begin_relocation_def)
qed

text \<open>Why a target was not claimed: its owner is locked or belongs to a blocking set.\<close>

definition preference_blocked :: "IncidenceRows \<Rightarrow> Matching \<Rightarrow> nat \<Rightarrow> nat \<Rightarrow> bool list \<Rightarrow> bool" where
  "preference_blocked rows m e p locked \<longleftrightarrow> (\<exists>own D. slot (match_var m) p = Some own \<and> own \<noteq> e \<and>
     (own \<in> D \<or> locked ! own) \<and> relocation_blocked rows m e locked D)"

lemma try_claim_ok:
  assumes ok: "matching_ok rows n_eq n_var m" and ctx: "eq_vars ctx = rows" and b: "rows_bounded rows n_var"
    and lk: "length locked = n_eq" and w: "visits_ok n_eq n_var w" and e: "e < n_eq" and p: "p \<in> set (row rows e)"
  shows "\<exists>r m' w'. try_claim_preferred e p locked ctx m w = Some (r, m', w') \<and> visits_ok n_eq n_var w' \<and>
    matching_ok rows n_eq n_var m' \<and>
    (\<not> r \<longrightarrow> m' = m \<and> (slot (match_eq m) e = Some p \<or> preference_blocked rows m e p locked)) \<and>
    (r \<longrightarrow> slot (match_eq m') e = Some p \<and> dom (slot (match_eq m')) = insert e (dom (slot (match_eq m))) \<and>
      (\<forall>a. a \<noteq> e \<and> locked ! a \<longrightarrow> slot (match_eq m') a = slot (match_eq m) a))"
proof -
  have pn: "p < n_var" using b p by (auto simp: rows_bounded_def)
  have len: "length (match_var m) = n_var" using matching_okD(2) [OF ok] .
  consider (free) "slot (match_var m) p = None" | (own) "slot (match_var m) p = Some e"
    | (other) own where "slot (match_var m) p = Some own" "own \<noteq> e" by (cases "slot (match_var m) p") auto
  then show ?thesis
  proof cases
    case free
    obtain m' where m': "assign_match e p m = Some m'" "matching_ok rows n_eq n_var m'"
      "slot (match_eq m') = (slot (match_eq m))(e \<mapsto> p)"
      using assign_root [OF matching_ok_weak [OF ok] b p free e] by blast
    have "try_claim_preferred e p locked ctx m w = Some (True, m', w)"
      using free pn len m'(1) by (simp add: try_claim_preferred_def slot_in)
    with m' w show ?thesis by auto
  next
    case own
    then have "try_claim_preferred e p locked ctx m w = Some (False, m, w)"
      using pn len by (simp add: try_claim_preferred_def slot_in)
    moreover have "slot (match_eq m) e = Some p" using own matching_okD(3) [OF ok] by simp
    ultimately show ?thesis using ok w by auto
  next
    case (other own)
    have on: "own < n_eq" using other(1) matching_okD(1,3) [OF ok] slot_range by metis
    define w1 where "w1 = (begin_relocation w)\<lparr>variables := (variables (begin_relocation w))[p := visit_epoch (begin_relocation w)]\<rparr>"
    note bw = begin_relocation_ok [OF w]
    note w1 = visits_mark_variable [OF bw(1) pn, folded w1_def, unfolded bw(2,3)]
    have unmarked: "equations w1 ! own \<noteq> visit_epoch w1"
      using w1(1,3) on by (auto simp: relocation_reached_def visits_ok_def)
    have tc: "try_claim_preferred e p locked ctx m w = do {
        (relocated, m, w) \<leftarrow> relocate e locked ctx own m w1;
        (if \<not> relocated then Some (False, m, w) else do { m \<leftarrow> assign_match e p m; Some (True, m, w) }) }"
      using other pn len bw(1) by (simp add: try_claim_preferred_def slot_in Let_def w1_def visits_ok_def)
    show ?thesis
    proof (cases "locked ! own")
      case True
      then have "try_claim_preferred e p locked ctx m w = Some (False, m, w1)"
        using tc on lk w1(1) by (simp add: relocate_def visits_ok_def)
      moreover have "preference_blocked rows m e p locked"
        using True other unfolding preference_blocked_def relocation_blocked_def
        by (intro exI [of _ own] exI [of _ "{}"]) simp
      ultimately show ?thesis using ok w1(1) by auto
    next
      case False
      define w2 where "w2 = w1\<lparr>equations := (equations w1)[own := visit_epoch w1]\<rparr>"
      note w2 = visits_mark_equation [OF w1(1) on, folded w2_def, unfolded w1(2,3)]
      have me: "slot (match_eq m) own = Some p" using other(1) matching_okD(3) [OF ok] by simp
      have inv: "relocation_inv ctx m e p locked [new_frame own] w2"
        using other on False matching_okD(1) [OF ok] w2
        by (simp add: relocation_inv_def new_frame_def List.map_filter_simps)
      have "relocation_closing ctx m e locked [new_frame own] w2"
        using other False w2(2,3) me
        by (simp add: relocation_closing_def owners_known_def row_shown_def seen_def new_frame_def)
      from relocate_loop_ok [OF ok ctx b lk w2(1) inv this] obtain r m1 w'
        where r: "relocate_loop e locked ctx [new_frame own] m w2 = Some (r, m1, w')" "visits_ok n_eq n_var w'"
          "\<not> r \<longrightarrow> m1 = m \<and> relocation_reached w2 \<subseteq> relocation_reached w' \<and>
            relocation_blocked rows m e locked (relocation_reached w')"
          "r \<longrightarrow> weak_ok e rows n_eq n_var m1 \<and> slot (match_var m1) p = None \<and>
            dom (slot (match_eq m1)) = dom (slot (match_eq m)) \<and>
            (\<forall>a. a = e \<or> locked ! a \<longrightarrow> slot (match_eq m1) a = slot (match_eq m) a)" by blast
      have rel: "relocate e locked ctx own m w1 = Some (r, m1, w')"
        using False unmarked on lk w1(1) r(1) by (simp add: relocate_def visits_ok_def w2_def)
      show ?thesis
      proof (cases r)
        case False
        then have "preference_blocked rows m e p locked"
          using r(3) w2(3) other unfolding preference_blocked_def by blast
        then show ?thesis using False tc rel r(1-3) ok by auto
      next
        case True
        with r(4) have r': "weak_ok e rows n_eq n_var m1" "slot (match_var m1) p = None"
          "dom (slot (match_eq m1)) = dom (slot (match_eq m))"
          "\<forall>a. a = e \<or> locked ! a \<longrightarrow> slot (match_eq m1) a = slot (match_eq m) a" by blast+
        obtain m' where m': "assign_match e p m1 = Some m'" "matching_ok rows n_eq n_var m'"
          "slot (match_eq m') = (slot (match_eq m1))(e \<mapsto> p)"
          using assign_root [OF r'(1) b p r'(2) e] by blast
        have "try_claim_preferred e p locked ctx m w = Some (True, m', w')"
          using tc rel True m'(1) by simp
        with m' r' r(2) show ?thesis by auto
      qed
    qed
  qed
qed

definition holds_preference :: "MatchContext \<Rightarrow> Matching \<Rightarrow> nat \<Rightarrow> bool" where
  "holds_preference ctx m e \<longleftrightarrow> (\<exists>p. slot (preferred_vars ctx) e = Some p \<and> slot (match_eq m) e = Some p)"

text \<open>
  The same of an arbitrary assignment, and the greedy argument: before equation \<open>i\<close>, an
  earlier one was left without its target only if every matching of at least the equations
  matched now that grants it takes the target of an equation locked before.
\<close>

definition grants :: "MatchContext \<Rightarrow> (nat \<Rightarrow> nat option) \<Rightarrow> nat \<Rightarrow> bool" where
  "grants ctx f e \<longleftrightarrow> (\<exists>p. slot (preferred_vars ctx) e = Some p \<and> f e = Some p)"

lemma holds_grants: "holds_preference ctx m e \<longleftrightarrow> grants ctx (slot (match_eq m)) e"
  by (simp add: holds_preference_def grants_def)

definition none_skipped :: "MatchContext \<Rightarrow> nat \<Rightarrow> Matching \<Rightarrow> bool list \<Rightarrow> nat \<Rightarrow> bool" where
  "none_skipped ctx n_eq m locked i \<longleftrightarrow> (\<forall>e < i. \<forall>f. is_matching (eq_vars ctx) n_eq f \<longrightarrow>
     dom (slot (match_eq m)) \<subseteq> dom f \<longrightarrow> grants ctx f e \<longrightarrow> \<not> locked ! e \<longrightarrow>
     (\<exists>j < e. locked ! j \<and> \<not> grants ctx f j))"

lemma none_skippedD:
  "none_skipped ctx n_eq m locked i \<Longrightarrow> e < i \<Longrightarrow> is_matching (eq_vars ctx) n_eq f \<Longrightarrow>
   dom (slot (match_eq m)) \<subseteq> dom f \<Longrightarrow> grants ctx f e \<Longrightarrow> \<not> locked ! e \<Longrightarrow> \<exists>j < e. locked ! j \<and> \<not> grants ctx f j"
  by (simp add: none_skipped_def)

lemma none_skipped_grant:
  assumes old: "none_skipped ctx n_eq m locked i" and grow: "dom (slot (match_eq m)) \<subseteq> dom (slot (match_eq m'))"
    and i: "i < length locked"
  shows "none_skipped ctx n_eq m' (locked[i := True]) (Suc i)"
  unfolding none_skipped_def
proof (intro allI impI)
  fix e f assume e: "e < Suc i" and f: "is_matching (eq_vars ctx) n_eq f" "dom (slot (match_eq m')) \<subseteq> dom f" "grants ctx f e"
    and "\<not> locked[i := True] ! e"
  then have ne: "e \<noteq> i" "\<not> locked ! e" using i by (auto simp: nth_list_update split: if_splits)
  then obtain j where "j < e" "locked ! j" "\<not> grants ctx f j"
    using none_skippedD [OF old _ f(1) _ f(3)] e grow f(2) by fastforce
  then show "\<exists>j < e. locked[i := True] ! j \<and> \<not> grants ctx f j" using i by (intro exI [of _ j]) (simp add: nth_list_update)
qed

lemma none_skipped_pass:
  assumes old: "none_skipped ctx n_eq m locked i"
    and i: "\<And>f. is_matching (eq_vars ctx) n_eq f \<Longrightarrow> dom (slot (match_eq m)) \<subseteq> dom f \<Longrightarrow> grants ctx f i \<Longrightarrow>
      \<exists>j < i. locked ! j \<and> \<not> grants ctx f j"
  shows "none_skipped ctx n_eq m locked (Suc i)"
  unfolding none_skipped_def
proof (intro allI impI)
  fix e f assume e: "e < Suc i" and f: "is_matching (eq_vars ctx) n_eq f" "dom (slot (match_eq m)) \<subseteq> dom f" "grants ctx f e"
    and nl: "\<not> locked ! e"
  show "\<exists>j < e. locked ! j \<and> \<not> grants ctx f j"
    using none_skippedD [OF old _ f nl] i [OF f(1,2)] f(3) e by (cases "e = i") auto
qed

text \<open>A target whose owner is blocked is granted only at the price of a locked one.\<close>

lemma blocked_skips:
  assumes ok: "matching_ok (eq_vars ctx) n_eq n_var m" and bl: "preference_blocked (eq_vars ctx) m i p locked"
    and p: "slot (preferred_vars ctx) i = Some p"
    and held: "\<And>j. j < n_eq \<Longrightarrow> locked ! j \<Longrightarrow> j < i \<and> holds_preference ctx m j"
    and f: "is_matching (eq_vars ctx) n_eq f" "dom (slot (match_eq m)) \<subseteq> dom f" "grants ctx f i"
  shows "\<exists>j < i. locked ! j \<and> \<not> grants ctx f j"
proof (rule ccontr)
  assume "\<not> (\<exists>j < i. locked ! j \<and> \<not> grants ctx f j)"
  then have "f j = slot (match_eq m) j" if "j < n_eq" "locked ! j" for j
    using held [OF that] that by (auto simp: holds_grants grants_def)
  moreover obtain own D where "slot (match_var m) p = Some own" "own \<noteq> i" "own \<in> D \<or> locked ! own"
    "relocation_blocked (eq_vars ctx) m i locked D" using bl by (auto simp: preference_blocked_def)
  moreover have "f i = Some p" using f(3) p by (simp add: grants_def)
  ultimately show False using relocation_blocked_no_matching [OF ok _ _ _ _ f(1,2)] by blast
qed

text \<open>
  The invariant of the preference pass before equation \<open>i\<close>: locked equations hold their
  target, one that held it at the start but is not locked gave way to an earlier one, and
  no target was skipped.
\<close>

definition preference_inv ::
  "MatchContext \<Rightarrow> nat \<Rightarrow> nat \<Rightarrow> Matching \<Rightarrow> nat \<Rightarrow> bool list \<times> Matching \<times> RelocationVisits \<Rightarrow> bool" where
  "preference_inv ctx n_eq n_var m0 i = (\<lambda>(locked, m, w).
     matching_ok (eq_vars ctx) n_eq n_var m \<and> visits_ok n_eq n_var w \<and> length locked = n_eq \<and>
     dom (slot (match_eq m0)) \<subseteq> dom (slot (match_eq m)) \<and>
     (\<forall>e < n_eq. locked ! e \<longrightarrow> e < i \<and> holds_preference ctx m e) \<and>
     (m = m0 \<or> (\<exists>j < i. locked ! j \<and> \<not> holds_preference ctx m0 j)) \<and>
     (\<forall>e < i. holds_preference ctx m0 e \<longrightarrow> locked ! e \<or> (\<exists>j < e. locked ! j \<and> \<not> holds_preference ctx m0 j)) \<and>
     none_skipped ctx n_eq m locked i)"

lemma preference_step_ok:
  assumes b: "rows_bounded (eq_vars ctx) n_var" and m0: "matching_ok (eq_vars ctx) n_eq n_var m0"
    and i: "i < n_eq" and inv: "preference_inv ctx n_eq n_var m0 i (locked, m, w)"
  shows "\<exists>s'. preference_step ctx (locked, m, w) i = Some s' \<and> preference_inv ctx n_eq n_var m0 (Suc i) s'"
proof -
  define rows where "rows = eq_vars ctx"
  have ok: "matching_ok rows n_eq n_var m" and w: "visits_ok n_eq n_var w" and lk: "length locked = n_eq"
    and grow: "dom (slot (match_eq m0)) \<subseteq> dom (slot (match_eq m))"
    and held: "\<forall>e < n_eq. locked ! e \<longrightarrow> e < i \<and> holds_preference ctx m e"
    and skip: "none_skipped ctx n_eq m locked i"
    and ch: "m = m0 \<or> (\<exists>j < i. locked ! j \<and> \<not> holds_preference ctx m0 j)"
    and old: "\<forall>e < i. holds_preference ctx m0 e \<longrightarrow> locked ! e \<or> (\<exists>j < e. locked ! j \<and> \<not> holds_preference ctx m0 j)"
    using inv by (auto simp: preference_inv_def rows_def)
  have len: "length (match_eq m) = n_eq" using matching_okD(1) [OF ok] .
  have upd_old: "\<exists>j < e. locked[i := True] ! j \<and> \<not> holds_preference ctx m0 j"
    if "e \<le> Suc i" "\<exists>j < e. locked ! j \<and> \<not> holds_preference ctx m0 j" for e
    using that i lk by (metis nth_list_update_eq nth_list_update_neq)
  have w2: "locked[i := True] ! e \<or> (\<exists>j < e. locked[i := True] ! j \<and> \<not> holds_preference ctx m0 j)"
    if e: "e < Suc i" "holds_preference ctx m0 e" for e
  proof (cases "e = i")
    case True
    then show ?thesis using i lk by simp
  next
    case False
    with e old have "locked ! e \<or> (\<exists>j < e. locked ! j \<and> \<not> holds_preference ctx m0 j)" by auto
    with False upd_old [of e] e(1) show ?thesis by auto
  qed
  have pass: "preference_inv ctx n_eq n_var m0 (Suc i) (locked, m, w')"
    if "\<not> holds_preference ctx m0 i" "visits_ok n_eq n_var w'" "none_skipped ctx n_eq m locked (Suc i)" for w'
    using inv that by (auto simp: preference_inv_def less_Suc_eq)
  show ?thesis
  proof (cases "slot (preferred_vars ctx) i")
    case None
    then have "none_skipped ctx n_eq m locked (Suc i)" by (intro none_skipped_pass [OF skip]) (simp add: grants_def)
    with None pass [OF _ w] show ?thesis by (simp add: preference_step_def holds_preference_def)
  next
    case (Some p)
    show ?thesis
    proof (cases "p \<in> set (row rows i)")
      case False
      then have "\<not> holds_preference ctx m0 i"
        using matching_okD(4) [OF m0] Some by (auto simp: holds_preference_def rows_def)
      moreover have "none_skipped ctx n_eq m locked (Suc i)"
        using False Some by (intro none_skipped_pass [OF skip]) (auto simp: grants_def is_matching_def rows_def)
      ultimately show ?thesis using pass [OF _ w] False Some by (simp add: preference_step_def rows_def)
    next
      case True
      show ?thesis
      proof (cases "match_eq m ! i = Some p")
        case hold: True
        then have hp: "holds_preference ctx m i" using Some i len by (simp add: holds_preference_def slot_in)
        have "preference_step ctx (locked, m, w) i = Some (locked[i := True], m, w)"
          using Some True hold i len lk by (simp add: preference_step_def rows_def)
        moreover have "preference_inv ctx n_eq n_var m0 (Suc i) (locked[i := True], m, w)"
        proof -
          have "\<forall>e < n_eq. locked[i := True] ! e \<longrightarrow> e < Suc i \<and> holds_preference ctx m e"
            using held hp lk i by (auto simp: nth_list_update less_Suc_eq split: if_splits)
          moreover have "none_skipped ctx n_eq m (locked[i := True]) (Suc i)"
            using none_skipped_grant [OF skip subset_refl] lk i by simp
          moreover have "m = m0 \<or> (\<exists>j < Suc i. locked[i := True] ! j \<and> \<not> holds_preference ctx m0 j)"
            using ch upd_old [of "Suc i"] by (meson less_SucI order_refl)
          ultimately show ?thesis using ok w lk grow w2 by (simp add: preference_inv_def rows_def)
        qed
        ultimately show ?thesis by blast
      next
        case nhold: False
        obtain r m' w' where tc: "try_claim_preferred i p locked ctx m w = Some (r, m', w')" "visits_ok n_eq n_var w'"
          "matching_ok rows n_eq n_var m'"
          "\<not> r \<longrightarrow> m' = m \<and> (slot (match_eq m) i = Some p \<or> preference_blocked rows m i p locked)"
          "r \<longrightarrow> slot (match_eq m') i = Some p \<and> dom (slot (match_eq m')) = insert i (dom (slot (match_eq m))) \<and>
            (\<forall>a. a \<noteq> i \<and> locked ! a \<longrightarrow> slot (match_eq m') a = slot (match_eq m) a)"
          using try_claim_ok [OF ok rows_def [symmetric] b [folded rows_def] lk w i True]
          by (elim exE conjE) (rule that)
        have np: "\<not> holds_preference ctx m i" using Some nhold i len by (simp add: holds_preference_def slot_in)
        show ?thesis
        proof (cases r)
          case False
          then have st: "preference_step ctx (locked, m, w) i = Some (locked, m, w')"
            using Some True nhold i len tc by (simp add: preference_step_def rows_def)
          have bl: "preference_blocked rows m i p locked" using False tc(4) np Some by (auto simp: holds_preference_def)
          have "none_skipped ctx n_eq m locked (Suc i)"
            using ok bl held Some by (intro none_skipped_pass [OF skip] blocked_skips [of ctx n_eq n_var m]) (auto simp: rows_def)
          then have "preference_inv ctx n_eq n_var m0 (Suc i) (locked, m, w')"
            using inv tc(2) np ch by (auto simp: preference_inv_def less_Suc_eq)
          with st show ?thesis by blast
        next
          case r: True
          then have st: "preference_step ctx (locked, m, w) i = Some (locked[i := True], m', w')"
            using Some True nhold i len lk tc(1) by (simp add: preference_step_def rows_def)
          have hp: "holds_preference ctx m' i" using tc(5) r Some by (simp add: holds_preference_def)
          have "e < Suc i \<and> holds_preference ctx m' e" if "e < n_eq" "locked ! e" for e
            using that held tc(5) r hp by (cases "e = i") (auto simp: holds_preference_def)
          then have held': "\<forall>e < n_eq. locked[i := True] ! e \<longrightarrow> e < Suc i \<and> holds_preference ctx m' e"
            using hp lk i by (auto simp: nth_list_update split: if_splits)
          have skip': "none_skipped ctx n_eq m' (locked[i := True]) (Suc i)"
            using tc(5) r lk i by (intro none_skipped_grant [OF skip]) auto
          have w1: "\<exists>j < Suc i. locked[i := True] ! j \<and> \<not> holds_preference ctx m0 j"
            using ch np i lk upd_old [of "Suc i"] by (metis less_SucI lessI nth_list_update_eq order_refl)
          have "dom (slot (match_eq m0)) \<subseteq> dom (slot (match_eq m'))" using grow tc(5) r by blast
          with tc(2,3) lk held' w1 w2 skip' have "preference_inv ctx n_eq n_var m0 (Suc i) (locked[i := True], m', w')"
            by (simp add: preference_inv_def rows_def)
          with st show ?thesis by blast
        qed
      qed
    qed
  qed
qed

lemma maximize_ok:
  assumes b: "rows_bounded (eq_vars ctx) n_var" and m0: "matching_ok (eq_vars ctx) n_eq n_var m0"
  shows "\<exists>m. maximize_preserved_preferences ctx m0 = Some m \<and> matching_ok (eq_vars ctx) n_eq n_var m \<and>
    dom (slot (match_eq m0)) \<subseteq> dom (slot (match_eq m)) \<and>
    (\<forall>e. holds_preference ctx m0 e \<longrightarrow> holds_preference ctx m e \<or>
      (\<exists>j < e. holds_preference ctx m j \<and> \<not> holds_preference ctx m0 j)) \<and>
    (\<forall>f e. is_matching (eq_vars ctx) n_eq f \<longrightarrow> dom (slot (match_eq m)) \<subseteq> dom f \<longrightarrow>
      grants ctx f e \<longrightarrow> \<not> holds_preference ctx m e \<longrightarrow> (\<exists>j < e. holds_preference ctx m j \<and> \<not> grants ctx f j))"
proof -
  have len: "length (match_eq m0) = n_eq" "length (match_var m0) = n_var" using matching_okD(1,2) [OF m0] .
  have init: "preference_inv ctx n_eq n_var m0 0 (replicate n_eq False, m0, relocation_visits_new n_eq n_var)"
    using m0 by (auto simp: preference_inv_def visits_ok_def relocation_visits_new_def none_skipped_def)
  have "\<exists>s'. preference_step ctx s i = Some s' \<and> preference_inv ctx n_eq n_var m0 (Suc i) s'"
    if "i < n_eq" "preference_inv ctx n_eq n_var m0 i s" for i s
    using preference_step_ok [OF b m0 that(1)] that(2) by (cases s) auto
  from try_fold_upt [of "preference_inv ctx n_eq n_var m0" _ n_eq "preference_step ctx", OF init this]
  obtain locked m w where
    tf: "try_fold (preference_step ctx) (replicate n_eq False, m0, relocation_visits_new n_eq n_var) [0..<n_eq] =
      Some (locked, m, w)" and inv: "preference_inv ctx n_eq n_var m0 n_eq (locked, m, w)" by auto
  have "holds_preference ctx m e \<or> (\<exists>j < e. holds_preference ctx m j \<and> \<not> holds_preference ctx m0 j)"
    if "holds_preference ctx m0 e" for e
  proof -
    have "e < n_eq" using that len by (auto simp: holds_preference_def dest: slot_range)
    then show ?thesis using inv that by (auto simp: preference_inv_def)
  qed
  moreover have "\<exists>j < e. holds_preference ctx m j \<and> \<not> grants ctx f j"
    if f: "is_matching (eq_vars ctx) n_eq f" "dom (slot (match_eq m)) \<subseteq> dom f" "grants ctx f e"
      and nh: "\<not> holds_preference ctx m e" for f e
  proof -
    have e: "e < n_eq" using f(1,3) by (auto simp: is_matching_def grants_def)
    then have nl: "\<not> locked ! e" using nh inv by (auto simp: preference_inv_def)
    have "none_skipped ctx n_eq m locked n_eq" using inv by (simp add: preference_inv_def)
    from none_skippedD [OF this e f nl] obtain j where "j < e" "locked ! j" "\<not> grants ctx f j" by blast
    then show ?thesis using inv e by (auto simp: preference_inv_def)
  qed
  moreover have "maximize_preserved_preferences ctx m0 = Some m"
    using tf len by (simp add: maximize_preserved_preferences_def)
  ultimately show ?thesis using inv by (auto simp: preference_inv_def)
qed


section \<open>The matching is valid and maximum\<close>

lemma rows_bounded_from_sets: "\<forall>r \<in> set rows. \<forall>v \<in> set r. v < n \<Longrightarrow> rows_bounded (from_sets rows) n"
  using csr_row [OF csr_from_sets [of rows]] by (fastforce simp: rows_bounded_def)

lemma maximum_matching_correct:
  assumes b: "rows_bounded rows n_var"
  shows "\<exists>m. maximum_matching_with_structured n_eq n_var rows preferred families = Some m \<and>
    matching_ok rows n_eq n_var m \<and> (\<forall>f. is_matching rows n_eq f \<longrightarrow> card (dom f) \<le> card (dom (slot (match_eq m))))"
proof -
  define ctx where "ctx = \<lparr>eq_vars = rows, preferred_vars = preferred\<rparr>"
  obtain ranges m0 where seed: "seed_structured_family_matches rows families
      \<lparr>match_eq = replicate n_eq None, match_var = replicate n_var None\<rparr> = (ranges, m0)" by fastforce
  obtain m1 s C where k: "try_fold (kuhn_step ctx) (m0, scratch_new n_var)
      (kuhn_equation_order n_eq (match_eq m0) preferred ranges) = Some (m1, s)" "matching_ok rows n_eq n_var m1"
    "closed rows C m1" "\<forall>e < n_eq. slot (match_eq m1) e = None \<longrightarrow> e \<in> C"
    using kuhn_phase_ok [OF b seed, of preferred] unfolding ctx_def by blast
  obtain m where m: "maximize_preserved_preferences ctx m1 = Some m" "matching_ok rows n_eq n_var m"
    "dom (slot (match_eq m1)) \<subseteq> dom (slot (match_eq m))"
    using maximize_ok [of ctx n_var n_eq m1] b k(2) by (auto simp: ctx_def)
  have "finite (dom (slot (match_eq m)))"
    by (rule finite_subset [of _ "{..<length (match_eq m)}"]) (auto dest: slot_range)
  then have "card (dom (slot (match_eq m1))) \<le> card (dom (slot (match_eq m)))" using m(3) by (rule card_mono)
  then have "card (dom f) \<le> card (dom (slot (match_eq m)))" if "is_matching rows n_eq f" for f
    using closed_maximum [OF k(2,3) _ that] k(4) by fastforce
  moreover have "maximum_matching_with_structured n_eq n_var rows preferred families = Some m"
    using seed k(1) m(1) by (simp add: maximum_matching_with_structured_def Let_def ctx_def)
  ultimately show ?thesis using m(2) by blast
qed

text \<open>
  The contract the block sorting relies on, and what follows from it: every equation is
  matched exactly when some assignment gives each equation its own variable.
\<close>

locale maximum_matcher =
  fixes matcher :: "nat \<Rightarrow> nat \<Rightarrow> IncidenceRows \<Rightarrow> Matching option"
  assumes matcher_ok: "rows_bounded rows n_var \<Longrightarrow> \<exists>m. matcher n_eq n_var rows = Some m \<and>
    matching_ok rows n_eq n_var m \<and>
    (\<forall>f. is_matching rows n_eq f \<longrightarrow> card (dom f) \<le> card (dom (slot (match_eq m))))"
begin

lemma matcher_result:
  assumes "rows_bounded rows n_var" "matcher n_eq n_var rows = Some m"
  shows "matching_ok rows n_eq n_var m"
    "is_matching rows n_eq f \<Longrightarrow> card (dom f) \<le> card (dom (slot (match_eq m)))"
  using matcher_ok [OF assms(1), of n_eq] assms(2) by auto

lemma matched_all_iff:
  assumes b: "rows_bounded rows n_var" and m: "matcher n_eq n_var rows = Some m"
  shows "(\<forall>e < n_eq. slot (match_eq m) e \<noteq> None) \<longleftrightarrow> (\<exists>f. is_matching rows n_eq f \<and> dom f = {..<n_eq})"
proof
  note ok = matcher_result(1) [OF b m]
  have sub: "dom (slot (match_eq m)) \<subseteq> {..<n_eq}"
    using matching_okD(1) [OF ok] by (auto dest: slot_range)
  show "\<exists>f. is_matching rows n_eq f \<and> dom f = {..<n_eq}" if "\<forall>e < n_eq. slot (match_eq m) e \<noteq> None"
  proof (intro exI conjI)
    show "dom (slot (match_eq m)) = {..<n_eq}" using that sub by auto
    show "is_matching rows n_eq (slot (match_eq m))"
      unfolding is_matching_def
    proof (intro conjI allI impI inj_onI)
      fix e v assume "slot (match_eq m) e = Some v"
      then show "e < n_eq" "v \<in> set (row rows e)"
        using matching_okD(1,4) [OF ok] by (auto dest: slot_range)
    next
      fix x y assume xy: "x \<in> dom (slot (match_eq m))" "slot (match_eq m) x = slot (match_eq m) y"
      then obtain v where "slot (match_eq m) x = Some v" "slot (match_eq m) y = Some v" by force
      then show "x = y" using matching_okD(3) [OF ok] by (metis option.inject)
    qed
  qed
  show "\<forall>e < n_eq. slot (match_eq m) e \<noteq> None" if ex: "\<exists>f. is_matching rows n_eq f \<and> dom f = {..<n_eq}"
  proof -
    obtain f where "is_matching rows n_eq f" "dom f = {..<n_eq}" using ex by blast
    with matcher_result(2) [OF b m] have "n_eq \<le> card (dom (slot (match_eq m)))" by fastforce
    with sub have "dom (slot (match_eq m)) = {..<n_eq}" by (intro card_subset_eq) (auto intro: antisym card_mono [of "{..<n_eq}", simplified])
    then show ?thesis by auto
  qed
qed

end

interpretation km: maximum_matcher "\<lambda>n_eq n_var rows. maximum_matching_with_structured n_eq n_var rows preferred families"
  for preferred families
  by unfold_locales (rule maximum_matching_correct)

section \<open>Properties\<close>

text \<open>C4: For rows whose entries name existing variables, the matching phase ends without a
  panic; its two halves are mutually inverse and match equations only to variables they
  refer to; and no assignment of distinct variables to equations matches more of them,
  whatever seeds and preferences were given.\<close>

theorem maximum_matching_valid_maximum:
  assumes "rows_bounded rows n_var"
  shows "\<exists>m. maximum_matching_with_structured n_eq n_var rows preferred families = Some m \<and>
    length (match_eq m) = n_eq \<and> length (match_var m) = n_var \<and>
    (\<forall>e v. slot (match_eq m) e = Some v \<longleftrightarrow> slot (match_var m) v = Some e) \<and>
    (\<forall>e v. slot (match_eq m) e = Some v \<longrightarrow> v \<in> set (row rows e)) \<and>
    (\<forall>f. is_matching rows n_eq f \<longrightarrow> card (dom f) \<le> card (dom (slot (match_eq m)))) \<and>
    ((\<forall>e < n_eq. slot (match_eq m) e \<noteq> None) \<longleftrightarrow> (\<exists>f. is_matching rows n_eq f \<and> dom f = {..<n_eq}))"
proof -
  obtain m where m: "maximum_matching_with_structured n_eq n_var rows preferred families = Some m"
    using km.matcher_ok [OF assms] by blast
  note r = km.matcher_result [OF assms m] km.matched_all_iff [OF assms m]
  have "length (match_eq m) = n_eq \<and> length (match_var m) = n_var \<and>
    (\<forall>e v. slot (match_eq m) e = Some v \<longleftrightarrow> slot (match_var m) v = Some e) \<and>
    (\<forall>e v. slot (match_eq m) e = Some v \<longrightarrow> v \<in> set (row rows e))"
    using r(1) unfolding matching_ok_def .
  with m r(2,3) show ?thesis by (intro exI [of _ m]) simp
qed

theorem maximum_matching_valid_maximum_witness:
  "\<exists>m. maximum_matching_with_structured 2 2 (from_sets [[0, 1], [0]]) [None, None] [] = Some m \<and>
     length (match_eq m) = 2"
proof -
  have "rows_bounded (from_sets [[0, 1], [0]]) 2" by (rule rows_bounded_from_sets) auto
  from maximum_matching_valid_maximum [OF this, of 2 "[None, None]" "[]"] show ?thesis
    by (elim exE conjE) (intro exI conjI)
qed

text \<open>C25: The preference pass keeps the matching valid and every matched equation matched,
  and makes the satisfied causal targets lexicographically best in source order. It does not
  only exchange: if any valid matching of at least the equations matched in the end grants an
  equation the target that the pass left it without, that matching denies its target to an
  earlier equation the pass satisfied, so no target is skipped that could still be granted.
  An equation that held its target before and loses it lost it for an earlier equation that
  gained its own.\<close>

theorem preferences_lexicographic:
  assumes "rows_bounded (eq_vars ctx) n_var" and "matching_ok (eq_vars ctx) n_eq n_var m0"
  shows "\<exists>m. maximize_preserved_preferences ctx m0 = Some m \<and> matching_ok (eq_vars ctx) n_eq n_var m \<and>
    dom (slot (match_eq m0)) \<subseteq> dom (slot (match_eq m)) \<and>
    (\<forall>e. holds_preference ctx m0 e \<longrightarrow> holds_preference ctx m e \<or>
      (\<exists>j < e. holds_preference ctx m j \<and> \<not> holds_preference ctx m0 j)) \<and>
    (\<forall>f e. is_matching (eq_vars ctx) n_eq f \<longrightarrow> dom (slot (match_eq m)) \<subseteq> dom f \<longrightarrow>
      grants ctx f e \<longrightarrow> \<not> holds_preference ctx m e \<longrightarrow> (\<exists>j < e. holds_preference ctx m j \<and> \<not> grants ctx f j))"
  using assms by (rule maximize_ok)

theorem preferences_lexicographic_witness:
  "\<exists>m. maximize_preserved_preferences \<lparr>eq_vars = from_sets [[0, 1], [0, 1]], preferred_vars = [Some 1, None]\<rparr>
     \<lparr>match_eq = [Some 0, Some 1], match_var = [Some 0, Some 1]\<rparr> = Some m \<and> slot (match_eq m) 0 = Some 1"
proof -
  let ?ctx = "\<lparr>eq_vars = from_sets [[0, 1], [0, 1]], preferred_vars = [Some 1, None]\<rparr>"
  let ?m0 = "\<lparr>match_eq = [Some 0, Some 1], match_var = [Some 0, Some 1]\<rparr>"
  let ?f = "[0 \<mapsto> 1, 1 \<mapsto> 0] :: nat \<Rightarrow> nat option"
  have r: "set (row (from_sets [[0, 1], [0, 1]]) e) = (if e < 2 then {0, 1} else {})" for e
    using csr_row [OF csr_from_sets [of "[[0, 1], [0, 1]]"], of e] by (auto simp: less_2_cases_iff)
  note r = r [unfolded One_nat_def]
  have b: "rows_bounded (eq_vars ?ctx) 2" by (simp, rule rows_bounded_from_sets) auto
  have ok: "matching_ok (eq_vars ?ctx) 2 2 ?m0"
    by (auto simp: matching_ok_def slot_def r nth_Cons split: if_splits nat.splits)
  from preferences_lexicographic [OF b ok] obtain m
    where m: "maximize_preserved_preferences ?ctx ?m0 = Some m" "matching_ok (eq_vars ?ctx) 2 2 m"
      and best: "\<forall>f e. is_matching (eq_vars ?ctx) 2 f \<longrightarrow> dom (slot (match_eq m)) \<subseteq> dom f \<longrightarrow>
        grants ?ctx f e \<longrightarrow> \<not> holds_preference ?ctx m e \<longrightarrow> (\<exists>j < e. holds_preference ?ctx m j \<and> \<not> grants ?ctx f j)"
    by (elim exE conjE) (rule that)
  have f: "is_matching (eq_vars ?ctx) 2 ?f" by (auto simp: is_matching_def r inj_on_def split: if_splits)
  have d: "dom (slot (match_eq m)) \<subseteq> dom ?f"
    using matching_okD(1) [OF m(2)] by (auto simp: less_2_cases_iff dest!: slot_range)
  have g: "grants ?ctx ?f 0" by (simp add: grants_def slot_def)
  have "holds_preference ?ctx m 0"
  proof (rule ccontr)
    assume "\<not> holds_preference ?ctx m 0"
    from best [rule_format, OF f d g this] show False by blast
  qed
  with m(1) show ?thesis by (auto simp: holds_preference_def slot_def)
qed

text \<open>C26: A failed augmenting search proves that its equation cannot be matched in
  addition: it leaves the matching as it was together with a set of equations, the
  start among them, all of whose variables are matched into the set; a successful one
  matches exactly the start equation in addition.\<close>

theorem augment_certificate:
  assumes "matching_ok rows n_eq n_var m" "eq_vars ctx = rows" "rows_bounded rows n_var"
    and "scratch_ok n_var s" "e < n_eq" "slot (match_eq m) e = None"
  shows "\<exists>found m' s'. augment e m ctx (begin_search s) = Some (found, m', s') \<and>
    matching_ok rows n_eq n_var m' \<and>
    (found \<longrightarrow> dom (slot (match_eq m')) = insert e (dom (slot (match_eq m)))) \<and>
    (\<not> found \<longrightarrow> m' = m \<and> (\<exists>D. e \<in> D \<and> closed rows D m))"
proof -
  have "search_inv ctx m e {} [new_frame e] (begin_search s)"
    using begin_search_ok [OF assms(4)] assms(5,6) matching_okD(1) [OF assms(1)]
    by (auto simp: search_inv_def new_frame_def seen_def List.map_filter_simps)
  from run_augment_search_ok [OF assms(1-3) _ this] begin_search_ok [OF assms(4)]
  show ?thesis unfolding augment_def by blast
qed

theorem augment_certificate_witness:
  "\<exists>found m' s'. augment 0 \<lparr>match_eq = [None], match_var = [None]\<rparr>
      \<lparr>eq_vars = from_sets [[0]], preferred_vars = []\<rparr> (begin_search (scratch_new 1)) = Some (found, m', s')"
proof -
  have r: "row (from_sets [[0]]) e = (if e = 0 then [0] else [])" for e
    using csr_row [OF csr_from_sets [of "[[0]]"], of e] by simp
  have "matching_ok (from_sets [[0]]) 1 1 \<lparr>match_eq = [None], match_var = [None]\<rparr>"
    using empty_matching_ok [of "from_sets [[0]]" 1 1] by simp
  moreover have "rows_bounded (from_sets [[0]]) 1" by (auto simp: rows_bounded_def r split: if_splits)
  moreover have "scratch_ok 1 (scratch_new 1)" by (simp add: scratch_ok_def scratch_new_def)
  ultimately show ?thesis
    using augment_certificate [of "from_sets [[0]]" 1 1 "\<lparr>match_eq = [None], match_var = [None]\<rparr>"
        "\<lparr>eq_vars = from_sets [[0]], preferred_vars = []\<rparr>" "scratch_new 1" 0]
    by (auto simp: slot_def)
qed


end
