(* ===== verification/Sorting.thy ===== *)
theory Sorting
  imports Blt Matching_Correct
begin

text \<open>
  Sorting a system from its incidence (\<open>lib.rs\<close>, \<open>types.rs\<close>, \<open>solver_incidence\<close> of
  \<open>incidence.rs\<close>): matching, the perfect-matching check, the report of a singular system
  with its over-determined block, and the blocks. What \<open>sort_from_incidence\<close> reads of the
  checked DAE besides the incidence, the derivative preferences, the labels of equations
  and unknowns and the warnings, is an argument.
\<close>

section \<open>Errors and labels\<close>

record SingularBlockWitness =
  witness_equations :: nat
  witness_unknowns :: nat
  witness_sample :: "string list"

datatype StructuralError =
  Singular nat nat nat "string list" "string list" "Span list" SingularBlockWitness
| EmptySystem
| ContractViolation string Span
| UnspannedContractViolation string

definition equation_index_label :: "nat \<Rightarrow> string" where
  "equation_index_label i = ''f_x['' @ show_nat i @ '']''"

definition unknown_index_label :: "nat \<Rightarrow> string" where
  "unknown_index_label i = ''unknown['' @ show_nat i @ '']''"

text \<open>The positions without a match, in order.\<close>

definition unmatched :: "nat option list \<Rightarrow> nat list" where
  "unmatched slots = filter (\<lambda>i. slots ! i = None) [0..<length slots]"

definition matched_count :: "nat option list \<Rightarrow> nat" where
  "matched_count slots = length (filter (\<lambda>s. s \<noteq> None) slots)"

section \<open>The over-determined block\<close>

record BlockSearch =
  seen_equations :: "bool list"
  seen_unknowns :: "bool list"
  pending :: "nat list"

definition visit_unknown :: "nat option list \<Rightarrow> BlockSearch \<Rightarrow> nat \<Rightarrow> BlockSearch option" where
  "visit_unknown m_var s unknown = do {
     seen \<leftarrow> idx (seen_unknowns s) unknown;
     (if seen then Some s
      else (let s = s\<lparr>seen_unknowns := (seen_unknowns s)[unknown := True]\<rparr> in do {
        matched \<leftarrow> idx m_var unknown;
        (case matched of
           None \<Rightarrow> Some s
         | Some owner \<Rightarrow> do {
             owner_seen \<leftarrow> idx (seen_equations s) owner;
             Some (if owner_seen then s
                   else s\<lparr>seen_equations := (seen_equations s)[owner := True],
                          pending := pending s @ [owner]\<rparr>)
           })
      }))
   }"

definition unseen :: "BlockSearch \<Rightarrow> nat" where
  "unseen s = length (filter (\<lambda>b. \<not> b) (seen_equations s))"

lemma visit_unknown_measure:
  assumes "visit_unknown m_var s u = Some s'"
  shows "unseen s' + length (pending s') = unseen s + length (pending s)"
proof -
  have *: "length (filter (\<lambda>b. \<not> b) (xs[i := True])) + 1 = length (filter (\<lambda>b. \<not> b) xs)"
    if "i < length xs" "\<not> xs ! i" for i xs
  proof -
    have "xs = take i xs @ xs ! i # drop (Suc i) xs" using that(1) by (rule id_take_nth_drop)
    then have "length (filter (\<lambda>b. \<not> b) xs) = length (filter (\<lambda>b. \<not> b) (take i xs @ xs ! i # drop (Suc i) xs))" by simp
    then show ?thesis using that by (simp add: upd_conv_take_nth_drop)
  qed
  show ?thesis
    using assms * [of _ "seen_equations s"]
    by (fastforce simp: visit_unknown_def unseen_def Let_def res_simps split: if_splits option.splits)
qed

lemma visit_unknowns_measure:
  "try_fold (visit_unknown m_var) s us = Some s' \<Longrightarrow>
     unseen s' + length (pending s') = unseen s + length (pending s)"
  by (rule try_fold_invariant [where I = "\<lambda>t. unseen t + length (pending t) = unseen s + length (pending s)"])
    (auto dest: visit_unknown_measure)

text \<open>\<open>while let Some(equation) = pending.pop()\<close>.\<close>

function block_search :: "IncidenceRows \<Rightarrow> nat option list \<Rightarrow> BlockSearch \<Rightarrow> BlockSearch option" where
  "block_search rows m_var s =
     (if pending s = [] then Some s
      else (case try_fold (visit_unknown m_var) (s\<lparr>pending := butlast (pending s)\<rparr>) (row rows (last (pending s))) of
              None \<Rightarrow> None
            | Some s' \<Rightarrow> block_search rows m_var s'))"
  by pat_completeness auto
termination
proof (relation "measure (\<lambda>(_, _, s). unseen s + length (pending s))")
  fix rows m_var s s'
  assume "pending s \<noteq> []"
    "try_fold (visit_unknown m_var) (s\<lparr>pending := butlast (pending s)\<rparr>) (row rows (last (pending s))) = Some s'"
  from visit_unknowns_measure [OF this(2)] this(1)
  show "((rows, m_var, s'), rows, m_var, s) \<in> measure (\<lambda>(_, _, s). unseen s + length (pending s))"
    by (auto simp: unseen_def neq_Nil_conv)
qed simp

declare block_search.simps [simp del]

definition start_search :: "Incidence \<Rightarrow> nat option list \<Rightarrow> BlockSearch option" where
  "start_search incidence m_eq = do {
     seen \<leftarrow> try_fold (\<lambda>seen equation. upd seen equation True)
       (replicate (inc_n_eq incidence) False) (unmatched m_eq);
     Some \<lparr>seen_equations = seen, seen_unknowns = replicate (inc_n_var incidence) False,
           pending = unmatched m_eq\<rparr>
   }"

definition over_determined_block ::
  "Incidence \<Rightarrow> nat option list \<Rightarrow> nat option list \<Rightarrow> SingularBlockWitness option" where
  "over_determined_block incidence m_eq m_var = do {
     s \<leftarrow> start_search incidence m_eq;
     s \<leftarrow> block_search (inc_eq_unknowns incidence) m_var s;
     Some \<lparr>witness_equations = length (filter (\<lambda>b. b) (seen_equations s)),
           witness_unknowns = length (filter (\<lambda>b. b) (seen_unknowns s)),
           witness_sample = take 24 (map equation_index_label
             (filter (\<lambda>i. seen_equations s ! i) [0..<length (seen_equations s)]))\<rparr>
   }"

definition unmatched_spans :: "Incidence \<Rightarrow> nat option list \<Rightarrow> Span list" where
  "unmatched_spans incidence m_var = List.map_filter (idx (inc_unknown_spans incidence)) (unmatched m_var)"

definition unlabeled_singular ::
  "Incidence \<Rightarrow> nat option list \<Rightarrow> nat option list \<Rightarrow> StructuralError option" where
  "unlabeled_singular incidence m_eq m_var = do {
     block \<leftarrow> over_determined_block incidence m_eq m_var;
     Some (Singular (inc_n_eq incidence) (inc_n_var incidence) (matched_count m_eq)
       (map equation_index_label (unmatched m_eq)) (map unknown_index_label (unmatched m_var))
       (unmatched_spans incidence m_var) block)
   }"

definition require_perfect_matching ::
  "(EquationRef \<Rightarrow> string) \<Rightarrow> (UnknownId \<Rightarrow> string) \<Rightarrow> Incidence \<Rightarrow> nat option list \<Rightarrow> nat option list \<Rightarrow>
   (StructuralError + unit) option" where
  "require_perfect_matching equation_label unknown_label incidence m_eq m_var =
     (if matched_count m_eq = inc_n_eq incidence \<and> matched_count m_eq = inc_n_var incidence then Some (Inr ())
      else do {
        equations \<leftarrow> those (map (\<lambda>i. map_option equation_label (idx (inc_equation_refs incidence) i)) (unmatched m_eq));
        unknowns \<leftarrow> those (map (\<lambda>i. map_option unknown_label (idx (inc_unknowns incidence) i)) (unmatched m_var));
        block \<leftarrow> over_determined_block incidence m_eq m_var;
        Some (Inl (Singular (inc_n_eq incidence) (inc_n_var incidence) (matched_count m_eq)
          equations unknowns (unmatched_spans incidence m_var) block))
      })"

section \<open>Sorting\<close>

definition maximum_matching :: "Incidence \<Rightarrow> nat option list \<Rightarrow> Matching option" where
  "maximum_matching incidence preferred_unknowns =
     maximum_matching_with_structured (inc_n_eq incidence) (inc_n_var incidence)
       (inc_eq_unknowns incidence) preferred_unknowns (inc_structured_matching incidence)"

definition build_blt_from_incidence :: "Incidence \<Rightarrow> (StructuralError + BltBlock list) option" where
  "build_blt_from_incidence incidence =
     (if inc_n_eq incidence = 0 \<and> inc_n_var incidence = 0 then Some (Inr [])
      else do {
        m \<leftarrow> maximum_matching incidence [];
        (if matched_count (match_eq m) < inc_n_eq incidence \<or> matched_count (match_eq m) < inc_n_var incidence
         then map_option Inl (unlabeled_singular incidence (match_eq m) (match_var m))
         else map_option Inr (build_blt_blocks None incidence (match_eq m)
           (build_dependency_graph (inc_eq_unknowns incidence) (match_var m) (inc_n_eq incidence))))
      })"

record SortedDae =
  sorted_blocks :: "BltBlock list"
  sorted_matching :: "(EquationRef \<times> UnknownId) list"
  sorted_diagnostics :: "string list"

definition sort_from_incidence ::
  "DaeView \<Rightarrow> nat option list \<Rightarrow> (EquationRef \<Rightarrow> string) \<Rightarrow> (UnknownId \<Rightarrow> string) \<Rightarrow>
   (nat option list \<Rightarrow> nat list list \<Rightarrow> string list) \<Rightarrow> Incidence \<Rightarrow> (StructuralError + SortedDae) option" where
  "sort_from_incidence view preferences equation_label unknown_label collect_warnings incidence =
     (if inc_n_eq incidence = 0 \<and> inc_n_var incidence = 0 then Some (Inl EmptySystem)
      else do {
        m \<leftarrow> maximum_matching incidence preferences;
        perfect \<leftarrow> require_perfect_matching equation_label unknown_label incidence (match_eq m) (match_var m);
        (case perfect of
           Inl e \<Rightarrow> Some (Inl e)
         | Inr _ \<Rightarrow>
             (let adjacency = build_dependency_graph (inc_eq_unknowns incidence) (match_var m) (inc_n_eq incidence) in do {
               blocks \<leftarrow> build_blt_blocks (Some view) incidence (match_eq m) adjacency;
               pairs \<leftarrow> those (map (\<lambda>equation. do {
                   unknown \<leftarrow> slot (match_eq m) equation;
                   eq_ref \<leftarrow> idx (inc_equation_refs incidence) equation;
                   var_id \<leftarrow> idx (inc_unknowns incidence) unknown;
                   Some (eq_ref, var_id)
                 }) (filter (\<lambda>equation. match_eq m ! equation \<noteq> None) [0..<length (match_eq m)]));
               Some (Inr \<lparr>sorted_blocks = blocks, sorted_matching = pairs,
                     sorted_diagnostics = collect_warnings (match_eq m) adjacency\<rparr>)
             }))
      })"

definition solver_incidence :: "nat list list \<Rightarrow> nat \<Rightarrow> StructuralError + Incidence" where
  "solver_incidence rows unknown_count =
     (let eq_unknowns = from_sets rows in
      if \<exists>r \<in> set (rows_iter eq_unknowns). \<exists>v \<in> set r. v \<ge> unknown_count
      then Inl (UnspannedContractViolation ''solver incidence row names an unknown outside its table'')
      else Inr \<lparr>inc_n_eq = rows_len eq_unknowns, inc_n_var = unknown_count, inc_eq_unknowns = eq_unknowns,
        inc_unknowns = map Solver [0..<unknown_count], inc_unknown_spans = [],
        inc_equation_refs = map EquationRef [0..<rows_len eq_unknowns], inc_equation_spans = [],
        inc_structured_matching = [], inc_owner_first_row = [0..<rows_len eq_unknowns + 1]\<rparr>)"

end
