(* ===== verification/Blt_Correct.thy ===== *)
theory Blt_Correct
  imports Blt Matching_Correct
begin

text \<open>
  The blocks of \<open>blt.rs\<close> are a solve order: compact families hold self-contained rows
  only, the condensed graph keeps the dependencies of the remaining equations, and the
  blocks partition equations and unknowns with every dependency in the same or an
  earlier block.
\<close>

declare slot_Some [simp del]

section \<open>What a block solves\<close>

primrec equation_index :: "EquationRef \<Rightarrow> nat" where
  "equation_index (EquationRef e) = e"

definition unknown_position :: "UnknownId list \<Rightarrow> UnknownId \<Rightarrow> nat" where
  "unknown_position us u = length (takeWhile (\<lambda>x. x \<noteq> u) us)"

definition family_pairs :: "StructuredMatchingFamily \<Rightarrow> (nat \<times> nat) list" where
  "family_pairs family = List.map_filter (\<lambda>(point, position). candidate family point position) (family_cells family)"

fun block_parts :: "Incidence \<Rightarrow> BltBlock \<Rightarrow> block" where
  "block_parts inc (Scalar e u) = ([equation_index e], [unknown_position (inc_unknowns inc) u])"
| "block_parts inc (AlgebraicLoop es us _) =
     (map equation_index es, map (unknown_position (inc_unknowns inc)) us)"
| "block_parts inc (StructuredScalar b) =
     (map fst (family_pairs (block_matching b)), map snd (family_pairs (block_matching b)))"

text \<open>A well-formed incidence: rows name existing unknowns, the tables are complete and the
  unknowns distinct.\<close>

definition incidence_ok :: "Incidence \<Rightarrow> bool" where
  "incidence_ok inc \<longleftrightarrow>
     rows_bounded (inc_eq_unknowns inc) (inc_n_var inc) \<and>
     inc_equation_refs inc = map EquationRef [0..<inc_n_eq inc] \<and>
     length (inc_unknowns inc) = inc_n_var inc \<and> distinct (inc_unknowns inc)"

lemma unknown_position_nth: "distinct us \<Longrightarrow> i < length us \<Longrightarrow> unknown_position us (us ! i) = i"
proof -
  assume d: "distinct us" and i: "i < length us"
  have "takeWhile (\<lambda>x. x \<noteq> us ! i) us = take i us"
    by (rule takeWhile_eq_take_P_nth) (use d i in \<open>auto simp: nth_eq_iff_index_eq\<close>)
  then show ?thesis using i by (simp add: unknown_position_def)
qed

section \<open>Self-contained families\<close>

lemma family_cells_rows:
  "map (\<lambda>(p, q). a + p * equations_per_point family + q) (family_cells family) =
     [a..<a + point_count family * equations_per_point family]"
proof -
  let ?k = "equations_per_point family"
  have "concat (map (\<lambda>p. map (\<lambda>q. a + p * ?k + q) [0..<?k]) [0..<n]) = [a..<a + n * ?k]" for n
  proof (induction n)
    case (Suc n)
    have "map (\<lambda>q. a + n * ?k + q) [0..<?k] = [a + n * ?k..<a + n * ?k + ?k]"
      using map_add_upt [of "a + n * ?k" ?k] by (simp add: add.commute)
    moreover have "[a..<a + n * ?k] @ [a + n * ?k..<a + n * ?k + ?k] = [a..<a + n * ?k + ?k]"
      using upt_add_eq_append [of a "a + n * ?k" ?k] by simp
    ultimately show ?case using Suc by (simp add: add.commute add.left_commute)
  qed simp
  from this [of "point_count family"] show ?thesis
    by (simp add: family_cells_def map_concat comp_def)
qed

lemma family_cells_iff: "(p, q) \<in> set (family_cells family) \<longleftrightarrow> p < point_count family \<and> q < equations_per_point family"
  by (auto simp: family_cells_def image_iff)

lemma candidate_row: "candidate family p q = Some (r, u) \<Longrightarrow> r = first_equation_index family + p * equations_per_point family + q"
  by (auto simp: candidate_def candidate_with_def res_simps split: if_splits)

lemma check_row_contained:
  "check_row family inc m_eq decl (p, q) = Some decl' \<Longrightarrow>
     \<exists>u. row_is_self_contained family inc m_eq p q = Some u"
  by (auto simp: check_row_def res_simps)

lemma check_fold_contained:
  "try_fold (check_row family inc m_eq) decl cells = Some decl' \<Longrightarrow> (p, q) \<in> set cells \<Longrightarrow>
     \<exists>u. row_is_self_contained family inc m_eq p q = Some u"
proof (induction cells arbitrary: decl)
  case (Cons cell cells)
  then show ?case
    by (cases cell) (auto split: option.splits dest: check_row_contained)
qed simp

text \<open>What a claimed family guarantees of its rows.\<close>

definition contained :: "Incidence \<Rightarrow> nat option list \<Rightarrow> StructuredMatchingFamily \<Rightarrow> bool" where
  "contained inc m_eq family \<longleftrightarrow>
     (\<exists>a b. row_range family = Some (a, b) \<and> b \<le> inc_n_eq inc \<and> a < b) \<and>
     (\<forall>(p, q) \<in> set (family_cells family). \<exists>u.
        candidate family p q = Some (first_equation_index family + p * equations_per_point family + q, u) \<and>
        row (inc_eq_unknowns inc) (first_equation_index family + p * equations_per_point family + q) = [u] \<and>
        slot m_eq (first_equation_index family + p * equations_per_point family + q) = Some u)"

lemma family_contained:
  assumes "family_is_self_contained family inc m_eq = Some decl"
  shows "contained inc m_eq family"
proof -
  obtain a b where r: "row_range family = Some (a, b)" "b \<le> inc_n_eq inc"
      "point_count family \<noteq> 0" "equations_per_point family \<noteq> 0"
    and f: "try_fold (check_row family inc m_eq) (base_declarations family inc) (family_cells family) = Some decl"
    using assms by (auto simp: family_is_self_contained_def res_simps split: if_splits)
  have "a < b" using r(1,3,4) by (auto simp: row_range_def family_row_count_def res_simps)
  moreover have "\<exists>u. candidate family p q = Some (first_equation_index family + p * equations_per_point family + q, u) \<and>
        row (inc_eq_unknowns inc) (first_equation_index family + p * equations_per_point family + q) = [u] \<and>
        slot m_eq (first_equation_index family + p * equations_per_point family + q) = Some u"
    if cell: "(p, q) \<in> set (family_cells family)" for p q
  proof -
    obtain u where "row_is_self_contained family inc m_eq p q = Some u"
      using check_fold_contained [OF f cell] by blast
    then obtain e where e: "candidate family p q = Some (e, u)" "row (inc_eq_unknowns inc) e = [u]" "slot m_eq e = Some u"
      unfolding row_is_self_contained_def bind_Some_iff by (auto split: if_splits)
    with candidate_row [OF e(1)] show ?thesis by blast
  qed
  ultimately show ?thesis using r(1,2) unfolding contained_def by blast
qed

definition family_rows :: "StructuredMatchingFamily \<Rightarrow> nat list" where
  "family_rows family = [first_equation_index family..<
     first_equation_index family + point_count family * equations_per_point family]"

lemma row_range_rows: "row_range family = Some (a, b) \<Longrightarrow> [a..<b] = family_rows family"
  by (auto simp: row_range_def family_row_count_def family_rows_def res_simps)

lemma map_filter_total: "\<forall>x \<in> set xs. f x = Some (g x) \<Longrightarrow> List.map_filter f xs = map g xs"
  by (induction xs) (auto simp: List.map_filter_simps)

lemma contained_pairs:
  assumes "contained inc m_eq family"
  shows "map fst (family_pairs family) = family_rows family"
    "map snd (family_pairs family) = map (\<lambda>e. the (slot m_eq e)) (family_rows family)"
    "e \<in> set (family_rows family) \<Longrightarrow> e < inc_n_eq inc \<and> (\<exists>u. row (inc_eq_unknowns inc) e = [u] \<and> slot m_eq e = Some u)"
proof -
  let ?r = "\<lambda>(p, q). first_equation_index family + p * equations_per_point family + q"
  have c: "\<exists>u. candidate family p q = Some (?r (p, q), u) \<and> row (inc_eq_unknowns inc) (?r (p, q)) = [u] \<and>
      slot m_eq (?r (p, q)) = Some u" if "(p, q) \<in> set (family_cells family)" for p q
    using assms that unfolding contained_def by fastforce
  have m: "map ?r (family_cells family) = family_rows family"
    using family_cells_rows [of "first_equation_index family" family] by (simp add: family_rows_def)
  have "\<forall>x \<in> set (family_cells family). (\<lambda>(p, q). candidate family p q) x = Some (?r x, the (slot m_eq (?r x)))"
  proof
    fix x assume "x \<in> set (family_cells family)"
    moreover obtain p q where "x = (p, q)" by (cases x)
    ultimately show "(\<lambda>(p, q). candidate family p q) x = Some (?r x, the (slot m_eq (?r x)))"
      using c [of p q] by auto
  qed
  then have "family_pairs family = map (\<lambda>x. (?r x, the (slot m_eq (?r x)))) (family_cells family)"
    unfolding family_pairs_def by (rule map_filter_total)
  then have p: "family_pairs family = map (\<lambda>e. (e, the (slot m_eq e))) (family_rows family)"
    unfolding m [symmetric] by (simp add: comp_def)
  show "map fst (family_pairs family) = family_rows family" unfolding p by (simp add: comp_def)
  show "map snd (family_pairs family) = map (\<lambda>e. the (slot m_eq e)) (family_rows family)" unfolding p by simp
  show "e < inc_n_eq inc \<and> (\<exists>u. row (inc_eq_unknowns inc) e = [u] \<and> slot m_eq e = Some u)"
    if e: "e \<in> set (family_rows family)"
  proof
    obtain a b where ab: "row_range family = Some (a, b)" "b \<le> inc_n_eq inc" using assms by (auto simp: contained_def)
    then show "e < inc_n_eq inc" using e unfolding row_range_rows [OF ab(1), symmetric] by simp
    from e obtain x where "x \<in> set (family_cells family)" "e = ?r x" unfolding m [symmetric] by auto
    moreover obtain p q where "x = (p, q)" by (cases x)
    ultimately show "\<exists>u. row (inc_eq_unknowns inc) e = [u] \<and> slot m_eq e = Some u" using c [of p q] by auto
  qed
qed

section \<open>Splitting off the families\<close>

lemma claim_rows_spec:
  assumes "claim_rows flags (a, b) = (claimed, flags')"
  shows "claimed \<Longrightarrow> \<forall>r \<in> set [a..<b]. r < length flags \<and> flags ! r"
    "claimed \<Longrightarrow> length flags' = length flags \<and>
      (\<forall>i < length flags. flags' ! i \<longleftrightarrow> flags ! i \<and> i \<notin> set [a..<b])"
    "\<not> claimed \<Longrightarrow> flags' = flags"
proof -
  have f: "length (foldl (\<lambda>flags r. flags[r := False]) flags rs) = length flags \<and>
      (\<forall>i < length flags. foldl (\<lambda>flags r. flags[r := False]) flags rs ! i \<longleftrightarrow> flags ! i \<and> i \<notin> set rs)" for rs
  proof (induction rs rule: rev_induct)
    case (snoc r rs)
    then show ?case by (cases "r < length flags") (auto simp: nth_list_update list_update_beyond)
  qed simp
  show "claimed \<Longrightarrow> \<forall>r \<in> set [a..<b]. r < length flags \<and> flags ! r"
    using assms by (auto simp: claim_rows_def idx_def split: if_splits)
  show "claimed \<Longrightarrow> length flags' = length flags \<and>
      (\<forall>i < length flags. flags' ! i \<longleftrightarrow> flags ! i \<and> i \<notin> set [a..<b])"
    using assms f [of "[a..<b]"] by (auto simp: claim_rows_def split: if_splits)
  show "\<not> claimed \<Longrightarrow> flags' = flags" using assms by (auto simp: claim_rows_def split: if_splits)
qed

definition block_rows :: "StructuredScalarBlock list \<Rightarrow> nat list" where
  "block_rows blocks = concat (map (\<lambda>b. family_rows (block_matching b)) blocks)"

definition split_inv :: "Incidence \<Rightarrow> nat option list \<Rightarrow> StructuredScalarBlock list \<times> bool list option \<Rightarrow> bool" where
  "split_inv inc m_eq = (\<lambda>(blocks, keep).
     (\<forall>b \<in> set blocks. contained inc m_eq (block_matching b)) \<and> distinct (block_rows blocks) \<and>
     (case keep of
        None \<Rightarrow> blocks = []
      | Some flags \<Rightarrow> length flags = inc_n_eq inc \<and>
          (\<forall>i < inc_n_eq inc. flags ! i \<longleftrightarrow> i \<notin> set (block_rows blocks))))"

lemma structured_scalar_block_total:
  "\<exists>b. structured_scalar_block view family inc decl = Some b \<and> block_matching b = family"
proof (cases view)
  case (Some v)
  have "\<exists>ctx. checked_source v family inc decl = Some ctx"
    by (auto simp: checked_source_def source_checked_def bind_source_def
        split: option.splits prod.splits ContinuousOwnerView.splits)
  then show ?thesis using Some by (auto simp: structured_scalar_block_def)
qed (simp add: structured_scalar_block_def)

lemma split_claim_ok:
  assumes inv: "(\<forall>b \<in> set blocks. contained inc m_eq (block_matching b))" "distinct (block_rows blocks)"
      "length flags = inc_n_eq inc" "\<forall>i < inc_n_eq inc. flags ! i \<longleftrightarrow> i \<notin> set (block_rows blocks)"
    and r: "row_range family = Some rng" and c: "contained inc m_eq family"
    and cl: "claim_rows flags rng = (claimed, flags')"
    and b: "block_matching b = family"
  shows "split_inv inc m_eq (if claimed then blocks @ [b] else blocks, Some flags')"
proof -
  obtain x y where rng: "rng = (x, y)" by (cases rng)
  note rows = row_range_rows [OF r [unfolded rng]]
  note cs = claim_rows_spec [OF cl [unfolded rng], unfolded rows]
  show ?thesis
  proof (cases claimed)
    case True
    have "set (family_rows family) \<inter> set (block_rows blocks) = {}"
      using cs(1) [OF True] inv(3,4) by auto
    then show ?thesis
      using True inv c b cs(2) [OF True]
      by (auto simp: split_inv_def block_rows_def family_rows_def)
  next
    case False
    then show ?thesis using inv cs(3) by (auto simp: split_inv_def)
  qed
qed

lemma split_step_ok:
  assumes "split_inv inc m_eq s"
  shows "\<exists>s'. split_step view inc m_eq s family = Some s' \<and> split_inv inc m_eq s'"
proof (cases "row_range family = None \<or> family_is_self_contained family inc m_eq = None")
  case True
  then show ?thesis using assms by (cases s) (auto simp: split_step_def split: option.splits)
next
  case False
  then obtain rng decl where r: "row_range family = Some rng"
    and d: "family_is_self_contained family inc m_eq = Some decl" by auto
  obtain blocks keep where s: "s = (blocks, keep)" by (cases s)
  define flags where "flags = (case keep of None \<Rightarrow> replicate (inc_n_eq inc) True | Some flags \<Rightarrow> flags)"
  obtain claimed flags' where cl: "claim_rows flags rng = (claimed, flags')" by (cases "claim_rows flags rng")
  obtain b where b: "structured_scalar_block view family inc decl = Some b" "block_matching b = family"
    using structured_scalar_block_total by blast
  have inv: "(\<forall>b \<in> set blocks. contained inc m_eq (block_matching b))" "distinct (block_rows blocks)"
      "length flags = inc_n_eq inc" "\<forall>i < inc_n_eq inc. flags ! i \<longleftrightarrow> i \<notin> set (block_rows blocks)"
    using assms by (auto simp: split_inv_def s flags_def block_rows_def split: option.splits)
  have "split_inv inc m_eq (if claimed then blocks @ [b] else blocks, Some flags')"
    by (rule split_claim_ok [OF inv r family_contained [OF d] cl b(2)])
  moreover have "split_step view inc m_eq s family = Some (if claimed then blocks @ [b] else blocks, Some flags')"
    using r d cl b(1) by (simp add: split_step_def s flags_def)
  ultimately show ?thesis by blast
qed

lemma split_ok:
  "\<exists>blocks keep. split_self_contained_families view inc m_eq = Some (blocks, keep) \<and> split_inv inc m_eq (blocks, keep) \<and>
     (keep = None \<longrightarrow> blocks = [])"
proof -
  have "split_inv inc m_eq ([], None)" by (simp add: split_inv_def block_rows_def)
  then obtain s where s: "try_fold (split_step view inc m_eq) ([], None) (inc_structured_matching inc) = Some s"
    "split_inv inc m_eq s"
    using try_fold_total [of "split_inv inc m_eq" "([], None)" "inc_structured_matching inc" "split_step view inc m_eq"]
      split_step_ok by blast
  obtain blocks keep where "s = (blocks, keep)" by (cases s)
  with s show ?thesis
    by (cases "blocks = []")
      (auto simp: split_self_contained_families_def split_inv_def block_rows_def split: option.splits)
qed

section \<open>The condensed graph\<close>

lemma number_nodes_spec:
  assumes "number_nodes keep = (local_of_node, node_of_local)"
  shows "node_of_local = filter (\<lambda>i. keep ! i) [0..<length keep]"
    "slot local_of_node t = Some l \<longleftrightarrow> l < length node_of_local \<and> node_of_local ! l = t"
proof -
  let ?f = "\<lambda>(local_of_node, node_of_local) node.
         (if keep ! node
          then (local_of_node[node := Some (length node_of_local)], node_of_local @ [node])
          else (local_of_node, node_of_local))"
  have "n \<le> length keep \<Longrightarrow> \<exists>lo no. foldl ?f (replicate (length keep) None, []) [0..<n] = (lo, no) \<and>
      length lo = length keep \<and> no = filter (\<lambda>i. keep ! i) [0..<n] \<and>
      (\<forall>t l. slot lo t = Some l \<longleftrightarrow> l < length no \<and> no ! l = t)" for n
  proof (induction n)
    case 0
    then show ?case by (auto simp: slot_def)
  next
    case (Suc n)
    then obtain lo no where lo: "foldl ?f (replicate (length keep) None, []) [0..<n] = (lo, no)"
      "length lo = length keep" "no = filter (\<lambda>i. keep ! i) [0..<n]"
      "\<forall>t l. slot lo t = Some l \<longleftrightarrow> l < length no \<and> no ! l = t" by auto
    have "slot lo n \<noteq> Some l" for l
    proof
      assume "slot lo n = Some l"
      with lo(4) have "n \<in> set no" by (metis nth_mem)
      with lo(3) show False by simp
    qed
    then have "\<forall>t l. slot (lo[n := Some (length no)]) t = Some l \<longleftrightarrow> l < length (no @ [n]) \<and> (no @ [n]) ! l = t"
      using lo(2,4) Suc.prems by (auto simp: slot_update_eq nth_append less_Suc_eq)
    then show ?case using lo Suc.prems by auto
  qed
  from this [of "length keep"] assms show "node_of_local = filter (\<lambda>i. keep ! i) [0..<length keep]"
    "slot local_of_node t = Some l \<longleftrightarrow> l < length node_of_local \<and> node_of_local ! l = t"
    unfolding number_nodes_def by auto
qed

lemma condense_nodes_spec:
  assumes "condense_nodes adj keep = (sub_adj, node_of_local)"
  shows "node_of_local = filter (\<lambda>i. keep ! i) [0..<length keep]" "distinct node_of_local"
    "l < length node_of_local \<Longrightarrow> l' \<in> set (nbrs sub_adj l) \<longleftrightarrow>
       l' < length node_of_local \<and> node_of_local ! l' \<in> set (nbrs adj (node_of_local ! l))"
    "adj_ok (length node_of_local) sub_adj"
proof -
  obtain lo where n: "number_nodes keep = (lo, node_of_local)"
    and sub: "sub_adj = map (\<lambda>node. List.map_filter (slot lo) (nbrs adj node)) node_of_local"
    using assms by (auto simp: condense_nodes_def split: prod.splits)
  note spec = number_nodes_spec [OF n]
  show "node_of_local = filter (\<lambda>i. keep ! i) [0..<length keep]" by (rule spec(1))
  then show "distinct node_of_local" by simp
  have e: "l' \<in> set (nbrs sub_adj l) \<longleftrightarrow>
       l' < length node_of_local \<and> node_of_local ! l' \<in> set (nbrs adj (node_of_local ! l))"
    if "l < length node_of_local" for l l'
  proof -
    have "nbrs sub_adj l = List.map_filter (slot lo) (nbrs adj (node_of_local ! l))"
      using that by (simp add: sub nbrs_def [of "map _ _"])
    then show ?thesis by (auto simp: set_map_filter_iff spec(2))
  qed
  then show "l < length node_of_local \<Longrightarrow> l' \<in> set (nbrs sub_adj l) \<longleftrightarrow>
       l' < length node_of_local \<and> node_of_local ! l' \<in> set (nbrs adj (node_of_local ! l))" .
  show "adj_ok (length node_of_local) sub_adj" unfolding adj_ok_def using e by blast
qed

section \<open>Components of a subgraph\<close>

text \<open>
  A component order of the nodes \<open>V\<close>: a partition into strongly connected parts where an
  edge within \<open>V\<close> leads into the same or an earlier part.
\<close>

definition component_order_on :: "nat set \<Rightarrow> nat list list \<Rightarrow> nat list list \<Rightarrow> bool" where
  "component_order_on V adj C \<longleftrightarrow>
     distinct (concat C) \<and> set (concat C) = V \<and> [] \<notin> set C \<and>
     (\<forall>c \<in> set C. \<forall>u \<in> set c. \<forall>v \<in> set c. reach adj u v) \<and>
     (\<forall>i < length C. \<forall>u \<in> set (C ! i). \<forall>w \<in> set (nbrs adj u). w \<in> V \<longrightarrow> (\<exists>j \<le> i. w \<in> set (C ! j)))"

lemma scc_sequence_order: "scc_sequence n adj C \<Longrightarrow> component_order_on {..<n} adj C"
  by (simp add: scc_sequence_def component_order_on_def)

lemma concat_map_map: "concat (map (map f) C) = map f (concat C)"
  by (simp add: map_concat)

lemma condensed_order:
  assumes cond: "condense_nodes adj keep = (sub_adj, nodes)"
    and seq: "scc_sequence (length nodes) sub_adj C"
  shows "component_order_on (set nodes) adj (map (map ((!) nodes)) C)"
proof -
  note spec = condense_nodes_spec [OF cond]
  have set: "set (concat C) = {..<length nodes}" and dist: "distinct (concat C)" and ne: "[] \<notin> set C"
    using seq by (auto simp: scc_sequence_def)
  have r: "reach adj (nodes ! u) (nodes ! v)" if "reach sub_adj u v" "u < length nodes" for u v
    using that
  proof induction
    case (step v w)
    have "v < length nodes" using reach_in_range [OF spec(4)] step(1,4) by blast
    with step show ?case using spec(3) by (metis edges_iff rtrancl.rtrancl_into_rtrancl)
  qed simp
  have inC: "u < length nodes" if "c \<in> set C" "u \<in> set c" for c u using set that by auto
  have "inj_on ((!) nodes) (set (concat C))"
    using set spec(2) by (auto simp: inj_on_def nth_eq_iff_index_eq)
  then have "distinct (concat (map (map ((!) nodes)) C))" using dist by (simp add: concat_map_map distinct_map del: set_concat)
  moreover have "set (concat (map (map ((!) nodes)) C)) = set nodes"
    unfolding concat_map_map set_map set by (auto simp: set_conv_nth)
  moreover have "[] \<notin> set (map (map ((!) nodes)) C)" using ne by auto
  moreover have "\<forall>c \<in> set (map (map ((!) nodes)) C). \<forall>u \<in> set c. \<forall>v \<in> set c. reach adj u v"
  proof (intro ballI)
    fix c u v assume c: "c \<in> set (map (map ((!) nodes)) C)" "u \<in> set c" "v \<in> set c"
    then obtain d a b where d: "d \<in> set C" "a \<in> set d" "b \<in> set d" "u = nodes ! a" "v = nodes ! b" by auto
    then have "reach sub_adj a b" using seq unfolding scc_sequence_def by blast
    from r [OF this inC [OF d(1,2)]] d(4,5) show "reach adj u v" by simp
  qed
  moreover have "\<exists>j \<le> i. w \<in> set (map (map ((!) nodes)) C ! j)"
    if i: "i < length C" and u: "u \<in> set (map (map ((!) nodes)) C ! i)" and w: "w \<in> set (nbrs adj u)" "w \<in> set nodes" for i u w
  proof -
    obtain l where l: "l \<in> set (C ! i)" "u = nodes ! l" using i u by auto
    obtain l' where l': "l' < length nodes" "w = nodes ! l'" using w(2) by (auto simp: in_set_conv_nth)
    have "l' \<in> set (nbrs sub_adj l)" using spec(3) inC [of "C ! i" l] i l l' w(1) by auto
    then obtain j where "j \<le> i" "l' \<in> set (C ! j)" using seq i l(1) unfolding scc_sequence_def by blast
    then show ?thesis using i l'(2) by (intro exI [of _ j]) auto
  qed
  ultimately show ?thesis unfolding component_order_on_def by auto
qed

section \<open>Components to blocks\<close>

declare idx_Some [simp del]

text \<open>The perfect matching the blocks are built from.\<close>

definition perfect :: "Incidence \<Rightarrow> Matching \<Rightarrow> bool" where
  "perfect inc m \<longleftrightarrow> matching_ok (inc_eq_unknowns inc) (inc_n_eq inc) (inc_n_var inc) m \<and>
     (\<forall>e < inc_n_eq inc. slot (match_eq m) e \<noteq> None)"

abbreviation solved_by :: "Matching \<Rightarrow> nat \<Rightarrow> nat" where
  "solved_by m e \<equiv> the (slot (match_eq m) e)"

lemma perfectD:
  assumes "perfect inc m" "e < inc_n_eq inc"
  shows "slot (match_eq m) e = Some (solved_by m e)" "idx (match_eq m) e = Some (Some (solved_by m e))"
    "solved_by m e < inc_n_var inc" "slot (match_var m) (solved_by m e) = Some e"
    "solved_by m e \<in> set (row (inc_eq_unknowns inc) e)"
proof -
  have ok: "matching_ok (inc_eq_unknowns inc) (inc_n_eq inc) (inc_n_var inc) m" using assms(1) by (simp add: perfect_def)
  show s: "slot (match_eq m) e = Some (solved_by m e)" using assms by (auto simp: perfect_def)
  then show "idx (match_eq m) e = Some (Some (solved_by m e))"
    using matching_okD(1) [OF ok] assms(2) by (simp add: slot_def)
  show v: "slot (match_var m) (solved_by m e) = Some e" using matching_okD(3) [OF ok] s by blast
  then show "solved_by m e < inc_n_var inc" using matching_okD(2) [OF ok] by (auto dest: slot_range)
  show "solved_by m e \<in> set (row (inc_eq_unknowns inc) e)" using matching_okD(4) [OF ok] s by blast
qed

lemma solved_by_inj: "perfect inc m \<Longrightarrow> inj_on (solved_by m) {..<inc_n_eq inc}"
  by (rule inj_onI) (metis perfectD(4) lessThan_iff option.inject)

lemma those_map_total: "\<forall>x \<in> set xs. f x = Some (g x) \<Longrightarrow> those (map f xs) = Some (map g xs)"
  by (induction xs) auto

lemma alist_update_fresh: "k \<notin> fst ` set al \<Longrightarrow> AList.update k v al = al @ [(k, v)]"
  by (induction al) auto

lemma local_positions_ok:
  assumes "perfect inc m" "set scc \<subseteq> {..<inc_n_eq inc}" "distinct scc"
  shows "local_positions (match_eq m) scc = Some (zip (map (solved_by m) scc) [0..<length scc])"
proof -
  let ?f = "\<lambda>var_local (position, eq). do {
       matched \<leftarrow> idx (match_eq m) eq;
       Some (case matched of Some var \<Rightarrow> AList.update var position var_local | None \<Rightarrow> var_local)
     }"
  have "set scc \<subseteq> {..<inc_n_eq inc} \<Longrightarrow> distinct scc \<Longrightarrow>
      try_fold ?f [] (enumerate 0 scc) = Some (zip (map (solved_by m) scc) [0..<length scc])" for scc
  proof (induction scc rule: rev_induct)
    case (snoc e scc)
    let ?v = "solved_by m e"
    have "?v \<notin> solved_by m ` set scc"
    proof
      assume "?v \<in> solved_by m ` set scc"
      then obtain x where x: "x \<in> set scc" "?v = solved_by m x" by auto
      with solved_by_inj [OF assms(1)] snoc.prems(1) have "x = e" by (auto simp: inj_on_def)
      with x(1) snoc.prems(2) show False by simp
    qed
    then have "?v \<notin> fst ` set (zip (map (solved_by m) scc) [0..<length scc])"
      by (auto dest: set_zip_leftD)
    then show ?case
      using snoc perfectD(2) [OF assms(1), of e]
      by (simp add: enumerate_append_eq try_fold_append alist_update_fresh)
  qed simp
  then show ?thesis using assms(2,3) by (simp add: local_positions_def)
qed

lemma any_unmatched_ok: "perfect inc m \<Longrightarrow> set scc \<subseteq> {..<inc_n_eq inc} \<Longrightarrow> any_unmatched (match_eq m) scc = Some False"
  by (induction scc) (auto simp: perfectD(2))

text \<open>The local rows name exactly the block's own unknowns that an equation refers to.\<close>

definition scc_rows :: "Incidence \<Rightarrow> Matching \<Rightarrow> nat list \<Rightarrow> nat list list" where
  "scc_rows inc m scc =
     local_rows (inc_eq_unknowns inc) (zip (map (solved_by m) scc) [0..<length scc]) scc"

lemma scc_rows_iff:
  assumes "perfect inc m" "set scc \<subseteq> {..<inc_n_eq inc}" "distinct scc" and i: "i < length scc"
  shows "j \<in> set (scc_rows inc m scc ! i) \<longleftrightarrow>
    j < length scc \<and> solved_by m (scc ! j) \<in> set (row (inc_eq_unknowns inc) (scc ! i))"
proof -
  have d: "distinct (map (solved_by m) scc)"
    using assms(1-3) solved_by_inj by (auto simp: distinct_map intro: inj_on_subset)
  have "map_of (zip (map (solved_by m) scc) [0..<length scc]) v = Some j \<longleftrightarrow>
      j < length scc \<and> map (solved_by m) scc ! j = v" for v
    using d by (subst map_of_eq_Some_iff) (auto simp: in_set_zip)
  then show ?thesis using i by (auto simp: scc_rows_def local_rows_def set_map_filter_iff)
qed

lemma tear_scc_ok:
  assumes "perfect inc m" "set scc \<subseteq> {..<inc_n_eq inc}" "distinct scc"
  shows "\<exists>t. tear_scc scc inc (match_eq m) = Some t \<and>
    (\<forall>plan. t = Some plan \<longrightarrow> plan_ok (length scc) (scc_rows inc m scc) (scc_rows inc m scc) plan)"
  using tear_with_candidates_ok [of "length scc" "scc_rows inc m scc" "scc_rows inc m scc"]
    any_unmatched_ok [OF assms(1,2)] local_positions_ok [OF assms]
  by (auto simp: tear_scc_def scc_rows_def tear_algebraic_loop_def)

text \<open>What a block built from a component is.\<close>

definition component_block :: "Incidence \<Rightarrow> Matching \<Rightarrow> nat list \<Rightarrow> BltBlock \<Rightarrow> bool" where
  "component_block inc m c b \<longleftrightarrow>
     block_parts inc b = (c, map (solved_by m) c) \<and>
     (case b of
        Scalar _ _ \<Rightarrow> length c = 1
      | AlgebraicLoop _ _ t \<Rightarrow> length c > 1 \<and>
          (\<forall>plan. t = Some plan \<longrightarrow> plan_ok (length c) (scc_rows inc m c) (scc_rows inc m c) plan)
      | StructuredScalar _ \<Rightarrow> False)"

lemma scc_to_block_ok:
  assumes inc: "incidence_ok inc" and m: "perfect inc m"
    and c: "set c \<subseteq> {..<inc_n_eq inc}" "distinct c" "c \<noteq> []"
  shows "\<exists>b. scc_to_block inc (match_eq m) c = Some b \<and> component_block inc m c b"
proof -
  have refs: "idx (inc_equation_refs inc) e = Some (EquationRef e)" if "e \<in> set c" for e
    using inc c(1) that by (auto simp: incidence_ok_def idx_Some)
  have unk: "idx (inc_unknowns inc) (solved_by m e) = Some (inc_unknowns inc ! solved_by m e)"
    and pos: "unknown_position (inc_unknowns inc) (inc_unknowns inc ! solved_by m e) = solved_by m e" if "e \<in> set c" for e
    using perfectD(3) [OF m, of e] inc c(1) that by (auto simp: incidence_ok_def unknown_position_nth)
  have mat: "idx (match_eq m) e = Some (Some (solved_by m e))" if "e \<in> set c" for e
    using perfectD(2) [OF m, of e] c(1) that by auto
  show ?thesis
  proof (cases "length c = 1")
    case True
    then obtain e where e: "c = [e]" by (auto simp: length_Suc_conv)
    then show ?thesis using refs [of e] unk [of e] pos [of e] mat [of e] by (simp add: scc_to_block_def component_block_def)
  next
    case False
    then obtain a b cs where abc: "c = a # b # cs" using c(3) by (cases c rule: list.exhaust; cases "tl c") auto
    obtain t where t: "tear_scc c inc (match_eq m) = Some t"
      "\<forall>plan. t = Some plan \<longrightarrow> plan_ok (length c) (scc_rows inc m c) (scc_rows inc m c) plan"
      using tear_scc_ok [OF m c(1,2)] by blast
    have "those (map (idx (inc_equation_refs inc)) c) = Some (map EquationRef c)"
      using refs by (intro those_map_total) blast
    moreover have "those (map (idx (match_eq m)) c) = Some (map (\<lambda>e. Some (solved_by m e)) c)"
      using mat by (intro those_map_total) blast
    moreover have "those (map (idx (inc_unknowns inc)) (map (solved_by m) c)) =
        Some (map (\<lambda>v. inc_unknowns inc ! v) (map (solved_by m) c))"
      using unk by (intro those_map_total) auto
    moreover have "List.map_filter id (map (\<lambda>e. Some (solved_by m e)) c) = map (solved_by m) c"
      by (induction c) (auto simp: List.map_filter_simps)
    ultimately have "scc_to_block inc (match_eq m) c =
        Some (AlgebraicLoop (map EquationRef c) (map (\<lambda>v. inc_unknowns inc ! v) (map (solved_by m) c)) t)"
      using t(1) abc by (simp add: scc_to_block_def)
    moreover have "map (unknown_position (inc_unknowns inc)) (map (\<lambda>v. inc_unknowns inc ! v) (map (solved_by m) c)) =
        map (solved_by m) c"
      using pos by simp
    ultimately show ?thesis using t(2) abc by (auto simp: component_block_def comp_def)
  qed
qed

section \<open>All blocks\<close>

abbreviation dependencies :: "Incidence \<Rightarrow> Matching \<Rightarrow> nat list list" where
  "dependencies inc m \<equiv> build_dependency_graph (inc_eq_unknowns inc) (match_var m) (inc_n_eq inc)"

text \<open>Compact blocks \<open>S\<close> of self-contained rows, then the blocks of a component order of the rest.\<close>

definition sorted_into ::
  "Incidence \<Rightarrow> Matching \<Rightarrow> BltBlock list \<Rightarrow> StructuredScalarBlock list \<Rightarrow> nat list list \<Rightarrow> bool" where
  "sorted_into inc m blocks S C \<longleftrightarrow>
     (\<exists>B. blocks = map StructuredScalar S @ B \<and> list_all2 (component_block inc m) C B) \<and>
     (\<forall>b \<in> set S. contained inc (match_eq m) (block_matching b)) \<and> distinct (block_rows S) \<and>
     set (block_rows S) \<subseteq> {..<inc_n_eq inc} \<and>
     component_order_on ({..<inc_n_eq inc} - set (block_rows S)) (dependencies inc m) C"

lemma dependencies_ok: "perfect inc m \<Longrightarrow> adj_ok (inc_n_eq inc) (dependencies inc m)"
proof (rule dependency_adj_ok)
  fix v w assume "perfect inc m" "slot (match_var m) v = Some w"
  then have "slot (match_eq m) w = Some v" "length (match_eq m) = inc_n_eq inc"
    unfolding perfect_def using matching_okD by blast+
  then show "w < inc_n_eq inc" by (auto dest: slot_range)
qed

lemma component_blocks_ok:
  assumes "incidence_ok inc" "perfect inc m"
    and "\<forall>c \<in> set C. set c \<subseteq> {..<inc_n_eq inc} \<and> distinct c \<and> c \<noteq> []"
  shows "\<exists>B. those (map (scc_to_block inc (match_eq m)) C) = Some B \<and> list_all2 (component_block inc m) C B"
  using assms(3)
proof (induction C)
  case (Cons c C)
  then obtain b where "scc_to_block inc (match_eq m) c = Some b" "component_block inc m c b"
    using scc_to_block_ok [OF assms(1,2), of c] by auto
  with Cons show ?case by auto
qed simp

lemma component_order_parts:
  assumes "component_order_on V adj C" "V \<subseteq> {..<n}"
  shows "\<forall>c \<in> set C. set c \<subseteq> {..<n} \<and> distinct c \<and> c \<noteq> []"
  using assms by (auto simp: component_order_on_def distinct_concat_iff)

lemma build_blt_blocks_ok:
  assumes inc: "incidence_ok inc" and m: "perfect inc m"
  shows "\<exists>blocks S C. build_blt_blocks view inc (match_eq m) (dependencies inc m) = Some blocks \<and>
    sorted_into inc m blocks S C"
proof -
  let ?adj = "dependencies inc m"
  obtain S keep where split: "split_self_contained_families view inc (match_eq m) = Some (S, keep)"
    and inv: "split_inv inc (match_eq m) (S, keep)" and none: "keep = None \<longrightarrow> S = []"
    using split_ok by blast
  have cont: "\<forall>b \<in> set S. contained inc (match_eq m) (block_matching b)" and dist: "distinct (block_rows S)"
    using inv by (auto simp: split_inv_def)
  have sub: "set (block_rows S) \<subseteq> {..<inc_n_eq inc}"
    using cont contained_pairs(3) by (fastforce simp: block_rows_def)
  show ?thesis
  proof (cases keep)
    case None
    obtain C where C: "tarjan_scc (inc_n_eq inc) ?adj = Some C" "scc_sequence (inc_n_eq inc) ?adj C"
      using tj.scc_ok [OF dependencies_ok [OF m]] by blast
    note ord = scc_sequence_order [OF C(2)]
    obtain B where "those (map (scc_to_block inc (match_eq m)) C) = Some B" "list_all2 (component_block inc m) C B"
      using component_blocks_ok [OF inc m component_order_parts [OF ord]] by blast
    with None none split C(1) ord show ?thesis
      by (intro exI [of _ B] exI [of _ "[]"] exI [of _ C])
        (simp add: build_blt_blocks_def sccs_to_blocks_def sorted_into_def block_rows_def)
  next
    case (Some flags)
    obtain sub_adj nodes where cond: "condense_nodes ?adj flags = (sub_adj, nodes)" by (cases "condense_nodes ?adj flags")
    note spec = condense_nodes_spec [OF cond]
    have V: "set nodes = {..<inc_n_eq inc} - set (block_rows S)"
      using inv Some by (auto simp: spec(1) split_inv_def)
    obtain C where C: "tarjan_scc (length nodes) sub_adj = Some C" "scc_sequence (length nodes) sub_adj C"
      using tj.scc_ok [OF spec(4)] by blast
    have ord: "component_order_on ({..<inc_n_eq inc} - set (block_rows S)) ?adj (map (map ((!) nodes)) C)"
      using condensed_order [OF cond C(2)] V by simp
    have all: "set (concat C) = {..<length nodes}" using C(2) by (simp add: scc_sequence_def)
    have "List.map_filter (idx nodes) c = map ((!) nodes) c" if "c \<in> set C" for c
    proof -
      have "x < length nodes" if "x \<in> set c" for x using all \<open>c \<in> set C\<close> that by auto
      then show ?thesis by (intro map_filter_total) auto
    qed
    then have loc: "map (\<lambda>scc. scc_to_block inc (match_eq m) (List.map_filter (idx nodes) scc)) C =
        map (scc_to_block inc (match_eq m)) (map (map ((!) nodes)) C)" by simp
    obtain B where B: "those (map (scc_to_block inc (match_eq m)) (map (map ((!) nodes)) C)) = Some B"
      "list_all2 (component_block inc m) (map (map ((!) nodes)) C) B"
      using component_blocks_ok [OF inc m component_order_parts [OF ord]] by blast
    have "those (map (\<lambda>scc. scc_to_block inc (match_eq m) (List.map_filter (idx nodes) scc)) C) = Some B"
      unfolding loc by (rule B(1))
    with B(2) Some split C(1) cond ord cont dist sub show ?thesis
      by (intro exI [of _ "map StructuredScalar S @ B"] exI [of _ S] exI [of _ "map (map ((!) nodes)) C"])
        (simp add: build_blt_blocks_def sorted_into_def)
  qed
qed

section \<open>The blocks are a solve order\<close>

lemma sorted_parts:
  assumes "sorted_into inc m blocks S C"
  shows "map (block_parts inc) blocks =
    map (\<lambda>c. (c, map (solved_by m) c)) (map (\<lambda>b. family_rows (block_matching b)) S @ C)"
proof -
  obtain B where B: "blocks = map StructuredScalar S @ B" "list_all2 (component_block inc m) C B"
    using assms by (auto simp: sorted_into_def)
  have "map (block_parts inc) B = map (\<lambda>c. (c, map (solved_by m) c)) C"
    using B(2) by induction (auto simp: component_block_def)
  moreover have "block_parts inc (StructuredScalar b) =
      (family_rows (block_matching b), map (solved_by m) (family_rows (block_matching b)))" if "b \<in> set S" for b
    using assms that contained_pairs(1,2) by (auto simp: sorted_into_def)
  ultimately show ?thesis by (simp add: B(1))
qed

lemma sorted_equations:
  assumes "sorted_into inc m blocks S C"
  shows "concat (map (fst \<circ> block_parts inc) blocks) = block_rows S @ concat C"
    "distinct (concat (map (fst \<circ> block_parts inc) blocks))"
    "set (concat (map (fst \<circ> block_parts inc) blocks)) = {..<inc_n_eq inc}"
    "concat (map (snd \<circ> block_parts inc) blocks) = map (solved_by m) (block_rows S @ concat C)"
proof -
  have p: "map (fst \<circ> block_parts inc) blocks = map (\<lambda>b. family_rows (block_matching b)) S @ C"
    "map (snd \<circ> block_parts inc) blocks = map (map (solved_by m)) (map (\<lambda>b. family_rows (block_matching b)) S @ C)"
    using arg_cong [OF sorted_parts [OF assms], of "map fst"] arg_cong [OF sorted_parts [OF assms], of "map snd"]
    by (simp_all add: comp_def)
  show c: "concat (map (fst \<circ> block_parts inc) blocks) = block_rows S @ concat C"
    unfolding p(1) by (simp add: block_rows_def)
  show "distinct (concat (map (fst \<circ> block_parts inc) blocks))" unfolding c
    using assms unfolding sorted_into_def component_order_on_def by auto
  show "set (concat (map (fst \<circ> block_parts inc) blocks)) = {..<inc_n_eq inc}" unfolding c
    using assms unfolding sorted_into_def component_order_on_def by auto
  show "concat (map (snd \<circ> block_parts inc) blocks) = map (solved_by m) (block_rows S @ concat C)"
    unfolding p(2) by (simp add: block_rows_def map_concat comp_def)
qed

lemma sorted_nth:
  assumes "sorted_into inc m blocks S C"
  defines "D \<equiv> map (\<lambda>b. family_rows (block_matching b)) S @ C"
  shows "length blocks = length D"
    "j < length blocks \<Longrightarrow> block_parts inc (blocks ! j) = (D ! j, map (solved_by m) (D ! j))"
proof -
  have p: "map (block_parts inc) blocks = map (\<lambda>c. (c, map (solved_by m) c)) D"
    unfolding D_def by (rule sorted_parts [OF assms(1)])
  show l: "length blocks = length D" using arg_cong [OF p, of length] by simp
  show "block_parts inc (blocks ! j) = (D ! j, map (solved_by m) (D ! j))" if "j < length blocks"
    using arg_cong [OF p, of "\<lambda>xs. xs ! j"] that l by simp
qed

lemma sorted_dependency:
  assumes s: "sorted_into inc m blocks S C" and m: "perfect inc m"
    and k: "k < length blocks" "e \<in> set (fst (block_parts inc (blocks ! k)))"
    and v: "v \<in> set (row (inc_eq_unknowns inc) e)" "slot (match_var m) v = Some w"
  shows "\<exists>j \<le> k. w \<in> set (fst (block_parts inc (blocks ! j)))"
proof (cases "w = e")
  case False
  let ?D = "map (\<lambda>b. family_rows (block_matching b)) S @ C"
  note len = sorted_nth(1) [OF s]
  have nth: "fst (block_parts inc (blocks ! j)) = ?D ! j" if "j < length blocks" for j
    using sorted_nth(2) [OF s that] by simp
  have cont: "contained inc (match_eq m) (block_matching b)" if "b \<in> set S" for b using s that by (simp add: sorted_into_def)
  have ord: "component_order_on ({..<inc_n_eq inc} - set (block_rows S)) (dependencies inc m) C"
    using s by (simp add: sorted_into_def)
  show ?thesis
  proof (cases "k < length S")
    case True
    then have "e \<in> set (family_rows (block_matching (S ! k)))" using k nth by (simp add: nth_append)
    then obtain u where "row (inc_eq_unknowns inc) e = [u]" "slot (match_eq m) e = Some u"
      using contained_pairs(3) [OF cont] True by (metis nth_mem)
    with v m have "w = e" unfolding perfect_def by (metis empty_iff empty_set matching_okD(3) option.inject set_ConsD)
    with False show ?thesis by simp
  next
    case kS: False
    define i where "i = k - length S"
    have i: "i < length C" "e \<in> set (C ! i)" using k nth [OF k(1)] len kS by (auto simp: i_def nth_append)
    have "e \<in> set (concat C)" using i by auto
    then have "e < inc_n_eq inc" using ord by (auto simp: component_order_on_def)
    then have edge: "w \<in> set (nbrs (dependencies inc m) e)"
      using v False by (auto simp: dependency_edge)
    have "w < inc_n_eq inc"
      using dependencies_ok [OF m] edge \<open>e < inc_n_eq inc\<close> by (auto simp: adj_ok_def)
    show ?thesis
    proof (cases "w \<in> set (block_rows S)")
      case True
      then obtain b where "b \<in> set S" "w \<in> set (family_rows (block_matching b))" by (auto simp: block_rows_def)
      then obtain j where j: "j < length S" "w \<in> set (family_rows (block_matching (S ! j)))" by (metis in_set_conv_nth)
      then have "w \<in> set (?D ! j)" by (simp add: nth_append)
      moreover have "j < length blocks" using j(1) len by simp
      ultimately have "w \<in> set (fst (block_parts inc (blocks ! j)))" using nth [of j] by simp
      then show ?thesis using kS j(1) by (intro exI [of _ j]) simp
    next
      case wS: False
      then have "w \<in> {..<inc_n_eq inc} - set (block_rows S)" using \<open>w < inc_n_eq inc\<close> by simp
      then obtain j where "j \<le> i" "w \<in> set (C ! j)"
        using ord i edge unfolding component_order_on_def by blast
      moreover have "?D ! (length S + j) = C ! j" by (simp add: nth_append)
      ultimately show ?thesis using kS nth [of "length S + j"] k(1) len i(1) by (intro exI [of _ "length S + j"]) (auto simp: i_def)
    qed
  qed
qed (use k in auto)

lemma sorted_unknowns:
  assumes s: "sorted_into inc m blocks S C" and m: "perfect inc m" and sq: "inc_n_eq inc = inc_n_var inc"
  shows "distinct (concat (map (snd \<circ> block_parts inc) blocks))"
    "set (concat (map (snd \<circ> block_parts inc) blocks)) = {..<inc_n_var inc}"
proof -
  have e: "distinct (block_rows S @ concat C)" "set (block_rows S @ concat C) = {..<inc_n_eq inc}"
    using sorted_equations(1-3) [OF s] by metis+
  show d: "distinct (concat (map (snd \<circ> block_parts inc) blocks))"
    unfolding sorted_equations(4) [OF s] distinct_map using e solved_by_inj [OF m] by simp
  have "set (concat (map (snd \<circ> block_parts inc) blocks)) \<subseteq> {..<inc_n_var inc}"
    unfolding sorted_equations(4) [OF s] set_map e(2) using perfectD(3) [OF m] by auto
  moreover have "card (set (concat (map (snd \<circ> block_parts inc) blocks))) = inc_n_var inc"
    using distinct_card [OF d] distinct_card [OF e(1)] e(2) unfolding sorted_equations(4) [OF s] by (simp add: sq)
  ultimately show "set (concat (map (snd \<circ> block_parts inc) blocks)) = {..<inc_n_var inc}"
    by (intro card_subset_eq) auto
qed

lemma all_unknowns_matched:
  assumes m: "perfect inc m" and sq: "inc_n_eq inc = inc_n_var inc" and v: "v < inc_n_var inc"
  shows "\<exists>e < inc_n_eq inc. slot (match_var m) v = Some e"
proof -
  have "solved_by m ` {..<inc_n_eq inc} = {..<inc_n_var inc}"
    using perfectD(3) [OF m] card_image [OF solved_by_inj [OF m]] sq
    by (intro card_subset_eq) auto
  then obtain e where "e < inc_n_eq inc" "solved_by m e = v" using v by (metis (no_types, lifting) imageE lessThan_iff)
  then show ?thesis using perfectD(4) [OF m] by auto
qed

lemma map_comp_parts: "map g (map f xs) = map (g \<circ> f) xs"
  by simp

lemma sorted_triangular:
  assumes inc: "incidence_ok inc" and s: "sorted_into inc m blocks S C" and m: "perfect inc m"
    and sq: "inc_n_eq inc = inc_n_var inc"
  shows "triangular (\<lambda>e. set (row (inc_eq_unknowns inc) e)) {} (map (block_parts inc) blocks)"
  unfolding triangular_def
proof (intro conjI allI impI ballI)
  show "distinct (concat (map snd (map (block_parts inc) blocks)))"
    using sorted_unknowns(1) [OF s m sq] by simp
  fix k e assume k: "k < length (map (block_parts inc) blocks)" "e \<in> set (fst (map (block_parts inc) blocks ! k))"
  show "set (row (inc_eq_unknowns inc) e) \<subseteq> {} \<union> set (concat (map snd (take (Suc k) (map (block_parts inc) blocks))))"
  proof
    fix v assume v: "v \<in> set (row (inc_eq_unknowns inc) e)"
    then have "v < inc_n_var inc" using inc by (simp add: incidence_ok_def rows_bounded_def)
    then obtain w where w: "w < inc_n_eq inc" "slot (match_var m) v = Some w"
      using all_unknowns_matched [OF m sq] by blast
    then have vw: "v = solved_by m w" using perfectD(1) [OF m w(1)] m unfolding perfect_def
      by (metis matching_okD(3) option.inject option.sel)
    obtain j where j: "j \<le> k" "w \<in> set (fst (block_parts inc (blocks ! j)))"
      using sorted_dependency [OF s m _ _ v w(2), of k] k by auto
    have "snd (block_parts inc (blocks ! j)) = map (solved_by m) (fst (block_parts inc (blocks ! j)))"
      using sorted_nth(2) [OF s, of j] j(1) k(1) by simp
    then have "v \<in> set (snd (block_parts inc (blocks ! j)))" using j(2) vw by simp
    moreover have "block_parts inc (blocks ! j) \<in> set (take (Suc k) (map (block_parts inc) blocks))"
      using j(1) k(1) by (auto simp: in_set_conv_nth intro!: exI [of _ j])
    ultimately show "v \<in> {} \<union> set (concat (map snd (take (Suc k) (map (block_parts inc) blocks))))" by auto
  qed
qed simp

end
