(* ===== verification/Sorting_Correct.thy ===== *)
theory Sorting_Correct
  imports Sorting Blt_Correct
begin

text \<open>
  Sorting decides structural singularity: the blocks come out exactly when a perfect
  matching exists, and otherwise the report carries a set of equations that refers to
  fewer unknowns than it has members. The blocks are a solve order, which the
  interpretation of the solve-order contract turns into forward substitution.
\<close>

declare slot_Some [simp del] idx_Some [simp del]

section \<open>Counting matches\<close>

lemma unmatched_iff: "e \<in> set (unmatched slots) \<longleftrightarrow> e < length slots \<and> slot slots e = None"
  by (auto simp: unmatched_def slot_def)

lemma finite_dom_slot [simp]: "finite (dom (slot xs))"
  by (rule finite_subset [of _ "{..<length xs}"]) (auto dest: slot_range)

lemma matched_count_card: "matched_count slots = card (dom (slot slots))"
proof -
  have "dom (slot slots) = {i. i < length slots \<and> slots ! i \<noteq> None}" by (auto simp: slot_def split: if_splits)
  then show ?thesis by (simp add: matched_count_def length_filter_conv_card)
qed

lemma unmatched_card: "card (set (unmatched slots)) + matched_count slots = length slots"
proof -
  have "set (unmatched slots) \<union> dom (slot slots) = {..<length slots}" "set (unmatched slots) \<inter> dom (slot slots) = {}"
    by (auto simp: unmatched_iff dest: slot_range)
  then show ?thesis by (metis List.finite_set finite_dom_slot card_Un_disjoint card_lessThan matched_count_card)
qed

lemma matched_bounds:
  assumes "matching_ok rows n_eq n_var m"
  shows "matched_count (match_eq m) \<le> n_eq" "matched_count (match_eq m) \<le> n_var"
proof -
  note d = matching_okD [OF assms]
  show "matched_count (match_eq m) \<le> n_eq"
    unfolding matched_count_def using d(1) length_filter_le by metis
  have sub: "dom (slot (match_eq m)) \<subseteq> {..<n_eq}" using d(1) by (auto dest: slot_range)
  have "inj_on (\<lambda>e. the (slot (match_eq m) e)) (dom (slot (match_eq m)))"
  proof (rule inj_onI)
    fix x y assume "x \<in> dom (slot (match_eq m))" "y \<in> dom (slot (match_eq m))"
      and eq: "the (slot (match_eq m) x) = the (slot (match_eq m) y)"
    then obtain v w where "slot (match_eq m) x = Some v" "slot (match_eq m) y = Some w" by blast
    with eq show "x = y" using d(3) [of x v] d(3) [of y v] by simp
  qed
  moreover have "(\<lambda>e. the (slot (match_eq m) e)) ` dom (slot (match_eq m)) \<subseteq> {..<n_var}"
  proof clarify
    fix e v assume "slot (match_eq m) e = Some v"
    then show "the (slot (match_eq m) e) < n_var" using d(2) d(3) [of e v] by (auto dest: slot_range)
  qed
  ultimately have "card (dom (slot (match_eq m))) \<le> card {..<n_var}" by (intro card_inj_on_le) auto
  then show "matched_count (match_eq m) \<le> n_var" by (simp add: matched_count_card)
qed

lemma perfect_iff_count:
  assumes "matching_ok (inc_eq_unknowns inc) (inc_n_eq inc) (inc_n_var inc) m"
  shows "perfect inc m \<longleftrightarrow> matched_count (match_eq m) = inc_n_eq inc"
proof -
  have len: "length (match_eq m) = inc_n_eq inc" by (rule matching_okD(1) [OF assms])
  have "matched_count (match_eq m) = inc_n_eq inc \<longleftrightarrow> card (set (unmatched (match_eq m))) = 0"
    using unmatched_card [of "match_eq m"] len by linarith
  also have "\<dots> \<longleftrightarrow> set (unmatched (match_eq m)) = {}" by simp
  also have "\<dots> \<longleftrightarrow> (\<forall>e < inc_n_eq inc. slot (match_eq m) e \<noteq> None)"
    using len by (auto simp: unmatched_iff [of _ "match_eq m"] set_eq_iff)
  finally show ?thesis using assms by (simp add: perfect_def)
qed

section \<open>The over-determined block\<close>

lemma matching_ok_is_matching:
  assumes ok: "matching_ok rows n_eq n_var m"
  shows "is_matching rows n_eq (slot (match_eq m))"
  unfolding is_matching_def
proof (intro conjI allI impI inj_onI)
  fix x y assume "x \<in> dom (slot (match_eq m))" "slot (match_eq m) x = slot (match_eq m) y"
  then show "x = y" using matching_okD(3) [OF ok] by (metis domD option.inject)
next
  fix x v assume "slot (match_eq m) x = Some v"
  then show "x < n_eq" "v \<in> set (row rows x)" using matching_okD(1,4) [OF ok] by (auto dest: slot_range)
qed

text \<open>A maximum matching leaves an equation unmatched only inside a closed set.\<close>

lemma maximum_closed:
  assumes ok: "matching_ok rows n_eq n_var m" and b: "rows_bounded rows n_var"
    and maxi: "\<And>f. is_matching rows n_eq f \<Longrightarrow> card (dom f) \<le> card (dom (slot (match_eq m)))"
    and e: "e < n_eq" "slot (match_eq m) e = None"
  shows "\<exists>D. e \<in> D \<and> closed rows D m"
proof -
  let ?ctx = "\<lparr>eq_vars = rows, preferred_vars = []\<rparr>" and ?s = "begin_search (scratch_new n_var)"
  have s: "scratch_ok n_var (scratch_new n_var)" by (simp add: scratch_ok_def scratch_new_def)
  have "search_inv ?ctx m e {} [new_frame e] ?s"
    using begin_search_ok [OF s] e matching_okD(1) [OF ok]
    by (auto simp: search_inv_def new_frame_def seen_def List.map_filter_simps)
  from run_augment_search_ok [OF ok _ b _ this] begin_search_ok [OF s]
  obtain found m' where r: "matching_ok rows n_eq n_var m'"
    "found \<Longrightarrow> dom (slot (match_eq m')) = insert e (dom (slot (match_eq m)))"
    "\<not> found \<Longrightarrow> \<exists>D. e \<in> D \<and> closed rows D m" by auto
  show ?thesis
  proof (cases found)
    case True
    note matching_ok_is_matching [OF r(1)]
    from maxi [OF this] show ?thesis using r(2) [OF True] e(2) by (simp add: domIff)
  qed (use r(3) in simp)
qed

text \<open>
  The search: seen unknowns are referred to by seen equations and owned by seen equations,
  a seen equation is unmatched or owns a seen unknown, and outside the pending equations
  (and the equation \<open>skip\<close> being scanned) every unknown of a seen equation is seen.
\<close>

definition seen_at :: "bool list \<Rightarrow> nat \<Rightarrow> bool" where
  "seen_at flags i \<longleftrightarrow> i < length flags \<and> flags ! i"

definition search_ok ::
  "IncidenceRows \<Rightarrow> nat \<Rightarrow> nat \<Rightarrow> Matching \<Rightarrow> nat set \<Rightarrow> nat set \<Rightarrow> BlockSearch \<Rightarrow> bool" where
  "search_ok rows n_eq n_var m D skip s \<longleftrightarrow>
     length (seen_equations s) = n_eq \<and> length (seen_unknowns s) = n_var \<and>
     (\<forall>e. seen_at (seen_equations s) e \<longleftrightarrow> e < n_eq \<and> (slot (match_eq m) e = None \<or>
        (\<exists>v. seen_at (seen_unknowns s) v \<and> slot (match_var m) v = Some e))) \<and>
     (\<forall>e. seen_at (seen_equations s) e \<longrightarrow> e \<in> D) \<and>
     (\<forall>v. seen_at (seen_unknowns s) v \<longrightarrow> slot (match_var m) v \<noteq> None \<and>
        (\<exists>e. seen_at (seen_equations s) e \<and> v \<in> set (row rows e))) \<and>
     (\<forall>e. seen_at (seen_equations s) e \<longrightarrow> e \<notin> set (pending s) \<longrightarrow> e \<notin> skip \<longrightarrow>
        (\<forall>v \<in> set (row rows e). seen_at (seen_unknowns s) v)) \<and>
     (\<forall>e \<in> set (pending s). seen_at (seen_equations s) e)"

lemma seen_at_update: "seen_at (flags[i := True]) j \<longleftrightarrow> seen_at flags j \<or> (i = j \<and> i < length flags)"
  by (cases "i < length flags") (auto simp: seen_at_def nth_list_update list_update_beyond)

lemma search_ok_lengths:
  "search_ok rows n_eq n_var m D skip s \<Longrightarrow> length (seen_equations s) = n_eq \<and> length (seen_unknowns s) = n_var"
  unfolding search_ok_def by blast

lemma visit_unknown_ok:
  assumes ok: "matching_ok rows n_eq n_var m" and D: "closed rows D m"
    and s: "search_ok rows n_eq n_var m D {e0} s" and e0: "seen_at (seen_equations s) e0"
    and u: "u \<in> set (row rows e0)" "u < n_var"
  shows "\<exists>s'. visit_unknown (match_var m) s u = Some s' \<and> search_ok rows n_eq n_var m D {e0} s' \<and>
    seen_at (seen_unknowns s') u \<and> seen_at (seen_equations s') e0 \<and>
    (\<forall>v. seen_at (seen_unknowns s) v \<longrightarrow> seen_at (seen_unknowns s') v)"
proof -
  have len: "length (seen_equations s) = n_eq" "length (seen_unknowns s) = n_var" "length (match_var m) = n_var"
    using search_ok_lengths [OF s] matching_okD(2) [OF ok] by simp_all
  show ?thesis
  proof (cases "seen_unknowns s ! u")
    case True
    then have "visit_unknown (match_var m) s u = Some s" using u(2) len by (simp add: visit_unknown_def)
    then show ?thesis using s e0 True u(2) len by (auto simp: seen_at_def)
  next
    case False
    have "e0 \<in> D" using s e0 unfolding search_ok_def by blast
    then obtain w where w: "w \<in> D" "slot (match_var m) u = Some w" using D u(1) unfolding closed_def by blast
    have wn: "w < n_eq" using matching_okD(1,3) [OF ok] w(2) by (auto dest: slot_range)
    have idx: "idx (match_var m) u = Some (Some w)" using w(2) u(2) len by (simp add: slot_def)
    define s' where "s' = (if seen_equations s ! w then s\<lparr>seen_unknowns := (seen_unknowns s)[u := True]\<rparr>
      else s\<lparr>seen_unknowns := (seen_unknowns s)[u := True], seen_equations := (seen_equations s)[w := True],
             pending := pending s @ [w]\<rparr>)"
    have v: "visit_unknown (match_var m) s u = Some s'"
      using False u(2) len idx wn by (simp add: visit_unknown_def s'_def Let_def)
    have su: "seen_at (seen_unknowns s') x \<longleftrightarrow> seen_at (seen_unknowns s) x \<or> x = u" for x
      using u(2) len by (auto simp: s'_def seen_at_update)
    have se: "seen_at (seen_equations s') x \<longleftrightarrow> seen_at (seen_equations s) x \<or> x = w" for x
      using wn len by (auto simp: s'_def seen_at_update) (simp_all add: seen_at_def)
    have pend: "set (pending s') = set (pending s) \<union> (if seen_at (seen_equations s) w then {} else {w})"
      using wn len by (auto simp: s'_def seen_at_def)
    have "search_ok rows n_eq n_var m D {e0} s'"
      unfolding search_ok_def
    proof (intro conjI)
      show "length (seen_equations s') = n_eq" "length (seen_unknowns s') = n_var"
        using len by (simp_all add: s'_def)
      show "\<forall>e. seen_at (seen_equations s') e \<longleftrightarrow> e < n_eq \<and> (slot (match_eq m) e = None \<or>
          (\<exists>v. seen_at (seen_unknowns s') v \<and> slot (match_var m) v = Some e))"
        using s w(2) wn unfolding se su search_ok_def by (metis option.inject)
      show "\<forall>e. seen_at (seen_equations s') e \<longrightarrow> e \<in> D" using s w(1) unfolding se search_ok_def by blast
      show "\<forall>v. seen_at (seen_unknowns s') v \<longrightarrow> slot (match_var m) v \<noteq> None \<and>
          (\<exists>e. seen_at (seen_equations s') e \<and> v \<in> set (row rows e))"
        using s w(2) u(1) e0 unfolding se su search_ok_def by (metis option.distinct(1))
      show "\<forall>e. seen_at (seen_equations s') e \<longrightarrow> e \<notin> set (pending s') \<longrightarrow> e \<notin> {e0} \<longrightarrow>
          (\<forall>v \<in> set (row rows e). seen_at (seen_unknowns s') v)"
        using s unfolding se su pend search_ok_def by auto
      show "\<forall>e \<in> set (pending s'). seen_at (seen_equations s') e"
      proof -
        have "\<forall>e \<in> set (pending s). seen_at (seen_equations s) e" using s unfolding search_ok_def by blast
        then show ?thesis unfolding se pend by auto
      qed
    qed
    then show ?thesis using v su se e0 by auto
  qed
qed

lemma visit_row_ok:
  assumes ok: "matching_ok rows n_eq n_var m" and D: "closed rows D m"
    and us: "set us \<subseteq> set (row rows e0)" "set us \<subseteq> {..<n_var}"
  shows "search_ok rows n_eq n_var m D {e0} s \<Longrightarrow> seen_at (seen_equations s) e0 \<Longrightarrow>
    \<exists>s'. try_fold (visit_unknown (match_var m)) s us = Some s' \<and> search_ok rows n_eq n_var m D {e0} s' \<and>
      (\<forall>u \<in> set us. seen_at (seen_unknowns s') u) \<and>
      (\<forall>v. seen_at (seen_unknowns s) v \<longrightarrow> seen_at (seen_unknowns s') v)"
  using us
proof (induction us arbitrary: s)
  case (Cons u us)
  have "u \<in> set (row rows e0)" "u < n_var" using Cons.prems(3,4) by auto
  from visit_unknown_ok [OF ok D Cons.prems(1,2) this] obtain s1 where
    s1: "visit_unknown (match_var m) s u = Some s1" "search_ok rows n_eq n_var m D {e0} s1"
    "seen_at (seen_unknowns s1) u" "seen_at (seen_equations s1) e0"
    "\<forall>v. seen_at (seen_unknowns s) v \<longrightarrow> seen_at (seen_unknowns s1) v" by blast
  have "set us \<subseteq> set (row rows e0)" "set us \<subseteq> {..<n_var}" using Cons.prems(3,4) by auto
  from Cons.IH [OF s1(2,4) this] s1(1,3,5) show ?case by auto
qed simp

lemma search_ok_pop:
  assumes s: "search_ok rows n_eq n_var m D {} s" and p: "set (pending s) = insert e (set ps)"
  shows "search_ok rows n_eq n_var m D {e} (s\<lparr>pending := ps\<rparr>)"
proof -
  note c1 = s [unfolded search_ok_def]
  note c2 = c1 [THEN conjunct2] note c3 = c2 [THEN conjunct2] note c4 = c3 [THEN conjunct2]
  note c5 = c4 [THEN conjunct2] note c6 = c5 [THEN conjunct2] note c7 = c6 [THEN conjunct2]
  have eqs: "seen_equations (s\<lparr>pending := ps\<rparr>) = seen_equations s" "seen_unknowns (s\<lparr>pending := ps\<rparr>) = seen_unknowns s"
    "pending (s\<lparr>pending := ps\<rparr>) = ps" by simp_all
  show ?thesis
    unfolding search_ok_def eqs
  proof (intro conjI)
    show "\<forall>e'. seen_at (seen_equations s) e' \<longrightarrow> e' \<notin> set ps \<longrightarrow> e' \<notin> {e} \<longrightarrow>
        (\<forall>v \<in> set (row rows e'). seen_at (seen_unknowns s) v)"
      using c6 [THEN conjunct1] unfolding p by blast
    show "\<forall>e' \<in> set ps. seen_at (seen_equations s) e'" using c7 unfolding p by blast
  qed (rule c1 [THEN conjunct1] c2 [THEN conjunct1] c3 [THEN conjunct1] c4 [THEN conjunct1] c5 [THEN conjunct1])+
qed

lemma search_ok_drop:
  assumes s: "search_ok rows n_eq n_var m D {e} s" and r: "\<forall>v \<in> set (row rows e). seen_at (seen_unknowns s) v"
  shows "search_ok rows n_eq n_var m D {} s"
proof -
  note c1 = s [unfolded search_ok_def]
  note c2 = c1 [THEN conjunct2] note c3 = c2 [THEN conjunct2] note c4 = c3 [THEN conjunct2]
  note c5 = c4 [THEN conjunct2] note c6 = c5 [THEN conjunct2] note c7 = c6 [THEN conjunct2]
  show ?thesis
    unfolding search_ok_def
  proof (intro conjI)
    show "\<forall>e. seen_at (seen_equations s) e \<longrightarrow> e \<notin> set (pending s) \<longrightarrow> e \<notin> {} \<longrightarrow>
        (\<forall>v \<in> set (row rows e). seen_at (seen_unknowns s) v)"
      using c6 [THEN conjunct1] r by blast
  qed (rule c1 [THEN conjunct1] c2 [THEN conjunct1] c3 [THEN conjunct1] c4 [THEN conjunct1] c5 [THEN conjunct1] c7)+
qed

lemma block_search_ok:
  assumes ok: "matching_ok rows n_eq n_var m" and D: "closed rows D m" and b: "rows_bounded rows n_var"
  shows "search_ok rows n_eq n_var m D {} s \<Longrightarrow>
    \<exists>s'. block_search rows (match_var m) s = Some s' \<and> search_ok rows n_eq n_var m D {} s' \<and> pending s' = []"
  using assms
proof (induction rows "match_var m" s rule: block_search.induct)
  case (1 rows s)
  show ?case
  proof (cases "pending s = []")
    case True
    then show ?thesis using "1.prems" by (subst block_search.simps) simp
  next
    case False
    let ?s = "s\<lparr>pending := butlast (pending s)\<rparr>" and ?e = "last (pending s)"
    have p: "set (pending s) = insert ?e (set (butlast (pending s)))"
      using False by (metis append_butlast_last_id list.set(2) list.simps(15) rotate1.simps(2) set_rotate1)
    have e: "seen_at (seen_equations s) ?e" using "1.prems"(1) False unfolding search_ok_def by (meson last_in_set)
    note s0 = search_ok_pop [OF "1.prems"(1) p]
    have "set (row rows ?e) \<subseteq> {..<n_var}" using "1.prems"(4) by (auto simp: rows_bounded_def)
    with visit_row_ok [OF "1.prems"(2,3) order_refl _ s0] e obtain s' where
      s': "try_fold (visit_unknown (match_var m)) ?s (row rows ?e) = Some s'"
      "search_ok rows n_eq n_var m D {?e} s'" "\<forall>u \<in> set (row rows ?e). seen_at (seen_unknowns s') u" by auto
    have "search_ok rows n_eq n_var m D {} s'" by (rule search_ok_drop [OF s'(2,3)])
    from "1.hyps" [OF False s'(1) this "1.prems"(2-4)] s'(1) False show ?thesis
      by (subst block_search.simps) simp
  qed
qed

lemma start_search_ok:
  assumes ok: "matching_ok (inc_eq_unknowns inc) (inc_n_eq inc) (inc_n_var inc) m"
    and D: "\<forall>e < inc_n_eq inc. slot (match_eq m) e = None \<longrightarrow> e \<in> D"
  shows "\<exists>s. start_search inc (match_eq m) = Some s \<and>
    search_ok (inc_eq_unknowns inc) (inc_n_eq inc) (inc_n_var inc) m D {} s"
proof -
  have len: "length (match_eq m) = inc_n_eq inc" by (rule matching_okD(1) [OF ok])
  have "\<exists>flags. try_fold (\<lambda>seen equation. upd seen equation True) f us = Some flags \<and>
      length flags = length f \<and> (\<forall>i. seen_at flags i \<longleftrightarrow> seen_at f i \<or> i \<in> set us)"
    if "set us \<subseteq> {..<length f}" for us and f :: "bool list"
    using that
  proof (induction us arbitrary: f)
    case (Cons u us)
    from Cons.IH [of "f[u := True]"] Cons.prems show ?case by (auto simp: seen_at_update)
  qed simp
  moreover have "set (unmatched (match_eq m)) \<subseteq> {..<length (replicate (inc_n_eq inc) False)}"
    using len by (auto simp: unmatched_iff)
  moreover have "\<not> seen_at (replicate (inc_n_eq inc) False) i" for i by (simp add: seen_at_def)
  ultimately obtain flags where f: "try_fold (\<lambda>seen equation. upd seen equation True)
      (replicate (inc_n_eq inc) False) (unmatched (match_eq m)) = Some flags"
    "length flags = inc_n_eq inc" "\<forall>i. seen_at flags i \<longleftrightarrow> i \<in> set (unmatched (match_eq m))"
    by (metis length_replicate)
  have "\<not> seen_at (replicate (inc_n_var inc) False) v" for v by (auto simp: seen_at_def)
  then show ?thesis
    using f D len by (auto simp: start_search_def search_ok_def unmatched_iff)
qed

text \<open>The deficiency: the block has one equation more than unknowns for every unmatched equation.\<close>

lemma seen_card: "length (filter (\<lambda>b. b) flags) = card {i. seen_at flags i}"
  by (simp add: length_filter_conv_card seen_at_def)

lemma search_deficiency:
  assumes ok: "matching_ok rows n_eq n_var m" and s: "search_ok rows n_eq n_var m D {} s" "pending s = []"
  defines "E \<equiv> {e. seen_at (seen_equations s) e}" and "U \<equiv> {v. seen_at (seen_unknowns s) v}"
  shows "U = (\<Union>e \<in> E. set (row rows e))" "card E = card U + card (set (unmatched (match_eq m)))"
    "set (unmatched (match_eq m)) \<subseteq> E" "E \<subseteq> {..<n_eq}"
proof -
  have len: "length (match_eq m) = n_eq" by (rule matching_okD(1) [OF ok])
  have "U \<subseteq> (\<Union>e \<in> E. set (row rows e))" using s(1) unfolding search_ok_def E_def U_def by blast
  moreover have "set (row rows e) \<subseteq> U" if "e \<in> E" for e
    using s that unfolding search_ok_def E_def U_def by (simp only: mem_Collect_eq list.set empty_iff) blast
  ultimately show "U = (\<Union>e \<in> E. set (row rows e))" by blast
  show "E \<subseteq> {..<n_eq}" using search_ok_lengths [OF s(1)] by (auto simp: E_def seen_at_def)
  let ?own = "\<lambda>v. the (slot (match_var m) v)"
  have own: "\<exists>e. slot (match_var m) v = Some e" if "v \<in> U" for v using s(1) that unfolding search_ok_def U_def by auto
  have E_iff: "e \<in> E \<longleftrightarrow> e < n_eq \<and> (slot (match_eq m) e = None \<or> (\<exists>v \<in> U. slot (match_var m) v = Some e))" for e
    using s(1) unfolding search_ok_def E_def U_def by blast
  have E: "E = set (unmatched (match_eq m)) \<union> ?own ` U"
  proof (intro equalityI subsetI)
    fix e assume "e \<in> E"
    then show "e \<in> set (unmatched (match_eq m)) \<union> ?own ` U"
      unfolding E_iff using len by (fastforce simp: unmatched_iff intro: rev_image_eqI)
  next
    fix e assume "e \<in> set (unmatched (match_eq m)) \<union> ?own ` U"
    then show "e \<in> E"
    proof
      assume "e \<in> set (unmatched (match_eq m))"
      then show ?thesis unfolding E_iff using len by (simp add: unmatched_iff)
    next
      assume "e \<in> ?own ` U"
      then obtain v where v: "v \<in> U" "slot (match_var m) v = Some e" using own by force
      then have "e < n_eq" using matching_okD(3) [OF ok] len by (auto dest: slot_range)
      then show ?thesis unfolding E_iff using v by blast
    qed
  qed
  then show "set (unmatched (match_eq m)) \<subseteq> E" by simp
  have inj: "inj_on ?own U"
    by (rule inj_onI) (metis own matching_okD(3) [OF ok] option.inject option.sel)
  have "set (unmatched (match_eq m)) \<inter> ?own ` U = {}"
  proof (intro equals0I)
    fix e assume e: "e \<in> set (unmatched (match_eq m)) \<inter> ?own ` U"
    then obtain v where "slot (match_var m) v = Some e" using own by force
    then show False using e matching_okD(3) [OF ok, of e v] by (simp add: unmatched_iff)
  qed
  moreover have "finite U" unfolding U_def seen_at_def by simp
  ultimately show "card E = card U + card (set (unmatched (match_eq m)))"
    unfolding E using card_image [OF inj] by (simp add: card_Un_disjoint)
qed

text \<open>The report of a maximum matching: a Hall violator of exactly the missing size.\<close>

definition hall_witness :: "Incidence \<Rightarrow> nat \<Rightarrow> SingularBlockWitness \<Rightarrow> bool" where
  "hall_witness inc missing w \<longleftrightarrow>
     (\<exists>E \<subseteq> {..<inc_n_eq inc}. card E = witness_equations w \<and>
        card (\<Union>e \<in> E. set (row (inc_eq_unknowns inc) e)) = witness_unknowns w) \<and>
     witness_equations w = witness_unknowns w + missing"

lemma over_determined_block_ok:
  assumes ok: "matching_ok (inc_eq_unknowns inc) (inc_n_eq inc) (inc_n_var inc) m"
    and b: "rows_bounded (inc_eq_unknowns inc) (inc_n_var inc)"
    and maxi: "\<And>f. is_matching (inc_eq_unknowns inc) (inc_n_eq inc) f \<Longrightarrow> card (dom f) \<le> card (dom (slot (match_eq m)))"
  shows "\<exists>w. over_determined_block inc (match_eq m) (match_var m) = Some w \<and>
    hall_witness inc (inc_n_eq inc - matched_count (match_eq m)) w"
proof -
  let ?rows = "inc_eq_unknowns inc" and ?n = "inc_n_eq inc"
  define D where "D = \<Union> {C. closed ?rows C m}"
  have D: "closed ?rows D m" unfolding D_def closed_def by blast
  have "\<forall>e < ?n. slot (match_eq m) e = None \<longrightarrow> e \<in> D"
    using maximum_closed [OF ok b maxi] unfolding D_def by blast
  then obtain s where s: "start_search inc (match_eq m) = Some s"
    "search_ok ?rows ?n (inc_n_var inc) m D {} s" using start_search_ok [OF ok] by blast
  from block_search_ok [OF ok D b s(2)] obtain s' where
    s': "block_search ?rows (match_var m) s = Some s'" "search_ok ?rows ?n (inc_n_var inc) m D {} s'" "pending s' = []"
    by blast
  note d = search_deficiency [OF ok s'(2,3)]
  have "card (set (unmatched (match_eq m))) = ?n - matched_count (match_eq m)"
    using unmatched_card [of "match_eq m"] matching_okD(1) [OF ok] by simp
  then show ?thesis
    using s(1) s'(1) d by (auto simp: over_determined_block_def hall_witness_def seen_card)
qed

section \<open>Sorting\<close>

lemma maximum_matching_ok:
  assumes "incidence_ok inc"
  obtains m where "maximum_matching inc preferred = Some m"
    "matching_ok (inc_eq_unknowns inc) (inc_n_eq inc) (inc_n_var inc) m"
    "\<And>f. is_matching (inc_eq_unknowns inc) (inc_n_eq inc) f \<Longrightarrow> card (dom f) \<le> card (dom (slot (match_eq m)))"
    "perfect inc m \<longleftrightarrow> (\<exists>f. is_matching (inc_eq_unknowns inc) (inc_n_eq inc) f \<and> dom f = {..<inc_n_eq inc})"
proof -
  have b: "rows_bounded (inc_eq_unknowns inc) (inc_n_var inc)" using assms by (simp add: incidence_ok_def)
  obtain m where m: "maximum_matching inc preferred = Some m" unfolding maximum_matching_def using km.matcher_ok [OF b] by blast
  note r = km.matcher_result [OF b m [unfolded maximum_matching_def]]
    km.matched_all_iff [OF b m [unfolded maximum_matching_def]]
  show thesis by (rule that [OF m r(1,2)]) (use r(1,3) in \<open>auto simp: perfect_def\<close>)
qed

text \<open>Solvable: square with a perfect matching.\<close>

definition structurally_regular :: "Incidence \<Rightarrow> bool" where
  "structurally_regular inc \<longleftrightarrow> inc_n_eq inc = inc_n_var inc \<and>
     (\<exists>f. is_matching (inc_eq_unknowns inc) (inc_n_eq inc) f \<and> dom f = {..<inc_n_eq inc})"

lemma regular_count:
  assumes "matching_ok (inc_eq_unknowns inc) (inc_n_eq inc) (inc_n_var inc) m"
    and "perfect inc m \<longleftrightarrow> (\<exists>f. is_matching (inc_eq_unknowns inc) (inc_n_eq inc) f \<and> dom f = {..<inc_n_eq inc})"
  shows "structurally_regular inc \<longleftrightarrow> matched_count (match_eq m) = inc_n_eq inc \<and> matched_count (match_eq m) = inc_n_var inc"
  using perfect_iff_count [OF assms(1)] assms(2) by (auto simp: structurally_regular_def)

lemma build_blt_cases:
  assumes inc: "incidence_ok inc"
  shows "(structurally_regular inc \<and> (\<exists>blocks m S C. build_blt_from_incidence inc = Some (Inr blocks) \<and>
      perfect inc m \<and> sorted_into inc m blocks S C)) \<or>
    (\<not> structurally_regular inc \<and> (\<exists>k es us spans w.
      build_blt_from_incidence inc = Some (Inl (Singular (inc_n_eq inc) (inc_n_var inc) k es us spans w)) \<and>
      (\<exists>f. is_matching (inc_eq_unknowns inc) (inc_n_eq inc) f \<and> card (dom f) = k) \<and>
      (\<forall>f. is_matching (inc_eq_unknowns inc) (inc_n_eq inc) f \<longrightarrow> card (dom f) \<le> k) \<and>
      hall_witness inc (inc_n_eq inc - k) w))"
proof -
  obtain m where m: "maximum_matching inc [] = Some m"
    "matching_ok (inc_eq_unknowns inc) (inc_n_eq inc) (inc_n_var inc) m"
    and maxi: "\<And>f. is_matching (inc_eq_unknowns inc) (inc_n_eq inc) f \<Longrightarrow> card (dom f) \<le> card (dom (slot (match_eq m)))"
    and p: "perfect inc m \<longleftrightarrow> (\<exists>f. is_matching (inc_eq_unknowns inc) (inc_n_eq inc) f \<and> dom f = {..<inc_n_eq inc})"
    using maximum_matching_ok [OF inc] by metis
  note count = regular_count [OF m(2) p] and le = matched_bounds [OF m(2)]
  show ?thesis
  proof (cases "structurally_regular inc")
    case True
    then have pm: "perfect inc m" using p unfolding structurally_regular_def by blast
    show ?thesis
    proof (cases "inc_n_eq inc = 0 \<and> inc_n_var inc = 0")
      case z: True
      have "sorted_into inc m [] [] []" using z
        by (simp add: sorted_into_def block_rows_def component_order_on_def)
      then show ?thesis using True z pm by (auto simp: build_blt_from_incidence_def)
    next
      case z: False
      obtain blocks S C where "build_blt_blocks None inc (match_eq m) (dependencies inc m) = Some blocks"
        "sorted_into inc m blocks S C" using build_blt_blocks_ok [OF inc pm] by blast
      moreover have "\<not> (matched_count (match_eq m) < inc_n_eq inc \<or> matched_count (match_eq m) < inc_n_var inc)"
        using True count by simp
      ultimately have "build_blt_from_incidence inc = Some (Inr blocks)"
        using z m(1) by (auto simp: build_blt_from_incidence_def)
      then show ?thesis using True pm \<open>sorted_into inc m blocks S C\<close> by blast
    qed
  next
    case False
    then have lt: "matched_count (match_eq m) < inc_n_eq inc \<or> matched_count (match_eq m) < inc_n_var inc"
      using count le by auto
    then have z: "\<not> (inc_n_eq inc = 0 \<and> inc_n_var inc = 0)" by auto
    have b: "rows_bounded (inc_eq_unknowns inc) (inc_n_var inc)" using inc by (simp add: incidence_ok_def)
    obtain w where w: "over_determined_block inc (match_eq m) (match_var m) = Some w"
      "hall_witness inc (inc_n_eq inc - matched_count (match_eq m)) w"
      using over_determined_block_ok [OF m(2) b maxi] by blast
    have "\<exists>es us spans. build_blt_from_incidence inc =
        Some (Inl (Singular (inc_n_eq inc) (inc_n_var inc) (matched_count (match_eq m)) es us spans w))"
      using z lt m(1) w(1) by (auto simp: build_blt_from_incidence_def unlabeled_singular_def)
    moreover have "\<exists>f. is_matching (inc_eq_unknowns inc) (inc_n_eq inc) f \<and> card (dom f) = matched_count (match_eq m)"
      using matching_ok_is_matching [OF m(2)] matched_count_card by metis
    moreover have "\<forall>f. is_matching (inc_eq_unknowns inc) (inc_n_eq inc) f \<longrightarrow> card (dom f) \<le> matched_count (match_eq m)"
      using maxi by (simp add: matched_count_card)
    ultimately show ?thesis using False w(2) by blast
  qed
qed

section \<open>The blocks as a solve order\<close>

definition block_equations :: "Incidence \<Rightarrow> BltBlock \<Rightarrow> nat list" where
  "block_equations inc b = fst (block_parts inc b)"

definition block_unknowns :: "Incidence \<Rightarrow> BltBlock \<Rightarrow> nat list" where
  "block_unknowns inc b = snd (block_parts inc b)"

definition blt_planner :: "Incidence \<Rightarrow> (nat set \<times> block list) option" where
  "blt_planner inc =
     (if incidence_ok inc
      then (case build_blt_from_incidence inc of
              Some (Inr blocks) \<Rightarrow> Some ({}, map (block_parts inc) blocks)
            | _ \<Rightarrow> None)
      else None)"

abbreviation row_reads :: "Incidence \<Rightarrow> nat \<Rightarrow> nat set" where
  "row_reads inc e \<equiv> set (row (inc_eq_unknowns inc) e)"

lemma blocks_sorted:
  assumes "incidence_ok inc" "build_blt_from_incidence inc = Some (Inr blocks)"
  obtains m S C where "perfect inc m" "sorted_into inc m blocks S C" "inc_n_eq inc = inc_n_var inc"
  using build_blt_cases [OF assms(1)] assms(2) by (auto simp: structurally_regular_def)

interpretation sorted: solve_planner blt_planner row_reads
proof
  fix inc given_vars bs assume a: "blt_planner inc = Some (given_vars, bs)"
  then have inc: "incidence_ok inc" by (simp add: blt_planner_def split: if_splits)
  with a obtain blocks where b: "build_blt_from_incidence inc = Some (Inr blocks)"
    and g: "given_vars = {}" "bs = map (block_parts inc) blocks"
    by (auto simp: blt_planner_def split: option.splits sum.splits)
  from blocks_sorted [OF inc b] obtain m S C where "perfect inc m" "sorted_into inc m blocks S C" "inc_n_eq inc = inc_n_var inc" .
  then show "triangular (row_reads inc) given_vars bs" unfolding g using sorted_triangular [OF inc] by blast
qed

lemma solver_incidence_ok:
  assumes "solver_incidence rows n = Inr inc"
  shows "incidence_ok inc" "inc_eq_unknowns inc = from_sets rows" "inc_n_eq inc = length rows" "inc_n_var inc = n"
proof -
  have len: "rows_len (from_sets rows) = length rows" using csr_len [OF csr_from_sets] by simp
  have b: "\<forall>r \<in> set (rows_iter (from_sets rows)). \<forall>v \<in> set r. v < n"
    using assms by (auto simp: solver_incidence_def Let_def not_le split: if_splits)
  have "rows_bounded (from_sets rows) n"
    unfolding rows_bounded_def
  proof (intro allI ballI)
    fix e v assume v: "v \<in> set (row (from_sets rows) e)"
    then have "e < rows_len (from_sets rows)" using row_out_of_range [of "from_sets rows" e] by (cases "e < rows_len (from_sets rows)") auto
    then show "v < n" using b v by (auto simp: rows_iter_def)
  qed
  then show "incidence_ok inc" "inc_eq_unknowns inc = from_sets rows" "inc_n_eq inc = length rows" "inc_n_var inc = n"
    using assms len by (auto simp: solver_incidence_def incidence_ok_def Let_def distinct_map inj_on_def split: if_splits)
qed

lemma solver_incidence_total:
  assumes "\<forall>r \<in> set rows. \<forall>v \<in> set r. v < n"
  shows "\<exists>inc. solver_incidence rows n = Inr inc"
proof -
  have "v < n" if "e < rows_len (from_sets rows)" "v \<in> set (row (from_sets rows) e)" for e v
    using that assms csr_row [OF csr_from_sets [of rows], of e] csr_len [OF csr_from_sets [of rows]] by auto
  then have "\<not> (\<exists>r \<in> set (rows_iter (from_sets rows)). \<exists>v \<in> set r. v \<ge> n)" by (fastforce simp: rows_iter_def)
  then show ?thesis unfolding solver_incidence_def Let_def by auto
qed

text \<open>A small system, evaluated.\<close>

lemma sorted_example:
  "\<exists>inc. solver_incidence [[0, 1], [0]] 2 = Inr inc \<and> build_blt_from_incidence inc =
     Some (Inr [Scalar (EquationRef 1) (Solver 0), Scalar (EquationRef 0) (Solver 1)])"
proof -
  obtain inc where i: "solver_incidence [[0, 1], [0]] 2 = Inr inc"
    using solver_incidence_total [of "[[0, 1], [0]]" 2] by auto
  have "(case solver_incidence [[0, 1], [0]] 2 of Inr inc \<Rightarrow> build_blt_from_incidence inc | Inl _ \<Rightarrow> None) =
      Some (Inr [Scalar (EquationRef 1) (Solver 0), Scalar (EquationRef 0) (Solver 1)])" by code_simp
  then show ?thesis unfolding i sum.case by blast
qed

section \<open>Properties\<close>

text \<open>C2: Sorting a well-formed incidence never panics and decides structural regularity: blocks
  come out exactly for a square system with a perfect matching; otherwise the error
  reports the size of a largest matching, and an over-determined block that really is
  one, a set of equations which refer to fewer unknowns than they are, by exactly the
  number of equations no matching can serve.\<close>

theorem sorting_decides_regularity:
  assumes "incidence_ok inc"
  shows "(structurally_regular inc \<longrightarrow> (\<exists>blocks. build_blt_from_incidence inc = Some (Inr blocks))) \<and>
    (\<not> structurally_regular inc \<longrightarrow> (\<exists>k es us spans w.
      build_blt_from_incidence inc = Some (Inl (Singular (inc_n_eq inc) (inc_n_var inc) k es us spans w)) \<and>
      (\<exists>f. is_matching (inc_eq_unknowns inc) (inc_n_eq inc) f \<and> card (dom f) = k) \<and>
      (\<forall>f. is_matching (inc_eq_unknowns inc) (inc_n_eq inc) f \<longrightarrow> card (dom f) \<le> k) \<and>
      (\<exists>E \<subseteq> {..<inc_n_eq inc}. card E = witness_equations w \<and>
        card (\<Union>e \<in> E. set (row (inc_eq_unknowns inc) e)) = witness_unknowns w) \<and>
      witness_equations w = witness_unknowns w + (inc_n_eq inc - k)))"
  using build_blt_cases [OF assms] unfolding hall_witness_def by blast

theorem sorting_decides_regularity_witness:
  "\<exists>inc w. solver_incidence [[0], [0]] 2 = Inr inc \<and> \<not> structurally_regular inc \<and>
     build_blt_from_incidence inc = Some (Inl (Singular 2 2 1 [''f_x[1]''] [''unknown[1]''] [] w)) \<and>
     witness_equations w = 2 \<and> witness_unknowns w = 1 \<and> witness_equations w = witness_unknowns w + (2 - 1)"
proof -
  obtain inc where i: "solver_incidence [[0], [0]] 2 = Inr inc"
    using solver_incidence_total [of "[[0], [0]]" 2] by auto
  note ok = solver_incidence_ok [OF i]
  have "(case solver_incidence [[0], [0]] 2 of Inr inc \<Rightarrow> build_blt_from_incidence inc | Inl _ \<Rightarrow> None) =
      Some (Inl (Singular 2 2 1 [''f_x[1]''] [''unknown[1]''] []
        \<lparr>witness_equations = 2, witness_unknowns = 1, witness_sample = [''f_x[0]'', ''f_x[1]'']\<rparr>))"
    by code_simp
  then have b: "build_blt_from_incidence inc = Some (Inl (Singular 2 2 1 [''f_x[1]''] [''unknown[1]''] []
        \<lparr>witness_equations = 2, witness_unknowns = 1, witness_sample = [''f_x[0]'', ''f_x[1]'']\<rparr>))"
    by (simp add: i)
  with sorting_decides_regularity [OF ok(1)] have "\<not> structurally_regular inc" by auto
  with i b show ?thesis by auto
qed

text \<open>C3: The blocks of a sorted system are block lower triangular: they partition the
  equations and the unknowns, every block has as many unknowns as equations, each of its
  equations refers to unknowns of its own and of earlier blocks only, and an equation
  is never referred to an unknown of a later block.\<close>

theorem blocks_lower_triangular:
  assumes "incidence_ok inc" and "build_blt_from_incidence inc = Some (Inr blocks)"
  shows "distinct (concat (map (block_equations inc) blocks)) \<and>
    set (concat (map (block_equations inc) blocks)) = {..<inc_n_eq inc} \<and>
    distinct (concat (map (block_unknowns inc) blocks)) \<and>
    set (concat (map (block_unknowns inc) blocks)) = {..<inc_n_var inc} \<and>
    (\<forall>k < length blocks. length (block_equations inc (blocks ! k)) = length (block_unknowns inc (blocks ! k)) \<and>
      (\<forall>e \<in> set (block_equations inc (blocks ! k)). \<forall>v \<in> set (row (inc_eq_unknowns inc) e).
        \<exists>j \<le> k. v \<in> set (block_unknowns inc (blocks ! j))))"
proof -
  from blocks_sorted [OF assms] obtain m S C where
    m: "perfect inc m" and s: "sorted_into inc m blocks S C" and sq: "inc_n_eq inc = inc_n_var inc" .
  have len: "length (block_equations inc (blocks ! k)) = length (block_unknowns inc (blocks ! k))" if "k < length blocks" for k
    using sorted_nth(2) [OF s that] by (simp add: block_equations_def block_unknowns_def)
  have tri: "\<exists>j \<le> k. v \<in> set (block_unknowns inc (blocks ! j))"
    if "k < length blocks" "e \<in> set (block_equations inc (blocks ! k))" "v \<in> row_reads inc e" for k e v
  proof -
    have "row_reads inc e \<subseteq> {} \<union> set (concat (map snd (take (Suc k) (map (block_parts inc) blocks))))"
      using sorted_triangular [OF assms(1) s m sq] that(1,2)
      unfolding triangular_def block_equations_def by simp
    with that(3) obtain p where "p \<in> set (take (Suc k) (map (block_parts inc) blocks))" "v \<in> set (snd p)" by auto
    then obtain j where "j < Suc k" "j < length blocks" "p = block_parts inc (blocks ! j)"
      by (auto simp: in_set_conv_nth)
    with \<open>v \<in> set (snd p)\<close> show ?thesis by (auto simp: block_unknowns_def intro!: exI [of _ j])
  qed
  have e: "block_equations inc = fst \<circ> block_parts inc" "block_unknowns inc = snd \<circ> block_parts inc"
    by (auto simp: block_equations_def block_unknowns_def)
  show ?thesis
    using sorted_equations(2,3) [OF s] sorted_unknowns [OF s m sq] len tri unfolding e [symmetric] by simp
qed

theorem blocks_lower_triangular_witness:
  "\<exists>inc blocks. solver_incidence [[0, 1], [0]] 2 = Inr inc \<and> build_blt_from_incidence inc = Some (Inr blocks) \<and>
     blocks = [Scalar (EquationRef 1) (Solver 0), Scalar (EquationRef 0) (Solver 1)] \<and>
     set (concat (map (block_equations inc) blocks)) = {..<2}"
proof -
  let ?blocks = "[Scalar (EquationRef 1) (Solver 0), Scalar (EquationRef 0) (Solver 1)]"
  obtain inc where i: "solver_incidence [[0, 1], [0]] 2 = Inr inc"
    and b: "build_blt_from_incidence inc = Some (Inr ?blocks)" using sorted_example by blast
  note ok = solver_incidence_ok [OF i]
  from blocks_lower_triangular [OF ok(1) b] ok(3)
  have "set (concat (map (block_equations inc) ?blocks)) = {..<2}" by (simp only: length_Cons list.size) simp
  with i b show ?thesis by blast
qed

text \<open>C7: Solving the blocks in order solves the system: for equations that depend only on the
  unknowns of their row, running any correct solver of each block, in the order of the
  blocks, satisfies every equation, from whatever values it starts.\<close>

theorem blocks_forward_substitution:
  assumes inc: "incidence_ok inc" and b: "build_blt_from_incidence inc = Some (Inr blocks)"
    and loc: "local_equations (row_reads inc) holds"
    and solve: "\<forall>b \<in> set blocks. block_solver holds solve (block_parts inc b)"
  shows "\<forall>e < inc_n_eq inc. holds e (run_plan solve (map (block_parts inc) blocks) x)"
proof (intro allI impI)
  fix e assume e: "e < inc_n_eq inc"
  have p: "blt_planner inc = Some ({}, map (block_parts inc) blocks)" using inc b by (simp add: blt_planner_def)
  have s: "\<forall>b \<in> set (map (block_parts inc) blocks). block_solver holds solve b" using solve by simp
  from blocks_sorted [OF inc b] obtain m S C where "sorted_into inc m blocks S C" by metis
  from sorted_equations(3) [OF this] e obtain b where "b \<in> set blocks" "e \<in> set (fst (block_parts inc b))" by auto
  with sorted.substitution [OF p loc s, of x] show "holds e (run_plan solve (map (block_parts inc) blocks) x)" by auto
qed

theorem blocks_forward_substitution_witness:
  "let holds = (\<lambda>e x. if e = 0 then x 0 + x 1 = (7 :: int) else x 0 = 3);
       solve = (\<lambda>b x. if b = ([1], [0]) then x(0 := 3) else x(1 := 7 - x 0)) in
   \<exists>inc blocks. solver_incidence [[0, 1], [0]] 2 = Inr inc \<and> build_blt_from_incidence inc = Some (Inr blocks) \<and>
     (\<forall>e < 2. holds e (run_plan solve (map (block_parts inc) blocks) (\<lambda>_. 0)))"
proof -
  let ?holds = "\<lambda>e x. if e = 0 then x 0 + x 1 = (7 :: int) else x 0 = 3"
  let ?solve = "\<lambda>b x. if b = ([1], [0]) then x(0 := 3) else x(1 := 7 - x 0)"
  let ?blocks = "[Scalar (EquationRef 1) (Solver 0), Scalar (EquationRef 0) (Solver 1)]"
  obtain inc where i: "solver_incidence [[0, 1], [0]] 2 = Inr inc"
    and b: "build_blt_from_incidence inc = Some (Inr ?blocks)" using sorted_example by blast
  note ok = solver_incidence_ok [OF i]
  have "inc_unknowns inc = [Solver 0, Solver 1]"
    using i by (auto simp: solver_incidence_def Let_def numeral_2_eq_2 split: if_splits)
  then have parts: "block_parts inc (Scalar (EquationRef 1) (Solver 0)) = ([1], [0])"
    "block_parts inc (Scalar (EquationRef 0) (Solver 1)) = ([0], [1])" by (simp_all add: unknown_position_def)
  have r: "row_reads inc 0 = {0, 1}" "row_reads inc 1 = {0}"
    using csr_row [OF csr_from_sets [of "[[0, 1], [0]]"]] ok(2) by simp_all
  have l: "local_equations (row_reads inc) (\<lambda>e x. e < 2 \<and> ?holds e x)"
    unfolding local_equations_def
  proof (intro allI impI)
    fix e x y assume xy: "\<forall>w \<in> row_reads inc e. x w = (y w :: int)" and h: "e < 2 \<and> ?holds e x"
    then consider "e = 0" | "e = 1" by linarith
    then show "e < 2 \<and> ?holds e y"
    proof cases
      case 1
      with xy r(1) have "x 0 = y 0" "x 1 = y 1" by simp_all
      with h 1 show ?thesis by simp
    next
      case 2
      with xy r(2) have "x 0 = y 0" by simp
      with h 2 show ?thesis by simp
    qed
  qed
  have s: "\<forall>b \<in> set ?blocks. block_solver (\<lambda>e x. e < 2 \<and> ?holds e x) ?solve (block_parts inc b)"
    by (simp only: list.set ball_simps parts) (simp add: block_solver_def)
  from blocks_forward_substitution [OF ok(1) b l s, of "\<lambda>_. 0"] i b ok(3) show ?thesis
    by (auto simp: numeral_2_eq_2)
qed

section \<open>Loops\<close>

text \<open>
  What is claimed of one algebraic loop, in terms of its own two lists: the unknown at each
  position is the one matched to the equation at that position; its equations depend on each
  other in both directions; its tearing names each position of the equation list once, as a
  residual or a causal row, and each position of the unknown list once, as torn or causal; and a
  causal step solves the unknown at its position from an equation that refers to it and
  otherwise, among the loop's unknowns, only to torn ones and ones solved before.
\<close>

definition loop_ok ::
  "Incidence \<Rightarrow> Matching \<Rightarrow> EquationRef list \<Rightarrow> UnknownId list \<Rightarrow> TearingResult option \<Rightarrow> bool" where
  "loop_ok inc m es us t \<longleftrightarrow>
     (let c = map equation_index es; reads = (\<lambda>i j. unknown_position (inc_unknowns inc) (us ! j) \<in> row_reads inc (c ! i)) in
      length es > 1 \<and> us = map (\<lambda>e. inc_unknowns inc ! solved_by m e) c \<and>
      (\<forall>u \<in> set c. \<forall>v \<in> set c. reach (dependencies inc m) u v) \<and>
      (\<forall>plan. t = Some plan \<longrightarrow>
        distinct (residual_eq_local_indices plan @ map fst (causal_sequence plan)) \<and>
        set (residual_eq_local_indices plan @ map fst (causal_sequence plan)) = {..<length es} \<and>
        distinct (tear_var_local_indices plan @ map snd (causal_sequence plan)) \<and>
        set (tear_var_local_indices plan @ map snd (causal_sequence plan)) = {..<length us} \<and>
        (\<forall>k < length (causal_sequence plan). \<forall>i j. causal_sequence plan ! k = (i, j) \<longrightarrow>
           reads i j \<and>
           (\<forall>l < length us. reads i l \<longrightarrow>
              l \<in> set (tear_var_local_indices plan) \<or> l \<in> snd ` set (take (Suc k) (causal_sequence plan))))))"

lemma plan_loop_ok:
  assumes m: "perfect inc m" and c: "set c \<subseteq> {..<inc_n_eq inc}" "distinct c"
    and p: "plan_ok (length c) (scc_rows inc m c) (scc_rows inc m c) plan"
    and k: "k < length (causal_sequence plan)" "causal_sequence plan ! k = (i, j)"
  shows "solved_by m (c ! j) \<in> row_reads inc (c ! i) \<and>
    (\<forall>l < length c. solved_by m (c ! l) \<in> row_reads inc (c ! i) \<longrightarrow>
       l \<in> set (tear_var_local_indices plan) \<or> l \<in> snd ` set (take (Suc k) (causal_sequence plan)))"
proof -
  have "(i, j) \<in> set (causal_sequence plan)" using k by (metis nth_mem)
  then have "i \<in> set (residual_eq_local_indices plan @ map fst (causal_sequence plan))" by force
  then have i: "i < length c" using p by (auto simp: plan_ok_def)
  have ok: "causal_ok (length c) (scc_rows inc m c) (scc_rows inc m c) (set (tear_var_local_indices plan)) (causal_sequence plan)"
    using p by (simp add: plan_ok_def)
  then have "j \<in> set (scc_rows inc m c ! i)"
    "\<forall>w \<in> set (scc_rows inc m c ! i). w < length c \<longrightarrow> w \<in> set (tear_var_local_indices plan) \<or>
       w \<in> snd ` set (take (Suc k) (causal_sequence plan))"
    using k unfolding causal_ok_def by blast+
  then show ?thesis using scc_rows_iff [OF m c i] by blast
qed

text \<open>A position in the table of unknowns that is in range is the position of its entry.\<close>

lemma unknown_position_inverse:
  "unknown_position us u < length us \<Longrightarrow> us ! unknown_position us u = u"
  using nth_length_takeWhile [of "\<lambda>x. x \<noteq> u" us] by (simp add: unknown_position_def)

lemma sorted_loops:
  assumes inc: "incidence_ok inc"
    and s: "sorted_into inc m blocks S C" and m: "perfect inc m" and b: "AlgebraicLoop es us t \<in> set blocks"
  shows "loop_ok inc m es us t"
proof -
  obtain B where B: "blocks = map StructuredScalar S @ B" "list_all2 (component_block inc m) C B"
    using s by (auto simp: sorted_into_def)
  from b B(1) have "AlgebraicLoop es us t \<in> set B" by auto
  then obtain i where i: "i < length B" "B ! i = AlgebraicLoop es us t" by (metis in_set_conv_nth)
  define c where "c = C ! i"
  have c: "c \<in> set C" "component_block inc m c (AlgebraicLoop es us t)"
    using B(2) i by (auto simp: list_all2_conv_all_nth c_def)
  have ord: "component_order_on ({..<inc_n_eq inc} - set (block_rows S)) (dependencies inc m) C"
    using s by (simp add: sorted_into_def)
  have cs: "set c \<subseteq> {..<inc_n_eq inc}" "distinct c" using component_order_parts [OF ord] c(1) by auto
  have es: "map equation_index es = c" "length c > 1"
    and vs: "map (unknown_position (inc_unknowns inc)) us = map (solved_by m) c"
    and p: "\<And>plan. t = Some plan \<Longrightarrow> plan_ok (length c) (scc_rows inc m c) (scc_rows inc m c) plan"
    using c(2) by (auto simp: component_block_def)
  have len: "length us = length c" "length es = length c" using vs es(1) by (metis length_map)+
  have pos: "unknown_position (inc_unknowns inc) (us ! k) = solved_by m (c ! k)" if "k < length c" for k
    using arg_cong [OF vs, of "\<lambda>xs. xs ! k"] that len(1) by simp
  have "us ! k = inc_unknowns inc ! solved_by m (c ! k)" if k: "k < length c" for k
  proof -
    have "c ! k < inc_n_eq inc" using cs(1) k by (auto dest: nth_mem)
    then have "solved_by m (c ! k) < length (inc_unknowns inc)"
      using perfectD(3) [OF m] inc by (simp add: incidence_ok_def)
    then show ?thesis using unknown_position_inverse [of "inc_unknowns inc" "us ! k"] pos [OF k] by simp
  qed
  then have us: "us = map (\<lambda>e. inc_unknowns inc ! solved_by m e) c" by (intro nth_equalityI) (simp_all add: len)
  have scc: "\<forall>u \<in> set c. \<forall>v \<in> set c. reach (dependencies inc m) u v"
    using ord c(1) unfolding component_order_on_def by blast
  have parts: "distinct (residual_eq_local_indices plan @ map fst (causal_sequence plan))"
    "set (residual_eq_local_indices plan @ map fst (causal_sequence plan)) = {..<length c}"
    "distinct (tear_var_local_indices plan @ map snd (causal_sequence plan))"
    "set (tear_var_local_indices plan @ map snd (causal_sequence plan)) = {..<length c}" if "t = Some plan" for plan
    using p [OF that] unfolding plan_ok_def by blast+
  have step: "unknown_position (inc_unknowns inc) (us ! j) \<in> row_reads inc (c ! i) \<and>
      (\<forall>l < length c. unknown_position (inc_unknowns inc) (us ! l) \<in> row_reads inc (c ! i) \<longrightarrow>
        l \<in> set (tear_var_local_indices plan) \<or> l \<in> snd ` set (take (Suc k) (causal_sequence plan)))"
    if "t = Some plan" "k < length (causal_sequence plan)" "causal_sequence plan ! k = (i, j)" for plan k i j
  proof -
    have "(i, j) \<in> set (causal_sequence plan)" using that(2,3) by (metis nth_mem)
    then have "j \<in> {..<length c}" using parts(4) [OF that(1)] by force
    then show ?thesis using plan_loop_ok [OF m cs p [OF that(1)] that(2,3)] by (simp add: pos)
  qed
  show ?thesis
    unfolding loop_ok_def Let_def es(1) len using es(2) us scc parts step by (intro conjI allI impI) blast+
qed

section \<open>The matched pairs and the report\<close>

definition matched_pair :: "Incidence \<Rightarrow> Matching \<Rightarrow> nat \<Rightarrow> EquationRef \<times> UnknownId" where
  "matched_pair inc m e = (EquationRef e, inc_unknowns inc ! solved_by m e)"

lemma matched_pairs:
  assumes inc: "incidence_ok inc" and pm: "perfect inc m"
  shows "those (map (\<lambda>equation. do {
      unknown \<leftarrow> slot (match_eq m) equation; eq_ref \<leftarrow> idx (inc_equation_refs inc) equation;
      var_id \<leftarrow> idx (inc_unknowns inc) unknown; Some (eq_ref, var_id) })
        (filter (\<lambda>equation. match_eq m ! equation \<noteq> None) [0..<length (match_eq m)])) =
      Some (map (matched_pair inc m) [0..<inc_n_eq inc])"
    "distinct (map snd (map (matched_pair inc m) [0..<inc_n_eq inc]))"
proof -
  have len: "length (match_eq m) = inc_n_eq inc" using pm matching_okD(1) unfolding perfect_def by blast
  have all: "filter (\<lambda>equation. match_eq m ! equation \<noteq> None) [0..<length (match_eq m)] = [0..<inc_n_eq inc]"
    using pm len by (auto simp: perfect_def slot_def filter_id_conv)
  have "do { unknown \<leftarrow> slot (match_eq m) e; eq_ref \<leftarrow> idx (inc_equation_refs inc) e;
      var_id \<leftarrow> idx (inc_unknowns inc) unknown; Some (eq_ref, var_id) } = Some (matched_pair inc m e)"
    if e: "e < inc_n_eq inc" for e
  proof -
    obtain v where v: "slot (match_eq m) e = Some v" using perfectD(1) [OF pm e] by blast
    then have "v < inc_n_var inc" using perfectD(3) [OF pm e] by simp
    then show ?thesis using inc v e by (simp add: incidence_ok_def matched_pair_def)
  qed
  then show "those (map (\<lambda>equation. do {
      unknown \<leftarrow> slot (match_eq m) equation; eq_ref \<leftarrow> idx (inc_equation_refs inc) equation;
      var_id \<leftarrow> idx (inc_unknowns inc) unknown; Some (eq_ref, var_id) })
        (filter (\<lambda>equation. match_eq m ! equation \<noteq> None) [0..<length (match_eq m)])) =
      Some (map (matched_pair inc m) [0..<inc_n_eq inc])"
    unfolding all by (intro those_map_total) simp
  have "inj_on (snd \<circ> matched_pair inc m) {..<inc_n_eq inc}"
  proof (rule inj_onI)
    fix x y assume xy: "x \<in> {..<inc_n_eq inc}" "y \<in> {..<inc_n_eq inc}"
      "(snd \<circ> matched_pair inc m) x = (snd \<circ> matched_pair inc m) y"
    then have "solved_by m x = solved_by m y"
      using perfectD(3) [OF pm] inc by (simp add: incidence_ok_def nth_eq_iff_index_eq matched_pair_def)
    with solved_by_inj [OF pm] show "x = y" using xy(1,2) by (rule inj_onD)
  qed
  then show "distinct (map snd (map (matched_pair inc m) [0..<inc_n_eq inc]))"
    by (simp add: distinct_map atLeast0LessThan)
qed

lemma pair_in_block:
  assumes so: "sorted_into inc m blocks S C" and pm: "perfect inc m" and e: "e < inc_n_eq inc"
  shows "\<exists>b \<in> set blocks. \<exists>v. matched_pair inc m e = (EquationRef e, inc_unknowns inc ! v) \<and>
    v \<in> row_reads inc e \<and> (e, v) \<in> set (zip (block_equations inc b) (block_unknowns inc b))"
proof -
  obtain b where bb: "b \<in> set blocks" "e \<in> set (block_equations inc b)"
    using sorted_equations(3) [OF so] e unfolding block_equations_def by auto
  obtain k where k: "k < length blocks" "b = blocks ! k" using bb(1) by (metis in_set_conv_nth)
  have "block_unknowns inc b = map (solved_by m) (block_equations inc b)"
    using sorted_nth(2) [OF so k(1)] k(2) by (simp add: block_equations_def block_unknowns_def)
  then have "(e, solved_by m e) \<in> set (zip (block_equations inc b) (block_unknowns inc b))"
    using bb(2) by (auto simp: set_zip in_set_conv_nth)
  then show ?thesis using bb(1) perfectD(5) [OF pm e]
    by (intro bexI [of _ b] exI [of _ "solved_by m e"]) (auto simp: matched_pair_def)
qed

lemma require_singular:
  assumes inc: "incidence_ok inc" and ok: "matching_ok (inc_eq_unknowns inc) (inc_n_eq inc) (inc_n_var inc) m"
    and nc: "\<not> (matched_count (match_eq m) = inc_n_eq inc \<and> matched_count (match_eq m) = inc_n_var inc)"
    and w: "over_determined_block inc (match_eq m) (match_var m) = Some w"
  shows "\<exists>es us. require_perfect_matching equation_label unknown_label inc (match_eq m) (match_var m) =
    Some (Inl (Singular (inc_n_eq inc) (inc_n_var inc) (matched_count (match_eq m)) es us (unmatched_spans inc (match_var m)) w))"
proof -
  have "those (map (\<lambda>i. map_option equation_label (idx (inc_equation_refs inc) i)) (unmatched (match_eq m))) \<noteq> None"
    using inc matching_okD(1) [OF ok] unfolding those_map_None_iff by (auto simp: unmatched_iff incidence_ok_def)
  moreover have "those (map (\<lambda>i. map_option unknown_label (idx (inc_unknowns inc) i)) (unmatched (match_var m))) \<noteq> None"
    using inc matching_okD(2) [OF ok] unfolding those_map_None_iff by (auto simp: unmatched_iff incidence_ok_def)
  ultimately show ?thesis using nc w by (auto simp: require_perfect_matching_def)
qed

section \<open>Properties of loops and of the sorted DAE\<close>

text \<open>C10: Algebraic loops are irreducible and soundly torn: in every loop of a sorted system
  any two equations depend on each other through the matching, so that no order of
  smaller blocks exists; the loop lists its unknowns in the order of its equations, each
  beside the equation it is matched to; the tearing partitions the positions of both lists; and
  every causal step solves the unknown at its position from an equation that refers to it while
  the loop's other unknowns in that equation are torn or already solved.\<close>

theorem loops_irreducible_and_torn:
  assumes "incidence_ok inc" and "build_blt_from_incidence inc = Some (Inr blocks)"
  shows "\<exists>m. perfect inc m \<and> (\<forall>es us t. AlgebraicLoop es us t \<in> set blocks \<longrightarrow> loop_ok inc m es us t)"
  using blocks_sorted [OF assms] sorted_loops [OF assms(1)] by metis

theorem loops_irreducible_and_torn_witness:
  "\<exists>inc m es us t. solver_incidence [[0, 1], [0, 1]] 2 = Inr inc \<and> perfect inc m \<and>
     build_blt_from_incidence inc = Some (Inr [AlgebraicLoop es us t]) \<and> loop_ok inc m es us t \<and> us = [Solver 0, Solver 1]"
proof -
  let ?t = "Some \<lparr>tear_var_local_indices = [0], residual_eq_local_indices = [1], causal_sequence = [(0, 1)]\<rparr>"
  obtain inc where i: "solver_incidence [[0, 1], [0, 1]] 2 = Inr inc"
    using solver_incidence_total [of "[[0, 1], [0, 1]]" 2] by auto
  have "(case solver_incidence [[0, 1], [0, 1]] 2 of Inr inc \<Rightarrow> build_blt_from_incidence inc | Inl _ \<Rightarrow> None) =
      Some (Inr [AlgebraicLoop [EquationRef 1, EquationRef 0] [Solver 0, Solver 1] ?t])"
    by code_simp
  then have b: "build_blt_from_incidence inc = Some (Inr [AlgebraicLoop [EquationRef 1, EquationRef 0] [Solver 0, Solver 1] ?t])"
    unfolding i sum.case .
  from loops_irreducible_and_torn [OF solver_incidence_ok(1) [OF i] b] i b show ?thesis by auto
qed

text \<open>C1: Sorting a checked DAE from a well-formed incidence never panics: an empty system and a
  singular one are errors, and otherwise the sorted DAE lists every equation once with
  the unknown it is matched to, over blocks that solve exactly those pairs, whatever
  preferences, labels and view it is given.\<close>

theorem sort_from_incidence_contract:
  assumes inc: "incidence_ok inc"
  shows "\<exists>r. sort_from_incidence view preferences equation_label unknown_label warnings inc = Some r \<and>
    (r = Inl EmptySystem \<longleftrightarrow> inc_n_eq inc = 0 \<and> inc_n_var inc = 0) \<and>
    (\<forall>sorted. r = Inr sorted \<longrightarrow> structurally_regular inc \<and>
       map fst (sorted_matching sorted) = map EquationRef [0..<inc_n_eq inc] \<and>
       distinct (map snd (sorted_matching sorted)) \<and>
       triangular (row_reads inc) {} (map (block_parts inc) (sorted_blocks sorted)) \<and>
       (\<forall>e < inc_n_eq inc. \<exists>b \<in> set (sorted_blocks sorted). \<exists>v. sorted_matching sorted ! e = (EquationRef e, inc_unknowns inc ! v) \<and>
          v \<in> row_reads inc e \<and> (e, v) \<in> set (zip (block_equations inc b) (block_unknowns inc b)))) \<and>
    ((\<exists>sorted. r = Inr sorted) \<longleftrightarrow> structurally_regular inc \<and> inc_n_eq inc \<noteq> 0)"
proof (cases "inc_n_eq inc = 0 \<and> inc_n_var inc = 0")
  case True
  then show ?thesis by (simp add: sort_from_incidence_def)
next
  case False
  obtain m where m: "maximum_matching inc preferences = Some m"
    "matching_ok (inc_eq_unknowns inc) (inc_n_eq inc) (inc_n_var inc) m"
    and maxi: "\<And>f. is_matching (inc_eq_unknowns inc) (inc_n_eq inc) f \<Longrightarrow> card (dom f) \<le> card (dom (slot (match_eq m)))"
    and p: "perfect inc m \<longleftrightarrow> (\<exists>f. is_matching (inc_eq_unknowns inc) (inc_n_eq inc) f \<and> dom f = {..<inc_n_eq inc})"
    using maximum_matching_ok [OF inc] by metis
  note count = regular_count [OF m(2) p]
  have b: "rows_bounded (inc_eq_unknowns inc) (inc_n_var inc)" using inc by (simp add: incidence_ok_def)
  show ?thesis
  proof (cases "structurally_regular inc")
    case reg: True
    then have pm: "perfect inc m" and sq: "inc_n_eq inc = inc_n_var inc"
      using p unfolding structurally_regular_def by blast+
    obtain blocks S C where bl: "build_blt_blocks (Some view) inc (match_eq m) (dependencies inc m) = Some blocks"
      and so: "sorted_into inc m blocks S C" using build_blt_blocks_ok [OF inc pm] by blast
    have req: "require_perfect_matching equation_label unknown_label inc (match_eq m) (match_var m) = Some (Inr ())"
      using reg count by (simp add: require_perfect_matching_def)
    have r: "sort_from_incidence view preferences equation_label unknown_label warnings inc =
        Some (Inr \<lparr>sorted_blocks = blocks, sorted_matching = map (matched_pair inc m) [0..<inc_n_eq inc],
          sorted_diagnostics = warnings (match_eq m) (dependencies inc m)\<rparr>)"
      using False m(1) req bl matched_pairs(1) [OF inc pm] by (simp add: sort_from_incidence_def Let_def)
    have tri: "triangular (row_reads inc) {} (map (block_parts inc) blocks)" by (rule sorted_triangular [OF inc so pm sq])
    have "map fst (map (matched_pair inc m) [0..<inc_n_eq inc]) = map EquationRef [0..<inc_n_eq inc]"
      by (simp add: matched_pair_def)
    with tri show ?thesis unfolding r using reg False sq matched_pairs(2) [OF inc pm] pair_in_block [OF so pm] by simp
  next
    case reg: False
    then have nc: "\<not> (matched_count (match_eq m) = inc_n_eq inc \<and> matched_count (match_eq m) = inc_n_var inc)"
      using count by simp
    obtain w where "over_determined_block inc (match_eq m) (match_var m) = Some w"
      using over_determined_block_ok [OF m(2) b maxi] by blast
    from require_singular [OF inc m(2) nc this, of equation_label unknown_label] obtain es us where
      "require_perfect_matching equation_label unknown_label inc (match_eq m) (match_var m) =
       Some (Inl (Singular (inc_n_eq inc) (inc_n_var inc) (matched_count (match_eq m)) es us (unmatched_spans inc (match_var m)) w))"
      by blast
    then show ?thesis using False m(1) reg by (auto simp: sort_from_incidence_def)
  qed
qed

theorem sort_from_incidence_contract_witness:
  "\<exists>inc sorted. solver_incidence [[0, 1], [0]] 2 = Inr inc \<and>
     sort_from_incidence \<lparr>continuous_owner = \<lambda>_. None, domain_extents = \<lambda>_. None\<rparr> [] (\<lambda>_. []) (\<lambda>_. []) (\<lambda>_ _. []) inc =
       Some (Inr sorted) \<and> map fst (sorted_matching sorted) = [EquationRef 0, EquationRef 1]"
proof -
  let ?v = "\<lparr>continuous_owner = \<lambda>_. None, domain_extents = \<lambda>_. None\<rparr>"
  obtain inc blocks where i: "solver_incidence [[0, 1], [0]] 2 = Inr inc" "build_blt_from_incidence inc = Some (Inr blocks)"
    using sorted_example by blast
  note ok = solver_incidence_ok [OF i(1)]
  have "structurally_regular inc" using build_blt_cases [OF ok(1)] i(2) by auto
  with sort_from_incidence_contract [OF ok(1), of ?v "[]" "\<lambda>_. []" "\<lambda>_. []" "\<lambda>_ _. []"] ok(3)
  obtain sorted where "sort_from_incidence ?v [] (\<lambda>_. []) (\<lambda>_. []) (\<lambda>_ _. []) inc = Some (Inr sorted)"
    "map fst (sorted_matching sorted) = map EquationRef [0..<2]" by (auto simp: numeral_2_eq_2)
  with i(1) show ?thesis by (auto simp: numeral_2_eq_2)
qed

end
