(* ===== verification/Declaration_Runs.thy ===== *)
theory Declaration_Runs
  imports Blt_Correct
begin

text \<open>
  The declarations a compact block reports for its rows (\<open>blt/declaration_runs.rs\<close>): they are
  the unknowns the rows are matched to, for whatever matching and view the blocks were
  built with. Also the exact condition under which a component is left untorn.
\<close>

section \<open>Checked declarations\<close>

text \<open>A row whose projected declaration is the unknown it is matched to.\<close>

definition declared_row ::
  "StructuredMatchingFamily \<Rightarrow> Incidence \<Rightarrow> nat option list \<Rightarrow> UnknownId list \<Rightarrow> nat \<times> nat \<Rightarrow> bool" where
  "declared_row family inc m_eq bases = (\<lambda>(p, q).
     \<exists>r v. candidate family p q = Some (r, v) \<and> slot m_eq r = Some v \<and>
       project_declaration family bases v q = idx (inc_unknowns inc) v \<and> idx (inc_unknowns inc) v \<noteq> None)"

lemma check_row_declared:
  assumes "check_row family inc m_eq decl cell = Some (Some bases)"
  shows "decl = Some bases" "declared_row family inc m_eq bases cell"
proof -
  obtain p q where cell: "cell = (p, q)" by (cases cell)
  have "\<exists>v. row_is_self_contained family inc m_eq p q = Some v \<and> (case decl of
      Some bs \<Rightarrow> if matches_declaration family inc bs v q then Some bs else None | None \<Rightarrow> None) = Some bases"
    using assms unfolding check_row_def cell prod.case bind_Some_iff option.inject by blast
  then obtain v where v: "row_is_self_contained family inc m_eq p q = Some v"
    "decl = Some bases" "matches_declaration family inc bases v q"
    by (cases decl) (auto split: if_splits)
  show "decl = Some bases" by (rule v(2))
  obtain r where "candidate family p q = Some (r, v)" "slot m_eq r = Some v"
    using v(1) unfolding row_is_self_contained_def bind_Some_iff by (auto split: if_splits)
  with v(3) show "declared_row family inc m_eq bases cell"
    by (auto simp: declared_row_def cell matches_declaration_def split: option.splits)
qed

lemma check_fold_declared:
  "try_fold (check_row family inc m_eq) decl cells = Some (Some bases) \<Longrightarrow>
     (cells \<noteq> [] \<longrightarrow> decl = Some bases) \<and> (\<forall>cell \<in> set cells. declared_row family inc m_eq bases cell)"
proof (induction cells arbitrary: decl)
  case (Cons cell cells)
  then obtain d where d: "check_row family inc m_eq decl cell = Some d"
    "try_fold (check_row family inc m_eq) d cells = Some (Some bases)" by (auto split: option.splits)
  have "d = Some bases" using Cons.IH [OF d(2)] d(2) by (cases cells) auto
  with d(1) check_row_declared [of family inc m_eq decl cell bases] Cons.IH [OF d(2)] show ?case by auto
qed simp

definition declared_block :: "Incidence \<Rightarrow> nat option list \<Rightarrow> StructuredScalarBlock \<Rightarrow> bool" where
  "declared_block inc m_eq b \<longleftrightarrow>
     (\<forall>ctx bases. block_context b = Some ctx \<longrightarrow> declaration_bases ctx = Some bases \<longrightarrow>
        (\<forall>cell \<in> set (family_cells (block_matching b)). declared_row (block_matching b) inc m_eq bases cell))"

lemma structured_block_declared:
  assumes "family_is_self_contained family inc m_eq = Some decl"
    and "structured_scalar_block view family inc decl = Some b"
  shows "declared_block inc m_eq b"
proof -
  have "declaration_bases ctx = decl" if "block_context b = Some ctx" for ctx
    using assms(2) that
    by (auto simp: structured_scalar_block_def checked_source_def bind_source_def
        split: option.splits if_splits ContinuousOwnerView.splits)
  moreover have "block_matching b = family"
    using assms(2) by (auto simp: structured_scalar_block_def split: option.splits)
  moreover have "\<forall>cell \<in> set (family_cells family). declared_row family inc m_eq bases cell" if "decl = Some bases" for bases
    using assms(1) that check_fold_declared [of family inc m_eq "base_declarations family inc" "family_cells family" bases]
    by (auto simp: family_is_self_contained_def res_simps split: if_splits)
  ultimately show ?thesis by (auto simp: declared_block_def)
qed

lemma split_step_declared:
  assumes "split_step view inc m_eq s family = Some s'" "\<forall>b \<in> set (fst s). declared_block inc m_eq b"
  shows "\<forall>b \<in> set (fst s'). declared_block inc m_eq b"
  using assms structured_block_declared
  by (cases s) (auto simp: split_step_def Let_def res_simps split: option.splits prod.splits if_splits)

lemma split_declared:
  assumes "split_self_contained_families view inc m_eq = Some (blocks, keep)"
  shows "\<forall>b \<in> set blocks. declared_block inc m_eq b"
proof -
  obtain s where s: "try_fold (split_step view inc m_eq) ([], None) (inc_structured_matching inc) = Some s"
    and b: "blocks = [] \<or> blocks = fst s"
    using assms by (auto simp: split_self_contained_families_def res_simps split: if_splits)
  have "\<forall>b \<in> set (fst s). declared_block inc m_eq b"
    by (rule try_fold_invariant [OF s]) (auto dest: split_step_declared)
  with b show ?thesis by auto
qed

lemma component_not_structured: "scc_to_block inc m_eq c \<noteq> Some (StructuredScalar b)"
  by (auto simp: scc_to_block_def res_simps split: list.splits)

lemma those_not_structured:
  "those (map (scc_to_block inc m_eq) C) = Some B \<Longrightarrow> StructuredScalar b \<notin> set B"
  by (auto simp: those_map_Some_iff in_set_conv_nth) (metis component_not_structured)

lemma build_blt_structured:
  assumes "build_blt_blocks view inc m_eq adj = Some blocks" "StructuredScalar b \<in> set blocks"
  shows "declared_block inc m_eq b"
proof -
  obtain S keep where s: "split_self_contained_families view inc m_eq = Some (S, keep)"
    using assms(1) by (auto simp: build_blt_blocks_def res_simps)
  have n: "StructuredScalar b \<notin> set B"
    if "those (map (\<lambda>scc. scc_to_block inc m_eq (f scc)) C) = Some B" for f and C :: "nat list list" and B
    using those_not_structured [of inc m_eq "map f C" B b] that by (simp add: comp_def)
  have "b \<in> set S"
    using assms s n n [where f = "\<lambda>c. c"]
    by (auto simp: build_blt_blocks_def sccs_to_blocks_def res_simps split: option.splits prod.splits)
  then show ?thesis using split_declared [OF s] by blast
qed

section \<open>Properties\<close>

text \<open>C28: A compact block that carries declarations reports, at every point and body position of
  its family, the scalar row there together with the very unknown that row is matched
  to: the declaration projected from the base cell is the entry of the unknown table, no
  matter how the matching, the dependency graph and the view came about.\<close>

theorem compact_block_declarations:
  assumes "build_blt_blocks view inc m_eq adj = Some blocks" and "StructuredScalar b \<in> set blocks"
    and "block_context b = Some ctx" and "declaration_bases ctx = Some bases"
    and "point < point_count (block_matching b)" and "position < equations_per_point (block_matching b)"
  shows "\<exists>r v declaration. matched_declaration b point position = Some (EquationRef r, declaration) \<and>
    candidate (block_matching b) point position = Some (r, v) \<and>
    slot m_eq r = Some v \<and> idx (inc_unknowns inc) v = Some declaration"
proof -
  have "(point, position) \<in> set (family_cells (block_matching b))" using assms(5,6) by (simp add: family_cells_iff)
  then have "declared_row (block_matching b) inc m_eq bases (point, position)"
    using build_blt_structured [OF assms(1,2)] assms(3,4) unfolding declared_block_def by blast
  then show ?thesis using assms(3,4) by (auto simp: declared_row_def matched_declaration_def)
qed

definition array_incidence :: Incidence where
  "array_incidence = \<lparr>inc_n_eq = 2, inc_n_var = 2, inc_eq_unknowns = from_sets [[0], [1]],
     inc_unknowns = [Derivative 3 0, Derivative 3 1], inc_unknown_spans = [],
     inc_equation_refs = [EquationRef 0, EquationRef 1], inc_equation_spans = [],
     inc_structured_matching = [\<lparr>source_owner_index = 0, first_equation_index = 0, equations_per_point = 1,
       point_count = 2, extents = [2], cell_strides = [1], base_unknowns = [0], unknown_steps = [[1]]\<rparr>],
     inc_owner_first_row = [0, 2]\<rparr>"

definition array_view :: DaeView where
  "array_view = \<lparr>continuous_owner = (\<lambda>i. if i = 0 then Some (Structured 9
       \<lparr>family_domain = 4, family_bodies = 1, family_scalar_rows = 2\<rparr>) else None),
     domain_extents = (\<lambda>i. if i = 4 then Some [2] else None)\<rparr>"

theorem compact_block_declarations_witness:
  "\<exists>blocks b. build_blt_blocks (Some array_view) array_incidence [Some 0, Some 1] [[], []] = Some blocks \<and>
     StructuredScalar b \<in> set blocks \<and>
     matched_declaration b 1 0 = Some (EquationRef 1, Derivative 3 1)"
proof -
  let ?f = "\<lparr>source_owner_index = 0, first_equation_index = 0, equations_per_point = 1,
       point_count = 2, extents = [2], cell_strides = [1], base_unknowns = [0], unknown_steps = [[1]]\<rparr>"
  let ?c = "\<lparr>context_source = 9, context_domain = 4, declaration_bases = Some [Derivative 3 0]\<rparr>"
  let ?b = "\<lparr>block_matching = ?f, block_context = Some ?c\<rparr>"
  have e: "build_blt_blocks (Some array_view) array_incidence [Some 0, Some 1] [[], []] = Some [StructuredScalar ?b]"
    by code_simp
  have c: "candidate ?f 1 0 = Some (1, 1)" by code_simp
  from compact_block_declarations [OF e, of ?b ?c "[Derivative 3 0]" 1 0] obtain r v d where
    "matched_declaration ?b 1 0 = Some (EquationRef r, d)" "candidate ?f 1 0 = Some (r, v)"
    "idx (inc_unknowns array_incidence) v = Some d" by auto
  with c e show ?thesis by (auto simp: array_incidence_def)
qed

section \<open>Untorn components\<close>

text \<open>
  A component is left untorn when one of its equations is unmatched, while a fully matched
  loop can be torn.
\<close>

lemma tear_scc_unmatched:
  assumes "set scc \<subseteq> {..<length m_eq}" "e \<in> set scc" "slot m_eq e = None"
  shows "tear_scc scc inc m_eq = Some None"
proof -
  have "any_unmatched m_eq scc = Some True"
    using assms by (induction scc) (auto simp: slot_def split: if_splits)
  then show ?thesis by (simp add: tear_scc_def)
qed

lemma tear_scc_matched:
  "tear_scc [0, 1] (array_incidence\<lparr>inc_eq_unknowns := from_sets [[0, 1], [0, 1]]\<rparr>) [Some 0, Some 1] =
     Some (Some \<lparr>tear_var_local_indices = [0], residual_eq_local_indices = [1], causal_sequence = [(0, 1)]\<rparr>)"
  by code_simp

end
