(* ===== verification/Structured_Domain.thy ===== *)
theory Structured_Domain
  imports Odometer Integer_Arith
begin

text \<open>
  Structured index domains (\<open>structured_domain.rs\<close> of \<open>rumoca-core\<close>): affine index forms,
  array accesses, row-major geometry and component names, and the domains of \<open>for\<close>
  families with their enumeration. \<open>u32\<close> and \<open>usize\<close> values are naturals, \<open>i64\<close> and
  \<open>i128\<close> values integers; the \<open>i128\<close> arithmetic of the binders cannot leave its range for
  \<open>i64\<close> operands. Reserving memory may fail: whether a vector of a given capacity can be
  allocated is the argument \<open>reserve\<close>. The serialised provenance of a binder is left out.
\<close>

section \<open>Affine forms\<close>

record AffineForm =
  af_constant :: int
  coeffs :: "int list"

definition affine_constant :: "int \<Rightarrow> nat \<Rightarrow> AffineForm" where
  "affine_constant value binder_count = \<lparr>af_constant = value, coeffs = replicate binder_count 0\<rparr>"

text \<open>An index outside the binders panics.\<close>

definition unit_binder :: "nat \<Rightarrow> nat \<Rightarrow> AffineForm option" where
  "unit_binder i binder_count = do {
     cs \<leftarrow> upd (replicate binder_count 0) i 1;
     Some \<lparr>af_constant = 0, coeffs = cs\<rparr>
   }"

definition is_binder_free :: "AffineForm \<Rightarrow> bool" where
  "is_binder_free f = list_all (\<lambda>c. c = 0) (coeffs f)"

definition affine_add :: "AffineForm \<Rightarrow> AffineForm \<Rightarrow> AffineForm option" where
  "affine_add f g =
     (if length (coeffs f) \<noteq> length (coeffs g) then None
      else do {
        c \<leftarrow> chk_i64 (af_constant f + af_constant g);
        cs \<leftarrow> those (map (\<lambda>(a, b). chk_i64 (a + b)) (zip (coeffs f) (coeffs g)));
        Some \<lparr>af_constant = c, coeffs = cs\<rparr>
      })"

definition affine_neg :: "AffineForm \<Rightarrow> AffineForm option" where
  "affine_neg f = do {
     c \<leftarrow> chk_i64 (- af_constant f);
     cs \<leftarrow> those (map (\<lambda>a. chk_i64 (- a)) (coeffs f));
     Some \<lparr>af_constant = c, coeffs = cs\<rparr>
   }"

definition affine_scale :: "AffineForm \<Rightarrow> int \<Rightarrow> AffineForm option" where
  "affine_scale f factor = do {
     c \<leftarrow> chk_i64 (af_constant f * factor);
     cs \<leftarrow> those (map (\<lambda>a. chk_i64 (a * factor)) (coeffs f));
     Some \<lparr>af_constant = c, coeffs = cs\<rparr>
   }"

record ArrayAccess =
  access_var :: string
  subscripts :: "AffineForm list"

text \<open>The stride of one binder: a sum in \<open>i128\<close>, narrowed at the end.\<close>

definition binder_stride :: "(AffineForm \<times> nat) list \<Rightarrow> nat \<Rightarrow> int option" where
  "binder_stride dims binder = do {
     total \<leftarrow> try_fold (\<lambda>stride (subscript, memory_stride). do {
         c \<leftarrow> idx (coeffs subscript) binder;
         p \<leftarrow> chk_i128 (int memory_stride * c);
         chk_i128 (stride + p)
       }) 0 dims;
     chk_i64 total
   }"

definition binder_index_strides :: "ArrayAccess \<Rightarrow> nat list \<Rightarrow> nat \<Rightarrow> int list option" where
  "binder_index_strides access memory_strides binder_count =
     (if length (subscripts access) \<noteq> length memory_strides \<or>
         \<not> list_all (\<lambda>s. length (coeffs s) = binder_count) (subscripts access)
      then None
      else those (map (binder_stride (zip (subscripts access) memory_strides)) [0..<binder_count]))"

section \<open>Row-major geometry\<close>

definition row_major_strides :: "nat list \<Rightarrow> nat list option" where
  "row_major_strides dims = row_major_strides_from dims"

text \<open>The axes from the last to the first; the coordinates come out in axis order.\<close>

fun coordinates_loop :: "nat list \<Rightarrow> nat \<Rightarrow> nat list \<Rightarrow> nat list option" where
  "coordinates_loop [] remainder acc = Some acc"
| "coordinates_loop (extent # reversed) remainder acc =
     (if extent = 0 then None
      else do {
        c \<leftarrow> chk_u32 (remainder mod extent);
        coordinates_loop reversed (remainder div extent) (c # acc)
      })"

definition row_major_coordinates :: "nat list \<Rightarrow> nat \<Rightarrow> nat list option" where
  "row_major_coordinates exts ordinal = do {
     scalar_count \<leftarrow> try_fold (\<lambda>count extent. chk_usize (count * extent)) 1 exts;
     (if ordinal \<ge> scalar_count then None else coordinates_loop (rev exts) ordinal [])
   }"

fun join_subscripts :: "nat list \<Rightarrow> string" where
  "join_subscripts [] = []"
| "join_subscripts [c] = show_nat c"
| "join_subscripts (c # d # cs) = show_nat c @ CHR '','' # join_subscripts (d # cs)"

definition scalar_component_display_name :: "string \<Rightarrow> nat list \<Rightarrow> string option" where
  "scalar_component_display_name name coords =
     (if 0 \<in> set coords then None
      else if coords = [] then Some name
      else Some (name @ CHR ''['' # join_subscripts coords @ [CHR '']'']))"

definition scalar_component_name :: "string \<Rightarrow> nat list \<Rightarrow> nat \<Rightarrow> string option" where
  "scalar_component_name name exts ordinal = do {
     zero_based \<leftarrow> row_major_coordinates exts ordinal;
     coords \<leftarrow> those (map (\<lambda>c. chk_usize (c + 1)) zero_based);
     scalar_component_display_name name coords
   }"

definition flatten_step :: "nat \<Rightarrow> nat \<times> nat \<Rightarrow> nat option" where
  "flatten_step flat = (\<lambda>(extent, coordinate).
     (if coordinate \<ge> extent then None
      else do { p \<leftarrow> chk_usize (flat * extent); chk_usize (p + coordinate) }))"

definition flatten_coordinates :: "nat list \<Rightarrow> nat list \<Rightarrow> nat option" where
  "flatten_coordinates exts coords =
     (if length exts \<noteq> length coords then None
      else try_fold flatten_step 0 (zip exts coords))"

datatype ComprehensionScalarView =
  BinderSubstitution | RowMajorProjection | BinderPrefixProjection nat

definition is_binder_substitution :: "ComprehensionScalarView \<Rightarrow> bool" where
  "is_binder_substitution v \<longleftrightarrow> v = BinderSubstitution"

definition body_scalar :: "ComprehensionScalarView \<Rightarrow> nat \<Rightarrow> nat list \<Rightarrow> nat option" where
  "body_scalar v point exts =
     (case v of
        BinderSubstitution \<Rightarrow> Some 0
      | RowMajorProjection \<Rightarrow> Some point
      | BinderPrefixProjection binder_count \<Rightarrow> do {
          suffix \<leftarrow> (if binder_count \<le> length exts then Some (drop binder_count exts) else None);
          count \<leftarrow> try_fold (\<lambda>count extent. chk_usize (count * extent)) 1 suffix;
          (if count > 0 then Some (point mod count) else None)
        })"

section \<open>Domains\<close>

record StructuredIndexBinder =
  binder_id :: nat
  binder_name :: string
  binder_lower :: int
  binder_upper :: int
  binder_step :: int

type_synonym StructuredIndexDomain = "StructuredIndexBinder list"

datatype StructuredIndexDomainError =
  ZeroStep nat string | ScalarCountOverflow | BinderValueOverflow nat string | IndexTupleCapacityOverflow

definition positive_value_count :: "StructuredIndexBinder \<Rightarrow> nat" where
  "positive_value_count b =
     (if binder_lower b > binder_upper b then 0 else nat (binder_upper b - binder_lower b) div nat (binder_step b) + 1)"

definition negative_value_count :: "StructuredIndexBinder \<Rightarrow> nat" where
  "negative_value_count b =
     (if binder_lower b < binder_upper b then 0 else nat (binder_lower b - binder_upper b) div nat (- binder_step b) + 1)"

definition value_count :: "StructuredIndexBinder \<Rightarrow> StructuredIndexDomainError + nat" where
  "value_count b =
     (if binder_step b = 0 then Inl (ZeroStep (binder_id b) (binder_name b))
      else ok_or (chk_usize (if binder_step b > 0 then positive_value_count b else negative_value_count b))
        ScalarCountOverflow)"

definition value_at :: "StructuredIndexBinder \<Rightarrow> nat \<Rightarrow> StructuredIndexDomainError + int" where
  "value_at b position =
     ok_or (chk_i64 (binder_lower b + binder_step b * int position)) (BinderValueOverflow (binder_id b) (binder_name b))"

text \<open>Rust's \<open>%\<close> and \<open>/\<close> truncate.\<close>

definition position_of :: "StructuredIndexBinder \<Rightarrow> int \<Rightarrow> StructuredIndexDomainError + nat option" where
  "position_of b x =
     bindR (value_count b) (\<lambda>count.
       if count = 0 then Inr None
       else (let distance = x - binder_lower b in
         if distance smod binder_step b \<noteq> 0 then Inr None
         else (let position = distance sdiv binder_step b in
           if position < 0 then Inr None
           else bindR (ok_or (usize_of_int position) ScalarCountOverflow) (\<lambda>position.
             Inr (if position < count then Some position else None)))))"

fun validate_from :: "nat \<Rightarrow> StructuredIndexDomain \<Rightarrow> StructuredIndexDomainError + nat" where
  "validate_from count [] = Inr count"
| "validate_from count (b # bs) =
     bindR (value_count b) (\<lambda>n.
       bindR (ok_or (chk_usize (count * n)) ScalarCountOverflow) (\<lambda>count. validate_from count bs))"

definition validate :: "StructuredIndexDomain \<Rightarrow> StructuredIndexDomainError + nat" where
  "validate d = validate_from 1 d"

definition scalar_count :: "StructuredIndexDomain \<Rightarrow> StructuredIndexDomainError + nat" where
  "scalar_count d = validate d"

fun collectR :: "('e + 'a) list \<Rightarrow> 'e + 'a list" where
  "collectR [] = Inr []"
| "collectR (r # rs) = bindR r (\<lambda>x. bindR (collectR rs) (\<lambda>xs. Inr (x # xs)))"

definition index_extents :: "StructuredIndexDomain \<Rightarrow> StructuredIndexDomainError + nat list" where
  "index_extents d = bindR (validate d) (\<lambda>_. collectR (map value_count d))"

definition ordinal_strides_for_extents :: "nat list \<Rightarrow> StructuredIndexDomainError + nat list" where
  "ordinal_strides_for_extents exts = ok_or (row_major_strides_from exts) ScalarCountOverflow"

definition ordinal_strides :: "StructuredIndexDomain \<Rightarrow> StructuredIndexDomainError + nat list" where
  "ordinal_strides d = bindR (index_extents d) ordinal_strides_for_extents"

definition index_tuple_at_validated ::
  "(nat \<Rightarrow> bool) \<Rightarrow> StructuredIndexDomain \<Rightarrow> nat \<Rightarrow> nat list \<Rightarrow> nat list \<Rightarrow> StructuredIndexDomainError + int list" where
  "index_tuple_at_validated reserve d ordinal exts strides =
     (if \<not> reserve (length d) then Inl IndexTupleCapacityOverflow
      else collectR (map (\<lambda>((b, extent), stride). value_at b ((ordinal div stride) mod extent))
        (zip (zip d exts) strides)))"

definition index_tuple_at ::
  "(nat \<Rightarrow> bool) \<Rightarrow> StructuredIndexDomain \<Rightarrow> nat \<Rightarrow> StructuredIndexDomainError + int list option" where
  "index_tuple_at reserve d ordinal =
     bindR (validate d) (\<lambda>count.
       if ordinal \<ge> count then Inr None
       else bindR (index_extents d) (\<lambda>exts.
         bindR (ordinal_strides_for_extents exts) (\<lambda>strides.
         bindR (index_tuple_at_validated reserve d ordinal exts strides) (\<lambda>t. Inr (Some t)))))"

fun ordinal_loop :: "nat \<Rightarrow> ((StructuredIndexBinder \<times> int) \<times> nat) list \<Rightarrow> StructuredIndexDomainError + nat option" where
  "ordinal_loop ordinal [] = Inr (Some ordinal)"
| "ordinal_loop ordinal (((b, x), stride) # rest) =
     bindR (position_of b x) (\<lambda>found.
       (case found of
          None \<Rightarrow> Inr None
        | Some position \<Rightarrow>
            bindR (ok_or (chk_usize (position * stride)) ScalarCountOverflow) (\<lambda>p.
            bindR (ok_or (chk_usize (ordinal + p)) ScalarCountOverflow) (\<lambda>ordinal.
              ordinal_loop ordinal rest))))"

definition ordinal_of :: "StructuredIndexDomain \<Rightarrow> int list \<Rightarrow> StructuredIndexDomainError + nat option" where
  "ordinal_of d index_tuple =
     bindR (validate d) (\<lambda>_.
       if length index_tuple \<noteq> length d then Inr None
       else bindR (ordinal_strides d) (\<lambda>strides. ordinal_loop 0 (zip (zip d index_tuple) strides)))"

definition corner_ordinals :: "StructuredIndexDomain \<Rightarrow> StructuredIndexDomainError + nat list" where
  "corner_ordinals d =
     bindR (validate d) (\<lambda>count.
       if count = 0 then Inr []
       else bindR (index_extents d) (\<lambda>exts.
         bindR (ordinal_strides_for_extents exts) (\<lambda>strides.
           Inr (0 # map snd (filter (\<lambda>(extent, stride). extent > 1) (zip exts strides))))))"

text \<open>The lazy iterator is the list of its items, each \<open>None\<close> where the \<open>expect\<close> would panic.\<close>

definition index_tuple_iter ::
  "(nat \<Rightarrow> bool) \<Rightarrow> StructuredIndexDomain \<Rightarrow> StructuredIndexDomainError + int list option list" where
  "index_tuple_iter reserve d =
     bindR (validate d) (\<lambda>count. bindR (index_extents d) (\<lambda>exts.
       bindR (ordinal_strides_for_extents exts) (\<lambda>strides.
         Inr (map (\<lambda>ordinal. case index_tuple_at_validated reserve d ordinal exts strides of
             Inr t \<Rightarrow> Some t | Inl _ \<Rightarrow> None) [0..<count]))))"

definition index_tuples ::
  "(nat \<Rightarrow> bool) \<Rightarrow> (nat \<Rightarrow> bool) \<Rightarrow> StructuredIndexDomain \<Rightarrow> (StructuredIndexDomainError + int list list) option" where
  "index_tuples reserve_tuples reserve d =
     (case validate d of
        Inl e \<Rightarrow> Some (Inl e)
      | Inr count \<Rightarrow>
          if \<not> reserve_tuples count then Some (Inl IndexTupleCapacityOverflow)
          else (case index_tuple_iter reserve d of
             Inl e \<Rightarrow> Some (Inl e)
           | Inr items \<Rightarrow> map_option Inr (those items)))"

section \<open>Affine forms denote affine functions\<close>

definition dot :: "int list \<Rightarrow> int list \<Rightarrow> int" where
  "dot as xs = sum_list (map2 (*) as xs)"

definition affine_eval :: "AffineForm \<Rightarrow> int list \<Rightarrow> int" where
  "affine_eval f xs = af_constant f + dot (coeffs f) xs"

lemma dot_simps [simp]: "dot [] xs = 0" "dot as [] = 0" "dot (a # as) (x # xs) = a * x + dot as xs"
  by (simp_all add: dot_def)

lemma dot_add: "length as = length bs \<Longrightarrow> dot (map2 (+) as bs) xs = dot as xs + dot bs xs"
proof (induction as bs arbitrary: xs rule: list_induct2)
  case (Cons a as b bs)
  then show ?case by (cases xs) (simp_all add: algebra_simps)
qed simp

lemma dot_map: "dot (map (\<lambda>a. a * c) as) xs = dot as xs * c"
proof (induction as arbitrary: xs)
  case (Cons a as)
  then show ?case by (cases xs) (simp_all add: algebra_simps)
qed simp

lemma dot_neg: "dot (map uminus as) xs = - dot as xs"
  using dot_map [of "- 1" as xs] by (simp add: comp_def)

lemma dot_zero: "list_all (\<lambda>c. c = 0) as \<Longrightarrow> dot as xs = 0"
proof (induction as arbitrary: xs)
  case (Cons a as)
  then show ?case by (cases xs) simp_all
qed simp

lemma dot_unit: "i < n \<Longrightarrow> length xs = n \<Longrightarrow> dot ((replicate n 0)[i := 1]) xs = xs ! i"
proof (induction n arbitrary: i xs)
  case (Suc n)
  have z: "dot (replicate k 0) ys = 0" for k ys by (rule dot_zero) (simp add: list_all_iff)
  from Suc show ?case by (cases xs; cases i) (simp_all add: z)
qed simp

lemma those_chk_i64:
  "those (map (\<lambda>x. chk_i64 (f x)) xs) = Some ys \<longleftrightarrow> ys = map f xs \<and> list_all in_i64 ys"
  by (auto simp: those_map_Some_iff list_all_length list_eq_iff_nth_eq)

lemma affine_add_iff:
  "affine_add f g = Some h \<longleftrightarrow> length (coeffs f) = length (coeffs g) \<and>
     h = \<lparr>af_constant = af_constant f + af_constant g, coeffs = map2 (+) (coeffs f) (coeffs g)\<rparr> \<and>
     in_i64 (af_constant h) \<and> list_all in_i64 (coeffs h)"
proof -
  have e: "map (\<lambda>(a, b). chk_i64 (a + b)) xs = map (\<lambda>x. chk_i64 ((\<lambda>(a, b). a + b) x)) xs" for xs by auto
  show ?thesis unfolding affine_add_def e by (auto simp: res_simps those_chk_i64)
qed

lemma affine_neg_iff:
  "affine_neg f = Some h \<longleftrightarrow> h = \<lparr>af_constant = - af_constant f, coeffs = map uminus (coeffs f)\<rparr> \<and>
     in_i64 (af_constant h) \<and> list_all in_i64 (coeffs h)"
  by (auto simp: affine_neg_def res_simps those_chk_i64)

lemma affine_scale_iff:
  "affine_scale f c = Some h \<longleftrightarrow> h = \<lparr>af_constant = af_constant f * c, coeffs = map (\<lambda>a. a * c) (coeffs f)\<rparr> \<and>
     in_i64 (af_constant h) \<and> list_all in_i64 (coeffs h)"
  by (auto simp: affine_scale_def res_simps those_chk_i64)

section \<open>Strides of an access\<close>

text \<open>The flat index of an access at a point of the binders.\<close>

definition flat_index :: "(AffineForm \<times> nat) list \<Rightarrow> int list \<Rightarrow> int" where
  "flat_index dims xs = sum_list (map (\<lambda>(s, m). int m * affine_eval s xs) dims)"

lemma stride_fold:
  "try_fold (\<lambda>stride (subscript, memory_stride). do {
       c \<leftarrow> idx (coeffs subscript) binder;
       p \<leftarrow> chk_i128 (int memory_stride * c);
       chk_i128 (stride + p) }) z dims = Some sum_total \<Longrightarrow>
     sum_total = z + sum_list (map (\<lambda>(s, m). int m * coeffs s ! binder) dims)"
proof (induction dims arbitrary: z)
  case (Cons d dims)
  obtain s m where d: "d = (s, m)" by (cases d)
  from Cons.prems have "try_fold (\<lambda>stride (subscript, memory_stride). do {
       c \<leftarrow> idx (coeffs subscript) binder;
       p \<leftarrow> chk_i128 (int memory_stride * c);
       chk_i128 (stride + p) }) (z + int m * coeffs s ! binder) dims = Some sum_total"
    by (auto simp: d res_simps split: option.splits)
  from Cons.IH [OF this] show ?case by (simp add: d)
qed simp

lemma binder_stride_value:
  "binder_stride dims binder = Some s \<Longrightarrow> s = sum_list (map (\<lambda>(s, m). int m * coeffs s ! binder) dims)"
  by (auto simp: binder_stride_def res_simps dest: stride_fold)

lemma dot_difference:
  "length as = n \<Longrightarrow> length xs = n \<Longrightarrow> length ys = n \<Longrightarrow> dot as xs - dot as ys = (\<Sum>b < n. as ! b * (xs ! b - ys ! b))"
proof (induction n arbitrary: as xs ys)
  case (Suc n)
  obtain a as' where a: "as = a # as'" "length as' = n" using Suc.prems(1) by (cases as) auto
  obtain x xs' where x: "xs = x # xs'" "length xs' = n" using Suc.prems(2) by (cases xs) auto
  obtain y ys' where y: "ys = y # ys'" "length ys' = n" using Suc.prems(3) by (cases ys) auto
  have "dot as xs - dot as ys = a * (x - y) + (dot as' xs' - dot as' ys')"
    by (simp add: a x y right_diff_distrib)
  also have "\<dots> = (\<Sum>b < Suc n. as ! b * (xs ! b - ys ! b))"
    unfolding Suc.IH [OF a(2) x(2) y(2)] sum.lessThan_Suc_shift by (simp add: a x y)
  finally show ?case .
qed simp

lemma flat_difference:
  assumes "\<forall>(s, m) \<in> set dims. length (coeffs s) = n" "length xs = n" "length ys = n"
  shows "flat_index dims xs - flat_index dims ys =
    (\<Sum>b < n. sum_list (map (\<lambda>(s, m). int m * coeffs s ! b) dims) * (xs ! b - ys ! b))"
  using assms
proof (induction dims)
  case (Cons d dims)
  obtain s m where d: "d = (s, m)" by (cases d)
  have "int m * affine_eval s xs - int m * affine_eval s ys = int m * (\<Sum>b < n. coeffs s ! b * (xs ! b - ys ! b))"
    using dot_difference [of "coeffs s" n xs ys] Cons.prems d by (simp add: affine_eval_def flip: right_diff_distrib)
  also have "\<dots> = (\<Sum>b < n. int m * coeffs s ! b * (xs ! b - ys ! b))" by (simp add: sum_distrib_left mult.assoc)
  finally show ?case using Cons d by (simp add: flat_index_def distrib_right sum.distrib)
qed (simp add: flat_index_def)

section \<open>Mixed-radix positions\<close>

fun radix_position :: "nat list \<Rightarrow> nat list \<Rightarrow> nat" where
  "radix_position (e # es) (c # cs) = c * prod_list es + radix_position es cs"
| "radix_position _ _ = 0"

abbreviation in_extents :: "nat list \<Rightarrow> nat list \<Rightarrow> bool" where
  "in_extents es cs \<equiv> list_all2 (\<lambda>e c. c < e) es cs"

lemma in_extents_pos: "in_extents es cs \<Longrightarrow> 0 < prod_list es"
  by (induction rule: list_all2_induct) auto

lemma radix_position_less: "in_extents es cs \<Longrightarrow> radix_position es cs < prod_list es"
proof (induction rule: list_all2_induct)
  case (Cons e es c cs)
  then have "c * prod_list es + radix_position es cs < (c + 1) * prod_list es" by simp
  also have "\<dots> \<le> e * prod_list es" using Cons(1) by (intro mult_right_mono) auto
  finally show ?case by simp
qed simp

lemma digits_position: "in_extents es cs \<Longrightarrow> digits es (k * prod_list es + radix_position es cs) = cs"
proof (induction es cs arbitrary: k rule: list_all2_induct)
  case (Cons e es c cs)
  have lt: "radix_position es cs < prod_list es" by (rule radix_position_less [OF Cons(2)])
  let ?p = "(k * e + c) * prod_list es + radix_position es cs"
  have p: "k * prod_list (e # es) + radix_position (e # es) (c # cs) = ?p" by (simp add: algebra_simps)
  have "?p div prod_list es mod e = c" using lt Cons(1) in_extents_pos [OF Cons(2)] by (simp add: mult.commute [of k])
  moreover have "digits es ?p = cs" by (rule Cons.IH)
  ultimately show ?case unfolding p by simp
qed simp

lemma position_digits: "0 \<notin> set es \<Longrightarrow> radix_position es (digits es p) = p mod prod_list es"
proof (induction es)
  case (Cons e es)
  then show ?case by (simp add: mod_mult2_eq mult.commute [of e] add.commute)
qed simp

lemma digits_in_extents: "0 \<notin> set es \<Longrightarrow> in_extents es (digits es p)"
  by (induction es) auto

section \<open>Row-major geometry reads mixed-radix digits\<close>

lemma extent_fold:
  "try_fold (\<lambda>count extent. chk_usize (count * extent)) z es = Some n \<Longrightarrow> n = z * prod_list es"
  by (induction es arbitrary: z) (fastforce simp: mult.assoc split: option.splits)+

lemma extent_fold_defined:
  "0 \<notin> set es \<Longrightarrow> z * prod_list es \<le> usize_max \<Longrightarrow>
     try_fold (\<lambda>count extent. chk_usize (count * extent)) z es = Some (z * prod_list es)"
proof (induction es arbitrary: z)
  case (Cons e es)
  have "0 < prod_list es" using Cons.prems(1) by (simp add: prod_list_zero_iff flip: neq0_conv)
  then have "z * e * 1 \<le> z * e * prod_list es" by (intro mult_left_mono) auto
  also have "\<dots> \<le> usize_max" using Cons.prems(2) by (simp add: mult.assoc)
  finally show ?case using Cons by (simp add: chk_usize_def mult.assoc)
qed simp

lemma coordinates_loop_digits:
  "0 \<notin> set es \<Longrightarrow> list_all (\<lambda>e. e \<le> u32_max) es \<Longrightarrow> coordinates_loop (rev es) p acc = Some (digits es p @ acc)"
proof (induction es arbitrary: p acc rule: rev_induct)
  case (snoc e es)
  have "p mod e \<le> e" using snoc.prems by simp
  also have "\<dots> \<le> u32_max" using snoc.prems by simp
  finally have "p mod e \<le> u32_max" .
  with snoc show ?case by (simp add: digits_snoc chk_u32_def)
qed simp

lemma row_major_coordinates_iff:
  assumes "list_all (\<lambda>e. e \<le> u32_max) es" and "prod_list es \<le> usize_max"
  shows "row_major_coordinates es p = Some cs \<longleftrightarrow> p < prod_list es \<and> cs = digits es p"
proof (cases "0 \<in> set es")
  case True
  then have "prod_list es = 0" by (simp add: prod_list_zero_iff)
  with True show ?thesis
    by (auto simp: row_major_coordinates_def res_simps dest: extent_fold)
next
  case False
  then show ?thesis
    using extent_fold_defined [of es 1] assms coordinates_loop_digits [OF False, of p "[]"]
    by (auto simp: row_major_coordinates_def)
qed

lemma flatten_fold:
  "in_extents es cs \<Longrightarrow> flat * prod_list es + radix_position es cs \<le> usize_max \<Longrightarrow>
     try_fold flatten_step flat (zip es cs) = Some (flat * prod_list es + radix_position es cs)"
proof (induction es cs arbitrary: flat rule: list_all2_induct)
  case (Cons e es c cs)
  let ?p = "(flat * e + c) * prod_list es + radix_position es cs"
  have p: "flat * prod_list (e # es) + radix_position (e # es) (c # cs) = ?p" by (simp add: algebra_simps)
  have "(flat * e + c) * 1 \<le> (flat * e + c) * prod_list es"
    using in_extents_pos [OF Cons(2)] by (intro mult_left_mono) auto
  also have "\<dots> \<le> usize_max" using Cons.prems unfolding p by simp
  finally have "flat * e + c \<le> usize_max" by simp
  then have "flatten_step flat (e, c) = Some (flat * e + c)" using Cons(1) by (simp add: flatten_step_def chk_usize_def)
  with Cons.IH [of "flat * e + c"] Cons.prems show ?case unfolding p by simp
qed simp

lemma flatten_step_Some [simp]: "flatten_step flat (e, c) = Some n \<longleftrightarrow> c < e \<and> n = flat * e + c \<and> n \<le> usize_max"
  by (auto simp: flatten_step_def res_simps)

lemma flatten_fold_Some:
  "length es = length cs \<Longrightarrow> try_fold flatten_step flat (zip es cs) = Some n \<Longrightarrow>
     in_extents es cs \<and> n = flat * prod_list es + radix_position es cs \<and> n \<le> max flat usize_max"
proof (induction es cs arbitrary: flat rule: list_induct2)
  case (Cons e es c cs)
  then have lt: "c < e" and le: "flat * e + c \<le> usize_max"
    and rest: "try_fold flatten_step (flat * e + c) (zip es cs) = Some n"
    using flatten_step_Some by (auto split: option.splits)
  from Cons.IH [OF rest] lt le show ?case by (auto simp: algebra_simps)
qed auto

lemma flatten_coordinates_iff:
  "flatten_coordinates es cs = Some n \<longleftrightarrow> in_extents es cs \<and> n = radix_position es cs \<and> n \<le> usize_max"
proof
  assume "flatten_coordinates es cs = Some n"
  then show "in_extents es cs \<and> n = radix_position es cs \<and> n \<le> usize_max"
    using flatten_fold_Some [of es cs 0 n] by (auto simp: flatten_coordinates_def split: if_splits)
next
  assume "in_extents es cs \<and> n = radix_position es cs \<and> n \<le> usize_max"
  then show "flatten_coordinates es cs = Some n"
    using flatten_fold [of es cs 0] by (auto simp: flatten_coordinates_def dest: list_all2_lengthD)
qed

lemma digits_position_iff:
  "0 \<notin> set es \<Longrightarrow> p < prod_list es \<Longrightarrow> cs = digits es p \<longleftrightarrow> in_extents es cs \<and> p = radix_position es cs"
  using digits_position [of es cs 0] position_digits [of es p] digits_in_extents [of es p] by auto

lemma positive_extents: "p < prod_list es \<Longrightarrow> (0 :: nat) \<notin> set es"
  using prod_list_zero_iff [of es] by auto

text \<open>C35: Row-major geometry, for \<open>u32\<close> extents whose product fits \<open>usize\<close>: coordinates exist for
  exactly the ordinals below the scalar count, and \<open>row_major_coordinates\<close> and
  \<open>flatten_coordinates\<close> are inverse to each other, on success and on failure.\<close>

theorem row_major_round_trip:
  assumes u32: "list_all (\<lambda>e. e \<le> u32_max) es" and fits: "prod_list es \<le> usize_max"
  shows "(row_major_coordinates es p = Some cs \<longleftrightarrow> flatten_coordinates es cs = Some p) \<and>
    ((\<exists>cs. row_major_coordinates es p = Some cs) \<longleftrightarrow> p < prod_list es)"
proof -
  have "p < prod_list es \<and> cs = digits es p \<longleftrightarrow> in_extents es cs \<and> p = radix_position es cs \<and> p \<le> usize_max"
    using digits_position_iff [OF positive_extents [of p es], of p cs] radix_position_less [of es cs] fits by auto
  then show ?thesis unfolding row_major_coordinates_iff [OF u32 fits] flatten_coordinates_iff by blast
qed

theorem row_major_round_trip_witness:
  "(row_major_coordinates [2, 3] 4 = Some [1, 1] \<longleftrightarrow> flatten_coordinates [2, 3] [1, 1] = Some 4) \<and>
    ((\<exists>cs. row_major_coordinates [2, 3] 4 = Some cs) \<longleftrightarrow> 4 < prod_list [2, 3 :: nat])"
  by (rule row_major_round_trip) (simp_all add: machine_int)

section \<open>Component names\<close>

lemma show_nat_prefix:
  assumes "show_nat a @ x # s = show_nat b @ y # t" and "\<not> is_digit x" and "\<not> is_digit y"
  shows "a = b \<and> x # s = y # t"
proof -
  have t: "takeWhile is_digit (show_nat c @ z # r) = show_nat c" if "\<not> is_digit z" for c z r
    using that show_nat_digits [of _ c] by (simp add: takeWhile_append)
  from arg_cong [OF assms(1), of "takeWhile is_digit"] have "show_nat a = show_nat b"
    unfolding t [OF assms(2)] t [OF assms(3)] .
  with assms(1) show ?thesis by (auto dest: show_nat_inj)
qed

lemma join_subscripts_inj: "length cs = length ds \<Longrightarrow> join_subscripts cs = join_subscripts ds \<Longrightarrow> cs = ds"
proof (induction cs arbitrary: ds rule: join_subscripts.induct)
  case (2 c)
  then obtain d where "ds = [d]" by (cases ds) auto
  with 2 show ?case by (auto dest: show_nat_inj)
next
  case (3 c c' cs)
  obtain d d' ds' where ds: "ds = d # d' # ds'" using 3(2) by (cases ds; cases "tl ds") auto
  have "c = d \<and> CHR '','' # join_subscripts (c' # cs) = CHR '','' # join_subscripts (d' # ds')"
    using 3(3) ds by (intro show_nat_prefix) (simp_all add: is_digit_def)
  moreover have "c' # cs = d' # ds'" if "join_subscripts (c' # cs) = join_subscripts (d' # ds')"
    by (rule 3(1)) (use 3(2) ds that in simp_all)
  ultimately show ?case using ds by simp
qed simp

lemma scalar_component_name_digits:
  assumes "list_all (\<lambda>e. e \<le> u32_max) es" and "prod_list es \<le> usize_max" and "p < prod_list es"
  shows "scalar_component_name name es p = scalar_component_display_name name (map Suc (digits es p))"
proof -
  have small: "c \<le> u32_max" if "c \<in> set (digits es p)" for c
    using digits_in_extents [OF positive_extents [OF assms(3)], of p] that assms(1)
    by (fastforce simp: list_all2_conv_all_nth in_set_conv_nth list_all_length)
  have "c + 1 \<le> usize_max" if "c \<in> set (digits es p)" for c
    using small [OF that] by (simp add: machine_int)
  then have "those (map (\<lambda>c. chk_usize (c + 1)) (digits es p)) = Some (map Suc (digits es p))"
    unfolding those_map_Some_iff by simp
  moreover have "row_major_coordinates es p = Some (digits es p)"
    using row_major_coordinates_iff [OF assms(1,2)] assms(3) by simp
  ultimately show ?thesis by (simp add: scalar_component_name_def)
qed

lemma scalar_component_display_name_inj:
  assumes "length cs = length ds"
    and "scalar_component_display_name name (map Suc cs) = scalar_component_display_name name (map Suc ds)"
  shows "cs = ds"
  using assms join_subscripts_inj [of "map Suc cs" "map Suc ds"]
  by (auto simp: scalar_component_display_name_def split: if_splits)

text \<open>Every scalar of an array has a component name and no two scalars share one: the names
  of the ordinals below the scalar count are all defined and pairwise distinct (\<open>u32\<close> extents
  whose product fits \<open>usize\<close>).\<close>

lemma scalar_component_names_distinct:
  assumes u32: "list_all (\<lambda>e. e \<le> u32_max) es" and fits: "prod_list es \<le> usize_max"
  shows "None \<notin> set (map (scalar_component_name name es) [0..<prod_list es]) \<and>
    distinct (map (scalar_component_name name es) [0..<prod_list es])"
proof
  show "None \<notin> set (map (scalar_component_name name es) [0..<prod_list es])"
    by (auto simp: scalar_component_name_digits [OF u32 fits] scalar_component_display_name_def split: if_splits)
  have "p = q" if "p < prod_list es" "q < prod_list es"
    "scalar_component_name name es p = scalar_component_name name es q" for p q
  proof -
    have "digits es p = digits es q"
      using that by (intro scalar_component_display_name_inj [of _ _ name])
        (simp_all add: scalar_component_name_digits [OF u32 fits])
    then show ?thesis using that position_digits [OF positive_extents [OF that(1)]] by (metis mod_less)
  qed
  then show "distinct (map (scalar_component_name name es) [0..<prod_list es])"
    by (auto simp: distinct_map inj_on_def)
qed

section \<open>Properties of affine forms and accesses\<close>

text \<open>The affine forms compute: a sum, negation or scaling that succeeds denotes the sum, negation
  or scaling of the denotations at every point, a unit form reads its binder, and a binder-free form
  is its constant; on forms of equal rank the sum fails exactly when the constant or a coefficient
  leaves \<open>i64\<close>.\<close>

lemma affine_arithmetic_exact:
  "(affine_add f g = Some h \<longrightarrow> affine_eval h xs = affine_eval f xs + affine_eval g xs) \<and>
   (affine_neg f = Some h \<longrightarrow> affine_eval h xs = - affine_eval f xs) \<and>
   (affine_scale f c = Some h \<longrightarrow> affine_eval h xs = affine_eval f xs * c) \<and>
   (i < length xs \<longrightarrow> (\<exists>u. unit_binder i (length xs) = Some u \<and> affine_eval u xs = xs ! i)) \<and>
   (is_binder_free f \<longrightarrow> affine_eval f xs = af_constant f) \<and>
   (length (coeffs f) = length (coeffs g) \<longrightarrow> (affine_add f g = None \<longleftrightarrow>
      \<not> in_i64 (af_constant f + af_constant g) \<or> \<not> list_all in_i64 (map2 (+) (coeffs f) (coeffs g))))"
proof (intro conjI impI)
  show "affine_eval h xs = affine_eval f xs + affine_eval g xs" if "affine_add f g = Some h"
    using that by (auto simp: affine_add_iff affine_eval_def dot_add)
  show "affine_eval h xs = - affine_eval f xs" if "affine_neg f = Some h"
    using that by (auto simp: affine_neg_iff affine_eval_def dot_neg)
  show "affine_eval h xs = affine_eval f xs * c" if "affine_scale f c = Some h"
    using that by (auto simp: affine_scale_iff affine_eval_def dot_map distrib_right)
  show "\<exists>u. unit_binder i (length xs) = Some u \<and> affine_eval u xs = xs ! i" if "i < length xs"
    using that dot_unit [of i "length xs" xs] by (simp add: unit_binder_def affine_eval_def)
  show "affine_eval f xs = af_constant f" if "is_binder_free f"
    using that by (simp add: is_binder_free_def affine_eval_def dot_zero)
  show "affine_add f g = None \<longleftrightarrow>
      \<not> in_i64 (af_constant f + af_constant g) \<or> \<not> list_all in_i64 (map2 (+) (coeffs f) (coeffs g))"
    if "length (coeffs f) = length (coeffs g)"
    unfolding not_Some_eq [symmetric] affine_add_iff using that by auto
qed

lemma binder_index_strides_Some:
  assumes "binder_index_strides access ms n = Some ss"
  shows "length (subscripts access) = length ms" "\<forall>s \<in> set (subscripts access). length (coeffs s) = n"
    "length ss = n"
    "\<And>b. b < n \<Longrightarrow> ss ! b = sum_list (map (\<lambda>(s, m). int m * coeffs s ! b) (zip (subscripts access) ms))"
proof -
  have t: "those (map (binder_stride (zip (subscripts access) ms)) [0..<n]) = Some ss"
    using assms by (auto simp: binder_index_strides_def split: if_splits)
  show "length ss = n" using t by (simp add: those_map_Some_iff)
  show "ss ! b = sum_list (map (\<lambda>(s, m). int m * coeffs s ! b) (zip (subscripts access) ms))" if "b < n" for b
    using t that by (intro binder_stride_value) (simp add: those_map_Some_iff)
qed (use assms in \<open>auto simp: binder_index_strides_def list_all_iff split: if_splits\<close>)

text \<open>The strides \<open>binder_index_strides\<close> returns are the steps of the flat element index: between
  any two points of the binders the flat index moves by the stride-weighted sum of the
  displacements, whatever the constants of the subscripts are.\<close>

lemma binder_strides_displacement:
  assumes "binder_index_strides access memory_strides n = Some ss"
    and "length xs = n" and "length ys = n"
  shows "flat_index (zip (subscripts access) memory_strides) xs - flat_index (zip (subscripts access) memory_strides) ys =
    (\<Sum>b < n. ss ! b * (xs ! b - ys ! b))"
proof -
  note s = binder_index_strides_Some [OF assms(1)]
  have "\<forall>(s, m) \<in> set (zip (subscripts access) memory_strides). length (coeffs s) = n"
    using s(2) by (auto dest: set_zip_leftD)
  from flat_difference [OF this assms(2,3)] s(4) show ?thesis by simp
qed

section \<open>Binders denote arithmetic progressions\<close>

definition binder_ok :: "StructuredIndexBinder \<Rightarrow> bool" where
  "binder_ok b \<longleftrightarrow> in_i64 (binder_lower b) \<and> in_i64 (binder_upper b) \<and> in_i64 (binder_step b)"

definition value_total :: "StructuredIndexBinder \<Rightarrow> nat" where
  "value_total b = (if binder_step b > 0 then positive_value_count b else negative_value_count b)"

definition binder_value :: "StructuredIndexBinder \<Rightarrow> nat \<Rightarrow> int" where
  "binder_value b k = binder_lower b + binder_step b * int k"

text \<open>The values of a Modelica range: the points of the progression between its bounds.\<close>

definition in_range :: "StructuredIndexBinder \<Rightarrow> int \<Rightarrow> bool" where
  "in_range b x \<longleftrightarrow> binder_step b dvd (x - binder_lower b) \<and>
     (if binder_step b > 0 then binder_lower b \<le> x \<and> x \<le> binder_upper b
      else binder_upper b \<le> x \<and> x \<le> binder_lower b)"

lemma value_count_iff:
  "value_count b = Inr n \<longleftrightarrow> binder_step b \<noteq> 0 \<and> n = value_total b \<and> n \<le> usize_max"
  by (auto simp: value_count_def value_total_def res_simps)

lemma count_bound: "0 < s \<Longrightarrow> 0 \<le> d \<Longrightarrow> k < nat d div nat s + 1 \<longleftrightarrow> s * int k \<le> d"
proof -
  assume s: "0 < s" and d: "0 \<le> d"
  have "k < nat d div nat s + 1 \<longleftrightarrow> k * nat s \<le> nat d" using s by (simp add: less_Suc_eq_le less_eq_div_iff_mult_less_eq)
  also have "\<dots> \<longleftrightarrow> int (k * nat s) \<le> int (nat d)" by (rule of_nat_le_iff [symmetric])
  also have "\<dots> \<longleftrightarrow> s * int k \<le> d" using s d by (simp add: mult.commute)
  finally show ?thesis .
qed

lemma value_total_less:
  assumes "binder_step b \<noteq> 0"
  shows "k < value_total b \<longleftrightarrow>
    (if binder_step b > 0 then binder_value b k \<le> binder_upper b else binder_upper b \<le> binder_value b k)"
proof (cases "binder_step b > 0")
  case True
  obtain t where t: "binder_step b * int k = t" "0 \<le> t" using True by simp
  show ?thesis
    using True count_bound [OF True, of "binder_upper b - binder_lower b" k] t(2)
    by (auto simp: value_total_def positive_value_count_def binder_value_def t(1))
next
  case False
  with assms have neg: "0 < - binder_step b" by simp
  then obtain t where t: "binder_step b * int k = t" "t \<le> 0" by (simp add: mult_le_0_iff)
  show ?thesis
    using False count_bound [OF neg, of "binder_lower b - binder_upper b" k] t(2)
    by (auto simp: value_total_def negative_value_count_def binder_value_def t(1))
qed

lemma binder_value_range:
  assumes "binder_step b \<noteq> 0"
  shows "in_range b x \<longleftrightarrow> (\<exists>k < value_total b. x = binder_value b k)"
proof
  assume r: "in_range b x"
  then obtain q where q: "x - binder_lower b = binder_step b * q" by (auto simp: in_range_def)
  have "\<not> q < 0"
  proof
    assume "q < 0"
    then have "if 0 < binder_step b then binder_step b * q < 0 else 0 < binder_step b * q"
      using assms by (simp add: mult_pos_neg mult_neg_neg)
    with r q show False by (auto simp: in_range_def split: if_splits)
  qed
  then have "0 \<le> q" by simp
  then have "x = binder_value b (nat q)" using q by (simp add: binder_value_def)
  moreover from this have "nat q < value_total b"
    unfolding value_total_less [OF assms] using r by (auto simp: in_range_def)
  ultimately show "\<exists>k < value_total b. x = binder_value b k" by blast
next
  assume "\<exists>k < value_total b. x = binder_value b k"
  then obtain k where k: "k < value_total b" "x = binder_value b k" by blast
  have "if binder_step b > 0 then 0 \<le> binder_step b * int k else binder_step b * int k \<le> 0"
    by (simp add: mult_le_0_iff)
  with k show "in_range b x" unfolding value_total_less [OF assms]
    by (auto simp: in_range_def binder_value_def split: if_splits)
qed

lemma in_range_i64: "binder_ok b \<Longrightarrow> in_range b x \<Longrightarrow> in_i64 x"
  by (auto simp: binder_ok_def in_range_def intro: in_i64_between split: if_splits)

lemma value_at_Inr:
  "binder_ok b \<Longrightarrow> value_count b = Inr n \<Longrightarrow> k < n \<Longrightarrow> value_at b k = Inr (binder_value b k)"
  using in_range_i64 [of b "binder_value b k"] binder_value_range [of b]
  by (auto simp: value_at_def binder_value_def value_count_iff chk_i64_def)

lemma binder_value_inj: "binder_step b \<noteq> 0 \<Longrightarrow> binder_value b k = binder_value b l \<longleftrightarrow> k = l"
  by (simp add: binder_value_def)

lemma position_of_value:
  assumes ok: "binder_ok b" "in_i64 x" and count: "value_count b = Inr n"
  shows "position_of b x = Inr (Some k) \<longleftrightarrow> k < n \<and> x = binder_value b k"
    and "\<exists>r. position_of b x = Inr r"
proof -
  let ?d = "x - binder_lower b" and ?s = "binder_step b"
  have s: "?s \<noteq> 0" and n: "n = value_total b" using count by (auto simp: value_count_iff)
  have range: "?d sdiv ?s \<le> int usize_max" if dvd: "?s dvd ?d"
  proof -
    obtain q where q: "?d = ?s * q" using dvd by (rule dvdE)
    have "\<bar>q\<bar> * 1 \<le> \<bar>q\<bar> * \<bar>?s\<bar>" using s by (intro mult_left_mono) auto
    also have "\<dots> = \<bar>?d\<bar>" by (simp add: q abs_mult mult.commute)
    also have "\<dots> \<le> int usize_max" using ok by (auto simp: binder_ok_def machine_int)
    finally show ?thesis using s q sdiv_dvd [OF dvd s] by simp
  qed
  have pos: "position_of b x = (if n = 0 \<or> \<not> ?s dvd ?d \<or> ?d div ?s < 0 then Inr None
      else Inr (if nat (?d div ?s) < n then Some (nat (?d div ?s)) else None))"
  proof (cases "?s dvd ?d")
    case True
    with range sdiv_dvd [OF True s] show ?thesis
      by (auto simp: position_of_def count Let_def smod_dvd_iff usize_of_int_def)
  qed (simp add: position_of_def count Let_def smod_dvd_iff)
  have "?s dvd ?d \<and> 0 \<le> ?d div ?s \<and> nat (?d div ?s) = k \<longleftrightarrow> x = binder_value b k"
    using s by (auto simp: binder_value_def)
  then show "position_of b x = Inr (Some k) \<longleftrightarrow> k < n \<and> x = binder_value b k" unfolding pos by auto
  show "\<exists>r. position_of b x = Inr r" unfolding pos by auto
qed

section \<open>Domains enumerate the product of their ranges\<close>

definition domain_point :: "StructuredIndexDomain \<Rightarrow> nat list \<Rightarrow> int list" where
  "domain_point d ks = map2 binder_value d ks"

definition binder_values :: "StructuredIndexBinder \<Rightarrow> int list" where
  "binder_values b = map (binder_value b) [0..<value_total b]"

fun suffix_products :: "nat list \<Rightarrow> nat list" where
  "suffix_products [] = []"
| "suffix_products (e # es) = prod_list es # suffix_products es"

lemma domain_point_simps [simp]:
  "domain_point [] ks = []" "domain_point (b # d) (k # ks) = binder_value b k # domain_point d ks"
  by (simp_all add: domain_point_def)

lemma length_suffix_products [simp]: "length (suffix_products es) = length es"
  by (induction es) auto

lemma suffix_products_nth: "i < length es \<Longrightarrow> suffix_products es ! i = prod_list (drop (Suc i) es)"
  by (induction es arbitrary: i) (auto simp: nth_Cons split: nat.splits)

lemma strides_defined:
  "0 \<notin> set es \<Longrightarrow> prod_list es \<le> usize_max \<Longrightarrow> row_major_strides_from es = Some (suffix_products es)"
proof (induction es rule: row_major_strides_from.induct)
  case (3 e e' es)
  have "1 * prod_list (e' # es) \<le> e * prod_list (e' # es)" using 3(2) by (intro mult_right_mono) auto
  also have "\<dots> \<le> usize_max" using 3(3) by (simp only: prod_list.Cons)
  finally have le: "prod_list (e' # es) \<le> usize_max" by simp
  then have "row_major_strides_from (e' # es) = Some (suffix_products (e' # es))" using 3(1,2) by simp
  with le show ?case by (simp add: chk_usize_def mult.commute)
qed auto

lemma validate_from_Inr:
  "validate_from z d = Inr n \<Longrightarrow> z \<le> usize_max \<Longrightarrow>
     n = z * prod_list (map value_total d) \<and> n \<le> usize_max \<and> (\<forall>b \<in> set d. value_count b = Inr (value_total b))"
  by (induction d arbitrary: z) (fastforce simp: res_simps value_count_iff mult.assoc)+

lemma collectR_Inr_iff: "collectR rs = Inr xs \<longleftrightarrow> rs = map Inr xs"
  by (induction rs arbitrary: xs) (auto simp: res_simps)

lemma collectR_map_Inr [simp]: "collectR (map Inr xs) = Inr xs"
  by (simp add: collectR_Inr_iff)

lemma validated:
  assumes "validate d = Inr n"
  shows "n = prod_list (map value_total d)" "n \<le> usize_max" "\<And>b. b \<in> set d \<Longrightarrow> value_count b = Inr (value_total b)"
    "index_extents d = Inr (map value_total d)"
proof -
  note v = validate_from_Inr [OF assms [unfolded validate_def]]
  show "n = prod_list (map value_total d)" "n \<le> usize_max" and c: "\<And>b. b \<in> set d \<Longrightarrow> value_count b = Inr (value_total b)"
    using v by (auto simp: machine_int)
  have "map value_count d = map Inr (map value_total d)" using c by simp
  then show "index_extents d = Inr (map value_total d)"
    unfolding index_extents_def assms by (simp only: bindR_simps collectR_map_Inr)
qed

lemma index_tuple_at_validated_digits:
  assumes ok: "list_all binder_ok d" and counts: "\<And>b. b \<in> set d \<Longrightarrow> value_count b = Inr (value_total b)"
    and pos: "0 \<notin> set (map value_total d)" and res: "reserve (length d)"
  shows "index_tuple_at_validated reserve d p (map value_total d) (suffix_products (map value_total d)) =
    Inr (domain_point d (digits (map value_total d) p))"
proof -
  let ?es = "map value_total d"
  have "value_at (d ! i) (p div suffix_products ?es ! i mod value_total (d ! i)) =
      Inr (binder_value (d ! i) (digits ?es p ! i))" if i: "i < length d" for i
  proof -
    have "value_total (d ! i) \<noteq> 0" using pos i by (metis length_map nth_map nth_mem)
    moreover have "digits ?es p ! i = p div suffix_products ?es ! i mod value_total (d ! i)"
      using i by (simp add: digits_nth suffix_products_nth)
    ultimately show ?thesis
      using value_at_Inr [of "d ! i" "value_total (d ! i)"] ok counts i by (simp add: list_all_length)
  qed
  then have "map (\<lambda>((b, extent), stride). value_at b (p div stride mod extent)) (zip (zip d ?es) (suffix_products ?es)) =
      map Inr (domain_point d (digits ?es p))"
    by (simp add: list_eq_iff_nth_eq domain_point_def)
  then show ?thesis by (simp add: index_tuple_at_validated_def res)
qed

lemma domain_position_Cons:
  "(\<exists>ks. in_extents (map value_total (b # d)) ks \<and> x # t = domain_point (b # d) ks \<and>
      p = acc + radix_position (map value_total (b # d)) ks) \<longleftrightarrow>
    (\<exists>k ks. k < value_total b \<and> x = binder_value b k \<and> in_extents (map value_total d) ks \<and> t = domain_point d ks \<and>
      p = acc + k * prod_list (map value_total d) + radix_position (map value_total d) ks)"
  (is "(\<exists>ks. ?L ks) \<longleftrightarrow> (\<exists>k ks. ?R k ks)")
proof -
  have "?L (k # ks) \<longleftrightarrow> ?R k ks" for k ks by auto
  moreover have "?L ks \<Longrightarrow> \<exists>k ks'. ks = k # ks'" for ks by (auto simp: list_all2_Cons1)
  ultimately show ?thesis by blast
qed

lemma ordinal_loop_value:
  assumes "list_all binder_ok d" and "\<And>b. b \<in> set d \<Longrightarrow> value_count b = Inr (value_total b)"
    and "length t = length d" and "list_all in_i64 t" and "0 \<notin> set (map value_total d)"
    and "acc + prod_list (map value_total d) \<le> usize_max"
  shows "(ordinal_loop acc (zip (zip d t) (suffix_products (map value_total d))) = Inr (Some p) \<longleftrightarrow>
      (\<exists>ks. in_extents (map value_total d) ks \<and> t = domain_point d ks \<and> p = acc + radix_position (map value_total d) ks)) \<and>
    (\<exists>r. ordinal_loop acc (zip (zip d t) (suffix_products (map value_total d))) = Inr r)"
  using assms
proof (induction d arbitrary: t acc)
  case Nil
  then show ?case by auto
next
  case (Cons b d)
  let ?P = "prod_list (map value_total d)" and ?n = "value_total b"
  obtain x t' where t: "t = x # t'" using Cons.prems(3) by (cases t) auto
  have v: "value_count b = Inr ?n" and ok: "binder_ok b" "in_i64 x" using Cons.prems t by auto
  note pos = position_of_value [OF ok v]
  note point = domain_position_Cons [of b d x t' p acc, folded t]
  show ?case
  proof (cases "\<exists>k. position_of b x = Inr (Some k)")
    case False
    then have "position_of b x = Inr None" using pos(2) by (metis not_None_eq)
    moreover have "\<not> (\<exists>k. k < ?n \<and> x = binder_value b k)" using False pos(1) by blast
    ultimately show ?thesis unfolding point by (auto simp: t)
  next
    case True
    then obtain k where k: "position_of b x = Inr (Some k)" by blast
    then have kv: "k < ?n" "x = binder_value b k" using pos(1) by auto
    have uniq: "k' = k" if "k' < ?n" "x = binder_value b k'" for k' using pos(1) [of k'] k that by simp
    have "(k + 1) * ?P \<le> ?n * ?P" using kv by (intro mult_right_mono) auto
    then have le: "acc + k * ?P + ?P \<le> usize_max" using Cons.prems(6) by simp
    then have loop: "ordinal_loop acc (zip (zip (b # d) t) (suffix_products (map value_total (b # d)))) =
        ordinal_loop (acc + k * ?P) (zip (zip d t') (suffix_products (map value_total d)))"
      using k by (simp add: t chk_usize_def)
    have ih: "(ordinal_loop (acc + k * ?P) (zip (zip d t') (suffix_products (map value_total d))) = Inr (Some p) \<longleftrightarrow>
        (\<exists>ks. in_extents (map value_total d) ks \<and> t' = domain_point d ks \<and>
          p = acc + k * ?P + radix_position (map value_total d) ks)) \<and>
      (\<exists>r. ordinal_loop (acc + k * ?P) (zip (zip d t') (suffix_products (map value_total d))) = Inr r)"
      by (rule Cons.IH) (use Cons.prems t le in auto)
    show ?thesis unfolding point loop using ih kv uniq by blast
  qed
qed

lemma digits_mod: "0 \<notin> set es \<Longrightarrow> digits es (p mod prod_list es) = digits es p"
  using digits_position [OF digits_in_extents [of es p], of 0] by (simp add: position_digits)

lemma upt_mult: "[0..<a * b] = concat (map (\<lambda>k. map (\<lambda>j. k * b + j) [0..<b]) [0..<a])"
proof (induction a)
  case (Suc a)
  have "[0..<Suc a * b] = [0..<a * b] @ [a * b..<a * b + b]"
    by (metis add.commute le0 mult_Suc upt_add_eq_append)
  also have "[a * b..<a * b + b] = map (\<lambda>j. a * b + j) [0..<b]" by (simp add: map_add_upt add.commute)
  finally show ?case by (simp add: Suc.IH)
qed simp

lemma digits_enumeration:
  "0 \<notin> set es \<Longrightarrow> map (digits es) [0..<prod_list es] = product_lists (map (\<lambda>e. [0..<e]) es)"
proof (induction es)
  case (Cons e es)
  let ?P = "prod_list es"
  have pos: "0 \<notin> set es" using Cons.prems by simp
  have digit: "digits (e # es) (k * ?P + j) = k # digits es j" if "k < e" "j < ?P" for k j
    using that digits_mod [OF pos, of "k * ?P + j"] digits_mod [OF pos, of j] by simp
  have "map (digits (e # es)) [0..<prod_list (e # es)] =
      concat (map (\<lambda>k. map (\<lambda>j. digits (e # es) (k * ?P + j)) [0..<?P]) [0..<e])"
    by (simp only: prod_list.Cons upt_mult map_concat map_map comp_def)
  also have "\<dots> = concat (map (\<lambda>k. map (Cons k) (map (digits es) [0..<?P])) [0..<e])"
    unfolding map_map by (intro arg_cong [where f = concat] map_cong refl) (use digit in auto)
  also have "\<dots> = product_lists (map (\<lambda>e. [0..<e]) (e # es))" unfolding Cons.IH [OF pos] by simp
  finally show ?case .
qed simp

lemma domain_point_product:
  "map (domain_point d) (product_lists (map (\<lambda>e. [0..<e]) (map value_total d))) = product_lists (map binder_values d)"
proof (induction d)
  case (Cons b d)
  have "map (domain_point (b # d)) (product_lists (map (\<lambda>e. [0..<e]) (map value_total (b # d)))) =
      concat (map (\<lambda>k. map (Cons (binder_value b k)) (map (domain_point d) (product_lists (map (\<lambda>e. [0..<e]) (map value_total d)))))
        [0..<value_total b])"
    by (simp add: map_concat comp_def)
  then show ?case unfolding Cons.IH by (simp add: binder_values_def [of b] comp_def)
qed simp

lemma set_binder_values: "binder_step b \<noteq> 0 \<Longrightarrow> set (binder_values b) = {x. in_range b x}"
  by (auto simp: binder_values_def binder_value_range)

lemma set_domain_product:
  "\<forall>b \<in> set d. binder_step b \<noteq> 0 \<Longrightarrow> set (product_lists (map binder_values d)) = {t. list_all2 in_range d t}"
  by (auto simp: product_lists_set list_all2_map1 list_all2_conv_all_nth set_binder_values)

lemma distinct_domain_product:
  "\<forall>b \<in> set d. binder_step b \<noteq> 0 \<Longrightarrow> distinct (product_lists (map binder_values d))"
  by (intro distinct_product_lists) (auto simp: binder_values_def distinct_map inj_on_def binder_value_inj)

lemma domain_strides:
  assumes "validate d = Inr n" and "0 < n"
  shows "0 \<notin> set (map value_total d)"
    "ordinal_strides_for_extents (map value_total d) = Inr (suffix_products (map value_total d))"
proof -
  note v = validated [OF assms(1)]
  show pos: "0 \<notin> set (map value_total d)" using assms(2) v(1) by (metis positive_extents)
  show "ordinal_strides_for_extents (map value_total d) = Inr (suffix_products (map value_total d))"
    using strides_defined [OF pos] v(1,2) by (simp add: ordinal_strides_for_extents_def)
qed

lemma index_tuple_iter_product:
  assumes ok: "list_all binder_ok d" and count: "validate d = Inr n" "0 < n" and res: "reserve (length d)"
  shows "index_tuple_iter reserve d = Inr (map Some (product_lists (map binder_values d)))"
proof -
  note v = validated [OF count(1)] and s = domain_strides [OF count]
  have "index_tuple_iter reserve d = Inr (map (\<lambda>p. Some (domain_point d (digits (map value_total d) p))) [0..<n])"
    using index_tuple_at_validated_digits [of d reserve, OF ok v(3) s(1) res] by (simp add: index_tuple_iter_def count(1) v(4) s(2))
  also have "map (\<lambda>p. Some (domain_point d (digits (map value_total d) p))) [0..<n] =
      map Some (map (domain_point d) (map (digits (map value_total d)) [0..<n]))" by simp
  also have "\<dots> = map Some (product_lists (map binder_values d))"
    unfolding v(1) digits_enumeration [OF s(1)] domain_point_product ..
  finally show ?thesis .
qed

text \<open>C23: \<open>index_tuples\<close> enumerates a domain: for \<open>i64\<close> binders, a positive scalar count and memory for
  the tuples, it returns the tuples of the binders' ranges in row-major order, the last
  binder fastest, each once and as many as the scalar count, and a tuple is listed exactly when each
  coordinate lies on its binder's progression between the bounds.\<close>

theorem domain_enumeration:
  assumes ok: "list_all binder_ok d" and count: "scalar_count d = Inr n" "0 < n"
    and res: "reserve_tuples n" "reserve (length d)"
  shows "index_tuples reserve_tuples reserve d = Some (Inr (product_lists (map binder_values d))) \<and>
    distinct (product_lists (map binder_values d)) \<and> length (product_lists (map binder_values d)) = n \<and>
    set (product_lists (map binder_values d)) = {t. list_all2 in_range d t}"
proof (intro conjI)
  note c = count(1) [unfolded scalar_count_def]
  have "those (map Some (product_lists (map binder_values d))) = Some (product_lists (map binder_values d))"
    by (simp add: those_map_Some_iff)
  then show "index_tuples reserve_tuples reserve d = Some (Inr (product_lists (map binder_values d)))"
    by (simp add: index_tuples_def c res(1) index_tuple_iter_product [of d n reserve, OF ok c count(2) res(2)])
  have step: "\<forall>b \<in> set d. binder_step b \<noteq> 0" using validated(3) [OF c] by (auto simp: value_count_iff)
  show "distinct (product_lists (map binder_values d))" by (rule distinct_domain_product [OF step])
  show "length (product_lists (map binder_values d)) = n"
    by (simp add: length_product_lists validated(1) [OF c] binder_values_def foldr_map comp_def prod_list.eq_foldr)
  show "set (product_lists (map binder_values d)) = {t. list_all2 in_range d t}" by (rule set_domain_product [OF step])
qed

theorem domain_enumeration_witness:
  "let d = [\<lparr>binder_id = 0, binder_name = ''i'', binder_lower = 1, binder_upper = 2, binder_step = 1\<rparr>,
            \<lparr>binder_id = 1, binder_name = ''j'', binder_lower = 5, binder_upper = 0, binder_step = -2\<rparr>]
   in index_tuples (\<lambda>_. True) (\<lambda>_. True) d = Some (Inr (product_lists (map binder_values d))) \<and>
    distinct (product_lists (map binder_values d)) \<and> length (product_lists (map binder_values d)) = 6 \<and>
    set (product_lists (map binder_values d)) = {t. list_all2 in_range d t}"
  unfolding Let_def by (rule domain_enumeration)
    (simp_all add: binder_ok_def scalar_count_def validate_def value_count_def positive_value_count_def
      negative_value_count_def chk_usize_def machine_int)

text \<open>C24: \<open>index_tuple_at\<close> and \<open>ordinal_of\<close> are inverse to each other on a non-empty domain of \<open>i64\<close>
  binders: an ordinal has a tuple exactly when it is below the scalar count, the tuple of an ordinal
  has that ordinal and the ordinal of a tuple has that tuple, and looking up a tuple never
  fails with an error.\<close>

theorem domain_round_trip:
  assumes ok: "list_all binder_ok d" and count: "scalar_count d = Inr n" "0 < n"
    and res: "reserve (length d)" and tuple: "list_all in_i64 t"
  shows "(index_tuple_at reserve d p = Inr (Some t) \<longleftrightarrow> ordinal_of d t = Inr (Some p)) \<and>
    ((\<exists>u. index_tuple_at reserve d p = Inr (Some u)) \<longleftrightarrow> p < n) \<and>
    (\<exists>r. ordinal_of d t = Inr r)"
proof -
  note c = count(1) [unfolded scalar_count_def]
  note v = validated [OF c] and s = domain_strides [OF c count(2)]
  let ?es = "map value_total d"
  have at: "index_tuple_at reserve d p = Inr (if p < n then Some (domain_point d (digits ?es p)) else None)"
    using index_tuple_at_validated_digits [of d reserve, OF ok v(3) s(1) res] by (simp add: index_tuple_at_def c v(4) s(2))
  have of: "ordinal_of d t = (if length t \<noteq> length d then Inr None else ordinal_loop 0 (zip (zip d t) (suffix_products ?es)))"
    by (simp add: ordinal_of_def c ordinal_strides_def v(4) s(2))
  have loop: "length t = length d \<Longrightarrow>
      (ordinal_loop 0 (zip (zip d t) (suffix_products ?es)) = Inr (Some p) \<longleftrightarrow>
        (\<exists>ks. in_extents ?es ks \<and> t = domain_point d ks \<and> p = 0 + radix_position ?es ks)) \<and>
      (\<exists>r. ordinal_loop 0 (zip (zip d t) (suffix_products ?es)) = Inr r)"
    by (rule ordinal_loop_value) (use ok v s tuple in auto)
  have "(\<exists>ks. in_extents ?es ks \<and> t = domain_point d ks \<and> p = radix_position ?es ks) \<longleftrightarrow>
      p < n \<and> t = domain_point d (digits ?es p)"
    using digits_position_iff [OF s(1), of p] radix_position_less [of ?es] v(1) by metis
  moreover have "length (domain_point d (digits ?es p)) = length d" by (simp add: domain_point_def)
  ultimately show ?thesis using loop unfolding at of by auto
qed

theorem domain_round_trip_witness:
  "let d = [\<lparr>binder_id = 0, binder_name = ''i'', binder_lower = 1, binder_upper = 2, binder_step = 1\<rparr>,
            \<lparr>binder_id = 1, binder_name = ''j'', binder_lower = 5, binder_upper = 0, binder_step = -2\<rparr>]
   in (index_tuple_at (\<lambda>_. True) d 4 = Inr (Some [2, 3]) \<longleftrightarrow> ordinal_of d [2, 3] = Inr (Some 4)) \<and>
    ((\<exists>u. index_tuple_at (\<lambda>_. True) d 4 = Inr (Some u)) \<longleftrightarrow> 4 < (6 :: nat)) \<and> (\<exists>r. ordinal_of d [2, 3] = Inr r)"
  unfolding Let_def by (rule domain_round_trip)
    (simp_all add: binder_ok_def scalar_count_def validate_def value_count_def positive_value_count_def
      negative_value_count_def chk_usize_def machine_int)

text \<open>The scalar count of an empty domain does not show that the domain can be enumerated: for
  three binders, the first empty and the others with \<open>2\<^sup>4\<^sup>0\<close> values each, the count
  is zero and there are no corners, but the iterator and the list of tuples are refused with an
  overflow, since the strides are computed before the empty extent is looked at.\<close>

lemma empty_domain_refused:
  "let d = [\<lparr>binder_id = 0, binder_name = ''i'', binder_lower = 1, binder_upper = 0, binder_step = 1\<rparr>,
            \<lparr>binder_id = 1, binder_name = ''j'', binder_lower = 1, binder_upper = 2 ^ 40, binder_step = 1\<rparr>,
            \<lparr>binder_id = 2, binder_name = ''k'', binder_lower = 1, binder_upper = 2 ^ 40, binder_step = 1\<rparr>]
   in scalar_count d = Inr 0 \<and> corner_ordinals d = Inr [] \<and>
     index_tuple_iter (\<lambda>_. True) d = Inl ScalarCountOverflow \<and>
     index_tuples (\<lambda>_. True) (\<lambda>_. True) d = Some (Inl ScalarCountOverflow)"
  by (simp add: scalar_count_def corner_ordinals_def index_tuple_iter_def index_tuples_def index_extents_def
      validate_def value_count_def positive_value_count_def ordinal_strides_for_extents_def chk_usize_def machine_int)

end
