(* ===== verification/Index_Sets.thy ===== *)
theory Index_Sets
  imports Structured_Domain
begin

text \<open>
  Exact sets of array indices (\<open>structured_domain/index_sets.rs\<close> of \<open>rumoca-core\<close>): arithmetic
  progressions, boxes, finite unions of boxes, and the images and point solutions of affine
  subscripts over a region of binder values. The unchecked \<open>i64\<close> operations of the source are
  written with \<open>wrap_i64\<close>; its \<open>i128\<close> operations have \<open>i64\<close> operands and stay
  in range. Every progression these functions build has a positive step, so no division is by zero.
\<close>

section \<open>Progressions\<close>

record Progression =
  pg_first :: int
  pg_step :: int
  pg_count :: int

definition SPLIT_LIMIT :: nat where "SPLIT_LIMIT = 4096"

definition RESIDUE_LIMIT :: int where "RESIDUE_LIMIT = 64"

definition EMPTY :: Progression where
  "EMPTY = \<lparr>pg_first = 0, pg_step = 1, pg_count = 0\<rparr>"

definition single :: "int \<Rightarrow> Progression" where
  "single v = \<lparr>pg_first = v, pg_step = 1, pg_count = 1\<rparr>"

text \<open>The first and the last element of an ascending and of a descending range.\<close>

definition range_ends :: "int \<Rightarrow> int \<Rightarrow> int \<Rightarrow> int \<Rightarrow> (int \<times> int) option" where
  "range_ends lower step magnitude upper =
     (if step > 0 then do {
        span \<leftarrow> chk_i64 (upper - lower);
        run \<leftarrow> chk_i64 (span sdiv magnitude * magnitude);
        l \<leftarrow> chk_i64 (lower + run);
        Some (lower, l)
      } else do {
        span \<leftarrow> chk_i64 (lower - upper);
        run \<leftarrow> chk_i64 (span sdiv magnitude * magnitude);
        f \<leftarrow> chk_i64 (lower - run);
        Some (f, lower)
      })"

definition progression_range :: "int \<Rightarrow> int \<Rightarrow> int \<Rightarrow> Progression option" where
  "progression_range lower step upper =
     (if step = 0 then None
      else do {
        magnitude \<leftarrow> chk_i64 \<bar>step\<bar>;
        (if step > 0 \<and> upper < lower \<or> step < 0 \<and> upper > lower then Some EMPTY
         else do {
           (f, l) \<leftarrow> range_ends lower step magnitude upper;
           Some \<lparr>pg_first = f, pg_step = magnitude, pg_count = wrap_i64 (wrap_i64 (l - f) sdiv magnitude + 1)\<rparr>
         })
      })"

definition pg_is_empty :: "Progression \<Rightarrow> bool" where
  "pg_is_empty p \<longleftrightarrow> pg_count p = 0"

definition pg_len :: "Progression \<Rightarrow> int" where
  "pg_len p = pg_count p"

definition first_of :: "Progression \<Rightarrow> int option" where
  "first_of p = (if pg_is_empty p then None else Some (pg_first p))"

definition last_of :: "Progression \<Rightarrow> int option" where
  "last_of p =
     (if pg_is_empty p then None
      else Some (wrap_i64 (pg_first p + wrap_i64 (wrap_i64 (pg_count p - 1) * pg_step p))))"

definition affine_image :: "Progression \<Rightarrow> int \<Rightarrow> int \<Rightarrow> Progression option" where
  "affine_image p a b =
     (if pg_is_empty p then Some EMPTY
      else if a = 0 \<or> pg_count p = 1 then do {
        m \<leftarrow> chk_i64 (a * pg_first p);
        v \<leftarrow> chk_i64 (m + b);
        Some (single v)
      } else do {
        m \<leftarrow> chk_i64 (a * pg_first p);
        f \<leftarrow> chk_i64 (m + b);
        l0 \<leftarrow> last_of p;
        n \<leftarrow> chk_i64 (a * l0);
        l \<leftarrow> chk_i64 (n + b);
        s \<leftarrow> chk_i64 (a * pg_step p);
        step \<leftarrow> chk_i64 \<bar>s\<bar>;
        Some \<lparr>pg_first = min f l, pg_step = step, pg_count = pg_count p\<rparr>
      })"

function extended_gcd :: "int \<Rightarrow> int \<Rightarrow> int \<times> int \<times> int" where
  "extended_gcd a b =
     (if b = 0 then (a, 1, 0)
      else (let (g, x, y) = extended_gcd b (a smod b) in
        (g, y, wrap_i64 (x - wrap_i64 (wrap_i64 (a sdiv b) * y)))))"
  by pat_completeness auto

lemma abs_smod_less: "b \<noteq> 0 \<Longrightarrow> \<bar>a smod b\<bar> < \<bar>b :: int\<bar>"
  using smod_int_range [of b a] by auto

termination extended_gcd
  by (relation "measure (\<lambda>(a, b). nat \<bar>b\<bar>)") (auto simp: abs_smod_less)

declare extended_gcd.simps [simp del]

text \<open>The part of the intersection after the overlap of the two ranges is known.\<close>

definition intersect_within :: "Progression \<Rightarrow> Progression \<Rightarrow> int \<Rightarrow> int \<Rightarrow> Progression option" where
  "intersect_within p q lower upper =
     (let (g, x, _) = extended_gcd (pg_step p) (pg_step q) in do {
        difference \<leftarrow> chk_i64 (pg_first q - pg_first p);
        (if difference smod g \<noteq> 0 then Some EMPTY
         else do {
           step \<leftarrow> chk_i64 (pg_step p sdiv g * pg_step q);
           (let multiplier = (difference sdiv g * x) smod (pg_step q sdiv g);
                anchor = pg_first p + multiplier * pg_step p;
                offset = (anchor - lower) mod step
            in do {
              f \<leftarrow> chk_i64 (lower + offset);
              (if f > upper then Some EMPTY
               else Some \<lparr>pg_first = f, pg_step = step, pg_count = wrap_i64 (wrap_i64 (upper - f) sdiv step + 1)\<rparr>)
            })
         })
      })"

definition pg_intersect :: "Progression \<Rightarrow> Progression \<Rightarrow> Progression option" where
  "pg_intersect p q =
     (case (last_of p, last_of q) of
        (Some lhs_last, Some rhs_last) \<Rightarrow>
          (let lower = max (pg_first p) (pg_first q); upper = min lhs_last rhs_last in
           if lower > upper then Some EMPTY else intersect_within p q lower upper)
      | _ \<Rightarrow> Some EMPTY)"

definition residue_parts :: "Progression \<Rightarrow> Progression \<Rightarrow> int \<Rightarrow> int \<Rightarrow> int \<Rightarrow> Progression list" where
  "residue_parts p common common_first common_last ratio =
     map (\<lambda>residue. let f = wrap_i64 (common_first + wrap_i64 (residue * pg_step p)) in
         \<lparr>pg_first = f, pg_step = pg_step common,
          pg_count = wrap_i64 (wrap_i64 (common_last - f) sdiv pg_step common + 1)\<rparr>)
       (takeWhile (\<lambda>residue. \<not> wrap_i64 (common_first + wrap_i64 (residue * pg_step p)) > common_last) [1..ratio - 1])"

definition pg_difference :: "Progression \<Rightarrow> Progression \<Rightarrow> Progression list option" where
  "pg_difference p q = do {
     common \<leftarrow> pg_intersect p q;
     (case (first_of common, last_of common) of
        (Some common_first, Some common_last) \<Rightarrow>
          (let before = wrap_i64 (common_first - pg_first p) sdiv pg_step p;
               parts = (if before > 0 then [p\<lparr>pg_count := before\<rparr>] else []);
               after_first = wrap_i64 (common_last + pg_step p)
           in do {
             l \<leftarrow> last_of p;
             (let after = (case chk_i64 (l - after_first) of
                      None \<Rightarrow> 0 | Some span \<Rightarrow> if span < 0 then 0 else wrap_i64 (span sdiv pg_step p + 1));
                  parts = parts @ (if after > 0 then [p\<lparr>pg_first := after_first, pg_count := after\<rparr>] else []);
                  ratio = pg_step common sdiv pg_step p
              in if ratio > RESIDUE_LIMIT then None
                 else Some (parts @ residue_parts p common common_first common_last ratio))
           })
      | _ \<Rightarrow> Some [p])
   }"

section \<open>Boxes\<close>

type_synonym IndexBox = "Progression list"

definition box_whole :: "int list \<Rightarrow> IndexBox option" where
  "box_whole exts = those (map (\<lambda>extent. progression_range 1 1 extent) exts)"

definition box_is_empty :: "IndexBox \<Rightarrow> bool" where
  "box_is_empty b = list_ex pg_is_empty b"

definition box_within :: "IndexBox \<Rightarrow> int list \<Rightarrow> bool" where
  "box_within b exts \<longleftrightarrow> length b = length exts \<and>
     list_all (\<lambda>(axis, extent). pg_is_empty axis \<or>
       (pg_first axis \<ge> 1 \<and> (case last_of axis of Some l \<Rightarrow> l \<le> extent | None \<Rightarrow> False))) (zip b exts)"

definition box_intersect :: "IndexBox \<Rightarrow> IndexBox \<Rightarrow> IndexBox option" where
  "box_intersect b c =
     (if length b \<noteq> length c then None else those (map (\<lambda>(lhs, rhs). pg_intersect lhs rhs) (zip b c)))"

text \<open>One pass over the axes: the parts of each axis outside \<open>other\<close>, then the axis is cut down.\<close>

fun difference_loop :: "nat list \<Rightarrow> IndexBox \<Rightarrow> IndexBox \<Rightarrow> IndexBox list \<Rightarrow> IndexBox list option" where
  "difference_loop [] remaining other parts = Some parts"
| "difference_loop (axis # axes) remaining other parts = do {
     outside \<leftarrow> pg_difference (remaining ! axis) (other ! axis);
     common \<leftarrow> pg_intersect (remaining ! axis) (other ! axis);
     (let parts = parts @ map (\<lambda>part. remaining[axis := part]) outside;
          remaining = remaining[axis := common]
      in if pg_is_empty common then Some parts else difference_loop axes remaining other parts)
   }"

definition box_difference :: "IndexBox \<Rightarrow> IndexBox \<Rightarrow> IndexBox list option" where
  "box_difference b c =
     (if length b \<noteq> length c then None else difference_loop [0..<length b] b c [])"

section \<open>Unions\<close>

type_synonym IndexUnion = "IndexBox list"

definition union_of :: "IndexBox list \<Rightarrow> IndexUnion" where
  "union_of boxes = filter (\<lambda>part. \<not> box_is_empty part) boxes"

fun subtract_loop :: "IndexBox list \<Rightarrow> IndexBox \<Rightarrow> IndexBox list \<Rightarrow> IndexBox list option" where
  "subtract_loop [] part result = Some result"
| "subtract_loop (piece # pending) part result = do {
     rest \<leftarrow> box_difference piece part;
     (let result = result @ filter (\<lambda>r. \<not> box_is_empty r) rest in
      if length result > SPLIT_LIMIT then None else subtract_loop pending part result)
   }"

definition subtract_all :: "IndexBox list \<Rightarrow> IndexBox \<Rightarrow> IndexBox list option" where
  "subtract_all pending part = subtract_loop pending part []"

fun contains_loop :: "IndexBox list \<Rightarrow> IndexBox list \<Rightarrow> bool" where
  "contains_loop pending [] = list_all box_is_empty pending"
| "contains_loop pending (part # parts) =
     (case subtract_all pending part of
        None \<Rightarrow> False
      | Some next_pending \<Rightarrow> if next_pending = [] then True else contains_loop next_pending parts)"

definition contains_box :: "IndexUnion \<Rightarrow> IndexBox \<Rightarrow> bool" where
  "contains_box u query = contains_loop [query] u"

fun union_extend :: "IndexUnion \<Rightarrow> IndexUnion \<Rightarrow> IndexUnion" where
  "union_extend u [] = u"
| "union_extend u (part # parts) = union_extend (if contains_box u part then u else u @ [part]) parts"

definition union_within :: "IndexUnion \<Rightarrow> int list \<Rightarrow> bool" where
  "union_within u exts = list_all (\<lambda>part. box_within part exts) u"

definition union_difference :: "IndexUnion \<Rightarrow> IndexUnion \<Rightarrow> IndexUnion option" where
  "union_difference u v = try_fold subtract_all u v"

definition contains_set :: "IndexUnion \<Rightarrow> IndexUnion \<Rightarrow> bool" where
  "contains_set u query = list_all (contains_box u) query"

definition union_is_empty :: "IndexUnion \<Rightarrow> bool" where
  "union_is_empty u \<longleftrightarrow> u = []"

definition union_meet :: "IndexUnion \<Rightarrow> IndexUnion \<Rightarrow> IndexUnion option" where
  "union_meet u v = do {
     parts \<leftarrow> those (concat (map (\<lambda>lhs. map (\<lambda>rhs. box_intersect lhs rhs) v) u));
     Some (union_of parts)
   }"

definition union_translated :: "IndexUnion \<Rightarrow> nat \<Rightarrow> int \<Rightarrow> IndexUnion option" where
  "union_translated u coordinate delta = do {
     moved \<leftarrow> those (map (\<lambda>part. do {
         axis \<leftarrow> idx part coordinate;
         axis' \<leftarrow> affine_image axis 1 delta;
         Some (part[coordinate := axis'])
       }) u);
     Some (union_of moved)
   }"

section \<open>Affine queries\<close>

record IndexAxis =
  form :: AffineForm
  offsets :: "Progression list"

datatype SetAnswer = Exact IndexUnion | Superset IndexUnion

definition answer_exact :: "SetAnswer \<Rightarrow> IndexUnion option" where
  "answer_exact a = (case a of Exact s \<Rightarrow> Some s | Superset _ \<Rightarrow> None)"

definition answer_bound :: "SetAnswer \<Rightarrow> IndexUnion" where
  "answer_bound a = (case a of Exact s \<Rightarrow> s | Superset s \<Rightarrow> s)"

definition OFFSET_LIMIT :: nat where "OFFSET_LIMIT = 64"

definition pg_contains :: "Progression \<Rightarrow> int \<Rightarrow> bool" where
  "pg_contains p v =
     (case pg_intersect p (single v) of None \<Rightarrow> False | Some hit \<Rightarrow> \<not> pg_is_empty hit)"

definition axis_binders :: "IndexAxis \<Rightarrow> nat list" where
  "axis_binders axis = filter (\<lambda>b. coeffs (form axis) ! b \<noteq> 0) [0..<length (coeffs (form axis))]"

fun repeats_loop :: "bool list \<Rightarrow> nat list \<Rightarrow> bool" where
  "repeats_loop seen [] = False"
| "repeats_loop seen (binder # binders) =
     (let seen = (if length seen \<le> binder then seen @ replicate (binder + 1 - length seen) False else seen) in
      if seen ! binder then True else repeats_loop (seen[binder := True]) binders)"

definition binder_repeats :: "IndexAxis list \<Rightarrow> bool" where
  "binder_repeats axes = repeats_loop [] (concat (map axis_binders axes))"

function offset_loop :: "int \<Rightarrow> int \<Rightarrow> int \<Rightarrow> int list \<Rightarrow> int list option" where
  "offset_loop v l step values =
     (if v \<le> l then
        (let values = values @ [v] in
         if length values > OFFSET_LIMIT then None
         else do { v' \<leftarrow> chk_i64 (v + step); offset_loop v' l step values })
      else Some values)"
  by pat_completeness auto

termination offset_loop
  by (relation "measure (\<lambda>(v, l, step, values). Suc OFFSET_LIMIT - length values)") auto

declare offset_loop.simps [simp del]

definition offsets_of :: "Progression list \<Rightarrow> int list option" where
  "offsets_of parts =
     try_fold (\<lambda>values part. case (first_of part, last_of part) of
         (Some f, Some l) \<Rightarrow> offset_loop f l (pg_step part) values
       | _ \<Rightarrow> Some values) [] parts"

definition shifted_images :: "Progression \<Rightarrow> Progression \<Rightarrow> Progression list option" where
  "shifted_images base offs =
     (case (first_of base, last_of base, first_of offs, last_of offs) of
        (Some base_first, Some base_last, Some f, Some l) \<Rightarrow>
          if f = l then do { moved \<leftarrow> affine_image base 1 f; Some [moved] }
          else (let count = wrap_i64 (wrap_i64 (l - f) sdiv pg_step offs + 1) in do {
            tiles \<leftarrow> (if base_first = base_last then Some True
                      else do { gap \<leftarrow> chk_i64 (pg_step offs * count); Some (gap = pg_step base) });
            (if tiles then do {
               lower \<leftarrow> chk_i64 (base_first + f);
               upper \<leftarrow> chk_i64 (base_last + l);
               tiled \<leftarrow> progression_range lower (pg_step offs) upper;
               Some [tiled]
             } else do {
               values \<leftarrow> offsets_of [offs];
               those (map (\<lambda>offset. affine_image base 1 offset) values)
             })
          })
      | _ \<Rightarrow> Some [EMPTY])"

definition box_product :: "Progression list list \<Rightarrow> IndexBox list" where
  "box_product per_axis =
     foldl (\<lambda>boxes parts. concat (map (\<lambda>prefix. map (\<lambda>part. prefix @ [part]) parts) boxes)) [[]] per_axis"

text \<open>One further term of a tiled sum; the inner \<open>None\<close> says that the terms do not tile.\<close>

fun tile_loop :: "Progression \<Rightarrow> Progression list \<Rightarrow> Progression option option" where
  "tile_loop acc [] = Some (Some acc)"
| "tile_loop acc (term # terms) = do {
     shift \<leftarrow> first_of term;
     (if pg_len term = 1 then do { s \<leftarrow> affine_image acc 1 shift; tile_loop s terms }
      else if pg_len acc = 1 then do {
        f \<leftarrow> first_of acc;
        s \<leftarrow> affine_image term 1 f;
        tile_loop s terms
      } else do {
        gap \<leftarrow> chk_i64 (pg_step acc * pg_len acc);
        (if pg_step term = gap then do {
           f \<leftarrow> first_of acc;
           lower \<leftarrow> chk_i64 (f + shift);
           sl \<leftarrow> last_of acc;
           tlast \<leftarrow> last_of term;
           upper \<leftarrow> chk_i64 (sl + tlast);
           s \<leftarrow> progression_range lower (pg_step acc) upper;
           tile_loop s terms
         } else Some None)
      })
   }"

text \<open>It is called with at least two binders; without any, indexing the first term would panic.\<close>

definition tiled_sum :: "IndexAxis \<Rightarrow> nat list \<Rightarrow> IndexBox \<Rightarrow> Progression option option" where
  "tiled_sum axis binders region = do {
     terms \<leftarrow> those (map (\<lambda>binder. do {
         values \<leftarrow> idx region binder;
         affine_image values (coeffs (form axis) ! binder) 0
       }) binders);
     (if list_ex pg_is_empty terms then Some (Some EMPTY)
      else (case sort_key (\<lambda>term. if pg_len term = 1 then i64_max else pg_step term) terms of
          [] \<Rightarrow> None
        | acc # rest \<Rightarrow> tile_loop acc rest))
   }"

text \<open>The interval hull of a sum of terms; the inner \<open>None\<close> is the early return on an empty binder.\<close>

fun hull_loop :: "IndexAxis \<Rightarrow> IndexBox \<Rightarrow> int \<Rightarrow> int \<Rightarrow> nat list \<Rightarrow> (int \<times> int) option option" where
  "hull_loop axis region lower upper [] = Some (Some (lower, upper))"
| "hull_loop axis region lower upper (binder # binders) = do {
     values \<leftarrow> idx region binder;
     (case (first_of values, last_of values) of
        (Some f, Some l) \<Rightarrow> do {
          a \<leftarrow> chk_i64 (coeffs (form axis) ! binder * f);
          b \<leftarrow> chk_i64 (coeffs (form axis) ! binder * l);
          lower' \<leftarrow> chk_i64 (lower + min a b);
          upper' \<leftarrow> chk_i64 (upper + max a b);
          hull_loop axis region lower' upper' binders
        }
      | _ \<Rightarrow> Some None)
   }"

text \<open>The shifted copies of a progression by every offset of an axis.\<close>

definition all_shifts :: "Progression \<Rightarrow> Progression list \<Rightarrow> Progression list option" where
  "all_shifts base offs = map_option concat (those (map (shifted_images base) offs))"

definition hull_parts :: "int \<Rightarrow> int \<Rightarrow> Progression list \<Rightarrow> Progression list option" where
  "hull_parts lower upper offs =
     try_fold (\<lambda>parts part. case (first_of part, last_of part) of
         (Some f, Some l) \<Rightarrow> do {
           a \<leftarrow> chk_i64 (lower + f);
           b \<leftarrow> chk_i64 (upper + l);
           r \<leftarrow> progression_range a 1 b;
           Some (parts @ [r])
         }
       | _ \<Rightarrow> Some parts) [] offs"

definition axis_image :: "IndexAxis \<Rightarrow> IndexBox \<Rightarrow> (Progression list \<times> bool) option" where
  "axis_image axis region =
     (let constant = af_constant (form axis) in
      case axis_binders axis of
        [] \<Rightarrow> do {
          parts \<leftarrow> those (map (\<lambda>offs. affine_image offs 1 constant) (offsets axis));
          Some (parts, True)
        }
      | [binder] \<Rightarrow> do {
          values \<leftarrow> idx region binder;
          base \<leftarrow> affine_image values (coeffs (form axis) ! binder) constant;
          parts \<leftarrow> all_shifts base (offsets axis);
          Some (parts, True)
        }
      | binders \<Rightarrow> do {
          tiled \<leftarrow> tiled_sum axis binders region;
          (case tiled of
             Some base \<Rightarrow> do {
               base \<leftarrow> affine_image base 1 constant;
               parts \<leftarrow> all_shifts base (offsets axis);
               Some (parts, True)
             }
           | None \<Rightarrow> do {
               hull \<leftarrow> hull_loop axis region constant constant binders;
               (case hull of
                  None \<Rightarrow> Some ([EMPTY], True)
                | Some (lower, upper) \<Rightarrow> do {
                    parts \<leftarrow> hull_parts lower upper (offsets axis);
                    Some (parts, False)
                  })
             })
        })"

definition index_image :: "IndexAxis list \<Rightarrow> IndexBox \<Rightarrow> SetAnswer option" where
  "index_image axes region = do {
     images \<leftarrow> those (map (\<lambda>axis. axis_image axis region) axes);
     (let exact = (\<not> binder_repeats axes \<and> list_all snd images);
          s = union_of (box_product (map fst images))
      in Some (if exact then Exact s else Superset s))
   }"

text \<open>The remainder of \<open>i64::MIN\<close> by \<open>-1\<close> panics; a panic is \<open>None\<close> here.\<close>

definition quotients :: "int \<Rightarrow> int \<Rightarrow> int list \<Rightarrow> int list option" where
  "quotients target scale offs =
     (let numerators = List.map_filter (\<lambda>offset. chk_i64 (target - offset)) offs in
      if scale = -1 \<and> i64_min \<in> set numerators then None
      else Some (map (\<lambda>n. n sdiv scale) (filter (\<lambda>n. n smod scale = 0) numerators)))"

fun solve_loop :: "(IndexAxis \<times> int) list \<Rightarrow> Progression list list \<Rightarrow> bool \<Rightarrow> SetAnswer option" where
  "solve_loop [] allowed exact =
     Some (let s = union_of (box_product allowed) in if exact then Exact s else Superset s)"
| "solve_loop ((axis, v) # rest) allowed exact =
     (case axis_binders axis of
        [] \<Rightarrow> do {
          target \<leftarrow> chk_i64 (v - af_constant (form axis));
          (if \<not> list_ex (\<lambda>offs. pg_contains offs target) (offsets axis) then Some (Exact [])
           else solve_loop rest allowed exact)
        }
      | [binder] \<Rightarrow> do {
          target \<leftarrow> chk_i64 (v - af_constant (form axis));
          offs \<leftarrow> offsets_of (offsets axis);
          values \<leftarrow> quotients target (coeffs (form axis) ! binder) offs;
          (let reached = map single (filter (\<lambda>x.
                 list_ex (\<lambda>values. pg_contains values x) (allowed ! binder)) values)
           in if reached = [] then Some (Exact []) else solve_loop rest (allowed[binder := reached]) exact)
        }
      | _ \<Rightarrow> solve_loop rest allowed False)"

definition solve_point :: "IndexAxis list \<Rightarrow> IndexBox \<Rightarrow> int list \<Rightarrow> SetAnswer option" where
  "solve_point axes region index_values =
     (if length axes \<noteq> length index_values \<or>
         list_ex (\<lambda>axis. length (coeffs (form axis)) > length region) axes
      then None
      else solve_loop (zip axes index_values) (map (\<lambda>values. [values]) region) True)"

end
