(* ===== verification/Progression_Sets.thy ===== *)
theory Progression_Sets
  imports Index_Sets
begin

text \<open>
  The sets that progressions, boxes and unions denote, and that their operations compute on these sets.
  \<open>elements\<close>, \<open>points\<close> and \<open>upoints\<close> are the documented denotation,
  \<open>first + k * step\<close> for \<open>0 \<le> k < count\<close>, and its products and unions. The proofs
  work with \<open>covered\<close>, \<open>box_covered\<close> and \<open>union_covered\<close>, the run from the first to
  the last element that the accessors report in wrapping arithmetic. \<open>pg_ok\<close> is the invariant of
  the type; under it the two agree unless the count has wrapped to a negative number.
  \<open>indexable\<close> bounds the elements by \<open>2\<^sup>6\<^sup>2\<close>, so that the differences of two elements
  stay in \<open>i64\<close> and no count wraps.
\<close>

section \<open>Wrap-around\<close>

lemma wrap_i64_mod: "wrap_i64 x mod 18446744073709551616 = x mod 18446744073709551616"
  unfolding wrap_i64_def by (simp add: mod_diff_left_eq)

lemma wrap_i64_eqI: "x mod 18446744073709551616 = y mod 18446744073709551616 \<Longrightarrow> wrap_i64 x = wrap_i64 y"
  unfolding wrap_i64_def using mod_add_cong [of x "18446744073709551616" y] by simp

lemma wrap_i64_simps [simp]:
  "wrap_i64 (x + wrap_i64 y) = wrap_i64 (x + y)" "wrap_i64 (wrap_i64 x + y) = wrap_i64 (x + y)"
  "wrap_i64 (x - wrap_i64 y) = wrap_i64 (x - y)" "wrap_i64 (wrap_i64 x - y) = wrap_i64 (x - y)"
  "wrap_i64 (wrap_i64 x * y) = wrap_i64 (x * y)"
  by (rule wrap_i64_eqI, (rule mod_add_cong mod_diff_cong mod_mult_cong; simp add: wrap_i64_mod))+

lemma wrap_i64_Suc_eq_0:
  assumes "0 \<le> n" and "n < 18446744073709551615"
  shows "wrap_i64 (n + 1) \<noteq> 0"
proof
  assume "wrap_i64 (n + 1) = 0"
  then have "(n + 1) mod 18446744073709551616 = 0" using wrap_i64_mod [of "n + 1"] by simp
  with assms show False by (simp add: mod_pos_pos_trivial)
qed

section \<open>Denotation\<close>

definition elements :: "Progression \<Rightarrow> int set" where
  "elements p = {pg_first p + k * pg_step p | k. 0 \<le> k \<and> k < pg_count p}"

definition covered :: "Progression \<Rightarrow> int set" where
  "covered p = (case last_of p of
      None \<Rightarrow> {}
    | Some l \<Rightarrow> {x. pg_first p \<le> x \<and> x \<le> l \<and> pg_step p dvd (x - pg_first p)})"

definition pg_ok :: "Progression \<Rightarrow> bool" where
  "pg_ok p \<longleftrightarrow> 0 < pg_step p \<and> in_i64 (pg_step p) \<and> in_i64 (pg_first p) \<and> in_i64 (pg_count p) \<and>
     (\<forall>l. last_of p = Some l \<longrightarrow> pg_first p \<le> l \<and> pg_step p dvd (l - pg_first p) \<and>
        pg_count p = wrap_i64 ((l - pg_first p) div pg_step p + 1))"

definition indexable :: "Progression \<Rightarrow> bool" where
  "indexable p \<longleftrightarrow> pg_ok p \<and>
     (\<forall>l. last_of p = Some l \<longrightarrow> - 4611686018427387903 \<le> pg_first p \<and> l < 4611686018427387904)"

lemma covered_empty: "pg_is_empty p \<Longrightarrow> covered p = {}"
  by (simp add: covered_def last_of_def)

lemma EMPTY_simps [simp]: "pg_ok EMPTY" "indexable EMPTY" "covered EMPTY = {}" "pg_is_empty EMPTY"
  by (simp_all add: pg_ok_def indexable_def covered_def last_of_def pg_is_empty_def EMPTY_def machine_int)

lemma pg_okD:
  assumes "pg_ok p"
  shows "0 < pg_step p" "in_i64 (pg_step p)" "in_i64 (pg_first p)" "in_i64 (pg_count p)"
    "last_of p = Some l \<Longrightarrow> pg_first p \<le> l" "last_of p = Some l \<Longrightarrow> pg_step p dvd (l - pg_first p)"
    "last_of p = Some l \<Longrightarrow> pg_count p = wrap_i64 ((l - pg_first p) div pg_step p + 1)"
  using assms by (auto simp: pg_ok_def)

lemma last_of_in_i64: "last_of p = Some l \<Longrightarrow> in_i64 l"
  by (auto simp: last_of_def split: if_splits)

lemma last_of_None: "last_of p = None \<longleftrightarrow> pg_is_empty p"
  by (simp add: last_of_def)

lemma first_of_None: "first_of p = None \<longleftrightarrow> pg_is_empty p"
  by (simp add: first_of_def)

lemma first_of_Some: "first_of p = Some f \<longleftrightarrow> \<not> pg_is_empty p \<and> f = pg_first p"
  by (auto simp: first_of_def)

lemma pg_is_empty_covered: "pg_ok p \<Longrightarrow> pg_is_empty p \<longleftrightarrow> covered p = {}"
  by (cases "last_of p") (auto simp: covered_def last_of_None [symmetric] dest: pg_okD(5,6))

lemma run_div_bound: "0 < s \<Longrightarrow> f \<le> l \<Longrightarrow> (l - f) div s \<le> (l - f :: int)"
  using int_div_less_self [of "l - f" s] by (cases "s = 1"; cases "l = f") auto

text \<open>The constructor of a non-empty progression from its ends.\<close>

lemma progression_make:
  assumes s: "0 < s" "in_i64 s" and f: "in_i64 f" and l: "in_i64 l" and le: "f \<le> l" and dvd: "s dvd (l - f)"
    and small: "(l - f) div s < 18446744073709551615"
    and p: "p = \<lparr>pg_first = f, pg_step = s, pg_count = wrap_i64 ((l - f) div s + 1)\<rparr>"
  shows "last_of p = Some l" "first_of p = Some f" "pg_ok p" "\<not> pg_is_empty p"
    "covered p = {x. f \<le> x \<and> x \<le> l \<and> s dvd (x - f)}"
proof -
  have "0 \<le> (l - f) div s" using s le by (simp add: pos_imp_zdiv_nonneg_iff)
  then show ne: "\<not> pg_is_empty p" using wrap_i64_Suc_eq_0 small by (simp add: p pg_is_empty_def)
  have "f + (l - f) div s * s = l" using dvd by simp
  then show l: "last_of p = Some l" using ne l by (simp add: last_of_def p)
  show "first_of p = Some f" using ne by (simp add: first_of_def p)
  show "pg_ok p" using s f le dvd l by (simp add: pg_ok_def) (simp add: p)
  show "covered p = {x. f \<le> x \<and> x \<le> l \<and> s dvd (x - f)}" unfolding covered_def l by (simp add: p)
qed

lemma single_simps [simp]:
  assumes "in_i64 v"
  shows "pg_ok (single v)" "covered (single v) = {v}" "last_of (single v) = Some v" "\<not> pg_is_empty (single v)"
proof -
  have p: "single v = \<lparr>pg_first = v, pg_step = 1, pg_count = wrap_i64 ((v - v) div 1 + 1)\<rparr>"
    by (simp add: single_def machine_int)
  have "in_i64 1" by (simp add: machine_int)
  note m = progression_make [OF _ this assms assms _ _ _ p]
  show "pg_ok (single v)" "covered (single v) = {v}" "last_of (single v) = Some v" "\<not> pg_is_empty (single v)"
    using m by auto
qed

section \<open>Ranges and affine images\<close>

text \<open>The elements of \<open>lower:step:upper\<close>.\<close>

definition range_set :: "int \<Rightarrow> int \<Rightarrow> int \<Rightarrow> int set" where
  "range_set lower step upper = {x. step dvd (x - lower) \<and>
     (if step > 0 then lower \<le> x \<and> x \<le> upper else upper \<le> x \<and> x \<le> lower)}"

lemma floor_multiple_le:
  assumes "0 < m" and "m dvd d"
  shows "d \<le> (span div m) * m \<longleftrightarrow> d \<le> (span :: int)"
proof -
  obtain k where d: "d = m * k" using assms(2) by (rule dvdE)
  have "m * (span div m) \<le> span" using assms(1) by (simp add: minus_mod_eq_mult_div [symmetric])
  moreover have "k \<le> span div m" if "m * k \<le> span" using zdiv_mono1 [OF that assms(1)] assms(1) by simp
  moreover have "m * k \<le> span" if "k \<le> span div m"
    using order_trans [OF mult_left_mono [OF that] calculation(1)] assms(1) by simp
  ultimately show ?thesis using assms(1) by (auto simp: d mult.commute)
qed

lemma dvd_shift: "(m :: int) dvd (a - b) \<Longrightarrow> m dvd (x - a) \<longleftrightarrow> m dvd (x - b)"
  using dvd_add_left_iff [of m "a - b" "x - a"] by (simp add: algebra_simps)

lemma sdiv_nonneg: "0 \<le> a \<Longrightarrow> 0 < b \<Longrightarrow> a sdiv b = a div (b :: int)"
  by (auto simp: signed_divide_int_def sgn_if)

lemma range_ends_run:
  assumes "0 < m" and "0 \<le> span" and "if step > 0 then upper - lower = span else lower - upper = span"
    and "range_ends lower step m upper = Some (f, l)"
  shows "in_i64 span"
    "if step > 0 then f = lower \<and> l = lower + span div m * m \<and> in_i64 l
     else l = lower \<and> f = lower - span div m * m \<and> in_i64 f"
  using assms sdiv_nonneg [OF assms(2,1)] by (auto simp: range_ends_def res_simps split: if_splits)

lemma progression_range_set:
  assumes i64: "in_i64 lower" "in_i64 step" "in_i64 upper" and r: "progression_range lower step upper = Some p"
  shows "pg_ok p \<and> covered p = range_set lower step upper \<and> (\<not> pg_is_empty p \<longrightarrow> pg_step p = \<bar>step\<bar>) \<and>
    (p = EMPTY \<and> range_set lower step upper = {} \<or>
     pg_count p = wrap_i64 (\<bar>upper - lower\<bar> div \<bar>step\<bar> + 1) \<and> \<bar>upper - lower\<bar> div \<bar>step\<bar> \<le> i64_max)"
proof (cases "step > 0 \<and> upper < lower \<or> step < 0 \<and> upper > lower")
  case True
  then have "p = EMPTY" using r by (auto simp: progression_range_def res_simps)
  moreover have "range_set lower step upper = {}" using True by (auto simp: range_set_def)
  ultimately show ?thesis by simp
next
  case False
  let ?m = "\<bar>step\<bar>"
  have m: "0 < ?m" "in_i64 ?m" using r by (auto simp: progression_range_def res_simps split: if_splits)
  obtain f l where ends: "range_ends lower step ?m upper = Some (f, l)"
    and p: "p = \<lparr>pg_first = f, pg_step = ?m, pg_count = wrap_i64 (wrap_i64 (l - f) sdiv ?m + 1)\<rparr>"
    using r False by (auto simp: progression_range_def res_simps split: if_splits)
  define span where "span = \<bar>upper - lower\<bar>"
  have "if step > 0 then upper - lower = span else lower - upper = span" "0 \<le> span"
    using False m(1) by (auto simp: span_def)
  note e = range_ends_run [OF m(1) this(2,1) ends] and span = range_ends_run(1) [OF m(1) this(2,1) ends] this(2)
  have fl: "in_i64 f" "in_i64 l" "f = (if step > 0 then lower else lower - span div ?m * ?m)" "l = f + span div ?m * ?m"
    using e(2) i64 by (auto split: if_splits)
  have "0 \<le> span div ?m" using m(1) span(2) by (simp add: pos_imp_zdiv_nonneg_iff)
  then have run: "0 \<le> span div ?m * ?m" "span div ?m * ?m \<le> span"
    using m(1) by (simp, simp add: minus_mod_eq_div_mult [symmetric])
  have small: "(l - f) div ?m < 18446744073709551615"
    using run_div_bound [OF m(1), of f l] run fl(4) span by (simp add: machine_int)
  have "in_i64 (l - f)" using run span fl(4) by (simp add: machine_int)
  then have count: "wrap_i64 (l - f) sdiv ?m = (l - f) div ?m" using run fl(4) m(1) by (simp add: sdiv_nonneg)
  note mk = progression_make [OF m fl(1,2) _ _ small p [unfolded count]]
  have dvd: "?m dvd (l - f)" "f \<le> l" using fl(4) run by simp_all
  have "covered p = range_set lower step upper"
    unfolding mk(5) [OF dvd(2,1)] range_set_def
  proof (intro Collect_cong)
    fix x
    show "(f \<le> x \<and> x \<le> l \<and> ?m dvd x - f) \<longleftrightarrow>
        (step dvd x - lower \<and> (if step > 0 then lower \<le> x \<and> x \<le> upper else upper \<le> x \<and> x \<le> lower))"
    proof (cases "step > 0")
      case True
      then show ?thesis using fl floor_multiple_le [OF m(1), of "x - lower" span] False
        by (auto simp: span_def abs_if)
    next
      case neg: False
      have "?m dvd x - f \<longleftrightarrow> ?m dvd lower - x"
        using fl(3) neg dvd_shift [of ?m lower f x] by (simp add: dvd_diff_commute)
      then show ?thesis using fl floor_multiple_le [OF m(1), of "lower - x" span] False neg m(1)
        by (auto simp: span_def abs_if dvd_diff_commute split: if_splits)
    qed
  qed
  moreover have "(l - f) div ?m = span div ?m" using fl(4) m(1) by simp
  moreover have "span div ?m \<le> i64_max"
    using int_div_less_self [of span ?m] span m(1) by (cases "?m = 1"; cases "span = 0") (auto simp: machine_int)
  ultimately show ?thesis using mk(3) [OF dvd(2,1)] p count by (simp add: span_def)
qed

lemma run_length:
  assumes "pg_ok p" and "last_of p = Some l"
  shows "0 \<le> (l - pg_first p) div pg_step p" "(l - pg_first p) div pg_step p < 18446744073709551615"
proof -
  note ok = pg_okD [OF assms(1)]
  show ge: "0 \<le> (l - pg_first p) div pg_step p"
    using ok(1) ok(5) [OF assms(2)] by (simp add: pos_imp_zdiv_nonneg_iff)
  have "(l - pg_first p) div pg_step p \<le> l - pg_first p" using run_div_bound ok(1) ok(5) [OF assms(2)] by blast
  moreover have "l - pg_first p \<le> 18446744073709551615" using ok(3) last_of_in_i64 [OF assms(2)] by (simp add: machine_int)
  moreover have "(l - pg_first p) div pg_step p \<noteq> 18446744073709551615"
  proof
    assume "(l - pg_first p) div pg_step p = 18446744073709551615"
    then have "pg_count p = 0" using ok(7) [OF assms(2)] by (simp add: wrap_i64_def)
    then show False using assms(2) by (simp add: last_of_def pg_is_empty_def)
  qed
  ultimately show "(l - pg_first p) div pg_step p < 18446744073709551615" by linarith
qed

lemma count_one:
  assumes "pg_ok p" and "last_of p = Some l"
  shows "pg_count p = 1 \<longleftrightarrow> l = pg_first p"
proof -
  let ?n = "(l - pg_first p) div pg_step p"
  note ok = pg_okD [OF assms(1)] and n = run_length [OF assms]
  have "pg_count p = 1 \<longleftrightarrow> ?n = 0"
  proof
    assume "pg_count p = 1"
    then have "(?n + 1) mod 18446744073709551616 = 1" using ok(7) [OF assms(2)] wrap_i64_mod [of "?n + 1"] by simp
    with n show "?n = 0" by (simp add: mod_pos_pos_trivial)
  qed (simp add: ok(7) [OF assms(2)] wrap_i64_def)
  also have "\<dots> \<longleftrightarrow> l = pg_first p"
    using ok(1) ok(6) [OF assms(2)] by (auto simp: dvd_div_eq_0_iff)
  finally show ?thesis .
qed

lemma affine_run_image:
  fixes a b f l s :: int
  assumes "a \<noteq> 0" and "0 < s" and "s dvd (l - f)" and le: "f \<le> l"
  shows "{x. min (a * f + b) (a * l + b) \<le> x \<and> x \<le> max (a * f + b) (a * l + b) \<and> \<bar>a * s\<bar> dvd (x - min (a * f + b) (a * l + b))} =
    (\<lambda>v. a * v + b) ` {x. f \<le> x \<and> x \<le> l \<and> s dvd (x - f)}" (is "?L = ?R")
proof (intro set_eqI iffI)
  fix x assume x: "x \<in> ?L"
  have "\<bar>a * s\<bar> dvd (x - (a * f + b))"
  proof (cases "a * f + b \<le> a * l + b")
    case False
    have "a * s dvd (a * l + b - (a * f + b))" using mult_dvd_mono [OF dvd_refl [of a] assms(3)] by (simp add: right_diff_distrib)
    then have "a * s dvd (x - (a * l + b)) \<longleftrightarrow> a * s dvd (x - (a * f + b))" by (rule dvd_shift)
    with x False show ?thesis by (simp add: min_def)
  qed (use x in \<open>simp add: min_def\<close>)
  then have "a * s dvd (x - (a * f + b))" by simp
  then obtain k where "x - (a * f + b) = a * s * k" by (rule dvdE)
  then have k: "x = a * (f + s * k) + b" by (simp add: algebra_simps)
  have "f \<le> f + s * k \<and> f + s * k \<le> l"
  proof (cases "a > 0")
    case True
    then have "a * f + b \<le> a * l + b" using le by simp
    with x k True show ?thesis by (simp add: min_def max_def)
  next
    case False
    then have neg: "a < 0" "a * l + b \<le> a * f + b" using le assms(1) by (auto simp: mult_le_cancel_left_neg)
    then have "a * l \<le> a * (f + s * k)" "a * (f + s * k) \<le> a * f" using x k by (auto simp: min_def max_def split: if_splits)
    with neg show ?thesis by (simp only: mult_le_cancel_left_neg)
  qed
  then show "x \<in> ?R" using k by (intro image_eqI [of _ _ "f + s * k"]) auto
next
  fix x assume "x \<in> ?R"
  then obtain v where v: "x = a * v + b" "f \<le> v" "v \<le> l" "s dvd (v - f)" by auto
  have "min (a * f + b) (a * l + b) \<le> x \<and> x \<le> max (a * f + b) (a * l + b)"
    using v assms(1) by (cases "a > 0") (auto simp: min_def max_def mult_le_cancel_left)
  moreover have "a * s dvd (x - (a * f + b))" "a * s dvd (x - (a * l + b))"
  proof -
    show 1: "a * s dvd (x - (a * f + b))"
      using mult_dvd_mono [OF dvd_refl [of a] v(4)] by (simp add: v(1) right_diff_distrib)
    have "a * s dvd (a * l + b - (a * f + b))" using mult_dvd_mono [OF dvd_refl [of a] assms(3)] by (simp add: right_diff_distrib)
    from dvd_shift [OF this, of x] 1 show "a * s dvd (x - (a * l + b))" by simp
  qed
  ultimately show "x \<in> ?L" by (simp add: min_def)
qed

lemma affine_image_set:
  assumes ok: "pg_ok p" and r: "affine_image p a b = Some q"
  shows "pg_ok q \<and> covered q = (\<lambda>v. a * v + b) ` covered p \<and> (pg_is_empty q \<longleftrightarrow> pg_is_empty p)"
proof (cases "last_of p")
  case None
  then have "pg_is_empty p" by (simp add: last_of_None)
  moreover from this have "q = EMPTY" using r by (simp add: affine_image_def)
  ultimately show ?thesis by (simp add: covered_empty)
next
  case (Some l)
  let ?f = "pg_first p" and ?s = "pg_step p"
  note o = pg_okD [OF ok] and n = run_length [OF ok Some]
  have ne: "\<not> pg_is_empty p" using Some by (simp flip: last_of_None)
  have el: "covered p = {x. ?f \<le> x \<and> x \<le> l \<and> ?s dvd (x - ?f)}" by (simp add: covered_def Some)
  show ?thesis
  proof (cases "a = 0 \<or> pg_count p = 1")
    case True
    then have "q = single (a * ?f + b)" "in_i64 (a * ?f + b)" using r ne by (auto simp: affine_image_def res_simps)
    moreover have "(\<lambda>v. a * v + b) ` covered p = {a * ?f + b}"
    proof (cases "a = 0")
      case True
      have "?f \<in> covered p" using o(5) [OF Some] by (simp add: el)
      with True show ?thesis by auto
    next
      case False
      then have "l = ?f" using True count_one [OF ok Some] by simp
      then show ?thesis by (auto simp: el)
    qed
    ultimately show ?thesis using ne by simp
  next
    case False
    let ?F = "a * ?f + b" and ?L = "a * l + b" and ?t = "\<bar>a * ?s\<bar>"
    have i64: "in_i64 ?F" "in_i64 ?L" "in_i64 ?t" and q: "q = \<lparr>pg_first = min ?F ?L, pg_step = ?t, pg_count = pg_count p\<rparr>"
      using r ne False Some by (auto simp: affine_image_def res_simps)
    have span: "max ?F ?L - min ?F ?L = \<bar>a\<bar> * (l - ?f)"
      using o(5) [OF Some] by (auto simp: min_def max_def abs_if algebra_simps mult_le_cancel_left)
    have t: "?t = \<bar>a\<bar> * ?s" using o(1) by (simp add: abs_mult)
    have div: "(max ?F ?L - min ?F ?L) div ?t = (l - ?f) div ?s"
      unfolding span t using False by simp
    have "0 < ?t" using False o(1) by simp
    moreover have "?t dvd (max ?F ?L - min ?F ?L)" unfolding span t using o(6) [OF Some] by simp
    moreover have "in_i64 (min ?F ?L)" "in_i64 (max ?F ?L)" using i64 by (simp_all add: min_def max_def)
    moreover have "min ?F ?L \<le> max ?F ?L" by simp
    moreover have "q = \<lparr>pg_first = min ?F ?L, pg_step = ?t, pg_count = wrap_i64 ((max ?F ?L - min ?F ?L) div ?t + 1)\<rparr>"
      using o(7) [OF Some] by (simp add: q div)
    ultimately show ?thesis
      using progression_make [of ?t "min ?F ?L" "max ?F ?L" q] i64(3) n(2) div ne
        affine_run_image [of a ?s l ?f b] False o(1) o(5,6) [OF Some] by (simp add: el)
  qed
qed

section \<open>Intersection by the Chinese remainder theorem\<close>

lemma smod_nonneg: "0 \<le> a \<Longrightarrow> 0 < b \<Longrightarrow> a smod b = a mod (b :: int)"
  by (auto simp: signed_modulo_int_def sgn_if)

lemma extended_gcd_spec:
  assumes "0 \<le> a" and "0 \<le> b" and "in_i64 a" and "in_i64 b" and "extended_gcd a b = (g, x, y)"
  shows "g = gcd a b \<and> a * x + b * y = g \<and> \<bar>x\<bar> \<le> max 1 b \<and> \<bar>y\<bar> \<le> max 1 a"
  using assms
proof (induction a b arbitrary: g x y rule: extended_gcd.induct)
  case (1 a b)
  show ?case
  proof (cases "b = 0")
    case True
    then show ?thesis using 1(2,6) by (simp add: extended_gcd.simps)
  next
    case False
    then have b: "0 < b" using 1(3) by simp
    note e = smod_nonneg [OF 1(2) b] sdiv_nonneg [OF 1(2) b]
    obtain g' x' y' where r: "extended_gcd b (a mod b) = (g', x', y')" by (metis prod_cases3)
    then have xy: "g = g'" "x = y'" "y = wrap_i64 (x' - a div b * y')"
      using 1(6) False e by (auto simp: extended_gcd.simps [of a b])
    have m: "0 \<le> a mod b" "a mod b < b" using b by auto
    then have "in_i64 (a mod b)" using 1(5) by (simp add: machine_int)
    then have ih: "g' = gcd b (a mod b)" "b * x' + a mod b * y' = g'" "\<bar>x'\<bar> \<le> max 1 (a mod b)" "\<bar>y'\<bar> \<le> max 1 b"
      using 1(1) [OF False] r m b 1(5) e by auto
    have q: "0 \<le> a div b" "a = a div b * b + a mod b" using 1(2) b by (simp_all add: pos_imp_zdiv_nonneg_iff)
    have bound: "\<bar>x' - a div b * y'\<bar> \<le> max 1 a"
    proof (cases "a mod b = 0")
      case True
      then show ?thesis using r b by (simp add: extended_gcd.simps)
    next
      case False
      have "\<bar>x' - a div b * y'\<bar> \<le> \<bar>x'\<bar> + a div b * \<bar>y'\<bar>" using q(1) by (metis abs_triangle_ineq4 abs_mult abs_of_nonneg)
      also have "\<dots> \<le> a mod b + a div b * b"
        using ih(3,4) False m b q(1) by (intro add_mono mult_left_mono) auto
      finally show ?thesis using q(2) by simp
    qed
    have "in_i64 (x' - a div b * y')" using bound 1(2,4) by (simp add: machine_int abs_le_iff max_def split: if_splits)
    then have y: "y = x' - a div b * y'" by (simp add: xy(3))
    have "a * x + b * y = b * x' + (a - a div b * b) * y'" by (simp add: xy(2) y algebra_simps)
    also have "a - a div b * b = a mod b" by (rule minus_div_mult_eq_mod)
    finally show ?thesis using ih xy(1,2) y bound b by (simp add: gcd_red_int [of a b])
  qed
qed

lemma crt_solvable:
  fixes s t :: int
  assumes "s dvd (z - u)" and "t dvd (z - w)"
  shows "gcd s t dvd (w - u)"
proof -
  have "gcd s t dvd ((z - u) - (z - w))"
    by (rule dvd_diff [OF dvd_trans [OF gcd_dvd1 assms(1)] dvd_trans [OF gcd_dvd2 assms(2)]])
  then show ?thesis by simp
qed

lemma crt_anchor:
  fixes s t :: int
  assumes g: "g = gcd s t" "s * x + t * y = g" and pos: "0 < s" "0 < t" and d: "g dvd (w - u)"
    and anchor: "anchor = u + ((w - u) div g * x) smod (t div g) * s"
  shows "s dvd (z - u) \<and> t dvd (z - w) \<longleftrightarrow> s div g * t dvd (z - anchor)"
proof -
  have g0: "0 < g" using pos g(1) by simp
  obtain s' t' d' where s: "s = g * s'" and t: "t = g * t'" and wu: "w - u = g * d'"
    using d g(1) by (metis dvdE gcd_dvd1 gcd_dvd2)
  have e: "s' * x + t' * y = 1" using g(2) g0 by (simp add: s t mult.assoc flip: distrib_left)
  obtain k where m: "(d' * x) smod t' = d' * x - k * t'" using minus_sdiv_mult_eq_smod [of "d' * x" t'] by metis
  have a: "anchor = u + (d' * x - k * t') * s" using anchor g0 by (simp add: wu t m)
  have "anchor - w = (d' * x - k * t') * s - g * d'" using a wu by simp
  also have "\<dots> = g * d' * (s' * x) - k * t' * s - g * d'" by (simp add: s algebra_simps)
  also have "s' * x = 1 - t' * y" using e by simp
  also have "g * d' * (1 - t' * y) - k * t' * s - g * d' = t * (- d' * y - k * s')" by (simp add: s t algebra_simps)
  finally have "t dvd (anchor - w)" by simp
  moreover have "s dvd (anchor - u)" by (simp add: a)
  ultimately have "s dvd (z - u) \<and> t dvd (z - w) \<longleftrightarrow> s dvd (z - anchor) \<and> t dvd (z - anchor)"
    using dvd_shift [of s anchor u z] dvd_shift [of t anchor w z] by simp
  also have "\<dots> \<longleftrightarrow> lcm s t dvd (z - anchor)" by simp
  also have "lcm s t = s div g * t"
    using pos g(1) by (simp add: lcm_gcd dvd_div_mult abs_of_nonneg pos_imp_zdiv_nonneg_iff)
  finally show ?thesis .
qed

lemma progression_upto:
  assumes s: "0 < s" "in_i64 s" and f: "in_i64 f" and u: "in_i64 u" and le: "f \<le> u" and span: "in_i64 (u - f)"
    and p: "p = \<lparr>pg_first = f, pg_step = s, pg_count = wrap_i64 (wrap_i64 (u - f) sdiv s + 1)\<rparr>"
  shows "pg_ok p" "\<not> pg_is_empty p" "covered p = {x. f \<le> x \<and> x \<le> u \<and> s dvd (x - f)}"
    "last_of p = Some (f + (u - f) div s * s)"
proof -
  let ?l = "f + (u - f) div s * s"
  have "0 \<le> (u - f) div s" using s le by (simp add: pos_imp_zdiv_nonneg_iff)
  then have l: "f \<le> ?l" "?l \<le> u" using s le by (simp, simp add: minus_mod_eq_div_mult [symmetric])
  have n: "(?l - f) div s = wrap_i64 (u - f) sdiv s" using s le span by (simp add: sdiv_nonneg)
  have "(u - f) div s \<le> u - f" using run_div_bound s(1) le by blast
  then have small: "(?l - f) div s < 18446744073709551615" using span s(1) by (simp add: machine_int)
  have "in_i64 ?l" using l f u by (simp add: machine_int)
  moreover have "s dvd (?l - f)" by simp
  ultimately have mk: "last_of p = Some ?l" "pg_ok p" "\<not> pg_is_empty p" "covered p = {x. f \<le> x \<and> x \<le> ?l \<and> s dvd (x - f)}"
    using progression_make [OF s f _ l(1) _ small, of p] p n by auto
  show "pg_ok p" "\<not> pg_is_empty p" "last_of p = Some ?l" by (rule mk)+
  show "covered p = {x. f \<le> x \<and> x \<le> u \<and> s dvd (x - f)}"
    unfolding mk(4)
  proof (intro Collect_cong)
    fix x
    have "x \<le> ?l \<longleftrightarrow> x - f \<le> (u - f) div s * s" "x \<le> u \<longleftrightarrow> x - f \<le> u - f" by linarith+
    then show "(f \<le> x \<and> x \<le> ?l \<and> s dvd (x - f)) \<longleftrightarrow> (f \<le> x \<and> x \<le> u \<and> s dvd (x - f))"
      using floor_multiple_le [OF s(1), of "x - f" "u - f"] by blast
  qed
qed

text \<open>The least element not below \<open>lower\<close> of a residue class.\<close>

lemma residue_start:
  fixes L :: int
  assumes "0 < L" and f: "f = lower + (anchor - lower) mod L"
  shows "lower \<le> x \<and> L dvd (x - anchor) \<longleftrightarrow> f \<le> x \<and> L dvd (x - f)"
proof -
  have "L dvd (f - anchor)"
    using dvd_minus_mod [of L "anchor - lower"] by (simp add: f dvd_diff_commute algebra_simps)
  then have c: "L dvd (x - f) \<longleftrightarrow> L dvd (x - anchor)" by (rule dvd_shift)
  have lt: "lower \<le> f" "f - lower < L" using assms by simp_all
  have "f \<le> x" if "lower \<le> x" "L dvd (x - f)"
  proof (rule ccontr)
    assume "\<not> f \<le> x"
    then have "0 < f - x" "f - x < L" using that lt by auto
    with that(2) show False using zdvd_not_zless dvd_diff_commute by metis
  qed
  then show ?thesis using c lt by auto
qed

definition span_ok :: "Progression \<Rightarrow> bool" where
  "span_ok p \<longleftrightarrow> (\<forall>l. last_of p = Some l \<longrightarrow> in_i64 (l - pg_first p))"

lemma indexable_span: "indexable p \<Longrightarrow> span_ok p"
  by (auto simp: indexable_def span_ok_def pg_ok_def machine_int)

lemma intersect_within_set:
  assumes ok: "pg_ok p" "pg_ok q" and i64: "in_i64 lower" "in_i64 upper" "lower \<le> upper" "in_i64 (upper - lower)"
    and r: "intersect_within p q lower upper = Some c"
  shows "pg_ok c \<and> (\<not> pg_is_empty c \<longrightarrow> pg_step p dvd pg_step c) \<and>
    covered c = {x. lower \<le> x \<and> x \<le> upper \<and> pg_step p dvd (x - pg_first p) \<and> pg_step q dvd (x - pg_first q)}"
proof -
  let ?s = "pg_step p" and ?t = "pg_step q" and ?u = "pg_first p" and ?w = "pg_first q"
  note p = pg_okD [OF ok(1)] and q = pg_okD [OF ok(2)]
  obtain g x y where e: "extended_gcd ?s ?t = (g, x, y)" by (metis prod_cases3)
  then have g: "g = gcd ?s ?t" "?s * x + ?t * y = g" using extended_gcd_spec [of ?s ?t] p q by auto
  then have g0: "0 < g" using p(1) by simp
  show ?thesis
  proof (cases "g dvd (?w - ?u)")
    case False
    then have "c = EMPTY" using r e by (auto simp: intersect_within_def res_simps smod_dvd_iff)
    moreover have "\<not> (?s dvd (z - ?u) \<and> ?t dvd (z - ?w))" for z
      using False crt_solvable g(1) by blast
    ultimately show ?thesis by auto
  next
    case True
    let ?L = "?s div g * ?t"
    define anchor where "anchor = ?u + ((?w - ?u) div g * x) smod (?t div g) * ?s"
    define f where "f = lower + (anchor - lower) mod ?L"
    have gdvd: "g dvd ?s" "g dvd ?t" by (simp_all add: g(1))
    have d: "?s sdiv g = ?s div g" "?t sdiv g = ?t div g" "(?w - ?u) sdiv g = (?w - ?u) div g"
      using g0 sdiv_dvd gdvd True by auto
    have "?s div g \<noteq> 0" using gdvd(1) p(1) by (auto simp: dvd_div_eq_0_iff)
    then have L: "0 < ?L" using p(1) q(1) g0 by (simp add: pos_imp_zdiv_pos_iff pos_imp_zdiv_nonneg_iff less_le)
    have r': "in_i64 ?L" "in_i64 f" "c = (if f > upper then EMPTY else \<lparr>pg_first = f, pg_step = ?L, pg_count = wrap_i64 (wrap_i64 (upper - f) sdiv ?L + 1)\<rparr>)"
      using r e True by (auto simp: intersect_within_def res_simps smod_dvd_iff Let_def d anchor_def [symmetric] f_def [symmetric]
          split: if_splits)
    have set: "{x. lower \<le> x \<and> x \<le> upper \<and> ?s dvd (x - ?u) \<and> ?t dvd (x - ?w)} = {x. f \<le> x \<and> x \<le> upper \<and> ?L dvd (x - f)}"
      unfolding crt_anchor [OF g p(1) q(1) True anchor_def] using residue_start [OF L f_def] by blast
    have "lower \<le> f" using L by (simp add: f_def)
    then have span: "in_i64 (upper - f)" if "f \<le> upper" using that i64(3,4) by (simp add: machine_int)
    have "?s dvd ?L" using gdvd by (metis dvd_def dvd_div_mult mult.commute dvd_triv_left div_mult_swap)
    then show ?thesis unfolding set using r'(3) progression_upto [OF L r'(1,2) i64(2) _ span, of c] by auto
  qed
qed

lemma pg_intersect_set:
  assumes ok: "pg_ok p" "pg_ok q" and span: "span_ok p" and r: "pg_intersect p q = Some c"
  shows "pg_ok c \<and> (\<not> pg_is_empty c \<longrightarrow> pg_step p dvd pg_step c) \<and> covered c = covered p \<inter> covered q"
proof (cases "last_of p = None \<or> last_of q = None")
  case True
  then have "c = EMPTY" using r by (auto simp: pg_intersect_def split: option.splits)
  with True show ?thesis by (auto simp: last_of_None covered_empty)
next
  case False
  then obtain lp lq where l: "last_of p = Some lp" "last_of q = Some lq" by auto
  let ?lower = "max (pg_first p) (pg_first q)" and ?upper = "min lp lq"
  have els: "covered p \<inter> covered q = {x. ?lower \<le> x \<and> x \<le> ?upper \<and> pg_step p dvd (x - pg_first p) \<and> pg_step q dvd (x - pg_first q)}"
    by (auto simp: covered_def l)
  show ?thesis
  proof (cases "?lower > ?upper")
    case True
    then have "c = EMPTY" using r by (auto simp: pg_intersect_def l Let_def split: if_splits)
    with True show ?thesis unfolding els by auto
  next
    case False
    have "in_i64 ?lower" "in_i64 ?upper" using pg_okD(3) ok last_of_in_i64 l by (auto simp: min_def max_def)
    moreover have "in_i64 (?upper - ?lower)" using span l False by (auto simp: span_ok_def machine_int)
    moreover have "intersect_within p q ?lower ?upper = Some c" using r False by (simp add: pg_intersect_def l Let_def)
    moreover have "?lower \<le> ?upper" using False by (simp only: not_less)
    ultimately show ?thesis unfolding els by (intro intersect_within_set [OF ok]) assumption+
  qed
qed

section \<open>Difference\<close>

lemma indexable_upto:
  assumes "0 < s" "in_i64 s" "- 4611686018427387903 \<le> f" "f \<le> u" "u < 4611686018427387904"
    and p: "p = \<lparr>pg_first = f, pg_step = s, pg_count = wrap_i64 (wrap_i64 (u - f) sdiv s + 1)\<rparr>"
  shows "indexable p" "covered p = {x. f \<le> x \<and> x \<le> u \<and> s dvd (x - f)}"
proof -
  have "in_i64 f" "in_i64 u" "in_i64 (u - f)" using assms by (auto simp: machine_int)
  note m = progression_upto [OF assms(1,2) this(1,2) assms(4) this(3) p]
  have "(u - f) div s * s \<le> u - f" using assms(1,4) by (simp add: minus_mod_eq_div_mult [symmetric])
  then show "indexable p" using m(1,4) assms(3,5) by (simp add: indexable_def) (simp add: p)
  show "covered p = {x. f \<le> x \<and> x \<le> u \<and> s dvd (x - f)}" by (rule m(3))
qed

lemma residue_classes:
  fixes cf :: int
  assumes "0 < sp" and sc: "sc = ratio * sp" and "1 \<le> ratio" and "sc dvd (cl - cf)"
  shows "(\<Union>r \<in> {1..ratio - 1}. {x. cf + r * sp \<le> x \<and> x \<le> cl \<and> sc dvd (x - (cf + r * sp))}) =
    {x. cf \<le> x \<and> x \<le> cl \<and> sp dvd (x - cf) \<and> \<not> sc dvd (x - cf)}" (is "?L = ?R")
proof (intro set_eqI iffI)
  fix x assume "x \<in> ?L"
  then obtain r where r: "1 \<le> r" "r < ratio" "cf + r * sp \<le> x" "x \<le> cl" "sc dvd (x - (cf + r * sp))" by auto
  have "0 < r * sp" "r * sp < sc" using r(1,2) assms(1) sc by simp_all
  then have nd: "\<not> sc dvd r * sp" using zdvd_not_zless by blast
  have "x - cf = (x - (cf + r * sp)) + r * sp" by simp
  then have "sc dvd (x - cf) \<longleftrightarrow> sc dvd r * sp" by (metis dvd_add_right_iff r(5))
  moreover have "sp dvd (x - (cf + r * sp))" using r(5) sc by (metis dvd_mult_right dvd_trans dvd_refl)
  then have "sp dvd (x - cf)" by (metis \<open>x - cf = (x - (cf + r * sp)) + r * sp\<close> dvd_add dvd_triv_right)
  ultimately show "x \<in> ?R" using nd r(3,4) \<open>0 < r * sp\<close> by auto
next
  fix x assume x: "x \<in> ?R"
  then obtain k where k: "x - cf = sp * k" by auto
  define r where "r = k mod ratio"
  have r: "0 \<le> r" "r < ratio" using assms(3) by (simp_all add: r_def)
  have "k - r = ratio * (k div ratio)" by (simp add: r_def minus_mod_eq_mult_div)
  then have "sp * (k - r) = sc * (k div ratio)" using sc by simp
  then have e: "x - (cf + r * sp) = sc * (k div ratio)" using k by (simp add: algebra_simps)
  have "r \<noteq> 0" using x e by auto
  moreover have "0 \<le> sp * k" using x k by simp
  then have "0 \<le> k" using assms(1) by (simp add: zero_le_mult_iff)
  then have "0 \<le> k div ratio" using assms(3) by (simp add: pos_imp_zdiv_nonneg_iff)
  moreover have "0 \<le> sc" using sc assms(1,3) by simp
  ultimately have "r \<noteq> 0" "0 \<le> x - (cf + r * sp)" unfolding e by simp_all
  then show "x \<in> ?L" using r x e by (intro UN_I [of r]) auto
qed

lemma residue_parts_set:
  assumes sp: "0 < pg_step p" and sc: "pg_step c = ratio * pg_step p" "1 \<le> ratio" "in_i64 (pg_step c)"
    and b: "- 4611686018427387903 \<le> cf" "cf \<le> cl" "cl < 4611686018427387904" and dvd: "pg_step c dvd (cl - cf)"
  shows "(\<forall>part \<in> set (residue_parts p c cf cl ratio). indexable part) \<and>
    (\<Union>part \<in> set (residue_parts p c cf cl ratio). covered part) =
      {x. cf \<le> x \<and> x \<le> cl \<and> pg_step p dvd (x - cf) \<and> \<not> pg_step c dvd (x - cf)}"
proof (cases "ratio = 1 \<or> cf = cl")
  case True
  have "residue_parts p c cf cl ratio = []"
  proof (cases "ratio = 1")
    case False
    with True sc have "2 * pg_step p \<le> pg_step c" "cf = cl" using mult_right_mono [of 2 ratio "pg_step p"] sp by auto
    then have "wrap_i64 (cf + 1 * pg_step p) = cf + pg_step p" using sc(3) sp b by (intro trans [OF wrap_i64_id]) (auto simp: machine_int)
    moreover have "[1..ratio - 1] = 1 # [2..ratio - 1]" using False sc(2) by (simp add: upto_rec1)
    ultimately show ?thesis using sp \<open>cf = cl\<close> by (simp add: residue_parts_def)
  qed (simp add: residue_parts_def)
  moreover have "{x. cf \<le> x \<and> x \<le> cl \<and> pg_step p dvd (x - cf) \<and> \<not> pg_step c dvd (x - cf)} = {}"
    using True sc(1) by auto
  ultimately show ?thesis by simp
next
  case False
  let ?f = "\<lambda>r. cf + r * pg_step p"
  have "pg_step c \<le> cl - cf" using dvd b(2) False by (intro zdvd_imp_le) auto
  then have lt: "cf < ?f r" "?f r < cl" if "r \<in> {1..ratio - 1}" for r
  proof -
    have "0 < r * pg_step p" using that sp by simp
    then show "cf < ?f r" by simp
    have "r * pg_step p < ratio * pg_step p" using that sp by simp
    with \<open>pg_step c \<le> cl - cf\<close> show "?f r < cl" unfolding sc(1) by simp
  qed
  have wrap: "wrap_i64 (?f r) = ?f r" if "r \<in> {1..ratio - 1}" for r
    using lt [OF that] b by (simp add: machine_int)
  have parts: "residue_parts p c cf cl ratio = map (\<lambda>r. \<lparr>pg_first = ?f r, pg_step = pg_step c,
      pg_count = wrap_i64 (wrap_i64 (cl - ?f r) sdiv pg_step c + 1)\<rparr>) [1..ratio - 1]"
  proof -
    have tw: "takeWhile (\<lambda>r. \<not> wrap_i64 (cf + wrap_i64 (r * pg_step p)) > cl) [1..ratio - 1] = [1..ratio - 1]"
      unfolding takeWhile_eq_all_conv wrap_i64_simps using lt(2) wrap by fastforce
    show ?thesis unfolding residue_parts_def tw
      unfolding Let_def wrap_i64_simps by (intro map_cong refl) (simp only: set_upto wrap)
  qed
  have c0: "0 < pg_step c" using sc sp by simp
  have part: "indexable \<lparr>pg_first = ?f r, pg_step = pg_step c, pg_count = wrap_i64 (wrap_i64 (cl - ?f r) sdiv pg_step c + 1)\<rparr>"
    "covered \<lparr>pg_first = ?f r, pg_step = pg_step c, pg_count = wrap_i64 (wrap_i64 (cl - ?f r) sdiv pg_step c + 1)\<rparr> =
      {x. ?f r \<le> x \<and> x \<le> cl \<and> pg_step c dvd (x - ?f r)}" if "r \<in> {1..ratio - 1}" for r
    using indexable_upto [OF c0 sc(3) _ _ b(3) refl, of "?f r"] lt [OF that] b(1) by auto
  show ?thesis unfolding parts using part residue_classes [OF sp sc(1,2) dvd] by (simp add: image_image)
qed

lemma wrap_i64_high:
  assumes "i64_max < x" and "x \<le> 18446744073709551615"
  shows "wrap_i64 x = x - 18446744073709551616"
proof -
  have "wrap_i64 x = wrap_i64 (x - 18446744073709551616)" by (rule wrap_i64_eqI) (simp add: mod_diff_right_eq [symmetric])
  also have "\<dots> = x - 18446744073709551616" using assms by (intro wrap_i64_id) (simp add: machine_int)
  finally show ?thesis .
qed

lemma indexable_cut:
  assumes s: "0 < s" "in_i64 s" and b: "- 4611686018427387903 \<le> f" "f \<le> l" "l < 4611686018427387904"
    and dvd: "s dvd (l - f)" and n: "n = (l - f) div s + 1"
    and p: "p = \<lparr>pg_first = f, pg_step = s, pg_count = n\<rparr>"
  shows "indexable p" "covered p = {x. f \<le> x \<and> x \<le> l \<and> s dvd (x - f)}"
proof -
  have i64: "in_i64 f" "in_i64 l" "in_i64 (l - f)" using b by (simp_all add: machine_int)
  have le: "(l - f) div s \<le> l - f" using run_div_bound s(1) b(2) by blast
  then have small: "(l - f) div s < 18446744073709551615" using i64(3) by (simp add: machine_int)
  have "0 \<le> (l - f) div s" using s b by (simp add: pos_imp_zdiv_nonneg_iff)
  then have "in_i64 n" using le b by (simp add: n machine_int)
  then have "p = \<lparr>pg_first = f, pg_step = s, pg_count = wrap_i64 ((l - f) div s + 1)\<rparr>" by (simp add: p n)
  note m = progression_make [OF s i64(1,2) b(2) dvd small this]
  show "indexable p" using m(1,3) b by (simp add: indexable_def) (simp add: p)
  show "covered p = {x. f \<le> x \<and> x \<le> l \<and> s dvd (x - f)}" by (rule m(5))
qed

text \<open>The elements of a progression before one of them, and after one of them.\<close>

lemma difference_before:
  assumes p: "indexable p" "last_of p = Some l" and x0: "x0 \<in> covered p"
    and before: "before = wrap_i64 (x0 - pg_first p) sdiv pg_step p"
  shows "(before > 0 \<longrightarrow> indexable (p\<lparr>pg_count := before\<rparr>)) \<and>
    (\<Union>part \<in> set (if before > 0 then [p\<lparr>pg_count := before\<rparr>] else []). covered part) = {x \<in> covered p. x < x0}"
proof -
  let ?f = "pg_first p" and ?s = "pg_step p"
  note ok = pg_okD [OF p(1) [unfolded indexable_def, THEN conjunct1]]
  have b: "- 4611686018427387903 \<le> ?f" "l < 4611686018427387904" using p by (auto simp: indexable_def)
  have x: "?f \<le> x0" "x0 \<le> l" "?s dvd (x0 - ?f)" using x0 p(2) by (auto simp: covered_def)
  then have "in_i64 (x0 - ?f)" using b by (simp add: machine_int)
  then have bf: "before = (x0 - ?f) div ?s" using before x ok(1) by (simp add: sdiv_nonneg)
  show ?thesis
  proof (cases "x0 = ?f")
    case True
    then show ?thesis using bf p(2) by (auto simp: covered_def)
  next
    case False
    then have step: "?s \<le> x0 - ?f" using x by (intro zdvd_imp_le) auto
    have "(x0 - ?s - ?f) div ?s + 1 = before"
      using div_add_self2 [of ?s "x0 - ?s - ?f"] ok(1) by (simp add: bf algebra_simps)
    moreover have "?s dvd (x0 - ?s - ?f)" using x(3) by (simp add: dvd_diff diff_right_commute)
    ultimately have part: "indexable (p\<lparr>pg_count := before\<rparr>)"
      "covered (p\<lparr>pg_count := before\<rparr>) = {x. ?f \<le> x \<and> x \<le> x0 - ?s \<and> ?s dvd (x - ?f)}"
      using indexable_cut [OF ok(1,2) b(1), of "x0 - ?s" before "p\<lparr>pg_count := before\<rparr>"] step x b(2) ok(1) by simp_all
    have "before > 0" using step bf ok(1) by (simp add: pos_imp_zdiv_pos_iff)
    moreover have "x \<le> x0 - ?s \<longleftrightarrow> x < x0" if "?s dvd (x - ?f)" for x
    proof -
      have "?s dvd (x0 - x)" using dvd_diff [OF x(3) that] by simp
      then show ?thesis using zdvd_imp_le [of ?s "x0 - x"] ok(1) by auto
    qed
    ultimately show ?thesis using part x(2) p(2) by (auto simp: covered_def)
  qed
qed

lemma difference_after:
  assumes p: "indexable p" "last_of p = Some l" and x0: "x0 \<in> covered p"
    and a: "a = wrap_i64 (x0 + pg_step p)"
    and after: "after = (case chk_i64 (l - a) of None \<Rightarrow> 0 | Some span \<Rightarrow> if span < 0 then 0 else wrap_i64 (span sdiv pg_step p + 1))"
  shows "(after > 0 \<longrightarrow> indexable (p\<lparr>pg_first := a, pg_count := after\<rparr>)) \<and>
    (\<Union>part \<in> set (if after > 0 then [p\<lparr>pg_first := a, pg_count := after\<rparr>] else []). covered part) = {x \<in> covered p. x0 < x}"
proof -
  let ?f = "pg_first p" and ?s = "pg_step p"
  note ok = pg_okD [OF p(1) [unfolded indexable_def, THEN conjunct1]]
  have b: "- 4611686018427387903 \<le> ?f" "l < 4611686018427387904" using p by (auto simp: indexable_def)
  have x: "?f \<le> x0" "x0 \<le> l" "?s dvd (x0 - ?f)" using x0 p(2) by (auto simp: covered_def)
  have lx: "?s dvd (l - x0)" using dvd_diff [OF ok(6) [OF p(2)] x(3)] by simp
  have next_le: "x0 + ?s \<le> y" if "?s dvd (y - ?f)" "x0 < y" for y
  proof -
    have "?s dvd (y - x0)" using dvd_diff [OF that(1) x(3)] by simp
    then show ?thesis using zdvd_imp_le [of ?s "y - x0"] that(2) by auto
  qed
  show ?thesis
  proof (cases "x0 = l")
    case True
    have "after = 0"
    proof (cases "in_i64 (x0 + ?s)")
      case True
      then show ?thesis using after a \<open>x0 = l\<close> ok(1,2) by (simp add: chk_i64_def machine_int)
    next
      case False
      then have "a = x0 + ?s - 18446744073709551616"
        using a x b ok(1,2) wrap_i64_high [of "x0 + ?s"] by (auto simp: machine_int)
      then show ?thesis using after x b ok(1,2) True by (simp add: chk_i64_def machine_int)
    qed
    then show ?thesis using True p(2) by (auto simp: covered_def)
  next
    case False
    then have s: "x0 + ?s \<le> l" using next_le [of l] ok(6) [OF p(2)] x(2) by simp
    then have a': "a = x0 + ?s" using a b x ok(1) by (simp add: machine_int)
    then have n: "after = (l - a) div ?s + 1"
    proof -
      have "(l - a) div ?s \<le> l - a" "0 \<le> (l - a) div ?s"
        using run_div_bound [OF ok(1), of a l] s ok(1) a' by (auto simp: pos_imp_zdiv_nonneg_iff)
      then show ?thesis using s a' b x ok(1) by (simp add: after chk_i64_def sdiv_nonneg machine_int)
    qed
    have "?s dvd (l - a)" using dvd_diff [OF lx dvd_refl] by (simp add: a' algebra_simps)
    then have part: "indexable (p\<lparr>pg_first := a, pg_count := after\<rparr>)"
      "covered (p\<lparr>pg_first := a, pg_count := after\<rparr>) = {y. a \<le> y \<and> y \<le> l \<and> ?s dvd (y - a)}"
      using indexable_cut [OF ok(1,2) _ _ b(2) _ n, of "p\<lparr>pg_first := a, pg_count := after\<rparr>"] s a' b(1) x ok(1) by simp_all
    have "0 < after" using n s a' ok(1) by (simp add: pos_imp_zdiv_nonneg_iff add_nonneg_pos)
    moreover have "?s dvd (a - ?f)" using dvd_add [OF x(3) dvd_refl] by (simp add: a' algebra_simps)
    then have "?s dvd (y - a) \<longleftrightarrow> ?s dvd (y - ?f)" for y by (rule dvd_shift)
    moreover have "a \<le> y \<longleftrightarrow> x0 < y" if "?s dvd (y - ?f)" for y using next_le [OF that] a' ok(1) by auto
    ultimately show ?thesis using part p(2) x(1) by (auto simp: covered_def)
  qed
qed

lemma pg_difference_set:
  assumes p: "indexable p" and q: "pg_ok q" and r: "pg_difference p q = Some parts"
  shows "(\<forall>part \<in> set parts. indexable part) \<and> (\<Union>part \<in> set parts. covered part) = covered p - covered q"
proof -
  obtain c where c: "pg_intersect p q = Some c" using r by (auto simp: pg_difference_def res_simps)
  have ok: "pg_ok p" using p by (simp add: indexable_def)
  note cs = pg_intersect_set [OF ok q indexable_span [OF p] c]
  show ?thesis
  proof (cases "pg_is_empty c")
    case True
    then have "parts = [p]" using r c by (auto simp: pg_difference_def first_of_def)
    moreover have "covered p \<inter> covered q = {}" using cs True covered_empty by auto
    ultimately show ?thesis using p by auto
  next
    case False
    then obtain cl where cl: "last_of c = Some cl" by (cases "last_of c") (auto simp: last_of_None)
    let ?cf = "pg_first c" and ?sp = "pg_step p" and ?sc = "pg_step c"
    define ratio where "ratio = ?sc sdiv ?sp"
    define before where "before = wrap_i64 (?cf - pg_first p) sdiv ?sp"
    define a where "a = wrap_i64 (cl + ?sp)"
    have elc: "covered c = covered p \<inter> covered q" and okc: "pg_ok c" and dv: "?sp dvd ?sc" using cs False by auto
    note oc = pg_okD [OF okc] and op = pg_okD [OF ok]
    have mem: "?cf \<in> covered c" "cl \<in> covered c" using oc(5,6) [OF cl] by (auto simp: covered_def cl)
    then have memp: "?cf \<in> covered p" "cl \<in> covered p" using elc by auto
    then obtain l where l: "last_of p = Some l" by (cases "last_of p") (auto simp: covered_def)
    define after where "after = (case chk_i64 (l - a) of None \<Rightarrow> 0 | Some span \<Rightarrow> if span < 0 then 0 else wrap_i64 (span sdiv ?sp + 1))"
    let ?B = "if before > 0 then [p\<lparr>pg_count := before\<rparr>] else []"
      and ?A = "if after > 0 then [p\<lparr>pg_first := a, pg_count := after\<rparr>] else []"
    have parts: "parts = ?B @ ?A @ residue_parts p c ?cf cl ratio"
      using r by (auto simp: pg_difference_def c first_of_def False cl l Let_def res_simps
          before_def [symmetric] a_def [symmetric] after_def [symmetric] ratio_def [symmetric] split: if_splits)
    have rd: "?sc = ratio * ?sp" using sdiv_dvd [OF dv] op(1) dv by (simp add: ratio_def)
    then have r1: "1 \<le> ratio" using oc(1) op(1) by (metis int_one_le_iff_zero_less zero_less_mult_pos2)
    have b: "- 4611686018427387903 \<le> ?cf" "cl < 4611686018427387904" "?cf \<le> cl"
      using memp p l oc(5) [OF cl] by (auto simp: covered_def indexable_def)
    note R = residue_parts_set [OF op(1) rd r1 oc(2) b(1,3,2) oc(6) [OF cl]]
      and B = difference_before [OF p l memp(1) before_def] and A = difference_after [OF p l memp(2) a_def after_def]
    have eq: "covered p - covered q = {x \<in> covered p. x < ?cf} \<union> {x \<in> covered p. cl < x} \<union>
        {x. ?cf \<le> x \<and> x \<le> cl \<and> ?sp dvd (x - ?cf) \<and> \<not> ?sc dvd (x - ?cf)}" (is "_ = _ \<union> _ \<union> ?M")
    proof -
      have pc: "covered p - covered q = covered p - covered c" using elc by auto
      have m: "?M = {x \<in> covered p. ?cf \<le> x \<and> x \<le> cl} - covered c"
        using memp dvd_shift [of ?sp ?cf "pg_first p"] by (auto simp: covered_def l cl)
      have between: "x \<in> covered c \<Longrightarrow> \<not> x < ?cf \<and> \<not> cl < x" for x by (auto simp: covered_def cl)
      show ?thesis unfolding pc m by (auto dest: between)
    qed
    show ?thesis
    proof
      show "\<forall>part \<in> set parts. indexable part"
        unfolding parts set_append ball_Un using R [THEN conjunct1] B [THEN conjunct1] A [THEN conjunct1] by simp
      show "(\<Union>part \<in> set parts. covered part) = covered p - covered q"
        unfolding parts set_append UN_Un eq R [THEN conjunct2] B [THEN conjunct2] A [THEN conjunct2] by (simp only: Un_assoc)
    qed
  qed
qed

section \<open>Boxes\<close>

definition box_covered :: "IndexBox \<Rightarrow> int list set" where
  "box_covered b = {t. list_all2 (\<lambda>x p. x \<in> covered p) t b}"

abbreviation box_ok :: "IndexBox \<Rightarrow> bool" where
  "box_ok b \<equiv> list_all indexable b"

lemma box_covered_nth: "t \<in> box_covered b \<longleftrightarrow> length t = length b \<and> (\<forall>i < length b. t ! i \<in> covered (b ! i))"
  by (auto simp: box_covered_def list_all2_conv_all_nth)

lemma box_covered_update:
  "k < length b \<Longrightarrow> t \<in> box_covered (b[k := p]) \<longleftrightarrow>
     length t = length b \<and> t ! k \<in> covered p \<and> (\<forall>i < length b. i \<noteq> k \<longrightarrow> t ! i \<in> covered (b ! i))"
  unfolding box_covered_nth by (auto simp: nth_list_update)

lemma indexable_subset:
  assumes "pg_ok c" and "covered c \<subseteq> covered p" and "indexable p"
  shows "indexable c"
proof (cases "last_of c")
  case (Some l)
  have "pg_first c \<in> covered c" "l \<in> covered c"
    using pg_okD(5,6) [OF assms(1) Some] by (auto simp: covered_def Some)
  then have "pg_first c \<in> covered p" "l \<in> covered p" using assms(2) by auto
  then show ?thesis using assms(1,3) Some by (auto simp: indexable_def covered_def split: option.splits)
qed (use assms(1) in \<open>simp add: indexable_def\<close>)

lemma indexable_intersect:
  assumes "indexable p" and "pg_ok q" and "pg_intersect p q = Some c"
  shows "indexable c" "covered c = covered p \<inter> covered q"
proof -
  have "pg_ok p" using assms(1) by (simp add: indexable_def)
  from pg_intersect_set [OF this assms(2) indexable_span [OF assms(1)] assms(3)]
  show "covered c = covered p \<inter> covered q" and "indexable c"
    using indexable_subset [of c p] assms(1) by auto
qed

lemma box_is_empty_points:
  assumes "list_all pg_ok b"
  shows "box_is_empty b \<longleftrightarrow> box_covered b = {}"
proof -
  have "box_is_empty b \<longleftrightarrow> (\<exists>p \<in> set b. covered p = {})"
    using assms by (auto simp: box_is_empty_def list_ex_iff list_all_iff pg_is_empty_covered)
  also have "\<dots> \<longleftrightarrow> box_covered b = {}"
  proof
    assume "\<exists>p \<in> set b. covered p = {}"
    then show "box_covered b = {}" by (fastforce simp: box_covered_nth in_set_conv_nth)
  next
    assume none: "box_covered b = {}"
    show "\<exists>p \<in> set b. covered p = {}"
    proof (rule ccontr)
      assume "\<not> (\<exists>p \<in> set b. covered p = {})"
      then have "\<forall>p \<in> set b. \<exists>x. x \<in> covered p" by auto
      then obtain f where "\<forall>p \<in> set b. f p \<in> covered p" by metis
      then have "map f b \<in> box_covered b" by (simp add: box_covered_nth)
      with none show False by simp
    qed
  qed
  finally show ?thesis .
qed

lemma box_ok_pg: "box_ok b \<Longrightarrow> list_all pg_ok b"
  by (auto simp: list_all_iff indexable_def)

lemma box_intersect_points:
  assumes "box_ok b" and "box_ok c" and r: "box_intersect b c = Some d"
  shows "box_ok d \<and> box_covered d = box_covered b \<inter> box_covered c"
proof -
  have len: "length b = length c" "length d = length b"
    and at: "\<And>i. i < length b \<Longrightarrow> pg_intersect (b ! i) (c ! i) = Some (d ! i)"
    using r by (auto simp: box_intersect_def those_map_Some_iff split: if_splits)
  have "indexable (d ! i)" "covered (d ! i) = covered (b ! i) \<inter> covered (c ! i)" if "i < length b" for i
    using indexable_intersect [OF _ _ at [OF that]] assms(1) box_ok_pg [OF assms(2)] that len by (simp_all add: list_all_length)
  then show ?thesis using len by (auto simp: list_all_length box_covered_nth)
qed

lemma difference_loop_points:
  "difference_loop [k..<length b] b c parts = Some result \<Longrightarrow> box_ok b \<Longrightarrow> list_all pg_ok c \<Longrightarrow> length c = length b \<Longrightarrow>
     \<exists>pieces. result = parts @ pieces \<and> (\<forall>piece \<in> set pieces. box_ok piece) \<and>
       (\<Union>piece \<in> set pieces. box_covered piece) = {t \<in> box_covered b. \<exists>i \<in> {k..<length b}. t ! i \<notin> covered (c ! i)}"
proof (induction "length b - k" arbitrary: k b parts)
  case 0
  then show ?case by simp
next
  case (Suc m)
  then have k: "k < length b" by simp
  then have up: "[k..<length b] = k # [Suc k..<length b]" by (simp add: upt_rec)
  obtain outside common where o: "pg_difference (b ! k) (c ! k) = Some outside"
    and i: "pg_intersect (b ! k) (c ! k) = Some common"
    and rest: "(if pg_is_empty common then Some (parts @ map (\<lambda>part. b[k := part]) outside)
       else difference_loop [Suc k..<length b] (b[k := common]) c (parts @ map (\<lambda>part. b[k := part]) outside)) = Some result"
    using Suc.prems(1) by (auto simp: up res_simps Let_def)
  have bk: "indexable (b ! k)" and ck: "pg_ok (c ! k)" using Suc.prems k by (auto simp: list_all_length)
  note d = pg_difference_set [OF bk ck o] and c = indexable_intersect [OF bk ck i]
  have first_ok: "\<forall>piece \<in> set (map (\<lambda>part. b[k := part]) outside). box_ok piece"
    using d Suc.prems(2) k by (auto simp: list_all_length nth_list_update)
  have first_pts: "(\<Union>piece \<in> set (map (\<lambda>part. b[k := part]) outside). box_covered piece) = {t \<in> box_covered b. t ! k \<notin> covered (c ! k)}"
  proof -
    have mem: "t \<in> (\<Union>piece \<in> set (map (\<lambda>part. b[k := part]) outside). box_covered piece) \<longleftrightarrow>
        length t = length b \<and> t ! k \<in> (\<Union>part \<in> set outside. covered part) \<and> (\<forall>i < length b. i \<noteq> k \<longrightarrow> t ! i \<in> covered (b ! i))" for t
      by (auto simp: box_covered_update [OF k])
    show ?thesis
      by (rule set_eqI) (unfold mem d [THEN conjunct2] mem_Collect_eq box_covered_nth, use k in auto)
  qed
  have cut: "box_covered (b[k := common]) = {t \<in> box_covered b. t ! k \<in> covered (c ! k)}"
    using k by (auto simp: box_covered_update box_covered_nth [of _ b] c(2))
  have split: "{t \<in> box_covered b. \<exists>i \<in> {k..<length b}. t ! i \<notin> covered (c ! i)} =
      {t \<in> box_covered b. t ! k \<notin> covered (c ! k)} \<union> {t \<in> box_covered (b[k := common]). \<exists>i \<in> {Suc k..<length b}. t ! i \<notin> covered (c ! i)}"
  proof -
    have "{k..<length b} = insert k {Suc k..<length b}" using k by auto
    then show ?thesis unfolding cut by auto
  qed
  show ?case
  proof (cases "pg_is_empty common")
    case True
    then have "box_covered (b[k := common]) = {}" using k by (auto simp: box_covered_update covered_empty)
    then show ?thesis unfolding split using rest True first_ok first_pts by auto
  next
    case False
    have ok: "box_ok (b[k := common])" using c(1) Suc.prems(2) k by (auto simp: list_all_length nth_list_update)
    have loop: "difference_loop [Suc k..<length (b[k := common])] (b[k := common]) c (parts @ map (\<lambda>part. b[k := part]) outside) = Some result"
      using rest False by simp
    have m: "m = length (b[k := common]) - Suc k" using Suc.hyps(2) by simp
    from Suc.hyps(1) [OF m loop ok Suc.prems(3)] Suc.prems(4)
    obtain pieces where "result = (parts @ map (\<lambda>part. b[k := part]) outside) @ pieces"
        "\<forall>piece \<in> set pieces. box_ok piece"
        "(\<Union>piece \<in> set pieces. box_covered piece) = {t \<in> box_covered (b[k := common]). \<exists>i \<in> {Suc k..<length b}. t ! i \<notin> covered (c ! i)}"
      unfolding length_list_update by blast
    then show ?thesis unfolding split using first_ok first_pts
      by (intro exI [of _ "map (\<lambda>part. b[k := part]) outside @ pieces"]) (simp add: ball_Un UN_Un)
  qed
qed

lemma box_difference_points:
  assumes "box_ok b" and "list_all pg_ok c" and r: "box_difference b c = Some parts"
  shows "(\<forall>piece \<in> set parts. box_ok piece) \<and> (\<Union>piece \<in> set parts. box_covered piece) = box_covered b - box_covered c"
proof -
  have len: "length c = length b" using r by (auto simp: box_difference_def split: if_splits)
  have "difference_loop [0..<length b] b c [] = Some parts" using r len by (simp add: box_difference_def)
  from difference_loop_points [OF this assms(1,2) len] len show ?thesis by (force simp: box_covered_nth)
qed

section \<open>Unions\<close>

definition union_covered :: "IndexUnion \<Rightarrow> int list set" where
  "union_covered u = (\<Union>b \<in> set u. box_covered b)"

abbreviation union_ok :: "IndexUnion \<Rightarrow> bool" where
  "union_ok u \<equiv> list_all box_ok u"

lemma union_covered_simps [simp]:
  "union_covered [] = {}" "union_covered (b # u) = box_covered b \<union> union_covered u" "union_covered (u @ v) = union_covered u \<union> union_covered v"
  by (simp_all add: union_covered_def)

lemma union_covered_filter: "list_all (list_all pg_ok) u \<Longrightarrow> union_covered (filter (\<lambda>b. \<not> box_is_empty b) u) = union_covered u"
  by (induction u) (auto simp: box_is_empty_points)

lemma union_ok_pg: "union_ok u \<Longrightarrow> list_all (list_all pg_ok) u"
  by (auto simp: list_all_iff indexable_def)

lemma union_covered_union_of: "list_all (list_all pg_ok) u \<Longrightarrow> union_covered (union_of u) = union_covered u"
  by (simp add: union_of_def union_covered_filter)

lemma union_ok_filter: "union_ok u \<Longrightarrow> union_ok (filter P u)"
  by (induction u) auto

lemma subtract_loop_points:
  "subtract_loop pending part acc = Some result \<Longrightarrow> union_ok pending \<Longrightarrow> union_ok acc \<Longrightarrow> list_all pg_ok part \<Longrightarrow>
     union_ok result \<and> union_covered result = union_covered acc \<union> (union_covered pending - box_covered part)"
proof (induction pending arbitrary: acc)
  case (Cons piece pending)
  obtain rest where rest: "box_difference piece part = Some rest"
    and loop: "subtract_loop pending part (acc @ filter (\<lambda>r. \<not> box_is_empty r) rest) = Some result"
    using Cons.prems(1) by (auto simp: res_simps Let_def split: if_splits)
  have d: "union_ok rest" "union_covered rest = box_covered piece - box_covered part"
    using box_difference_points [OF _ Cons.prems(4) rest] Cons.prems(2) by (auto simp: list_all_iff union_covered_def)
  have "union_ok (acc @ filter (\<lambda>r. \<not> box_is_empty r) rest)" using Cons.prems(3) d(1) by (simp add: union_ok_filter)
  from Cons.IH [OF loop _ this Cons.prems(4)] show ?case
    using Cons.prems(2) d(2) union_covered_filter [OF union_ok_pg [OF d(1)]] by auto
qed simp

lemma subtract_all_points:
  "subtract_all pending part = Some result \<Longrightarrow> union_ok pending \<Longrightarrow> list_all pg_ok part \<Longrightarrow>
     union_ok result \<and> union_covered result = union_covered pending - box_covered part"
  using subtract_loop_points [of pending part "[]"] by (simp add: subtract_all_def)

lemma all_empty_points: "union_ok u \<Longrightarrow> list_all box_is_empty u \<Longrightarrow> union_covered u = {}"
  using box_is_empty_points by (auto simp: union_covered_def list_all_iff indexable_def)

lemma contains_loop_points:
  "contains_loop pending parts \<Longrightarrow> union_ok pending \<Longrightarrow> union_ok parts \<Longrightarrow> union_covered pending \<subseteq> union_covered parts"
proof (induction pending parts rule: contains_loop.induct)
  case (1 pending)
  then show ?case by (simp add: all_empty_points)
next
  case (2 pending part parts)
  then obtain rest where rest: "subtract_all pending part = Some rest" by (auto split: option.splits)
  note s = subtract_all_points [OF rest 2(3)]
  have "union_covered rest \<subseteq> union_covered parts"
  proof (cases "rest = []")
    case False
    then show ?thesis using 2 rest s box_ok_pg by auto
  qed simp
  then show ?case using s 2(4) box_ok_pg by auto
qed

lemma contains_box_points: "contains_box u b \<Longrightarrow> union_ok u \<Longrightarrow> box_ok b \<Longrightarrow> box_covered b \<subseteq> union_covered u"
  using contains_loop_points [of "[b]" u] by (simp add: contains_box_def)

lemma union_extend_points: "union_ok u \<Longrightarrow> union_ok v \<Longrightarrow> union_ok (union_extend u v) \<and> union_covered (union_extend u v) = union_covered u \<union> union_covered v"
proof (induction u v rule: union_extend.induct)
  case (2 u part parts)
  then show ?case using contains_box_points [of u part] by auto
qed simp

lemma union_difference_points:
  assumes "union_ok u" and "union_ok v" and "union_difference u v = Some w"
  shows "union_ok w \<and> union_covered w = union_covered u - union_covered v"
  using assms unfolding union_difference_def
proof (induction v arbitrary: u)
  case (Cons part v)
  then obtain u' where u': "subtract_all u part = Some u'" "try_fold subtract_all u' v = Some w" by (auto split: option.splits)
  have "union_ok u'" "union_covered u' = union_covered u - box_covered part"
    using subtract_all_points [OF u'(1)] Cons.prems box_ok_pg by auto
  then show ?case using Cons.IH [OF _ _ u'(2)] Cons.prems(2) by auto
qed simp

lemma those_Some_map: "those rs = Some ys \<Longrightarrow> rs = map Some ys"
  by (induction rs arbitrary: ys) (auto split: option.splits)

lemma union_meet_points:
  assumes "union_ok u" and "union_ok v" and "union_meet u v = Some w"
  shows "union_ok w \<and> union_covered w = union_covered u \<inter> union_covered v"
proof -
  obtain parts where parts: "those (concat (map (\<lambda>lhs. map (\<lambda>rhs. box_intersect lhs rhs) v) u)) = Some parts"
    and w: "w = union_of parts" using assms(3) by (auto simp: union_meet_def res_simps)
  have "Some ` set parts = (\<Union>b \<in> set u. (\<lambda>c. box_intersect b c) ` set v)"
    using arg_cong [OF those_Some_map [OF parts], of set] by auto
  then have img: "x \<in> Some ` set parts \<longleftrightarrow> (\<exists>b \<in> set u. \<exists>c \<in> set v. x = box_intersect b c)" for x by auto
  have all: "\<exists>d \<in> set parts. box_intersect b c = Some d" if "b \<in> set u" "c \<in> set v" for b c
    using img [of "box_intersect b c"] that by auto
  have each: "\<exists>b \<in> set u. \<exists>c \<in> set v. box_intersect b c = Some d" if "d \<in> set parts" for d
    using img [of "Some d"] that by (metis imageI)
  have box: "box_ok d \<and> box_covered d = box_covered b \<inter> box_covered c"
    if "b \<in> set u" "c \<in> set v" "box_intersect b c = Some d" for b c d
    using box_intersect_points [OF _ _ that(3)] assms(1,2) that(1,2) by (simp add: list_all_iff)
  have "\<forall>d \<in> set parts. box_ok d" using each box by blast
  then have ok: "union_ok parts" by (simp only: list_all_iff)
  have "union_covered parts = union_covered u \<inter> union_covered v"
  proof (intro set_eqI iffI)
    fix t assume "t \<in> union_covered parts"
    then obtain d where d: "d \<in> set parts" "t \<in> box_covered d" by (auto simp: union_covered_def)
    obtain b c where "b \<in> set u" "c \<in> set v" "box_intersect b c = Some d" using each [OF d(1)] by blast
    moreover from this have "t \<in> box_covered b \<inter> box_covered c" using box d(2) by blast
    ultimately show "t \<in> union_covered u \<inter> union_covered v" by (auto simp: union_covered_def)
  next
    fix t assume "t \<in> union_covered u \<inter> union_covered v"
    then obtain b c where bc: "b \<in> set u" "c \<in> set v" "t \<in> box_covered b" "t \<in> box_covered c" by (auto simp: union_covered_def)
    obtain d where d: "d \<in> set parts" "box_intersect b c = Some d" using all [OF bc(1,2)] by blast
    have "t \<in> box_covered d" using box [OF bc(1,2) d(2)] bc(3,4) by blast
    with d(1) show "t \<in> union_covered parts" by (auto simp: union_covered_def)
  qed
  then show ?thesis using ok union_covered_union_of [OF union_ok_pg [OF ok]] by (simp add: w union_of_def union_ok_filter)
qed

lemma contains_set_points: "contains_set u v \<Longrightarrow> union_ok u \<Longrightarrow> union_ok v \<Longrightarrow> union_covered v \<subseteq> union_covered u"
  using contains_box_points by (fastforce simp: contains_set_def list_all_iff union_covered_def)

lemma box_within_points:
  assumes "list_all pg_ok b" and "length b = length exts"
  shows "box_within b exts \<longleftrightarrow> (\<forall>i < length b. \<forall>x \<in> covered (b ! i). 1 \<le> x \<and> x \<le> exts ! i)"
proof -
  have axis: "(pg_is_empty p \<or> pg_first p \<ge> 1 \<and> (case last_of p of Some l \<Rightarrow> l \<le> e | None \<Rightarrow> False)) \<longleftrightarrow>
      (\<forall>x \<in> covered p. 1 \<le> x \<and> x \<le> e)" if ok: "pg_ok p" for p e
  proof (cases "last_of p")
    case (Some l)
    have "pg_first p \<in> covered p" "l \<in> covered p" using pg_okD(5,6) [OF ok Some] by (auto simp: covered_def Some)
    then have "(\<forall>x \<in> covered p. 1 \<le> x \<and> x \<le> e) \<longleftrightarrow> 1 \<le> pg_first p \<and> l \<le> e"
      by (auto simp: covered_def Some)
    moreover have "\<not> pg_is_empty p" using Some by (simp flip: last_of_None)
    ultimately show ?thesis by (simp add: Some)
  qed (simp add: last_of_None covered_empty)
  show ?thesis using axis assms by (auto simp: box_within_def list_all_length)
qed

section \<open>The documented denotation\<close>

text \<open>Unless its count has wrapped, a progression consists of the run its accessors report.\<close>

lemma elements_covered:
  assumes ok: "pg_ok p" and count: "0 \<le> pg_count p"
  shows "elements p = covered p"
proof (cases "last_of p")
  case None
  then show ?thesis by (simp add: last_of_None covered_empty) (simp add: elements_def pg_is_empty_def)
next
  case (Some l)
  let ?n = "(l - pg_first p) div pg_step p"
  note o = pg_okD [OF ok] and n = run_length [OF ok Some]
  have c: "pg_count p = ?n + 1"
  proof (cases "?n + 1 \<le> i64_max")
    case True
    then show ?thesis using o(7) [OF Some] n(1) by (simp add: machine_int)
  next
    case False
    then have "pg_count p = ?n + 1 - 18446744073709551616"
      using o(7) [OF Some] wrap_i64_high [of "?n + 1"] n(2) by simp
    with n(2) count show ?thesis by linarith
  qed
  have l: "l = pg_first p + ?n * pg_step p" using o(6) [OF Some] by simp
  show ?thesis
  proof (intro set_eqI iffI)
    fix x assume "x \<in> elements p"
    then obtain k where k: "x = pg_first p + k * pg_step p" "0 \<le> k" "k \<le> ?n" by (auto simp: elements_def c)
    then have "k * pg_step p \<le> ?n * pg_step p" using o(1) by (intro mult_right_mono) auto
    then have "x \<le> l" using k(1) l by linarith
    then show "x \<in> covered p" using k o(1) by (simp add: covered_def Some)
  next
    fix x assume "x \<in> covered p"
    then have x: "pg_first p \<le> x" "x \<le> l" "pg_step p dvd (x - pg_first p)" by (simp_all add: covered_def Some)
    obtain k where k: "x - pg_first p = pg_step p * k" using x(3) by (rule dvdE)
    have "0 \<le> pg_step p * k" using x(1) k by linarith
    then have "0 \<le> k" using o(1) by (simp add: zero_le_mult_iff)
    have "k = (x - pg_first p) div pg_step p" using k o(1) by simp
    then have "k \<le> ?n" using x(2) o(1) by (simp add: zdiv_mono1)
    with \<open>0 \<le> k\<close> k show "x \<in> elements p"
      unfolding elements_def c by (intro CollectI exI [of _ k]) (simp add: mult.commute)
  qed
qed

lemma indexable_count:
  assumes "indexable p"
  shows "0 \<le> pg_count p"
proof (cases "last_of p")
  case None
  then show ?thesis by (simp add: last_of_None pg_is_empty_def)
next
  case (Some l)
  have ok: "pg_ok p" using assms by (simp add: indexable_def)
  note o = pg_okD [OF ok] and n = run_length [OF ok Some]
  have "(l - pg_first p) div pg_step p \<le> l - pg_first p" using run_div_bound o(1) o(5) [OF Some] by blast
  also have "\<dots> \<le> 9223372036854775806" using assms Some by (auto simp: indexable_def)
  finally show ?thesis using o(7) [OF Some] n(1) by (simp add: machine_int)
qed

lemma elements_single [simp]: "elements (single v) = {v}"
  by (auto simp: elements_def single_def intro!: exI [of _ 0])

lemma indexable_elements: "indexable p \<Longrightarrow> elements p = covered p"
  using elements_covered indexable_count by (simp add: indexable_def)

text \<open>The range with one element more than \<open>i64\<close> counts is the only one that is misread.\<close>

lemma range_elements:
  assumes "in_i64 lower" "in_i64 step" "in_i64 upper" and "progression_range lower step upper = Some p"
  shows "elements p = (if \<bar>upper - lower\<bar> div \<bar>step\<bar> < i64_max then range_set lower step upper else {})"
proof -
  let ?n = "\<bar>upper - lower\<bar> div \<bar>step\<bar>"
  note r = progression_range_set [OF assms]
  consider (none) "p = EMPTY" "range_set lower step upper = {}"
    | (fits) "pg_count p = wrap_i64 (?n + 1)" "?n < i64_max" | (wraps) "pg_count p = wrap_i64 (?n + 1)" "?n = i64_max"
    using r by linarith
  then show ?thesis
  proof cases
    case none
    then show ?thesis by (simp add: elements_def EMPTY_def)
  next
    case fits
    have "0 \<le> ?n" by (simp add: pos_imp_zdiv_nonneg_iff div_int_pos_iff)
    then have "0 \<le> pg_count p" using fits by (simp add: machine_int)
    then show ?thesis using elements_covered r fits(2) by simp
  next
    case wraps
    then have "pg_count p = wrap_i64 (i64_max + 1)" by simp
    then have "pg_count p < 0" by (simp add: machine_int wrap_i64_def)
    then show ?thesis using wraps(2) by (auto simp: elements_def)
  qed
qed

text \<open>An affine image has the count of its argument.\<close>

lemma affine_image_count:
  "affine_image p a b = Some q \<Longrightarrow> 0 \<le> pg_count p \<Longrightarrow> 0 \<le> pg_count q"
  by (auto simp: affine_image_def EMPTY_def single_def res_simps split: if_splits)

definition points :: "IndexBox \<Rightarrow> int list set" where
  "points b = {t. list_all2 (\<lambda>x p. x \<in> elements p) t b}"

definition upoints :: "IndexUnion \<Rightarrow> int list set" where
  "upoints u = (\<Union>b \<in> set u. points b)"

lemma box_ok_points: "box_ok b \<Longrightarrow> points b = box_covered b"
  by (auto simp: points_def box_covered_nth list_all2_conv_all_nth list_all_length indexable_elements)

lemma union_ok_upoints: "union_ok u \<Longrightarrow> upoints u = union_covered u"
  by (auto simp: upoints_def union_covered_def list_all_iff box_ok_points)

section \<open>Properties\<close>

text \<open>C20: Progressions are exact sets, read as \<open>first + k * step\<close> for \<open>0 \<le> k < count\<close>:
  \<open>range\<close> denotes the Modelica range, with the one exception of the ranges of
  \<open>2\<^sup>6\<^sup>3\<close> elements, whose count wraps to a negative number so that they denote nothing (the
  run from first to last that the accessors report is the Modelica range even then);
  \<open>affine_image\<close> the image of the affine map, \<open>intersect\<close> the intersection (Chinese
  remainder theorem) and \<open>difference\<close> the set difference, each keeping the invariant of the type,
  whenever they return a value (\<open>i64\<close> arguments; images, intersection and difference of
  progressions with elements below \<open>2\<^sup>6\<^sup>2\<close> in magnitude).\<close>

theorem progressions_exact:
  assumes i64: "in_i64 lower" "in_i64 step" "in_i64 upper" and p: "indexable p" and q: "indexable q"
  shows "(progression_range lower step upper = Some r \<longrightarrow> pg_ok r \<and> covered r = range_set lower step upper \<and>
      elements r = (if \<bar>upper - lower\<bar> div \<bar>step\<bar> < i64_max then range_set lower step upper else {})) \<and>
    (affine_image p a b = Some s \<longrightarrow> pg_ok s \<and> elements s = (\<lambda>v. a * v + b) ` elements p) \<and>
    (pg_intersect p q = Some c \<longrightarrow> indexable c \<and> elements c = elements p \<inter> elements q) \<and>
    (pg_difference p q = Some parts \<longrightarrow>
      (\<forall>part \<in> set parts. indexable part) \<and> (\<Union>part \<in> set parts. elements part) = elements p - elements q)"
proof -
  have ok: "pg_ok p" "pg_ok q" using p q by (simp_all add: indexable_def)
  note el = indexable_elements [OF p] indexable_elements [OF q]
  show ?thesis unfolding el
  proof (intro conjI [where P = "_ \<longrightarrow> _"] impI)
    show "pg_ok r \<and> covered r = range_set lower step upper \<and>
        elements r = (if \<bar>upper - lower\<bar> div \<bar>step\<bar> < i64_max then range_set lower step upper else {})"
      if r: "progression_range lower step upper = Some r"
      using progression_range_set [OF i64 r] range_elements [OF i64 r] by blast
    show "pg_ok s \<and> elements s = (\<lambda>v. a * v + b) ` covered p" if s: "affine_image p a b = Some s"
      using affine_image_set [OF ok(1) s] elements_covered [of s] affine_image_count [OF s indexable_count [OF p]] by simp
    show "indexable c \<and> elements c = covered p \<inter> covered q" if "pg_intersect p q = Some c"
      using indexable_intersect [OF p ok(2) that] indexable_elements [of c] by simp
    show "(\<forall>part \<in> set parts. indexable part) \<and> (\<Union>part \<in> set parts. elements part) = covered p - covered q"
      if "pg_difference p q = Some parts"
      using pg_difference_set [OF p ok(2) that] by (auto simp: indexable_elements)
  qed
qed

theorem progressions_exact_witness:
  "let p = \<lparr>pg_first = 2, pg_step = 3, pg_count = 5\<rparr>; q = \<lparr>pg_first = 1, pg_step = 2, pg_count = 9\<rparr> in
   pg_intersect p q = Some \<lparr>pg_first = 5, pg_step = 6, pg_count = 2\<rparr> \<and>
   elements \<lparr>pg_first = 5, pg_step = 6, pg_count = 2\<rparr> = elements p \<inter> elements q"
proof -
  let ?p = "\<lparr>pg_first = 2, pg_step = 3, pg_count = 5\<rparr>" and ?q = "\<lparr>pg_first = 1, pg_step = 2, pg_count = 9\<rparr>"
  have "indexable ?p" "indexable ?q"
    by (auto simp: indexable_def pg_ok_def last_of_def pg_is_empty_def wrap_i64_def machine_int)
  moreover have i: "pg_intersect ?p ?q = Some \<lparr>pg_first = 5, pg_step = 6, pg_count = 2\<rparr>" by code_simp
  moreover have "in_i64 1" by (simp add: machine_int)
  ultimately show ?thesis
    using progressions_exact [of 1 1 1 ?p ?q _ 1 1 _ "\<lparr>pg_first = 5, pg_step = 6, pg_count = 2\<rparr>"] by simp
qed

text \<open>C19: The operations on unions of boxes are exact on the sets they denote: difference, meet and
  extension return the set difference, intersection and union, a positive answer of
  \<open>contains_box\<close> or \<open>contains_set\<close> is a true inclusion, and the invariant is kept
  (boxes of elements below \<open>2\<^sup>6\<^sup>2\<close> in magnitude).\<close>

theorem unions_exact:
  assumes "union_ok u" and "union_ok v" and "box_ok b"
  shows "(union_difference u v = Some w \<longrightarrow> union_ok w \<and> upoints w = upoints u - upoints v) \<and>
    (union_meet u v = Some m \<longrightarrow> union_ok m \<and> upoints m = upoints u \<inter> upoints v) \<and>
    union_ok (union_extend u v) \<and> upoints (union_extend u v) = upoints u \<union> upoints v \<and>
    (contains_box u b \<longrightarrow> points b \<subseteq> upoints u) \<and> (contains_set u v \<longrightarrow> upoints v \<subseteq> upoints u)"
proof -
  note up = union_ok_upoints [OF assms(1)] union_ok_upoints [OF assms(2)] box_ok_points [OF assms(3)]
  show ?thesis unfolding up
    using union_difference_points [OF assms(1,2)] union_meet_points [OF assms(1,2)] union_extend_points [OF assms(1,2)]
      contains_box_points [OF _ assms(1,3)] contains_set_points [OF _ assms(1,2)] union_ok_upoints by metis
qed

theorem unions_exact_witness:
  "let u = [[\<lparr>pg_first = 1, pg_step = 1, pg_count = 4\<rparr>]]; v = [[\<lparr>pg_first = 2, pg_step = 2, pg_count = 2\<rparr>]];
       w = [[\<lparr>pg_first = 1, pg_step = 1, pg_count = 1\<rparr>], [\<lparr>pg_first = 3, pg_step = 2, pg_count = 1\<rparr>]] in
   union_difference u v = Some w \<and> upoints w = upoints u - upoints v"
proof -
  let ?u = "[[\<lparr>pg_first = 1, pg_step = 1, pg_count = 4\<rparr>]]" and ?v = "[[\<lparr>pg_first = 2, pg_step = 2, pg_count = 2\<rparr>]]"
    and ?w = "[[\<lparr>pg_first = 1, pg_step = 1, pg_count = 1\<rparr>], [\<lparr>pg_first = 3, pg_step = 2, pg_count = 1\<rparr>]]"
  have "union_ok ?u" "union_ok ?v" "box_ok []"
    by (auto simp: indexable_def pg_ok_def last_of_def pg_is_empty_def wrap_i64_def machine_int)
  moreover have "union_difference ?u ?v = Some ?w" by code_simp
  ultimately show ?thesis using unions_exact [of ?u ?v "[]" ?w] by simp
qed

end
