(* ===== verification/Index_Queries.thy ===== *)
theory Index_Queries
  imports Progression_Sets "HOL-Library.Multiset"
begin

text \<open>
  What the affine queries over index sets answer: \<open>solve_point\<close> the binder values at which
  given elements are named, \<open>image\<close> the elements named at some binder value. A query with
  an exact answer returns exactly that set, one with a declared superset contains it. The
  lemmas read answers as runs (\<open>covered\<close>), the properties as documented (\<open>elements\<close>).
\<close>

section \<open>Membership and offsets\<close>

lemma extended_gcd_one:
  assumes "0 < s" and "in_i64 s"
  shows "\<exists>x y. extended_gcd s 1 = (1, x, y)"
proof -
  obtain g x y where e: "extended_gcd s 1 = (g, x, y)" by (metis prod_cases3)
  then have "g = 1" using extended_gcd_spec [of s 1 g x y] assms by (simp add: machine_int)
  with e show ?thesis by blast
qed

lemma pg_contains_iff:
  assumes p: "indexable p" and x: "in_i64 x"
  shows "pg_contains p x \<longleftrightarrow> x \<in> covered p"
proof
  assume "pg_contains p x"
  then obtain c where c: "pg_intersect p (single x) = Some c" "\<not> pg_is_empty c"
    by (auto simp: pg_contains_def split: option.splits)
  then have "covered c = covered p \<inter> {x}" "pg_ok c"
    using indexable_intersect [OF p _ c(1)] x by (auto simp: indexable_def)
  then show "x \<in> covered p" using c(2) pg_is_empty_covered by auto
next
  assume "x \<in> covered p"
  then obtain l where l: "last_of p = Some l" and el: "pg_first p \<le> x" "x \<le> l" "pg_step p dvd (x - pg_first p)"
    by (auto simp: covered_def split: option.splits)
  have ok: "pg_ok p" using p by (simp add: indexable_def)
  note o = pg_okD [OF ok]
  obtain a b where g: "extended_gcd (pg_step p) 1 = (1, a, b)" using extended_gcd_one o(1,2) by blast
  have d: "in_i64 (x - pg_first p)" using p l el by (auto simp: indexable_def machine_int)
  have off: "(pg_first p - x) mod pg_step p = 0" using el(3) [folded dvd_diff_commute [of "pg_step p" "pg_first p" x]] by (simp only: dvd_eq_mod_eq_0)
  have unit: "s sdiv 1 = s" "s smod 1 = 0" for s :: int by (simp_all add: smod_dvd_iff sdiv_dvd)
  have "intersect_within p (single x) x x = Some \<lparr>pg_first = x, pg_step = pg_step p, pg_count = 1\<rparr>"
    using d x o(2) off by (simp add: intersect_within_def single_def g unit chk_i64_def Let_def) (simp add: wrap_i64_def signed_divide_int_def)
  then have "pg_intersect p (single x) = Some \<lparr>pg_first = x, pg_step = pg_step p, pg_count = 1\<rparr>"
    using x el by (simp add: pg_intersect_def l) (simp add: single_def max_def min_def)
  then show "pg_contains p x" by (simp add: pg_contains_def pg_is_empty_def)
qed

lemma offset_loop_set:
  "offset_loop v l step vs = Some result \<Longrightarrow> 0 < step \<Longrightarrow> set result = set vs \<union> {x. v \<le> x \<and> x \<le> l \<and> step dvd (x - v)}"
proof (induction v l step vs rule: offset_loop.induct)
  case (1 v l step vs)
  show ?case
  proof (cases "v \<le> l")
    case False
    then show ?thesis using 1(2) by (auto simp: offset_loop.simps [of v])
  next
    case True
    then have small: "\<not> length (vs @ [v]) > OFFSET_LIMIT" and next_v: "chk_i64 (v + step) = Some (v + step)"
      and rest: "offset_loop (v + step) l step (vs @ [v]) = Some result"
      using 1(2) by (auto simp: offset_loop.simps [of v] Let_def res_simps split: if_splits)
    have "set result = set (vs @ [v]) \<union> {x. v + step \<le> x \<and> x \<le> l \<and> step dvd (x - (v + step))}"
      by (rule 1(1) [OF True refl small next_v rest 1(3)])
    also have "{x. v + step \<le> x \<and> x \<le> l \<and> step dvd (x - (v + step))} = {x. v < x \<and> x \<le> l \<and> step dvd (x - v)}"
    proof (rule Collect_cong)
      fix x
      have c: "step dvd (x - (v + step)) \<longleftrightarrow> step dvd (x - v)" by (rule dvd_shift) simp
      have "v + step \<le> x \<longleftrightarrow> v < x" if "step dvd (x - v)"
        using zdvd_imp_le [OF that] 1(3) by linarith
      then show "(v + step \<le> x \<and> x \<le> l \<and> step dvd (x - (v + step))) \<longleftrightarrow> (v < x \<and> x \<le> l \<and> step dvd (x - v))"
        unfolding c by blast
    qed
    finally have result: "set result = set (vs @ [v]) \<union> {x. v < x \<and> x \<le> l \<and> step dvd (x - v)}" .
    have "{x. v \<le> x \<and> x \<le> l \<and> step dvd (x - v)} = insert v {x. v < x \<and> x \<le> l \<and> step dvd (x - v)}"
      using True by (force simp: order_le_less)
    with result show ?thesis by simp
  qed
qed

lemma offsets_of_set:
  assumes "list_all pg_ok parts" and "offsets_of parts = Some values"
  shows "set values = (\<Union>part \<in> set parts. covered part)"
proof -
  have "try_fold (\<lambda>values part. case (first_of part, last_of part) of
         (Some f, Some l) \<Rightarrow> offset_loop f l (pg_step part) values
       | _ \<Rightarrow> Some values) acc parts = Some values \<Longrightarrow> set values = set acc \<union> (\<Union>part \<in> set parts. covered part)"
    if "list_all pg_ok parts" for acc
    using that
  proof (induction parts arbitrary: acc)
    case (Cons part parts)
    show ?case
    proof (cases "last_of part")
      case None
      then show ?thesis using Cons covered_empty [of part] by (simp add: last_of_None first_of_def)
    next
      case (Some l)
      then have f: "first_of part = Some (pg_first part)" by (simp add: first_of_Some flip: last_of_None)
      then obtain acc' where acc': "offset_loop (pg_first part) l (pg_step part) acc = Some acc'"
        and rest: "try_fold (\<lambda>values part. case (first_of part, last_of part) of
             (Some f, Some l) \<Rightarrow> offset_loop f l (pg_step part) values
           | _ \<Rightarrow> Some values) acc' parts = Some values"
        using Cons.prems(1) Some by (auto split: option.splits)
      have "set acc' = set acc \<union> covered part"
        using offset_loop_set [OF acc'] Cons.prems(2) Some by (simp add: covered_def pg_ok_def)
      then show ?thesis using Cons.IH [OF rest] Cons.prems(2) by auto
    qed
  qed simp
  from this [OF assms(1), of "[]"] assms(2) show ?thesis by (simp add: offsets_of_def)
qed

section \<open>Axes\<close>

definition axis_offsets :: "IndexAxis \<Rightarrow> int set" where
  "axis_offsets axis = (\<Union>p \<in> set (offsets axis). elements p)"

text \<open>The axis names the element \<open>v\<close> at the binder values \<open>p\<close>.\<close>

definition names :: "int list \<Rightarrow> IndexAxis \<Rightarrow> int \<Rightarrow> bool" where
  "names p axis v \<longleftrightarrow> (\<exists>d \<in> axis_offsets axis. v = affine_eval (form axis) p + d)"

definition axis_ok :: "IndexAxis \<Rightarrow> bool" where
  "axis_ok axis \<longleftrightarrow> list_all indexable (offsets axis) \<and>
     - 2305843009213693952 \<le> af_constant (form axis) \<and> af_constant (form axis) \<le> 2305843009213693952"

lemma axis_offsets_covered: "axis_ok axis \<Longrightarrow> axis_offsets axis = (\<Union>p \<in> set (offsets axis). covered p)"
  by (auto simp: axis_offsets_def axis_ok_def list_all_iff indexable_elements)

lemma set_axis_binders: "set (axis_binders axis) = {b. b < length (coeffs (form axis)) \<and> coeffs (form axis) ! b \<noteq> 0}"
  by (auto simp: axis_binders_def)

lemma distinct_axis_binders: "distinct (axis_binders axis)"
  by (simp add: axis_binders_def)

lemma dot_sum: "dot as xs = (\<Sum>b < min (length as) (length xs). as ! b * xs ! b)"
  unfolding dot_def by (simp add: sum_list_sum_nth atLeast0LessThan)

lemma axis_dot:
  assumes "\<forall>b \<in> set (axis_binders axis). b < length p"
  shows "dot (coeffs (form axis)) p = (\<Sum>b \<in> set (axis_binders axis). coeffs (form axis) ! b * p ! b)"
  unfolding dot_sum using assms by (intro sum.mono_neutral_right) (auto simp: set_axis_binders)

lemma affine_eval_none: "axis_binders axis = [] \<Longrightarrow> affine_eval (form axis) p = af_constant (form axis)"
  using axis_dot [of axis p] by (simp add: affine_eval_def)

lemma affine_eval_one:
  "axis_binders axis = [b] \<Longrightarrow> b < length p \<Longrightarrow> affine_eval (form axis) p = af_constant (form axis) + coeffs (form axis) ! b * p ! b"
  using axis_dot [of axis p] by (simp add: affine_eval_def)

section \<open>Products of unions of progressions\<close>

definition pieces :: "Progression list \<Rightarrow> int set" where
  "pieces ps = (\<Union>p \<in> set ps. covered p)"

definition product_points :: "Progression list list \<Rightarrow> int list set" where
  "product_points pss = {t. list_all2 (\<lambda>x ps. x \<in> pieces ps) t pss}"

lemma box_product_snoc:
  "box_product (pss @ [ps]) = concat (map (\<lambda>prefix. map (\<lambda>part. prefix @ [part]) ps) (box_product pss))"
  by (simp add: box_product_def)

lemma list_all2_snoc2: "list_all2 P t (b @ [p]) \<longleftrightarrow> (\<exists>u x. t = u @ [x] \<and> list_all2 P u b \<and> P x p)"
proof
  assume "list_all2 P t (b @ [p])"
  then show "\<exists>u x. t = u @ [x] \<and> list_all2 P u b \<and> P x p"
    by (auto simp: list_all2_append2 list_all2_Cons2)
qed (auto intro: list_all2_appendI)

lemma box_covered_snoc: "box_covered (b @ [p]) = {t @ [x] | t x. t \<in> box_covered b \<and> x \<in> covered p}"
  by (auto simp: box_covered_def list_all2_snoc2)

lemma product_points_snoc: "product_points (pss @ [ps]) = {t @ [x] | t x. t \<in> product_points pss \<and> x \<in> pieces ps}"
  by (auto simp: product_points_def list_all2_snoc2)

lemma union_covered_box_product: "union_covered (box_product pss) = product_points pss"
proof (induction pss rule: rev_induct)
  case Nil
  then show ?case by (simp add: box_product_def product_points_def box_covered_def)
next
  case (snoc ps pss)
  have "union_covered (box_product (pss @ [ps])) = {t @ [x] | t x. t \<in> union_covered (box_product pss) \<and> x \<in> pieces ps}"
    by (auto simp: union_covered_def box_product_snoc box_covered_snoc pieces_def)
  then show ?case by (simp add: snoc product_points_snoc)
qed

lemma box_product_all: "list_all (list_all P) pss \<Longrightarrow> list_all (list_all P) (box_product pss)"
  by (induction pss rule: rev_induct) (auto simp: box_product_snoc list_all_iff, simp add: box_product_def)

lemma product_nth: "t \<in> product_points pss \<longleftrightarrow> length t = length pss \<and> (\<forall>i < length pss. t ! i \<in> pieces (pss ! i))"
  by (auto simp: product_points_def list_all2_conv_all_nth)

lemma union_covered_answer: "list_all (list_all pg_ok) pss \<Longrightarrow> union_covered (union_of (box_product pss)) = product_points pss"
  using union_covered_union_of [of "box_product pss"] box_product_all [of pg_ok pss] union_covered_box_product by simp

section \<open>Point solutions\<close>

lemma quotients_set:
  assumes scale: "scale \<noteq> 0" and i64: "\<forall>d \<in> set offs. in_i64 (target - d)" and q: "quotients target scale offs = Some vs"
  shows "set vs = {v. \<exists>d \<in> set offs. target - d = scale * v}" "\<forall>v \<in> set vs. in_i64 v"
proof -
  have nums: "List.map_filter (\<lambda>d. chk_i64 (target - d)) offs = map (\<lambda>d. target - d) offs"
    using i64 by (induction offs) (simp_all add: List.map_filter_simps chk_i64_def)
  have vs: "vs = map (\<lambda>n. n sdiv scale) (filter (\<lambda>n. n smod scale = 0) (map (\<lambda>d. target - d) offs))"
    and no_panic: "scale = -1 \<Longrightarrow> i64_min \<notin> (\<lambda>d. target - d) ` set offs"
    using q unfolding quotients_def nums Let_def by (auto split: if_splits)
  have quot: "n smod scale = 0 \<and> n sdiv scale = v \<longleftrightarrow> n = scale * v" for n v
    using sdiv_dvd [of scale n] scale by (auto simp: smod_dvd_iff)
  show set_vs: "set vs = {v. \<exists>d \<in> set offs. target - d = scale * v}"
  proof (rule set_eqI)
    fix v
    have "v \<in> set vs \<longleftrightarrow> (\<exists>d \<in> set offs. (target - d) smod scale = 0 \<and> (target - d) sdiv scale = v)"
      unfolding vs by auto
    then show "v \<in> set vs \<longleftrightarrow> v \<in> {v. \<exists>d \<in> set offs. target - d = scale * v}" unfolding quot by simp
  qed
  show "\<forall>v \<in> set vs. in_i64 v"
  proof
    fix v assume "v \<in> set vs"
    then obtain d where d: "d \<in> set offs" "target - d = scale * v" using set_vs by auto
    have n: "in_i64 (scale * v)" using i64 d by metis
    show "in_i64 v"
    proof (cases "scale = -1")
      case True
      have "target - d \<noteq> i64_min" using no_panic [OF True] d(1) by (metis imageI)
      then show ?thesis using n d(2) True by (simp add: machine_int)
    next
      case False
      show ?thesis
      proof (cases "scale = 1")
        case False
        then have "2 \<le> \<bar>scale\<bar>" using scale \<open>scale \<noteq> -1\<close> by auto
        then have "2 * \<bar>v\<bar> \<le> \<bar>scale * v\<bar>" unfolding abs_mult by (intro mult_right_mono) auto
        moreover have "\<bar>scale * v\<bar> \<le> 9223372036854775808" using n by (simp add: machine_int abs_le_iff)
        ultimately have "\<bar>v\<bar> \<le> 4611686018427387904" by linarith
        then show ?thesis by (simp add: machine_int abs_le_iff)
      qed (use n in simp)
    qed
  qed
qed

abbreviation small_index :: "int \<Rightarrow> bool" where
  "small_index v \<equiv> - 2305843009213693952 \<le> v \<and> v \<le> 2305843009213693952"

lemma axis_offsets_bound: "axis_ok axis \<Longrightarrow> d \<in> axis_offsets axis \<Longrightarrow> - 4611686018427387903 \<le> d \<and> d < 4611686018427387904"
  unfolding axis_offsets_covered by (force simp: axis_ok_def list_all_iff indexable_def covered_def split: option.splits)

text \<open>An axis that reads no binder: its target is one of the offsets.\<close>

lemma constant_axis:
  assumes "axis_ok axis" and "small_index v" and "axis_binders axis = []"
  shows "list_ex (\<lambda>offs. pg_contains offs (v - af_constant (form axis))) (offsets axis) \<longleftrightarrow> names p axis v"
proof -
  have "in_i64 (v - af_constant (form axis))" using assms by (simp add: axis_ok_def machine_int)
  then have "list_ex (\<lambda>offs. pg_contains offs (v - af_constant (form axis))) (offsets axis) \<longleftrightarrow>
      v - af_constant (form axis) \<in> axis_offsets axis"
    unfolding axis_offsets_covered [OF assms(1)]
    using assms(1) by (auto simp: list_ex_iff axis_ok_def list_all_iff pg_contains_iff)
  also have "\<dots> \<longleftrightarrow> names p axis v" using affine_eval_none [OF assms(3)] by (force simp: names_def)
  finally show ?thesis .
qed

text \<open>An axis that reads one binder: the values of the binder that reach the element.\<close>

lemma one_binder_axis:
  assumes ok: "axis_ok axis" and v: "small_index v" and ax: "axis_binders axis = [b]" and b: "b < length p"
    and offs: "offsets_of (offsets axis) = Some offs"
    and q: "quotients (v - af_constant (form axis)) (coeffs (form axis) ! b) offs = Some vs"
  shows "p ! b \<in> set vs \<longleftrightarrow> names p axis v" "\<forall>x \<in> set vs. in_i64 x"
proof -
  have so: "set offs = axis_offsets axis"
    using offsets_of_set [OF _ offs] ok unfolding axis_offsets_covered [OF ok]
    by (auto simp: axis_ok_def list_all_iff indexable_def)
  have i64: "\<forall>d \<in> set offs. in_i64 (v - af_constant (form axis) - d)"
    using axis_offsets_bound [OF ok] v ok unfolding so by (fastforce simp: axis_ok_def machine_int)
  have "coeffs (form axis) ! b \<noteq> 0" using set_axis_binders [of axis] ax by auto
  note qs = quotients_set [OF this i64 q]
  show "\<forall>x \<in> set vs. in_i64 x" by (rule qs)
  show "p ! b \<in> set vs \<longleftrightarrow> names p axis v"
    unfolding qs(1) names_def so affine_eval_one [OF ax b] by (auto simp: algebra_simps)
qed

definition solutions :: "(IndexAxis \<times> int) list \<Rightarrow> Progression list list \<Rightarrow> int list set" where
  "solutions rest pss = {p \<in> product_points pss. \<forall>(axis, v) \<in> set rest. names p axis v}"

text \<open>What an answer says of the set asked for.\<close>

definition answers :: "SetAnswer \<Rightarrow> int list set \<Rightarrow> bool" where
  "answers a s = (case a of Exact u \<Rightarrow> union_covered u = s | Superset u \<Rightarrow> s \<subseteq> union_covered u)"

definition answer_union :: "SetAnswer \<Rightarrow> IndexUnion" where
  "answer_union a = (case a of Exact u \<Rightarrow> u | Superset u \<Rightarrow> u)"

lemma answer_union_simps [simp]: "answer_union (Exact u) = u" "answer_union (Superset u) = u"
  by (simp_all add: answer_union_def)

lemma union_of_product_ok: "list_all (list_all indexable) pss \<Longrightarrow> union_ok (union_of (box_product pss))"
  unfolding union_of_def by (intro union_ok_filter box_product_all)

lemma reached_points:
  assumes ok: "list_all (list_all indexable) pss" and b: "b < length pss" and i64: "\<forall>x \<in> set vs. in_i64 x"
    and r: "reached = map single (filter (\<lambda>x. list_ex (\<lambda>p. pg_contains p x) (pss ! b)) vs)"
  shows "list_all indexable reached" "pieces reached = pieces (pss ! b) \<inter> set vs"
    "product_points (pss[b := reached]) = {p \<in> product_points pss. p ! b \<in> set vs}"
proof -
  have okb: "\<forall>p \<in> set (pss ! b). indexable p" using ok nth_mem [OF b] unfolding list_all_iff by blast
  have mem: "x \<in> set vs \<Longrightarrow> list_ex (\<lambda>p. pg_contains p x) (pss ! b) \<longleftrightarrow> x \<in> pieces (pss ! b)" for x
    using okb i64 by (auto simp: list_ex_iff pieces_def pg_contains_iff)
  have bound: "- 4611686018427387903 \<le> x \<and> x < 4611686018427387904" if "x \<in> pieces (pss ! b)" for x
    using that okb by (fastforce simp: pieces_def indexable_def covered_def split: option.splits)
  show "list_all indexable reached"
    using mem i64 bound by (auto simp: r list_all_iff indexable_def) (auto simp: single_def)
  show pieces: "pieces reached = pieces (pss ! b) \<inter> set vs"
    using mem i64 by (auto simp: r pieces_def)
  show "product_points (pss[b := reached]) = {p \<in> product_points pss. p ! b \<in> set vs}"
  proof (rule set_eqI)
    fix p
    have "p \<in> product_points (pss[b := reached]) \<longleftrightarrow>
        length p = length pss \<and> p ! b \<in> pieces reached \<and> (\<forall>i < length pss. i \<noteq> b \<longrightarrow> p ! i \<in> pieces (pss ! i))"
      using b by (auto simp: product_nth nth_list_update)
    then show "p \<in> product_points (pss[b := reached]) \<longleftrightarrow> p \<in> {p \<in> product_points pss. p ! b \<in> set vs}"
      unfolding pieces mem_Collect_eq product_nth using b by blast
  qed
qed

lemma solve_loop_answer:
  assumes "solve_loop rest pss ex = Some ans" and "list_all (list_all indexable) pss"
    and "\<forall>(axis, v) \<in> set rest. axis_ok axis \<and> small_index v \<and> length (coeffs (form axis)) \<le> length pss"
  shows "answers ans (solutions rest pss) \<and> (\<forall>u. ans = Exact u \<longrightarrow> ex \<or> u = []) \<and>
    (ex \<longrightarrow> (\<forall>(axis, v) \<in> set rest. length (axis_binders axis) \<le> 1) \<longrightarrow> (\<exists>u. ans = Exact u)) \<and> union_ok (answer_union ans)"
  using assms
proof (induction rest arbitrary: pss ex)
  case Nil
  have "list_all (list_all pg_ok) pss" using Nil.prems(2) by (auto simp: list_all_iff indexable_def)
  from union_covered_answer [OF this] union_of_product_ok [OF Nil.prems(2)] Nil.prems(1) show ?case
    by (auto simp: answers_def solutions_def Let_def split: if_splits)
next
  case (Cons c rest)
  obtain axis v where c: "c = (axis, v)" by (cases c)
  have ok: "axis_ok axis" "small_index v" "length (coeffs (form axis)) \<le> length pss" using Cons.prems(3) by (auto simp: c)
  have rest: "\<forall>(axis, v) \<in> set rest. axis_ok axis \<and> small_index v \<and> length (coeffs (form axis)) \<le> length pss"
    using Cons.prems(3) by auto
  have sols: "solutions (c # rest) pss = {p \<in> solutions rest pss. names p axis v}" by (auto simp: solutions_def c)
  consider "axis_binders axis = []" | b where "axis_binders axis = [b]" | b b' bs where "axis_binders axis = b # b' # bs"
    by (metis list.exhaust)
  then show ?case
  proof cases
    case 1
    show ?thesis
    proof (cases "list_ex (\<lambda>offs. pg_contains offs (v - af_constant (form axis))) (offsets axis)")
      case True
      then have all: "names p axis v" for p using constant_axis [OF ok(1,2) 1] by simp
      have "solve_loop rest pss ex = Some ans" using Cons.prems(1) 1 True by (simp add: c res_simps)
      from Cons.IH [OF this Cons.prems(2) rest] show ?thesis unfolding sols using all 1 by (simp add: c)
    next
      case False
      then have none: "\<not> names p axis v" for p using constant_axis [OF ok(1,2) 1] by simp
      have "ans = Exact []" using Cons.prems(1) 1 False by (simp add: c res_simps)
      then show ?thesis unfolding sols using none by (simp add: answers_def)
    qed
  next
    case 2
    have "b \<in> set (axis_binders axis)" by (simp add: 2)
    then have b: "b < length pss" using ok(3) unfolding set_axis_binders by simp
    obtain offs vs where offs: "offsets_of (offsets axis) = Some offs"
      and q: "quotients (v - af_constant (form axis)) (coeffs (form axis) ! b) offs = Some vs"
      using Cons.prems(1) 2 by (auto simp: c res_simps)
    define reached where "reached = map single (filter (\<lambda>x. list_ex (\<lambda>p. pg_contains p x) (pss ! b)) vs)"
    have len: "length p = length pss" if "p \<in> product_points pss" for p using that by (simp add: product_nth)
    have name: "p ! b \<in> set vs \<longleftrightarrow> names p axis v" if p: "p \<in> product_points pss" for p
      by (rule one_binder_axis(1) [OF ok(1,2) 2 _ offs q]) (simp add: len [OF p] b)
    have "\<forall>x \<in> set vs. in_i64 x"
      by (rule one_binder_axis(2) [OF ok(1,2) 2 _ offs q, of "replicate (Suc b) 0"]) simp
    note rp = reached_points [OF Cons.prems(2) b this reached_def]
    have sol: "solutions rest (pss[b := reached]) = {p \<in> solutions rest pss. names p axis v}"
      unfolding solutions_def rp(3) using name by auto
    show ?thesis
    proof (cases "reached = []")
      case True
      then have "pss[b := reached] ! b = []" using b by simp
      then have "product_points (pss[b := reached]) = {}"
        using b unfolding product_points_def list_all2_conv_all_nth by (fastforce simp: pieces_def)
      then have "{p \<in> solutions rest pss. names p axis v} = {}" unfolding sol [symmetric] by (simp add: solutions_def)
      moreover have "ans = Exact []" using Cons.prems(1) 2 offs q True by (simp add: c res_simps Let_def reached_def)
      ultimately show ?thesis unfolding sols by (simp add: answers_def)
    next
      case False
      have run: "solve_loop rest (pss[b := reached]) ex = Some ans"
        using Cons.prems(1) 2 offs q False by (auto simp: c res_simps Let_def reached_def)
      have ok': "list_all (list_all indexable) (pss[b := reached])"
        using Cons.prems(2) rp(1) b by (auto simp: list_all_length nth_list_update)
      from Cons.IH [OF run ok'] rest show ?thesis unfolding sols sol by (simp add: c 2)
    qed
  next
    case 3
    have "solve_loop rest pss False = Some ans" using Cons.prems(1) 3 by (simp add: c)
    from Cons.IH [OF this Cons.prems(2) rest] show ?thesis unfolding sols
      by (cases ans) (auto simp: answers_def c 3)
  qed
qed

lemma product_points_singletons: "product_points (map (\<lambda>p. [p]) b) = box_covered b"
  by (auto simp: product_nth box_covered_nth pieces_def)

lemma solve_point_answer:
  assumes region: "box_ok region" and axes: "list_all axis_ok axes" and index: "list_all small_index index_values"
    and r: "solve_point axes region index_values = Some ans"
  shows "answers ans {p \<in> box_covered region. list_all2 (names p) axes index_values}"
    "list_all (\<lambda>axis. length (axis_binders axis) \<le> 1) axes \<Longrightarrow> \<exists>u. ans = Exact u"
    "union_ok (answer_union ans)"
proof -
  have len: "length axes = length index_values" and cs: "\<forall>axis \<in> set axes. length (coeffs (form axis)) \<le> length region"
    and loop: "solve_loop (zip axes index_values) (map (\<lambda>p. [p]) region) True = Some ans"
    using r by (auto simp: solve_point_def list_ex_iff split: if_splits)
  have "\<forall>(axis, v) \<in> set (zip axes index_values). axis_ok axis \<and> small_index v \<and> length (coeffs (form axis)) \<le> length (map (\<lambda>p. [p]) region)"
    using axes index cs by (fastforce simp: list_all_iff dest: set_zip_leftD set_zip_rightD)
  moreover have "list_all (list_all indexable) (map (\<lambda>p. [p]) region)" using region by (simp add: list_all_iff)
  ultimately have a: "answers ans (solutions (zip axes index_values) (map (\<lambda>p. [p]) region))"
    and e: "(\<forall>(axis, v) \<in> set (zip axes index_values). length (axis_binders axis) \<le> 1) \<longrightarrow> (\<exists>u. ans = Exact u)"
    and "union_ok (answer_union ans)"
    using solve_loop_answer [OF loop] by blast+
  have "solutions (zip axes index_values) (map (\<lambda>p. [p]) region) = {p \<in> box_covered region. list_all2 (names p) axes index_values}"
    unfolding solutions_def product_points_singletons by (auto simp: list_all2_iff len)
  with a show "answers ans {p \<in> box_covered region. list_all2 (names p) axes index_values}" by simp
  show "\<exists>u. ans = Exact u" if "list_all (\<lambda>axis. length (axis_binders axis) \<le> 1) axes"
    using e that by (auto simp: list_all_iff dest!: set_zip_leftD)
  show "union_ok (answer_union ans)" by fact
qed

section \<open>Sums of progressions\<close>

definition sums :: "int set \<Rightarrow> int set \<Rightarrow> int set" where
  "sums a b = {x + y | x y. x \<in> a \<and> y \<in> b}"

lemma sums_single: "sums a {c} = (\<lambda>v. 1 * v + c) ` a" "sums {c} a = (\<lambda>v. 1 * v + c) ` a"
  by (auto simp: sums_def)

lemma shift_image: "(\<lambda>v. 1 * v + c) ` a = {x. x - c \<in> (a :: int set)}"
  by force

lemma sums_empty [simp]: "sums {} b = {}" "sums a {} = {}"
  by (auto simp: sums_def)

lemma sums_assoc: "sums (sums a b) c = sums a (sums b c)"
  by (auto simp: sums_def) (metis add.assoc)+

lemma sums_commute: "sums a b = sums b a"
  by (auto simp: sums_def) (metis add.commute)+

text \<open>Blocks of \<open>n\<close> elements of step \<open>s\<close> tile the gaps of a progression of step \<open>s * n\<close>.\<close>

lemma tiled_runs:
  fixes s n :: int
  assumes s: "0 < s" and n: "1 \<le> n" and gap: "t = s * n" and dvd: "t dvd (bl - bf)" and le: "bf \<le> bl"
    and l: "l = f + s * (n - 1)"
  shows "sums {x. bf \<le> x \<and> x \<le> bl \<and> t dvd (x - bf)} {x. f \<le> x \<and> x \<le> l \<and> s dvd (x - f)} =
    {x. bf + f \<le> x \<and> x \<le> bl + l \<and> s dvd (x - (bf + f))}" (is "?L = ?R")
proof (intro set_eqI iffI)
  fix x assume "x \<in> ?L"
  then obtain b d where x: "x = b + d" "bf \<le> b" "b \<le> bl" "t dvd (b - bf)" "f \<le> d" "d \<le> l" "s dvd (d - f)"
    by (auto simp: sums_def)
  have "s dvd (b - bf)" using x(4) gap by (metis dvd_mult_left)
  then have "s dvd ((b - bf) + (d - f))" using x(7) by (rule dvd_add)
  then show "x \<in> ?R" using x by (simp add: algebra_simps)
next
  fix x assume x: "x \<in> ?R"
  then obtain k where k: "x - (bf + f) = s * k" by auto
  define i where "i = k div n"
  define j where "j = k mod n"
  have kij: "k = n * i + j" by (simp add: i_def j_def)
  have j: "0 \<le> j" "j \<le> n - 1" using n by (auto simp: j_def pos_mod_bound zle_diff1_eq)
  obtain m where m: "bl - bf = t * m" using dvd by (rule dvdE)
  have "0 \<le> s * k" using x k by auto
  then have "0 \<le> k" using s by (simp add: zero_le_mult_iff)
  then have i0: "0 \<le> i" using n by (simp add: i_def pos_imp_zdiv_nonneg_iff)
  have "s * k \<le> s * (n * m + (n - 1))" using x k m l gap by (simp add: algebra_simps)
  then have "k \<le> n * m + (n - 1)" using s by simp
  then have "n * i < n * (m + 1)" using kij j(1) by (simp add: algebra_simps)
  then have "i \<le> m" using n by simp
  moreover have t0: "0 \<le> t" using gap s n by simp
  ultimately have "t * i \<le> t * m" by (rule mult_left_mono)
  then have "bf + t * i \<le> bl" using m by simp
  moreover have "f + s * j \<le> l" using j(2) s l by simp
  moreover have "x = (bf + t * i) + (f + s * j)" using k kij gap by (simp add: algebra_simps)
  moreover have "0 \<le> t * i" using t0 i0 by simp
  moreover have "0 \<le> s * j" using s j by simp
  ultimately show "x \<in> ?L" unfolding sums_def
    by (intro CollectI exI [of _ "bf + t * i"] exI [of _ "f + s * j"]) simp
qed

lemma count_positive:
  assumes "pg_ok p" and "last_of p = Some l" and "0 < pg_count p"
  shows "pg_count p = (l - pg_first p) div pg_step p + 1" "l = pg_first p + pg_step p * (pg_count p - 1)"
proof -
  note n = run_length [OF assms(1,2)]
  show c: "pg_count p = (l - pg_first p) div pg_step p + 1"
  proof (cases "(l - pg_first p) div pg_step p + 1 \<le> i64_max")
    case True
    then show ?thesis using pg_okD(7) [OF assms(1,2)] n(1) by (simp add: machine_int)
  next
    case False
    then have "pg_count p = (l - pg_first p) div pg_step p + 1 - 18446744073709551616"
      using pg_okD(7) [OF assms(1,2)] n wrap_i64_high by simp
    with n assms(3) show ?thesis by simp
  qed
  show "l = pg_first p + pg_step p * (pg_count p - 1)"
    using pg_okD(6) [OF assms(1,2)] by (simp add: c)
qed

lemma range_one: "0 < s \<Longrightarrow> range_set a s b = {x. a \<le> x \<and> x \<le> b \<and> s dvd (x - a)}"
  by (auto simp: range_set_def)

lemma shifted_images_set:
  assumes base: "pg_ok base" and offs: "indexable offs" and r: "shifted_images base offs = Some parts"
  shows "list_all pg_ok parts \<and> pieces parts = sums (covered base) (covered offs)"
proof (cases "last_of base = None \<or> last_of offs = None")
  case True
  then have "parts = [EMPTY]" using r by (auto simp: shifted_images_def last_of_None first_of_def split: option.splits)
  with True show ?thesis by (auto simp: pieces_def last_of_None covered_empty)
next
  case False
  then obtain bl l where L: "last_of base = Some bl" "last_of offs = Some l" by auto
  let ?bf = "pg_first base" and ?f = "pg_first offs" and ?s = "pg_step offs"
  have F: "first_of base = Some ?bf" "first_of offs = Some ?f" using L by (simp_all add: first_of_Some flip: last_of_None)
  have okf: "pg_ok offs" using offs by (simp add: indexable_def)
  note b = pg_okD [OF base] and o' = pg_okD [OF okf]
  have elb: "covered base = {x. ?bf \<le> x \<and> x \<le> bl \<and> pg_step base dvd (x - ?bf)}"
    and elf: "covered offs = {x. ?f \<le> x \<and> x \<le> l \<and> ?s dvd (x - ?f)}" by (simp_all add: covered_def L)
  show ?thesis
  proof (cases "?f = l")
    case True
    then obtain q where q: "affine_image base 1 ?f = Some q" "parts = [q]"
      using r by (auto simp: shifted_images_def F L res_simps)
    have "covered offs = {?f}" unfolding elf True [symmetric] by auto
    then show ?thesis using affine_image_set [OF base q(1)] by (simp add: q(2) pieces_def sums_single)
  next
    case ne: False
    define count where "count = (l - ?f) div ?s + 1"
    have span: "in_i64 (l - ?f)" "0 \<le> l - ?f" using offs L o'(5) [OF L(2)] by (auto simp: indexable_def machine_int)
    have cb: "0 \<le> (l - ?f) div ?s" "(l - ?f) div ?s \<le> l - ?f"
      using span o'(1) run_div_bound by (auto simp: pos_imp_zdiv_nonneg_iff)
    have "l - ?f \<le> 9223372036854775806" using offs L by (auto simp: indexable_def)
    then have wrap: "wrap_i64 (wrap_i64 (l - ?f) sdiv ?s + 1) = count"
      using span o'(1) cb by (simp add: sdiv_nonneg count_def machine_int)
    obtain tiles where tiles: "tiles \<longleftrightarrow> ?bf = bl \<or> ?s * count = pg_step base"
      and run: "(if tiles then do {
               lower \<leftarrow> chk_i64 (?bf + ?f);
               upper \<leftarrow> chk_i64 (bl + l);
               tiled \<leftarrow> progression_range lower ?s upper;
               Some [tiled]
             } else do {
               values \<leftarrow> offsets_of [offs];
               those (map (\<lambda>offset. affine_image base 1 offset) values)
             }) = Some parts"
      using r ne by (auto simp: shifted_images_def F L Let_def wrap res_simps split: if_splits)
    show ?thesis
    proof (cases tiles)
      case True
      then obtain p where i64: "in_i64 (?bf + ?f)" "in_i64 (bl + l)" and p: "progression_range (?bf + ?f) ?s (bl + l) = Some p"
        and parts: "parts = [p]" using run by (auto simp: res_simps)
      have "covered p = {x. ?bf + ?f \<le> x \<and> x \<le> bl + l \<and> ?s dvd (x - (?bf + ?f))}" "pg_ok p"
        using progression_range_set [OF i64(1) o'(2) i64(2) p] range_one [OF o'(1)] by auto
      moreover have "sums (covered base) (covered offs) = {x. ?bf + ?f \<le> x \<and> x \<le> bl + l \<and> ?s dvd (x - (?bf + ?f))}"
      proof (cases "?bf = bl")
        case True
        have "covered base = {bl}" unfolding elb True by auto
        moreover have "x - bl - ?f = x - (bl + ?f)" "?f \<le> x - bl \<longleftrightarrow> bl + ?f \<le> x" "x - bl \<le> l \<longleftrightarrow> x \<le> bl + l" for x
          by linarith+
        ultimately show ?thesis unfolding True by (simp only: elf sums_single shift_image mem_Collect_eq)
      next
        case False
        then have gap: "pg_step base = ?s * count" using tiles True by simp
        have "l = ?f + ?s * (count - 1)" using o'(6) [OF L(2)] by (simp add: count_def)
        from tiled_runs [OF o'(1) _ gap b(6) [OF L(1)] b(5) [OF L(1)] this] cb show ?thesis
          unfolding elb elf by (simp add: count_def)
      qed
      ultimately show ?thesis by (simp add: parts pieces_def)
    next
      case False
      then obtain vs where vs: "offsets_of [offs] = Some vs" and parts: "those (map (\<lambda>v. affine_image base 1 v) vs) = Some parts"
        using run by (auto simp: res_simps)
      have set: "set vs = covered offs" using offsets_of_set [OF _ vs] okf by simp
      have "\<forall>i < length vs. pg_ok (parts ! i) \<and> covered (parts ! i) = sums (covered base) {vs ! i}" "length parts = length vs"
        using parts affine_image_set [OF base] by (auto simp: those_map_Some_iff sums_single)
      then show ?thesis unfolding set [symmetric]
        by (fastforce simp: list_all_length pieces_def sums_def set_conv_nth)
    qed
  qed
qed

lemma nonempty_ends:
  assumes "pg_ok p" and "\<not> pg_is_empty p"
  obtains l where "last_of p = Some l" "first_of p = Some (pg_first p)" "pg_first p \<in> covered p" "l \<in> covered p"
    "covered p = {x. pg_first p \<le> x \<and> x \<le> l \<and> pg_step p dvd (x - pg_first p)}"
proof -
  obtain l where l: "last_of p = Some l" using assms(2) by (cases "last_of p") (auto simp: last_of_None)
  show thesis
    by (rule that [OF l]) (use assms l pg_okD(5,6) [OF assms(1) l] in \<open>auto simp: covered_def first_of_Some\<close>)
qed

lemma count_one_single:
  assumes "pg_ok p" and "pg_len p = 1"
  shows "covered p = {pg_first p}"
proof -
  have "\<not> pg_is_empty p" using assms(2) by (simp add: pg_len_def pg_is_empty_def)
  then obtain l where l: "last_of p = Some l" "covered p = {x. pg_first p \<le> x \<and> x \<le> l \<and> pg_step p dvd (x - pg_first p)}"
    using nonempty_ends assms(1) by metis
  have "l = pg_first p" using count_one [OF assms(1) l(1)] assms(2) by (simp add: pg_len_def)
  show ?thesis unfolding l(2) \<open>l = pg_first p\<close> by auto
qed

text \<open>Three ways to add a term; each yields the sum of the two sets.\<close>

lemma tile_step_range:
  assumes acc: "pg_ok acc" "last_of acc = Some la" and trm: "pg_ok trm" "last_of trm = Some lt"
    and gap: "pg_step trm = pg_step acc * pg_len acc"
    and i64: "in_i64 (pg_first acc + pg_first trm)" "in_i64 (la + lt)"
    and r: "progression_range (pg_first acc + pg_first trm) (pg_step acc) (la + lt) = Some s"
  shows "pg_ok s \<and> covered s = sums (covered acc) (covered trm)"
proof -
  note a = pg_okD [OF acc(1)] and t = pg_okD [OF trm(1)]
  have pos: "0 < pg_count acc" using t(1) a(1) gap by (simp add: pg_len_def zero_less_mult_iff)
  have "pg_ok s" "covered s = {x. pg_first trm + pg_first acc \<le> x \<and> x \<le> lt + la \<and> pg_step acc dvd (x - (pg_first trm + pg_first acc))}"
    using progression_range_set [OF i64(1) a(2) i64(2) r] range_one [OF a(1)] by (auto simp: add.commute)
  moreover have "sums (covered trm) (covered acc) =
      {x. pg_first trm + pg_first acc \<le> x \<and> x \<le> lt + la \<and> pg_step acc dvd (x - (pg_first trm + pg_first acc))}"
    using tiled_runs [OF a(1) _ gap [unfolded pg_len_def] t(6) [OF trm(2)] t(5) [OF trm(2)] count_positive(2) [OF acc pos]] pos
    by (simp add: covered_def acc(2) trm(2))
  ultimately show ?thesis by (simp add: sums_commute)
qed

lemma sums_nonempty: "a \<noteq> {} \<Longrightarrow> b \<noteq> {} \<Longrightarrow> sums a b \<noteq> {}"
  by (auto simp: sums_def)

lemma tile_loop_set:
  "tile_loop acc terms = Some (Some s) \<Longrightarrow> pg_ok acc \<Longrightarrow> \<not> pg_is_empty acc \<Longrightarrow>
     \<forall>t \<in> set terms. pg_ok t \<and> \<not> pg_is_empty t \<Longrightarrow>
     pg_ok s \<and> covered s = foldl sums (covered acc) (map covered terms)"
proof (induction terms arbitrary: acc)
  case (Cons t terms)
  have t: "pg_ok t" "\<not> pg_is_empty t" using Cons.prems(4) by auto
  obtain la where la: "last_of acc = Some la" "first_of acc = Some (pg_first acc)" "pg_first acc \<in> covered acc"
    using nonempty_ends [OF Cons.prems(2,3)] by metis
  obtain lt where lt: "last_of t = Some lt" "first_of t = Some (pg_first t)" "pg_first t \<in> covered t"
    using nonempty_ends [OF t] by metis
  have "\<exists>s'. tile_loop s' terms = Some (Some s) \<and> pg_ok s' \<and> covered s' = sums (covered acc) (covered t)"
  proof -
    consider (point) "pg_len t = 1" | (single_acc) "pg_len t \<noteq> 1" "pg_len acc = 1" | (tile) "pg_len t \<noteq> 1" "pg_len acc \<noteq> 1" by blast
    then show ?thesis
    proof cases
      case point
      then obtain s' where s': "affine_image acc 1 (pg_first t) = Some s'" "tile_loop s' terms = Some (Some s)"
        using Cons.prems(1) lt by (auto simp: res_simps)
      then show ?thesis using affine_image_set [OF Cons.prems(2) s'(1)] count_one_single [OF t(1) point] by (auto simp: sums_single)
    next
      case single_acc
      then obtain s' where s': "affine_image t 1 (pg_first acc) = Some s'" "tile_loop s' terms = Some (Some s)"
        using Cons.prems(1) lt la by (auto simp: res_simps)
      then show ?thesis using affine_image_set [OF t(1) s'(1)] count_one_single [OF Cons.prems(2) single_acc(2)] by (auto simp: sums_single)
    next
      case tile
      then obtain s' where s': "pg_step t = pg_step acc * pg_len acc" "in_i64 (pg_first acc + pg_first t)" "in_i64 (la + lt)"
          "progression_range (pg_first acc + pg_first t) (pg_step acc) (la + lt) = Some s'" "tile_loop s' terms = Some (Some s)"
        using Cons.prems(1) lt la by (auto simp: res_simps split: if_splits)
      then show ?thesis using tile_step_range [OF Cons.prems(2) la(1) t(1) lt(1) s'(1,2,3,4)] by auto
    qed
  qed
  then obtain s' where s': "tile_loop s' terms = Some (Some s)" "pg_ok s'" "covered s' = sums (covered acc) (covered t)" by blast
  have "covered s' \<noteq> {}" unfolding s'(3) using la(3) lt(3) by (intro sums_nonempty) auto
  then have "\<not> pg_is_empty s'" using pg_is_empty_covered [OF s'(2)] by simp
  from Cons.IH [OF s'(1,2) this] Cons.prems(4) show ?case by (simp add: s'(3))
qed simp

lemma foldl_sums: "foldl sums a bs = sums a (foldr sums bs {0})"
  by (induction bs arbitrary: a) (simp_all add: sums_assoc, simp add: sums_single)

lemma foldr_sums_perm:
  assumes "mset xs = mset ys"
  shows "foldr sums (map covered xs) {0} = foldr sums (map covered ys) {0}"
proof -
  have comm: "sums (covered x) \<circ> sums (covered y) = sums (covered y) \<circ> sums (covered x)" for x y
    by (rule ext) (metis comp_apply sums_assoc sums_commute)
  have "fold (\<lambda>p. sums (covered p)) (rev xs) = fold (\<lambda>p. sums (covered p)) (rev ys)"
    by (rule fold_multiset_equiv) (simp_all add: comm assms)
  then show ?thesis by (simp add: foldr_conv_fold rev_map fold_map comp_def)
qed

text \<open>The sum over the binders of an axis is the set of values of its linear part.\<close>

lemma linear_values:
  assumes "distinct bs" and "\<forall>b \<in> set bs. b < length region" and "box_covered region \<noteq> {}"
  shows "foldr sums (map (\<lambda>b. (\<lambda>v. c b * v) ` covered (region ! b)) bs) {0} =
    (\<lambda>p. \<Sum>i \<in> set bs. c i * p ! i) ` box_covered region"
  using assms(1,2)
proof (induction bs)
  case Nil
  then show ?case using assms(3) by auto
next
  case (Cons b bs)
  have b: "b < length region" "b \<notin> set bs" using Cons.prems by auto
  have "sums ((\<lambda>v. c b * v) ` covered (region ! b)) ((\<lambda>p. \<Sum>i \<in> set bs. c i * p ! i) ` box_covered region) =
      (\<lambda>p. \<Sum>i \<in> set (b # bs). c i * p ! i) ` box_covered region"
  proof (intro set_eqI iffI)
    fix x assume "x \<in> sums ((\<lambda>v. c b * v) ` covered (region ! b)) ((\<lambda>p. \<Sum>i \<in> set bs. c i * p ! i) ` box_covered region)"
    then obtain v p where v: "v \<in> covered (region ! b)" "p \<in> box_covered region" "x = c b * v + (\<Sum>i \<in> set bs. c i * p ! i)"
      by (auto simp: sums_def)
    have "p[b := v] \<in> box_covered region" using v b by (auto simp: box_covered_nth nth_list_update)
    moreover have "(\<Sum>i \<in> set bs. c i * p[b := v] ! i) = (\<Sum>i \<in> set bs. c i * p ! i)"
      using b(2) by (intro sum.cong) (simp, metis nth_list_update_neq)
    moreover have "p[b := v] ! b = v" using v(2) b(1) by (simp add: box_covered_nth)
    ultimately show "x \<in> (\<lambda>p. \<Sum>i \<in> set (b # bs). c i * p ! i) ` box_covered region"
      using v(3) b(2) by (intro image_eqI [of _ _ "p[b := v]"]) simp_all
  next
    fix x assume "x \<in> (\<lambda>p. \<Sum>i \<in> set (b # bs). c i * p ! i) ` box_covered region"
    then obtain p where p: "p \<in> box_covered region" "x = c b * p ! b + (\<Sum>i \<in> set bs. c i * p ! i)" using b(2) by auto
    moreover have "p ! b \<in> covered (region ! b)" using p(1) b(1) by (simp add: box_covered_nth)
    ultimately show "x \<in> sums ((\<lambda>v. c b * v) ` covered (region ! b)) ((\<lambda>p. \<Sum>i \<in> set bs. c i * p ! i) ` box_covered region)"
      unfolding sums_def by blast
  qed
  then show ?case using Cons by simp
qed

lemma tiled_sum_set:
  assumes region: "box_ok region" "box_covered region \<noteq> {}" and bs: "distinct bs"
    and r: "tiled_sum axis bs region = Some (Some s)"
  shows "pg_ok s \<and> covered s = (\<lambda>p. \<Sum>i \<in> set bs. coeffs (form axis) ! i * p ! i) ` box_covered region"
proof -
  let ?c = "\<lambda>i. coeffs (form axis) ! i"
  obtain terms where terms: "those (map (\<lambda>b. do { vs \<leftarrow> idx region b; affine_image vs (?c b) 0 }) bs) = Some terms"
    and rest: "(if list_ex pg_is_empty terms then Some (Some EMPTY)
      else (case sort_key (\<lambda>t. if pg_len t = 1 then i64_max else pg_step t) terms of
          [] \<Rightarrow> None | acc # rest \<Rightarrow> tile_loop acc rest)) = Some (Some s)"
    using r by (auto simp: tiled_sum_def res_simps)
  have at: "length terms = length bs" "\<And>k. k < length bs \<Longrightarrow> bs ! k < length region \<and> affine_image (region ! (bs ! k)) (?c (bs ! k)) 0 = Some (terms ! k)"
    using terms by (auto simp: those_map_Some_iff res_simps)
  have bound: "\<forall>b \<in> set bs. b < length region" using at(2) by (metis in_set_conv_nth)
  have nonempty: "covered (region ! b) \<noteq> {}" if "b < length region" for b using region(2) that by (fastforce simp: box_covered_nth)
  have trm: "pg_ok (terms ! k) \<and> covered (terms ! k) = (\<lambda>v. ?c (bs ! k) * v) ` covered (region ! (bs ! k)) \<and> \<not> pg_is_empty (terms ! k)"
    if k: "k < length bs" for k
  proof -
    have ok: "pg_ok (region ! (bs ! k))" using region(1) at(2) [OF k] by (simp add: list_all_length indexable_def)
    show ?thesis
      using affine_image_set [OF ok, of "?c (bs ! k)" 0 "terms ! k"] at(2) [OF k] nonempty pg_is_empty_covered [OF ok] by auto
  qed
  have els: "map covered terms = map (\<lambda>b. (\<lambda>v. ?c b * v) ` covered (region ! b)) bs"
    using trm at(1) by (auto simp: list_eq_iff_nth_eq)
  have ok: "\<forall>t \<in> set terms. pg_ok t \<and> \<not> pg_is_empty t" using trm at(1) by (metis in_set_conv_nth)
  then have "\<not> list_ex pg_is_empty terms" by (auto simp: list_ex_iff)
  then obtain acc ts where srt: "sort_key (\<lambda>t. if pg_len t = 1 then i64_max else pg_step t) terms = acc # ts"
    and loop: "tile_loop acc ts = Some (Some s)" using rest by (auto split: list.splits)
  have perm: "mset (acc # ts) = mset terms" unfolding srt [symmetric] by simp
  have "\<forall>t \<in> set (acc # ts). pg_ok t \<and> \<not> pg_is_empty t" using ok perm by (metis mset_eq_setD)
  then have "pg_ok s" "covered s = foldl sums (covered acc) (map covered ts)"
    using tile_loop_set [OF loop] by auto
  then have "pg_ok s" "covered s = foldr sums (map covered (acc # ts)) {0}" by (simp_all add: foldl_sums)
  moreover have "foldr sums (map covered (acc # ts)) {0} = foldr sums (map covered terms) {0}" by (rule foldr_sums_perm [OF perm])
  ultimately show ?thesis using linear_values [OF bs bound region(2), of ?c] unfolding els by simp
qed

section \<open>The image of one axis\<close>

definition axis_values :: "IndexAxis \<Rightarrow> IndexBox \<Rightarrow> int set" where
  "axis_values axis region = sums ((\<lambda>p. affine_eval (form axis) p) ` box_covered region) (axis_offsets axis)"

lemma axis_values_iff: "v \<in> axis_values axis region \<longleftrightarrow> (\<exists>p \<in> box_covered region. names p axis v)"
  by (auto simp: axis_values_def sums_def names_def)

lemma all_shifts_set:
  assumes base: "pg_ok base" and offs: "list_all indexable offs" and r: "all_shifts base offs = Some parts"
  shows "list_all pg_ok parts \<and> pieces parts = sums (covered base) (\<Union>p \<in> set offs. covered p)"
proof -
  obtain pss where "those (map (shifted_images base) offs) = Some pss" and parts: "parts = concat pss"
    using r by (auto simp: all_shifts_def)
  then have at: "length pss = length offs" "\<And>i. i < length offs \<Longrightarrow> list_all pg_ok (pss ! i) \<and> pieces (pss ! i) = sums (covered base) (covered (offs ! i))"
    using shifted_images_set [OF base] offs by (auto simp: those_map_Some_iff list_all_length)
  have "\<forall>ps \<in> set pss. list_all pg_ok ps" using at by (metis in_set_conv_nth)
  moreover have "pieces parts = (\<Union>i < length offs. sums (covered base) (covered (offs ! i)))"
  proof -
    have "pieces parts = (\<Union>ps \<in> set pss. pieces ps)" by (auto simp: parts pieces_def)
    also have "\<dots> = (\<Union>i < length pss. pieces (pss ! i))" by (auto simp: set_conv_nth)
    finally show ?thesis using at by auto
  qed
  moreover have "sums (covered base) (\<Union>p \<in> set offs. covered p) = (\<Union>i < length offs. sums (covered base) (covered (offs ! i)))"
    by (fastforce simp: sums_def set_conv_nth)
  ultimately show ?thesis by (auto simp: parts list_all_iff)
qed

lemma scaled_bounds:
  fixes c :: int
  assumes "f \<le> v" "v \<le> l"
  shows "min (c * f) (c * l) \<le> c * v \<and> c * v \<le> max (c * f) (c * l)"
proof (cases "0 \<le> c")
  case True
  then have "c * f \<le> c * v" "c * v \<le> c * l" using assms by (auto intro: mult_left_mono)
  then show ?thesis by auto
next
  case False
  then have "c * v \<le> c * f" "c * l \<le> c * v" using assms by (auto intro: mult_left_mono_neg)
  then show ?thesis by auto
qed

lemma hull_loop_bounds:
  "hull_loop axis region lo up bs = Some hull \<Longrightarrow> box_ok region \<Longrightarrow> p \<in> box_covered region \<Longrightarrow>
     \<exists>lo' up'. hull = Some (lo', up') \<and>
       lo' - lo \<le> sum_list (map (\<lambda>i. coeffs (form axis) ! i * p ! i) bs) \<and>
       sum_list (map (\<lambda>i. coeffs (form axis) ! i * p ! i) bs) \<le> up' - up"
proof (induction bs arbitrary: lo up)
  case (Cons b bs)
  let ?c = "coeffs (form axis) ! b"
  have b: "b < length region" using Cons.prems(1) by (auto simp: res_simps)
  have mem: "p ! b \<in> covered (region ! b)" using Cons.prems(3) b by (simp add: box_covered_nth)
  then obtain l where l: "last_of (region ! b) = Some l" "pg_first (region ! b) \<le> p ! b" "p ! b \<le> l"
    by (auto simp: covered_def split: option.splits)
  have f: "first_of (region ! b) = Some (pg_first (region ! b))" using l(1) by (simp add: first_of_Some flip: last_of_None)
  have "hull_loop axis region (lo + min (?c * pg_first (region ! b)) (?c * l)) (up + max (?c * pg_first (region ! b)) (?c * l)) bs = Some hull"
    using Cons.prems(1) b l(1) f by (auto simp: res_simps)
  from Cons.IH [OF this Cons.prems(2,3)] scaled_bounds [OF l(2,3), of ?c] show ?case by force
qed auto

abbreviation index_bound :: "int \<Rightarrow> bool" where
  "index_bound v \<equiv> - 4611686018427387903 \<le> v \<and> v < 4611686018427387904"

lemma bounded_indexable:
  assumes "pg_ok c" and "\<forall>x \<in> covered c. index_bound x"
  shows "indexable c"
  using assms pg_okD(5,6) [OF assms(1)] by (auto simp: indexable_def covered_def)

text \<open>Both ends of the hull are values of the linear part.\<close>

lemma hull_loop_attained:
  "hull_loop axis region lo up bs = Some (Some (lo', up')) \<Longrightarrow> box_ok region \<Longrightarrow> p \<in> box_covered region \<Longrightarrow> distinct bs \<Longrightarrow>
     (\<exists>q \<in> box_covered region. lo' - lo = sum_list (map (\<lambda>i. coeffs (form axis) ! i * q ! i) bs)) \<and>
     (\<exists>q \<in> box_covered region. up' - up = sum_list (map (\<lambda>i. coeffs (form axis) ! i * q ! i) bs))"
proof (induction bs arbitrary: lo up)
  case (Cons b bs)
  let ?c = "coeffs (form axis) ! b" and ?r = "region ! b"
  have b: "b < length region" using Cons.prems(1) by (auto simp: res_simps)
  have ok: "pg_ok ?r" using Cons.prems(2) b by (simp add: list_all_length indexable_def)
  have "p ! b \<in> covered ?r" using Cons.prems(3) b by (simp add: box_covered_nth)
  then have "\<not> pg_is_empty ?r" using pg_is_empty_covered [OF ok] by auto
  then obtain l where l: "last_of ?r = Some l" "first_of ?r = Some (pg_first ?r)" "pg_first ?r \<in> covered ?r" "l \<in> covered ?r"
    using nonempty_ends [OF ok] by metis
  have "hull_loop axis region (lo + min (?c * pg_first ?r) (?c * l)) (up + max (?c * pg_first ?r) (?c * l)) bs = Some (Some (lo', up'))"
    using Cons.prems(1) b l(1,2) by (auto simp: res_simps)
  from Cons.IH [OF this Cons.prems(2,3)] Cons.prems(4) obtain q q'
    where q: "q \<in> box_covered region" "lo' - (lo + min (?c * pg_first ?r) (?c * l)) = sum_list (map (\<lambda>i. coeffs (form axis) ! i * q ! i) bs)"
      and q': "q' \<in> box_covered region" "up' - (up + max (?c * pg_first ?r) (?c * l)) = sum_list (map (\<lambda>i. coeffs (form axis) ! i * q' ! i) bs)"
    by auto
  have put: "r[b := x] \<in> box_covered region" "r[b := x] ! b = x"
    "sum_list (map (\<lambda>i. coeffs (form axis) ! i * r[b := x] ! i) bs) = sum_list (map (\<lambda>i. coeffs (form axis) ! i * r ! i) bs)"
    if "r \<in> box_covered region" "x \<in> covered ?r" for r x
  proof -
    show "r[b := x] \<in> box_covered region" "r[b := x] ! b = x"
      using that b by (auto simp: box_covered_nth nth_list_update)
    show "sum_list (map (\<lambda>i. coeffs (form axis) ! i * r[b := x] ! i) bs) = sum_list (map (\<lambda>i. coeffs (form axis) ! i * r ! i) bs)"
      using Cons.prems(4) by (intro arg_cong [where f = sum_list] map_cong refl) (metis distinct.simps(2) nth_list_update_neq)
  qed
  have ends: "\<exists>x \<in> {pg_first ?r, l}. ?c * x = min (?c * pg_first ?r) (?c * l)" "\<exists>x \<in> {pg_first ?r, l}. ?c * x = max (?c * pg_first ?r) (?c * l)"
    by (auto simp: min_def max_def)
  obtain x where x: "x \<in> covered ?r" "?c * x = min (?c * pg_first ?r) (?c * l)" using ends(1) l(3,4) by blast
  obtain y where y: "y \<in> covered ?r" "?c * y = max (?c * pg_first ?r) (?c * l)" using ends(2) l(3,4) by blast
  show ?case
  proof
    show "\<exists>q \<in> box_covered region. lo' - lo = sum_list (map (\<lambda>i. coeffs (form axis) ! i * q ! i) (b # bs))"
      using put [OF q(1) x(1)] q(2) x(2) by (intro bexI [of _ "q[b := x]"]) simp_all
    show "\<exists>q \<in> box_covered region. up' - up = sum_list (map (\<lambda>i. coeffs (form axis) ! i * q ! i) (b # bs))"
      using put [OF q'(1) y(1)] q'(2) y(2) by (intro bexI [of _ "q'[b := y]"]) simp_all
  qed
qed auto

lemma sums_Un: "sums a (b \<union> c) = sums a b \<union> sums a c"
  by (auto simp: sums_def)

lemma hull_parts_set:
  assumes "list_all pg_ok offs" and "hull_parts lo up offs = Some parts"
  shows "list_all pg_ok parts \<and> sums {lo..up} (\<Union>p \<in> set offs. covered p) \<subseteq> pieces parts \<and>
    ((\<forall>p \<in> set offs. \<forall>x \<in> covered p. index_bound (lo + x) \<and> index_bound (up + x)) \<longrightarrow> list_all indexable parts)"
proof -
  have "try_fold (\<lambda>parts part. case (first_of part, last_of part) of
         (Some f, Some l) \<Rightarrow> do {
           a \<leftarrow> chk_i64 (lo + f); b \<leftarrow> chk_i64 (up + l); r \<leftarrow> progression_range a 1 b; Some (parts @ [r]) }
       | _ \<Rightarrow> Some parts) acc offs = Some parts \<Longrightarrow> list_all pg_ok acc \<Longrightarrow>
     list_all pg_ok parts \<and> pieces acc \<union> sums {lo..up} (\<Union>p \<in> set offs. covered p) \<subseteq> pieces parts \<and>
     (list_all indexable acc \<longrightarrow> (\<forall>p \<in> set offs. \<forall>x \<in> covered p. index_bound (lo + x) \<and> index_bound (up + x)) \<longrightarrow>
       list_all indexable parts)" for acc
    using assms(1)
  proof (induction offs arbitrary: acc)
    case (Cons p offs)
    show ?case
    proof (cases "last_of p")
      case None
      then show ?thesis using Cons covered_empty [of p] by (simp add: last_of_None first_of_def)
    next
      case (Some l)
      then have f: "first_of p = Some (pg_first p)" by (simp add: first_of_Some flip: last_of_None)
      then obtain r where i64: "in_i64 (lo + pg_first p)" "in_i64 (up + l)" and r: "progression_range (lo + pg_first p) 1 (up + l) = Some r"
        and rest: "try_fold (\<lambda>parts part. case (first_of part, last_of part) of
         (Some f, Some l) \<Rightarrow> do {
           a \<leftarrow> chk_i64 (lo + f); b \<leftarrow> chk_i64 (up + l); r \<leftarrow> progression_range a 1 b; Some (parts @ [r]) }
       | _ \<Rightarrow> Some parts) (acc @ [r]) offs = Some parts"
        using Cons.prems(1) Some by (auto simp: res_simps split: option.splits)
      have "in_i64 1" by (simp add: machine_int)
      then have rr: "pg_ok r" "covered r = {x. lo + pg_first p \<le> x \<and> x \<le> up + l}"
        using progression_range_set [OF i64(1) _ i64(2) r] by (auto simp: range_set_def)
      then have ih: "list_all pg_ok parts \<and> pieces (acc @ [r]) \<union> sums {lo..up} (\<Union>p \<in> set offs. covered p) \<subseteq> pieces parts"
        and ix: "list_all indexable (acc @ [r]) \<Longrightarrow>
          \<forall>p \<in> set offs. \<forall>x \<in> covered p. index_bound (lo + x) \<and> index_bound (up + x) \<Longrightarrow> list_all indexable parts"
        using Cons.IH [OF rest] Cons.prems by simp_all
      have okp: "pg_ok p" using Cons.prems(3) by simp
      have mem: "pg_first p \<in> covered p" "l \<in> covered p"
        using pg_okD(5,6) [OF okp Some] by (simp_all add: covered_def Some)
      have ir: "indexable r" if "\<forall>x \<in> covered p. index_bound (lo + x) \<and> index_bound (up + x)"
      proof (rule bounded_indexable [OF rr(1)])
        have "index_bound (lo + pg_first p)" "index_bound (up + l)" using that mem by blast+
        then show "\<forall>x \<in> covered r. index_bound x" unfolding rr(2) by auto
      qed
      have bounded: "list_all indexable parts" if "list_all indexable acc"
        "\<forall>p \<in> set (p # offs). \<forall>x \<in> covered p. index_bound (lo + x) \<and> index_bound (up + x)"
        using that ir by (intro ix) auto
      have "sums {lo..up} (covered p) \<subseteq> covered r"
        unfolding rr(2) using Some by (auto simp: covered_def sums_def)
      then have "sums {lo..up} (\<Union>p \<in> set (p # offs). covered p) \<subseteq>
          covered r \<union> sums {lo..up} (\<Union>p \<in> set offs. covered p)"
        by (auto simp: sums_Un)
      with ih have "pieces acc \<union> sums {lo..up} (\<Union>p \<in> set (p # offs). covered p) \<subseteq> pieces parts" by (auto simp: pieces_def)
      with ih bounded show ?thesis by blast
    qed
  qed simp
  from this [of "[]"] assms(2) show ?thesis by (simp add: hull_parts_def)
qed

lemma coordinate_values:
  assumes "b < length region" and "box_covered region \<noteq> {}"
  shows "(\<lambda>p. p ! b) ` box_covered region = covered (region ! b)"
  using linear_values [of "[b]" region "\<lambda>_. 1"] assms by (simp add: sums_single(1) [of _ 0, simplified])

lemma tiled_sum_bounds:
  "tiled_sum axis bs region = Some x \<Longrightarrow> \<forall>b \<in> set bs. b < length region"
  by (auto simp: tiled_sum_def res_simps those_map_Some_iff in_set_conv_nth)

text \<open>An axis whose linear part has the progression \<open>base\<close> as its values.\<close>

lemma shifted_base:
  assumes base: "pg_ok base" "covered base = (\<lambda>p. affine_eval (form axis) p) ` box_covered region"
    and offs: "axis_ok axis" and r: "all_shifts base (offsets axis) = Some parts"
  shows "list_all pg_ok parts \<and> axis_values axis region = pieces parts"
  using all_shifts_set [OF base(1) _ r] offs base(2) unfolding axis_values_def axis_offsets_covered [OF offs]
  by (simp add: axis_ok_def)

lemma axis_image_set:
  assumes region: "box_ok region" "box_covered region \<noteq> {}" and axis: "axis_ok axis"
    and r: "axis_image axis region = Some (parts, exact)"
  shows "list_all pg_ok parts \<and> axis_values axis region \<subseteq> pieces parts \<and> (exact \<longrightarrow> axis_values axis region = pieces parts) \<and>
    (\<forall>b \<in> set (axis_binders axis). b < length region) \<and>
    (\<not> exact \<longrightarrow> (\<forall>v \<in> axis_values axis region. index_bound v) \<longrightarrow> list_all indexable parts)"
proof -
  let ?k = "af_constant (form axis)"
  consider (none) "axis_binders axis = []" | (one) b where "axis_binders axis = [b]"
    | (many) b b' bs where "axis_binders axis = b # b' # bs"
    by (metis list.exhaust)
  then show ?thesis
  proof cases
    case none
    then have parts: "those (map (\<lambda>offs. affine_image offs 1 ?k) (offsets axis)) = Some parts" and exact
      using r by (auto simp: axis_image_def Let_def res_simps)
    have each: "pg_ok (parts ! i) \<and> covered (parts ! i) = (\<lambda>v. 1 * v + ?k) ` covered (offsets axis ! i)" if "i < length parts" for i
      using parts that affine_image_set [of "offsets axis ! i" 1 ?k "parts ! i"] axis
      by (auto simp: those_map_Some_iff axis_ok_def list_all_length indexable_def)
    have len: "length parts = length (offsets axis)" using parts by (simp add: those_map_Some_iff)
    have "pieces parts = (\<Union>i < length parts. covered (parts ! i))" by (auto simp: pieces_def set_conv_nth)
    also have "\<dots> = (\<lambda>v. 1 * v + ?k) ` axis_offsets axis"
      using each len unfolding axis_offsets_covered [OF axis] by (auto simp: set_conv_nth)
    also have "\<dots> = axis_values axis region"
    proof -
      have "(\<lambda>p. affine_eval (form axis) p) ` box_covered region = {?k}" using region(2) affine_eval_none [OF none] by auto
      then show ?thesis unfolding axis_values_def by (simp only: sums_single)
    qed
    finally show ?thesis using each none \<open>exact\<close> by (simp add: list_all_length)
  next
    case one
    obtain base where b: "b < length region" and base: "affine_image (region ! b) (coeffs (form axis) ! b) ?k = Some base"
      and shifts: "all_shifts base (offsets axis) = Some parts" and exact
      using r one by (auto simp: axis_image_def Let_def res_simps)
    have ok: "pg_ok (region ! b)" using region(1) b by (simp add: list_all_length indexable_def)
    have "covered base = (\<lambda>v. coeffs (form axis) ! b * v + ?k) ` (\<lambda>p. p ! b) ` box_covered region"
      using affine_image_set [OF ok base] coordinate_values [OF b region(2)] by simp
    also have "\<dots> = (\<lambda>p. affine_eval (form axis) p) ` box_covered region"
      unfolding image_image by (intro image_cong refl) (simp add: affine_eval_one [OF one] box_covered_nth b)
    finally have "covered base = (\<lambda>p. affine_eval (form axis) p) ` box_covered region" .
    from shifted_base [OF _ this axis shifts] affine_image_set [OF ok base] show ?thesis using one b \<open>exact\<close> by auto
  next
    case many
    obtain tiled where tiled: "tiled_sum axis (axis_binders axis) region = Some tiled"
      using r many by (auto simp: axis_image_def Let_def res_simps)
    note bound = tiled_sum_bounds [OF tiled]
    have lin: "affine_eval (form axis) p = (\<Sum>i \<in> set (axis_binders axis). coeffs (form axis) ! i * p ! i) + ?k"
      if "p \<in> box_covered region" for p
      using axis_dot [of axis p] that bound by (simp add: affine_eval_def box_covered_nth)
    show ?thesis
    proof (cases tiled)
      case (Some t)
      then obtain base where base: "affine_image t 1 ?k = Some base" and shifts: "all_shifts base (offsets axis) = Some parts" and exact
        using r many tiled by (auto simp: axis_image_def Let_def res_simps)
      note ts = tiled_sum_set [OF region distinct_axis_binders tiled [unfolded Some]]
      have "covered base = (\<lambda>v. 1 * v + ?k) ` (\<lambda>p. \<Sum>i \<in> set (axis_binders axis). coeffs (form axis) ! i * p ! i) ` box_covered region"
        using affine_image_set [of t 1 ?k base] ts base by simp
      also have "\<dots> = (\<lambda>p. affine_eval (form axis) p) ` box_covered region"
        unfolding image_image by (intro image_cong refl) (simp add: lin)
      finally have "covered base = (\<lambda>p. affine_eval (form axis) p) ` box_covered region" .
      from shifted_base [OF _ this axis shifts] affine_image_set [of t 1 ?k base] ts base bound show ?thesis using \<open>exact\<close> by auto
    next
      case None
      obtain hull where hull: "hull_loop axis region ?k ?k (axis_binders axis) = Some hull"
        using r many tiled None by (auto simp: axis_image_def Let_def res_simps)
      obtain p0 where "p0 \<in> box_covered region" using region(2) by blast
      then obtain lo up where h: "hull = Some (lo, up)" using hull_loop_bounds [OF hull region(1)] by blast
      then have parts: "hull_parts lo up (offsets axis) = Some parts" and ne: "\<not> exact"
        using r many tiled None hull by (auto simp: axis_image_def Let_def res_simps)
      have ok: "list_all pg_ok (offsets axis)" using axis by (auto simp: axis_ok_def list_all_iff indexable_def)
      have lsum: "sum_list (map (\<lambda>i. coeffs (form axis) ! i * p ! i) (axis_binders axis)) = affine_eval (form axis) p - ?k"
        if "p \<in> box_covered region" for p
        using lin [OF that] by (simp add: sum_list_distinct_conv_sum_set [OF distinct_axis_binders])
      have "affine_eval (form axis) p \<in> {lo..up}" if p: "p \<in> box_covered region" for p
        using hull_loop_bounds [OF hull region(1) p] h lsum [OF p] by auto
      then have sub: "axis_values axis region \<subseteq> sums {lo..up} (axis_offsets axis)"
        unfolding axis_values_def sums_def by blast
      obtain q q' where q: "q \<in> box_covered region" "lo = affine_eval (form axis) q" "q' \<in> box_covered region" "up = affine_eval (form axis) q'"
        using hull_loop_attained [OF hull [unfolded h] region(1) \<open>p0 \<in> box_covered region\<close> distinct_axis_binders] lsum by fastforce
      have "lo + x \<in> axis_values axis region" "up + x \<in> axis_values axis region" if "x \<in> axis_offsets axis" for x
        using q that unfolding axis_values_def sums_def by blast+
      then have "list_all indexable parts" if "\<forall>v \<in> axis_values axis region. index_bound v"
        using hull_parts_set [OF ok parts] that unfolding axis_offsets_covered [OF axis] by blast
      then show ?thesis using hull_parts_set [OF ok parts] sub ne bound unfolding axis_offsets_covered [OF axis] by blast
    qed
  qed
qed

lemma axis_image_indexable:
  assumes "box_ok region" "box_covered region \<noteq> {}" "axis_ok axis" "axis_image axis region = Some (parts, exact)"
    and bounded: "\<forall>v \<in> axis_values axis region. index_bound v"
  shows "list_all indexable parts"
proof (cases exact)
  case True
  note a = axis_image_set [OF assms(1-4)]
  have "indexable c" if "c \<in> set parts" for c
  proof (rule bounded_indexable)
    show "pg_ok c" using a that by (simp add: list_all_iff)
    show "\<forall>x \<in> covered c. index_bound x" using a True bounded that by (auto simp: pieces_def)
  qed
  then show ?thesis by (simp add: list_all_iff)
next
  case False
  then show ?thesis using axis_image_set [OF assms(1-4)] bounded by blast
qed

section \<open>The joint image\<close>

lemma repeats_loop_iff:
  "repeats_loop seen bs \<longleftrightarrow> \<not> (distinct bs \<and> (\<forall>b \<in> set bs. \<not> (b < length seen \<and> seen ! b)))"
proof (induction seen bs rule: repeats_loop.induct)
  case (2 seen b bs)
  let ?s = "if length seen \<le> b then seen @ replicate (b + 1 - length seen) False else seen"
  have at: "i < length ?s \<and> ?s ! i \<longleftrightarrow> i < length seen \<and> seen ! i" for i by (auto simp: nth_append)
  have lenb: "b < length ?s" by auto
  show ?case
  proof (cases "?s ! b")
    case True
    then show ?thesis using at [of b] lenb by (auto simp: Let_def)
  next
    case False
    have "i < length (?s[b := True]) \<and> ?s[b := True] ! i \<longleftrightarrow> i = b \<or> i < length seen \<and> seen ! i" for i
      using at [of i] lenb by (cases "i = b") auto
    then have "repeats_loop seen (b # bs) \<longleftrightarrow> \<not> (distinct bs \<and> (\<forall>i \<in> set bs. \<not> (i = b \<or> i < length seen \<and> seen ! i)))"
      using 2 [OF refl False] False by (simp add: Let_def)
    moreover have "\<not> (b < length seen \<and> seen ! b)" using False at [of b] lenb by blast
    ultimately show ?thesis by auto
  qed
qed simp

lemma binder_repeats_iff: "binder_repeats axes \<longleftrightarrow> \<not> distinct (concat (map axis_binders axes))"
  by (simp add: binder_repeats_def repeats_loop_iff)

lemma names_cong:
  assumes "\<forall>b \<in> set (axis_binders axis). b < length p \<and> b < length q \<and> p ! b = q ! b"
  shows "names p axis v \<longleftrightarrow> names q axis v"
proof -
  have "dot (coeffs (form axis)) p = dot (coeffs (form axis)) q"
    using axis_dot [of axis p] axis_dot [of axis q] assms by simp
  then show ?thesis by (simp add: names_def affine_eval_def)
qed

text \<open>Values of axes that share no binder are reached at one common point.\<close>

lemma common_point:
  assumes "distinct (concat (map axis_binders axes))" and "\<forall>axis \<in> set axes. \<forall>b \<in> set (axis_binders axis). b < length region"
    and "p0 \<in> box_covered region" and "list_all2 (\<lambda>axis v. v \<in> axis_values axis region) axes t"
  shows "\<exists>p \<in> box_covered region. list_all2 (names p) axes t"
  using assms(4,1,2)
proof (induction rule: list_all2_induct)
  case Nil
  then show ?case using assms(3) by auto
next
  case (Cons axis axes v t)
  then obtain p where p: "p \<in> box_covered region" "list_all2 (names p) axes t" by auto
  obtain q where q: "q \<in> box_covered region" "names q axis v" using Cons(1) by (auto simp: axis_values_iff)
  define r where "r = map (\<lambda>b. if b \<in> set (axis_binders axis) then q ! b else p ! b) [0..<length region]"
  have r: "r \<in> box_covered region" using p(1) q(1) by (auto simp: box_covered_nth r_def)
  have "names r axis v" using q names_cong [of axis r q v] Cons.prems(2) r by (auto simp: box_covered_nth r_def)
  moreover have "names r a w \<longleftrightarrow> names p a w" if "a \<in> set axes" for a w
    using that Cons.prems p(1) by (intro names_cong) (fastforce simp: box_covered_nth r_def)
  then have "list_all2 (names r) axes t" using p(2) by (auto simp: list_all2_conv_all_nth)
  ultimately show ?case using r by auto
qed

lemma index_image_answer:
  assumes region: "box_ok region" "box_covered region \<noteq> {}" and axes: "list_all axis_ok axes" and r: "index_image axes region = Some ans"
  shows "answers ans {t. \<exists>p \<in> box_covered region. list_all2 (names p) axes t}"
proof -
  obtain images where images: "those (map (\<lambda>axis. axis_image axis region) axes) = Some images"
    and ans: "ans = (if \<not> binder_repeats axes \<and> list_all snd images then Exact (union_of (box_product (map fst images)))
      else Superset (union_of (box_product (map fst images))))"
    using r by (auto simp: index_image_def Let_def res_simps)
  have len: "length images = length axes" using images by (simp add: those_map_Some_iff)
  have at: "list_all pg_ok (fst (images ! i)) \<and> axis_values (axes ! i) region \<subseteq> pieces (fst (images ! i)) \<and>
      (snd (images ! i) \<longrightarrow> axis_values (axes ! i) region = pieces (fst (images ! i))) \<and>
      (\<forall>b \<in> set (axis_binders (axes ! i)). b < length region)" if "i < length axes" for i
    using axis_image_set [OF region, of "axes ! i" "fst (images ! i)" "snd (images ! i)"] images axes that
    by (auto simp: those_map_Some_iff list_all_length)
  have "list_all (list_all pg_ok) (map fst images)" using at len by (simp add: list_all_length)
  note up = union_covered_answer [OF this]
  let ?t = "{t. \<exists>p \<in> box_covered region. list_all2 (names p) axes t}"
  have vals: "list_all2 (\<lambda>axis v. v \<in> axis_values axis region) axes t" if "t \<in> ?t" for t
    using that by (auto simp: axis_values_iff list_all2_conv_all_nth)
  have sub: "?t \<subseteq> product_points (map fst images)"
  proof
    fix t assume "t \<in> ?t"
    note v = vals [OF this]
    have "t ! i \<in> pieces (fst (images ! i))" if "i < length axes" for i
      using subsetD [OF at [OF that, THEN conjunct2, THEN conjunct1], of "t ! i"] v that
      by (simp add: list_all2_conv_all_nth)
    then show "t \<in> product_points (map fst images)" using v len by (simp add: product_nth list_all2_lengthD)
  qed
  show ?thesis
  proof (cases "\<not> binder_repeats axes \<and> list_all snd images")
    case True
    have "product_points (map fst images) \<subseteq> ?t"
    proof
      fix t assume "t \<in> product_points (map fst images)"
      then have "list_all2 (\<lambda>axis v. v \<in> axis_values axis region) axes t"
        using at len True by (auto simp: product_nth list_all2_conv_all_nth list_all_length)
      moreover have "distinct (concat (map axis_binders axes))" using True by (simp add: binder_repeats_iff)
      moreover have "\<forall>axis \<in> set axes. \<forall>b \<in> set (axis_binders axis). b < length region" using at by (metis in_set_conv_nth)
      moreover obtain p0 where "p0 \<in> box_covered region" using region(2) by blast
      ultimately show "t \<in> ?t" using common_point by blast
    qed
    with sub show ?thesis using up True by (simp add: ans answers_def)
  next
    case False
    then show ?thesis using up sub by (auto simp: ans answers_def)
  qed
qed

lemma index_image_indexable:
  assumes region: "box_ok region" "box_covered region \<noteq> {}" and axes: "list_all axis_ok axes" and r: "index_image axes region = Some ans"
    and bounded: "\<forall>axis \<in> set axes. \<forall>v \<in> axis_values axis region. index_bound v"
  shows "union_ok (answer_union ans)"
proof -
  obtain images where images: "those (map (\<lambda>axis. axis_image axis region) axes) = Some images"
    and ans: "answer_union ans = union_of (box_product (map fst images))"
    using r by (auto simp: index_image_def Let_def res_simps)
  have len: "length images = length axes" using images by (simp add: those_map_Some_iff)
  have "list_all indexable (fst (images ! i))" if "i < length axes" for i
  proof (rule axis_image_indexable [OF region])
    show "axis_ok (axes ! i)" "axis_image (axes ! i) region = Some (fst (images ! i), snd (images ! i))"
      using images axes that by (auto simp: those_map_Some_iff list_all_length)
    show "\<forall>v \<in> axis_values (axes ! i) region. index_bound v" using bounded nth_mem [OF that] by blast
  qed
  then have "list_all (list_all indexable) (map fst images)" using len by (simp add: list_all_length)
  then show ?thesis unfolding ans by (rule union_of_product_ok)
qed

section \<open>Properties\<close>

text \<open>C22: \<open>solve_point\<close> is sound and, where it claims to be, complete: an exact answer is the set
  of binder values of the region at which the axes name the given element, a declared superset contains
  that set, and the answer is exact whenever each axis reads at most one binder (region and offsets
  below \<open>2\<^sup>6\<^sup>2\<close>, constants and element below \<open>2\<^sup>6\<^sup>1\<close> in magnitude). The answer stays
  within the bounds of the region.\<close>

theorem solve_point_exact:
  assumes "box_ok region" and "list_all axis_ok axes" and "list_all small_index index_values"
    and "solve_point axes region index_values = Some ans"
  shows "(case ans of
      Exact u \<Rightarrow> upoints u = {p \<in> points region. list_all2 (names p) axes index_values}
    | Superset u \<Rightarrow> {p \<in> points region. list_all2 (names p) axes index_values} \<subseteq> upoints u) \<and>
    (list_all (\<lambda>axis. length (axis_binders axis) \<le> 1) axes \<longrightarrow> (\<exists>u. ans = Exact u)) \<and> union_ok (answer_union ans)"
  using solve_point_answer [OF assms] unfolding box_ok_points [OF assms(1)]
  by (cases ans) (auto simp: answers_def union_ok_upoints)

text \<open>C21: \<open>image\<close> on a non-empty region is the set of elements the axes name: an exact answer is
  exactly the set of the element tuples named at some binder value of the region, and a declared superset
  contains it, also when a sum over several binders is recognised as a tiling (region and offsets
  below \<open>2\<^sup>6\<^sup>2\<close>, constants below \<open>2\<^sup>6\<^sup>1\<close> in magnitude). This always holds of the
  runs from first to last element that the answer's accessors report; when the elements each axis names
  stay below \<open>2\<^sup>6\<^sup>2\<close> in magnitude, no element count wraps, the answer keeps the bound its own
  operations ask for, and the runs are its elements as documented.\<close>

theorem image_exact:
  assumes "box_ok region" and "points region \<noteq> {}" and "list_all axis_ok axes"
    and "index_image axes region = Some ans"
  shows "(case ans of
      Exact u \<Rightarrow> union_covered u = {t. \<exists>p \<in> points region. list_all2 (names p) axes t}
    | Superset u \<Rightarrow> {t. \<exists>p \<in> points region. list_all2 (names p) axes t} \<subseteq> union_covered u) \<and>
    ((\<forall>axis \<in> set axes. \<forall>p \<in> points region. \<forall>v. names p axis v \<longrightarrow> index_bound v) \<longrightarrow>
     union_ok (answer_union ans) \<and>
     (case ans of
        Exact u \<Rightarrow> upoints u = {t. \<exists>p \<in> points region. list_all2 (names p) axes t}
      | Superset u \<Rightarrow> {t. \<exists>p \<in> points region. list_all2 (names p) axes t} \<subseteq> upoints u))"
proof -
  note pts = box_ok_points [OF assms(1)]
  note a = index_image_answer [OF assms(1) assms(2) [unfolded pts] assms(3,4)]
    and i = index_image_indexable [OF assms(1) assms(2) [unfolded pts] assms(3,4)]
  show ?thesis unfolding pts
  proof (intro conjI impI)
    show "case ans of
        Exact u \<Rightarrow> union_covered u = {t. \<exists>p \<in> box_covered region. list_all2 (names p) axes t}
      | Superset u \<Rightarrow> {t. \<exists>p \<in> box_covered region. list_all2 (names p) axes t} \<subseteq> union_covered u"
      using a by (simp add: answers_def)
    assume "\<forall>axis \<in> set axes. \<forall>p \<in> box_covered region. \<forall>v. names p axis v \<longrightarrow> index_bound v"
    then show ok: "union_ok (answer_union ans)" by (intro i) (auto simp: axis_values_iff)
    show "case ans of
        Exact u \<Rightarrow> upoints u = {t. \<exists>p \<in> box_covered region. list_all2 (names p) axes t}
      | Superset u \<Rightarrow> {t. \<exists>p \<in> box_covered region. list_all2 (names p) axes t} \<subseteq> upoints u"
      using a ok by (cases ans) (simp_all add: answers_def union_ok_upoints)
  qed
qed

lemma ok_examples:
  "indexable \<lparr>pg_first = 1, pg_step = 1, pg_count = 4\<rparr>" "indexable \<lparr>pg_first = 0, pg_step = 1, pg_count = 2\<rparr>"
  by (auto simp: indexable_def pg_ok_def last_of_def pg_is_empty_def wrap_i64_def machine_int)

theorem solve_point_exact_witness:
  "let region = [\<lparr>pg_first = 1, pg_step = 1, pg_count = 4\<rparr>];
       axes = [\<lparr>form = \<lparr>af_constant = 0, coeffs = [1]\<rparr>, offsets = [\<lparr>pg_first = 0, pg_step = 1, pg_count = 2\<rparr>]\<rparr>] in
   solve_point axes region [3] = Some (Exact [[single 3], [single 2]]) \<and>
   upoints [[single 3], [single 2]] = {p \<in> points region. list_all2 (names p) axes [3]}"
proof -
  let ?region = "[\<lparr>pg_first = 1, pg_step = 1, pg_count = 4\<rparr>]"
    and ?axes = "[\<lparr>form = \<lparr>af_constant = 0, coeffs = [1]\<rparr>, offsets = [\<lparr>pg_first = 0, pg_step = 1, pg_count = 2\<rparr>]\<rparr>]"
  have s: "solve_point ?axes ?region [3] = Some (Exact [[single 3], [single 2]])" by code_simp
  have "box_ok ?region" "list_all axis_ok ?axes" "list_all small_index [3]" using ok_examples by (simp_all add: axis_ok_def)
  from solve_point_exact [OF this s] s show ?thesis unfolding Let_def by simp
qed

theorem image_exact_witness:
  "let region = [\<lparr>pg_first = 1, pg_step = 1, pg_count = 4\<rparr>];
       axes = [\<lparr>form = \<lparr>af_constant = 10, coeffs = [2]\<rparr>, offsets = [\<lparr>pg_first = 0, pg_step = 1, pg_count = 2\<rparr>]\<rparr>] in
   index_image axes region = Some (Exact [[\<lparr>pg_first = 12, pg_step = 1, pg_count = 8\<rparr>]]) \<and>
   upoints [[\<lparr>pg_first = 12, pg_step = 1, pg_count = 8\<rparr>]] = {t. \<exists>p \<in> points region. list_all2 (names p) axes t}"
proof -
  let ?region = "[\<lparr>pg_first = 1, pg_step = 1, pg_count = 4\<rparr>]"
    and ?axes = "[\<lparr>form = \<lparr>af_constant = 10, coeffs = [2]\<rparr>, offsets = [\<lparr>pg_first = 0, pg_step = 1, pg_count = 2\<rparr>]\<rparr>]"
  have s: "index_image ?axes ?region = Some (Exact [[\<lparr>pg_first = 12, pg_step = 1, pg_count = 8\<rparr>]])" by code_simp
  have ok: "box_ok ?region" "list_all axis_ok ?axes" using ok_examples by (simp_all add: axis_ok_def)
  have x: "x = 1 \<or> x = 2 \<or> x = 3 \<or> x = 4" if "x \<in> elements \<lparr>pg_first = 1, pg_step = 1, pg_count = 4\<rparr>" for x
    using that by (auto simp: elements_def)
  have "1 \<in> elements \<lparr>pg_first = 1, pg_step = 1, pg_count = 4\<rparr>" by (auto simp: elements_def intro!: exI [of _ 0])
  then have "[1] \<in> points ?region" by (simp add: points_def)
  then have ne: "points ?region \<noteq> {}" by blast
  have "index_bound v" if "p \<in> points ?region" "names p \<lparr>form = \<lparr>af_constant = 10, coeffs = [2]\<rparr>, offsets = [\<lparr>pg_first = 0, pg_step = 1, pg_count = 2\<rparr>]\<rparr> v" for p v
    using that x by (auto simp: points_def list_all2_Cons2 names_def axis_offsets_def elements_def affine_eval_def dot_def)
  then show ?thesis using image_exact [OF ok(1) ne ok(2) s] s unfolding Let_def by simp
qed

text \<open>On an empty region the two answers part: \<open>image\<close> still claims the constant element exactly.\<close>

lemma image_of_empty_region:
  "let axes = [\<lparr>form = \<lparr>af_constant = 3, coeffs = [0]\<rparr>, offsets = [single 0]\<rparr>] in
   points [EMPTY] = {} \<and> index_image axes [EMPTY] = Some (Exact [[single 3]]) \<and> upoints [[single 3]] = {[3]}"
proof -
  have "points [EMPTY] = {}" by (simp add: points_def list_all2_Cons2 elements_def EMPTY_def)
  moreover have "upoints [[single 3]] = {[3]}"
    by (auto simp: upoints_def points_def list_all2_Cons2)
  moreover have "index_image [\<lparr>form = \<lparr>af_constant = 3, coeffs = [0]\<rparr>, offsets = [single 0]\<rparr>] [EMPTY] = Some (Exact [[single 3]])"
    by code_simp
  ultimately show ?thesis unfolding Let_def by blast
qed

text \<open>A range with \<open>2\<^sup>6\<^sup>3\<close> elements: the unchecked element count wraps to a negative number.\<close>

lemma range_count_wraps:
  "progression_range 0 1 9223372036854775807 = Some \<lparr>pg_first = 0, pg_step = 1, pg_count = -9223372036854775808\<rparr>"
  by code_simp

text \<open>The same count in an answer of \<open>image\<close>: the tuples named are \<open>0\<close> to \<open>2\<^sup>6\<^sup>3 - 1\<close>.\<close>

lemma image_count_wraps:
  "let axes = [\<lparr>form = \<lparr>af_constant = 0, coeffs = [2]\<rparr>, offsets = [\<lparr>pg_first = 0, pg_step = 1, pg_count = 2\<rparr>]\<rparr>];
       answer = [[\<lparr>pg_first = 0, pg_step = 1, pg_count = -9223372036854775808\<rparr>]] in
   index_image axes [\<lparr>pg_first = 0, pg_step = 1, pg_count = 4611686018427387904\<rparr>] = Some (Exact answer) \<and> upoints answer = {}"
proof -
  have "index_image [\<lparr>form = \<lparr>af_constant = 0, coeffs = [2]\<rparr>, offsets = [\<lparr>pg_first = 0, pg_step = 1, pg_count = 2\<rparr>]\<rparr>]
      [\<lparr>pg_first = 0, pg_step = 1, pg_count = 4611686018427387904\<rparr>] =
    Some (Exact [[\<lparr>pg_first = 0, pg_step = 1, pg_count = -9223372036854775808\<rparr>]])" by code_simp
  moreover have "upoints [[\<lparr>pg_first = 0, pg_step = 1, pg_count = -9223372036854775808\<rparr>]] = {}"
    by (simp add: upoints_def points_def list_all2_Cons2 elements_def)
  ultimately show ?thesis unfolding Let_def by blast
qed

end
