(* ===== verification/Dependency_Graph.thy ===== *)
theory Dependency_Graph
  imports Graph
begin

text \<open>
  Dependency-first components of a dependency graph (\<open>dependency_graph.rs\<close> of \<open>rumoca-core\<close>):
  two iterative depth-first walks, the first over the edges for the finish order, the second
  over the transposed edges. The stacks are lists with their top first. Indexing out of
  range panics and is \<open>None\<close>.
\<close>

section \<open>Model\<close>

record DependencyScc =
  members :: "nat list"
  recursive :: bool

record DependencyGraphError =
  source :: nat
  target :: nat
  node_count :: nat

fun check_loop :: "nat \<Rightarrow> nat \<Rightarrow> nat list list \<Rightarrow> DependencyGraphError + unit" where
  "check_loop n s [] = Inr ()"
| "check_loop n s (targets # rest) =
     (case List.find (\<lambda>t. t \<ge> n) targets of
        Some t \<Rightarrow> Inl \<lparr>source = s, target = t, node_count = n\<rparr>
      | None \<Rightarrow> check_loop n (Suc s) rest)"

definition check_targets :: "nat list list \<Rightarrow> DependencyGraphError + unit" where
  "check_targets dependencies = check_loop (length dependencies) 0 dependencies"

definition push_unseen :: "nat \<Rightarrow> bool list \<Rightarrow> (nat \<times> nat) list \<Rightarrow> (bool list \<times> (nat \<times> nat) list) option" where
  "push_unseen v seen stack = do {
     s \<leftarrow> idx seen v;
     (if s then Some (seen, stack)
      else do { seen \<leftarrow> upd seen v True; Some (seen, (v, 0) # stack) })
   }"

text \<open>The nodes not yet seen: the walks end because no node is pushed twice.\<close>

definition unseen :: "bool list \<Rightarrow> nat" where
  "unseen seen = length (filter Not seen)"

lemma unseen_upd: "v < length seen \<Longrightarrow> \<not> seen ! v \<Longrightarrow> unseen (seen[v := True]) < unseen seen"
  unfolding unseen_def by (rule length_filter_update_less) auto

lemma push_unseen_cases:
  "push_unseen v seen stack = Some (seen', stack') \<Longrightarrow>
     (seen' = seen \<and> stack' = stack \<and> v < length seen \<and> seen ! v) \<or>
     (v < length seen \<and> \<not> seen ! v \<and> seen' = seen[v := True] \<and> stack' = (v, 0) # stack)"
  by (auto simp: push_unseen_def res_simps split: if_splits)

function finish_loop ::
  "nat list list \<Rightarrow> bool list \<Rightarrow> nat list \<Rightarrow> (nat \<times> nat) list \<Rightarrow> (bool list \<times> nat list) option" where
  "finish_loop adj seen finished [] = Some (seen, finished)"
| "finish_loop adj seen finished ((v, next_edge) # stack) =
     (case idx adj v of
        None \<Rightarrow> None
      | Some targets \<Rightarrow>
          (case idx targets next_edge of
             Some w \<Rightarrow>
               (case push_unseen w seen ((v, Suc next_edge) # stack) of
                  None \<Rightarrow> None
                | Some (seen', stack') \<Rightarrow> finish_loop adj seen' finished stack')
           | None \<Rightarrow> finish_loop adj seen (finished @ [v]) stack))"
  by pat_completeness auto

termination finish_loop
  by (relation "measures [\<lambda>(_, seen, _, _). unseen seen,
      \<lambda>(adj, _, _, stack). sum_list (map (\<lambda>(v, k). Suc (length (nbrs adj v) - k)) stack)]")
    (auto dest!: push_unseen_cases simp: nbrs_def unseen_upd)

definition finish_step :: "nat list list \<Rightarrow> bool list \<times> nat list \<Rightarrow> nat \<Rightarrow> (bool list \<times> nat list) option" where
  "finish_step adj = (\<lambda>(seen, finished) start. do {
     s \<leftarrow> idx seen start;
     (if s then Some (seen, finished)
      else do { seen \<leftarrow> upd seen start True; finish_loop adj seen finished [(start, 0)] })
   })"

definition finish_order :: "nat list list \<Rightarrow> nat list option" where
  "finish_order adj =
     map_option snd (try_fold (finish_step adj) (replicate (length adj) False, []) [0..<length adj])"

definition transpose_edge :: "nat \<Rightarrow> nat list list \<Rightarrow> nat \<Rightarrow> nat list list option" where
  "transpose_edge caller transposed dependency = do {
     callers \<leftarrow> idx transposed dependency;
     upd transposed dependency (callers @ [caller])
   }"

definition transpose_edges :: "nat list list \<Rightarrow> nat list list option" where
  "transpose_edges adj =
     try_fold (\<lambda>transposed caller. try_fold (transpose_edge caller) transposed (adj ! caller))
       (replicate (length adj) []) [0..<length adj]"

definition mark_unseen :: "bool list \<times> nat list \<Rightarrow> nat \<Rightarrow> (bool list \<times> nat list) option" where
  "mark_unseen = (\<lambda>(seen, stack) v. do {
     s \<leftarrow> idx seen v;
     (if s then Some (seen, stack) else do { seen \<leftarrow> upd seen v True; Some (seen, v # stack) })
   })"

lemma mark_unseen_shrinks:
  "try_fold mark_unseen (seen, stack) vs = Some (seen', stack') \<Longrightarrow>
     2 * unseen seen' + length stack' \<le> 2 * unseen seen + length stack"
proof (induction vs arbitrary: seen stack)
  case (Cons v vs)
  then obtain s1 t1 where m: "mark_unseen (seen, stack) v = Some (s1, t1)" "try_fold mark_unseen (s1, t1) vs = Some (seen', stack')"
    by (auto split: option.splits)
  have "2 * unseen s1 + length t1 \<le> 2 * unseen seen + length stack"
    using m(1) unseen_upd [of v seen] by (auto simp: mark_unseen_def res_simps split: if_splits)
  with Cons.IH [OF m(2)] show ?case by simp
qed simp

function collect_loop :: "nat list list \<Rightarrow> bool list \<Rightarrow> nat list \<Rightarrow> nat list \<Rightarrow> (nat list \<times> bool list) option" where
  "collect_loop adj seen mems [] = Some (mems, seen)"
| "collect_loop adj seen mems (v # stack) =
     (case idx adj v of
        None \<Rightarrow> None
      | Some targets \<Rightarrow>
          (case try_fold mark_unseen (seen, stack) (rev targets) of
             None \<Rightarrow> None
           | Some (seen', stack') \<Rightarrow> collect_loop adj seen' (mems @ [v]) stack'))"
  by pat_completeness auto

termination collect_loop
  by (relation "measure (\<lambda>(_, seen, _, stack). 2 * unseen seen + length stack)")
    (auto dest: mark_unseen_shrinks)

definition collect_component :: "nat \<Rightarrow> nat list list \<Rightarrow> bool list \<Rightarrow> (nat list \<times> bool list) option" where
  "collect_component start adj seen = do {
     seen \<leftarrow> upd seen start True;
     collect_loop adj seen [] [start]
   }"

definition component_step ::
  "nat list list \<Rightarrow> nat list list \<Rightarrow> bool list \<times> DependencyScc list \<Rightarrow> nat \<Rightarrow> (bool list \<times> DependencyScc list) option" where
  "component_step dependencies transposed = (\<lambda>(seen, components) start. do {
     s \<leftarrow> idx seen start;
     (if s then Some (seen, components)
      else do {
        (mems, seen) \<leftarrow> collect_component start transposed seen;
        (let mems = sort mems in do {
           first \<leftarrow> idx mems 0;
           targets \<leftarrow> idx dependencies first;
           Some (seen, components @ [\<lparr>members = mems, recursive = (length mems > 1 \<or> first \<in> set targets)\<rparr>])
        })
      })
   })"

definition dependency_first_sccs :: "nat list list \<Rightarrow> (DependencyGraphError + DependencyScc list) option" where
  "dependency_first_sccs dependencies =
     (case check_targets dependencies of
        Inl e \<Rightarrow> Some (Inl e)
      | Inr _ \<Rightarrow> do {
          order \<leftarrow> finish_order dependencies;
          transposed \<leftarrow> transpose_edges dependencies;
          (_, components) \<leftarrow> try_fold (component_step dependencies transposed)
            (replicate (length dependencies) False, []) (rev order);
          Some (Inr (rev components))
        })"

section \<open>The finish order\<close>

text \<open>The steps out of a set of nodes.\<close>

definition out_steps :: "nat list list \<Rightarrow> nat set \<Rightarrow> (nat \<times> nat) set" where
  "out_steps adj X = {(a, b). a \<in> X \<and> b \<in> set (nbrs adj a)}"

lemma out_steps_reach: "(a, b) \<in> (out_steps adj X)\<^sup>* \<Longrightarrow> reach adj a b"
  by (rule rtrancl_mono [THEN subsetD]) (auto simp: out_steps_def)

lemma out_steps_closed:
  assumes "(a, y) \<in> (out_steps adj X)\<^sup>*" and "a \<in> S" and "\<And>v. v \<in> X \<Longrightarrow> set (nbrs adj v) \<subseteq> S"
  shows "y \<in> S"
  using assms(1,2) by induction (use assms(3) in \<open>auto simp: out_steps_def\<close>)

text \<open>A path out of \<open>X\<close> and one more node \<open>x\<close> either stays in \<open>X\<close> or comes to \<open>x\<close> first.\<close>

lemma out_steps_insert:
  assumes "(a, y) \<in> (out_steps adj (insert x X))\<^sup>*"
  shows "(a, y) \<in> (out_steps adj X)\<^sup>* \<or> (a, x) \<in> (out_steps adj X)\<^sup>*"
  using assms
proof (induction rule: converse_rtrancl_induct)
  case (step a b)
  then show ?case by (cases "a = x") (auto simp: out_steps_def intro: converse_rtrancl_into_rtrancl)
qed simp

definition finish_sound :: "nat list list \<Rightarrow> nat list \<Rightarrow> bool" where
  "finish_sound adj F \<longleftrightarrow>
     (\<forall>A s B. F = A @ s # B \<longrightarrow> (\<forall>u \<in> set A. (u, s) \<in> (out_steps adj (set A))\<^sup>* \<longrightarrow> reach adj s u))"

definition dfs_inv :: "nat list list \<Rightarrow> bool list \<Rightarrow> nat list \<Rightarrow> (nat \<times> nat) list \<Rightarrow> bool" where
  "dfs_inv adj seen F stack \<longleftrightarrow>
     length seen = length adj \<and> (\<forall>v < length adj. seen ! v \<longleftrightarrow> v \<in> set F \<union> set (map fst stack)) \<and>
     distinct (F @ map fst stack) \<and> set F \<union> set (map fst stack) \<subseteq> {..<length adj} \<and>
     (\<forall>v \<in> set F. set (nbrs adj v) \<subseteq> set F \<union> set (map fst stack)) \<and>
     (\<forall>(v, k) \<in> set stack. set (take k (nbrs adj v)) \<subseteq> set F \<union> set (map fst stack)) \<and>
     sorted_wrt (\<lambda>x y. reach adj y x) (map fst stack) \<and>
     (\<forall>a \<in> set F. \<forall>y \<in> set (map fst stack). (a, y) \<in> (out_steps adj (set F))\<^sup>* \<longrightarrow> reach adj y a) \<and>
     finish_sound adj F"

lemma dfs_invI:
  assumes "length seen = length adj" "\<And>v. v < length adj \<Longrightarrow> seen ! v \<longleftrightarrow> v \<in> set F \<union> set (map fst stack)"
    "distinct (F @ map fst stack)" "set F \<union> set (map fst stack) \<subseteq> {..<length adj}"
    "\<And>v. v \<in> set F \<Longrightarrow> set (nbrs adj v) \<subseteq> set F \<union> set (map fst stack)"
    "\<And>v k. (v, k) \<in> set stack \<Longrightarrow> set (take k (nbrs adj v)) \<subseteq> set F \<union> set (map fst stack)"
    "sorted_wrt (\<lambda>x y. reach adj y x) (map fst stack)"
    "\<And>a y. a \<in> set F \<Longrightarrow> y \<in> set (map fst stack) \<Longrightarrow> (a, y) \<in> (out_steps adj (set F))\<^sup>* \<Longrightarrow> reach adj y a"
    "finish_sound adj F"
  shows "dfs_inv adj seen F stack"
proof -
  have "\<forall>(v, k) \<in> set stack. set (take k (nbrs adj v)) \<subseteq> set F \<union> set (map fst stack)"
    using assms(6) by fast
  then show ?thesis
    unfolding dfs_inv_def using assms(1,3,4,7,9) assms(2,5,8) by (intro conjI) blast+
qed

lemma dfs_invD:
  assumes "dfs_inv adj seen F stack"
  shows "length seen = length adj" "\<And>v. v < length adj \<Longrightarrow> seen ! v \<longleftrightarrow> v \<in> set F \<union> set (map fst stack)"
    "distinct (F @ map fst stack)" "set F \<union> set (map fst stack) \<subseteq> {..<length adj}"
    "\<And>v. v \<in> set F \<Longrightarrow> set (nbrs adj v) \<subseteq> set F \<union> set (map fst stack)"
    "\<And>v k. (v, k) \<in> set stack \<Longrightarrow> set (take k (nbrs adj v)) \<subseteq> set F \<union> set (map fst stack)"
    "sorted_wrt (\<lambda>x y. reach adj y x) (map fst stack)"
    "\<And>a y. a \<in> set F \<Longrightarrow> y \<in> set (map fst stack) \<Longrightarrow> (a, y) \<in> (out_steps adj (set F))\<^sup>* \<Longrightarrow> reach adj y a"
    "finish_sound adj F"
  using assms unfolding dfs_inv_def by (blast, blast, blast, blast, blast, fast, blast, blast, blast)

text \<open>A node outside the seen ones is not reached from the finished ones.\<close>

lemma dfs_unseen_apart:
  assumes "dfs_inv adj seen F stack" and "a \<in> set F" and "(a, y) \<in> (out_steps adj (set F))\<^sup>*"
  shows "y \<in> set F \<union> set (map fst stack)"
  using assms(2) dfs_invD(5) [OF assms(1)] by (intro out_steps_closed [OF assms(3)]) auto

lemma dfs_push:
  assumes inv: "dfs_inv adj seen F stack" and w: "w < length adj" "\<not> seen ! w"
    and chain: "stack = [] \<or> w \<in> set (nbrs adj (fst (hd stack)))"
  shows "dfs_inv adj (seen[w := True]) F ((w, 0) # stack)"
proof -
  note d = dfs_invD [OF inv]
  have fresh: "w \<notin> set F \<union> set (map fst stack)" using d(2) [OF w(1)] w(2) by blast
  show ?thesis
  proof (rule dfs_invI)
    show "sorted_wrt (\<lambda>x y. reach adj y x) (map fst ((w, 0) # stack))"
    proof (cases stack)
      case (Cons s rest)
      have "reach adj (fst s) w" using chain Cons by (simp add: reach_step)
      moreover have "reach adj y (fst s)" if "y \<in> set (map fst rest)" for y using d(7) Cons that by auto
      ultimately have "reach adj y w" if "y \<in> set (map fst stack)" for y
        using Cons that by (auto intro: rtrancl_trans)
      then show ?thesis using d(7) by auto
    qed simp
    show "reach adj y a" if "a \<in> set F" "y \<in> set (map fst ((w, 0) # stack))" "(a, y) \<in> (out_steps adj (set F))\<^sup>*" for a y
      using d(8) [OF that(1) _ that(3)] dfs_unseen_apart [OF inv that(1,3)] that(2) fresh by auto
    show "seen[w := True] ! v \<longleftrightarrow> v \<in> set F \<union> set (map fst ((w, 0) # stack))" if "v < length adj" for v
      using d(2) [OF that] d(1) that w by (cases "v = w") auto
    show "set (nbrs adj v) \<subseteq> set F \<union> set (map fst ((w, 0) # stack))" if "v \<in> set F" for v using d(5) [OF that] by auto
    show "set (take k (nbrs adj v)) \<subseteq> set F \<union> set (map fst ((w, 0) # stack))" if "(v, k) \<in> set ((w, 0) # stack)" for v k
      using d(6) [of v k] that by auto
  qed (use d fresh w in auto)
qed

lemma dfs_advance:
  assumes inv: "dfs_inv adj seen F ((v, k) # stack)" and w: "k < length (nbrs adj v)" "nbrs adj v ! k \<in> set F \<union> set (map fst ((v, k) # stack))"
  shows "dfs_inv adj seen F ((v, Suc k) # stack)"
proof -
  note d = dfs_invD [OF inv]
  have "set (take (Suc k) (nbrs adj v)) \<subseteq> set F \<union> set (map fst ((v, k) # stack))"
    using d(6) [of v k] w by (auto simp: take_Suc_conv_app_nth)
  then show ?thesis using inv unfolding dfs_inv_def by simp
qed

lemma dfs_finish:
  assumes inv: "dfs_inv adj seen F ((v, k) # stack)" and all: "length (nbrs adj v) \<le> k"
  shows "dfs_inv adj seen (F @ [v]) stack"
proof -
  note d = dfs_invD [OF inv]
  have below: "reach adj y v" if "y \<in> set (map fst stack)" for y using d(7) that by auto
  have nv: "set (nbrs adj v) \<subseteq> set F \<union> set (map fst ((v, k) # stack))" using d(6) [of v k] all by simp
  show ?thesis
  proof (rule dfs_invI)
    show "reach adj y a"
      if a: "a \<in> set (F @ [v])" and y: "y \<in> set (map fst stack)" and p: "(a, y) \<in> (out_steps adj (set (F @ [v])))\<^sup>*" for a y
    proof (cases "a \<in> set F")
      case True
      have "(a, y) \<in> (out_steps adj (set F))\<^sup>* \<or> (a, v) \<in> (out_steps adj (set F))\<^sup>*"
        using p out_steps_insert [of a y adj v "set F"] by simp
      then show ?thesis using d(8) [OF True] y below [OF y] by (auto intro: rtrancl_trans)
    next
      case False
      then show ?thesis using a below [OF y] by simp
    qed
    show "finish_sound adj (F @ [v])"
      unfolding finish_sound_def
    proof (intro allI impI ballI)
      fix A s B u assume split: "F @ [v] = A @ s # B" and u: "u \<in> set A" "(u, s) \<in> (out_steps adj (set A))\<^sup>*"
      show "reach adj s u"
      proof (cases B rule: rev_cases)
        case Nil
        then show ?thesis using split u d(8) [of u v] by simp
      next
        case (snoc B' b)
        then have "F = A @ s # B'" using split by simp
        then show ?thesis using d(9) u unfolding finish_sound_def by blast
      qed
    qed
    show "set (nbrs adj a) \<subseteq> set (F @ [v]) \<union> set (map fst stack)" if "a \<in> set (F @ [v])" for a
      using that d(5) [of a] nv by auto
    show "set (take j (nbrs adj a)) \<subseteq> set (F @ [v]) \<union> set (map fst stack)" if "(a, j) \<in> set stack" for a j
      using d(6) [of a j] that by auto
  qed (use d in auto)
qed

lemma finish_loop_correct:
  assumes "dfs_inv adj seen F stack" and "adj_ok (length adj) adj"
  shows "\<exists>seen' F'. finish_loop adj seen F stack = Some (seen', F') \<and> dfs_inv adj seen' F' [] \<and>
    set F \<union> set (map fst stack) \<subseteq> set F'"
  using assms
proof (induction adj seen F stack rule: finish_loop.induct)
  case (1 adj seen F)
  then show ?case by simp
next
  case (2 adj seen F v k stack)
  note d = dfs_invD [OF 2(3)]
  have v: "v < length adj" using d(4) by simp
  then have adjv: "idx adj v = Some (nbrs adj v)" by (simp add: nbrs_def)
  show ?case
  proof (cases "k < length (nbrs adj v)")
    case False
    then have none: "idx (nbrs adj v) k = None" by simp
    have "dfs_inv adj seen (F @ [v]) stack" using dfs_finish [OF 2(3)] False by simp
    from 2(1) [OF adjv none this 2(4)] show ?thesis using adjv none by auto
  next
    case True
    let ?w = "nbrs adj v ! k"
    have some: "idx (nbrs adj v) k = Some ?w" using True by simp
    have w: "?w < length adj" using 2(4) v True by (simp add: adj_ok_def)
    show ?thesis
    proof (cases "seen ! ?w")
      case seen: True
      then have push: "push_unseen ?w seen ((v, Suc k) # stack) = Some (seen, (v, Suc k) # stack)"
        using w d(1) by (simp add: push_unseen_def)
      have "dfs_inv adj seen F ((v, Suc k) # stack)"
        using dfs_advance [OF 2(3) True] d(2) [OF w] seen by simp
      from 2(2) [OF adjv some push refl this 2(4)] show ?thesis using adjv some push by auto
    next
      case False
      then have push: "push_unseen ?w seen ((v, Suc k) # stack) = Some (seen[?w := True], (?w, 0) # (v, Suc k) # stack)"
        using w d(1) by (simp add: push_unseen_def)
      have "dfs_inv adj (seen[?w := True]) F ((?w, 0) # (v, k) # stack)"
        using dfs_push [OF 2(3) w False] True by simp
      then have "dfs_inv adj (seen[?w := True]) F ((?w, 0) # (v, Suc k) # stack)"
        using True unfolding dfs_inv_def by (auto simp: take_Suc_conv_app_nth)
      from 2(2) [OF adjv some push refl this 2(4)]
      obtain seen' F' where r: "finish_loop adj (seen[?w := True]) F ((?w, 0) # (v, Suc k) # stack) = Some (seen', F')"
        "dfs_inv adj seen' F' []" "set F \<union> set (map fst ((?w, 0) # (v, Suc k) # stack)) \<subseteq> set F'" by blast
      have "finish_loop adj seen F ((v, k) # stack) = Some (seen', F')"
        by (subst finish_loop.simps(2)) (simp only: adjv some push r(1) option.case prod.case)
      moreover have "set F \<union> set (map fst ((v, k) # stack)) \<subseteq> set F'" using r(3) by auto
      ultimately show ?thesis using r(2) by blast
    qed
  qed
qed

lemma finish_order_correct:
  assumes "adj_ok (length adj) adj"
  shows "\<exists>F. finish_order adj = Some F \<and> distinct F \<and> set F = {..<length adj} \<and> finish_sound adj F"
proof -
  let ?P = "\<lambda>i (seen, F). dfs_inv adj seen F [] \<and> {..<i} \<subseteq> set F"
  have "\<exists>s. try_fold (finish_step adj) (replicate (length adj) False, []) [0..<length adj] = Some s \<and> ?P (length adj) s"
  proof (rule try_fold_upt)
    show "?P 0 (replicate (length adj) False, [])" by (simp add: dfs_inv_def finish_sound_def)
  next
    fix i s assume i: "i < length adj" and P: "?P i s"
    obtain seen F where s: "s = (seen, F)" by (cases s)
    have inv: "dfs_inv adj seen F []" and sub: "{..<i} \<subseteq> set F" using P s by auto
    note d = dfs_invD [OF inv]
    show "\<exists>s'. finish_step adj s i = Some s' \<and> ?P (Suc i) s'"
    proof (cases "seen ! i")
      case True
      then show ?thesis using d(1,2) i inv sub by (auto simp: s finish_step_def less_Suc_eq)
    next
      case False
      have "dfs_inv adj (seen[i := True]) F [(i, 0)]" using dfs_push [OF inv i False] by simp
      from finish_loop_correct [OF this assms] obtain seen' F' where
        "finish_loop adj (seen[i := True]) F [(i, 0)] = Some (seen', F')" "dfs_inv adj seen' F' []" "set F \<union> {i} \<subseteq> set F'" by auto
      then show ?thesis using d(1) i False sub by (auto simp: s finish_step_def less_Suc_eq)
    qed
  qed
  then obtain seen F where F: "try_fold (finish_step adj) (replicate (length adj) False, []) [0..<length adj] = Some (seen, F)"
    "dfs_inv adj seen F []" "{..<length adj} \<subseteq> set F" by auto
  then show ?thesis using dfs_invD(3,4,9) [OF F(2)] by (auto simp: finish_order_def)
qed

section \<open>The transposed edges\<close>

lemma transpose_row:
  assumes "\<forall>v \<in> set vs. v < length T"
  shows "\<exists>T'. try_fold (transpose_edge c) T vs = Some T' \<and> length T' = length T \<and>
    (\<forall>v < length T. set (T' ! v) = set (T ! v) \<union> {u. u = c \<and> v \<in> set vs})"
  using assms
proof (induction vs arbitrary: T)
  case (Cons w vs)
  let ?T = "T[w := T ! w @ [c]]"
  have step: "transpose_edge c T w = Some ?T" using Cons.prems by (simp add: transpose_edge_def)
  have "\<forall>v \<in> set vs. v < length ?T" using Cons.prems by simp
  from Cons.IH [OF this] obtain T' where T': "try_fold (transpose_edge c) ?T vs = Some T'" "length T' = length T"
    "\<And>v. v < length T \<Longrightarrow> set (T' ! v) = set (?T ! v) \<union> {u. u = c \<and> v \<in> set vs}" by auto
  have "set (T' ! v) = set (T ! v) \<union> {u. u = c \<and> v \<in> set (w # vs)}" if "v < length T" for v
    using T'(3) [OF that] that by (cases "v = w") auto
  then show ?case using step T'(1,2) by auto
qed auto

lemma transpose_edges_correct:
  assumes ok: "adj_ok (length adj) adj"
  shows "\<exists>T. transpose_edges adj = Some T \<and> length T = length adj \<and>
    (\<forall>v < length adj. set (nbrs T v) = {u. u < length adj \<and> v \<in> set (nbrs adj u)})"
proof -
  let ?n = "length adj"
  let ?P = "\<lambda>i T. length T = ?n \<and> (\<forall>v < ?n. set (T ! v) = {u. u < i \<and> v \<in> set (nbrs adj u)})"
  have "\<exists>T. transpose_edges adj = Some T \<and> ?P ?n T"
    unfolding transpose_edges_def
  proof (rule try_fold_upt [where P = ?P])
    show "?P 0 (replicate ?n [])" by simp
  next
    fix i T assume i: "i < ?n" and P: "?P i T"
    have "\<forall>v \<in> set (adj ! i). v < length T" using ok i P by (auto simp: adj_ok_def nbrs_def)
    from transpose_row [OF this, of i] obtain T' where T': "try_fold (transpose_edge i) T (adj ! i) = Some T'"
      "length T' = length T" "\<And>v. v < length T \<Longrightarrow> set (T' ! v) = set (T ! v) \<union> {u. u = i \<and> v \<in> set (adj ! i)}" by blast
    have "set (T' ! v) = {u. u < Suc i \<and> v \<in> set (nbrs adj u)}" if "v < ?n" for v
    proof -
      have "set (T ! v) = {u. u < i \<and> v \<in> set (nbrs adj u)}" using P that by blast
      then show ?thesis using T'(3) [of v] P that i by (auto simp: nbrs_def less_Suc_eq)
    qed
    then show "\<exists>T'. try_fold (transpose_edge i) T (adj ! i) = Some T' \<and> ?P (Suc i) T'" using T'(1,2) P by auto
  qed
  then obtain T where "transpose_edges adj = Some T" "?P ?n T" by blast
  then show ?thesis by (auto simp: nbrs_def)
qed

section \<open>The components\<close>

lemma mark_fold:
  assumes "\<forall>v \<in> set vs. v < length seen"
  shows "\<exists>seen' new. try_fold mark_unseen (seen, stack) vs = Some (seen', new @ stack) \<and> length seen' = length seen \<and>
    (\<forall>x < length seen. seen' ! x \<longleftrightarrow> seen ! x \<or> x \<in> set vs) \<and> distinct new \<and> set new = {x \<in> set vs. \<not> seen ! x}"
  using assms
proof (induction vs arbitrary: seen stack)
  case (Cons v vs)
  show ?case
  proof (cases "seen ! v")
    case True
    then have step: "mark_unseen (seen, stack) v = Some (seen, stack)" using Cons.prems by (simp add: mark_unseen_def)
    from Cons.IH [of seen stack] Cons.prems obtain seen' new where r: "try_fold mark_unseen (seen, stack) vs = Some (seen', new @ stack)"
      "length seen' = length seen" "\<forall>x < length seen. seen' ! x \<longleftrightarrow> seen ! x \<or> x \<in> set vs" "distinct new" "set new = {x \<in> set vs. \<not> seen ! x}"
      by auto
    have "set new = {x \<in> set (v # vs). \<not> seen ! x}" using r(5) True by auto
    moreover have "\<forall>x < length seen. seen' ! x \<longleftrightarrow> seen ! x \<or> x \<in> set (v # vs)" using r(3) True by auto
    ultimately show ?thesis using step r(1,2,4) by (intro exI [of _ seen'] exI [of _ new]) simp
  next
    case False
    let ?seen = "seen[v := True]"
    have step: "mark_unseen (seen, stack) v = Some (?seen, v # stack)" using Cons.prems False by (simp add: mark_unseen_def)
    from Cons.IH [of ?seen "v # stack"] Cons.prems obtain seen' new where r: "try_fold mark_unseen (?seen, v # stack) vs = Some (seen', new @ v # stack)"
      "length seen' = length seen" "\<forall>x < length seen. seen' ! x \<longleftrightarrow> ?seen ! x \<or> x \<in> set vs" "distinct new" "set new = {x \<in> set vs. \<not> ?seen ! x}"
      by auto
    have v: "?seen ! v" using Cons.prems by simp
    have other: "x \<noteq> v \<Longrightarrow> ?seen ! x = seen ! x" for x by simp
    have "set (new @ [v]) = {x \<in> set (v # vs). \<not> seen ! x}"
    proof (rule set_eqI)
      fix x show "x \<in> set (new @ [v]) \<longleftrightarrow> x \<in> {x \<in> set (v # vs). \<not> seen ! x}"
        unfolding set_append r(5) using v other [of x] False by (cases "x = v") simp_all
    qed
    moreover have "distinct (new @ [v])" using r(4,5) v by simp
    moreover have "seen' ! x \<longleftrightarrow> seen ! x \<or> x \<in> set (v # vs)" if "x < length seen" for x
      using r(3) that v other [of x] by (cases "x = v") simp_all
    ultimately show ?thesis using step r(1,2) by (intro exI [of _ seen'] exI [of _ "new @ [v]"]) simp
  qed
qed simp

text \<open>
  The state of one collection from \<open>start\<close> over the transposed edges \<open>T\<close>, when the nodes of
  \<open>S\<close> were seen before: every collected or stacked node leads to \<open>start\<close> outside \<open>S\<close>.
\<close>

definition collect_inv :: "nat list list \<Rightarrow> nat list list \<Rightarrow> nat set \<Rightarrow> nat \<Rightarrow> bool list \<Rightarrow> nat list \<Rightarrow> nat list \<Rightarrow> bool" where
  "collect_inv adj T S start seen mems stack \<longleftrightarrow>
     length seen = length adj \<and> (\<forall>x < length adj. seen ! x \<longleftrightarrow> x \<in> S \<union> set mems \<union> set stack) \<and>
     distinct (mems @ stack) \<and> set mems \<union> set stack \<subseteq> {..<length adj} - S \<and>
     (\<forall>v \<in> set mems. set (nbrs T v) \<subseteq> S \<union> set mems \<union> set stack) \<and>
     (\<forall>u \<in> set mems \<union> set stack. (u, start) \<in> (out_steps adj (- S))\<^sup>*)"

lemma collect_step:
  assumes inv: "collect_inv adj T S start seen mems (v # stack)"
    and T: "\<And>v. v < length adj \<Longrightarrow> set (nbrs T v) = {u. u < length adj \<and> v \<in> set (nbrs adj u)}"
  shows "\<exists>seen' stack'. try_fold mark_unseen (seen, stack) (rev (nbrs T v)) = Some (seen', stack') \<and>
    collect_inv adj T S start seen' (mems @ [v]) stack' \<and> set stack \<subseteq> set stack'"
proof -
  have len: "length seen = length adj" and sn: "\<And>x. x < length adj \<Longrightarrow> seen ! x \<longleftrightarrow> x \<in> S \<union> set mems \<union> set (v # stack)"
    and dist: "distinct (mems @ v # stack)" and sub: "set mems \<union> set (v # stack) \<subseteq> {..<length adj} - S"
    and closed: "\<And>x. x \<in> set mems \<Longrightarrow> set (nbrs T x) \<subseteq> S \<union> set mems \<union> set (v # stack)"
    and lead: "\<And>u. u \<in> set mems \<union> set (v # stack) \<Longrightarrow> (u, start) \<in> (out_steps adj (- S))\<^sup>*"
    using inv unfolding collect_inv_def by blast+
  have v: "v < length adj" "v \<notin> S" using sub by auto
  have "\<forall>x \<in> set (rev (nbrs T v)). x < length seen" using T [OF v(1)] len by auto
  from mark_fold [OF this, of stack] obtain seen' new where
    r: "try_fold mark_unseen (seen, stack) (rev (nbrs T v)) = Some (seen', new @ stack)" "length seen' = length seen"
      "\<And>x. x < length seen \<Longrightarrow> seen' ! x \<longleftrightarrow> seen ! x \<or> x \<in> set (nbrs T v)" "distinct new"
      "set new = {x \<in> set (nbrs T v). \<not> seen ! x}" by auto
  have new: "x < length adj" "v \<in> set (nbrs adj x)" "x \<notin> S \<union> set mems \<union> set (v # stack)" if "x \<in> set new" for x
    using that r(5) T [OF v(1)] sn [of x] by auto
  have "collect_inv adj T S start seen' (mems @ [v]) (new @ stack)"
    unfolding collect_inv_def
  proof (intro conjI ballI allI impI)
    show "length seen' = length adj" using r(2) len by simp
    show "distinct ((mems @ [v]) @ new @ stack)" using dist r(4) new(3) by auto
    show "set (mems @ [v]) \<union> set (new @ stack) \<subseteq> {..<length adj} - S" using sub new by auto
  next
    fix x assume x: "x < length adj"
    show "seen' ! x \<longleftrightarrow> x \<in> S \<union> set (mems @ [v]) \<union> set (new @ stack)"
      using r(3) [of x] len x sn [OF x] r(5) by auto
  next
    fix x assume x: "x \<in> set (mems @ [v])"
    show "set (nbrs T x) \<subseteq> S \<union> set (mems @ [v]) \<union> set (new @ stack)"
    proof (cases "x = v")
      case True
      have "y \<in> S \<union> set (mems @ [v]) \<union> set (new @ stack)" if "y \<in> set (nbrs T v)" for y
        using that sn [of y] r(5) T [OF v(1)] by auto
      then show ?thesis using True by blast
    next
      case False
      then show ?thesis using closed [of x] x by auto
    qed
  next
    fix u assume u: "u \<in> set (mems @ [v]) \<union> set (new @ stack)"
    show "(u, start) \<in> (out_steps adj (- S))\<^sup>*"
    proof (cases "u \<in> set new")
      case True
      have "(u, v) \<in> out_steps adj (- S)" using new [OF True] by (simp add: out_steps_def)
      then show ?thesis using lead [of v] by (simp add: converse_rtrancl_into_rtrancl)
    next
      case False
      then show ?thesis using u lead by auto
    qed
  qed
  then show ?thesis using r(1) by auto
qed

lemma collect_loop_correct:
  assumes "collect_inv adj T S start seen mems stack" and "length T = length adj"
    and "\<And>v. v < length adj \<Longrightarrow> set (nbrs T v) = {u. u < length adj \<and> v \<in> set (nbrs adj u)}"
  shows "\<exists>mems' seen'. collect_loop T seen mems stack = Some (mems', seen') \<and> collect_inv adj T S start seen' mems' [] \<and>
    set mems \<union> set stack \<subseteq> set mems'"
  using assms
proof (induction T seen mems stack rule: collect_loop.induct)
  case (1 T seen mems)
  then show ?case by simp
next
  case (2 T seen mems v stack)
  have "v < length T" using 2(2,3) by (simp add: collect_inv_def)
  then have row: "idx T v = Some (nbrs T v)" by (simp add: nbrs_def)
  from collect_step [OF 2(2,4)] obtain seen' stack' where st: "try_fold mark_unseen (seen, stack) (rev (nbrs T v)) = Some (seen', stack')"
    "collect_inv adj T S start seen' (mems @ [v]) stack'" "set stack \<subseteq> set stack'" by blast
  from 2(1) [OF row st(1) refl st(2) 2(3,4)] obtain mems' seen'' where r: "collect_loop T seen' (mems @ [v]) stack' = Some (mems', seen'')"
    "collect_inv adj T S start seen'' mems' []" "set (mems @ [v]) \<union> set stack' \<subseteq> set mems'" by blast
  have "collect_loop T seen mems (v # stack) = Some (mems', seen'')"
    by (subst collect_loop.simps(2)) (simp only: row st(1) r(1) option.case prod.case)
  moreover have "set mems \<union> set (v # stack) \<subseteq> set mems'" using r(3) st(3) by auto
  ultimately show ?case using r(2) by blast
qed

text \<open>
  The state of the second walk after the nodes of \<open>done\<close>, a suffix of the finish order: the
  components so far hold the seen nodes, and with a node every node with an edge to it.
\<close>

definition component_ok :: "nat list list \<Rightarrow> DependencyScc \<Rightarrow> bool" where
  "component_ok adj c \<longleftrightarrow> members c \<noteq> [] \<and> sorted (members c) \<and>
     (\<forall>u \<in> set (members c). \<forall>v \<in> set (members c). reach adj u v) \<and>
     (recursive c \<longleftrightarrow> 1 < length (members c) \<or> hd (members c) \<in> set (nbrs adj (hd (members c))))"

abbreviation collected :: "DependencyScc list \<Rightarrow> nat list" where
  "collected comps \<equiv> concat (map members comps)"

definition comps_inv :: "nat list list \<Rightarrow> nat set \<Rightarrow> bool list \<Rightarrow> DependencyScc list \<Rightarrow> bool" where
  "comps_inv adj processed seen comps \<longleftrightarrow>
     length seen = length adj \<and> (\<forall>x < length adj. seen ! x \<longleftrightarrow> x \<in> set (collected comps)) \<and>
     processed \<subseteq> set (collected comps) \<and> distinct (collected comps) \<and> set (collected comps) \<subseteq> {..<length adj} \<and>
     (\<forall>c \<in> set comps. component_ok adj c) \<and>
     (\<forall>i < length comps. \<forall>w \<in> set (members (comps ! i)). \<forall>u < length adj.
        w \<in> set (nbrs adj u) \<longrightarrow> (\<exists>j \<le> i. u \<in> set (members (comps ! j))))"

lemma collect_component_correct:
  assumes len: "length seen = length adj" "length T = length adj"
    and seen: "\<And>x. x < length adj \<Longrightarrow> seen ! x \<longleftrightarrow> x \<in> S" and s: "s < length adj" "s \<notin> S"
    and T: "\<And>v. v < length adj \<Longrightarrow> set (nbrs T v) = {u. u < length adj \<and> v \<in> set (nbrs adj u)}"
  shows "\<exists>mems seen'. collect_component s T seen = Some (mems, seen') \<and> collect_inv adj T S s seen' mems [] \<and> s \<in> set mems"
proof -
  have "(seen[s := True]) ! x \<longleftrightarrow> x \<in> S \<union> {s}" if "x < length adj" for x
    using seen [OF that] len s that by (cases "x = s") auto
  then have "collect_inv adj T S s (seen[s := True]) [] [s]"
    using len s by (simp add: collect_inv_def)
  from collect_loop_correct [OF this len(2) T] show ?thesis
    using len s by (auto simp: collect_component_def)
qed

text \<open>The finish order makes what leads to \<open>s\<close> outside the seen nodes reachable from it.\<close>

lemma collected_reach:
  assumes F: "finish_sound adj (A @ s # B)" "set (A @ s # B) = {..<length adj}"
    and B: "set B \<subseteq> S" and lead: "(u, s) \<in> (out_steps adj (- S))\<^sup>*" and u: "u < length adj" "u \<notin> S"
  shows "reach adj s u"
proof (cases "u = s")
  case False
  have "out_steps adj (- S) \<subseteq> out_steps adj (insert s (set A))"
  proof
    fix e assume "e \<in> out_steps adj (- S)"
    then obtain a b where e: "e = (a, b)" "a \<notin> S" "b \<in> set (nbrs adj a)" by (auto simp: out_steps_def)
    then have "a < length adj" by (auto simp: nbrs_def split: if_splits)
    then have "a \<in> set (A @ s # B)" using F(2) by blast
    then show "e \<in> out_steps adj (insert s (set A))" using e B by (auto simp: out_steps_def)
  qed
  then have "(u, s) \<in> (out_steps adj (insert s (set A)))\<^sup>*" using lead rtrancl_mono by blast
  then have "(u, s) \<in> (out_steps adj (set A))\<^sup>*" using out_steps_insert by blast
  moreover have "u \<in> set (A @ s # B)" using F(2) u(1) by blast
  then have "u \<in> set A" using False u(2) B by auto
  ultimately show ?thesis using F(1) unfolding finish_sound_def by blast
qed simp

lemma component_step_correct:
  assumes F: "finish_sound adj (A @ s # B)" "set (A @ s # B) = {..<length adj}"
    and T: "length T = length adj" "\<And>v. v < length adj \<Longrightarrow> set (nbrs T v) = {u. u < length adj \<and> v \<in> set (nbrs adj u)}"
    and inv: "comps_inv adj (set B) seen comps"
  shows "\<exists>seen' comps'. component_step adj T (seen, comps) s = Some (seen', comps') \<and> comps_inv adj (set (s # B)) seen' comps'"
proof -
  let ?S = "set (collected comps)"
  have len: "length seen = length adj" and sn: "\<And>x. x < length adj \<Longrightarrow> seen ! x \<longleftrightarrow> x \<in> ?S"
    and B: "set B \<subseteq> ?S" and dist: "distinct (collected comps)" and sub: "?S \<subseteq> {..<length adj}"
    and comp: "\<And>c. c \<in> set comps \<Longrightarrow> component_ok adj c"
    and pred: "\<And>i w u. i < length comps \<Longrightarrow> w \<in> set (members (comps ! i)) \<Longrightarrow> u < length adj \<Longrightarrow>
        w \<in> set (nbrs adj u) \<Longrightarrow> \<exists>j \<le> i. u \<in> set (members (comps ! j))"
    using inv unfolding comps_inv_def by blast+
  have s: "s < length adj" using F(2) by auto
  show ?thesis
  proof (cases "seen ! s")
    case True
    then have "comps_inv adj (set (s # B)) seen comps" using inv sn [OF s] unfolding comps_inv_def by auto
    then show ?thesis using True s len by (simp add: component_step_def)
  next
    case False
    then have fresh: "s \<notin> ?S" using sn [OF s] by blast
    from collect_component_correct [OF len T(1) sn s fresh T(2)] obtain mems seen' where
      cc: "collect_component s T seen = Some (mems, seen')" "collect_inv adj T ?S s seen' mems []" "s \<in> set mems" by blast
    have m: "length seen' = length adj" "\<And>x. x < length adj \<Longrightarrow> seen' ! x \<longleftrightarrow> x \<in> ?S \<union> set mems"
      "distinct mems" "set mems \<subseteq> {..<length adj} - ?S" "\<And>v. v \<in> set mems \<Longrightarrow> set (nbrs T v) \<subseteq> ?S \<union> set mems"
      "\<And>u. u \<in> set mems \<Longrightarrow> (u, s) \<in> (out_steps adj (- ?S))\<^sup>*"
      using cc(2) unfolding collect_inv_def by auto
    let ?m = "sort mems"
    let ?c = "\<lparr>members = ?m, recursive = (length ?m > 1 \<or> hd ?m \<in> set (nbrs adj (hd ?m)))\<rparr>"
    have "set ?m = set mems" by simp
    then have ne: "?m \<noteq> []" using cc(3) by force
    have hd: "hd ?m < length adj" using hd_in_set [OF ne] m(4) by auto
    have fst: "idx ?m 0 = Some (hd ?m)" "idx adj (hd ?m) = Some (nbrs adj (hd ?m))"
      using ne hd by (auto simp: hd_conv_nth nbrs_def)
    have "component_step adj T (seen, comps) s = Some (seen', comps @ [?c])"
      using False s len by (simp add: component_step_def cc(1) fst Let_def)
    moreover have "comps_inv adj (set (s # B)) seen' (comps @ [?c])"
      unfolding comps_inv_def
    proof (intro conjI allI impI ballI)
      have to: "reach adj u s" "reach adj s u" if "u \<in> set mems" for u
        using out_steps_reach [OF m(6) [OF that]] collected_reach [OF F B m(6) [OF that]] m(4) that by auto
      have "reach adj u v" if "u \<in> set mems" "v \<in> set mems" for u v
        by (rule rtrancl_trans [OF to(1) [OF that(1)] to(2) [OF that(2)]])
      then have new: "component_ok adj ?c" using ne by (simp add: component_ok_def)
      fix c assume "c \<in> set (comps @ [?c])"
      then have "c \<in> set comps \<or> c = ?c" by auto
      then show "component_ok adj c" using comp new by blast
    next
      fix i w u
      assume i: "i < length (comps @ [?c])" and w: "w \<in> set (members ((comps @ [?c]) ! i))" "u < length adj" "w \<in> set (nbrs adj u)"
      show "\<exists>j \<le> i. u \<in> set (members ((comps @ [?c]) ! j))"
      proof (cases "i < length comps")
        case True
        then have "w \<in> set (members (comps ! i))" using w(1) by (simp add: nth_append)
        from pred [OF True this w(2,3)] obtain j where j: "j \<le> i" "u \<in> set (members (comps ! j))" by blast
        then have "u \<in> set (members ((comps @ [?c]) ! j))" using True by (simp add: nth_append)
        with j(1) show ?thesis by blast
      next
        case False
        then have il: "i = length comps" using i by simp
        then have wm: "w \<in> set mems" using w(1) by simp
        then have "u \<in> set (nbrs T w)" using T(2) [of w] m(4) w(2,3) by auto
        then have "u \<in> ?S \<or> u \<in> set mems" using m(5) [OF wm] by blast
        then show ?thesis
        proof
          assume "u \<in> ?S"
          then obtain c where "c \<in> set comps" "u \<in> set (members c)" by auto
          then obtain j where "j < length comps" "u \<in> set (members (comps ! j))" by (metis in_set_conv_nth)
          then have "j \<le> i \<and> u \<in> set (members ((comps @ [?c]) ! j))" using il by (simp add: nth_append)
          then show ?thesis by blast
        next
          assume "u \<in> set mems"
          then have "u \<in> set (members ((comps @ [?c]) ! i))" using il by simp
          then show ?thesis by blast
        qed
      qed
    qed (use m(1-4) dist sub B cc(3) in auto)
    ultimately show ?thesis by blast
  qed
qed

lemma component_walk:
  assumes "finish_sound adj F" "set F = {..<length adj}" "F = A @ B"
    and "length T = length adj" "\<And>v. v < length adj \<Longrightarrow> set (nbrs T v) = {u. u < length adj \<and> v \<in> set (nbrs adj u)}"
  shows "\<exists>seen comps. try_fold (component_step adj T) (replicate (length adj) False, []) (rev B) = Some (seen, comps) \<and>
    comps_inv adj (set B) seen comps"
  using assms(3)
proof (induction B arbitrary: A)
  case Nil
  show ?case by (simp add: comps_inv_def)
next
  case (Cons s B)
  from Cons.IH [of "A @ [s]"] Cons.prems obtain seen comps where
    r: "try_fold (component_step adj T) (replicate (length adj) False, []) (rev B) = Some (seen, comps)" "comps_inv adj (set B) seen comps"
    by auto
  from component_step_correct [OF _ _ assms(4,5) r(2), of A s] assms(1,2) Cons.prems obtain seen' comps' where
    "component_step adj T (seen, comps) s = Some (seen', comps')" "comps_inv adj (set (s # B)) seen' comps'" by blast
  then show ?case using r(1) by (simp add: try_fold_append)
qed

section \<open>The result\<close>

text \<open>The rejected edge is the first, in row order, to a node outside the graph.\<close>

definition rejects_edge :: "nat list list \<Rightarrow> DependencyGraphError \<Rightarrow> bool" where
  "rejects_edge adj e \<longleftrightarrow>
     (let n = length adj; s = source e in
        node_count e = n \<and> s < n \<and> (\<forall>s' < s. \<forall>t \<in> set (adj ! s'). t < n) \<and>
        (\<exists>k < length (adj ! s). adj ! s ! k = target e \<and> n \<le> target e \<and> (\<forall>j < k. adj ! s ! j < n)))"

lemma check_loop_ok: "check_loop n s rows = Inr () \<longleftrightarrow> (\<forall>row \<in> set rows. \<forall>t \<in> set row. t < n)"
proof (induction rows arbitrary: s)
  case (Cons row rows)
  show ?case
  proof (cases "List.find (\<lambda>t. t \<ge> n) row")
    case None
    then have "\<forall>t \<in> set row. t < n" by (simp add: find_None_iff not_le)
    then show ?thesis using Cons.IH None by simp
  next
    case (Some t)
    then have "t \<in> set row" "\<not> t < n" by (auto simp: find_Some_iff)
    then show ?thesis using Some by auto
  qed
qed simp

lemma check_loop_error:
  "check_loop n s rows = Inl e \<Longrightarrow> \<exists>i < length rows. source e = s + i \<and> node_count e = n \<and>
     List.find (\<lambda>t. t \<ge> n) (rows ! i) = Some (target e) \<and> (\<forall>i' < i. \<forall>t \<in> set (rows ! i'). t < n)"
proof (induction rows arbitrary: s)
  case (Cons row rows)
  show ?case
  proof (cases "List.find (\<lambda>t. t \<ge> n) row")
    case None
    then have row: "\<forall>t \<in> set row. t < n" by (simp add: find_None_iff not_le)
    from Cons.IH [of "Suc s"] Cons.prems None obtain i where
      "i < length rows" "source e = Suc s + i" "node_count e = n" "List.find (\<lambda>t. t \<ge> n) (rows ! i) = Some (target e)"
      "\<forall>i' < i. \<forall>t \<in> set (rows ! i'). t < n" by auto
    then show ?thesis using row by (intro exI [of _ "Suc i"]) (auto simp: less_Suc_eq_0_disj)
  next
    case (Some t)
    then show ?thesis using Cons.prems by (intro exI [of _ 0]) auto
  qed
qed simp

lemma check_targets_ok: "check_targets adj = Inr () \<longleftrightarrow> adj_ok (length adj) adj"
  using check_loop_ok [of "length adj" 0 adj] by (simp add: check_targets_def adj_ok_def nbrs_def all_set_conv_all_nth)

lemma check_targets_cases:
  "(check_targets adj = Inr () \<and> adj_ok (length adj) adj) \<or>
   (\<exists>e. check_targets adj = Inl e \<and> rejects_edge adj e)"
proof (cases "check_targets adj")
  case (Inl e)
  then obtain i where "i < length adj" "source e = i" "node_count e = length adj"
    "List.find (\<lambda>t. t \<ge> length adj) (adj ! i) = Some (target e)" "\<forall>i' < i. \<forall>t \<in> set (adj ! i'). t < length adj"
    unfolding check_targets_def using check_loop_error by fastforce
  then have "rejects_edge adj e" unfolding rejects_edge_def Let_def find_Some_iff by (auto simp: not_le)
  then show ?thesis using Inl by blast
next
  case (Inr u)
  then show ?thesis using check_targets_ok [of adj] by simp
qed

lemma component_sequence:
  assumes inv: "comps_inv adj {..<length adj} seen comps" and ok: "adj_ok (length adj) adj"
  shows "scc_sequence (length adj) adj (map members (rev comps))"
proof -
  let ?C = "map members comps"
  have dist: "distinct (concat ?C)" and all: "set (concat ?C) = {..<length adj}"
    and comp: "\<And>c. c \<in> set comps \<Longrightarrow> component_ok adj c"
    and pred: "\<And>i w u. i < length comps \<Longrightarrow> w \<in> set (members (comps ! i)) \<Longrightarrow> u < length adj \<Longrightarrow>
        w \<in> set (nbrs adj u) \<Longrightarrow> \<exists>j \<le> i. u \<in> set (members (comps ! j))"
    using inv unfolding comps_inv_def by blast+
  have "members c \<noteq> []" if "c \<in> set comps" for c using comp [OF that] by (simp add: component_ok_def)
  then have ne: "[] \<notin> set ?C" by force
  have conn: "\<forall>c \<in> set ?C. \<forall>u \<in> set c. \<forall>v \<in> set c. reach adj u v" using comp unfolding component_ok_def by auto
  have order: "\<exists>j \<le> i. w \<in> set (rev ?C ! j)"
    if i: "i < length (rev ?C)" and u: "u \<in> set (rev ?C ! i)" and w: "w \<in> set (nbrs adj u)" for i u w
  proof -
    let ?i = "length comps - Suc i"
    have u': "u \<in> set (?C ! ?i)" "?i < length ?C" using u i by (simp_all add: rev_nth)
    then have "u \<in> set (concat ?C)" by auto
    then have un: "u < length adj" using all by blast
    then have "w \<in> set (concat ?C)" using w ok all by (auto simp: adj_ok_def)
    then obtain c where "c \<in> set comps" "w \<in> set (members c)" by auto
    then obtain k where k: "k < length comps" "w \<in> set (members (comps ! k))" by (metis in_set_conv_nth)
    from pred [OF k un w] obtain j where j: "j \<le> k" "u \<in> set (members (comps ! j))" by blast
    have "j = ?i" using concat_index_unique [OF dist _ u'(2) _ u'(1), of j] j k(1) by simp
    then have "length comps - Suc k \<le> i" using j(1) k(1) by linarith
    moreover have "w \<in> set (rev ?C ! (length comps - Suc k))" using k by (simp add: rev_nth)
    ultimately show ?thesis by blast
  qed
  have "distinct (concat (rev ?C))" using dist by (metis distinct_concat_rev rev_rev_ident)
  moreover have "set (concat (rev ?C)) = {..<length adj}" using all by simp
  ultimately show ?thesis unfolding scc_sequence_def rev_map [symmetric] using ne conn order by auto
qed

text \<open>The flag of a component says whether a node of it depends on itself.\<close>

lemma component_recursive:
  assumes seq: "scc_sequence n adj (map members comps)" and c: "c \<in> set comps" "component_ok adj c"
  shows "recursive c \<longleftrightarrow> (\<exists>u \<in> set (members c). (u, u) \<in> (edges adj)\<^sup>+)"
proof
  let ?h = "hd (members c)"
  have h: "?h \<in> set (members c)" using c(2) by (auto simp: component_ok_def)
  assume "recursive c"
  then consider "1 < length (members c)" | "?h \<in> set (nbrs adj ?h)" using c(2) by (auto simp: component_ok_def)
  then show "\<exists>u \<in> set (members c). (u, u) \<in> (edges adj)\<^sup>+"
  proof cases
    case 1
    obtain l where l: "l \<in> set (members c)" "l \<noteq> ?h"
    proof -
      have "distinct (members c)" using seq c(1) by (auto simp: scc_sequence_def distinct_concat_iff)
      then have "members c ! 1 \<noteq> members c ! 0" using 1 by (subst nth_eq_iff_index_eq) auto
      then show thesis using that [of "members c ! 1"] 1 h by (cases "members c") auto
    qed
    have "reach adj ?h l" "reach adj l ?h" using c(2) h l(1) unfolding component_ok_def by blast+
    then have "(?h, ?h) \<in> (edges adj)\<^sup>+" using l(2) by (metis rtranclD trancl_trans)
    then show ?thesis using h by blast
  next
    case 2
    then have "(?h, ?h) \<in> (edges adj)\<^sup>+" by auto
    then show ?thesis using h by blast
  qed
next
  assume "\<exists>u \<in> set (members c). (u, u) \<in> (edges adj)\<^sup>+"
  then obtain u where u: "u \<in> set (members c)" "(u, u) \<in> (edges adj)\<^sup>+" by blast
  then obtain w where w: "w \<in> set (nbrs adj u)" "reach adj w u" by (auto dest: tranclD)
  obtain i where i: "i < length comps" "comps ! i = c" using c(1) by (auto simp: in_set_conv_nth)
  obtain j where j: "j \<le> i" "w \<in> set (map members comps ! j)"
    using scc_sequence_reach [OF seq reach_step [OF w(1)]] i u(1) by force
  have "i = j" using scc_sequence_mutual [OF seq, of i u j w] reach_step [OF w(1)] w(2) i j u(1) by simp
  then have wc: "w \<in> set (members c)" using j i by simp
  show "recursive c"
  proof (cases "length (members c) = 1")
    case True
    then obtain x where "members c = [x]" by (auto simp: length_Suc_conv)
    then show ?thesis using c(2) u(1) w(1) wc by (simp add: component_ok_def)
  next
    case False
    then show ?thesis using c(2) by (cases "members c") (auto simp: component_ok_def)
  qed
qed

lemma dependency_first_sccs_ok:
  assumes ok: "adj_ok (length adj) adj"
  shows "\<exists>cs. dependency_first_sccs adj = Some (Inr cs) \<and> scc_sequence (length adj) adj (map members cs) \<and>
    (\<forall>c \<in> set cs. sorted (members c) \<and> (recursive c \<longleftrightarrow> (\<exists>u \<in> set (members c). (u, u) \<in> (edges adj)\<^sup>+)))"
proof -
  have chk: "check_targets adj = Inr ()"
using ok check_targets_ok by blast
  obtain F where F: "finish_order adj = Some F" "set F = {..<length adj}" "finish_sound adj F"
    using finish_order_correct [OF ok] by blast
  obtain T where T: "transpose_edges adj = Some T" "length T = length adj"
    "\<And>v. v < length adj \<Longrightarrow> set (nbrs T v) = {u. u < length adj \<and> v \<in> set (nbrs adj u)}"
    using transpose_edges_correct [OF ok] by blast
  from component_walk [OF F(3,2) _ T(2,3), of "[]" F] obtain seen comps where
    w: "try_fold (component_step adj T) (replicate (length adj) False, []) (rev F) = Some (seen, comps)"
      "comps_inv adj {..<length adj} seen comps" using F(2) by auto
  have run: "dependency_first_sccs adj = Some (Inr (rev comps))"
    by (simp add: dependency_first_sccs_def chk F(1) T(1) w(1))
  have seq: "scc_sequence (length adj) adj (map members (rev comps))" by (rule component_sequence [OF w(2) ok])
  have "sorted (members c) \<and> (recursive c \<longleftrightarrow> (\<exists>u \<in> set (members c). (u, u) \<in> (edges adj)\<^sup>+))" if "c \<in> set (rev comps)" for c
  proof -
    have "component_ok adj c" using w(2) that by (simp add: comps_inv_def)
    then show ?thesis using component_recursive [OF seq that] by (simp add: component_ok_def)
  qed
  then show ?thesis using run seq by blast
qed

text \<open>The components of the first \<open>n\<close> nodes, as a provider of component sequences.\<close>

definition dependency_components :: "nat \<Rightarrow> nat list list \<Rightarrow> nat list list option" where
  "dependency_components n adj =
     (case dependency_first_sccs (map (nbrs adj) [0..<n]) of
        Some (Inr cs) \<Rightarrow> Some (map members cs)
      | _ \<Rightarrow> None)"

lemma scc_sequence_restrict:
  assumes "scc_sequence n (map (nbrs adj) [0..<n]) C"
  shows "scc_sequence n adj C"
proof -
  let ?r = "map (nbrs adj) [0..<n]"
  have nb: "nbrs ?r u = (if u < n then nbrs adj u else [])" for u by (simp add: nbrs_def)
  have "reach adj u v" if "reach ?r u v" for u v
    using that by (rule rtrancl_mono [THEN subsetD, rotated]) (auto simp: edges_def nb split: if_splits)
  moreover have "nbrs adj u = nbrs ?r u" if "i < length C" "u \<in> set (C ! i)" for i u
  proof -
    have "u \<in> set (concat C)" using that by auto
    then show ?thesis using assms by (auto simp: scc_sequence_def nb)
  qed
  ultimately show ?thesis using assms unfolding scc_sequence_def by metis
qed

interpretation dg: scc_provider dependency_components
proof
  fix n adj assume "adj_ok n adj"
  then have "adj_ok (length (map (nbrs adj) [0..<n])) (map (nbrs adj) [0..<n])" by (simp add: adj_ok_def nbrs_def)
  from dependency_first_sccs_ok [OF this] show "\<exists>C. dependency_components n adj = Some C \<and> scc_sequence n adj C"
    by (auto simp: dependency_components_def intro: scc_sequence_restrict)
qed

section \<open>Properties\<close>

text \<open>C6: Both walks end without a panic on every graph. If an edge leaves the graph the
  error names the first such edge in row order; otherwise the result lists the strongly
  connected components dependencies first: they are non-empty, partition the nodes, two
  nodes share one exactly when they reach each other, an edge leads into its own or an
  earlier component. Each lists its members in increasing order and is flagged recursive
  exactly when one of them depends on itself.\<close>

theorem dependency_first_components:
  "case dependency_first_sccs adj of
     None \<Rightarrow> False
   | Some (Inl e) \<Rightarrow> rejects_edge adj e
   | Some (Inr cs) \<Rightarrow> scc_sequence (length adj) adj (map members cs) \<and>
       (\<forall>c \<in> set cs. sorted (members c) \<and> (recursive c \<longleftrightarrow> (\<exists>u \<in> set (members c). (u, u) \<in> (edges adj)\<^sup>+)))"
  using check_targets_cases [of adj]
proof
  assume "check_targets adj = Inr () \<and> adj_ok (length adj) adj"
  then show ?thesis using dependency_first_sccs_ok [of adj] by auto
next
  assume "\<exists>e. check_targets adj = Inl e \<and> rejects_edge adj e"
  then show ?thesis by (auto simp: dependency_first_sccs_def)
qed

lemma dependency_run:
  "dependency_first_sccs [[1], [0, 2], [2], [0]] =
     Some (Inr [\<lparr>members = [2], recursive = True\<rparr>, \<lparr>members = [0, 1], recursive = True\<rparr>, \<lparr>members = [3], recursive = False\<rparr>])"
  by code_simp

theorem dependency_first_components_witness:
  "scc_sequence 4 [[1], [0, 2], [2], [0]] [[2], [0, 1], [3]] \<and> (2, 2) \<in> (edges [[1], [0, 2], [2], [0 :: nat]])\<^sup>+ \<and>
   (3, 3) \<notin> (edges [[1], [0, 2], [2], [0 :: nat]])\<^sup>+"
  using dependency_first_components [of "[[1], [0, 2], [2], [0]]", unfolded dependency_run] by (simp add: eval_nat_numeral)

end
