(* ===== verification/Differential_Offsets.thy ===== *)
theory Differential_Offsets
  imports Prelude
begin

text \<open>
  The offsets of the structural differentiation analysis (\<open>differential_structure/offsets.rs\<close> of
  \<open>rumoca-phase-structural\<close>). A signature row lists, for a scalar equation, the unknowns it
  mentions and the highest derivative order of each. The offsets of a matched signature say how often
  each equation is differentiated and which derivatives of each unknown then occur; they are
  the least solution of difference constraints. The certificate checks them
  against the matching as a pair of a primal and a dual solution.
\<close>

section \<open>Model\<close>

record SignatureEntry =
  column :: nat
  order :: nat

definition invariant_at :: "bool list \<Rightarrow> nat \<Rightarrow> bool" where
  "invariant_at invariant_columns j = (case idx invariant_columns j of None \<Rightarrow> False | Some b \<Rightarrow> b)"

definition relax_entry ::
  "nat list \<Rightarrow> bool list \<Rightarrow> nat \<Rightarrow> nat list \<Rightarrow> SignatureEntry \<Rightarrow> (string + nat list) option" where
  "relax_entry equations invariant_columns row variables entry =
     (if invariant_at invariant_columns (column entry) then Ok variables
      else case idx equations row of None \<Rightarrow> None
      | Some offset \<Rightarrow>
          (case chk_u32 (offset + order entry) of None \<Rightarrow> Err ''differential order overflow''
           | Some value \<Rightarrow>
               (case idx variables (column entry) of None \<Rightarrow> Err ''signature column is out of range''
                | Some target \<Rightarrow> Ok (variables[column entry := max target value]))))"

definition relax_variable_offsets ::
  "nat list \<Rightarrow> nat list \<Rightarrow> SignatureEntry list list \<Rightarrow> bool list \<Rightarrow> (string + nat list) option" where
  "relax_variable_offsets equations variables rows invariant_columns =
     foldQ (\<lambda>variables (row, entries). foldQ (relax_entry equations invariant_columns row) variables entries)
       variables (enumerate 0 rows)"

definition match_offset ::
  "SignatureEntry list list \<Rightarrow> nat list \<Rightarrow> nat list \<times> bool \<Rightarrow> nat \<times> nat \<Rightarrow> (string + nat list \<times> bool) option" where
  "match_offset rows variables = (\<lambda>(equations, changed) (row, col).
     case idx rows row of None \<Rightarrow> None
     | Some entries \<Rightarrow>
         (case List.find (\<lambda>entry. column entry = col) entries of
            None \<Rightarrow> Err ''differential matching claims an absent edge''
          | Some entry \<Rightarrow>
              (case (idx variables col, idx equations row) of
                 (Some variable, Some offset) \<Rightarrow>
                   (if variable < order entry then Err ''negative differential equation order''
                    else if variable - order entry < offset then Err ''differential offset iteration is not monotone''
                    else Ok (equations[row := variable - order entry], changed \<or> variable - order entry \<noteq> offset))
               | _ \<Rightarrow> None)))"

text \<open>One pass: the variables start at their lower bounds, then the matched rows follow.\<close>

definition offsets_pass ::
  "SignatureEntry list list \<Rightarrow> nat list \<Rightarrow> nat list \<Rightarrow> bool list \<Rightarrow> nat list \<Rightarrow> (string + nat list \<times> nat list \<times> bool) option" where
  "offsets_pass rows matching variable_lower_bounds invariant_columns equations =
     bindQ (relax_variable_offsets equations variable_lower_bounds rows invariant_columns) (\<lambda>variables.
     bindQ (foldQ (match_offset rows variables) (equations, False) (enumerate 0 matching)) (\<lambda>(equations, changed).
     Ok (equations, variables, changed)))"

fun offsets_loop ::
  "SignatureEntry list list \<Rightarrow> nat list \<Rightarrow> nat list \<Rightarrow> bool list \<Rightarrow> nat \<Rightarrow> nat list \<Rightarrow> (string + nat list \<times> nat list) option" where
  "offsets_loop rows matching lower invariant_columns 0 equations =
     Err ''differential offsets exceed the simple-path bound''"
| "offsets_loop rows matching lower invariant_columns (Suc k) equations =
     bindQ (offsets_pass rows matching lower invariant_columns equations) (\<lambda>(equations, variables, changed).
     (if changed then offsets_loop rows matching lower invariant_columns k equations else Ok (equations, variables)))"

definition least_offsets_with_lower_bounds ::
  "SignatureEntry list list \<Rightarrow> nat list \<Rightarrow> nat list \<Rightarrow> bool list \<Rightarrow> (string + nat list \<times> nat list) option" where
  "least_offsets_with_lower_bounds rows matching variable_lower_bounds invariant_columns =
     (if length matching \<noteq> length rows then Err ''differential matching has the wrong row count''
      else if length variable_lower_bounds \<noteq> length rows then Err ''differential lower bounds have the wrong column count''
      else if length invariant_columns \<noteq> length rows then Err ''differential invariant columns have the wrong column count''
      else offsets_loop rows matching variable_lower_bounds invariant_columns (Suc (length rows)) (replicate (length rows) 0))"

text \<open>The certificate; its answer \<open>None\<close> is \<open>Err ()\<close> here, apart from a panic.\<close>

definition certify_entry :: "nat list \<Rightarrow> bool list \<Rightarrow> nat \<Rightarrow> unit \<Rightarrow> SignatureEntry \<Rightarrow> (unit + unit) option" where
  "certify_entry variables invariant_columns offset = (\<lambda>_ entry.
     case idx invariant_columns (column entry) of None \<Rightarrow> Err ()
     | Some True \<Rightarrow> Ok ()
     | Some False \<Rightarrow>
         (case idx variables (column entry) of None \<Rightarrow> Err ()
          | Some variable \<Rightarrow> (if variable < offset \<or> variable - offset < order entry then Err () else Ok ())))"

definition certify_row ::
  "nat list \<Rightarrow> nat list \<Rightarrow> nat list \<Rightarrow> bool list \<Rightarrow> bool list \<times> nat \<Rightarrow> nat \<times> SignatureEntry list \<Rightarrow> (unit + bool list \<times> nat) option" where
  "certify_row matching equations variables invariant_columns = (\<lambda>(seen, objective) (row, entries).
     case idx matching row of None \<Rightarrow> None
     | Some col \<Rightarrow>
         (case idx seen col of None \<Rightarrow> Err ()
          | Some True \<Rightarrow> Err ()
          | Some False \<Rightarrow>
              (case List.find (\<lambda>entry. column entry = col) entries of None \<Rightarrow> Err ()
               | Some matched \<Rightarrow>
                   (case (idx variables col, idx equations row) of
                      (Some variable, Some offset) \<Rightarrow>
                        (if variable < offset \<or> variable - offset \<noteq> order matched then Err ()
                         else case chk_usize (objective + order matched) of None \<Rightarrow> Err ()
                         | Some objective \<Rightarrow>
                             bindQ (foldQ (certify_entry variables invariant_columns offset) () entries)
                               (\<lambda>_. Ok (seen[col := True], objective)))
                    | _ \<Rightarrow> None))))"

definition sum_usize :: "nat list \<Rightarrow> nat option" where
  "sum_usize vals = try_fold (\<lambda>total value. chk_usize (total + value)) 0 vals"

definition certify ::
  "SignatureEntry list list \<Rightarrow> nat list \<Rightarrow> nat list \<Rightarrow> nat list \<Rightarrow> bool list \<Rightarrow> (unit + nat) option" where
  "certify rows matching equations variables invariant_columns =
     (let count = length rows in
      if \<exists>len \<in> set [length matching, length equations, length variables, length invariant_columns]. len \<noteq> count then Err ()
      else bindQ (foldQ (certify_row matching equations variables invariant_columns) (replicate count False, 0) (enumerate 0 rows))
        (\<lambda>(seen, objective).
          case (sum_usize variables, sum_usize equations) of
            (Some v, Some e) \<Rightarrow> (if v < e \<or> v - e \<noteq> objective then Err () else Ok objective)
          | _ \<Rightarrow> Err ()))"

section \<open>Iterating difference constraints\<close>

text \<open>
  An operator whose values are maxima of a base value and of shifted arguments, iterated from
  zero: if anything lies above its own image, the iteration stands still after as many steps
  as there are arguments. Otherwise the arguments not yet final would form a set that could be lowered
  as a whole.
\<close>

lemma difference_iteration_stops:
  fixes F :: "(nat \<Rightarrow> int) \<Rightarrow> nat \<Rightarrow> int"
  assumes F: "\<And>c i x. i < n \<Longrightarrow> F c i \<le> x \<longleftrightarrow> base i \<le> x \<and> (\<forall>(r, w) \<in> P i. c r + w \<le> x)"
    and P: "\<And>i r w. (r, w) \<in> P i \<Longrightarrow> r < n"
    and zero: "\<And>i. i < n \<Longrightarrow> 0 \<le> F (\<lambda>_. 0) i"
    and post: "\<And>i. i < n \<Longrightarrow> 0 \<le> c' i" "\<And>i. i < n \<Longrightarrow> F c' i \<le> c' i"
    and i: "i < n"
  shows "(F ^^ Suc n) (\<lambda>_. 0) i = (F ^^ n) (\<lambda>_. 0) i"
proof -
  define C where "C k = (F ^^ k) (\<lambda>_. 0)" for k
  have C0: "C 0 = (\<lambda>_. 0)" and CS: "C (Suc k) = F (C k)" for k by (simp_all add: C_def)
  have up: "base i \<le> F c i" "(r, w) \<in> P i \<Longrightarrow> c r + w \<le> F c i" if "i < n" for c i r w
    using F [OF that, of c "F c i"] by auto
  have mono: "F c i \<le> F d i" if "i < n" "\<And>r. r < n \<Longrightarrow> c r \<le> d r" for c d i
  proof -
    have "c r + w \<le> F d i" if rw: "(r, w) \<in> P i" for r w
      using up(2) [OF \<open>i < n\<close> rw, of d] that(1) \<open>\<And>r. r < n \<Longrightarrow> c r \<le> d r\<close> [OF P [OF rw]] by simp
    then show ?thesis using F [OF that(1), of c "F d i"] up(1) [OF that(1), of d] by auto
  qed
  have below: "C k i \<le> d i" if "i < n" and d: "\<And>i. i < n \<Longrightarrow> 0 \<le> d i" "\<And>i. i < n \<Longrightarrow> F d i \<le> d i" for k d i
    using that(1)
  proof (induction k arbitrary: i)
    case (Suc k)
    have "F (C k) i \<le> F d i" by (rule mono [OF Suc.prems]) (rule Suc.IH)
    also have "\<dots> \<le> d i" by (rule d(2) [OF Suc.prems])
    finally show ?case by (simp add: CS)
  qed (simp add: C0 d(1))
  have step: "C k i \<le> C (Suc k) i" if "i < n" for k i
    using that
  proof (induction k arbitrary: i)
    case 0
    then show ?case using zero by (simp add: CS C0)
  next
    case (Suc k)
    show ?case unfolding CS [of "Suc k"] CS [of k]
      by (rule mono [OF Suc.prems]) (use Suc.IH in \<open>simp add: CS\<close>)
  qed
  have inc: "C k i \<le> C l i" if "k \<le> l" "i < n" for k l i
    using that(1) by (induction rule: dec_induct) (use step [OF that(2)] order_trans in \<open>auto\<close>)
  have "\<exists>K. \<forall>i < n. C (Suc K) i = C K i"
  proof (rule ccontr)
    assume no: "\<not> ?thesis"
    have grow: "(\<Sum>i<n. C k i) < (\<Sum>i<n. C (Suc k) i)" for k
    proof (rule sum_strict_mono_ex1)
      obtain i where "i < n" "C (Suc k) i \<noteq> C k i" using no by blast
      then show "\<exists>i \<in> {..<n}. C k i < C (Suc k) i" using step [of i k] by force
    qed (use step in auto)
    have "int k \<le> (\<Sum>i<n. C k i)" for k
      by (induction k) (use grow in \<open>auto simp: C0 intro: order.trans [OF _ zless_imp_add1_zle]\<close>)
    moreover have "(\<Sum>i<n. C k i) \<le> (\<Sum>i<n. c' i)" for k
      by (rule sum_mono) (use below post in auto)
    ultimately have "int k \<le> (\<Sum>i<n. c' i)" for k by (meson order_trans)
    from this [of "nat (\<Sum>i<n. c' i) + 1"] show False by linarith
  qed
  then obtain K where K: "\<And>i. i < n \<Longrightarrow> C (Suc K) i = C K i" by blast
  define L where "L = C K"
  have fixed: "F L i = L i" if "i < n" for i using K [OF that] by (simp add: L_def CS)
  have L0: "0 \<le> L i" if "i < n" for i using inc [of 0 K i] that by (simp add: L_def C0)
  have CL: "C k i \<le> L i" if "i < n" for k i
    by (rule below [OF that]) (use fixed L0 in auto)
  define S where "S k = {i. i < n \<and> C k i = L i}" for k
  have sub: "S k \<subseteq> S (Suc k)" for k
  proof
    fix i assume "i \<in> S k"
    then show "i \<in> S (Suc k)" using step [of i k] CL [of i "Suc k"] by (simp add: S_def)
  qed
  have strict: "S k \<noteq> S (Suc k)" if "S k \<noteq> {..<n}" for k
  proof
    assume same: "S k = S (Suc k)"
    define L' where "L' i = (if i \<in> S k then L i else L i - 1)" for i
    have le: "L' i \<le> L i" for i by (simp add: L'_def)
    have "F L' i \<le> L' i" if i: "i < n" for i
    proof (cases "i \<in> S k")
      case True
      have "F L' i \<le> F L i" by (rule mono [OF i]) (rule le)
      then show ?thesis using True fixed [OF i] by (simp add: L'_def)
    next
      case False
      have lt: "C (Suc k) i < L i" using False same CL [OF i, of "Suc k"] i by (force simp: S_def)
      have "L' r + w \<le> L i - 1" if rw: "(r, w) \<in> P i" for r w
      proof (cases "r \<in> S k")
        case True
        then have "L r + w = C k r + w" by (simp add: S_def)
        also have "\<dots> \<le> C (Suc k) i" unfolding CS by (rule up(2) [OF i rw])
        finally show ?thesis using lt True by (simp add: L'_def)
      next
        case False
        then show ?thesis using up(2) [OF i rw, of L] fixed [OF i] by (simp add: L'_def)
      qed
      moreover have "base i \<le> L i - 1" using up(1) [OF i, of "C k"] lt by (simp add: CS)
      ultimately show ?thesis using F [OF i, of L' "L i - 1"] False by (auto simp: L'_def)
    qed
    moreover have "0 \<le> L' i" if i: "i < n" for i
    proof (cases "i \<in> S k")
      case False
      then have "C k i < L i" using CL [OF i, of k] i by (force simp: S_def)
      then show ?thesis using inc [of 0 k i] i False by (simp add: C0 L'_def)
    qed (use L0 [OF i] in \<open>simp add: L'_def\<close>)
    ultimately have "C K i \<le> L' i" if "i < n" for i using below that by blast
    then have "L i \<le> L' i" if "i < n" for i using that by (simp add: L_def)
    then have "{..<n} \<subseteq> S k" by (force simp: L'_def split: if_splits)
    then show False using that by (auto simp: S_def)
  qed
  have "k \<le> card (S k) \<or> S k = {..<n}" for k
  proof (induction k)
    case (Suc k)
    have S: "S (Suc k) \<subseteq> {..<n}" by (auto simp: S_def)
    show ?case
    proof (cases "S k = {..<n}")
      case True
      then show ?thesis using sub [of k] S by blast
    next
      case False
      then have "S k \<subset> S (Suc k)" using sub strict by blast
      then have "card (S k) < card (S (Suc k))" using S by (meson finite_lessThan finite_subset psubset_card_mono)
      then show ?thesis using Suc False by auto
    qed
  qed simp
  moreover have "S n \<subseteq> {..<n}" by (auto simp: S_def)
  ultimately have "S n = {..<n}"
    by (metis card_lessThan card_seteq finite_lessThan)
  then have "C n i = L i" using i unfolding S_def by blast
  moreover have "C (Suc n) i = L i" using step [OF i, of n] CL [OF i, of "Suc n"] calculation by simp
  ultimately show ?thesis by (simp add: C_def)
qed

section \<open>One pass\<close>

definition entry_fits :: "bool list \<Rightarrow> nat \<Rightarrow> nat \<Rightarrow> SignatureEntry \<Rightarrow> bool" where
  "entry_fits iv n offset e \<longleftrightarrow>
     invariant_at iv (column e) \<or> column e < n \<and> offset + order e \<le> u32_max"

text \<open>\<open>demand iv c e j v\<close>: the entry \<open>e\<close> of a row of offset \<open>c\<close> demands the value \<open>v\<close> of column \<open>j\<close>.\<close>

definition demand :: "bool list \<Rightarrow> nat \<Rightarrow> SignatureEntry \<Rightarrow> nat \<Rightarrow> nat \<Rightarrow> bool" where
  "demand iv c e j v \<longleftrightarrow> column e = j \<and> \<not> invariant_at iv j \<and> v = c + order e"

lemma relax_entries:
  assumes row: "row < length eqs"
  shows "(\<exists>vs'. foldQ (relax_entry eqs iv row) vs es = Ok vs' \<and> length vs' = length vs \<and>
      (\<forall>e \<in> set es. entry_fits iv (length vs) (eqs ! row) e) \<and>
      (\<forall>j < length vs. \<forall>x. vs' ! j \<le> x \<longleftrightarrow> vs ! j \<le> x \<and> (\<forall>e \<in> set es. \<forall>v. demand iv (eqs ! row) e j v \<longrightarrow> v \<le> x))) \<or>
    ((\<exists>m. foldQ (relax_entry eqs iv row) vs es = Err m) \<and> (\<exists>e \<in> set es. \<not> entry_fits iv (length vs) (eqs ! row) e))"
proof (induction es arbitrary: vs)
  case (Cons e es)
  let ?c = "eqs ! row"
  show ?case
  proof (cases "entry_fits iv (length vs) ?c e")
    case False
    then have "\<exists>m. relax_entry eqs iv row vs e = Err m"
      using row by (auto simp: relax_entry_def entry_fits_def chk_u32_def split: option.split)
    then have "\<exists>m. foldQ (relax_entry eqs iv row) vs (e # es) = Err m" by auto
    then show ?thesis using False by (meson list.set_intros(1))
  next
    case True
    obtain vs1 where vs1: "relax_entry eqs iv row vs e = Ok vs1" "length vs1 = length vs"
      "\<And>j x. j < length vs \<Longrightarrow> vs1 ! j \<le> x \<longleftrightarrow> vs ! j \<le> x \<and> (\<forall>v. demand iv ?c e j v \<longrightarrow> v \<le> x)"
    proof (cases "invariant_at iv (column e)")
      case iv: True
      then have "relax_entry eqs iv row vs e = Ok vs" by (simp add: relax_entry_def)
      then show thesis using iv by (intro that) (auto simp: demand_def)
    next
      case iv: False
      then have fits: "column e < length vs" "?c + order e \<le> u32_max" using True by (auto simp: entry_fits_def)
      let ?vs = "vs[column e := max (vs ! column e) (?c + order e)]"
      have "relax_entry eqs iv row vs e = Ok ?vs" using iv fits row by (simp add: relax_entry_def chk_u32_def)
      moreover have "?vs ! j \<le> x \<longleftrightarrow> vs ! j \<le> x \<and> (\<forall>v. demand iv ?c e j v \<longrightarrow> v \<le> x)" if "j < length vs" for j x
        using that iv fits(1) by (cases "j = column e") (auto simp: demand_def)
      ultimately show thesis by (intro that [of ?vs]) auto
    qed
    have run: "foldQ (relax_entry eqs iv row) vs (e # es) = foldQ (relax_entry eqs iv row) vs1 es" by (simp add: vs1(1))
    from Cons.IH [of vs1] show ?thesis
    proof
      assume "\<exists>vs'. foldQ (relax_entry eqs iv row) vs1 es = Ok vs' \<and> length vs' = length vs1 \<and>
        (\<forall>e \<in> set es. entry_fits iv (length vs1) ?c e) \<and>
        (\<forall>j < length vs1. \<forall>x. vs' ! j \<le> x \<longleftrightarrow> vs1 ! j \<le> x \<and> (\<forall>e \<in> set es. \<forall>v. demand iv ?c e j v \<longrightarrow> v \<le> x))"
      then obtain vs' where vs': "foldQ (relax_entry eqs iv row) vs1 es = Ok vs'" "length vs' = length vs"
        "\<forall>e \<in> set es. entry_fits iv (length vs) ?c e"
        "\<And>j x. j < length vs \<Longrightarrow> vs' ! j \<le> x \<longleftrightarrow> vs1 ! j \<le> x \<and> (\<forall>e \<in> set es. \<forall>v. demand iv ?c e j v \<longrightarrow> v \<le> x)"
        using vs1(2) by auto
      have "vs' ! j \<le> x \<longleftrightarrow> vs ! j \<le> x \<and> (\<forall>e' \<in> set (e # es). \<forall>v. demand iv ?c e' j v \<longrightarrow> v \<le> x)" if "j < length vs" for j x
        using vs'(4) [OF that] vs1(3) [OF that] by simp
      then show ?thesis using run vs'(1-3) True by (intro disjI1 exI [of _ vs']) simp
    qed (use run vs1(2) in auto)
  qed
qed auto

lemma relax_rows:
  assumes "k + length rows \<le> length eqs"
  shows "(\<exists>vs'. foldQ (\<lambda>vs (row, entries). foldQ (relax_entry eqs iv row) vs entries) vs (enumerate k rows) = Ok vs' \<and>
      length vs' = length vs \<and>
      (\<forall>i < length rows. \<forall>e \<in> set (rows ! i). entry_fits iv (length vs) (eqs ! (k + i)) e) \<and>
      (\<forall>j < length vs. \<forall>x. vs' ! j \<le> x \<longleftrightarrow> vs ! j \<le> x \<and>
        (\<forall>i < length rows. \<forall>e \<in> set (rows ! i). \<forall>v. demand iv (eqs ! (k + i)) e j v \<longrightarrow> v \<le> x))) \<or>
    ((\<exists>m. foldQ (\<lambda>vs (row, entries). foldQ (relax_entry eqs iv row) vs entries) vs (enumerate k rows) = Err m) \<and>
      (\<exists>i < length rows. \<exists>e \<in> set (rows ! i). \<not> entry_fits iv (length vs) (eqs ! (k + i)) e))"
  (is "?ok vs k rows \<or> ?err vs k rows")
  using assms
proof (induction rows arbitrary: vs k)
  case (Cons es rows)
  have k: "k < length eqs" "Suc k + length rows \<le> length eqs" using Cons.prems by simp_all
  from relax_entries [OF k(1), of iv vs es] show ?case
  proof
    assume "(\<exists>m. foldQ (relax_entry eqs iv k) vs es = Err m) \<and> (\<exists>e \<in> set es. \<not> entry_fits iv (length vs) (eqs ! k) e)"
    then show ?thesis by (intro disjI2 conjI) (auto intro!: exI [of _ 0])
  next
    assume "\<exists>vs'. foldQ (relax_entry eqs iv k) vs es = Ok vs' \<and> length vs' = length vs \<and>
      (\<forall>e \<in> set es. entry_fits iv (length vs) (eqs ! k) e) \<and>
      (\<forall>j < length vs. \<forall>x. vs' ! j \<le> x \<longleftrightarrow> vs ! j \<le> x \<and> (\<forall>e \<in> set es. \<forall>v. demand iv (eqs ! k) e j v \<longrightarrow> v \<le> x))"
    then obtain vs1 where vs1: "foldQ (relax_entry eqs iv k) vs es = Ok vs1" "length vs1 = length vs"
      "\<forall>e \<in> set es. entry_fits iv (length vs) (eqs ! k) e"
      "\<And>j x. j < length vs \<Longrightarrow> vs1 ! j \<le> x \<longleftrightarrow> vs ! j \<le> x \<and> (\<forall>e \<in> set es. \<forall>v. demand iv (eqs ! k) e j v \<longrightarrow> v \<le> x)"
      by auto
    from Cons.IH [OF k(2), of vs1] show ?thesis
    proof
      assume "?ok vs1 (Suc k) rows"
      then obtain vs' where vs': "foldQ (\<lambda>vs (row, entries). foldQ (relax_entry eqs iv row) vs entries) vs1 (enumerate (Suc k) rows) = Ok vs'"
        "length vs' = length vs" "\<forall>i < length rows. \<forall>e \<in> set (rows ! i). entry_fits iv (length vs) (eqs ! (Suc k + i)) e"
        "\<And>j x. j < length vs \<Longrightarrow> vs' ! j \<le> x \<longleftrightarrow> vs1 ! j \<le> x \<and>
          (\<forall>i < length rows. \<forall>e \<in> set (rows ! i). \<forall>v. demand iv (eqs ! (Suc k + i)) e j v \<longrightarrow> v \<le> x)"
        using vs1(2) by auto
      have all: "(\<forall>i < length (es # rows). Q ((es # rows) ! i) (k + i)) \<longleftrightarrow> Q es k \<and> (\<forall>i < length rows. Q (rows ! i) (Suc k + i))" for Q
        by (auto simp: less_Suc_eq_0_disj)
      have "vs' ! j \<le> x \<longleftrightarrow> vs ! j \<le> x \<and>
          (\<forall>i < length (es # rows). \<forall>e \<in> set ((es # rows) ! i). \<forall>v. demand iv (eqs ! (k + i)) e j v \<longrightarrow> v \<le> x)" if "j < length vs" for j x
        unfolding all [of "\<lambda>es i. \<forall>e \<in> set es. \<forall>v. demand iv (eqs ! i) e j v \<longrightarrow> v \<le> x"]
        using vs'(4) [OF that] vs1(4) [OF that] by simp
      moreover have "\<forall>i < length (es # rows). \<forall>e \<in> set ((es # rows) ! i). entry_fits iv (length vs) (eqs ! (k + i)) e"
        unfolding all [of "\<lambda>es i. \<forall>e \<in> set es. entry_fits iv (length vs) (eqs ! i) e"] using vs1(3) vs'(3) by simp
      moreover have "foldQ (\<lambda>vs (row, entries). foldQ (relax_entry eqs iv row) vs entries) vs (enumerate k (es # rows)) = Ok vs'"
        using vs1(1) vs'(1) by simp
      ultimately show ?thesis using vs'(2) by (intro disjI1 exI [of _ vs'] conjI) blast+
    next
      assume err: "?err vs1 (Suc k) rows"
      then obtain i where "i < length rows" "\<exists>e \<in> set (rows ! i). \<not> entry_fits iv (length vs) (eqs ! (Suc k + i)) e" using vs1(2) by auto
      then have "\<exists>i < length (es # rows). \<exists>e \<in> set ((es # rows) ! i). \<not> entry_fits iv (length vs) (eqs ! (k + i)) e"
        by (intro exI [of _ "Suc i"]) simp
      then show ?thesis using err vs1(1) by (intro disjI2) simp
    qed
  qed
qed auto

definition matched_entry :: "SignatureEntry list \<Rightarrow> nat \<Rightarrow> SignatureEntry option" where
  "matched_entry entries col = List.find (\<lambda>entry. column entry = col) entries"

lemma matched_entry_Some: "matched_entry es col = Some e \<Longrightarrow> e \<in> set es \<and> column e = col"
  by (auto simp: matched_entry_def find_Some_iff)

lemma match_step:
  assumes "row < length rows" "row < length eqs" "\<And>e. matched_entry (rows ! row) col = Some e \<Longrightarrow> col < length vs"
  shows "(\<exists>e. matched_entry (rows ! row) col = Some e \<and> eqs ! row + order e \<le> vs ! col \<and>
      match_offset rows vs (eqs, ch) (row, col) =
        Ok (eqs[row := vs ! col - order e], ch \<or> eqs[row := vs ! col - order e] \<noteq> eqs)) \<or>
    ((\<exists>m. match_offset rows vs (eqs, ch) (row, col) = Err m) \<and>
      \<not> (\<exists>e. matched_entry (rows ! row) col = Some e \<and> eqs ! row + order e \<le> vs ! col))"
proof (cases "matched_entry (rows ! row) col")
  case None
  then show ?thesis using assms(1) by (simp add: match_offset_def matched_entry_def)
next
  case (Some e)
  then have "col < length vs" by (rule assms(3))
  moreover have "eqs[row := x] \<noteq> eqs \<longleftrightarrow> x \<noteq> eqs ! row" for x
    using assms(2) by (metis list_update_id nth_list_update_eq)
  ultimately show ?thesis using Some assms(1,2)
    by (auto simp: match_offset_def matched_entry_def)
qed

lemma match_rows:
  assumes "k + length ms \<le> length eqs" "k + length ms \<le> length rows"
    and "\<And>i e. i < length ms \<Longrightarrow> matched_entry (rows ! (k + i)) (ms ! i) = Some e \<Longrightarrow> ms ! i < length vs"
  shows "(\<exists>eqs'. foldQ (match_offset rows vs) (eqs, ch) (enumerate k ms) = Ok (eqs', ch \<or> eqs' \<noteq> eqs) \<and> length eqs' = length eqs \<and>
      (\<forall>i < length eqs. i < k \<or> k + length ms \<le> i \<longrightarrow> eqs' ! i = eqs ! i) \<and>
      (\<forall>i < length ms. \<exists>e. matched_entry (rows ! (k + i)) (ms ! i) = Some e \<and>
        eqs ! (k + i) + order e \<le> vs ! (ms ! i) \<and> eqs' ! (k + i) = vs ! (ms ! i) - order e)) \<or>
    ((\<exists>m. foldQ (match_offset rows vs) (eqs, ch) (enumerate k ms) = Err m) \<and>
      (\<exists>i < length ms. \<not> (\<exists>e. matched_entry (rows ! (k + i)) (ms ! i) = Some e \<and> eqs ! (k + i) + order e \<le> vs ! (ms ! i))))"
  (is "?ok k eqs ch ms \<or> ?err k eqs ch ms")
  using assms
proof (induction ms arbitrary: k eqs ch)
  case (Cons c ms)
  have k: "k < length rows" "k < length eqs" using Cons.prems(1,2) by simp_all
  have col: "matched_entry (rows ! k) c = Some e \<Longrightarrow> c < length vs" for e using Cons.prems(3) [of 0 e] by simp
  from match_step [OF k col, where ch = ch] show ?case
  proof
    assume "(\<exists>m. match_offset rows vs (eqs, ch) (k, c) = Err m) \<and>
      \<not> (\<exists>e. matched_entry (rows ! k) c = Some e \<and> eqs ! k + order e \<le> vs ! c)"
    then show ?thesis by (intro disjI2 conjI) (auto intro!: exI [of _ 0])
  next
    assume "\<exists>e. matched_entry (rows ! k) c = Some e \<and> eqs ! k + order e \<le> vs ! c \<and>
      match_offset rows vs (eqs, ch) (k, c) = Ok (eqs[k := vs ! c - order e], ch \<or> eqs[k := vs ! c - order e] \<noteq> eqs)"
    then obtain e where e: "matched_entry (rows ! k) c = Some e" "eqs ! k + order e \<le> vs ! c"
      "match_offset rows vs (eqs, ch) (k, c) = Ok (eqs[k := vs ! c - order e], ch \<or> eqs[k := vs ! c - order e] \<noteq> eqs)" by blast
    define eqs1 where "eqs1 = eqs[k := vs ! c - order e]"
    define ch1 where "ch1 = (ch \<or> eqs1 \<noteq> eqs)"
    have eqs1: "length eqs1 = length eqs" "eqs1 ! k = vs ! c - order e" "i \<noteq> k \<Longrightarrow> eqs1 ! i = eqs ! i" for i
      using k(2) by (simp_all add: eqs1_def)
    have run: "foldQ (match_offset rows vs) (eqs, ch) (enumerate k (c # ms)) = foldQ (match_offset rows vs) (eqs1, ch1) (enumerate (Suc k) ms)"
      using e(3) by (simp add: eqs1_def ch1_def)
    have "Suc k + length ms \<le> length eqs1" "Suc k + length ms \<le> length rows" using Cons.prems(1,2) eqs1(1) by simp_all
    moreover have "i < length ms \<Longrightarrow> matched_entry (rows ! (Suc k + i)) (ms ! i) = Some e' \<Longrightarrow> ms ! i < length vs" for i e'
      using Cons.prems(3) [of "Suc i" e'] by simp
    ultimately have "?ok (Suc k) eqs1 ch1 ms \<or> ?err (Suc k) eqs1 ch1 ms" by (rule Cons.IH)
    then show ?thesis
    proof
      assume "?ok (Suc k) eqs1 ch1 ms"
      then obtain eqs' where r: "foldQ (match_offset rows vs) (eqs1, ch1) (enumerate (Suc k) ms) = Ok (eqs', ch1 \<or> eqs' \<noteq> eqs1)"
        "length eqs' = length eqs" "\<And>i. i < length eqs \<Longrightarrow> i < Suc k \<or> Suc k + length ms \<le> i \<Longrightarrow> eqs' ! i = eqs1 ! i"
        "\<And>i. i < length ms \<Longrightarrow> \<exists>e. matched_entry (rows ! (Suc k + i)) (ms ! i) = Some e \<and>
          eqs1 ! (Suc k + i) + order e \<le> vs ! (ms ! i) \<and> eqs' ! (Suc k + i) = vs ! (ms ! i) - order e"
        using eqs1(1) by auto
      have k': "eqs' ! k = vs ! c - order e" using r(3) [of k] k(2) eqs1(2) by simp
      have "ch1 \<or> eqs' \<noteq> eqs1 \<longleftrightarrow> ch \<or> eqs' \<noteq> eqs"
      proof -
        have "eqs1 = eqs" if "eqs' = eqs" using that k' k(2) by (metis eqs1_def list_update_id)
        then show ?thesis by (auto simp: ch1_def)
      qed
      then have "foldQ (match_offset rows vs) (eqs, ch) (enumerate k (c # ms)) = Ok (eqs', ch \<or> eqs' \<noteq> eqs)" using run r(1) by simp
      moreover have "eqs' ! i = eqs ! i" if "i < length eqs" "i < k \<or> k + length (c # ms) \<le> i" for i
        using r(3) [of i] eqs1(3) [of i] that by auto
      moreover have "\<exists>e. matched_entry (rows ! (k + i)) ((c # ms) ! i) = Some e \<and>
          eqs ! (k + i) + order e \<le> vs ! ((c # ms) ! i) \<and> eqs' ! (k + i) = vs ! ((c # ms) ! i) - order e" if "i < length (c # ms)" for i
      proof (cases i)
        case 0
        then show ?thesis using e(1,2) k' by simp
      next
        case (Suc i')
        then show ?thesis using r(4) [of i'] eqs1(3) [of "Suc k + i'"] that by simp
      qed
      ultimately show ?thesis using r(2) by (intro disjI1 exI [of _ eqs'] conjI) blast+
    next
      assume err: "?err (Suc k) eqs1 ch1 ms"
      then obtain i where i: "i < length ms"
        "\<not> (\<exists>e. matched_entry (rows ! (Suc k + i)) (ms ! i) = Some e \<and> eqs1 ! (Suc k + i) + order e \<le> vs ! (ms ! i))" by blast
      then have "\<not> (\<exists>e. matched_entry (rows ! (k + Suc i)) ((c # ms) ! Suc i) = Some e \<and> eqs ! (k + Suc i) + order e \<le> vs ! ((c # ms) ! Suc i))"
        using eqs1(3) [of "Suc k + i"] by simp
      then show ?thesis using err run i(1) by (intro disjI2 conjI exI [of _ "Suc i"]) auto
    qed
  qed
qed auto

section \<open>The least solution\<close>

text \<open>
  The offsets a matched signature admits: a variable offset covers its lower bound and every order a
  row demands of it, a matched row demands exactly its variable's offset, and an invariant
  column stays at its lower bound.
\<close>

definition admissible :: "SignatureEntry list list \<Rightarrow> nat list \<Rightarrow> nat list \<Rightarrow> bool list \<Rightarrow> nat list \<Rightarrow> nat list \<Rightarrow> bool" where
  "admissible rows matching lower iv c d \<longleftrightarrow>
     length matching = length rows \<and> length lower = length rows \<and> length iv = length rows \<and>
     length c = length rows \<and> length d = length rows \<and>
     (\<forall>j < length rows. lower ! j \<le> d ! j \<and> (iv ! j \<longrightarrow> d ! j = lower ! j)) \<and>
     (\<forall>i < length rows. \<forall>e \<in> set (rows ! i). \<not> invariant_at iv (column e) \<longrightarrow>
        column e < length rows \<and> c ! i + order e \<le> d ! column e) \<and>
     (\<forall>i < length rows. \<exists>e. matched_entry (rows ! i) (matching ! i) = Some e \<and> d ! (matching ! i) = c ! i + order e)"

definition least_admissible :: "SignatureEntry list list \<Rightarrow> nat list \<Rightarrow> nat list \<Rightarrow> bool list \<Rightarrow> nat list \<Rightarrow> nat list \<Rightarrow> bool" where
  "least_admissible rows matching lower iv c d \<longleftrightarrow>
     admissible rows matching lower iv c d \<and>
     (\<forall>c' d'. admissible rows matching lower iv c' d' \<longrightarrow>
        (\<forall>i < length rows. c ! i \<le> c' ! i \<and> d ! i \<le> d' ! i))"

lemma invariant_at_less: "invariant_at iv j \<Longrightarrow> j < length iv \<and> iv ! j"
  by (cases "j < length iv") (simp_all add: invariant_at_def)

definition least_above :: "SignatureEntry list list \<Rightarrow> nat list \<Rightarrow> bool list \<Rightarrow> nat list \<Rightarrow> nat list \<Rightarrow> bool" where
  "least_above rows lower iv eqs vs \<longleftrightarrow> length vs = length rows \<and>
     (\<forall>j < length rows. \<forall>x. vs ! j \<le> x \<longleftrightarrow> lower ! j \<le> x \<and>
        (\<forall>i < length rows. \<forall>e \<in> set (rows ! i). \<forall>v. demand iv (eqs ! i) e j v \<longrightarrow> v \<le> x))"

definition matched_fits :: "SignatureEntry list list \<Rightarrow> nat list \<Rightarrow> nat list \<Rightarrow> nat list \<Rightarrow> nat \<Rightarrow> bool" where
  "matched_fits rows matching eqs vs i \<longleftrightarrow>
     (\<exists>e. matched_entry (rows ! i) (matching ! i) = Some e \<and> eqs ! i + order e \<le> vs ! (matching ! i))"

abbreviation offsets_shape :: "SignatureEntry list list \<Rightarrow> nat list \<Rightarrow> nat list \<Rightarrow> bool list \<Rightarrow> bool" where
  "offsets_shape rows matching lower iv \<equiv>
     length matching = length rows \<and> length lower = length rows \<and> length iv = length rows"

lemma offsets_pass_cases:
  assumes shape: "offsets_shape rows matching lower iv" and eqs: "length eqs = length rows"
  obtains (ok) eqs' vs where
      "offsets_pass rows matching lower iv eqs = Ok (eqs', vs, eqs' \<noteq> eqs)" "length eqs' = length rows"
      "least_above rows lower iv eqs vs"
      "\<And>i e. i < length rows \<Longrightarrow> e \<in> set (rows ! i) \<Longrightarrow> column e < length rows"
      "\<And>i. i < length rows \<Longrightarrow> \<exists>e. matched_entry (rows ! i) (matching ! i) = Some e \<and>
         eqs ! i + order e \<le> vs ! (matching ! i) \<and> eqs' ! i = vs ! (matching ! i) - order e"
      "\<And>i e. i < length rows \<Longrightarrow> e \<in> set (rows ! i) \<Longrightarrow> entry_fits iv (length rows) (eqs ! i) e"
  | (unfit) m i e where "offsets_pass rows matching lower iv eqs = Err m"
      "i < length rows" "e \<in> set (rows ! i)" "\<not> entry_fits iv (length rows) (eqs ! i) e"
  | (unmatched) m vs i where "offsets_pass rows matching lower iv eqs = Err m" "least_above rows lower iv eqs vs"
      "i < length rows" "\<not> matched_fits rows matching eqs vs i"
proof -
  have "0 + length rows \<le> length eqs" using eqs by simp
  from relax_rows [OF this, of iv lower] show thesis
  proof
    assume "(\<exists>m. foldQ (\<lambda>vs (row, entries). foldQ (relax_entry eqs iv row) vs entries) lower (enumerate 0 rows) = Err m) \<and>
      (\<exists>i < length rows. \<exists>e \<in> set (rows ! i). \<not> entry_fits iv (length lower) (eqs ! (0 + i)) e)"
    then show thesis using unfit shape by (auto simp: offsets_pass_def relax_variable_offsets_def)
  next
    assume "\<exists>vs'. foldQ (\<lambda>vs (row, entries). foldQ (relax_entry eqs iv row) vs entries) lower (enumerate 0 rows) = Ok vs' \<and>
      length vs' = length lower \<and>
      (\<forall>i < length rows. \<forall>e \<in> set (rows ! i). entry_fits iv (length lower) (eqs ! (0 + i)) e) \<and>
      (\<forall>j < length lower. \<forall>x. vs' ! j \<le> x \<longleftrightarrow> lower ! j \<le> x \<and>
        (\<forall>i < length rows. \<forall>e \<in> set (rows ! i). \<forall>v. demand iv (eqs ! (0 + i)) e j v \<longrightarrow> v \<le> x))"
    then obtain vs where vs: "relax_variable_offsets eqs lower rows iv = Ok vs" "least_above rows lower iv eqs vs"
      and fits: "\<And>i e. i < length rows \<Longrightarrow> e \<in> set (rows ! i) \<Longrightarrow> entry_fits iv (length rows) (eqs ! i) e"
      unfolding relax_variable_offsets_def least_above_def using shape by auto
    have cols: "column e < length rows" if "i < length rows" "e \<in> set (rows ! i)" for i e
      using fits [OF that] invariant_at_less [of iv "column e"] shape by (auto simp: entry_fits_def)
    have lv: "length vs = length rows" using vs(2) by (simp add: least_above_def)
    have "0 + length matching \<le> length eqs" "0 + length matching \<le> length rows" using shape eqs by simp_all
    moreover have "matching ! i < length vs" if "i < length matching" "matched_entry (rows ! (0 + i)) (matching ! i) = Some e" for i e
      using matched_entry_Some [OF that(2)] cols [of i e] that(1) shape lv by auto
    ultimately show thesis
    proof (rule disjE [OF match_rows [of 0 matching eqs rows vs False]])
      assume "\<exists>eqs'. foldQ (match_offset rows vs) (eqs, False) (enumerate 0 matching) = Ok (eqs', False \<or> eqs' \<noteq> eqs) \<and>
        length eqs' = length eqs \<and> (\<forall>i < length eqs. i < 0 \<or> 0 + length matching \<le> i \<longrightarrow> eqs' ! i = eqs ! i) \<and>
        (\<forall>i < length matching. \<exists>e. matched_entry (rows ! (0 + i)) (matching ! i) = Some e \<and>
          eqs ! (0 + i) + order e \<le> vs ! (matching ! i) \<and> eqs' ! (0 + i) = vs ! (matching ! i) - order e)"
      then obtain eqs' where
        run: "foldQ (match_offset rows vs) (eqs, False) (enumerate 0 matching) = Ok (eqs', eqs' \<noteq> eqs)" "length eqs' = length rows"
        and e: "\<And>i. i < length rows \<Longrightarrow> \<exists>e. matched_entry (rows ! i) (matching ! i) = Some e \<and>
          eqs ! i + order e \<le> vs ! (matching ! i) \<and> eqs' ! i = vs ! (matching ! i) - order e" using shape eqs by auto
      have "offsets_pass rows matching lower iv eqs = Ok (eqs', vs, eqs' \<noteq> eqs)" using vs(1) run(1) by (simp add: offsets_pass_def)
      then show thesis using run(2) vs(2) cols e fits by (rule ok)
    next
      assume "(\<exists>m. foldQ (match_offset rows vs) (eqs, False) (enumerate 0 matching) = Err m) \<and>
        (\<exists>i < length matching. \<not> (\<exists>e. matched_entry (rows ! (0 + i)) (matching ! i) = Some e \<and> eqs ! (0 + i) + order e \<le> vs ! (matching ! i)))"
      then obtain m i where mi: "foldQ (match_offset rows vs) (eqs, False) (enumerate 0 matching) = Err m"
        "i < length rows" "\<not> matched_fits rows matching eqs vs i" using shape by (auto simp: matched_fits_def)
      then have "offsets_pass rows matching lower iv eqs = Err m" using vs(1) by (simp add: offsets_pass_def)
      then show thesis using unmatched vs(2) mi(2,3) by blast
    qed
  qed
qed

text \<open>A pass stays below every admissible pair, and does not fail below one of 32-bit offsets.\<close>

lemma admissibleD:
  assumes "admissible rows matching lower iv c d"
  shows "offsets_shape rows matching lower iv" "length c = length rows \<and> length d = length rows"
    "i < length rows \<Longrightarrow> e \<in> set (rows ! i) \<Longrightarrow> \<not> invariant_at iv (column e) \<Longrightarrow>
       column e < length rows \<and> c ! i + order e \<le> d ! column e"
    "j < length rows \<Longrightarrow> lower ! j \<le> d ! j \<and> (iv ! j \<longrightarrow> d ! j = lower ! j)"
    "i < length rows \<Longrightarrow> \<exists>e. matched_entry (rows ! i) (matching ! i) = Some e \<and> d ! (matching ! i) = c ! i + order e"
  using assms unfolding admissible_def by blast+

lemma least_above_le:
  assumes adm: "admissible rows matching lower iv c' d'" and la: "least_above rows lower iv eqs vs"
    and below: "\<And>i. i < length rows \<Longrightarrow> eqs ! i \<le> c' ! i" and j: "j < length rows"
  shows "vs ! j \<le> d' ! j"
proof -
  have "v \<le> d' ! j" if "i < length rows" "e \<in> set (rows ! i)" "demand iv (eqs ! i) e j v" for i e v
    using adm that below [OF that(1)] by (fastforce simp: admissible_def demand_def)
  moreover have "lower ! j \<le> d' ! j" using adm j by (simp add: admissible_def)
  ultimately show ?thesis using la j unfolding least_above_def by blast
qed

lemma matched_fits_below:
  assumes adm: "admissible rows matching lower iv c' d'" and la: "least_above rows lower iv eqs vs"
    and below: "\<And>i. i < length rows \<Longrightarrow> eqs ! i \<le> c' ! i" and i: "i < length rows"
  shows "matched_fits rows matching eqs vs i"
proof -
  obtain e where e: "matched_entry (rows ! i) (matching ! i) = Some e" "d' ! (matching ! i) = c' ! i + order e"
    using adm i by (auto simp: admissible_def)
  let ?j = "matching ! i"
  have j: "e \<in> set (rows ! i)" "column e = ?j" using matched_entry_Some [OF e(1)] by auto
  have "eqs ! i + order e \<le> vs ! ?j"
  proof (cases "invariant_at iv ?j")
    case True
    then have jl: "?j < length rows" "iv ! ?j" using invariant_at_less [of iv ?j] adm by (auto simp: admissible_def)
    then have "d' ! ?j = lower ! ?j" using adm by (simp add: admissible_def)
    moreover have "lower ! ?j \<le> vs ! ?j" using la jl(1) unfolding least_above_def by blast
    ultimately show ?thesis using e(2) below [OF i] by simp
  next
    case False
    then have "?j < length rows" using admissibleD(3) [OF adm i j(1)] j(2) by simp
    moreover have "demand iv (eqs ! i) e ?j (eqs ! i + order e)" using j(2) False by (simp add: demand_def)
    ultimately show ?thesis using la i j(1) unfolding least_above_def by blast
  qed
  then show ?thesis using e(1) by (auto simp: matched_fits_def)
qed

lemma entry_fits_below:
  assumes adm: "admissible rows matching lower iv c' d'" and u32: "\<forall>x \<in> set d'. x \<le> u32_max"
    and below: "eqs ! i \<le> c' ! i" and i: "i < length rows" "e \<in> set (rows ! i)"
  shows "entry_fits iv (length rows) (eqs ! i) e"
proof (cases "invariant_at iv (column e)")
  case False
  then have c: "column e < length rows" "c' ! i + order e \<le> d' ! column e" using adm i by (auto simp: admissible_def)
  moreover have "d' ! column e \<le> u32_max" using u32 c(1) adm by (auto simp: admissible_def)
  ultimately show ?thesis using below by (simp add: entry_fits_def)
qed (simp add: entry_fits_def)

lemma offsets_pass_admissible:
  assumes shape: "offsets_shape rows matching lower iv" and pass: "offsets_pass rows matching lower iv eqs = Ok (eqs, vs, False)"
    and eqs: "length eqs = length rows"
  shows "admissible rows matching lower iv eqs vs"
  using shape eqs
proof (cases rule: offsets_pass_cases)
  case (ok eqs' vs')
  from trans [OF ok(1) [symmetric] pass] have "eqs' = eqs \<and> vs' = vs" by (simp only: option.inject sum.inject prod.inject)
  then have same: "eqs' = eqs" "vs' = vs" by blast+
  have la: "least_above rows lower iv eqs vs" using ok(3) same by simp
  have lv: "length vs = length rows" using la by (simp add: least_above_def)
  have "column e < length rows \<and> eqs ! i + order e \<le> vs ! column e"
    if i: "i < length rows" "e \<in> set (rows ! i)" "\<not> invariant_at iv (column e)" for i e
  proof
    show c: "column e < length rows" by (rule ok(4) [OF i(1,2)])
    have "demand iv (eqs ! i) e (column e) (eqs ! i + order e)" using i(3) by (simp add: demand_def)
    then show "eqs ! i + order e \<le> vs ! column e" using la i(1,2) c unfolding least_above_def by blast
  qed
  moreover have "\<exists>e. matched_entry (rows ! i) (matching ! i) = Some e \<and> vs ! (matching ! i) = eqs ! i + order e" if "i < length rows" for i
    using ok(5) [OF that] same by fastforce
  moreover have "lower ! j \<le> vs ! j \<and> (iv ! j \<longrightarrow> vs ! j = lower ! j)" if j: "j < length rows" for j
  proof
    have char: "vs ! j \<le> x \<longleftrightarrow> lower ! j \<le> x \<and> (\<forall>i < length rows. \<forall>e \<in> set (rows ! i). \<forall>v. demand iv (eqs ! i) e j v \<longrightarrow> v \<le> x)" for x
      using la j unfolding least_above_def by blast
    show ge: "lower ! j \<le> vs ! j" using char [of "vs ! j"] by blast
    show "iv ! j \<longrightarrow> vs ! j = lower ! j"
    proof
      assume "iv ! j"
      then have "invariant_at iv j" using j shape by (simp add: invariant_at_def)
      then have "vs ! j \<le> lower ! j" using char [of "lower ! j"] by (simp add: demand_def)
      with ge show "vs ! j = lower ! j" by simp
    qed
  qed
  ultimately show ?thesis using shape eqs lv unfolding admissible_def by blast
qed (use pass in auto)

lemma offsets_pass_below:
  assumes adm: "admissible rows matching lower iv c' d'" and la: "least_above rows lower iv eqs vs"
    and below: "\<And>i. i < length rows \<Longrightarrow> eqs ! i \<le> c' ! i" and i: "i < length rows"
    and m: "matched_entry (rows ! i) (matching ! i) = Some e" "eqs' ! i = vs ! (matching ! i) - order e"
    and range: "\<And>e. e \<in> set (rows ! i) \<Longrightarrow> column e < length rows"
  shows "eqs' ! i \<le> c' ! i"
proof -
  have "matching ! i < length rows" using matched_entry_Some [OF m(1)] range [of e] by simp
  then have "vs ! (matching ! i) \<le> d' ! (matching ! i)" using least_above_le [OF adm la] below by blast
  then show ?thesis using admissibleD(5) [OF adm i] m by auto
qed

lemma offsets_loop_least:
  assumes shape: "offsets_shape rows matching lower iv" and eqs: "length eqs = length rows"
    and below: "\<And>c' d' i. admissible rows matching lower iv c' d' \<Longrightarrow> i < length rows \<Longrightarrow> eqs ! i \<le> c' ! i"
  shows "\<exists>r. offsets_loop rows matching lower iv k eqs = Some r \<and> (\<forall>c d. r = Inr (c, d) \<longrightarrow> least_admissible rows matching lower iv c d)"
  using eqs below
proof (induction k arbitrary: eqs)
  case (Suc k)
  from shape Suc.prems(1) show ?case
  proof (cases rule: offsets_pass_cases)
    case (ok eqs' vs)
    show ?thesis
    proof (cases "eqs' = eqs")
      case True
      then have pass: "offsets_pass rows matching lower iv eqs = Ok (eqs, vs, False)" using ok(1) by simp
      have "admissible rows matching lower iv eqs vs" by (rule offsets_pass_admissible [OF shape pass Suc.prems(1)])
      moreover have "eqs ! i \<le> c' ! i \<and> vs ! i \<le> d' ! i" if "admissible rows matching lower iv c' d'" "i < length rows" for c' d' i
        using Suc.prems(2) [OF that] least_above_le [OF that(1) ok(3) Suc.prems(2) [OF that(1)] that(2)] by blast
      ultimately have "least_admissible rows matching lower iv eqs vs" unfolding least_admissible_def by blast
      then show ?thesis using pass by simp
    next
      case False
      have "eqs' ! i \<le> c' ! i" if "admissible rows matching lower iv c' d'" "i < length rows" for c' d' i
        using offsets_pass_below [OF that(1) ok(3) Suc.prems(2) [OF that(1)] that(2)] ok(5) [OF that(2)] ok(4) [OF that(2)] by blast
      from Suc.IH [OF ok(2) this] show ?thesis using ok(1) False by simp
    qed
  qed auto
qed simp

lemma offsets_loop_u32:
  assumes shape: "offsets_shape rows matching lower iv" and eqs: "length eqs = length rows"
    and lower: "\<And>j. j < length rows \<Longrightarrow> lower ! j \<le> u32_max" and run: "offsets_loop rows matching lower iv k eqs = Ok (c, d)"
    and j: "j < length rows"
  shows "d ! j \<le> u32_max"
  using eqs run
proof (induction k arbitrary: eqs)
  case (Suc k)
  from shape Suc.prems(1) show ?case
  proof (cases rule: offsets_pass_cases)
    case (ok eqs' vs)
    have "v \<le> u32_max" if "i < length rows" "e \<in> set (rows ! i)" "demand iv (eqs ! i) e j v" for i e v
      using ok(6) [OF that(1,2)] that(3) by (auto simp: entry_fits_def demand_def)
    then have "vs ! j \<le> u32_max" using ok(3) lower [OF j] j unfolding least_above_def by blast
    then show ?thesis using Suc.IH [OF ok(2)] Suc.prems(2) ok(1) by (auto split: if_splits)
  qed (use Suc.prems(2) in auto)
qed simp

text \<open>The pass as an operator on integer offsets.\<close>

definition offset_shifts :: "SignatureEntry list list \<Rightarrow> nat list \<Rightarrow> bool list \<Rightarrow> nat \<Rightarrow> (nat \<times> int) set" where
  "offset_shifts rows matching iv i =
     {(r, int (order e) - int (order (the (matched_entry (rows ! i) (matching ! i))))) | r e.
        r < length rows \<and> e \<in> set (rows ! r) \<and> column e = matching ! i \<and> \<not> invariant_at iv (matching ! i)}"

definition offset_operator :: "SignatureEntry list list \<Rightarrow> nat list \<Rightarrow> nat list \<Rightarrow> bool list \<Rightarrow> (nat \<Rightarrow> int) \<Rightarrow> nat \<Rightarrow> int" where
  "offset_operator rows matching lower iv c i =
     Max (insert (int (lower ! (matching ! i)) - int (order (the (matched_entry (rows ! i) (matching ! i)))))
       ((\<lambda>(r, w). c r + w) ` offset_shifts rows matching iv i))"

lemma offset_operator_le:
  "offset_operator rows matching lower iv c i \<le> x \<longleftrightarrow>
     int (lower ! (matching ! i)) - int (order (the (matched_entry (rows ! i) (matching ! i)))) \<le> x \<and>
     (\<forall>(r, w) \<in> offset_shifts rows matching iv i. c r + w \<le> x)"
proof -
  have "offset_shifts rows matching iv i \<subseteq>
      (\<lambda>(r, e). (r, int (order e) - int (order (the (matched_entry (rows ! i) (matching ! i)))))) ` (SIGMA r : {..<length rows}. set (rows ! r))"
    by (force simp: offset_shifts_def)
  then have "finite (offset_shifts rows matching iv i)" by (rule finite_subset) auto
  then show ?thesis unfolding offset_operator_def by (subst Max_le_iff) auto
qed

lemma offset_operator_cong:
  assumes "\<And>r. r < length rows \<Longrightarrow> c r = c' r"
  shows "offset_operator rows matching lower iv c i = offset_operator rows matching lower iv c' i"
proof -
  have "(\<lambda>(r, w). c r + w) ` offset_shifts rows matching iv i = (\<lambda>(r, w). c' r + w) ` offset_shifts rows matching iv i"
    by (rule image_cong) (auto simp: offset_shifts_def assms)
  then show ?thesis by (simp add: offset_operator_def)
qed

lemma offsets_pass_operator:
  assumes la: "least_above rows lower iv eqs vs" and i: "i < length rows"
    and m: "matched_entry (rows ! i) (matching ! i) = Some e" "eqs ! i + order e \<le> vs ! (matching ! i)"
      "eqs' ! i = vs ! (matching ! i) - order e" and col: "matching ! i < length rows"
  shows "int (eqs' ! i) = offset_operator rows matching lower iv (\<lambda>r. int (eqs ! r)) i"
proof (rule antisym)
  let ?j = "matching ! i" and ?F = "offset_operator rows matching lower iv (\<lambda>r. int (eqs ! r)) i"
  have char: "vs ! ?j \<le> x \<longleftrightarrow> lower ! ?j \<le> x \<and> (\<forall>r < length rows. \<forall>e \<in> set (rows ! r). \<forall>v. demand iv (eqs ! r) e ?j v \<longrightarrow> v \<le> x)" for x
    using la col unfolding least_above_def by blast
  have val: "int (eqs' ! i) = int (vs ! ?j) - int (order e)" using m by simp
  have up: "int (lower ! ?j) - int (order e) \<le> ?F" "\<And>r w. (r, w) \<in> offset_shifts rows matching iv i \<Longrightarrow> int (eqs ! r) + w \<le> ?F"
    using offset_operator_le [of rows matching lower iv "\<lambda>r. int (eqs ! r)" i ?F] m(1) by auto
  have "vs ! ?j \<le> nat (?F + int (order e))"
    unfolding char
  proof (intro conjI allI impI ballI)
    show "lower ! ?j \<le> nat (?F + int (order e))" using up(1) by linarith
    fix r e' v assume r: "r < length rows" "e' \<in> set (rows ! r)" "demand iv (eqs ! r) e' ?j v"
    then have "(r, int (order e') - int (order e)) \<in> offset_shifts rows matching iv i"
      using m(1) by (auto simp: offset_shifts_def demand_def)
    from up(2) [OF this] show "v \<le> nat (?F + int (order e))" using r(3) by (auto simp: demand_def)
  qed
  moreover have "0 \<le> ?F + int (order e)" using up(1) by linarith
  ultimately show "int (eqs' ! i) \<le> ?F" unfolding val by linarith
  have "int (eqs ! r) + w \<le> int (vs ! ?j) - int (order e)" if "(r, w) \<in> offset_shifts rows matching iv i" for r w
  proof -
    obtain e' where e': "r < length rows" "e' \<in> set (rows ! r)" "column e' = ?j" "\<not> invariant_at iv ?j" "w = int (order e') - int (order e)"
      using \<open>(r, w) \<in> _\<close> m(1) by (auto simp: offset_shifts_def)
    then have "demand iv (eqs ! r) e' ?j (eqs ! r + order e')" by (simp add: demand_def)
    then have "eqs ! r + order e' \<le> vs ! ?j" using char [of "vs ! ?j"] e'(1,2) by blast
    then show ?thesis using e'(5) by linarith
  qed
  moreover have "lower ! ?j \<le> vs ! ?j" using char [of "vs ! ?j"] by blast
  ultimately show "?F \<le> int (eqs' ! i)" unfolding offset_operator_le val using m(1) by auto
qed

lemma offsets_pass_defined:
  assumes adm: "admissible rows matching lower iv c' d'"
    and fits: "\<And>i e. i < length rows \<Longrightarrow> e \<in> set (rows ! i) \<Longrightarrow> entry_fits iv (length rows) (eqs ! i) e"
    and eqs: "length eqs = length rows" and below: "\<And>i. i < length rows \<Longrightarrow> eqs ! i \<le> c' ! i"
  shows "\<exists>eqs' vs. offsets_pass rows matching lower iv eqs = Ok (eqs', vs, eqs' \<noteq> eqs) \<and> length eqs' = length rows \<and>
    (\<forall>i < length rows. eqs' ! i \<le> c' ! i \<and>
       int (eqs' ! i) = offset_operator rows matching lower iv (\<lambda>r. int (eqs ! r)) i)"
  using admissibleD(1) [OF adm] eqs
proof (cases rule: offsets_pass_cases)
  case (ok eqs' vs)
  have "eqs' ! i \<le> c' ! i \<and> int (eqs' ! i) = offset_operator rows matching lower iv (\<lambda>r. int (eqs ! r)) i" if i: "i < length rows" for i
  proof -
    obtain e where e: "matched_entry (rows ! i) (matching ! i) = Some e" "eqs ! i + order e \<le> vs ! (matching ! i)"
      "eqs' ! i = vs ! (matching ! i) - order e" using ok(5) [OF i] by blast
    have "matching ! i < length rows" using matched_entry_Some [OF e(1)] ok(4) [OF i, of e] by simp
    then show ?thesis
      using offsets_pass_below [OF adm ok(3) below i e(1,3) ok(4) [OF i]] offsets_pass_operator [OF ok(3) i e] by blast
  qed
  then show ?thesis using ok(1,2) by blast
next
  case (unfit m i e)
  then show ?thesis using fits by blast
next
  case (unmatched m vs i)
  then show ?thesis using matched_fits_below [OF adm _ below] by blast
qed

text \<open>Below 32-bit admissible offsets the loop stands still within its bound of passes.\<close>

lemma offset_iteration_stops:
  assumes adm: "admissible rows matching lower iv c' d'" and i: "i < length rows"
  defines "F \<equiv> offset_operator rows matching lower iv"
  shows "(F ^^ Suc (length rows)) (\<lambda>_. 0) i = (F ^^ length rows) (\<lambda>_. 0) i"
proof (rule difference_iteration_stops [OF _ _ _ _ _ i])
  show "F c i \<le> x \<longleftrightarrow>
      int (lower ! (matching ! i)) - int (order (the (matched_entry (rows ! i) (matching ! i)))) \<le> x \<and>
      (\<forall>(r, w) \<in> offset_shifts rows matching iv i. c r + w \<le> x)" if "i < length rows" for c i x
    unfolding F_def by (rule offset_operator_le)
  show "r < length rows" if "(r, w) \<in> offset_shifts rows matching iv i" for i r w
    using that by (auto simp: offset_shifts_def)
  show "0 \<le> int (c' ! i)" for i by simp
next
  fix i assume i: "i < length rows"
  obtain e where e: "matched_entry (rows ! i) (matching ! i) = Some e" "d' ! (matching ! i) = c' ! i + order e"
    using admissibleD(5) [OF adm i] by blast
  have em: "e \<in> set (rows ! i)" "column e = matching ! i" using matched_entry_Some [OF e(1)] by auto
  have jr: "matching ! i < length rows"
    using admissibleD(3) [OF adm i em(1)] invariant_at_less [of iv "column e"] em(2) admissibleD(1) [OF adm] by auto
  note up = offset_operator_le [of rows matching lower iv _ i, THEN iffD1, OF order.refl]
  show "0 \<le> F (\<lambda>_. 0) i"
  proof (cases "invariant_at iv (matching ! i)")
    case True
    then have "d' ! (matching ! i) = lower ! (matching ! i)"
      using invariant_at_less [of iv "matching ! i"] admissibleD(4) [OF adm jr] by blast
    then show ?thesis using up [of "\<lambda>_. 0"] e by (auto simp: F_def)
  next
    case False
    then have "(i, 0) \<in> offset_shifts rows matching iv i"
      using i em e(1) by (force simp: offset_shifts_def)
    then show ?thesis using up [of "\<lambda>_. 0"] by (fastforce simp: F_def)
  qed
  have "int (c' ! r) + w \<le> int (c' ! i)" if "(r, w) \<in> offset_shifts rows matching iv i" for r w
  proof -
    obtain e' where e': "r < length rows" "e' \<in> set (rows ! r)" "column e' = matching ! i" "\<not> invariant_at iv (matching ! i)"
        "w = int (order e') - int (order e)"
      using \<open>(r, w) \<in> _\<close> e(1) by (auto simp: offset_shifts_def)
    then have "c' ! r + order e' \<le> d' ! (matching ! i)" using admissibleD(3) [OF adm e'(1,2)] by simp
    then show ?thesis using e(2) e'(5) by linarith
  qed
  moreover have "lower ! (matching ! i) \<le> d' ! (matching ! i)" using admissibleD(4) [OF adm jr] by blast
  ultimately show "F (\<lambda>i. int (c' ! i)) i \<le> int (c' ! i)"
    unfolding F_def offset_operator_le using e by auto
qed

lemma offsets_loop_terminates:
  assumes adm: "admissible rows matching lower iv c' d'"
    and fits: "\<And>k eqs i e. k \<le> length rows \<Longrightarrow> i < length rows \<Longrightarrow> e \<in> set (rows ! i) \<Longrightarrow>
      int (eqs ! i) = ((offset_operator rows matching lower iv) ^^ k) (\<lambda>_. 0) i \<Longrightarrow> eqs ! i \<le> c' ! i \<Longrightarrow>
      entry_fits iv (length rows) (eqs ! i) e"
    and k: "k + l = length rows" and eqs: "length eqs = length rows"
    and iter: "\<And>i. i < length rows \<Longrightarrow> int (eqs ! i) = ((offset_operator rows matching lower iv) ^^ k) (\<lambda>_. 0) i"
    and below: "\<And>i. i < length rows \<Longrightarrow> eqs ! i \<le> c' ! i"
  shows "\<exists>c d. offsets_loop rows matching lower iv (Suc l) eqs = Ok (c, d)"
  using k eqs iter below
proof (induction l arbitrary: k eqs)
  case 0
  let ?F = "offset_operator rows matching lower iv"
  have "entry_fits iv (length rows) (eqs ! i) e" if "i < length rows" "e \<in> set (rows ! i)" for i e
    using fits [of k i e eqs] 0(1,3,4) that by simp
  from offsets_pass_defined [OF adm this 0(2,4)] obtain eqs' vs where
    p: "offsets_pass rows matching lower iv eqs = Ok (eqs', vs, eqs' \<noteq> eqs)" "length eqs' = length rows"
      "\<And>i. i < length rows \<Longrightarrow> int (eqs' ! i) = ?F (\<lambda>r. int (eqs ! r)) i" by auto
  have "eqs' = eqs"
  proof (rule nth_equalityI)
    fix i assume "i < length eqs'"
    then have i: "i < length rows" using p(2) by simp
    have "int (eqs' ! i) = ?F ((?F ^^ length rows) (\<lambda>_. 0)) i"
      using p(3) [OF i] offset_operator_cong [of rows "\<lambda>r. int (eqs ! r)"] 0(1,3) by simp
    also have "\<dots> = int (eqs ! i)" using offset_iteration_stops [OF adm i] 0(1,3) i by simp
    finally show "eqs' ! i = eqs ! i" by simp
  qed (use p(2) 0(2) in simp)
  then show ?case using p(1) by simp
next
  case (Suc l)
  let ?F = "offset_operator rows matching lower iv"
  have "entry_fits iv (length rows) (eqs ! i) e" if "i < length rows" "e \<in> set (rows ! i)" for i e
    using fits [of k i e eqs] Suc.prems(1,3,4) that by simp
  from offsets_pass_defined [OF adm this Suc.prems(2,4)] obtain eqs' vs where
    p: "offsets_pass rows matching lower iv eqs = Ok (eqs', vs, eqs' \<noteq> eqs)" "length eqs' = length rows"
      "\<And>i. i < length rows \<Longrightarrow> int (eqs' ! i) = ?F (\<lambda>r. int (eqs ! r)) i" "\<And>i. i < length rows \<Longrightarrow> eqs' ! i \<le> c' ! i" by auto
  have "int (eqs' ! i) = (?F ^^ Suc k) (\<lambda>_. 0) i" if "i < length rows" for i
    using p(3) [OF that] offset_operator_cong [of rows "\<lambda>r. int (eqs ! r)" "(?F ^^ k) (\<lambda>_. 0)"] Suc.prems(3) by simp
  from Suc.IH [of "Suc k" eqs', OF _ p(2) this p(4)] Suc.prems(1)
  obtain c d where "offsets_loop rows matching lower iv (Suc l) eqs' = Ok (c, d)" by auto
  then show ?case using p(1) by simp
qed

lemma least_offsets_cases:
  obtains (ok) c d where "least_offsets_with_lower_bounds rows matching lower iv = Ok (c, d)" "least_admissible rows matching lower iv c d"
  | (error) m where "least_offsets_with_lower_bounds rows matching lower iv = Err m"
      "\<nexists>c d. admissible rows matching lower iv c d \<and> (\<forall>x \<in> set d. x \<le> u32_max)"
proof (cases "offsets_shape rows matching lower iv")
  case False
  then have "\<exists>m. least_offsets_with_lower_bounds rows matching lower iv = Err m"
    by (auto simp: least_offsets_with_lower_bounds_def)
  moreover have "\<nexists>c d. admissible rows matching lower iv c d \<and> (\<forall>x \<in> set d. x \<le> u32_max)"
    using False admissibleD(1) by blast
  ultimately show thesis using error by blast
next
  case True
  let ?z = "replicate (length rows) 0"
  have run: "least_offsets_with_lower_bounds rows matching lower iv = offsets_loop rows matching lower iv (Suc (length rows)) ?z"
    using True by (simp only: least_offsets_with_lower_bounds_def) simp
  obtain r where r: "offsets_loop rows matching lower iv (Suc (length rows)) ?z = Some r"
    "\<And>c d. r = Inr (c, d) \<Longrightarrow> least_admissible rows matching lower iv c d"
    using offsets_loop_least [OF True, of ?z "Suc (length rows)"] by auto
  show thesis
  proof (cases r)
    case (Inr cd)
    then show thesis using ok r run by (cases cd) auto
  next
    case (Inl m)
    have "\<exists>c d. offsets_loop rows matching lower iv (Suc (length rows)) ?z = Ok (c, d)"
      if "admissible rows matching lower iv c' d'" "\<forall>x \<in> set d'. x \<le> u32_max" for c' d'
      using offsets_loop_terminates [OF that(1), of 0 "length rows" ?z] entry_fits_below [OF that] by simp
    then have "\<nexists>c d. admissible rows matching lower iv c d \<and> (\<forall>x \<in> set d. x \<le> u32_max)"
      using r(1) Inl by fastforce
    then show thesis using error r(1) Inl run by simp
  qed
qed

text \<open>Small orders: no pass leaves the machine range, and the iteration fails only if nothing is admissible.\<close>

lemma offset_iteration_bound:
  assumes order: "\<And>r e. r < length rows \<Longrightarrow> e \<in> set (rows ! r) \<Longrightarrow> order e \<le> L"
    and lower: "\<And>i. i < length rows \<Longrightarrow> lower ! (matching ! i) \<le> B" and i: "i < length rows"
  shows "((offset_operator rows matching lower iv) ^^ k) (\<lambda>_. 0) i \<le> int (B + k * L)"
  using i
proof (induction k arbitrary: i)
  case (Suc k)
  let ?c = "((offset_operator rows matching lower iv) ^^ k) (\<lambda>_. 0)"
  have "?c r + w \<le> int (B + Suc k * L)" if "(r, w) \<in> offset_shifts rows matching iv i" for r w
  proof -
    obtain e where e: "r < length rows" "e \<in> set (rows ! r)"
      "w = int (order e) - int (order (the (matched_entry (rows ! i) (matching ! i))))"
      using \<open>(r, w) \<in> _\<close> by (auto simp: offset_shifts_def)
    then have "w \<le> int L" using order [OF e(1,2)] by linarith
    then show ?thesis using Suc.IH [OF e(1)] by simp
  qed
  moreover have "int (lower ! (matching ! i)) \<le> int (B + Suc k * L)" unfolding of_nat_le_iff by (rule trans_le_add1 [OF lower [OF Suc.prems]])
  ultimately have "offset_operator rows matching lower iv ?c i \<le> int (B + Suc k * L)"
    unfolding offset_operator_le by (auto simp: algebra_simps)
  then show ?case by simp
qed simp

lemma least_offsets_total:
  assumes adm: "admissible rows matching lower iv c' d'"
    and order: "\<And>r e. r < length rows \<Longrightarrow> e \<in> set (rows ! r) \<Longrightarrow> column e < length rows \<and> order e \<le> L"
    and lower: "\<And>j. j < length rows \<Longrightarrow> lower ! j \<le> B" and big: "B + Suc (length rows) * L \<le> u32_max"
  shows "\<exists>c d. least_offsets_with_lower_bounds rows matching lower iv = Ok (c, d) \<and> least_admissible rows matching lower iv c d \<and>
    (\<forall>j < length rows. d ! j \<le> u32_max)"
proof -
  let ?z = "replicate (length rows) 0"
  have run: "least_offsets_with_lower_bounds rows matching lower iv = offsets_loop rows matching lower iv (Suc (length rows)) ?z"
    using admissibleD(1) [OF adm] by (simp only: least_offsets_with_lower_bounds_def) simp
  have cols: "lower ! (matching ! i) \<le> B" if "i < length rows" for i
    using admissibleD(5) [OF adm that] matched_entry_Some order [OF that] lower by metis
  have "entry_fits iv (length rows) (eqs ! i) e"
    if "k \<le> length rows" "i < length rows" "e \<in> set (rows ! i)" "int (eqs ! i) = ((offset_operator rows matching lower iv) ^^ k) (\<lambda>_. 0) i"
    for k eqs i e
  proof -
    have "int (eqs ! i) \<le> int (B + k * L)" unfolding that(4) by (rule offset_iteration_bound) (use order cols that(2) in auto)
    then have "eqs ! i + order e \<le> B + k * L + L" using order [OF that(2,3)] by linarith
    also have "\<dots> \<le> B + Suc (length rows) * L" using mult_le_mono1 [OF that(1), of L] by simp
    finally show ?thesis using order [OF that(2,3)] big by (simp add: entry_fits_def)
  qed
  then obtain c d where l: "offsets_loop rows matching lower iv (Suc (length rows)) ?z = Ok (c, d)"
    using offsets_loop_terminates [OF adm, of 0 "length rows" ?z] by auto
  have "lower ! j \<le> u32_max" if "j < length rows" for j using lower [OF that] big by linarith
  then have "d ! j \<le> u32_max" if "j < length rows" for j
    by (intro offsets_loop_u32 [OF admissibleD(1) [OF adm] _ _ l that]) simp_all
  moreover have "least_admissible rows matching lower iv c d"
    using least_offsets_cases [of rows matching lower iv] l run by fastforce
  ultimately show ?thesis using l run by simp
qed

section \<open>The certificate\<close>

definition row_certified :: "nat list \<Rightarrow> nat list \<Rightarrow> nat list \<Rightarrow> bool list \<Rightarrow> nat \<Rightarrow> SignatureEntry list \<Rightarrow> bool" where
  "row_certified matching c d iv i es \<longleftrightarrow> matching ! i < length matching \<and>
     (\<exists>e. matched_entry es (matching ! i) = Some e \<and> d ! (matching ! i) = c ! i + order e) \<and>
     (\<forall>e \<in> set es. column e < length matching \<and> (\<not> iv ! column e \<longrightarrow> c ! i + order e \<le> d ! column e))"

definition matched_order :: "nat list \<Rightarrow> nat \<Rightarrow> SignatureEntry list \<Rightarrow> nat" where
  "matched_order matching i es = order (the (matched_entry es (matching ! i)))"

lemma certify_entries:
  "foldQ (certify_entry d iv c) () es =
     (if \<forall>e \<in> set es. column e < length iv \<and> (\<not> iv ! column e \<longrightarrow> column e < length d \<and> c + order e \<le> d ! column e)
      then Ok () else Err ())"
proof (induction es)
  case (Cons e es)
  have "certify_entry d iv c () e =
    (if column e < length iv \<and> (\<not> iv ! column e \<longrightarrow> column e < length d \<and> c + order e \<le> d ! column e) then Ok () else Err ())"
    by (cases "column e < length iv"; cases "iv ! column e"; cases "column e < length d") (auto simp: certify_entry_def)
  with Cons.IH show ?case by auto
qed simp

lemma certify_step:
  assumes "length c = length matching" "length d = length matching" "length iv = length matching"
    "length seen = length matching" "i < length matching"
  shows "certify_row matching c d iv (seen, ob) (i, es) =
    (if row_certified matching c d iv i es \<and> \<not> seen ! (matching ! i) \<and> ob + matched_order matching i es \<le> usize_max
     then Ok (seen[matching ! i := True], ob + matched_order matching i es) else Err ())"
proof (cases "matching ! i < length matching \<and> \<not> seen ! (matching ! i)")
  case False
  then show ?thesis using assms
    by (cases "matching ! i < length matching") (auto simp: certify_row_def row_certified_def)
next
  case True
  then have col: "idx seen (matching ! i) = Some False" "idx d (matching ! i) = Some (d ! (matching ! i))"
    "idx matching i = Some (matching ! i)" "idx c i = Some (c ! i)" using assms by auto
  show ?thesis
  proof (cases "matched_entry es (matching ! i)")
    case None
    then show ?thesis using True col by (simp add: certify_row_def row_certified_def matched_entry_def)
  next
    case (Some e)
    then have "List.find (\<lambda>entry. column entry = matching ! i) es = Some e" by (simp add: matched_entry_def)
    then show ?thesis using True col Some assms
      by (auto simp: certify_row_def row_certified_def matched_order_def certify_entries chk_usize_def)
  qed
qed

lemma certify_rows:
  assumes "length c = length matching" "length d = length matching" "length iv = length matching"
    "length seen = length matching" "k + length rows \<le> length matching" "ob \<le> usize_max"
  shows "foldQ (certify_row matching c d iv) (seen, ob) (enumerate k rows) =
    (if (\<forall>i < length rows. row_certified matching c d iv (k + i) (rows ! i)) \<and> distinct (map ((!) matching) [k..<k + length rows]) \<and>
        (\<forall>j \<in> set (map ((!) matching) [k..<k + length rows]). \<not> seen ! j) \<and>
        ob + (\<Sum>i<length rows. matched_order matching (k + i) (rows ! i)) \<le> usize_max
     then Ok (fold (\<lambda>j s. s[j := True]) (map ((!) matching) [k..<k + length rows]) seen,
       ob + (\<Sum>i<length rows. matched_order matching (k + i) (rows ! i)))
     else Err ())"
  using assms(4-6)
proof (induction rows arbitrary: k seen ob)
  case (Cons es rows)
  let ?j = "matching ! k" and ?w = "matched_order matching k es"
  have k: "k < length matching" using Cons.prems(2) by simp
  define U where "U = [Suc k..<Suc k + length rows]"
  have upt: "[k..<k + length (es # rows)] = k # U" unfolding U_def by (subst upt_conv_Cons) simp_all
  have all: "(\<forall>i < length (es # rows). row_certified matching c d iv (k + i) ((es # rows) ! i)) \<longleftrightarrow>
      row_certified matching c d iv k es \<and> (\<forall>i < length rows. row_certified matching c d iv (Suc k + i) (rows ! i))"
    by (auto simp: less_Suc_eq_0_disj)
  have sum: "(\<Sum>i<length (es # rows). matched_order matching (k + i) ((es # rows) ! i)) =
      ?w + (\<Sum>i<length rows. matched_order matching (Suc k + i) (rows ! i))"
    by (simp add: sum.lessThan_Suc_shift del: sum.lessThan_Suc)
  have mark: "(\<forall>j \<in> A. \<not> seen[?j := True] ! j) \<longleftrightarrow> ?j \<notin> A \<and> (\<forall>j \<in> A. \<not> seen ! j)" if "?j < length seen" for A
    using that by (auto simp: nth_list_update)
  have step: "certify_row matching c d iv (seen, ob) (k, es) =
    (if row_certified matching c d iv k es \<and> \<not> seen ! ?j \<and> ob + ?w \<le> usize_max then Ok (seen[?j := True], ob + ?w) else Err ())"
    by (rule certify_step [OF assms(1-3) Cons.prems(1) k])
  show ?case
  proof (cases "row_certified matching c d iv k es \<and> \<not> seen ! ?j \<and> ob + ?w \<le> usize_max")
    case False
    then show ?thesis unfolding enumerate_simps foldQ.simps step all upt sum by auto
  next
    case True
    then have j: "?j < length seen" using Cons.prems(1) by (simp add: row_certified_def)
    have IH: "foldQ (certify_row matching c d iv) (seen[?j := True], ob + ?w) (enumerate (Suc k) rows) =
      (if (\<forall>i < length rows. row_certified matching c d iv (Suc k + i) (rows ! i)) \<and> distinct (map ((!) matching) U) \<and>
          (\<forall>j \<in> set (map ((!) matching) U). \<not> seen[?j := True] ! j) \<and>
          ob + ?w + (\<Sum>i<length rows. matched_order matching (Suc k + i) (rows ! i)) \<le> usize_max
       then Ok (fold (\<lambda>j s. s[j := True]) (map ((!) matching) U) (seen[?j := True]),
         ob + ?w + (\<Sum>i<length rows. matched_order matching (Suc k + i) (rows ! i)))
       else Err ())"
      unfolding U_def by (rule Cons.IH) (use Cons.prems True in simp_all)
    show ?thesis
      unfolding enumerate_simps foldQ.simps step all upt sum using True IH
      unfolding mark [OF j] by (auto simp: add.assoc)
  qed
qed simp

lemma sum_usize_eq: "sum_usize vals = (if sum_list vals \<le> usize_max then Some (sum_list vals) else None)"
proof -
  have "try_fold (\<lambda>total value. chk_usize (total + value)) t vals =
      (if t + sum_list vals \<le> usize_max \<or> vals = [] then Some (t + sum_list vals) else None)" for t
    by (induction vals arbitrary: t) (auto simp: chk_usize_def)
  from this [of 0] show ?thesis by (auto simp: sum_usize_def machine_int)
qed

text \<open>A perfect matching of a signature, and its weight.\<close>

definition perfect_in :: "SignatureEntry list list \<Rightarrow> nat list \<Rightarrow> bool" where
  "perfect_in rows f \<longleftrightarrow> length f = length rows \<and> distinct f \<and> set f = {..<length rows} \<and>
     (\<forall>i < length rows. matched_entry (rows ! i) (f ! i) \<noteq> None)"

definition matching_weight :: "SignatureEntry list list \<Rightarrow> nat list \<Rightarrow> nat" where
  "matching_weight rows f = (\<Sum>i<length rows. matched_order f i (rows ! i))"

lemma sum_list_nth: "sum_list xs = (\<Sum>i<length xs. xs ! i)"
  by (simp add: sum_list_sum_nth atLeast0LessThan)

lemma sum_over_matching:
  assumes "perfect_in rows f" and "length d = length rows"
  shows "(\<Sum>i<length rows. d ! (f ! i)) = sum_list d"
proof -
  have "(\<Sum>i<length rows. d ! (f ! i)) = sum_list (map ((!) d) f)"
    using assms(1) by (simp add: sum_list_nth perfect_in_def)
  also have "\<dots> = sum ((!) d) (set f)" using assms(1) by (simp add: sum_list_distinct_conv_sum_set perfect_in_def)
  also have "\<dots> = sum_list d" using assms by (simp add: perfect_in_def sum_list_nth)
  finally show ?thesis .
qed

lemma certified_perfect:
  assumes "length matching = length rows" "distinct matching"
    and "\<And>i. i < length rows \<Longrightarrow> row_certified matching c d iv i (rows ! i)"
  shows "perfect_in rows matching"
proof -
  have "set matching \<subseteq> {..<length rows}"
    using assms(1,3) by (auto simp: row_certified_def in_set_conv_nth)
  moreover have "card (set matching) = length rows" using assms(1,2) by (simp add: distinct_card)
  ultimately have "set matching = {..<length rows}" by (metis card_lessThan card_subset_eq finite_lessThan)
  moreover have "matched_entry (rows ! i) (matching ! i) \<noteq> None" if "i < length rows" for i
    using assms(3) [OF that] by (auto simp: row_certified_def)
  ultimately show ?thesis using assms(1,2) by (simp add: perfect_in_def)
qed

lemma certified_sum:
  assumes shape: "length matching = length rows" "length d = length rows" "length c = length rows" "distinct matching"
    and cert: "\<And>i. i < length rows \<Longrightarrow> row_certified matching c d iv i (rows ! i)"
  shows "sum_list d = sum_list c + matching_weight rows matching"
proof -
  have p: "perfect_in rows matching" by (rule certified_perfect [OF shape(1,4) cert])
  have "d ! (matching ! i) = c ! i + matched_order matching i (rows ! i)" if "i < length rows" for i
    using cert [OF that] by (auto simp: row_certified_def matched_order_def)
  then have "(\<Sum>i<length rows. d ! (matching ! i)) = (\<Sum>i<length rows. c ! i) + matching_weight rows matching"
    by (simp add: matching_weight_def sum.distrib)
  then show ?thesis using sum_over_matching [OF p shape(2)] shape(3) by (simp add: sum_list_nth)
qed

lemma certify_eq:
  "certify rows matching c d iv =
    (if length matching = length rows \<and> length c = length rows \<and> length d = length rows \<and> length iv = length rows \<and>
        distinct matching \<and> (\<forall>i < length rows. row_certified matching c d iv i (rows ! i)) \<and> sum_list d \<le> usize_max
     then Ok (matching_weight rows matching) else Err ())"
proof (cases "length matching = length rows \<and> length c = length rows \<and> length d = length rows \<and> length iv = length rows")
  case False
  then show ?thesis by (auto simp: certify_def Let_def)
next
  case True
  have map: "map ((!) matching) [0..<length rows] = matching" using True by (metis map_nth)
  have run: "foldQ (certify_row matching c d iv) (replicate (length rows) False, 0) (enumerate 0 rows) =
    (if (\<forall>i < length rows. row_certified matching c d iv i (rows ! i)) \<and> distinct matching \<and> matching_weight rows matching \<le> usize_max \<and>
        (\<forall>j \<in> set matching. \<not> replicate (length rows) False ! j)
     then Ok (fold (\<lambda>j s. s[j := True]) matching (replicate (length rows) False), matching_weight rows matching) else Err ())"
    by (subst certify_rows) (use True map in \<open>auto simp: matching_weight_def machine_int\<close>)
  have start: "certify rows matching c d iv =
    bindQ (foldQ (certify_row matching c d iv) (replicate (length rows) False, 0) (enumerate 0 rows))
        (\<lambda>(seen, objective).
          case (sum_usize d, sum_usize c) of
            (Some v, Some e) \<Rightarrow> (if v < e \<or> v - e \<noteq> objective then Err () else Ok objective)
          | _ \<Rightarrow> Err ())"
    using True by (auto simp: certify_def Let_def)
  show ?thesis
  proof (cases "(\<forall>i < length rows. row_certified matching c d iv i (rows ! i)) \<and> distinct matching")
    case False
    then show ?thesis unfolding start run by auto
  next
    case cert: True
    then have "sum_list d = sum_list c + matching_weight rows matching" using certified_sum [of matching rows d c iv] True by blast
    moreover have "\<forall>j \<in> set matching. \<not> replicate (length rows) False ! j"
      using cert True by (auto simp: in_set_conv_nth row_certified_def)
    ultimately show ?thesis unfolding start run using cert True by (auto simp: sum_usize_eq)
  qed
qed

lemma certified_optimal:
  assumes shape: "length matching = length rows" "length d = length rows" "length c = length rows" "distinct matching"
    and cert: "\<And>i. i < length rows \<Longrightarrow> row_certified matching c d iv i (rows ! i)"
    and f: "perfect_in rows f" "\<And>i. i < length rows \<Longrightarrow> iv ! (f ! i) \<Longrightarrow> f ! i = matching ! i"
  shows "matching_weight rows f \<le> matching_weight rows matching"
proof -
  have "c ! i + matched_order f i (rows ! i) \<le> d ! (f ! i)" if i: "i < length rows" for i
  proof -
    obtain e where e: "matched_entry (rows ! i) (f ! i) = Some e" using f(1) i by (auto simp: perfect_in_def)
    show ?thesis
    proof (cases "iv ! (f ! i)")
      case True
      then have "f ! i = matching ! i" by (rule f(2) [OF i])
      then show ?thesis using cert [OF i] e by (auto simp: row_certified_def matched_order_def)
    next
      case False
      then show ?thesis using cert [OF i] matched_entry_Some [OF e] e by (auto simp: row_certified_def matched_order_def)
    qed
  qed
  then have "(\<Sum>i<length rows. c ! i + matched_order f i (rows ! i)) \<le> (\<Sum>i<length rows. d ! (f ! i))"
    by (intro sum_mono) simp
  then have "sum_list c + matching_weight rows f \<le> sum_list d"
    using sum_over_matching [OF f(1) shape(2)] shape(3) by (simp add: sum.distrib sum_list_nth matching_weight_def)
  moreover have "sum_list d = sum_list c + matching_weight rows matching" by (rule certified_sum [OF shape cert])
  ultimately show ?thesis by simp
qed

section \<open>Properties\<close>

text \<open>C17: The offset iteration always returns within its bound of passes, without a panic. What
  it returns is the least pair of offsets the matched signature admits; it fails only if no
  admissible pair of 32-bit offsets exists. No assumption is made on the matching or on the
  signature.\<close>

theorem least_offsets_decided:
  "case least_offsets_with_lower_bounds rows matching lower iv of
     None \<Rightarrow> False
   | Some (Inr (c, d)) \<Rightarrow> least_admissible rows matching lower iv c d
   | Some (Inl _) \<Rightarrow> \<not> (\<exists>c d. admissible rows matching lower iv c d \<and> (\<forall>x \<in> set d. x \<le> u32_max))"
  by (cases rule: least_offsets_cases [of rows matching lower iv]) auto

theorem least_offsets_decided_witness:
  "\<not> (\<exists>c d. admissible [[\<lparr>column = 0, order = 1\<rparr>, \<lparr>column = 1, order = 1\<rparr>], [\<lparr>column = 0, order = 1\<rparr>, \<lparr>column = 1, order = 0\<rparr>]]
       [0, 1] [0, 0] [False, False] c d \<and> (\<forall>x \<in> set d. x \<le> u32_max))"
proof -
  have "least_offsets_with_lower_bounds [[\<lparr>column = 0, order = 1\<rparr>, \<lparr>column = 1, order = 1\<rparr>], [\<lparr>column = 0, order = 1\<rparr>, \<lparr>column = 1, order = 0\<rparr>]]
       [0, 1] [0, 0] [False, False] = Err ''differential offsets exceed the simple-path bound''" by code_simp
  then show ?thesis
    using least_offsets_decided [of "[[\<lparr>column = 0, order = 1\<rparr>, \<lparr>column = 1, order = 1\<rparr>], [\<lparr>column = 0, order = 1\<rparr>, \<lparr>column = 1, order = 0\<rparr>]]"
        "[0, 1]" "[0, 0]" "[False, False]"] by simp
qed

text \<open>C18: The certificate check is sound: when it answers with a number, the matching is a
  perfect matching of the signature of that weight, and no perfect matching that agrees with
  it on the invariant columns weighs more; when no column is invariant, no perfect matching
  at all weighs more. The check asks nothing of the offsets at an invariant column, so a
  perfect matching that uses such a column elsewhere may weigh more than a certified one.\<close>

theorem certificate_optimal:
  assumes "certify rows matching c d iv = Ok objective"
  shows "perfect_in rows matching \<and> objective = matching_weight rows matching \<and>
    (\<forall>f. perfect_in rows f \<longrightarrow> (\<forall>i < length rows. iv ! (f ! i) \<longrightarrow> f ! i = matching ! i) \<longrightarrow> matching_weight rows f \<le> objective) \<and>
    (True \<notin> set iv \<longrightarrow> (\<forall>f. perfect_in rows f \<longrightarrow> matching_weight rows f \<le> objective))"
proof -
  have c: "length matching = length rows" "length d = length rows" "length c = length rows" "length iv = length rows"
    "distinct matching" "objective = matching_weight rows matching"
    and cert: "\<And>i. i < length rows \<Longrightarrow> row_certified matching c d iv i (rows ! i)"
    using assms by (auto simp: certify_eq split: if_splits)
  note best = certified_optimal [OF c(1-3,5) cert]
  have "matching_weight rows f \<le> matching_weight rows matching" if f: "perfect_in rows f" and iv: "True \<notin> set iv" for f
  proof (rule best [OF _ f])
    fix i assume i: "i < length rows" "iv ! (f ! i)"
    then have "f ! i < length iv" using f c(4) by (auto simp: perfect_in_def)
    then show "f ! i = matching ! i" using i(2) iv by (metis (full_types) nth_mem)
  qed simp_all
  with certified_perfect [OF c(1,5) cert] best c(6) show ?thesis by blast
qed

theorem certificate_optimal_witness:
  "matching_weight [[\<lparr>column = 0, order = 1\<rparr>, \<lparr>column = 1, order = 0\<rparr>], [\<lparr>column = 0, order = 0\<rparr>, \<lparr>column = 1, order = 2\<rparr>]] [1, 0] \<le> 3"
proof -
  let ?rows = "[[\<lparr>column = 0, order = 1\<rparr>, \<lparr>column = 1, order = 0\<rparr>], [\<lparr>column = 0, order = 0\<rparr>, \<lparr>column = 1, order = 2\<rparr>]]"
  have "certify ?rows [0, 1] [0, 0] [1, 2] [False, False] = Ok 3" by code_simp
  note r = certificate_optimal [OF this]
  have "perfect_in ?rows [1, 0]"
    by (auto simp: perfect_in_def matched_entry_def less_Suc_eq)
  moreover have "\<forall>i < length ?rows. [False, False] ! ([1, 0] ! i) \<longrightarrow> [1, 0 :: nat] ! i = [0, 1] ! i"
    by (auto simp: less_Suc_eq)
  ultimately show ?thesis using r by blast
qed

text \<open>
  The restriction to the invariant columns is needed: in this signature, whose second column
  is invariant, the diagonal matching of weight 0 is certified and the other one weighs 5.
\<close>

lemma certificate_relaxed_at_invariant_columns:
  defines "rows \<equiv> [[\<lparr>column = 0, order = 0\<rparr>, \<lparr>column = 1, order = 5\<rparr>], [\<lparr>column = 0, order = 0\<rparr>, \<lparr>column = 1, order = 0\<rparr>]]"
  shows "certify rows [0, 1] [0, 0] [0, 0] [False, True] = Ok 0 \<and> perfect_in rows [1, 0] \<and> matching_weight rows [1, 0] = 5"
proof -
  have "certify rows [0, 1] [0, 0] [0, 0] [False, True] = Ok 0" unfolding rows_def by code_simp
  moreover have "perfect_in rows [1, 0]" by (auto simp: rows_def perfect_in_def matched_entry_def less_Suc_eq)
  moreover have "matching_weight rows [1, 0] = 5"
    by (simp add: rows_def matching_weight_def matched_order_def matched_entry_def lessThan_Suc)
  ultimately show ?thesis by blast
qed

end
