(* ===== verification/Assignment.thy ===== *)
theory Assignment
  imports Differential_Offsets "HOL-Library.Product_Lexorder"
begin

text \<open>
  The maximum-weight assignment of signature rows to columns
  (\<open>differential_structure/assignment.rs\<close> of \<open>rumoca-phase-structural\<close>): successive cheapest
  augmenting paths in a unit-capacity network, with node potentials that keep the reduced
  costs of the usable edges non-negative. An edge and its reverse name each other by
  position. The binary heap is the ascending list of its entries; equal entries are
  indistinguishable, so its order among them does not matter.
\<close>

section \<open>The network\<close>

record Edge =
  target :: nat
  reverse :: nat
  cost :: int
  available :: bool

record Assignment =
  edges :: "Edge list list"
  potentials :: "int list"
  source :: nat
  sink :: nat

definition add_edge :: "nat \<Rightarrow> nat \<Rightarrow> int \<Rightarrow> Assignment \<Rightarrow> Assignment option" where
  "add_edge tail head c g = do {
     tail_edges \<leftarrow> idx (edges g) tail;
     head_edges \<leftarrow> idx (edges g) head;
     (let forward = length tail_edges;
          back = length head_edges;
          es = (edges g)[tail := tail_edges @ [\<lparr>target = head, reverse = back, cost = c, available = True\<rparr>]] in do {
        head_edges \<leftarrow> idx es head;
        Some (g\<lparr>edges := es[head := head_edges @ [\<lparr>target = tail, reverse = forward, cost = - c, available = False\<rparr>]]\<rparr>)
     })
   }"

definition reverse_edge :: "nat \<Rightarrow> nat \<Rightarrow> Assignment \<Rightarrow> Assignment option" where
  "reverse_edge node i g = do {
     node_edges \<leftarrow> idx (edges g) node;
     edge \<leftarrow> idx node_edges i;
     (let es = (edges g)[node := node_edges[i := edge\<lparr>available := False\<rparr>]] in do {
        target_edges \<leftarrow> idx es (target edge);
        back \<leftarrow> idx target_edges (reverse edge);
        Some (g\<lparr>edges := es[target edge := target_edges[reverse edge := back\<lparr>available := True\<rparr>]]\<rparr>)
     })
   }"

definition reduced_cost :: "Assignment \<Rightarrow> nat \<Rightarrow> Edge \<Rightarrow> (string + int) option" where
  "reduced_cost g node edge = do {
     own \<leftarrow> idx (potentials g) node;
     other \<leftarrow> idx (potentials g) (target edge);
     Some (ok_or (do {
       v \<leftarrow> chk_i64 (cost edge + own);
       v \<leftarrow> chk_i64 (v - other);
       (if v \<ge> 0 then Some v else None)
     }) ''invalid reduced assignment cost'')
   }"

section \<open>Direct augmentation\<close>

text \<open>The search of \<open>direct_column\<close> over the row's edges, with their positions.\<close>

fun direct_loop :: "Assignment \<Rightarrow> nat \<Rightarrow> (nat \<times> Edge) list \<Rightarrow> (string + (nat \<times> nat) option) option" where
  "direct_loop g row [] = Ok None"
| "direct_loop g row ((i, edge) # rest) =
     (if \<not> available edge \<or> target edge = source g then direct_loop g row rest
      else bindQ (reduced_cost g row edge) (\<lambda>reduced.
        if reduced \<noteq> 0 then direct_loop g row rest
        else case idx (edges g) (target edge) of None \<Rightarrow> None
        | Some column_edges \<Rightarrow>
            (let column_edge = length column_edges - 1 in
             case idx column_edges column_edge of None \<Rightarrow> None
             | Some terminal \<Rightarrow>
                 (if \<not> available terminal then direct_loop g row rest
                  else bindQ (reduced_cost g (target edge) terminal) (\<lambda>reduced.
                    if reduced = 0 then Ok (Some (i, column_edge)) else direct_loop g row rest)))))"

definition direct_column :: "Assignment \<Rightarrow> nat \<Rightarrow> (string + (nat \<times> nat) option) option" where
  "direct_column g row =
     (case idx (edges g) row of None \<Rightarrow> None | Some es \<Rightarrow> direct_loop g row (enumerate 0 es))"

definition reverse_direct :: "nat \<Rightarrow> nat \<Rightarrow> nat \<times> nat \<Rightarrow> Assignment \<Rightarrow> Assignment option" where
  "reverse_direct source_edge row = (\<lambda>(row_edge, column_edge) g. do {
     row_edges \<leftarrow> idx (edges g) row;
     edge \<leftarrow> idx row_edges row_edge;
     (let col = target edge in do {
        g \<leftarrow> reverse_edge (source g) source_edge g;
        g \<leftarrow> reverse_edge row row_edge g;
        reverse_edge col column_edge g
     })
   })"

definition direct_step :: "Assignment \<times> nat \<Rightarrow> nat \<Rightarrow> (string + Assignment \<times> nat) option" where
  "direct_step = (\<lambda>(g, matched) source_edge.
     case Option.bind (idx (edges g) (source g)) (\<lambda>es. idx es source_edge) of None \<Rightarrow> None
     | Some edge \<Rightarrow>
         (if \<not> available edge then Ok (g, matched)
          else bindQ (reduced_cost g (source g) edge) (\<lambda>reduced.
            if reduced \<noteq> 0 then Ok (g, matched)
            else bindQ (direct_column g (target edge)) (\<lambda>found.
              case found of None \<Rightarrow> Ok (g, matched)
              | Some found \<Rightarrow>
                  map_option (\<lambda>g. Inr (g, Suc matched)) (reverse_direct source_edge (target edge) found g)))))"

definition augment_direct :: "Assignment \<Rightarrow> (string + Assignment \<times> nat) option" where
  "augment_direct g =
     (case idx (edges g) (source g) of None \<Rightarrow> None
      | Some es \<Rightarrow> foldQ direct_step (g, 0) [0..<length es])"

section \<open>The cheapest augmenting path\<close>

type_synonym search = "int list \<times> (nat \<times> nat) option list \<times> (int \<times> nat) list"

definition relax_step :: "Assignment \<Rightarrow> nat \<Rightarrow> int \<Rightarrow> search \<Rightarrow> nat \<times> Edge \<Rightarrow> (string + search) option" where
  "relax_step g node c = (\<lambda>(distance, previous, queue) (i, edge).
     bindQ (reduced_cost g node edge) (\<lambda>reduced.
       case chk_i64 (c + reduced) of None \<Rightarrow> Err ''assignment distance overflow''
       | Some candidate \<Rightarrow>
           (case idx distance (target edge) of None \<Rightarrow> None
            | Some d \<Rightarrow>
                (if candidate < d
                 then case upd previous (target edge) (Some (node, i)) of None \<Rightarrow> None
                 | Some previous \<Rightarrow> Ok (distance[target edge := candidate], previous, insort (candidate, target edge) queue)
                 else Ok (distance, previous, queue)))))"

definition relax_neighbors :: "Assignment \<Rightarrow> nat \<Rightarrow> int \<Rightarrow> search \<Rightarrow> (string + search) option" where
  "relax_neighbors g node c st =
     (case idx (edges g) node of None \<Rightarrow> None
      | Some es \<Rightarrow> foldQ (relax_step g node c) st (filter (\<lambda>(_, e). available e) (enumerate 0 es)))"

text \<open>Every push lowers a distance, which ends the search.\<close>

definition search_size :: "int list \<Rightarrow> nat" where
  "search_size distance = sum_list (map (\<lambda>d. nat (d - i64_min)) distance)"

lemma search_size_update:
  assumes "j < length distance" "x < distance ! j" "i64_min \<le> x"
  shows "search_size (distance[j := x]) < search_size distance"
proof -
  let ?f = "\<lambda>d. nat (d - i64_min)"
  have "sum_list ((map ?f distance)[j := ?f x]) = sum_list (map ?f distance) + ?f x - ?f (distance ! j)"
    using assms(1) by (subst sum_list_update) auto
  moreover have "?f (distance ! j) \<le> sum_list (map ?f distance)"
    using assms(1) by (intro member_le_sum_list) auto
  moreover have "?f x < ?f (distance ! j)" using assms(2,3) by linarith
  ultimately show ?thesis unfolding search_size_def map_update by linarith
qed

lemma relax_step_size:
  assumes "relax_step g node c (distance, previous, queue) e = Ok (distance', previous', queue')"
  shows "2 * search_size distance' + length queue' \<le> 2 * search_size distance + length queue"
  using assms search_size_update [of "target (snd e)" distance]
  by (auto simp: relax_step_def bindQ_Ok_iff machine_int split: prod.splits option.splits if_splits; fastforce)

lemma relax_neighbors_size:
  assumes "relax_neighbors g node c (distance, previous, queue) = Ok (distance', previous', queue')"
  shows "2 * search_size distance' + length queue' \<le> 2 * search_size distance + length queue"
proof -
  have "case s of (d, p, q) \<Rightarrow> 2 * search_size d + length q \<le> 2 * search_size distance + length queue"
    if "foldQ (relax_step g node c) (distance, previous, queue) es = Ok s" for s es
    using that by (rule foldQ_invariant) (auto dest: relax_step_size)
  then show ?thesis using assms by (fastforce simp: relax_neighbors_def split: option.splits)
qed

function cheapest_search :: "Assignment \<Rightarrow> int list \<Rightarrow> (nat \<times> nat) option list \<Rightarrow> (int \<times> nat) list \<Rightarrow>
    (string + int list \<times> (nat \<times> nat) option list) option" where
  "cheapest_search g distance previous [] = Ok (distance, previous)"
| "cheapest_search g distance previous ((c, node) # queue) =
     (case idx distance node of None \<Rightarrow> None
      | Some d \<Rightarrow>
          (if c \<noteq> d then cheapest_search g distance previous queue
           else bindQ (relax_neighbors g node c (distance, previous, queue))
             (\<lambda>(distance, previous, queue). cheapest_search g distance previous queue)))"
  by pat_completeness auto

termination cheapest_search
  by (relation "measure (\<lambda>(_, distance, _, queue). 2 * search_size distance + length queue)")
    (auto dest: relax_neighbors_size)

fun raise_potentials :: "int list \<Rightarrow> int list \<Rightarrow> (string + int list) option" where
  "raise_potentials (p # ps) (d # ds) =
     bindQ (if d = i64_max then Ok p
            else case chk_i64 (p + d) of None \<Rightarrow> Err ''assignment potential overflow'' | Some v \<Rightarrow> Ok v)
       (\<lambda>p. bindQ (raise_potentials ps ds) (\<lambda>ps. Ok (p # ps)))"
| "raise_potentials ps ds = Ok ps"

partial_function (option) backtrack :: "(nat \<times> nat) option list \<Rightarrow> nat \<Rightarrow> Assignment \<Rightarrow> (string + Assignment) option" where
  "backtrack previous node g =
     (if node = source g then Ok g
      else case idx previous node of None \<Rightarrow> None
      | Some None \<Rightarrow> Err ''broken assignment augmenting path''
      | Some (Some (parent, i)) \<Rightarrow>
          (case reverse_edge parent i g of None \<Rightarrow> None | Some g \<Rightarrow> backtrack previous parent g))"

declare backtrack.simps [code]

definition augment_cheapest :: "Assignment \<Rightarrow> (string + Assignment \<times> bool) option" where
  "augment_cheapest g =
     (case upd (replicate (length (edges g)) i64_max) (source g) 0 of None \<Rightarrow> None
      | Some distance \<Rightarrow>
          bindQ (cheapest_search g distance (replicate (length (edges g)) None) [(0, source g)]) (\<lambda>(distance, previous).
          case idx previous (sink g) of None \<Rightarrow> None
          | Some None \<Rightarrow> Ok (g, False)
          | Some (Some _) \<Rightarrow>
              bindQ (raise_potentials (potentials g) distance) (\<lambda>raised.
              bindQ (backtrack previous (sink g) (g\<lparr>potentials := raised\<rparr>)) (\<lambda>g. Ok (g, True)))))"

section \<open>The assignment\<close>

function match_loop :: "nat \<Rightarrow> Assignment \<Rightarrow> nat \<Rightarrow> (string + Assignment) option" where
  "match_loop limit g matched =
     (if matched < limit
      then bindQ (augment_direct g) (\<lambda>(g, direct).
        let matched = matched + direct in
        if matched = limit then Ok g
        else bindQ (augment_cheapest g) (\<lambda>(g, found). if \<not> found then Ok g else match_loop limit g (Suc matched)))
      else Ok g)"
  by pat_completeness auto

termination match_loop
  by (relation "measure (\<lambda>(limit, _, matched). limit - matched)") auto

definition largest_order :: "SignatureEntry list list \<Rightarrow> nat" where
  "largest_order rows = fold max (map order (concat rows)) 0"

definition add_entry :: "nat \<Rightarrow> nat \<Rightarrow> nat \<Rightarrow> nat \<Rightarrow> Assignment \<Rightarrow> SignatureEntry \<Rightarrow> (string + Assignment) option" where
  "add_entry n columns largest row g entry =
     (if column entry \<ge> columns then Err ''signature column is outside the variable view''
      else map_option Inr (add_edge row (n + column entry) (int (largest - order entry)) g))"

definition add_row :: "nat \<Rightarrow> nat \<Rightarrow> nat \<Rightarrow> Assignment \<Rightarrow> nat \<times> SignatureEntry list \<Rightarrow> (string + Assignment) option" where
  "add_row n columns largest g = (\<lambda>(row, entries).
     case add_edge (source g) row 0 g of None \<Rightarrow> None
     | Some g \<Rightarrow> foldQ (add_entry n columns largest row) g entries)"

definition build_network :: "SignatureEntry list list \<Rightarrow> nat \<Rightarrow> (string + Assignment) option" where
  "build_network rows columns =
     (let n = length rows in
      case Option.bind (chk_usize (n + columns)) (\<lambda>src. Option.bind (chk_usize (src + 1)) (\<lambda>snk.
             map_option (\<lambda>nodes. (src, snk, nodes)) (chk_usize (snk + 1)))) of
        None \<Rightarrow> Err ''assignment size overflow''
      | Some (src, snk, nodes) \<Rightarrow>
          bindQ (foldQ (add_row n columns (largest_order rows))
              \<lparr>edges = replicate nodes [], potentials = replicate nodes 0, source = src, sink = snk\<rparr> (enumerate 0 rows)) (\<lambda>g.
            map_option Inr (try_fold (\<lambda>g j. add_edge (n + j) (sink g) 0 g) g [0..<columns])))"

definition assigned_column :: "nat \<Rightarrow> Assignment \<Rightarrow> nat \<Rightarrow> nat option option" where
  "assigned_column n g row =
     map_option (\<lambda>es. map_option (\<lambda>e. target e - n)
       (List.find (\<lambda>e. \<not> available e \<and> n \<le> target e \<and> target e < source g) es)) (idx (edges g) row)"

definition maximum_weight_matching :: "SignatureEntry list list \<Rightarrow> nat \<Rightarrow> (string + nat option list) option" where
  "maximum_weight_matching rows columns =
     bindQ (build_network rows columns) (\<lambda>g.
     bindQ (match_loop (min (length rows) columns) g 0) (\<lambda>g.
       map_option Inr (those (map (assigned_column (length rows) g) [0..<length rows]))))"

end
