(* ===== verification/Assignment_Correct.thy ===== *)
theory Assignment_Correct
  imports Assignment
begin

text \<open>
  The assignment of \<open>Assignment\<close> is a matching of the most rows and, among those, of the largest
  weight. An augmentation flips a path of usable edges; the numbers of usable edges at the
  nodes then say that the flipped edges form a matching, and node potentials under
  which no usable edge has a negative reduced cost say that it is the best one.
\<close>

section \<open>Flipping edges\<close>

abbreviation edge_at :: "Assignment \<Rightarrow> nat \<Rightarrow> nat \<Rightarrow> Edge" where
  "edge_at g u k \<equiv> edges g ! u ! k"

definition has_edge :: "Assignment \<Rightarrow> nat \<Rightarrow> nat \<Rightarrow> bool" where
  "has_edge g u k \<longleftrightarrow> u < length (edges g) \<and> k < length (edges g ! u)"

definition arc :: "Assignment \<Rightarrow> nat \<Rightarrow> nat \<Rightarrow> bool" where
  "arc g u k \<longleftrightarrow> has_edge g u k \<and> available (edge_at g u k)"

text \<open>Every edge and its reverse name each other, and exactly one of the two is usable.\<close>

definition wired :: "Assignment \<Rightarrow> bool" where
  "wired g \<longleftrightarrow> (\<forall>u k. has_edge g u k \<longrightarrow>
     (let e = edge_at g u k; b = edge_at g (target e) (reverse e) in
        has_edge g (target e) (reverse e) \<and> target e \<noteq> u \<and>
        target b = u \<and> reverse b = k \<and> cost b = - cost e \<and> available b = (\<not> available e)))"

lemma wiredD:
  assumes "wired g" "has_edge g u k"
  shows "has_edge g (target (edge_at g u k)) (reverse (edge_at g u k))" "target (edge_at g u k) \<noteq> u"
    "target (edge_at g (target (edge_at g u k)) (reverse (edge_at g u k))) = u"
    "reverse (edge_at g (target (edge_at g u k)) (reverse (edge_at g u k))) = k"
    "cost (edge_at g (target (edge_at g u k)) (reverse (edge_at g u k))) = - cost (edge_at g u k)"
    "available (edge_at g (target (edge_at g u k)) (reverse (edge_at g u k))) = (\<not> available (edge_at g u k))"
  using assms unfolding wired_def Let_def by blast+

definition same_shape :: "Assignment \<Rightarrow> Assignment \<Rightarrow> bool" where
  "same_shape g h \<longleftrightarrow> length (edges h) = length (edges g) \<and> source h = source g \<and> sink h = sink g \<and>
     (\<forall>u < length (edges g). length (edges h ! u) = length (edges g ! u)) \<and>
     (\<forall>u k. has_edge g u k \<longrightarrow> target (edge_at h u k) = target (edge_at g u k) \<and>
        reverse (edge_at h u k) = reverse (edge_at g u k) \<and> cost (edge_at h u k) = cost (edge_at g u k))"

lemma same_shape_refl [simp]: "same_shape g g" by (simp add: same_shape_def)

lemma same_shape_has_edge: "same_shape g h \<Longrightarrow> has_edge h u k = has_edge g u k"
  by (auto simp: same_shape_def has_edge_def)

lemma same_shapeD:
  assumes "same_shape g h"
  shows "length (edges h) = length (edges g)" "source h = source g" "sink h = sink g"
    "u < length (edges g) \<Longrightarrow> length (edges h ! u) = length (edges g ! u)"
    "has_edge g u k \<Longrightarrow> target (edge_at h u k) = target (edge_at g u k)"
    "has_edge g u k \<Longrightarrow> reverse (edge_at h u k) = reverse (edge_at g u k)"
    "has_edge g u k \<Longrightarrow> cost (edge_at h u k) = cost (edge_at g u k)"
  using assms unfolding same_shape_def by blast+

lemma same_shape_trans: "same_shape g h \<Longrightarrow> same_shape h i \<Longrightarrow> same_shape g i"
  using same_shape_has_edge [of g h] unfolding same_shape_def by metis

definition usable :: "Assignment \<Rightarrow> nat \<Rightarrow> nat" where
  "usable g u = length (filter available (edges g ! u))"

lemma length_filter_update:
  assumes "k < length xs"
  shows "length (filter P (xs[k := x])) + (if P (xs ! k) then 1 else 0) = length (filter P xs) + (if P x then 1 else 0)"
  using assms
proof (induction xs arbitrary: k)
  case (Cons y ys)
  then show ?case by (cases k) auto
qed simp

text \<open>What flipping one usable edge changes.\<close>

definition flipped :: "Assignment \<Rightarrow> nat \<Rightarrow> nat \<Rightarrow> Assignment \<Rightarrow> bool" where
  "flipped g u k h \<longleftrightarrow> (let v = target (edge_at g u k); k' = reverse (edge_at g u k) in
     same_shape g h \<and> wired h \<and> potentials h = potentials g \<and>
     (\<forall>x j. has_edge g x j \<longrightarrow> available (edge_at h x j) =
        (if (x, j) = (u, k) then False else if (x, j) = (v, k') then True else available (edge_at g x j))) \<and>
     (\<forall>x < length (edges g). int (usable h x) = int (usable g x) - (if x = u then 1 else 0) + (if x = v then 1 else 0)))"

lemma reverse_edge_flips:
  assumes w: "wired g" and a: "arc g u k"
  shows "\<exists>h. reverse_edge u k g = Some h \<and> flipped g u k h"
proof -
  let ?e = "edge_at g u k"
  let ?v = "target ?e" and ?k = "reverse ?e"
  have he: "has_edge g u k" and av: "available ?e" using a by (simp_all add: arc_def)
  note d = wiredD [OF w he]
  let ?b = "edge_at g ?v ?k"
  let ?u' = "(edges g ! u)[k := ?e\<lparr>available := False\<rparr>]"
  let ?v' = "(edges g ! ?v)[?k := ?b\<lparr>available := True\<rparr>]"
  define h where "h = g\<lparr>edges := (edges g)[u := ?u', ?v := ?v']\<rparr>"
  have u: "u < length (edges g)" "k < length (edges g ! u)" and v: "?v < length (edges g)" "?k < length (edges g ! ?v)"
    using he d(1) by (simp_all add: has_edge_def)
  have run: "reverse_edge u k g = Some h"
    using u v d(2) by (simp add: reverse_edge_def Let_def h_def)
  have rest: "potentials h = potentials g" "source h = source g" "sink h = sink g" "length (edges h) = length (edges g)"
    by (simp_all add: h_def)
  have row: "edges h ! x = (if x = ?v then ?v' else if x = u then ?u' else edges g ! x)" if "x < length (edges g)" for x
    using that d(2) by (auto simp: nth_list_update h_def)
  have at: "edge_at h x j = (if (x, j) = (u, k) then ?e\<lparr>available := False\<rparr> else if (x, j) = (?v, ?k) then ?b\<lparr>available := True\<rparr> else edge_at g x j)"
    if "has_edge g x j" for x j
    using that d(2) u v by (auto simp: has_edge_def row nth_list_update)
  have len: "length (edges h ! x) = length (edges g ! x)" if "x < length (edges g)" for x
    using row [OF that] by auto
  have static: "target (edge_at h x j) = target (edge_at g x j)" "reverse (edge_at h x j) = reverse (edge_at g x j)"
    "cost (edge_at h x j) = cost (edge_at g x j)" if "has_edge g x j" for x j
    using at [OF that] by (auto split: if_splits)
  have shape: "same_shape g h" unfolding same_shape_def using len static rest by blast
  have avail: "available (edge_at h x j) =
      (if (x, j) = (u, k) then False else if (x, j) = (?v, ?k) then True else available (edge_at g x j))" if "has_edge g x j" for x j
    using at [OF that] by simp
  have wh: "wired h"
    unfolding wired_def Let_def
  proof (intro allI impI)
    fix x j assume "has_edge h x j"
    then have x: "has_edge g x j" using same_shape_has_edge [OF shape] by blast
    note dx = wiredD [OF w x]
    have "(target (edge_at g x j), reverse (edge_at g x j)) = (u, k) \<longleftrightarrow> (x, j) = (?v, ?k)"
      using dx(3,4) d(3,4) by auto
    moreover have "(target (edge_at g x j), reverse (edge_at g x j)) = (?v, ?k) \<longleftrightarrow> (x, j) = (u, k)"
      using dx(3,4) d(3,4) by auto
    ultimately have "available (edge_at h (target (edge_at g x j)) (reverse (edge_at g x j))) = (\<not> available (edge_at h x j))"
      using avail [OF x] avail [OF dx(1)] dx(6) d(2) by (auto split: if_splits)
    then show "has_edge h (target (edge_at h x j)) (reverse (edge_at h x j)) \<and> target (edge_at h x j) \<noteq> x \<and>
       target (edge_at h (target (edge_at h x j)) (reverse (edge_at h x j))) = x \<and>
       reverse (edge_at h (target (edge_at h x j)) (reverse (edge_at h x j))) = j \<and>
       cost (edge_at h (target (edge_at h x j)) (reverse (edge_at h x j))) = - cost (edge_at h x j) \<and>
       available (edge_at h (target (edge_at h x j)) (reverse (edge_at h x j))) = (\<not> available (edge_at h x j))"
      unfolding static [OF x] using static [OF dx(1)] dx same_shape_has_edge [OF shape] by simp
  qed
  have count: "int (usable h x) = int (usable g x) - (if x = u then 1 else 0) + (if x = ?v then 1 else 0)"
    if "x < length (edges g)" for x
  proof -
    have nb: "\<not> available ?b" using d(6) av by simp
    consider "x = u" | "x = ?v" "x \<noteq> u" | "x \<noteq> u" "x \<noteq> ?v" by blast
    then show ?thesis
    proof cases
      case 1
      then have "edges h ! x = ?u'" using row [OF that] d(2) by simp
      then show ?thesis using length_filter_update [OF u(2), of available "?e\<lparr>available := False\<rparr>"] 1 av d(2)
        by (simp add: usable_def)
    next
      case 2
      then have "edges h ! x = ?v'" using row [OF that] by simp
      then show ?thesis using length_filter_update [OF v(2), of available "?b\<lparr>available := True\<rparr>"] 2 nb
        by (simp add: usable_def)
    next
      case 3
      then show ?thesis using row [OF that] by (simp add: usable_def)
    qed
  qed
  have "flipped g u k h"
    unfolding flipped_def Let_def using shape wh rest(1) avail count by blast
  then show ?thesis using run by blast
qed

section \<open>Potentials\<close>

definition rc :: "Assignment \<Rightarrow> nat \<Rightarrow> nat \<Rightarrow> int" where
  "rc g u k = cost (edge_at g u k) + potentials g ! u - potentials g ! target (edge_at g u k)"

text \<open>Magnitudes: \<open>C\<close> bounds the costs, and no sum of costs along a path leaves the machine range.\<close>

definition magnitudes :: "int \<Rightarrow> Assignment \<Rightarrow> bool" where
  "magnitudes C g \<longleftrightarrow> (let n = length (edges g) in
     length (potentials g) = n \<and> source g < n \<and> sink g < n \<and> source g \<noteq> sink g \<and>
     0 \<le> C \<and> C * int n < i64_max \<and> (\<forall>u k. has_edge g u k \<longrightarrow> \<bar>cost (edge_at g u k)\<bar> \<le> C) \<and>
     (\<forall>v < n. 0 \<le> potentials g ! v \<and> potentials g ! v \<le> C * (int n - 1)) \<and> potentials g ! source g = 0)"

text \<open>
  Optimality: under \<open>\<phi>\<close> no usable edge has a negative reduced cost. The stored potentials agree
  with \<open>\<phi>\<close> on \<open>R\<close>, a set the usable edges do not leave; the nodes outside are out of
  reach of the source for good and keep stale potentials.
\<close>

definition dual_on :: "Assignment \<Rightarrow> nat set \<Rightarrow> (nat \<Rightarrow> int) \<Rightarrow> bool" where
  "dual_on g R \<phi> \<longleftrightarrow> source g \<in> R \<and> (\<forall>v \<in> R. v < length (edges g) \<and> \<phi> v = potentials g ! v) \<and>
     (\<forall>u k. arc g u k \<longrightarrow> 0 \<le> cost (edge_at g u k) + \<phi> u - \<phi> (target (edge_at g u k))) \<and>
     (\<forall>u k. arc g u k \<longrightarrow> u \<in> R \<longrightarrow> target (edge_at g u k) \<in> R)"

lemma dual_onD:
  assumes "dual_on g R \<phi>"
  shows "source g \<in> R" "v \<in> R \<Longrightarrow> v < length (edges g)" "v \<in> R \<Longrightarrow> \<phi> v = potentials g ! v"
    "arc g u k \<Longrightarrow> 0 \<le> cost (edge_at g u k) + \<phi> u - \<phi> (target (edge_at g u k))"
    "arc g u k \<Longrightarrow> u \<in> R \<Longrightarrow> target (edge_at g u k) \<in> R"
  using assms unfolding dual_on_def by blast+

lemma magnitudesD:
  assumes "magnitudes C g"
  shows "length (potentials g) = length (edges g)" "source g < length (edges g)" "sink g < length (edges g)"
    "source g \<noteq> sink g" "0 \<le> C" "C * int (length (edges g)) < i64_max"
    "has_edge g u k \<Longrightarrow> \<bar>cost (edge_at g u k)\<bar> \<le> C"
    "v < length (edges g) \<Longrightarrow> 0 \<le> potentials g ! v \<and> potentials g ! v \<le> C * (int (length (edges g)) - 1)"
    "potentials g ! source g = 0"
  using assms unfolding magnitudes_def Let_def by blast+

lemma rc_dual:
  assumes "dual_on g R \<phi>" "arc g u k" "u \<in> R"
  shows "rc g u k = cost (edge_at g u k) + \<phi> u - \<phi> (target (edge_at g u k))" "0 \<le> rc g u k"
proof -
  note d = dual_onD [OF assms(1)]
  show "rc g u k = cost (edge_at g u k) + \<phi> u - \<phi> (target (edge_at g u k))"
    using d(3) [OF assms(3)] d(3) [OF d(5) [OF assms(2,3)]] by (simp add: rc_def)
  then show "0 \<le> rc g u k" using d(4) [OF assms(2)] by simp
qed

lemma reduced_cost_ok:
  assumes m: "magnitudes C g" and d: "dual_on g R \<phi>" and a: "arc g u k" "u \<in> R"
  shows "reduced_cost g u (edge_at g u k) = Ok (rc g u k)"
proof -
  let ?v = "target (edge_at g u k)" and ?n = "length (edges g)"
  have v: "?v < ?n" and u: "u < ?n" using dual_onD(2,5) [OF d] a by blast+
  have c: "\<bar>cost (edge_at g u k)\<bar> \<le> C" using magnitudesD(7) [OF m] a(1) by (simp add: arc_def)
  have big: "C * (int ?n - 1) + C = C * int ?n" by (simp add: algebra_simps)
  have "in_i64 (cost (edge_at g u k) + potentials g ! u)" "in_i64 (rc g u k)"
    using magnitudesD(8) [OF m u] magnitudesD(8) [OF m v] c big magnitudesD(5,6) [OF m]
    unfolding rc_def in_i64_def i64_min_def i64_max_def by linarith+
  then show ?thesis
    using u v magnitudesD(1) [OF m] rc_dual(2) [OF d a]
    by (simp add: reduced_cost_def rc_def chk_i64_def)
qed

lemma magnitudes_same_shape:
  assumes "magnitudes C g" "same_shape g h" "potentials h = potentials g"
  shows "magnitudes C h"
  using assms(1,3) same_shapeD [OF assms(2)] same_shape_has_edge [OF assms(2)]
  unfolding magnitudes_def Let_def by metis

lemma flippedD:
  assumes "flipped g u k h"
  shows "same_shape g h" "wired h" "potentials h = potentials g"
    "has_edge g x j \<Longrightarrow> available (edge_at h x j) =
        (if (x, j) = (u, k) then False else if (x, j) = (target (edge_at g u k), reverse (edge_at g u k)) then True
         else available (edge_at g x j))"
    "x < length (edges g) \<Longrightarrow> int (usable h x) =
       int (usable g x) - (if x = u then 1 else 0) + (if x = target (edge_at g u k) then 1 else 0)"
  using assms unfolding flipped_def Let_def by blast+

lemma flipped_arc:
  assumes "flipped g u k h"
  shows "arc h x j \<longleftrightarrow> has_edge g x j \<and> (x, j) \<noteq> (u, k) \<and>
    ((x, j) = (target (edge_at g u k), reverse (edge_at g u k)) \<or> arc g x j)"
  using flippedD(4) [OF assms, of x j] same_shape_has_edge [OF flippedD(1) [OF assms], of x j] by (auto simp: arc_def split: if_splits)

text \<open>Flipping an edge of reduced cost zero keeps every invariant.\<close>

lemma tight_flip:
  assumes w: "wired g" and m: "magnitudes C g" and d: "dual_on g R \<phi>"
    and a: "arc g u k" "u \<in> R" and tight: "rc g u k = 0"
  shows "\<exists>h. reverse_edge u k g = Some h \<and> flipped g u k h \<and> magnitudes C h \<and> dual_on h R \<phi>"
proof -
  obtain h where h: "reverse_edge u k g = Some h" "flipped g u k h" using reverse_edge_flips [OF w a(1)] by blast
  note f = flippedD [OF h(2)] and s = same_shapeD [OF flippedD(1) [OF h(2)]] and dd = dual_onD [OF d]
  let ?v = "target (edge_at g u k)" and ?k = "reverse (edge_at g u k)"
  have he: "has_edge g u k" using a(1) by (simp add: arc_def)
  note wd = wiredD [OF w he]
  have "dual_on h R \<phi>"
    unfolding dual_on_def
  proof (intro conjI allI impI ballI)
    show "source h \<in> R" using dd(1) s(2) by simp
    fix v assume "v \<in> R"
    then show "v < length (edges h)" "\<phi> v = potentials h ! v" using dd(2,3) s(1) f(3) by simp_all
  next
    fix x j assume "arc h x j"
    then have x: "has_edge g x j" "(x, j) = (?v, ?k) \<or> arc g x j" using flipped_arc [OF h(2)] by blast+
    from x(2) show "0 \<le> cost (edge_at h x j) + \<phi> x - \<phi> (target (edge_at h x j))"
    proof
      assume xj: "(x, j) = (?v, ?k)"
      then show ?thesis using s(5,7) [OF x(1)] wd(3,5) tight rc_dual(1) [OF d a] by simp
    qed (use s(5,7) [OF x(1)] dd(4) in simp)
    assume R: "x \<in> R"
    from x(2) show "target (edge_at h x j) \<in> R"
    proof
      assume "(x, j) = (?v, ?k)"
      then show ?thesis using s(5) [OF x(1)] wd(3) a(2) by simp
    qed (use s(5) [OF x(1)] dd(5) R in simp)
  qed
  then show ?thesis using h magnitudes_same_shape [OF m f(1,3)] by blast
qed

section \<open>The search\<close>

fun route :: "Assignment \<Rightarrow> nat \<Rightarrow> (nat \<times> nat) list \<Rightarrow> nat \<Rightarrow> bool" where
  "route g a [] b \<longleftrightarrow> a = b"
| "route g a ((u, k) # p) b \<longleftrightarrow> u = a \<and> arc g u k \<and> route g (target (edge_at g u k)) p b"

definition route_cost :: "Assignment \<Rightarrow> (nat \<times> nat) list \<Rightarrow> int" where
  "route_cost g p = sum_list (map (\<lambda>(u, k). cost (edge_at g u k)) p)"

lemma route_append: "route g a (p @ q) b \<longleftrightarrow> (\<exists>c. route g a p c \<and> route g c q b)"
  by (induction p arbitrary: a) auto

lemma route_cost_simps [simp]:
  "route_cost g [] = 0" "route_cost g ((u, k) # p) = cost (edge_at g u k) + route_cost g p"
  "route_cost g (p @ q) = route_cost g p + route_cost g q"
  by (simp_all add: route_cost_def)

lemma route_reduced:
  assumes d: "dual_on g R \<phi>" and "route g a p b" "a \<in> R"
  shows "b \<in> R \<and> 0 \<le> route_cost g p + \<phi> a - \<phi> b"
  using assms(2,3)
proof (induction p arbitrary: a)
  case (Cons e p)
  obtain u k where e: "e = (u, k)" by (cases e)
  have a: "u = a" "arc g a k" "route g (target (edge_at g a k)) p b" using Cons.prems(1) e by auto
  have "b \<in> R \<and> 0 \<le> route_cost g p + \<phi> (target (edge_at g a k)) - \<phi> b"
    by (rule Cons.IH [OF a(3) dual_onD(5) [OF d a(2) Cons.prems(2)]])
  then show ?case using dual_onD(4) [OF d a(2)] e a(1) by simp
qed simp

lemma route_nodes: "route g a p b \<Longrightarrow> x \<in> set (map fst p) \<Longrightarrow> x < length (edges g)"
  by (induction p arbitrary: a) (force simp: arc_def has_edge_def)+

lemma route_cost_bound:
  assumes m: "magnitudes C g" and "route g a p b"
  shows "\<bar>route_cost g p\<bar> \<le> C * int (length p)"
  using assms(2)
proof (induction p arbitrary: a)
  case (Cons e p)
  obtain u k where e: "e = (u, k)" by (cases e)
  then have "has_edge g u k" "\<bar>route_cost g p\<bar> \<le> C * int (length p)" using Cons by (auto simp: arc_def)
  then show ?case using magnitudesD(7) [OF m, of u k] e by (simp add: distrib_left)
qed simp

lemma simple_route_cost:
  assumes m: "magnitudes C g" and r: "route g a p b" "b < length (edges g)" and d: "distinct (map fst p @ [b])"
  shows "\<bar>route_cost g p\<bar> \<le> C * (int (length (edges g)) - 1)"
proof -
  have "set (map fst p @ [b]) \<subseteq> {..<length (edges g)}" using route_nodes [OF r(1)] r(2) by auto
  then have "length (map fst p @ [b]) \<le> length (edges g)" using d by (metis card_lessThan card_mono distinct_card finite_lessThan)
  then have "int (length p) \<le> int (length (edges g)) - 1" by simp
  then have "C * int (length p) \<le> C * (int (length (edges g)) - 1)" using magnitudesD(5) [OF m] by (rule mult_left_mono)
  then show ?thesis using route_cost_bound [OF m r(1)] by linarith
qed

text \<open>A label is the reduced cost of a route without a repeated node, whose nodes have labels as small.\<close>

definition labelled :: "Assignment \<Rightarrow> int list \<Rightarrow> nat \<Rightarrow> bool" where
  "labelled g d u \<longleftrightarrow> (\<exists>p. route g (source g) p u \<and> distinct (map fst p @ [u]) \<and>
     d ! u = route_cost g p - potentials g ! u \<and>
     (\<forall>p1 y k p2. p = p1 @ (y, k) # p2 \<longrightarrow> d ! y \<le> route_cost g p1 - potentials g ! y))"

fun traced :: "(nat \<times> nat) option list \<Rightarrow> nat \<Rightarrow> nat \<Rightarrow> nat \<Rightarrow> bool" where
  "traced prev s 0 x \<longleftrightarrow> x = s"
| "traced prev s (Suc n) x \<longleftrightarrow> (\<exists>u k. x < length prev \<and> prev ! x = Some (u, k) \<and> traced prev s n u)"

definition settled :: "Assignment \<Rightarrow> int list \<Rightarrow> nat \<Rightarrow> bool" where
  "settled g d u \<longleftrightarrow> (\<forall>k. arc g u k \<longrightarrow> d ! target (edge_at g u k) \<le> d ! u + rc g u k)"

abbreviation known :: "Assignment \<Rightarrow> int list \<Rightarrow> nat \<Rightarrow> bool" where
  "known g d u \<equiv> u < length (edges g) \<and> d ! u \<noteq> i64_max"

definition search_inv :: "Assignment \<Rightarrow> nat set \<Rightarrow> int list \<Rightarrow> (nat \<times> nat) option list \<Rightarrow> (int \<times> nat) list \<Rightarrow> bool" where
  "search_inv g X d prev queue \<longleftrightarrow>
     length d = length (edges g) \<and> length prev = length (edges g) \<and> d ! source g = 0 \<and> prev ! source g = None \<and>
     (\<forall>u. known g d u \<longrightarrow> labelled g d u \<and> 0 \<le> d ! u \<and> d ! u < i64_max \<and> (\<exists>n. traced prev (source g) n u)) \<and>
     (\<forall>u < length (edges g). u \<noteq> source g \<longrightarrow> (prev ! u = None \<longleftrightarrow> d ! u = i64_max)) \<and>
     (\<forall>x u k. x < length (edges g) \<longrightarrow> prev ! x = Some (u, k) \<longrightarrow>
        arc g u k \<and> target (edge_at g u k) = x \<and> known g d u \<and> d ! u + rc g u k \<le> d ! x) \<and>
     (\<forall>(c, u) \<in> set queue. u < length (edges g) \<and> c < i64_max) \<and>
     (\<forall>u. known g d u \<longrightarrow> u \<in> X \<or> (d ! u, u) \<in> set queue \<or> settled g d u)"

lemma search_invD:
  assumes "search_inv g X d prev queue"
  shows "length d = length (edges g)" "length prev = length (edges g)" "d ! source g = 0" "prev ! source g = None"
    "known g d u \<Longrightarrow> labelled g d u" "known g d u \<Longrightarrow> 0 \<le> d ! u" "known g d u \<Longrightarrow> d ! u < i64_max"
    "known g d u \<Longrightarrow> \<exists>n. traced prev (source g) n u"
    "u < length (edges g) \<Longrightarrow> u \<noteq> source g \<Longrightarrow> prev ! u = None \<longleftrightarrow> d ! u = i64_max"
    "x < length (edges g) \<Longrightarrow> prev ! x = Some (u, k) \<Longrightarrow>
        arc g u k \<and> target (edge_at g u k) = x \<and> known g d u \<and> d ! u + rc g u k \<le> d ! x"
    "(c, u) \<in> set queue \<Longrightarrow> u < length (edges g) \<and> c < i64_max"
    "known g d u \<Longrightarrow> u \<in> X \<or> (d ! u, u) \<in> set queue \<or> settled g d u"
  using assms unfolding search_inv_def by blast+

lemma known_in:
  assumes d: "dual_on g R \<phi>" and inv: "search_inv g X dist prev queue" and k: "known g dist u"
  shows "u \<in> R"
proof -
  obtain p where "route g (source g) p u" using search_invD(5) [OF inv k] by (auto simp: labelled_def)
  then show ?thesis using route_reduced [OF d _ dual_onD(1) [OF d]] by blast
qed

text \<open>Tracing a node that does not go through a changed one.\<close>

lemma traced_keep:
  assumes "traced prev s n y" and "\<And>y. P y \<Longrightarrow> y \<noteq> x" and "P y"
    and "\<And>y u k. P y \<Longrightarrow> y < length prev \<Longrightarrow> prev ! y = Some (u, k) \<Longrightarrow> P u"
  shows "traced (prev[x := v]) s n y"
  using assms(1,3)
proof (induction n arbitrary: y)
  case (Suc n)
  then obtain u k where u: "y < length prev" "prev ! y = Some (u, k)" "traced prev s n u" by auto
  then have "traced (prev[x := v]) s n u" using Suc.IH assms(4) Suc.prems(2) by blast
  then show ?case using u assms(2) [OF Suc.prems(2)] by auto
qed simp

lemma traced_redirect:
  assumes "traced prev s n y" "traced prev' s m x"
    and "length prev' = length prev" "\<And>y. y \<noteq> x \<Longrightarrow> y < length prev \<Longrightarrow> prev' ! y = prev ! y"
  shows "\<exists>n. traced prev' s n y"
  using assms(1)
proof (induction n arbitrary: y)
  case 0
  then have "traced prev' s 0 y" by simp
  then show ?case by blast
next
  case (Suc n)
  then obtain u k where u: "y < length prev" "prev ! y = Some (u, k)" "traced prev s n u" by auto
  show ?case
  proof (cases "y = x")
    case True
    then show ?thesis using assms(2) by blast
  next
    case False
    obtain n' where "traced prev' s n' u" using Suc.IH u(3) by blast
    then have "traced prev' s (Suc n') y" using u assms(3,4) False by auto
    then show ?thesis by blast
  qed
qed

text \<open>The label a usable edge offers: within range, and an improvement only off the labelled route.\<close>

lemma candidate_range:
  assumes m: "magnitudes C g" and d: "dual_on g R \<phi>" and inv: "search_inv g X dist prev queue"
    and k: "known g dist u" and a: "arc g u k"
  shows "0 \<le> dist ! u + rc g u k" "dist ! u + rc g u k < i64_max" "in_i64 (dist ! u + rc g u k)"
proof -
  let ?v = "target (edge_at g u k)" and ?n = "length (edges g)"
  have uR: "u \<in> R" by (rule known_in [OF d inv k])
  have v: "?v < ?n" using dual_onD(2,5) [OF d] a uR by blast
  obtain p where p: "route g (source g) p u" "distinct (map fst p @ [u])" "dist ! u = route_cost g p - potentials g ! u"
    using search_invD(5) [OF inv k] by (auto simp: labelled_def)
  have "route_cost g p \<le> C * (int ?n - 1)" using simple_route_cost [OF m p(1) _ p(2)] k by simp
  moreover have "\<bar>cost (edge_at g u k)\<bar> \<le> C" using magnitudesD(7) [OF m] a by (simp add: arc_def)
  moreover have "C * (int ?n - 1) + C = C * int ?n" by (simp add: algebra_simps)
  moreover have "0 \<le> potentials g ! ?v" using magnitudesD(8) [OF m v] by simp
  ultimately show lt: "dist ! u + rc g u k < i64_max"
    using p(3) magnitudesD(6) [OF m] unfolding rc_def by linarith
  show ge: "0 \<le> dist ! u + rc g u k" using search_invD(6) [OF inv k] rc_dual(2) [OF d a uR] by simp
  show "in_i64 (dist ! u + rc g u k)" using lt ge by (simp add: machine_int)
qed

lemma labelled_extend:
  assumes d: "dual_on g R \<phi>" and inv: "search_inv g X dist prev queue" and k: "known g dist u"
    and a: "arc g u k" and w: "wired g" and less: "dist ! u + rc g u k < dist ! target (edge_at g u k)"
  shows "labelled g (dist[target (edge_at g u k) := dist ! u + rc g u k]) (target (edge_at g u k))"
proof -
  let ?x = "target (edge_at g u k)"
  let ?c = "dist ! u + rc g u k"
  let ?d = "dist[?x := ?c]"
  obtain p where p: "route g (source g) p u" "distinct (map fst p @ [u])" "dist ! u = route_cost g p - potentials g ! u"
      "\<And>p1 y k p2. p = p1 @ (y, k) # p2 \<Longrightarrow> dist ! y \<le> route_cost g p1 - potentials g ! y"
    using search_invD(5) [OF inv k] by (auto simp: labelled_def)
  have uR: "u \<in> R" by (rule known_in [OF d inv k])
  have xu: "?x \<noteq> u" using wiredD(2) [OF w] a by (simp add: arc_def)
  have xl: "?x < length dist" using search_invD(1) [OF inv] dual_onD(2,5) [OF d] a uR by metis
  have fresh: "?x \<notin> set (map fst p)"
  proof
    assume "?x \<in> set (map fst p)"
    then obtain p1 j p2 where split: "p = p1 @ (?x, j) # p2" by (fastforce simp: in_set_conv_decomp)
    then have r: "route g (source g) p1 ?x" "route g ?x ((?x, j) # p2) u" using p(1) by (auto simp: route_append)
    have "?x \<in> R" using dual_onD(5) [OF d a uR] .
    then have "0 \<le> route_cost g ((?x, j) # p2) + \<phi> ?x - \<phi> u" using route_reduced [OF d r(2)] by blast
    then have "0 \<le> route_cost g ((?x, j) # p2) + potentials g ! ?x - potentials g ! u"
      using dual_onD(3) [OF d] \<open>?x \<in> R\<close> uR by simp
    moreover have "dist ! ?x \<le> route_cost g p1 - potentials g ! ?x" by (rule p(4) [OF split])
    moreover have "route_cost g p = route_cost g p1 + route_cost g ((?x, j) # p2)" by (simp add: split)
    ultimately have "dist ! ?x \<le> dist ! u" using p(3) by linarith
    then show False using less rc_dual(2) [OF d a uR] by simp
  qed
  let ?p = "p @ [(u, k)]"
  have "route g (source g) ?p ?x" using p(1) a by (auto simp: route_append)
  moreover have "distinct (map fst ?p @ [?x])" using p(2) fresh xu by auto
  moreover have "?d ! ?x = route_cost g ?p - potentials g ! ?x" using p(3) xl by (simp add: rc_def)
  moreover have "?d ! y \<le> route_cost g p1 - potentials g ! y" if split: "?p = p1 @ (y, j) # p2" for p1 y j p2
  proof (cases p2 rule: rev_cases)
    case Nil
    then have "p1 = p" "y = u" using split by auto
    then show ?thesis using p(3) xu by simp
  next
    case (snoc q e)
    then have pq: "p = p1 @ (y, j) # q" using split by simp
    then have "y \<noteq> ?x" using fresh by auto
    then show ?thesis using p(4) [OF pq] by simp
  qed
  ultimately show ?thesis unfolding labelled_def by blast
qed

lemma labelled_mono:
  assumes "labelled g dist y" "y \<noteq> x" and "\<And>z. dist' ! z \<le> dist ! z" "dist' ! y = dist ! y"
  shows "labelled g dist' y"
  using assms unfolding labelled_def by (metis order_trans)

lemma relax_step_correct:
  assumes m: "magnitudes C g" and d: "dual_on g R \<phi>" and w: "wired g"
    and inv: "search_inv g X dist prev queue" and k: "known g dist u" and a: "arc g u k" and uX: "u \<in> X"
  shows "\<exists>dist' prev' queue'. relax_step g u (dist ! u) (dist, prev, queue) (k, edge_at g u k) = Ok (dist', prev', queue') \<and>
    search_inv g X dist' prev' queue' \<and> dist' ! u = dist ! u \<and> (\<forall>z. dist' ! z \<le> dist ! z) \<and>
    dist' ! target (edge_at g u k) \<le> dist ! u + rc g u k"
proof -
  let ?x = "target (edge_at g u k)"
  let ?c = "dist ! u + rc g u k"
  let ?s = "source g"
  note i = search_invD [OF inv]
  have uR: "u \<in> R" by (rule known_in [OF d inv k])
  have x: "?x < length (edges g)" using dual_onD(2,5) [OF d] a uR by blast
  note range = candidate_range [OF m d inv k a]
  have step: "relax_step g u (dist ! u) (dist, prev, queue) (k, edge_at g u k) =
    (if ?c < dist ! ?x then Ok (dist[?x := ?c], prev[?x := Some (u, k)], insort (?c, ?x) queue) else Ok (dist, prev, queue))"
    using x i(1,2) range(3) by (simp add: relax_step_def reduced_cost_ok [OF m d a uR] chk_i64_def)
  show ?thesis
  proof (cases "?c < dist ! ?x")
    case False
    then show ?thesis using step inv by auto
  next
    case True
    let ?d = "dist[?x := ?c]" and ?p = "prev[?x := Some (u, k)]"
    have xl: "?x < length dist" "?x < length prev" using x i(1,2) by simp_all
    have xu: "?x \<noteq> u" using wiredD(2) [OF w] a by (simp add: arc_def)
    have xs: "?x \<noteq> ?s" using True range(1) i(3) by auto
    have le: "?d ! z \<le> dist ! z" for z using True by (cases "z = ?x"; cases "z < length dist") (auto simp: list_update_beyond)
    have other: "z \<noteq> ?x \<Longrightarrow> ?d ! z = dist ! z" for z by simp
    have new: "?d ! ?x = ?c" using xl by simp
    have known': "known g ?d y \<Longrightarrow> y = ?x \<or> known g dist y" for y using other by metis
    have keep: "known g dist y \<Longrightarrow> known g ?d y" for y
      using le [of y] i(7) [of y] by auto
    \<comment> \<open>no node as close as \<open>u\<close> is traced through \<open>?x\<close>\<close>
    have off: "traced ?p ?s n y" if "traced prev ?s n y" "known g dist y" "dist ! y < dist ! ?x" for n y
    proof (rule traced_keep [of prev ?s n y "\<lambda>y. known g dist y \<and> dist ! y < dist ! ?x"])
      fix z v j assume z: "known g dist z \<and> dist ! z < dist ! ?x" "z < length prev" "prev ! z = Some (v, j)"
      then have zj: "arc g v j" "known g dist v" "dist ! v + rc g v j \<le> dist ! z" using i(10) [of z v j] i(2) by auto
      have "0 \<le> rc g v j" by (rule rc_dual(2) [OF d zj(1) known_in [OF d inv zj(2)]])
      then show "known g dist v \<and> dist ! v < dist ! ?x" using zj(2,3) z(1) by auto
    qed (use that in auto)
    obtain nu where nu: "traced prev ?s nu u" using i(8) [OF k] by blast
    have "dist ! u < dist ! ?x" using True rc_dual(2) [OF d a uR] by simp
    then have "traced ?p ?s nu u" using off [OF nu k] by simp
    then have tx: "traced ?p ?s (Suc nu) ?x" using xl(2) by auto
    have traced': "\<exists>n. traced ?p ?s n y" if ky: "known g ?d y" for y
    proof (cases "y = ?x")
      case False
      then obtain n where "traced prev ?s n y" using known' [OF ky] i(8) by blast
      then show ?thesis by (rule traced_redirect [OF _ tx]) simp_all
    qed (use tx in blast)
    have inv': "search_inv g X ?d ?p (insort (?c, ?x) queue)"
      unfolding search_inv_def
    proof (intro conjI allI impI)
      show "length ?d = length (edges g)" "length ?p = length (edges g)" "?d ! ?s = 0" "?p ! ?s = None"
        using i(1-4) xs by simp_all
    next
      fix y assume y: "known g ?d y"
      show "labelled g ?d y"
      proof (cases "y = ?x")
        case True
        then show ?thesis using labelled_extend [OF d inv k a w \<open>?c < dist ! ?x\<close>] by simp
      next
        case False
        then have "labelled g dist y" using known' [OF y] i(5) by blast
        then show ?thesis by (rule labelled_mono [OF _ False le other [OF False]])
      qed
      show "0 \<le> ?d ! y" "?d ! y < i64_max" using known' [OF y] range(1,2) new i(6,7) other [of y] by (cases "y = ?x"; simp)+
      show "\<exists>n. traced ?p ?s n y" by (rule traced' [OF y])
    next
      fix y assume y: "y < length (edges g)" "y \<noteq> ?s"
      show "(?p ! y = None) = (?d ! y = i64_max)"
        using i(9) [OF y] new range(2) xl by (cases "y = ?x") auto
    next
      fix y v j assume y: "y < length (edges g)" "?p ! y = Some (v, j)"
      show "arc g v j" "target (edge_at g v j) = y" "v < length (edges g)" "?d ! v \<noteq> i64_max" "?d ! v + rc g v j \<le> ?d ! y"
      proof -
        have *: "arc g v j \<and> target (edge_at g v j) = y \<and> known g ?d v \<and> ?d ! v + rc g v j \<le> ?d ! y"
        proof (cases "y = ?x")
          case True
          then have "v = u" "j = k" using y(2) xl(2) by auto
          then show ?thesis using a True keep [OF k] new other [of u] xu by simp
        next
          case False
          then have "prev ! y = Some (v, j)" using y(2) by simp
          from i(10) [OF y(1) this] have "arc g v j" "target (edge_at g v j) = y" "known g dist v" "dist ! v + rc g v j \<le> dist ! y" by auto
          then show ?thesis using keep [of v] le [of v] other [OF False] by auto
        qed
        then show "arc g v j" "target (edge_at g v j) = y" "v < length (edges g)" "?d ! v \<noteq> i64_max" "?d ! v + rc g v j \<le> ?d ! y" by auto
      qed
    next
      show "\<forall>(c, y) \<in> set (insort (?c, ?x) queue). y < length (edges g) \<and> c < i64_max"
        using i(11) x range(2) by (auto simp: set_insort_key)
    next
      fix y assume y: "known g ?d y"
      show "y \<in> X \<or> (?d ! y, y) \<in> set (insort (?c, ?x) queue) \<or> settled g ?d y"
      proof (cases "y = ?x")
        case False
        then have "y \<in> X \<or> (dist ! y, y) \<in> set queue \<or> settled g dist y" using known' [OF y] i(12) by blast
        moreover have "settled g ?d y" if sy: "settled g dist y"
          unfolding settled_def other [OF False]
        proof (intro allI impI)
          fix j assume "arc g y j"
          then have "dist ! target (edge_at g y j) \<le> dist ! y + rc g y j" using sy by (simp add: settled_def)
          with le [of "target (edge_at g y j)"] show "?d ! target (edge_at g y j) \<le> dist ! y + rc g y j" by (rule order_trans)
        qed
        ultimately show ?thesis using other [OF False] by (auto simp: set_insort_key)
      qed (simp add: new set_insort_key)
    qed
    moreover have "relax_step g u (dist ! u) (dist, prev, queue) (k, edge_at g u k) = Ok (?d, ?p, insort (?c, ?x) queue)"
      unfolding step using True by (simp only: if_True)
    moreover have "?d ! u = dist ! u" by (rule other [OF xu [symmetric]])
    moreover have "?d ! ?x \<le> ?c" using new by (simp only: order.refl)
    ultimately show ?thesis using le by blast
  qed
qed

lemma relax_neighbors_correct:
  assumes m: "magnitudes C g" and d: "dual_on g R \<phi>" and w: "wired g"
    and inv: "search_inv g {u} dist prev queue" and k: "known g dist u"
  shows "\<exists>dist' prev' queue'. relax_neighbors g u (dist ! u) (dist, prev, queue) = Ok (dist', prev', queue') \<and>
    search_inv g {} dist' prev' queue'"
proof -
  let ?c = "dist ! u"
  define xs where "xs = filter (\<lambda>(_, e). available e) (enumerate 0 (edges g ! u))"
  let ?P = "\<lambda>i (dist', prev', queue'). search_inv g {u} dist' prev' queue' \<and> dist' ! u = ?c \<and>
    (\<forall>j < i. dist' ! target (snd (xs ! j)) \<le> ?c + rc g u (fst (xs ! j)))"
  have arcs: "arc g u (fst (xs ! i)) \<and> xs ! i = (fst (xs ! i), edge_at g u (fst (xs ! i)))" if "i < length xs" for i
  proof -
    have "xs ! i \<in> set xs" using that by simp
    then show ?thesis using k by (auto simp: xs_def in_set_enumerate_eq arc_def has_edge_def)
  qed
  have "\<exists>s'. foldQ (relax_step g u ?c) (dist, prev, queue) xs = Ok s' \<and> ?P (length xs) s'"
  proof (rule foldQ_steps [where P = ?P])
    show "?P 0 (dist, prev, queue)" using inv by simp
  next
    fix i s assume i: "i < length xs" and P: "?P i s"
    obtain dist1 prev1 queue1 where s: "s = (dist1, prev1, queue1)" by (cases s)
    have s1: "search_inv g {u} dist1 prev1 queue1" "dist1 ! u = ?c"
      "\<And>j. j < i \<Longrightarrow> dist1 ! target (snd (xs ! j)) \<le> ?c + rc g u (fst (xs ! j))" using P s by auto
    obtain j where j: "arc g u j" "xs ! i = (j, edge_at g u j)" using arcs [OF i] by blast
    have "known g dist1 u" using k s1(2) by simp
    from relax_step_correct [OF m d w s1(1) this j(1)] obtain dist2 prev2 queue2 where
      r: "relax_step g u (dist1 ! u) (dist1, prev1, queue1) (j, edge_at g u j) = Ok (dist2, prev2, queue2)"
        "search_inv g {u} dist2 prev2 queue2" "dist2 ! u = dist1 ! u" "\<forall>z. dist2 ! z \<le> dist1 ! z"
        "dist2 ! target (edge_at g u j) \<le> dist1 ! u + rc g u j" by auto
    have "dist2 ! target (snd (xs ! j')) \<le> ?c + rc g u (fst (xs ! j'))" if "j' < Suc i" for j'
    proof (cases "j' = i")
      case True
      then show ?thesis using r(5) s1(2) j(2) by simp
    next
      case False
      then show ?thesis using s1(3) [of j'] r(4) that by (metis less_Suc_eq order_trans)
    qed
    then have "?P (Suc i) (dist2, prev2, queue2)" using r(2,3) s1(2) by simp
    moreover have "relax_step g u ?c s (xs ! i) = Ok (dist2, prev2, queue2)" using r(1) s1(2) s j(2) by simp
    ultimately show "\<exists>s'. relax_step g u ?c s (xs ! i) = Ok s' \<and> ?P (Suc i) s'" by blast
  qed
  then obtain dist' prev' queue' where f: "foldQ (relax_step g u ?c) (dist, prev, queue) xs = Ok (dist', prev', queue')"
    "search_inv g {u} dist' prev' queue'" "dist' ! u = ?c"
    "\<And>j. j < length xs \<Longrightarrow> dist' ! target (snd (xs ! j)) \<le> ?c + rc g u (fst (xs ! j))" by auto
  have "settled g dist' u"
    unfolding settled_def
  proof (intro allI impI)
    fix j assume j: "arc g u j"
    then have "(j, edge_at g u j) \<in> set xs" by (auto simp: xs_def in_set_enumerate_eq arc_def has_edge_def)
    then obtain i where "i < length xs" "xs ! i = (j, edge_at g u j)" by (auto simp: in_set_conv_nth)
    then show "dist' ! target (edge_at g u j) \<le> dist' ! u + rc g u j" using f(3,4) by fastforce
  qed
  then have "search_inv g {} dist' prev' queue'" using f(2) unfolding search_inv_def by blast
  moreover have "relax_neighbors g u ?c (dist, prev, queue) = Ok (dist', prev', queue')"
    using f(1) k by (simp add: relax_neighbors_def xs_def)
  ultimately show ?thesis by blast
qed

lemma cheapest_search_correct:
  assumes "magnitudes C g" "dual_on g R \<phi>" "wired g" "search_inv g {} dist prev queue"
  shows "\<exists>dist' prev'. cheapest_search g dist prev queue = Ok (dist', prev') \<and> search_inv g {} dist' prev' []"
  using assms
proof (induction g dist prev queue rule: cheapest_search.induct)
  case (1 g dist prev)
  then show ?case by auto
next
  case (2 g dist prev c u queue)
  note inv = 2(6)
  have u: "u < length (edges g)" "c < i64_max" using search_invD(11) [OF inv, of c u] by simp_all
  then have du: "idx dist u = Some (dist ! u)" using search_invD(1) [OF inv] by simp
  show ?case
  proof (cases "c = dist ! u")
    case False
    then have "search_inv g {} dist prev queue" using inv unfolding search_inv_def by auto
    from 2(1) [OF du False 2(3-5) this] show ?thesis using du False by simp
  next
    case True
    then have k: "known g dist u" using u by auto
    have "search_inv g {u} dist prev queue" using inv True unfolding search_inv_def by auto
    from relax_neighbors_correct [OF 2(3-5) this k] obtain dist1 prev1 queue1 where
      r: "relax_neighbors g u c (dist, prev, queue) = Ok (dist1, prev1, queue1)" "search_inv g {} dist1 prev1 queue1" using True by auto
    have nc: "\<not> c \<noteq> dist ! u" using True by simp
    from 2(2) [OF du nc r(1) refl refl 2(3-5) r(2)] show ?thesis
      using du nc r(1) by simp
  qed
qed

section \<open>Augmenting along the found path\<close>

lemma traced_unique: "traced prev s m x \<Longrightarrow> traced prev s n x \<Longrightarrow> prev ! s = None \<Longrightarrow> m = n"
proof (induction m arbitrary: n x)
  case 0
  then show ?case by (cases n) auto
next
  case (Suc m)
  obtain u k where u: "prev ! x = Some (u, k)" "traced prev s m u" using Suc.prems(1) by auto
  then obtain n' where n: "n = Suc n'" "traced prev s n' u" using Suc.prems(2,3) by (cases n) auto
  then show ?case using Suc.IH [OF u(2) n(2) Suc.prems(3)] by simp
qed

definition balance :: "Assignment \<Rightarrow> nat \<Rightarrow> nat \<Rightarrow> Assignment \<Rightarrow> bool" where
  "balance g a b h \<longleftrightarrow> (\<forall>x < length (edges g).
     int (usable h x) = int (usable g x) - (if x = a then 1 else 0) + (if x = b then 1 else 0))"

definition tree_ok :: "Assignment \<Rightarrow> nat set \<Rightarrow> (nat \<times> nat) option list \<Rightarrow> nat \<Rightarrow> bool" where
  "tree_ok h K prev n \<longleftrightarrow> (\<forall>y m u k. traced prev (source h) m y \<longrightarrow> m \<le> n \<longrightarrow> y < length prev \<longrightarrow> prev ! y = Some (u, k) \<longrightarrow>
     arc h u k \<and> target (edge_at h u k) = y \<and> rc h u k = 0 \<and> u \<in> K)"

lemma backtrack_correct:
  assumes "wired h" "magnitudes C h" "dual_on h K \<psi>" "tree_ok h K prev n" "traced prev (source h) n x"
    and "prev ! source h = None"
  shows "\<exists>h'. backtrack prev x h = Ok h' \<and> wired h' \<and> magnitudes C h' \<and> dual_on h' K \<psi> \<and> same_shape h h' \<and> balance h (source h) x h'"
  using assms
proof (induction n arbitrary: h x)
  case 0
  then have "backtrack prev x h = Ok h" by (subst backtrack.simps) simp
  then show ?case using 0 by (auto simp: balance_def)
next
  case (Suc n)
  obtain u k where u: "x < length prev" "prev ! x = Some (u, k)" "traced prev (source h) n u" using Suc.prems(5) by auto
  have xs: "x \<noteq> source h" using u(2) Suc.prems(6) by auto
  have e: "arc h u k" "target (edge_at h u k) = x" "rc h u k = 0" "u \<in> K"
    using Suc.prems(4,5) u unfolding tree_ok_def by blast+
  from tight_flip [OF Suc.prems(1-3) e(1,4,3)] obtain h1 where
    h1: "reverse_edge u k h = Some h1" "flipped h u k h1" "magnitudes C h1" "dual_on h1 K \<psi>" by blast
  note f = flippedD [OF h1(2)]
  note s = same_shapeD [OF f(1)]
  have run: "backtrack prev x h = backtrack prev u h1"
    by (subst backtrack.simps) (use xs u h1(1) in simp)
  have "tree_ok h1 K prev n"
    unfolding tree_ok_def
  proof (intro allI impI)
    fix y m v j assume y: "traced prev (source h1) m y" "m \<le> n" "y < length prev" "prev ! y = Some (v, j)"
    then have "traced prev (source h) m y" using s(2) by simp
    then have ey: "arc h v j" "target (edge_at h v j) = y" "rc h v j = 0" "v \<in> K"
      using Suc.prems(4) y(2-4) unfolding tree_ok_def by (meson le_SucI)+
    have "y \<noteq> x"
    proof
      assume "y = x"
      then have "m = Suc n" using traced_unique [OF _ Suc.prems(5,6)] \<open>traced prev (source h) m y\<close> by blast
      then show False using y(2) by simp
    qed
    then have "arc h1 v j" using flipped_arc [OF h1(2)] ey(1,2) e(2) by (auto simp: arc_def)
    moreover have "has_edge h v j" using ey(1) by (simp add: arc_def)
    ultimately show "arc h1 v j \<and> target (edge_at h1 v j) = y \<and> rc h1 v j = 0 \<and> v \<in> K"
      using s(5,7) f(3) ey(2-4) by (simp add: rc_def)
  qed
  moreover have "traced prev (source h1) n u" "prev ! source h1 = None" using u(3) Suc.prems(6) s(2) by simp_all
  ultimately obtain h' where h': "backtrack prev u h1 = Ok h'" "wired h'" "magnitudes C h'" "dual_on h' K \<psi>" "same_shape h1 h'"
    "balance h1 (source h1) u h'" using Suc.IH [OF f(2) h1(3,4)] by blast
  have "balance h (source h) x h'"
    unfolding balance_def
  proof (intro allI impI)
    fix z assume z: "z < length (edges h)"
    have "int (usable h1 z) = int (usable h z) - (if z = u then 1 else 0) + (if z = x then 1 else 0)" using f(5) [OF z] e(2) by simp
    moreover have "int (usable h' z) = int (usable h1 z) - (if z = source h then 1 else 0) + (if z = u then 1 else 0)"
      using h'(6) z s(1,2) unfolding balance_def by simp
    ultimately show "int (usable h' z) = int (usable h z) - (if z = source h then 1 else 0) + (if z = x then 1 else 0)" by linarith
  qed
  then show ?case using run h'(1-4) same_shape_trans [OF f(1) h'(5)] by auto
qed

lemma raise_potentials_ok:
  assumes "length ps = length ds" "\<And>i. i < length ps \<Longrightarrow> ds ! i \<noteq> i64_max \<Longrightarrow> in_i64 (ps ! i + ds ! i)"
  shows "\<exists>qs. raise_potentials ps ds = Ok qs \<and> length qs = length ps \<and>
    (\<forall>i < length ps. qs ! i = (if ds ! i = i64_max then ps ! i else ps ! i + ds ! i))"
  using assms
proof (induction ps ds rule: list_induct2)
  case (Cons p ps d ds)
  have "\<And>i. i < length ps \<Longrightarrow> ds ! i \<noteq> i64_max \<Longrightarrow> in_i64 (ps ! i + ds ! i)" using Cons.prems [of "Suc _"] by simp
  from Cons.IH [OF this] obtain qs where qs: "raise_potentials ps ds = Ok qs" "length qs = length ps"
    "\<forall>i < length ps. qs ! i = (if ds ! i = i64_max then ps ! i else ps ! i + ds ! i)" by blast
  let ?q = "if d = i64_max then p else p + d"
  have "raise_potentials (p # ps) (d # ds) = Ok (?q # qs)"
    using Cons.prems [of 0] qs(1) by (auto simp: chk_i64_def)
  then show ?case using qs(2,3) by (auto simp: less_Suc_eq_0_disj)
qed simp

text \<open>The distances at the end of a search raise the potentials to ones under which the path is free.\<close>

lemma search_end_known:
  assumes m: "magnitudes C g" and d: "dual_on g R \<phi>" and inv: "search_inv g {} dist prev []"
    and u: "known g dist u" and a: "arc g u k"
  shows "known g dist (target (edge_at g u k))" "dist ! target (edge_at g u k) \<le> dist ! u + rc g u k"
proof -
  have "settled g dist u" using search_invD(12) [OF inv u] by simp
  then show le: "dist ! target (edge_at g u k) \<le> dist ! u + rc g u k" using a by (simp add: settled_def)
  have "target (edge_at g u k) < length (edges g)"
    using dual_onD(2,5) [OF d] a known_in [OF d inv u] by blast
  then show "known g dist (target (edge_at g u k))" using le candidate_range(2) [OF m d inv u a] by simp
qed

lemma raised_potentials:
  assumes m: "magnitudes C g" and d: "dual_on g R \<phi>" and inv: "search_inv g {} dist prev []"
  defines "K \<equiv> {u. known g dist u}"
  shows "\<exists>qs. raise_potentials (potentials g) dist = Ok qs \<and> magnitudes C (g\<lparr>potentials := qs\<rparr>) \<and>
    dual_on (g\<lparr>potentials := qs\<rparr>) K (\<lambda>v. if v \<in> K then qs ! v else \<phi> v + i64_max) \<and>
    (\<forall>v \<in> K. qs ! v = potentials g ! v + dist ! v)"
proof -
  note i = search_invD [OF inv] and md = magnitudesD [OF m]
  let ?n = "length (edges g)"
  have sum: "0 \<le> potentials g ! v + dist ! v \<and> potentials g ! v + dist ! v \<le> C * (int ?n - 1)" if v: "known g dist v" for v
  proof -
    obtain p where p: "route g (source g) p v" "distinct (map fst p @ [v])" "dist ! v = route_cost g p - potentials g ! v"
      using i(5) [OF v] by (auto simp: labelled_def)
    have "route_cost g p \<le> C * (int ?n - 1)" using simple_route_cost [OF m p(1) _ p(2)] v by simp
    then show ?thesis using p(3) md(8) [of v] i(6) [OF v] v by simp
  qed
  have le: "C * (int ?n - 1) \<le> C * int ?n" using md(5) by (simp add: mult_left_mono)
  have "in_i64 (potentials g ! v + dist ! v)" if "v < length (potentials g)" "dist ! v \<noteq> i64_max" for v
    using sum [of v] that md(1,6) le by (simp add: in_i64_def i64_min_def)
  from raise_potentials_ok [OF _ this] md(1) i(1) obtain qs where qs: "raise_potentials (potentials g) dist = Ok qs" "length qs = ?n"
    "\<And>v. v < ?n \<Longrightarrow> qs ! v = (if dist ! v = i64_max then potentials g ! v else potentials g ! v + dist ! v)" by auto
  let ?g = "g\<lparr>potentials := qs\<rparr>"
  have K: "v \<in> K \<Longrightarrow> qs ! v = potentials g ! v + dist ! v" for v using qs(3) by (simp add: K_def)
  have KR: "v \<in> K \<Longrightarrow> v \<in> R" for v using known_in [OF d inv] by (simp add: K_def)
  have arc: "arc ?g u k = arc g u k" "has_edge ?g u k = has_edge g u k" for u k by (simp_all add: arc_def has_edge_def)
  have "0 \<le> qs ! v \<and> qs ! v \<le> C * (int ?n - 1)" if "v < ?n" for v
    using qs(3) [OF that] sum [of v] md(8) [OF that] that by (cases "dist ! v = i64_max") auto
  moreover have "qs ! source g = 0" using qs(3) [OF md(2)] i(3) md(9) by simp
  ultimately have "magnitudes C ?g"
    using m qs(2) unfolding magnitudes_def Let_def arc(2) by simp
  moreover have "dual_on ?g K (\<lambda>v. if v \<in> K then qs ! v else \<phi> v + i64_max)"
    unfolding dual_on_def arc
  proof (intro conjI allI impI ballI)
    show "source ?g \<in> K" using md(2) i(3) by (simp add: K_def i64_max_def)
    fix v assume "v \<in> K"
    then show "v < length (edges ?g)" "(if v \<in> K then qs ! v else \<phi> v + i64_max) = potentials ?g ! v" by (simp_all add: K_def)
  next
    fix u k assume a: "arc g u k"
    let ?v = "target (edge_at g u k)"
    show "u \<in> K \<Longrightarrow> target (edge_at ?g u k) \<in> K" using search_end_known(1) [OF m d inv _ a] by (simp add: K_def)
    have base: "0 \<le> cost (edge_at g u k) + \<phi> u - \<phi> ?v" using dual_onD(4) [OF d a] .
    show "0 \<le> cost (edge_at ?g u k) + (if u \<in> K then qs ! u else \<phi> u + i64_max) -
        (if target (edge_at ?g u k) \<in> K then qs ! target (edge_at ?g u k) else \<phi> (target (edge_at ?g u k)) + i64_max)"
    proof (cases "u \<in> K")
      case True
      then have u: "known g dist u" by (simp add: K_def)
      note e = search_end_known [OF m d inv u a]
      have "?v \<in> K" using e(1) by (simp add: K_def)
      then show ?thesis using True K [OF True] K [of ?v] e(2) by (simp add: rc_def)
    next
      case False
      show ?thesis
      proof (cases "?v \<in> K")
        case True
        then have "qs ! ?v = \<phi> ?v + dist ! ?v" using K KR dual_onD(3) [OF d] by simp
        moreover have "dist ! ?v < i64_max" using True i(7) by (simp add: K_def)
        ultimately show ?thesis using False True base by simp
      qed (use False base in simp)
    qed
  qed
  ultimately show ?thesis using qs(1) K by blast
qed

end
