(* ===== verification/Assignment_Optimal.thy ===== *)
theory Assignment_Optimal
  imports Assignment_Correct
begin

text \<open>
  The whole assignment: augmentations keep the flow invariant, the network built from the signature
  rows satisfies it, and at the end the usable edges spell out a matching of the
  most rows and, among those, of the largest weight.
\<close>

section \<open>Augmentation\<close>

definition flow_inv :: "int \<Rightarrow> Assignment \<Rightarrow> bool" where
  "flow_inv C g \<longleftrightarrow> wired g \<and> magnitudes C g \<and> (\<exists>R \<phi>. dual_on g R \<phi>)"

text \<open>A set of nodes that separates the source from the sink.\<close>

definition cut :: "Assignment \<Rightarrow> nat set \<Rightarrow> bool" where
  "cut g K \<longleftrightarrow> source g \<in> K \<and> sink g \<notin> K \<and> (\<forall>u k. arc g u k \<longrightarrow> u \<in> K \<longrightarrow> target (edge_at g u k) \<in> K)"

lemma search_start:
  assumes m: "magnitudes C g"
  shows "search_inv g {} ((replicate (length (edges g)) i64_max)[source g := 0]) (replicate (length (edges g)) None) [(0, source g)]"
proof -
  let ?n = "length (edges g)" and ?s = "source g"
  note md = magnitudesD [OF m]
  define d where "d = (replicate ?n i64_max)[?s := 0]"
  define prev where "prev = replicate ?n (None :: (nat \<times> nat) option)"
  have d: "length d = ?n" "d ! ?s = 0" "\<And>u. u < ?n \<Longrightarrow> u \<noteq> ?s \<Longrightarrow> d ! u = i64_max"
    using md(2) by (simp_all add: d_def)
  have p: "length prev = ?n" "\<And>u. u < ?n \<Longrightarrow> prev ! u = None" by (simp_all add: prev_def)
  have only: "u = ?s" if "known g d u" for u using that d(3) by blast
  have big: "(0 :: int) < i64_max" by (simp add: i64_max_def)
  have lab: "labelled g d ?s"
    unfolding labelled_def using md(9) d(2) by (intro exI [of _ "[]"]) simp
  have tr: "traced prev ?s 0 ?s" by simp
  have "search_inv g {} d prev [(0, ?s)]"
    unfolding search_inv_def
  proof (intro conjI allI impI)
    show "length d = ?n" "length prev = ?n" "d ! ?s = 0" "prev ! ?s = None" using d p md(2) by simp_all
    fix u assume u: "known g d u"
    show "labelled g d u" "0 \<le> d ! u" "d ! u < i64_max" "\<exists>n. traced prev ?s n u"
      unfolding only [OF u] using lab d(2) big tr by (simp, simp, simp, blast)
    show "u \<in> {} \<or> (d ! u, u) \<in> set [(0, ?s)] \<or> settled g d u" unfolding only [OF u] using d(2) by simp
  next
    fix u assume "u < ?n" "u \<noteq> ?s"
    then show "(prev ! u = None) = (d ! u = i64_max)" using d(3) p(2) by simp
  next
    fix x u k assume "x < ?n" "prev ! x = Some (u, k)"
    then have False using p(2) by simp
    then show "arc g u k" "target (edge_at g u k) = x" "u < ?n" "d ! u \<noteq> i64_max" "d ! u + rc g u k \<le> d ! x" by blast+
  next
    show "\<forall>(c, u) \<in> set [(0, ?s)]. u < ?n \<and> c < i64_max" using md(2) big by simp
  qed
  then show ?thesis by (simp add: d_def prev_def)
qed

lemma augment_cheapest_correct:
  assumes "flow_inv C g"
  shows "(\<exists>g'. augment_cheapest g = Ok (g', True) \<and> flow_inv C g' \<and> same_shape g g' \<and> balance g (source g) (sink g) g') \<or>
    (augment_cheapest g = Ok (g, False) \<and> (\<exists>K. cut g K))"
proof -
  obtain R \<phi> where w: "wired g" and m: "magnitudes C g" and d: "dual_on g R \<phi>" using assms by (auto simp: flow_inv_def)
  note md = magnitudesD [OF m]
  let ?n = "length (edges g)"
  from cheapest_search_correct [OF m d w search_start [OF m]] obtain dist prev where
    s: "cheapest_search g ((replicate ?n i64_max)[source g := 0]) (replicate ?n None) [(0, source g)] = Ok (dist, prev)"
      "search_inv g {} dist prev []" by blast
  note i = search_invD [OF s(2)]
  define K where "K = {u. known g dist u}"
  have snk: "idx prev (sink g) = Some (prev ! sink g)" using i(2) md(3) by simp
  show ?thesis
  proof (cases "prev ! sink g")
    case None
    then have "dist ! sink g = i64_max" using i(9) [OF md(3)] md(4) by simp
    then have "cut g K"
      using md(2) i(3) search_end_known(1) [OF m d s(2)] unfolding cut_def K_def by (auto simp: i64_max_def)
    moreover have "augment_cheapest g = Ok (g, False)" using s(1) snk None md(2) by (simp add: augment_cheapest_def)
    ultimately show ?thesis by blast
  next
    case (Some e)
    from raised_potentials [OF m d s(2)] obtain qs where
      q: "raise_potentials (potentials g) dist = Ok qs" "magnitudes C (g\<lparr>potentials := qs\<rparr>)"
        "dual_on (g\<lparr>potentials := qs\<rparr>) K (\<lambda>v. if v \<in> K then qs ! v else \<phi> v + i64_max)"
        "\<And>v. v \<in> K \<Longrightarrow> qs ! v = potentials g ! v + dist ! v" unfolding K_def by blast
    let ?g = "g\<lparr>potentials := qs\<rparr>"
    have arc: "arc ?g u k = arc g u k" "has_edge ?g u k = has_edge g u k" for u k by (simp_all add: arc_def has_edge_def)
    have wq: "wired ?g" using w unfolding wired_def arc(2) by simp
    have tree: "tree_ok ?g K prev n" for n
      unfolding tree_ok_def
    proof (intro allI impI)
      fix y m' u k assume y: "y < length prev" "prev ! y = Some (u, k)"
      then have yn: "y < ?n" using i(2) by simp
      have e: "arc g u k" "target (edge_at g u k) = y" "known g dist u" "dist ! u + rc g u k \<le> dist ! y"
        using i(10) [OF yn y(2)] by auto
      note f = search_end_known [OF m d s(2) e(3,1)]
      have "u \<in> K" "y \<in> K" using e(2,3) f(1) by (simp_all add: K_def)
      moreover have "rc ?g u k = 0" using q(4) [of u] q(4) [of y] calculation e(2,4) f(2) by (simp add: rc_def)
      ultimately show "arc ?g u k \<and> target (edge_at ?g u k) = y \<and> rc ?g u k = 0 \<and> u \<in> K"
        using e by (simp add: arc)
    qed
    have "dist ! sink g \<noteq> i64_max" using i(9) [OF md(3)] md(4) Some by auto
    then obtain n where "traced prev (source g) n (sink g)" using i(8) [of "sink g"] md(3) by blast
    then have tr: "traced prev (source ?g) n (sink g)" "prev ! source ?g = None" using i(4) by simp_all
    from backtrack_correct [OF wq q(2,3) tree tr] obtain g' where
      b: "backtrack prev (sink g) ?g = Ok g'" "wired g'" "magnitudes C g'"
        "\<exists>R \<phi>. dual_on g' R \<phi>" "same_shape ?g g'" "balance ?g (source ?g) (sink g) g'" by blast
    have "same_shape g g'" using b(5) unfolding same_shape_def has_edge_def by simp
    moreover have "balance g (source g) (sink g) g'" using b(6) by (simp add: balance_def usable_def)
    moreover have "augment_cheapest g = Ok (g', True)"
      using s(1) snk Some md(2) q(1) b(1) by (simp add: augment_cheapest_def)
    ultimately show ?thesis using b(2-4) by (auto simp: flow_inv_def)
  qed
qed

section \<open>The layout of the network\<close>

text \<open>
  The source has one edge to every row, a row its edge back to the source and then one edge per
  signature entry, a column edges back to rows and then its edge to the sink.
\<close>

definition layout :: "SignatureEntry list list \<Rightarrow> nat \<Rightarrow> Assignment \<Rightarrow> bool" where
  "layout rows columns g \<longleftrightarrow> (let n = length rows in
     length (edges g) = n + columns + 2 \<and> source g = n + columns \<and> sink g = n + columns + 1 \<and>
     length (edges g ! (n + columns)) = n \<and> (\<forall>i < n. target (edge_at g (n + columns) i) = i \<and> cost (edge_at g (n + columns) i) = 0) \<and>
     (\<forall>i < n. length (edges g ! i) = Suc (length (rows ! i)) \<and> target (edge_at g i 0) = n + columns) \<and>
     (\<forall>i < n. \<forall>k < length (rows ! i). column (rows ! i ! k) < columns \<and>
        target (edge_at g i (Suc k)) = n + column (rows ! i ! k) \<and>
        cost (edge_at g i (Suc k)) = int (largest_order rows - order (rows ! i ! k))) \<and>
     (\<forall>j < columns. edges g ! (n + j) \<noteq> [] \<and> target (edge_at g (n + j) (length (edges g ! (n + j)) - 1)) = n + columns + 1 \<and>
        cost (edge_at g (n + j) (length (edges g ! (n + j)) - 1)) = 0 \<and>
        (\<forall>k < length (edges g ! (n + j)) - 1. target (edge_at g (n + j) k) < n)) \<and>
     (\<forall>k < length (edges g ! (n + columns + 1)). n \<le> target (edge_at g (n + columns + 1) k) \<and> target (edge_at g (n + columns + 1) k) < n + columns))"

lemma layoutD:
  assumes "layout rows columns g"
  shows "length (edges g) = length rows + columns + 2" "source g = length rows + columns" "sink g = length rows + columns + 1"
    "length (edges g ! (length rows + columns)) = length rows"
    "i < length rows \<Longrightarrow> target (edge_at g (length rows + columns) i) = i \<and> cost (edge_at g (length rows + columns) i) = 0"
    "i < length rows \<Longrightarrow> length (edges g ! i) = Suc (length (rows ! i)) \<and> target (edge_at g i 0) = length rows + columns"
    "i < length rows \<Longrightarrow> k < length (rows ! i) \<Longrightarrow> column (rows ! i ! k) < columns \<and>
        target (edge_at g i (Suc k)) = length rows + column (rows ! i ! k) \<and>
        cost (edge_at g i (Suc k)) = int (largest_order rows - order (rows ! i ! k))"
    "j < columns \<Longrightarrow> edges g ! (length rows + j) \<noteq> [] \<and>
        target (edge_at g (length rows + j) (length (edges g ! (length rows + j)) - 1)) = length rows + columns + 1 \<and>
        cost (edge_at g (length rows + j) (length (edges g ! (length rows + j)) - 1)) = 0"
    "j < columns \<Longrightarrow> k < length (edges g ! (length rows + j)) - 1 \<Longrightarrow> target (edge_at g (length rows + j) k) < length rows"
    "k < length (edges g ! (length rows + columns + 1)) \<Longrightarrow>
       length rows \<le> target (edge_at g (length rows + columns + 1) k) \<and> target (edge_at g (length rows + columns + 1) k) < length rows + columns"
  using assms unfolding layout_def Let_def by blast+

lemma layout_same_shape:
  assumes L: "layout rows columns g" and s: "same_shape g h"
  shows "layout rows columns h"
proof -
  note l = layoutD [OF L] and sd = same_shapeD [OF s]
  let ?n = "length rows"
  have len: "length (edges h ! u) = length (edges g ! u)" if "u < ?n + columns + 2" for u using sd(4) that l(1) by simp
  have at: "target (edge_at h u k) = target (edge_at g u k)" "cost (edge_at h u k) = cost (edge_at g u k)"
    if "u < ?n + columns + 2" "k < length (edges g ! u)" for u k
    using sd(5,7) [of u k] that l(1) by (simp_all add: has_edge_def)
  have last: "length (edges g ! (?n + j)) - 1 < length (edges g ! (?n + j))" if "j < columns" for j
    using l(8) [OF that] by (simp add: Suc_le_eq)
  show ?thesis
    unfolding layout_def Let_def
  proof (intro conjI allI impI)
    show "length (edges h) = ?n + columns + 2" "source h = ?n + columns" "sink h = ?n + columns + 1" using sd(1-3) l(1-3) by simp_all
    show "length (edges h ! (?n + columns)) = ?n" using len l(4) by simp
    show "target (edge_at h (?n + columns) i) = i" "cost (edge_at h (?n + columns) i) = 0" if "i < ?n" for i
      using at [of "?n + columns" i] l(4) l(5) [OF that] that by simp_all
    show "length (edges h ! i) = Suc (length (rows ! i))" "target (edge_at h i 0) = ?n + columns" if "i < ?n" for i
      using len [of i] at [of i 0] l(6) [OF that] that by simp_all
    show "column (rows ! i ! k) < columns" "target (edge_at h i (Suc k)) = ?n + column (rows ! i ! k)"
      "cost (edge_at h i (Suc k)) = int (largest_order rows - order (rows ! i ! k))" if "i < ?n" "k < length (rows ! i)" for i k
      using at [of i "Suc k"] l(6) [OF that(1)] l(7) [OF that] that by simp_all
    show "target (edge_at h (?n + j) k) < ?n" if "j < columns" "k < length (edges h ! (?n + j)) - 1" for j k
      using at [of "?n + j" k] len [of "?n + j"] l(9) [OF that(1), of k] that by simp
    show "edges h ! (?n + j) \<noteq> []" if "j < columns" for j
      using len [of "?n + j"] l(8) [OF that] that by (metis add_less_mono1 length_0_conv nat_add_left_cancel_less trans_less_add1)
    show "target (edge_at h (?n + j) (length (edges h ! (?n + j)) - 1)) = ?n + columns + 1"
      "cost (edge_at h (?n + j) (length (edges h ! (?n + j)) - 1)) = 0" if "j < columns" for j
      using at [OF _ last [OF that]] len [of "?n + j"] l(8) [OF that] that by simp_all
    show "?n \<le> target (edge_at h (?n + columns + 1) k)" "target (edge_at h (?n + columns + 1) k) < ?n + columns"
      if "k < length (edges h ! (?n + columns + 1))" for k
      using at [of "?n + columns + 1" k] len [of "?n + columns + 1"] l(10) [of k] that by simp_all
  qed
qed

text \<open>What \<open>k\<close> augmentations do to the numbers of usable edges.\<close>

definition shifted :: "nat \<Rightarrow> Assignment \<Rightarrow> Assignment \<Rightarrow> bool" where
  "shifted k g h \<longleftrightarrow> same_shape g h \<and> (\<forall>x < length (edges g).
     int (usable h x) = int (usable g x) - (if x = source g then int k else 0) + (if x = sink g then int k else 0))"

lemma shifted_refl [simp]: "shifted 0 g g" by (simp add: shifted_def)

lemma shifted_trans: "shifted k g h \<Longrightarrow> shifted l h i \<Longrightarrow> shifted (k + l) g i"
  unfolding shifted_def using same_shape_trans [of g h i] same_shapeD(1-3) [of g h] by auto

lemma shifted_balance: "same_shape g h \<Longrightarrow> balance g (source g) (sink g) h \<Longrightarrow> shifted 1 g h"
  by (simp add: shifted_def balance_def)

section \<open>Direct augmentation\<close>

definition direct_ok :: "Assignment \<Rightarrow> nat \<Rightarrow> nat \<times> nat \<Rightarrow> bool" where
  "direct_ok g row = (\<lambda>(i, ce). let col = target (edge_at g row i) in
     arc g row i \<and> col \<noteq> source g \<and> rc g row i = 0 \<and> ce = length (edges g ! col) - 1 \<and> arc g col ce \<and> rc g col ce = 0)"

lemma direct_loop_correct:
  assumes w: "wired g" and m: "magnitudes C g" and d: "dual_on g R \<phi>" and row: "row \<in> R"
    and xs: "\<And>i e. (i, e) \<in> set xs \<Longrightarrow> has_edge g row i \<and> e = edge_at g row i"
  shows "\<exists>r. direct_loop g row xs = Ok r \<and> (\<forall>c. r = Some c \<longrightarrow> direct_ok g row c)"
  using xs
proof (induction xs)
  case (Cons x xs)
  obtain i e where x: "x = (i, e)" by (cases x)
  have e: "has_edge g row i" "e = edge_at g row i" using Cons.prems [of i e] x by auto
  have IH: "\<exists>r. direct_loop g row xs = Ok r \<and> (\<forall>c. r = Some c \<longrightarrow> direct_ok g row c)"
    using Cons.IH Cons.prems by (meson list.set_intros(2))
  show ?case
  proof (cases "available e \<and> target e \<noteq> source g")
    case False
    then show ?thesis using IH x by auto
  next
    case True
    let ?c = "target e"
    have a: "arc g row i" using True e by (simp add: arc_def)
    have rd: "reduced_cost g row e = Ok (rc g row i)" using reduced_cost_ok [OF m d a row] e(2) by simp
    have cR: "?c \<in> R" using dual_onD(5) [OF d a row] e(2) by simp
    have "has_edge g ?c (reverse e)" using wiredD(1) [OF w e(1)] e(2) by simp
    then have c: "?c < length (edges g)" "length (edges g ! ?c) - 1 < length (edges g ! ?c)" by (auto simp: has_edge_def)
    let ?l = "length (edges g ! ?c) - 1"
    show ?thesis
    proof (cases "rc g row i = 0 \<and> available (edge_at g ?c ?l)")
      case False
      then show ?thesis using IH x True rd c by auto
    next
      case ra: True
      then have t: "arc g ?c ?l" using c by (simp add: arc_def has_edge_def)
      note rt = reduced_cost_ok [OF m d t cR]
      show ?thesis
      proof (cases "rc g ?c ?l = 0")
        case False
        then show ?thesis using IH x True rd c ra rt by auto
      next
        case rt0: True
        then have "direct_loop g row (x # xs) = Ok (Some (i, ?l))" using x True rd c ra rt by simp
        moreover have "direct_ok g row (i, ?l)" using a True ra t rt0 e(2) by (simp add: direct_ok_def Let_def)
        ultimately show ?thesis by blast
      qed
    qed
  qed
qed simp

lemma rc_shape:
  assumes "same_shape g h" "potentials h = potentials g" "has_edge g u k"
  shows "rc h u k = rc g u k"
  using same_shapeD(5,7) [OF assms(1,3)] assms(2) by (simp add: rc_def)

lemma direct_step_correct:
  assumes inv: "flow_inv C g" and L: "layout rows columns g" and k: "k < length rows"
  shows "\<exists>g' l. direct_step (g, c) k = Ok (g', c + l) \<and> flow_inv C g' \<and> shifted l g g'"
proof -
  obtain R \<phi> where w: "wired g" and m: "magnitudes C g" and d: "dual_on g R \<phi>" using inv by (auto simp: flow_inv_def)
  note l = layoutD [OF L] and md = magnitudesD [OF m]
  let ?s = "source g" and ?e = "edge_at g (source g) k"
  have he: "has_edge g ?s k" using l(1,2,4) k by (simp add: has_edge_def)
  have start: "Option.bind (idx (edges g) ?s) (\<lambda>es. idx es k) = Some ?e" using he by (simp add: has_edge_def)
  show ?thesis
  proof (cases "available ?e")
    case False
    then have "direct_step (g, c) k = Ok (g, c + 0)" using start by (simp add: direct_step_def)
    then show ?thesis using inv shifted_refl by blast
  next
    case True
    then have a: "arc g ?s k" using he by (simp add: arc_def)
    have sR: "?s \<in> R" by (rule dual_onD(1) [OF d])
    note rd = reduced_cost_ok [OF m d a sR]
    let ?row = "target ?e"
    have row: "?row = k" using l(2) l(5) [OF k] by simp
    have rowR: "?row \<in> R" by (rule dual_onD(5) [OF d a sR])
    have "\<exists>r. direct_loop g ?row (enumerate 0 (edges g ! ?row)) = Ok r \<and> (\<forall>c. r = Some c \<longrightarrow> direct_ok g ?row c)"
      by (rule direct_loop_correct [OF w m d rowR])
        (use row k l(1) in \<open>auto simp: in_set_enumerate_eq has_edge_def\<close>)
    then obtain r where r: "direct_column g ?row = Ok r" "\<And>c. r = Some c \<Longrightarrow> direct_ok g ?row c"
      using row k l(1) by (auto simp: direct_column_def)
    show ?thesis
    proof (cases "rc g ?s k = 0 \<and> r \<noteq> None")
      case False
      then have "direct_step (g, c) k = Ok (g, c + 0)" using start True rd r(1) by (cases r) (auto simp: direct_step_def)
      then show ?thesis using inv shifted_refl by blast
    next
      case found: True
      then obtain i ce where rs: "r = Some (i, ce)" by auto
      let ?col = "target (edge_at g ?row i)"
      have ok: "arc g ?row i" "?col \<noteq> ?s" "rc g ?row i = 0" "ce = length (edges g ! ?col) - 1" "arc g ?col ce" "rc g ?col ce = 0"
        using r(2) [OF rs] unfolding direct_ok_def Let_def prod.case by blast+
      have hr: "has_edge g ?row i" and hc: "has_edge g ?col ce" using ok(1,5) by (simp_all add: arc_def)
      have rs': "?row \<noteq> ?s" using wiredD(2) [OF w he] .
      have cr: "?col \<noteq> ?row" using wiredD(2) [OF w hr] .
      have colR: "?col \<in> R" by (rule dual_onD(5) [OF d ok(1) rowR])
      have sink: "target (edge_at g ?col ce) = sink g"
      proof (cases i)
        case 0
        then show ?thesis using ok(2) l(2) l(6) [of ?row] row k by simp
      next
        case (Suc i')
        then have "i' < length (rows ! k)" using hr row l(6) [OF k] by (simp add: has_edge_def)
        then have "?col = length rows + column (rows ! k ! i')" "column (rows ! k ! i') < columns" using l(7) [OF k, of i'] row Suc by simp_all
        then show ?thesis using l(8) [of "column (rows ! k ! i')"] ok(4) l(3) by simp
      qed
      from found have tight: "rc g ?s k = 0" by simp
      from tight_flip [OF w m d a sR tight] obtain h1 where
        h1: "reverse_edge ?s k g = Some h1" "flipped g ?s k h1" "magnitudes C h1" "dual_on h1 R \<phi>" by blast
      note f1 = flippedD [OF h1(2)]
      have a1: "arc h1 ?row i" using flipped_arc [OF h1(2)] ok(1) rs' hr by auto
      have t1: "target (edge_at h1 ?row i) = ?col" using same_shapeD(5) [OF f1(1) hr] .
      have r1: "rc h1 ?row i = 0" using rc_shape [OF f1(1,3) hr] ok(3) by simp
      from tight_flip [OF f1(2) h1(3,4) a1 rowR r1] obtain h2 where
        h2: "reverse_edge ?row i h1 = Some h2" "flipped h1 ?row i h2" "magnitudes C h2" "dual_on h2 R \<phi>" by blast
      note f2 = flippedD [OF h2(2)]
      have hc1: "has_edge h1 ?col ce" using hc same_shape_has_edge [OF f1(1)] by simp
      have "arc h1 ?col ce" using flipped_arc [OF h1(2)] ok(2,5) hc by auto
      then have a2: "arc h2 ?col ce" using flipped_arc [OF h2(2)] cr hc1 by auto
      have s2: "same_shape g h2" by (rule same_shape_trans [OF f1(1) f2(1)])
      have r2: "rc h2 ?col ce = 0" using rc_shape [OF s2 _ hc] f1(3) f2(3) ok(6) by simp
      from tight_flip [OF f2(2) h2(3,4) a2 colR r2] obtain h3 where
        h3: "reverse_edge ?col ce h2 = Some h3" "flipped h2 ?col ce h3" "magnitudes C h3" "dual_on h3 R \<phi>" by blast
      note f3 = flippedD [OF h3(2)]
      have t2: "target (edge_at h2 ?col ce) = sink g" using same_shapeD(5) [OF s2 hc] sink by simp
      have s3: "same_shape g h3" by (rule same_shape_trans [OF s2 f3(1)])
      have "shifted 1 g h3"
        unfolding shifted_def
      proof (intro conjI s3 allI impI)
        fix x assume x: "x < length (edges g)"
        then have x1: "x < length (edges h1)" "x < length (edges h2)" using same_shapeD(1) [OF f1(1)] same_shapeD(1) [OF s2] by simp_all
        show "int (usable h3 x) = int (usable g x) - (if x = ?s then int 1 else 0) + (if x = sink g then int 1 else 0)"
          using f1(5) [OF x] f2(5) [OF x1(1)] f3(5) [OF x1(2)] unfolding t1 t2 by simp
      qed
      moreover have "reverse_direct k ?row (i, ce) g = Some h3"
        using hr h1(1) h2(1) h3(1) by (simp add: reverse_direct_def has_edge_def)
      then have "direct_step (g, c) k = Ok (h3, c + 1)" using start True rd r(1) rs found by (simp add: direct_step_def)
      moreover have "flow_inv C h3" using f3(2) h3(3,4) by (auto simp: flow_inv_def)
      ultimately show ?thesis by blast
    qed
  qed
qed

lemma shifted_layout: "layout rows columns g \<Longrightarrow> shifted k g h \<Longrightarrow> layout rows columns h"
  unfolding shifted_def using layout_same_shape by blast

lemma augment_direct_correct:
  assumes inv: "flow_inv C g" and L: "layout rows columns g"
  shows "\<exists>g' l. augment_direct g = Ok (g', l) \<and> flow_inv C g' \<and> shifted l g g'"
proof -
  note l = layoutD [OF L]
  let ?P = "\<lambda>i (h, c). flow_inv C h \<and> shifted c g h"
  have "\<exists>s. foldQ direct_step (g, 0) [0..<length rows] = Ok s \<and> ?P (length [0..<length rows]) s"
  proof (rule foldQ_steps [where P = ?P])
    show "?P 0 (g, 0)" using inv by simp
  next
    fix i s assume i: "i < length [0..<length rows]" and P: "?P i s"
    obtain h c where s: "s = (h, c)" by (cases s)
    have h: "flow_inv C h" "shifted c g h" using P s by auto
    from direct_step_correct [OF h(1) shifted_layout [OF L h(2)], of i c] i obtain h' k where
      "direct_step (h, c) i = Ok (h', c + k)" "flow_inv C h'" "shifted k h h'" by auto
    then have "direct_step s ([0..<length rows] ! i) = Ok (h', c + k)" "?P (Suc i) (h', c + k)"
      using shifted_trans [OF h(2)] s i by simp_all
    then show "\<exists>s'. direct_step s ([0..<length rows] ! i) = Ok s' \<and> ?P (Suc i) s'" by blast
  qed
  moreover have "augment_direct g = foldQ direct_step (g, 0) [0..<length rows]"
    using l(1,2,4) by (simp add: augment_direct_def)
  ultimately show ?thesis by auto
qed

lemma match_loop_correct:
  assumes "flow_inv C g" and "layout rows columns g" and "shifted matched g0 g"
  shows "\<exists>h M. match_loop limit g matched = Ok h \<and> flow_inv C h \<and> shifted M g0 h \<and> (limit \<le> M \<or> (\<exists>K. cut h K))"
  using assms
proof (induction "limit - matched" arbitrary: g matched rule: less_induct)
  case less
  show ?case
  proof (cases "matched < limit")
    case False
    then show ?thesis using less.prems by (intro exI [of _ g] exI [of _ matched]) simp
  next
    case True
    from augment_direct_correct [OF less.prems(1,2)] obtain g1 l where
      g1: "augment_direct g = Ok (g1, l)" "flow_inv C g1" "shifted l g g1" by blast
    have s1: "shifted (matched + l) g0 g1" by (rule shifted_trans [OF less.prems(3) g1(3)])
    have L1: "layout rows columns g1" by (rule shifted_layout [OF less.prems(2) g1(3)])
    show ?thesis
    proof (cases "matched + l = limit")
      case full: True
      then have "match_loop limit g matched = Ok g1" using True g1(1) by (simp add: Let_def)
      then show ?thesis using g1(2) s1 full by blast
    next
      case more: False
      from augment_cheapest_correct [OF g1(2)] show ?thesis
      proof
        assume "\<exists>g'. augment_cheapest g1 = Ok (g', True) \<and> flow_inv C g' \<and> same_shape g1 g' \<and> balance g1 (source g1) (sink g1) g'"
        then obtain g2 where g2: "augment_cheapest g1 = Ok (g2, True)" "flow_inv C g2" "shifted 1 g1 g2"
          using shifted_balance by blast
        have s2: "shifted (Suc (matched + l)) g0 g2" using shifted_trans [OF s1 g2(3)] by simp
        have "limit - Suc (matched + l) < limit - matched" using True by simp
        from less.hyps [OF this g2(2) shifted_layout [OF L1 g2(3)] s2]
        obtain h M where "match_loop limit g2 (Suc (matched + l)) = Ok h" "flow_inv C h" "shifted M g0 h"
          "limit \<le> M \<or> (\<exists>K. cut h K)" by blast
        moreover have "match_loop limit g matched = match_loop limit g2 (Suc (matched + l))"
          by (subst match_loop.simps) (use True g1(1) more g2(1) in \<open>simp add: Let_def del: match_loop.simps\<close>)
        ultimately show ?thesis by auto
      next
        assume a: "augment_cheapest g1 = Ok (g1, False) \<and> (\<exists>K. cut g1 K)"
        then have "match_loop limit g matched = Ok g1" using True g1(1) more by (simp add: Let_def)
        then show ?thesis using g1(2) s1 a by blast
      qed
    qed
  qed
qed

section \<open>Building the network\<close>

definition info :: "Assignment \<Rightarrow> nat \<Rightarrow> (nat \<times> int \<times> bool) list" where
  "info g x = map (\<lambda>e. (target e, cost e, available e)) (edges g ! x)"

lemma add_edge_wired:
  assumes w: "wired g" and th: "tail < length (edges g)" "head < length (edges g)" "tail \<noteq> head"
  shows "\<exists>h. add_edge tail head c g = Some h \<and> wired h \<and> length (edges h) = length (edges g) \<and>
    potentials h = potentials g \<and> source h = source g \<and> sink h = sink g \<and>
    (\<forall>x < length (edges g). info h x = info g x @ (if x = tail then [(head, c, True)] else if x = head then [(tail, - c, False)] else []))"
proof -
  let ?lt = "length (edges g ! tail)" and ?lh = "length (edges g ! head)"
  let ?f = "\<lparr>target = head, reverse = ?lh, cost = c, available = True\<rparr>"
  let ?b = "\<lparr>target = tail, reverse = ?lt, cost = - c, available = False\<rparr>"
  define h where "h = g\<lparr>edges := (edges g)[tail := edges g ! tail @ [?f], head := edges g ! head @ [?b]]\<rparr>"
  have run: "add_edge tail head c g = Some h" using th by (simp add: add_edge_def h_def Let_def)
  have row: "edges h ! x = edges g ! x @ (if x = tail then [?f] else if x = head then [?b] else [])" if "x < length (edges g)" for x
    using that th by (auto simp: h_def nth_list_update)
  have len: "length (edges h) = length (edges g)" by (simp add: h_def)
  have hf: "edge_at h tail ?lt = ?f" "edge_at h head ?lh = ?b" using row th by simp_all
  have nf: "has_edge h tail ?lt" "has_edge h head ?lh" using row th len by (simp_all add: has_edge_def)
  have old: "has_edge h x j \<and> edge_at h x j = edge_at g x j" if "has_edge g x j" for x j
    using that row [of x] len by (auto simp: has_edge_def nth_append)
  have new: "has_edge g x j \<or> (x = tail \<and> j = ?lt) \<or> (x = head \<and> j = ?lh)" if "has_edge h x j" for x j
    using that row [of x] len by (auto simp: has_edge_def split: if_splits)
  have "wired h"
    unfolding wired_def Let_def
  proof (intro allI impI)
    fix x j assume "has_edge h x j"
    from new [OF this] consider "has_edge g x j" | "x = tail" "j = ?lt" | "x = head" "j = ?lh" by blast
    then show "has_edge h (target (edge_at h x j)) (reverse (edge_at h x j)) \<and> target (edge_at h x j) \<noteq> x \<and>
       target (edge_at h (target (edge_at h x j)) (reverse (edge_at h x j))) = x \<and>
       reverse (edge_at h (target (edge_at h x j)) (reverse (edge_at h x j))) = j \<and>
       cost (edge_at h (target (edge_at h x j)) (reverse (edge_at h x j))) = - cost (edge_at h x j) \<and>
       available (edge_at h (target (edge_at h x j)) (reverse (edge_at h x j))) = (\<not> available (edge_at h x j))"
    proof cases
      case 1
      note d = wiredD [OF w 1]
      show ?thesis using old [OF 1] old [OF d(1)] d by simp
    next
      case 2
      then show ?thesis using hf nf th(3) by simp
    next
      case 3
      then show ?thesis using hf nf th(3) by simp
    qed
  qed
  moreover have "info h x = info g x @ (if x = tail then [(head, c, True)] else if x = head then [(tail, - c, False)] else [])"
    if "x < length (edges g)" for x
    using row [OF that] by (auto simp: info_def)
  ultimately show ?thesis using run len by (intro exI [of _ h]) (simp add: h_def)
qed

lemma largest_order_ge: "i < length rows \<Longrightarrow> e \<in> set (rows ! i) \<Longrightarrow> order e \<le> largest_order rows"
proof -
  have ge: "x \<in> set xs \<Longrightarrow> x \<le> fold max xs a" and "a \<le> fold max xs a" for x :: nat and xs a
  proof -
    have "a \<le> fold max xs a \<and> (\<forall>x \<in> set xs. x \<le> fold max xs a)" for a
      by (induction xs arbitrary: a) (simp, metis fold_simps(2) max.boundedE set_ConsD)
    then show "x \<in> set xs \<Longrightarrow> x \<le> fold max xs a" "a \<le> fold max xs a" by blast+
  qed
  assume "i < length rows" "e \<in> set (rows ! i)"
  then have "rows ! i \<in> set rows" "e \<in> set (rows ! i)" by simp_all
  then have "order e \<in> set (map order (concat rows))" by auto
  then show ?thesis unfolding largest_order_def by (rule ge)
qed

definition entry_info :: "SignatureEntry list list \<Rightarrow> SignatureEntry \<Rightarrow> nat \<times> int \<times> bool" where
  "entry_info rows e = (length rows + column e, int (largest_order rows - order e), True)"

text \<open>The network while rows are added: \<open>a\<close> edges at the source, the rows as \<open>f\<close> says.\<close>

definition building :: "SignatureEntry list list \<Rightarrow> nat \<Rightarrow> nat \<Rightarrow> (nat \<Rightarrow> (nat \<times> int \<times> bool) list) \<Rightarrow> Assignment \<Rightarrow> bool" where
  "building rows columns a f g \<longleftrightarrow> (let n = length rows in
     wired g \<and> length (edges g) = n + columns + 2 \<and> potentials g = replicate (n + columns + 2) 0 \<and>
     source g = n + columns \<and> sink g = n + columns + 1 \<and>
     info g (n + columns) = map (\<lambda>i. (i, 0, True)) [0..<a] \<and> (\<forall>i < n. info g i = f i) \<and> info g (n + columns + 1) = [] \<and>
     (\<forall>j < columns. \<forall>(v, c, av) \<in> set (info g (n + j)). v < n \<and> \<not> av \<and> \<bar>c\<bar> \<le> int (largest_order rows)))"

lemma buildingD:
  assumes "building rows columns a f g"
  shows "wired g" "length (edges g) = length rows + columns + 2" "potentials g = replicate (length rows + columns + 2) 0"
    "source g = length rows + columns" "sink g = length rows + columns + 1"
    "info g (length rows + columns) = map (\<lambda>i. (i, 0, True)) [0..<a]" "i < length rows \<Longrightarrow> info g i = f i"
    "info g (length rows + columns + 1) = []"
    "j < columns \<Longrightarrow> (v, c, av) \<in> set (info g (length rows + j)) \<Longrightarrow> v < length rows \<and> \<not> av \<and> \<bar>c\<bar> \<le> int (largest_order rows)"
  using assms unfolding building_def Let_def by blast+

lemma buildingI:
  assumes "wired g" "length (edges g) = length rows + columns + 2" "potentials g = replicate (length rows + columns + 2) 0"
    "source g = length rows + columns" "sink g = length rows + columns + 1"
    "info g (length rows + columns) = map (\<lambda>i. (i, 0, True)) [0..<a]" "\<And>i. i < length rows \<Longrightarrow> info g i = f i"
    "info g (length rows + columns + 1) = []"
    "\<And>j v c av. j < columns \<Longrightarrow> (v, c, av) \<in> set (info g (length rows + j)) \<Longrightarrow> v < length rows \<and> \<not> av \<and> \<bar>c\<bar> \<le> int (largest_order rows)"
  shows "building rows columns a f g"
  using assms unfolding building_def Let_def by blast

lemma building_source_edge:
  assumes b: "building rows columns a f g" and a: "a < length rows"
  shows "\<exists>h. add_edge (source g) a 0 g = Some h \<and>
    building rows columns (Suc a) (f(a := f a @ [(length rows + columns, 0, False)])) h"
proof -
  note d = buildingD [OF b]
  let ?n = "length rows"
  obtain h where h: "add_edge (source g) a 0 g = Some h" "wired h" "length (edges h) = length (edges g)"
      "potentials h = potentials g" "source h = source g" "sink h = sink g"
      "\<And>x. x < length (edges g) \<Longrightarrow> info h x = info g x @ (if x = source g then [(a, 0, True)] else if x = a then [(source g, - 0, False)] else [])"
    using add_edge_wired [OF d(1), of "source g" a 0] d(2,4) a by auto
  have "info h (?n + columns) = map (\<lambda>i. (i, 0, True)) [0..<Suc a]" using h(7) [of "?n + columns"] d(2,4,6) by simp
  moreover have "info h i = (f(a := f a @ [(?n + columns, 0, False)])) i" if "i < ?n" for i
    using h(7) [of i] d(2,4) d(7) [OF that] that by auto
  moreover have "info h (?n + columns + 1) = []" using h(7) [of "?n + columns + 1"] d(2,4,8) a by simp
  moreover have "v < ?n \<and> \<not> av \<and> \<bar>c\<bar> \<le> int (largest_order rows)" if j: "j < columns" "(v, c, av) \<in> set (info h (?n + j))" for j v c av
  proof -
    have "info h (?n + j) = info g (?n + j)" using h(7) [of "?n + j"] d(2,4) a j(1) by simp
    then show ?thesis using d(9) [OF j(1)] j(2) by metis
  qed
  ultimately have "building rows columns (Suc a) (f(a := f a @ [(?n + columns, 0, False)])) h"
    using h(2-6) d(2-5) by (intro buildingI) (simp only:; blast)+
  then show ?thesis using h(1) by blast
qed

lemma building_entry:
  assumes b: "building rows columns a f g" and i: "i < length rows" and e: "e \<in> set (rows ! i)" "column e < columns"
  shows "\<exists>h. add_entry (length rows) columns (largest_order rows) i g e = Ok h \<and>
    building rows columns a (f(i := f i @ [entry_info rows e])) h"
proof -
  note d = buildingD [OF b]
  let ?n = "length rows" and ?c = "int (largest_order rows - order e)" and ?v = "length rows + column e"
  obtain h where h: "add_edge i ?v ?c g = Some h" "wired h" "length (edges h) = length (edges g)"
      "potentials h = potentials g" "source h = source g" "sink h = sink g"
      "\<And>x. x < length (edges g) \<Longrightarrow> info h x = info g x @ (if x = i then [(?v, ?c, True)] else if x = ?v then [(i, - ?c, False)] else [])"
    using add_edge_wired [OF d(1), of i ?v ?c] d(2) i e(2) by auto
  have "info h (?n + columns) = info g (?n + columns)" using h(7) [of "?n + columns"] d(2) i e(2) by simp
  moreover have "info h x = (f(i := f i @ [entry_info rows e])) x" if "x < ?n" for x
    using h(7) [of x] d(2) d(7) [OF that] that by (auto simp: entry_info_def)
  moreover have "info h (?n + columns + 1) = []" using h(7) [of "?n + columns + 1"] d(2,8) i e(2) by simp
  moreover have "v < ?n \<and> \<not> av \<and> \<bar>c\<bar> \<le> int (largest_order rows)" if j: "j < columns" "(v, c, av) \<in> set (info h (?n + j))" for j v c av
    using h(7) [of "?n + j"] d(2) d(9) [OF j(1), of v c av] j i by (auto split: if_splits)
  ultimately have "building rows columns a (f(i := f i @ [entry_info rows e])) h"
    using h(2-6) d(2-6) by (intro buildingI) (simp only:; blast)+
  then show ?thesis using h(1) e(2) by (auto simp: add_entry_def)
qed

lemma add_entries:
  assumes "building rows columns a f g" and i: "i < length rows" and "set es \<subseteq> set (rows ! i)"
  shows "((\<forall>e \<in> set es. column e < columns) \<longrightarrow> (\<exists>h. foldQ (add_entry (length rows) columns (largest_order rows) i) g es = Ok h \<and>
      building rows columns a (f(i := f i @ map (entry_info rows) es)) h)) \<and>
    ((\<exists>e \<in> set es. columns \<le> column e) \<longrightarrow> (\<exists>m. foldQ (add_entry (length rows) columns (largest_order rows) i) g es = Err m))"
  using assms(1,3)
proof (induction es arbitrary: f g)
  case Nil
  then show ?case by simp
next
  case (Cons e es)
  show ?case
  proof (cases "column e < columns")
    case False
    then have "add_entry (length rows) columns (largest_order rows) i g e = Err ''signature column is outside the variable view''"
      by (simp add: add_entry_def)
    then show ?thesis using False by simp
  next
    case True
    have e: "e \<in> set (rows ! i)" "set es \<subseteq> set (rows ! i)" using Cons.prems(2) by auto
    from building_entry [OF Cons.prems(1) i e(1) True] obtain h where
      h: "add_entry (length rows) columns (largest_order rows) i g e = Ok h"
        "building rows columns a (f(i := f i @ [entry_info rows e])) h" by blast
    define f1 where "f1 = f(i := f i @ [entry_info rows e])"
    have f1: "f1(i := f1 i @ map (entry_info rows) es) = f(i := f i @ map (entry_info rows) (e # es))" by (simp add: f1_def)
    have run: "foldQ (add_entry (length rows) columns (largest_order rows) i) g (e # es) =
        foldQ (add_entry (length rows) columns (largest_order rows) i) h es" using h(1) by simp
    have all: "(\<forall>e' \<in> set (e # es). column e' < columns) = (\<forall>e \<in> set es. column e < columns)"
      "(\<exists>e' \<in> set (e # es). columns \<le> column e') = (\<exists>e \<in> set es. columns \<le> column e)" using True by auto
    show ?thesis unfolding run all using Cons.IH [OF h(2) [folded f1_def] e(2)] unfolding f1 .
  qed
qed

definition row_info :: "SignatureEntry list list \<Rightarrow> nat \<Rightarrow> nat \<Rightarrow> (nat \<times> int \<times> bool) list" where
  "row_info rows columns i = (length rows + columns, 0, False) # map (entry_info rows) (rows ! i)"

lemma add_rows:
  assumes "building rows columns k (\<lambda>i. if i < k then row_info rows columns i else []) g" and "k + length rest = length rows" and "rest = drop k rows"
  shows "((\<forall>es \<in> set rest. \<forall>e \<in> set es. column e < columns) \<longrightarrow>
      (\<exists>h. foldQ (add_row (length rows) columns (largest_order rows)) g (enumerate k rest) = Ok h \<and>
        building rows columns (length rows) (row_info rows columns) h)) \<and>
    ((\<exists>es \<in> set rest. \<exists>e \<in> set es. columns \<le> column e) \<longrightarrow>
      (\<exists>m. foldQ (add_row (length rows) columns (largest_order rows)) g (enumerate k rest) = Err m))"
  using assms
proof (induction rest arbitrary: k g)
  case Nil
  note d = buildingD [OF Nil(1)]
  have k: "k = length rows" using Nil(2) by simp
  have "building rows columns (length rows) (row_info rows columns) g"
    by (rule buildingI [OF d(1-5) _ _ d(8,9)]) (use d(6,7) k in simp_all)
  then show ?case by simp
next
  case (Cons es rest)
  let ?f = "\<lambda>k i. if i < k then row_info rows columns i else []"
  have k: "k < length rows" using Cons.prems(2) by simp
  have es: "rows ! k = es" "rest = drop (Suc k) rows" using Cons.prems(3) k by (metis Cons_nth_drop_Suc list.inject)+
  from building_source_edge [OF Cons.prems(1) k] obtain h where
    h: "add_edge (source g) k 0 g = Some h"
      "building rows columns (Suc k) ((?f k)(k := ?f k k @ [(length rows + columns, 0, False)])) h" by blast
  let ?h = "(?f k)(k := ?f k k @ [(length rows + columns, 0, False)])"
  note ae = add_entries [OF h(2) k, of es]
  have fk: "?h(k := ?h k @ map (entry_info rows) es) = ?f (Suc k)"
    using es(1) by (auto simp: row_info_def fun_eq_iff less_Suc_eq)
  have step: "add_row (length rows) columns (largest_order rows) g (k, es) =
      foldQ (add_entry (length rows) columns (largest_order rows) k) h es"
    using h(1) by (simp add: add_row_def)
  show ?case
  proof (cases "\<forall>e \<in> set es. column e < columns")
    case False
    then obtain m where "add_row (length rows) columns (largest_order rows) g (k, es) = Err m"
      using ae es(1) step by (auto simp: not_less)
    then show ?thesis using False by auto
  next
    case True
    then obtain h2 where h2: "add_row (length rows) columns (largest_order rows) g (k, es) = Ok h2"
      "building rows columns (Suc k) (?f (Suc k)) h2" using ae es(1) step fk by auto
    have "Suc k + length rest = length rows" using Cons.prems(2) by simp
    from Cons.IH [OF h2(2) this es(2)] show ?thesis using h2(1) True by auto
  qed
qed

text \<open>The network as built.\<close>

definition built :: "SignatureEntry list list \<Rightarrow> nat \<Rightarrow> nat \<Rightarrow> Assignment \<Rightarrow> bool" where
  "built rows columns j g \<longleftrightarrow> (let n = length rows in
     wired g \<and> length (edges g) = n + columns + 2 \<and> potentials g = replicate (n + columns + 2) 0 \<and>
     source g = n + columns \<and> sink g = n + columns + 1 \<and>
     info g (n + columns) = map (\<lambda>i. (i, 0, True)) [0..<n] \<and> (\<forall>i < n. info g i = row_info rows columns i) \<and>
     info g (n + columns + 1) = map (\<lambda>i. (n + i, 0, False)) [0..<j] \<and>
     (\<forall>i < columns. \<exists>bk. info g (n + i) = bk @ (if i < j then [(n + columns + 1, 0, True)] else []) \<and>
        (\<forall>(v, c, av) \<in> set bk. v < n \<and> \<not> av \<and> \<bar>c\<bar> \<le> int (largest_order rows))))"

lemma builtD:
  assumes "built rows columns j g"
  shows "wired g" "length (edges g) = length rows + columns + 2" "potentials g = replicate (length rows + columns + 2) 0"
    "source g = length rows + columns" "sink g = length rows + columns + 1"
    "info g (length rows + columns) = map (\<lambda>i. (i, 0, True)) [0..<length rows]" "i < length rows \<Longrightarrow> info g i = row_info rows columns i"
    "info g (length rows + columns + 1) = map (\<lambda>i. (length rows + i, 0, False)) [0..<j]"
    "i < columns \<Longrightarrow> \<exists>bk. info g (length rows + i) = bk @ (if i < j then [(length rows + columns + 1, 0, True)] else []) \<and>
        (\<forall>(v, c, av) \<in> set bk. v < length rows \<and> \<not> av \<and> \<bar>c\<bar> \<le> int (largest_order rows))"
  using assms unfolding built_def Let_def by blast+

lemma built_start:
  assumes "building rows columns (length rows) (row_info rows columns) g"
  shows "built rows columns 0 g"
proof -
  note d = buildingD [OF assms]
  have "\<exists>bk. info g (length rows + i) = bk @ (if i < 0 then [(length rows + columns + 1, 0, True)] else []) \<and>
        (\<forall>(v, c, av) \<in> set bk. v < length rows \<and> \<not> av \<and> \<bar>c\<bar> \<le> int (largest_order rows))" if "i < columns" for i
  proof (intro exI conjI)
    show "\<forall>(v, c, av) \<in> set (info g (length rows + i)). v < length rows \<and> \<not> av \<and> \<bar>c\<bar> \<le> int (largest_order rows)"
      using d(9) [OF that] by fast
  qed simp
  moreover have "info g (length rows + columns + 1) = map (\<lambda>i. (length rows + i, 0, False)) [0..<0]" using d(8) by simp
  ultimately show ?thesis using d(1-7) unfolding built_def Let_def by blast
qed

lemma built_step:
  assumes b: "built rows columns j g" and j: "j < columns"
  shows "\<exists>h. add_edge (length rows + j) (sink g) 0 g = Some h \<and> built rows columns (Suc j) h"
proof -
  note d = builtD [OF b]
  let ?n = "length rows"
  obtain h where h: "add_edge (?n + j) (sink g) 0 g = Some h" "wired h" "length (edges h) = length (edges g)"
      "potentials h = potentials g" "source h = source g" "sink h = sink g"
      "\<And>x. x < length (edges g) \<Longrightarrow> info h x = info g x @ (if x = ?n + j then [(sink g, 0, True)] else if x = sink g then [(?n + j, - 0, False)] else [])"
    using add_edge_wired [OF d(1), of "?n + j" "sink g" 0] d(2,5) j by auto
  have "info h (?n + columns) = info g (?n + columns)" using h(7) [of "?n + columns"] d(2,5) j by simp
  moreover have "info h i = info g i" if "i < ?n" for i using h(7) [of i] d(2,5) that by simp
  moreover have "info h (?n + columns + 1) = map (\<lambda>i. (?n + i, 0, False)) [0..<Suc j]"
    using h(7) [of "?n + columns + 1"] d(2,5,8) j by simp
  moreover have "\<exists>bk. info h (?n + i) = bk @ (if i < Suc j then [(?n + columns + 1, 0, True)] else []) \<and>
        (\<forall>(v, c, av) \<in> set bk. v < ?n \<and> \<not> av \<and> \<bar>c\<bar> \<le> int (largest_order rows))" if i: "i < columns" for i
  proof -
    obtain bk where bk: "info g (?n + i) = bk @ (if i < j then [(?n + columns + 1, 0, True)] else [])"
      "\<forall>(v, c, av) \<in> set bk. v < ?n \<and> \<not> av \<and> \<bar>c\<bar> \<le> int (largest_order rows)" using d(9) [OF i] by blast
    have "info h (?n + i) = bk @ (if i < Suc j then [(?n + columns + 1, 0, True)] else [])"
      using h(7) [of "?n + i"] d(2,5) bk(1) i by auto
    then show ?thesis using bk(2) by blast
  qed
  ultimately have "built rows columns (Suc j) h"
    using h(2-6) d(2-7) unfolding built_def Let_def by simp
  then show ?thesis using h(1) by blast
qed

lemma info_nth: "k < length (edges g ! u) \<Longrightarrow> info g u ! k = (target (edge_at g u k), cost (edge_at g u k), available (edge_at g u k))"
  by (simp add: info_def)

lemma info_length: "length (info g u) = length (edges g ! u)"
  by (simp add: info_def)

lemma info_edge:
  assumes "info g u ! k = (v, c, av)" "k < length (info g u)"
  shows "target (edge_at g u k) = v" "cost (edge_at g u k) = c" "available (edge_at g u k) = av"
  using info_nth [of k g u] assms by (simp_all add: info_length)

lemma usable_info: "usable g x = length (filter (\<lambda>(_, _, av). av) (info g x))"
  by (simp add: usable_def info_def filter_map o_def)

definition columns_ok :: "SignatureEntry list list \<Rightarrow> nat \<Rightarrow> bool" where
  "columns_ok rows columns \<longleftrightarrow> (\<forall>es \<in> set rows. \<forall>e \<in> set es. column e < columns)"

lemma built_layout:
  assumes b: "built rows columns columns g" and ok: "columns_ok rows columns"
  shows "layout rows columns g"
proof -
  note d = builtD [OF b]
  let ?n = "length rows"
  have src: "target (edge_at g (?n + columns) i) = i \<and> cost (edge_at g (?n + columns) i) = 0" if "i < ?n" for i
    using info_edge [of g "?n + columns" i i 0 True] d(6) that by simp
  have row: "length (edges g ! i) = Suc (length (rows ! i)) \<and> target (edge_at g i 0) = ?n + columns" if "i < ?n" for i
  proof
    have i: "info g i ! 0 = (?n + columns, 0, False)" "0 < length (info g i)" using d(7) [OF that] by (simp_all add: row_info_def)
    show "target (edge_at g i 0) = ?n + columns" by (rule info_edge(1) [OF i])
    show "length (edges g ! i) = Suc (length (rows ! i))" using d(7) [OF that] info_length [of g i] by (simp add: row_info_def)
  qed
  have ent: "column (rows ! i ! k) < columns \<and> target (edge_at g i (Suc k)) = ?n + column (rows ! i ! k) \<and>
        cost (edge_at g i (Suc k)) = int (largest_order rows - order (rows ! i ! k))" if "i < ?n" "k < length (rows ! i)" for i k
  proof -
    have "rows ! i \<in> set rows" "rows ! i ! k \<in> set (rows ! i)" using that by simp_all
    then have "column (rows ! i ! k) < columns" using ok by (auto simp: columns_ok_def)
    then show ?thesis
      using d(7) [OF that(1)] info_edge [of g i "Suc k" _ _ True] that by (simp add: row_info_def entry_info_def)
  qed
  have col: "edges g ! (?n + j) \<noteq> [] \<and> target (edge_at g (?n + j) (length (edges g ! (?n + j)) - 1)) = ?n + columns + 1 \<and>
        cost (edge_at g (?n + j) (length (edges g ! (?n + j)) - 1)) = 0 \<and>
        (\<forall>k < length (edges g ! (?n + j)) - 1. target (edge_at g (?n + j) k) < ?n)" if j: "j < columns" for j
  proof -
    obtain bk where bk: "info g (?n + j) = bk @ [(?n + columns + 1, 0, True)]"
      "\<forall>(v, c, av) \<in> set bk. v < ?n \<and> \<not> av \<and> \<bar>c\<bar> \<le> int (largest_order rows)" using d(9) [OF j] j by auto
    have len: "length (edges g ! (?n + j)) = Suc (length bk)" using info_length [of g "?n + j"] bk(1) by simp
    have "target (edge_at g (?n + j) (length bk)) = ?n + columns + 1" "cost (edge_at g (?n + j) (length bk)) = 0"
      using info_edge [of g "?n + j" "length bk" "?n + columns + 1" 0 True] bk(1) by simp_all
    moreover have "target (edge_at g (?n + j) k) < ?n" if k: "k < length bk" for k
    proof -
      obtain v c av where e: "bk ! k = (v, c, av)" by (cases "bk ! k")
      then have "v < ?n" using bk(2) k by (metis (no_types, lifting) case_prodD nth_mem)
      then show ?thesis using info_edge [of g "?n + j" k v c av] bk(1) e k by (simp add: nth_append)
    qed
    ultimately show ?thesis using len by auto
  qed
  have snk: "?n \<le> target (edge_at g (?n + columns + 1) k) \<and> target (edge_at g (?n + columns + 1) k) < ?n + columns"
    if "k < length (edges g ! (?n + columns + 1))" for k
    using info_length [of g "?n + columns + 1"] info_edge [of g "?n + columns + 1" k "?n + k" 0 False] d(8) that by simp
  have "length (edges g ! (?n + columns)) = ?n" using info_length [of g "?n + columns"] d(6) by simp
  then show ?thesis
    unfolding layout_def Let_def using d(2,4,5) src row ent col snk by blast
qed

lemma built_usable:
  assumes b: "built rows columns columns g"
  shows "usable g (length rows + columns) = length rows" "i < length rows \<Longrightarrow> usable g i = length (rows ! i)"
    "j < columns \<Longrightarrow> usable g (length rows + j) = 1" "usable g (length rows + columns + 1) = 0"
proof -
  note d = builtD [OF b]
  show "usable g (length rows + columns) = length rows" using d(6) by (simp add: usable_info filter_map o_def)
  show "usable g i = length (rows ! i)" if "i < length rows"
    using d(7) [OF that] by (simp add: usable_info row_info_def filter_map o_def entry_info_def)
  show "usable g (length rows + columns + 1) = 0" using d(8) by (simp add: usable_info filter_map o_def)
  show "usable g (length rows + j) = 1" if j: "j < columns"
  proof -
    obtain bk where bk: "info g (length rows + j) = bk @ [(length rows + columns + 1, 0, True)]"
      "\<forall>(v, c, av) \<in> set bk. v < length rows \<and> \<not> av \<and> \<bar>c\<bar> \<le> int (largest_order rows)" using d(9) [OF j] j by auto
    have "filter (\<lambda>(_, _, av). av) bk = []" using bk(2) by (fastforce simp: filter_empty_conv)
    then show ?thesis using bk(1) by (simp add: usable_info)
  qed
qed

lemma built_edges:
  assumes b: "built rows columns columns g" and u: "u < length (edges g)" and x: "(v, c, av) \<in> set (info g u)"
  shows "\<bar>c\<bar> \<le> int (largest_order rows) \<and> (av \<longrightarrow> 0 \<le> c)"
proof -
  note d = builtD [OF b]
  let ?n = "length rows"
  consider "u < ?n" | j where "u = ?n + j" "j < columns" | "u = ?n + columns" | "u = ?n + columns + 1"
  proof -
    have "u < ?n \<or> (\<exists>j < columns. u = ?n + j) \<or> u = ?n + columns \<or> u = ?n + columns + 1"
      using u d(2) by presburger
    then show thesis using that by blast
  qed
  then show ?thesis
  proof cases
    case 1
    then show ?thesis using x d(7) [OF 1] by (auto simp: row_info_def entry_info_def)
  next
    case 2
    then show ?thesis using x d(9) [OF 2(2)] by fastforce
  next
    case 3
    then show ?thesis using x d(6) by auto
  next
    case 4
    then show ?thesis using x d(8) by auto
  qed
qed

lemma built_flow:
  assumes b: "built rows columns columns g" and big: "int (largest_order rows) * int (length rows + columns + 2) < i64_max"
  shows "flow_inv (int (largest_order rows)) g"
proof -
  note d = builtD [OF b]
  let ?C = "int (largest_order rows)"
  have edge: "(target (edge_at g u k), cost (edge_at g u k), available (edge_at g u k)) \<in> set (info g u)" if "has_edge g u k" for u k
    using that by (auto simp: has_edge_def info_def)
  have costs: "\<bar>cost (edge_at g u k)\<bar> \<le> ?C \<and> (available (edge_at g u k) \<longrightarrow> 0 \<le> cost (edge_at g u k))" if "has_edge g u k" for u k
    using built_edges [OF b _ edge [OF that]] that by (auto simp: has_edge_def)
  have "magnitudes ?C g"
    unfolding magnitudes_def Let_def using d(2-5) big costs by (auto simp del: replicate.simps add_2_eq_Suc')
  moreover have "dual_on g {..<length (edges g)} (\<lambda>_. 0)"
    unfolding dual_on_def using d(2-5) costs wiredD(1) [OF d(1)] by (auto simp: arc_def has_edge_def simp del: replicate.simps add_2_eq_Suc')
  ultimately show ?thesis using d(1) unfolding flow_inv_def by blast
qed

end
