(* ===== verification/Weighted_Matching.thy ===== *)
theory Weighted_Matching
  imports Assignment_Optimal
begin

text \<open>
  What the usable edges say at the end: exactly one edge of a row is not usable, its edge back to the
  source or the one it is matched by, and exactly one edge of a column is usable, the one to
  the sink or the one back to its row. The matching read off is compared with any
  other by the potentials.
\<close>

section \<open>Reading off the matching\<close>

lemma one_missing:
  assumes "Suc (length (filter P xs)) = length xs"
  obtains k where "k < length xs" "\<not> P (xs ! k)" "\<And>j. j < length xs \<Longrightarrow> \<not> P (xs ! j) \<Longrightarrow> j = k"
proof -
  have "length (filter (\<lambda>x. \<not> P x) xs) = 1" using sum_length_filter_compl [of P xs] assms by simp
  then have "card {i. i < length xs \<and> \<not> P (xs ! i)} = 1" by (simp add: length_filter_conv_card)
  then obtain k where "{i. i < length xs \<and> \<not> P (xs ! i)} = {k}" by (auto simp: card_1_singleton_iff)
  then show thesis by (intro that [of k]) blast+
qed

lemma one_present:
  assumes "length (filter P xs) = 1"
  obtains k where "k < length xs" "P (xs ! k)" "\<And>j. j < length xs \<Longrightarrow> P (xs ! j) \<Longrightarrow> j = k"
proof -
  have "card {i. i < length xs \<and> P (xs ! i)} = 1" using assms by (simp add: length_filter_conv_card)
  then obtain k where "{i. i < length xs \<and> P (xs ! i)} = {k}" by (auto simp: card_1_singleton_iff)
  then show thesis by (intro that [of k]) blast+
qed

definition final_state :: "SignatureEntry list list \<Rightarrow> nat \<Rightarrow> nat \<Rightarrow> Assignment \<Rightarrow> bool" where
  "final_state rows columns M h \<longleftrightarrow> (let n = length rows in
     wired h \<and> layout rows columns h \<and> int (usable h (n + columns)) = int n - int M \<and>
     (\<forall>i < n. usable h i = length (rows ! i)) \<and> (\<forall>j < columns. usable h (n + j) = 1))"

lemma final_stateD:
  assumes "final_state rows columns M h"
  shows "wired h" "layout rows columns h" "int (usable h (length rows + columns)) = int (length rows) - int M"
    "i < length rows \<Longrightarrow> usable h i = length (rows ! i)" "j < columns \<Longrightarrow> usable h (length rows + j) = 1"
  using assms unfolding final_state_def Let_def by blast+

text \<open>\<open>joined h rows i k\<close>: row \<open>i\<close> is matched by its entry \<open>k\<close>.\<close>

definition joined :: "SignatureEntry list list \<Rightarrow> Assignment \<Rightarrow> nat \<Rightarrow> nat \<Rightarrow> bool" where
  "joined rows h i k \<longleftrightarrow> i < length rows \<and> k < length (rows ! i) \<and> \<not> available (edge_at h i (Suc k))"

lemma row_edges:
  assumes "layout rows columns h" "i < length rows"
  shows "has_edge h i k \<longleftrightarrow> k \<le> length (rows ! i)"
  using layoutD(1) [OF assms(1)] layoutD(6) [OF assms] assms(2) by (auto simp: has_edge_def)

lemma source_edges:
  assumes "layout rows columns h"
  shows "has_edge h (source h) k \<longleftrightarrow> k < length rows"
  using layoutD(1,2,4) [OF assms] by (simp add: has_edge_def)

text \<open>The edge of a row back to the source, and the source's edge to it.\<close>

lemma row_source:
  assumes f: "final_state rows columns M h" and i: "i < length rows"
  shows "available (edge_at h i 0) \<longleftrightarrow> \<not> available (edge_at h (source h) i)" "cost (edge_at h i 0) = 0"
proof -
  note d = final_stateD [OF f]
  note l = layoutD [OF d(2)]
  have e: "has_edge h (source h) i" using source_edges [OF d(2)] i by simp
  note w = wiredD [OF d(1) e]
  have t: "target (edge_at h (source h) i) = i" "cost (edge_at h (source h) i) = 0" using l(2) l(5) [OF i] by simp_all
  let ?k = "reverse (edge_at h (source h) i)"
  have "?k = 0"
  proof (rule ccontr)
    assume "?k \<noteq> 0"
    then obtain k where k: "?k = Suc k" by (cases ?k) auto
    then have "k < length (rows ! i)" using w(1) t(1) row_edges [OF d(2) i] by simp
    then have "target (edge_at h i (Suc k)) < length rows + columns" using l(7) [OF i, of k] by simp
    then show False using w(3) t(1) k l(2) by simp
  qed
  then show "available (edge_at h i 0) \<longleftrightarrow> \<not> available (edge_at h (source h) i)" "cost (edge_at h i 0) = 0"
    using w(5,6) t by simp_all
qed

lemma joined_unique:
  assumes f: "final_state rows columns M h"
  shows "joined rows h i k \<Longrightarrow> joined rows h i k' \<Longrightarrow> k = k'"
    "i < length rows \<Longrightarrow> (\<exists>k. joined rows h i k) \<longleftrightarrow> available (edge_at h i 0)"
proof -
  note d = final_stateD [OF f]
  note l = layoutD [OF d(2)]
  have miss: "\<exists>k. k < Suc (length (rows ! i)) \<and> \<not> available (edge_at h i k) \<and>
      (\<forall>j < Suc (length (rows ! i)). \<not> available (edge_at h i j) \<longrightarrow> j = k)" if i: "i < length rows" for i
  proof -
    have "Suc (length (filter available (edges h ! i))) = length (edges h ! i)" using d(4) [OF i] l(6) [OF i] by (simp add: usable_def)
    then show ?thesis by (rule one_missing) (use l(6) [OF i] in auto)
  qed
  show "joined rows h i k \<Longrightarrow> joined rows h i k' \<Longrightarrow> k = k'"
    using miss [of i] unfolding joined_def by (metis Suc_less_eq nat.inject)
  show "(\<exists>k. joined rows h i k) \<longleftrightarrow> available (edge_at h i 0)" if i: "i < length rows"
  proof -
    obtain k where k: "k < Suc (length (rows ! i))" "\<not> available (edge_at h i k)"
      "\<And>j. j < Suc (length (rows ! i)) \<Longrightarrow> \<not> available (edge_at h i j) \<Longrightarrow> j = k" using miss [OF i] by blast
    show ?thesis
    proof (cases k)
      case 0
      have "\<not> joined rows h i k'" for k'
        using k(3) [of "Suc k'"] 0 by (auto simp: joined_def)
      then show ?thesis using k(2) 0 by blast
    next
      case (Suc k')
      then have "joined rows h i k'" using k(1,2) i by (simp add: joined_def)
      moreover have "available (edge_at h i 0)" using k(3) [of 0] Suc by blast
      ultimately show ?thesis by blast
    qed
  qed
qed

text \<open>The column edge of a matched entry is the one usable edge of its column.\<close>

lemma joined_column:
  assumes f: "final_state rows columns M h" and jn: "joined rows h i k"
  defines "j \<equiv> column (rows ! i ! k)"
  shows "j < columns" "target (edge_at h i (Suc k)) = length rows + j"
    "arc h (length rows + j) (reverse (edge_at h i (Suc k)))"
    "target (edge_at h (length rows + j) (reverse (edge_at h i (Suc k)))) = i"
    "cost (edge_at h (length rows + j) (reverse (edge_at h i (Suc k)))) = - int (largest_order rows - order (rows ! i ! k))"
proof -
  note d = final_stateD [OF f]
  have ik: "i < length rows" "k < length (rows ! i)" "\<not> available (edge_at h i (Suc k))" using jn by (auto simp: joined_def)
  note l = layoutD(7) [OF d(2) ik(1,2)]
  have e: "has_edge h i (Suc k)" using row_edges [OF d(2) ik(1)] ik(2) by simp
  note w = wiredD [OF d(1) e]
  show "j < columns" "target (edge_at h i (Suc k)) = length rows + j" using l by (simp_all add: j_def)
  then show "arc h (length rows + j) (reverse (edge_at h i (Suc k)))"
    "target (edge_at h (length rows + j) (reverse (edge_at h i (Suc k)))) = i"
    "cost (edge_at h (length rows + j) (reverse (edge_at h i (Suc k)))) = - int (largest_order rows - order (rows ! i ! k))"
    using w ik(3) l by (simp_all add: arc_def)
qed

lemma column_arc:
  assumes f: "final_state rows columns M h" and j: "j < columns"
  obtains r where "arc h (length rows + j) r" "\<And>r'. arc h (length rows + j) r' \<Longrightarrow> r' = r"
proof -
  note d = final_stateD [OF f]
  let ?x = "length rows + j"
  have x: "?x < length (edges h)" using layoutD(1) [OF d(2)] j by simp
  have "length (filter available (edges h ! ?x)) = 1" using d(5) [OF j] by (simp add: usable_def)
  then obtain r where r: "r < length (edges h ! ?x)" "available (edge_at h ?x r)"
      "\<And>r'. r' < length (edges h ! ?x) \<Longrightarrow> available (edge_at h ?x r') \<Longrightarrow> r' = r"
    by (rule one_present) blast
  show thesis
  proof (rule that)
    show "arc h ?x r" using r(1,2) x by (simp add: arc_def has_edge_def)
    show "r' = r" if "arc h ?x r'" for r' using r(3) that by (simp add: arc_def has_edge_def)
  qed
qed

lemma joined_inj:
  assumes f: "final_state rows columns M h" and "joined rows h i k" "joined rows h i' k'"
    and "column (rows ! i ! k) = column (rows ! i' ! k')"
  shows "i = i'"
proof -
  note a = joined_column [OF f assms(2)] and b = joined_column [OF f assms(3)]
  obtain r where "\<And>r'. arc h (length rows + column (rows ! i ! k)) r' \<Longrightarrow> r' = r" using column_arc [OF f a(1)] by blast
  then have "reverse (edge_at h i (Suc k)) = reverse (edge_at h i' (Suc k'))" using a(3) b(3) assms(4) by metis
  then show ?thesis using a(4) b(4) assms(4) by simp
qed

text \<open>A column's usable edge leads to the sink, or back to the row it is matched with.\<close>

lemma column_cases:
  assumes f: "final_state rows columns M h" and a: "arc h (length rows + j) r" and j: "j < columns"
  obtains (free) "target (edge_at h (length rows + j) r) = sink h" "cost (edge_at h (length rows + j) r) = 0"
      "\<nexists>i k. joined rows h i k \<and> column (rows ! i ! k) = j"
  | (matched) i k where "target (edge_at h (length rows + j) r) = i" "joined rows h i k" "column (rows ! i ! k) = j"
proof -
  note d = final_stateD [OF f]
  note l = layoutD [OF d(2)]
  let ?l = "length (edges h ! (length rows + j)) - 1"
  have he: "has_edge h (length rows + j) r" using a by (simp add: arc_def)
  note w = wiredD [OF d(1) he]
  show thesis
  proof (cases "r = ?l")
    case True
    have t: "target (edge_at h (length rows + j) r) = sink h" "cost (edge_at h (length rows + j) r) = 0"
      using l(3) l(8) [OF j] True by simp_all
    have "\<nexists>i k. joined rows h i k \<and> column (rows ! i ! k) = j"
    proof
      assume "\<exists>i k. joined rows h i k \<and> column (rows ! i ! k) = j"
      then obtain i k where ik: "joined rows h i k" "column (rows ! i ! k) = j" by blast
      note c = joined_column [OF f ik(1), unfolded ik(2)]
      obtain r' where "\<And>r''. arc h (length rows + j) r'' \<Longrightarrow> r'' = r'" using column_arc [OF f j] by blast
      then have "target (edge_at h (length rows + j) r) = i" using a c(3,4) by metis
      then show False using t(1) l(3) ik(1) by (simp add: joined_def)
    qed
    then show thesis using free t by blast
  next
    case False
    moreover have "r < length (edges h ! (length rows + j))" using he by (simp add: has_edge_def)
    ultimately have "r < ?l" by linarith
    then have i: "target (edge_at h (length rows + j) r) < length rows" using l(9) [OF j] by blast
    let ?i = "target (edge_at h (length rows + j) r)" and ?q = "reverse (edge_at h (length rows + j) r)"
    have "?q \<noteq> 0"
    proof
      assume "?q = 0"
      then show False using w(3) l(6) [OF i] j by simp
    qed
    then obtain k where k: "?q = Suc k" by (cases ?q) auto
    have "k < length (rows ! ?i)" using w(1) k row_edges [OF d(2) i] by simp
    moreover have "\<not> available (edge_at h ?i (Suc k))" using w(6) a k by (simp add: arc_def)
    ultimately have "joined rows h ?i k" using i by (simp add: joined_def)
    moreover have "column (rows ! ?i ! k) = j" using l(7) [OF i \<open>k < length (rows ! ?i)\<close>] w(3) k by simp
    ultimately show thesis using matched by blast
  qed
qed

section \<open>The best matching\<close>

text \<open>Choices of entries, as positions \<open>(row, entry)\<close>, that use no row and no column twice.\<close>

definition independent :: "SignatureEntry list list \<Rightarrow> (nat \<times> nat) set \<Rightarrow> bool" where
  "independent rows A \<longleftrightarrow> (\<forall>(i, k) \<in> A. i < length rows \<and> k < length (rows ! i)) \<and>
     inj_on fst A \<and> inj_on (\<lambda>(i, k). column (rows ! i ! k)) A"

definition joints :: "SignatureEntry list list \<Rightarrow> Assignment \<Rightarrow> (nat \<times> nat) set" where
  "joints rows h = {(i, k). joined rows h i k}"

definition choice_weight :: "SignatureEntry list list \<Rightarrow> (nat \<times> nat) set \<Rightarrow> nat" where
  "choice_weight rows A = (\<Sum>(i, k) \<in> A. order (rows ! i ! k))"

lemma independentD:
  assumes "independent rows A"
  shows "(i, k) \<in> A \<Longrightarrow> i < length rows" "(i, k) \<in> A \<Longrightarrow> k < length (rows ! i)"
    "inj_on fst A" "inj_on (\<lambda>(i, k). column (rows ! i ! k)) A" "fst ` A \<subseteq> {..<length rows}"
  using assms unfolding independent_def by auto

lemma independent_finite: "independent rows A \<Longrightarrow> finite A"
  using independentD(3,5) finite_imageD finite_subset by (metis finite_lessThan)

lemma independent_card:
  assumes A: "independent rows A" and ok: "columns_ok rows columns"
  shows "card A \<le> min (length rows) columns"
proof -
  note a = independentD [OF A]
  have "column (rows ! i ! k) < columns" if "(i, k) \<in> A" for i k
    using ok nth_mem [OF a(1) [OF that]] nth_mem [OF a(2) [OF that]] unfolding columns_ok_def by blast
  then have "(\<lambda>(i, k). column (rows ! i ! k)) ` A \<subseteq> {..<columns}" by auto
  then have "card A \<le> columns" using card_image [OF a(4)] by (metis card_lessThan card_mono finite_lessThan)
  moreover have "card A \<le> length rows" using card_image [OF a(3)] a(5) by (metis card_lessThan card_mono finite_lessThan)
  ultimately show ?thesis by simp
qed

lemma joints_independent:
  assumes f: "final_state rows columns M h"
  shows "independent rows (joints rows h)"
  unfolding independent_def
proof (intro conjI)
  show "\<forall>(i, k) \<in> joints rows h. i < length rows \<and> k < length (rows ! i)" by (auto simp: joints_def joined_def)
  show "inj_on fst (joints rows h)" using joined_unique(1) [OF f] by (auto simp: inj_on_def joints_def)
  show "inj_on (\<lambda>(i, k). column (rows ! i ! k)) (joints rows h)"
  proof (rule inj_onI)
    fix p q assume p: "p \<in> joints rows h" and q: "q \<in> joints rows h"
      and e: "(case p of (i, k) \<Rightarrow> column (rows ! i ! k)) = (case q of (i, k) \<Rightarrow> column (rows ! i ! k))"
    obtain i k i' k' where pq: "p = (i, k)" "q = (i', k')" by (cases p, cases q)
    then have j: "joined rows h i k" "joined rows h i' k'" using p q by (simp_all add: joints_def)
    have "i = i'" by (rule joined_inj [OF f j]) (use e pq in simp)
    then show "p = q" using joined_unique(1) [OF f j(1)] j(2) pq by simp
  qed
qed

lemma joints_card:
  assumes f: "final_state rows columns M h"
  shows "card (joints rows h) = M"
proof -
  note d = final_stateD [OF f]
  let ?n = "length rows" and ?s = "source h"
  note l = layoutD [OF d(2)]
  have i: "inj_on fst (joints rows h)" by (rule independentD(3) [OF joints_independent [OF f]])
  have "fst ` joints rows h = {i. \<exists>k. joined rows h i k}" unfolding joints_def by force
  also have "\<dots> = {i. i < ?n \<and> (\<exists>k. joined rows h i k)}" by (auto simp: joined_def)
  also have "\<dots> = {i. i < ?n \<and> \<not> available (edge_at h ?s i)}"
    using joined_unique(2) [OF f] row_source(1) [OF f] by blast
  finally have "card (joints rows h) = card {i. i < ?n \<and> \<not> available (edge_at h ?s i)}"
    using card_image [OF i] by simp
  also have "\<dots> = length (filter (\<lambda>e. \<not> available e) (edges h ! ?s))"
    using l(2,4) by (simp add: length_filter_conv_card)
  also have "\<dots> = ?n - usable h ?s"
    using sum_length_filter_compl [of available "edges h ! ?s"] l(2,4) by (simp add: usable_def)
  finally have "int (card (joints rows h)) = int (?n - usable h ?s)" by simp
  moreover have "usable h ?s \<le> ?n" using length_filter_le [of available "edges h ! ?s"] l(2,4) by (simp add: usable_def)
  ultimately show ?thesis using d(3) l(2) by simp
qed

lemma row_free:
  assumes f: "final_state rows columns M h" and i: "i < length rows" "\<nexists>k. joined rows h i k"
  shows "arc h (source h) i" "target (edge_at h (source h) i) = i" "cost (edge_at h (source h) i) = 0"
proof -
  note d = final_stateD [OF f]
  note l = layoutD [OF d(2)]
  show "arc h (source h) i" using row_source(1) [OF f i(1)] joined_unique(2) [OF f i(1)] i(2) source_edges [OF d(2)] i(1)
    by (simp add: arc_def)
  show "target (edge_at h (source h) i) = i" "cost (edge_at h (source h) i) = 0" using l(2) l(5) [OF i(1)] by simp_all
qed

lemma row_taken:
  assumes f: "final_state rows columns M h" and jn: "joined rows h i k"
  shows "arc h i 0" "target (edge_at h i 0) = source h" "cost (edge_at h i 0) = 0"
proof -
  note d = final_stateD [OF f]
  note l = layoutD [OF d(2)]
  have i: "i < length rows" using jn by (simp add: joined_def)
  show "arc h i 0" using joined_unique(2) [OF f i] jn row_edges [OF d(2) i] by (auto simp: arc_def)
  show "target (edge_at h i 0) = source h" "cost (edge_at h i 0) = 0" using l(2) l(6) [OF i] row_source(2) [OF f i] by simp_all
qed

lemma entry_arc:
  assumes f: "final_state rows columns M h" and i: "i < length rows" "k < length (rows ! i)"
  shows "\<not> joined rows h i k \<Longrightarrow> arc h i (Suc k)" "target (edge_at h i (Suc k)) = length rows + column (rows ! i ! k)"
    "cost (edge_at h i (Suc k)) = int (largest_order rows) - int (order (rows ! i ! k))"
proof -
  note d = final_stateD [OF f]
  note l = layoutD(7) [OF d(2) i]
  show "\<not> joined rows h i k \<Longrightarrow> arc h i (Suc k)" using row_edges [OF d(2) i(1)] i by (simp add: arc_def joined_def)
  show "target (edge_at h i (Suc k)) = length rows + column (rows ! i ! k)" using l by simp
  show "cost (edge_at h i (Suc k)) = int (largest_order rows) - int (order (rows ! i ! k))"
    using l largest_order_ge [OF i(1), of "rows ! i ! k"] i(2) by simp
qed

text \<open>A cut leaves no choice of more entries: every entry has its row or its column in the cover.\<close>

lemma cut_bounds:
  assumes f: "final_state rows columns M h" and K: "cut h K" and A: "independent rows A"
  shows "card A \<le> card (joints rows h)"
proof -
  note d = final_stateD [OF f]
  note a = independentD [OF A] and j = independentD [OF joints_independent [OF f]]
  let ?n = "length rows" and ?J = "joints rows h"
  define col where "col = (\<lambda>(i, k). column (rows ! i ! k))"
  have colA: "inj_on col A" and colJ: "inj_on col ?J" using a(4) j(4) by (simp_all add: col_def)
  have finA: "finite A" "finite ?J" using independent_finite A joints_independent [OF f] by blast+
  define J1 where "J1 = {p \<in> ?J. ?n + col p \<notin> K}"
  define J2 where "J2 = {p \<in> ?J. ?n + col p \<in> K}"
  have step: "target (edge_at h u k) \<in> K" if "arc h u k" "u \<in> K" for u k using K that unfolding cut_def by blast
  have sK: "source h \<in> K" "sink h \<notin> K" using K by (auto simp: cut_def)
  have cover: "fst p \<in> fst ` J1 \<or> col p \<in> col ` J2" if p: "p \<in> A" for p
  proof -
    obtain i k where ik: "p = (i, k)" "i < ?n" "k < length (rows ! i)" using a(1,2) p by (cases p) blast
    note e = entry_arc [OF f ik(2,3)]
    have kc: "col p < columns" using layoutD(7) [OF d(2) ik(2,3)] by (simp add: col_def ik(1))
    have inK: "?n + col p \<in> K \<Longrightarrow> col p \<in> col ` J2"
    proof -
      assume K': "?n + col p \<in> K"
      obtain r where r: "arc h (?n + col p) r" using column_arc [OF f kc] by blast
      from f r kc show "col p \<in> col ` J2"
      proof (cases rule: column_cases)
        case free
        then show ?thesis using step [OF r K'] sK(2) by simp
      next
        case (matched i' k')
        then have "(i', k') \<in> J2" using K' by (simp add: J2_def joints_def col_def)
        moreover have "col (i', k') = col p" using matched(3) by (simp add: col_def)
        ultimately show ?thesis by (metis imageI)
      qed
    qed
    have rowK: "i \<in> K \<Longrightarrow> \<not> joined rows h i k \<Longrightarrow> ?n + col p \<in> K"
      using step [OF e(1)] e(2) by (simp add: col_def ik(1))
    show ?thesis
    proof (cases "\<exists>k0. joined rows h i k0")
      case False
      then have "i \<in> K" using step row_free [OF f ik(2)] sK(1) by metis
      then show ?thesis using rowK inK False by blast
    next
      case True
      then obtain k0 where k0: "joined rows h i k0" by blast
      show ?thesis
      proof (cases "?n + col (i, k0) \<in> K")
        case False
        then have "(i, k0) \<in> J1" using k0 by (simp add: J1_def joints_def)
        then show ?thesis using ik(1) by force
      next
        case inside: True
        note c = joined_column [OF f k0]
        have "i \<in> K" using step [OF c(3)] c(4) inside by (simp add: col_def)
        then have "?n + col p \<in> K" using rowK inside joined_unique(1) [OF f k0, of k] ik(1) by blast
        then show ?thesis using inK by blast
      qed
    qed
  qed
  define A1 where "A1 = {p \<in> A. fst p \<in> fst ` J1}"
  define A2 where "A2 = {p \<in> A. col p \<in> col ` J2}"
  have fin: "finite J1" "finite J2" "finite A1" "finite A2" using finA by (simp_all add: J1_def J2_def A1_def A2_def)
  have "A = A1 \<union> A2" using cover unfolding A1_def A2_def by blast
  then have "card A \<le> card A1 + card A2" by (simp add: card_Un_le)
  moreover have "card A1 \<le> card J1"
  proof -
    have "inj_on fst A1" by (rule inj_on_subset [OF a(3)]) (simp add: A1_def)
    then have "card A1 = card (fst ` A1)" by (simp add: card_image)
    also have "\<dots> \<le> card (fst ` J1)" by (rule card_mono) (use fin in \<open>auto simp: A1_def\<close>)
    also have "\<dots> \<le> card J1" by (rule card_image_le [OF fin(1)])
    finally show ?thesis .
  qed
  moreover have "card A2 \<le> card J2"
  proof -
    have "inj_on col A2" by (rule inj_on_subset [OF colA]) (simp add: A2_def)
    then have "card A2 = card (col ` A2)" by (simp add: card_image)
    also have "\<dots> \<le> card (col ` J2)" by (rule card_mono) (use fin in \<open>auto simp: A2_def\<close>)
    also have "\<dots> \<le> card J2" by (rule card_image_le [OF fin(2)])
    finally show ?thesis .
  qed
  moreover have "card ?J = card J1 + card J2"
  proof -
    have "?J = J1 \<union> J2" "J1 \<inter> J2 = {}" unfolding J1_def J2_def by blast+
    then show ?thesis using card_Un_disjoint [OF fin(1,2)] by simp
  qed
  ultimately show ?thesis by linarith
qed

text \<open>Among the choices of as many entries the potentials single out the matched ones as cheapest.\<close>

lemma sum_signed:
  assumes "finite A" "finite B" and "\<And>x. x \<in> A \<Longrightarrow> f x \<le> (0 :: int)" and "\<And>x. x \<in> B - A \<Longrightarrow> 0 \<le> f x"
  shows "sum f A \<le> sum f B"
proof -
  have "sum f A = sum f (A \<inter> B) + sum f (A - B)" using sum.Int_Diff [OF assms(1)] by blast
  also have "\<dots> \<le> sum f (A \<inter> B)" using sum_nonpos [of "A - B" f] assms(3) by simp
  also have "\<dots> \<le> sum f (B \<inter> A) + sum f (B - A)" using sum_nonneg [of "B - A" f] assms(4) by (simp add: Int_commute)
  also have "\<dots> = sum f B" using sum.Int_Diff [OF assms(2)] by metis
  finally show ?thesis .
qed

lemma column_free_arc:
  assumes f: "final_state rows columns M h" and j: "j < columns"
  shows "(\<exists>r. arc h (length rows + j) r \<and> target (edge_at h (length rows + j) r) = sink h \<and> cost (edge_at h (length rows + j) r) = 0) \<or>
    (\<exists>r. arc h (sink h) r \<and> target (edge_at h (sink h) r) = length rows + j \<and> cost (edge_at h (sink h) r) = 0)"
proof -
  note d = final_stateD [OF f]
  note l = layoutD [OF d(2)]
  let ?x = "length rows + j"
  let ?l = "length (edges h ! ?x) - 1"
  have e: "has_edge h ?x ?l" using l(1) l(8) [OF j] j by (simp add: has_edge_def)
  have t: "target (edge_at h ?x ?l) = sink h" "cost (edge_at h ?x ?l) = 0" using l(3) l(8) [OF j] by simp_all
  note w = wiredD [OF d(1) e]
  show ?thesis
  proof (cases "available (edge_at h ?x ?l)")
    case True
    then show ?thesis using e t by (auto simp: arc_def)
  next
    case False
    let ?r = "reverse (edge_at h ?x ?l)"
    have "arc h (sink h) ?r" "target (edge_at h (sink h) ?r) = ?x" "cost (edge_at h (sink h) ?r) = 0"
      using w t False by (simp_all add: arc_def)
    then show ?thesis by blast
  qed
qed

lemma matched_column_arc:
  assumes f: "final_state rows columns M h" and jn: "joined rows h i k"
  shows "\<exists>r. arc h (sink h) r \<and> target (edge_at h (sink h) r) = length rows + column (rows ! i ! k) \<and> cost (edge_at h (sink h) r) = 0"
proof -
  note c = joined_column [OF f jn]
  have i: "i < length rows" using jn by (simp add: joined_def)
  have "\<not> (arc h (length rows + column (rows ! i ! k)) r \<and> target (edge_at h (length rows + column (rows ! i ! k)) r) = sink h)" for r
  proof
    assume r: "arc h (length rows + column (rows ! i ! k)) r \<and> target (edge_at h (length rows + column (rows ! i ! k)) r) = sink h"
    obtain r0 where "\<And>r'. arc h (length rows + column (rows ! i ! k)) r' \<Longrightarrow> r' = r0" using column_arc [OF f c(1)] by blast
    then have "r = reverse (edge_at h i (Suc k))" using r c(3) by blast
    then show False using r c(4) layoutD(3) [OF final_stateD(2) [OF f]] i by simp
  qed
  then show ?thesis using column_free_arc [OF f c(1)] by blast
qed

lemma unmatched_column_arc:
  assumes f: "final_state rows columns M h" and j: "j < columns" and "\<nexists>i k. joined rows h i k \<and> column (rows ! i ! k) = j"
  shows "\<exists>r. arc h (length rows + j) r \<and> target (edge_at h (length rows + j) r) = sink h \<and> cost (edge_at h (length rows + j) r) = 0"
proof -
  obtain r where r: "arc h (length rows + j) r" using column_arc [OF f j] by blast
  from f r j show ?thesis by (cases rule: column_cases) (use r assms(3) in blast)+
qed

lemma dual_bounds:
  assumes f: "final_state rows columns M h" and d: "dual_on h R \<phi>" and A: "independent rows A" and c: "card A = card (joints rows h)"
  shows "choice_weight rows A \<le> choice_weight rows (joints rows h)"
proof -
  let ?n = "length rows" and ?J = "joints rows h" and ?L = "int (largest_order rows)"
  let ?col = "\<lambda>(i, k). column (rows ! i ! k)"
  have J: "independent rows ?J" by (rule joints_independent [OF f])
  note a = independentD [OF A] and j = independentD [OF J]
  have fin: "finite A" "finite ?J" using independent_finite A J by blast+
  have ge: "0 \<le> cost (edge_at h u k) + \<phi> u - \<phi> (target (edge_at h u k))" if "arc h u k" for u k
    by (rule dual_onD(4) [OF d that])
  define w where "w = (\<lambda>(i, k). ?L - int (order (rows ! i ! k)) + \<phi> i - \<phi> (?n + column (rows ! i ! k)))"
  define fr where "fr = (\<lambda>i. \<phi> (source h) - \<phi> i)"
  define fc where "fc = (\<lambda>j. \<phi> (?n + j) - \<phi> (sink h))"
  have entries: "sum w ?J \<le> sum w A"
  proof (rule sum_signed [OF fin(2,1)])
    fix p assume "p \<in> ?J"
    then obtain i k where p: "p = (i, k)" "joined rows h i k" by (auto simp: joints_def)
    note c = joined_column [OF f p(2)]
    have "i < ?n" "k < length (rows ! i)" using p(2) by (simp_all add: joined_def)
    then have "order (rows ! i ! k) \<le> largest_order rows" using largest_order_ge by simp
    then show "w p \<le> 0" using ge [OF c(3)] c(4,5) by (simp add: w_def p(1))
  next
    fix p assume p': "p \<in> A - ?J"
    then obtain i k where p: "p = (i, k)" "i < ?n" "k < length (rows ! i)" "\<not> joined rows h i k"
      using a(1,2) by (cases p) (auto simp: joints_def)
    note e = entry_arc [OF f p(2,3)]
    show "0 \<le> w p" using ge [OF e(1) [OF p(4)]] e(2,3) by (simp add: w_def p(1))
  qed
  have rows: "sum fr (fst ` ?J) \<le> sum fr (fst ` A)"
  proof (rule sum_signed)
    fix i assume "i \<in> fst ` ?J"
    then obtain k where k: "joined rows h i k" by (auto simp: joints_def)
    show "fr i \<le> 0" using ge [OF row_taken(1) [OF f k]] row_taken(2,3) [OF f k] by (simp add: fr_def)
  next
    fix i assume i: "i \<in> fst ` A - fst ` ?J"
    have "\<not> joined rows h i k" for k
      using i image_eqI [of i fst "(i, k)" ?J] unfolding joints_def by fastforce
    moreover have "i < ?n" using i a(5) by blast
    ultimately have "i < ?n" "\<nexists>k. joined rows h i k" by blast+
    note r = row_free [OF f this]
    show "0 \<le> fr i" using ge [OF r(1)] r(2,3) by (simp add: fr_def)
  qed (simp_all add: fin)
  have cols: "sum fc (?col ` ?J) \<le> sum fc (?col ` A)"
  proof (rule sum_signed)
    fix j assume "j \<in> ?col ` ?J"
    then obtain i k where k: "joined rows h i k" "j = column (rows ! i ! k)" by (auto simp: joints_def)
    obtain r where r: "arc h (sink h) r" "target (edge_at h (sink h) r) = ?n + j" "cost (edge_at h (sink h) r) = 0"
      using matched_column_arc [OF f k(1)] k(2) by blast
    show "fc j \<le> 0" using ge [OF r(1)] r(2,3) by (simp add: fc_def)
  next
    fix j assume j': "j \<in> ?col ` A - ?col ` ?J"
    then obtain p where p: "p \<in> A" "j = ?col p" by blast
    obtain i k where "p = (i, k)" by (cases p)
    then have k: "(i, k) \<in> A" "j = column (rows ! i ! k)" using p by simp_all
    have jc: "j < columns" using layoutD(7) [OF final_stateD(2) [OF f] a(1) [OF k(1)] a(2) [OF k(1)]] k(2) by simp
    have "\<not> (joined rows h i k \<and> column (rows ! i ! k) = j)" for i k
      using j' image_eqI [of j ?col "(i, k)" ?J] unfolding joints_def by fastforce
    then have "\<nexists>i k. joined rows h i k \<and> column (rows ! i ! k) = j" by blast
    then obtain r where r: "arc h (?n + j) r" "target (edge_at h (?n + j) r) = sink h" "cost (edge_at h (?n + j) r) = 0"
      using unmatched_column_arc [OF f jc] by blast
    show "0 \<le> fc j" using ge [OF r(1)] r(2,3) by (simp add: fc_def)
  qed (simp_all add: fin)
  have total: "sum w B + sum fr (fst ` B) + sum fc (?col ` B) = int (card B) * (?L + \<phi> (source h) - \<phi> (sink h)) - int (choice_weight rows B)"
    if B: "inj_on fst B" "inj_on ?col B" for B
  proof -
    have "sum w B + sum fr (fst ` B) + sum fc (?col ` B) = (\<Sum>p\<in>B. w p + fr (fst p) + fc (?col p))"
      by (simp add: sum.reindex [OF B(1)] sum.reindex [OF B(2)] sum.distrib)
    also have "\<dots> = (\<Sum>p\<in>B. (?L + \<phi> (source h) - \<phi> (sink h)) - int (case p of (i, k) \<Rightarrow> order (rows ! i ! k)))"
      by (rule sum.cong) (auto simp: w_def fr_def fc_def)
    also have "\<dots> = int (card B) * (?L + \<phi> (source h) - \<phi> (sink h)) - int (choice_weight rows B)"
      by (simp add: sum_subtractf choice_weight_def)
    finally show ?thesis .
  qed
  have "int (card ?J) * (?L + \<phi> (source h) - \<phi> (sink h)) - int (choice_weight rows ?J) \<le>
      int (card A) * (?L + \<phi> (source h) - \<phi> (sink h)) - int (choice_weight rows A)"
    using entries rows cols total [OF j(3,4)] total [OF a(3,4)] by linarith
  then show ?thesis using c by simp
qed

section \<open>The run\<close>

lemma built_empty:
  "building rows columns 0 (\<lambda>i. if i < 0 then row_info rows columns i else [])
     \<lparr>edges = replicate (length rows + columns + 2) [], potentials = replicate (length rows + columns + 2) 0,
      source = length rows + columns, sink = length rows + columns + 1\<rparr>"
proof (rule buildingI)
  let ?g = "\<lparr>edges = replicate (length rows + columns + 2) [], potentials = replicate (length rows + columns + 2) 0,
      source = length rows + columns, sink = length rows + columns + 1\<rparr>"
  have "\<not> has_edge ?g u k" for u k by (cases "u < length rows + columns + 2") (simp_all add: has_edge_def del: replicate.simps add_2_eq_Suc')
  then show "wired ?g" unfolding wired_def by blast
qed (simp_all add: info_def del: replicate.simps add_2_eq_Suc')

lemma build_network_correct:
  "if columns_ok rows columns \<and> length rows + columns + 2 \<le> usize_max
   then \<exists>g. build_network rows columns = Ok g \<and> built rows columns columns g
   else \<exists>m. build_network rows columns = Err m"
proof (cases "length rows + columns + 2 \<le> usize_max")
  case False
  then have "Option.bind (chk_usize (length rows + columns)) (\<lambda>src. Option.bind (chk_usize (src + 1)) (\<lambda>snk.
             map_option (\<lambda>nodes. (src, snk, nodes)) (chk_usize (snk + 1)))) = None"
    by (auto simp: chk_usize_def)
  then show ?thesis using False by (simp add: build_network_def Let_def)
next
  case True
  let ?n = "length rows"
  let ?f = "add_row ?n columns (largest_order rows)"
  define g0 where "g0 = \<lparr>edges = replicate (?n + columns + 2) [], potentials = replicate (?n + columns + 2) 0,
      source = ?n + columns, sink = ?n + columns + 1\<rparr>"
  have run: "build_network rows columns = bindQ (foldQ ?f g0 (enumerate 0 rows)) (\<lambda>g.
            map_option Inr (try_fold (\<lambda>g j. add_edge (?n + j) (sink g) 0 g) g [0..<columns]))"
    using True by (simp add: build_network_def Let_def g0_def chk_usize_def del: replicate.simps)
  have b0: "building rows columns 0 (\<lambda>i. if i < 0 then row_info rows columns i else []) g0"
    unfolding g0_def by (rule built_empty)
  have "0 + ?n = ?n" by simp
  note r = add_rows [OF b0 this drop_0 [symmetric]]
  show ?thesis
  proof (cases "columns_ok rows columns")
    case False
    then have "\<exists>es \<in> set rows. \<exists>e \<in> set es. columns \<le> column e" by (auto simp: columns_ok_def not_less)
    from mp [OF conjunct2 [OF r] this] obtain m where "foldQ ?f g0 (enumerate 0 rows) = Err m" ..
    then show ?thesis using run False by simp
  next
    case ok: True
    from mp [OF conjunct1 [OF r] ok [unfolded columns_ok_def]] obtain h where
      h: "foldQ ?f g0 (enumerate 0 rows) = Ok h" "building rows columns ?n (row_info rows columns) h" by (elim exE conjE)
    from try_fold_upt [of "\<lambda>j g. built rows columns j g" h columns "\<lambda>g j. add_edge (?n + j) (sink g) 0 g", OF built_start [OF h(2)] built_step]
    obtain g where "try_fold (\<lambda>g j. add_edge (?n + j) (sink g) 0 g) h [0..<columns] = Some g" "built rows columns columns g" by blast
    then show ?thesis using run h(1) ok True by simp
  qed
qed

lemma shifted_final:
  assumes b: "built rows columns columns g" and ok: "columns_ok rows columns" and s: "shifted M g h" and w: "wired h"
  shows "final_state rows columns M h"
proof -
  note d = builtD [OF b] and u = built_usable [OF b]
  let ?n = "length rows"
  have sh: "int (usable h x) = int (usable g x) - (if x = source g then int M else 0) + (if x = sink g then int M else 0)"
    if "x < ?n + columns + 2" for x using s that d(2) unfolding shifted_def by simp
  have "int (usable h (?n + columns)) = int ?n - int M" using sh [of "?n + columns"] d(4,5) u(1) by simp
  moreover have "usable h i = length (rows ! i)" if "i < ?n" for i using sh [of i] d(4,5) u(2) [OF that] that by simp
  moreover have "usable h (?n + j) = 1" if "j < columns" for j using sh [of "?n + j"] d(4,5) u(3) [OF that] that by simp
  moreover have "layout rows columns h" by (rule shifted_layout [OF built_layout [OF b ok] s])
  ultimately show ?thesis using w unfolding final_state_def Let_def by blast
qed

lemma assigned_column_correct:
  assumes f: "final_state rows columns M h" and i: "i < length rows"
  shows "\<exists>r. assigned_column (length rows) h i = Some r \<and>
    (\<forall>j. r = Some j \<longleftrightarrow> (\<exists>k. joined rows h i k \<and> column (rows ! i ! k) = j))"
proof -
  note d = final_stateD [OF f]
  note l = layoutD [OF d(2)]
  let ?n = "length rows" and ?es = "edges h ! i"
  let ?P = "\<lambda>e. \<not> available e \<and> ?n \<le> target e \<and> target e < source h"
  have es: "idx (edges h) i = Some ?es" "length ?es = Suc (length (rows ! i))" using l(1) l(6) [OF i] i by simp_all
  have P: "?P (?es ! k') \<longleftrightarrow> (\<exists>k. k' = Suc k \<and> joined rows h i k)" if k': "k' < length ?es" for k'
  proof (cases k')
    case 0
    then show ?thesis using l(2) l(6) [OF i] by simp
  next
    case (Suc k)
    then show ?thesis using k' es(2) l(2) l(7) [OF i, of k] i by (auto simp: joined_def)
  qed
  show ?thesis
  proof (cases "List.find ?P ?es")
    case None
    have "\<not> joined rows h i k" for k
    proof
      assume jn: "joined rows h i k"
      then have "Suc k < length ?es" using es(2) by (simp add: joined_def)
      then show False using P jn None nth_mem unfolding find_None_iff by blast
    qed
    then show ?thesis using es None by (simp add: assigned_column_def)
  next
    case (Some e)
    then obtain k' where k': "k' < length ?es" "?P (?es ! k')" "e = ?es ! k'" unfolding find_Some_iff by blast
    then obtain k where k: "k' = Suc k" "joined rows h i k" using P by blast
    have kl: "k < length (rows ! i)" using k(2) by (simp add: joined_def)
    have "target e = ?n + column (rows ! i ! k)" unfolding k'(3) k(1) by (rule entry_arc(2) [OF f i kl])
    moreover have "assigned_column ?n h i = Some (Some (target e - ?n))" using es(1) Some by (simp add: assigned_column_def)
    ultimately have "assigned_column ?n h i = Some (Some (column (rows ! i ! k)))" by simp
    moreover have "(\<exists>k'. joined rows h i k' \<and> column (rows ! i ! k') = j) \<longleftrightarrow> column (rows ! i ! k) = j" for j
      using k(2) joined_unique(1) [OF f k(2)] by blast
    ultimately show ?thesis by simp
  qed
qed

text \<open>Choices of entries and sets of (row, column) pairs.\<close>

definition is_assignment :: "SignatureEntry list list \<Rightarrow> (nat \<times> nat) set \<Rightarrow> bool" where
  "is_assignment rows P \<longleftrightarrow> (\<forall>(i, j) \<in> P. i < length rows \<and> matched_entry (rows ! i) j \<noteq> None) \<and> inj_on fst P \<and> inj_on snd P"

definition assignment_weight :: "SignatureEntry list list \<Rightarrow> (nat \<times> nat) set \<Rightarrow> nat" where
  "assignment_weight rows P = (\<Sum>(i, j) \<in> P. order (the (matched_entry (rows ! i) j)))"

definition assigned_pairs :: "nat option list \<Rightarrow> (nat \<times> nat) set" where
  "assigned_pairs xs = {(i, j). i < length xs \<and> xs ! i = Some j}"

definition pair_of :: "SignatureEntry list list \<Rightarrow> nat \<times> nat \<Rightarrow> nat \<times> nat" where
  "pair_of rows = (\<lambda>(i, k). (i, column (rows ! i ! k)))"

lemma matched_entry_nth:
  assumes "distinct (map column es)" "k < length es"
  shows "matched_entry es (column (es ! k)) = Some (es ! k)"
proof -
  have "column (es ! j) \<noteq> column (es ! k)" if "j < k" for j
    using nth_eq_iff_index_eq [OF assms(1), of j k] assms(2) that by simp
  then show ?thesis unfolding matched_entry_def find_Some_iff using assms(2) by blast
qed

lemma choice_pairs:
  assumes A: "independent rows A" and ds: "\<forall>es \<in> set rows. distinct (map column es)"
  shows "is_assignment rows (pair_of rows ` A)" "card (pair_of rows ` A) = card A"
    "assignment_weight rows (pair_of rows ` A) = choice_weight rows A"
proof -
  note a = independentD [OF A]
  have fs: "fst \<circ> pair_of rows = fst" "snd \<circ> pair_of rows = (\<lambda>(i, k). column (rows ! i ! k))" by (auto simp: pair_of_def)
  have i: "inj_on (pair_of rows) A" by (rule inj_on_imageI2 [of fst]) (unfold fs, rule a(3))
  have e: "matched_entry (rows ! i) (column (rows ! i ! k)) = Some (rows ! i ! k)" if "(i, k) \<in> A" for i k
    using matched_entry_nth [of "rows ! i" k] ds a(1,2) [OF that] by simp
  show "card (pair_of rows ` A) = card A" by (rule card_image [OF i])
  have "inj_on (fst \<circ> pair_of rows) A" "inj_on (snd \<circ> pair_of rows) A" unfolding fs by (rule a(3), rule a(4))
  then have "inj_on fst (pair_of rows ` A)" "inj_on snd (pair_of rows ` A)" using comp_inj_on_iff [OF i] by blast+
  moreover have "\<forall>(i, j) \<in> pair_of rows ` A. i < length rows \<and> matched_entry (rows ! i) j \<noteq> None"
    using a(1) e by (fastforce simp: pair_of_def)
  ultimately show "is_assignment rows (pair_of rows ` A)" unfolding is_assignment_def by blast
  show "assignment_weight rows (pair_of rows ` A) = choice_weight rows A"
    unfolding assignment_weight_def choice_weight_def sum.reindex [OF i]
    by (rule sum.cong) (use e in \<open>auto simp: pair_of_def\<close>)
qed

lemma pairs_choice:
  assumes P: "is_assignment rows P"
  obtains A where "independent rows A" "pair_of rows ` A = P"
proof -
  have "\<exists>k < length (rows ! fst p). column (rows ! fst p ! k) = snd p" if "p \<in> P" for p
  proof -
    obtain e where "matched_entry (rows ! fst p) (snd p) = Some e" using P \<open>p \<in> P\<close> by (fastforce simp: is_assignment_def)
    then show ?thesis using matched_entry_Some [of "rows ! fst p" "snd p" e] by (metis in_set_conv_nth)
  qed
  then obtain pos where pos: "\<And>p. p \<in> P \<Longrightarrow> pos p < length (rows ! fst p) \<and> column (rows ! fst p ! pos p) = snd p" by metis
  define A where "A = (\<lambda>p. (fst p, pos p)) ` P"
  have im: "pair_of rows (fst p, pos p) = p" if "p \<in> P" for p using pos [OF that] by (simp add: pair_of_def)
  have "pair_of rows ` A = P" unfolding A_def image_image using im by simp
  moreover have "independent rows A"
    unfolding independent_def
  proof (intro conjI)
    show "\<forall>(i, k) \<in> A. i < length rows \<and> k < length (rows ! i)" using P pos by (fastforce simp: A_def is_assignment_def)
    have "inj_on fst P" "inj_on snd P" using P by (auto simp: is_assignment_def)
    then show "inj_on fst A" "inj_on (\<lambda>(i, k). column (rows ! i ! k)) A"
      using pos unfolding A_def inj_on_def by auto
  qed
  ultimately show thesis by (rule that [rotated])
qed

text \<open>
  Lifting the potential of a matched row until its entry is tight gives a pair of row and column values that
  bound every order, with equality on the matching.
\<close>

lemma tight_potentials:
  assumes f: "final_state rows columns M h" and d: "dual_on h R \<phi>"
  shows "\<exists>u v. (\<forall>i < length rows. \<forall>k < length (rows ! i). int (order (rows ! i ! k)) \<le> v (column (rows ! i ! k)) - u i) \<and>
    (\<forall>(i, k) \<in> joints rows h. int (order (rows ! i ! k)) = v (column (rows ! i ! k)) - u i)"
proof -
  let ?n = "length rows" and ?L = "int (largest_order rows)"
  have ge: "0 \<le> cost (edge_at h x k) + \<phi> x - \<phi> (target (edge_at h x k))" if "arc h x k" for x k
    by (rule dual_onD(4) [OF d that])
  define v where "v = (\<lambda>j. - \<phi> (?n + j))"
  define u where "u = (\<lambda>i. if \<exists>k. joined rows h i k
    then (let k = (THE k. joined rows h i k) in v (column (rows ! i ! k)) - int (order (rows ! i ! k))) else - ?L - \<phi> i)"
  have um: "u i = v (column (rows ! i ! k)) - int (order (rows ! i ! k))" if jn: "joined rows h i k" for i k
  proof -
    have "(THE k. joined rows h i k) = k" using joined_unique(1) [OF f] jn by blast
    then show ?thesis using jn by (auto simp: u_def)
  qed
  have base: "u i \<le> - ?L - \<phi> i" if i: "i < ?n" for i
  proof (cases "\<exists>k. joined rows h i k")
    case True
    then obtain k where k: "joined rows h i k" by blast
    then have kl: "k < length (rows ! i)" by (simp add: joined_def)
    note c = joined_column [OF f k]
    have "order (rows ! i ! k) \<le> largest_order rows" using largest_order_ge [OF i, of "rows ! i ! k"] kl by simp
    then show ?thesis using ge [OF c(3)] c(4,5) um [OF k] by (simp add: v_def)
  next
    case False
    then show ?thesis unfolding u_def if_not_P [OF False] by simp
  qed
  have "int (order (rows ! i ! k)) \<le> v (column (rows ! i ! k)) - u i" if i: "i < ?n" and k: "k < length (rows ! i)" for i k
  proof (cases "joined rows h i k")
    case True
    then show ?thesis using um [OF True] by simp
  next
    case False
    note e = entry_arc [OF f i k]
    show ?thesis using ge [OF e(1) [OF False]] e(2,3) base [OF i] by (simp add: v_def)
  qed
  moreover have "\<forall>(i, k) \<in> joints rows h. int (order (rows ! i ! k)) = v (column (rows ! i ! k)) - u i"
    using um by (auto simp: joints_def)
  ultimately show ?thesis by blast
qed

section \<open>The property\<close>

lemma maximum_weight_matching_run:
  assumes ok: "columns_ok rows columns" "length rows + columns + 2 \<le> usize_max"
    and big: "int (largest_order rows) * int (length rows + columns + 2) < i64_max"
  obtains xs h M where "maximum_weight_matching rows columns = Ok xs" "length xs = length rows" "final_state rows columns M h"
    "assigned_pairs xs = pair_of rows ` joints rows h"
    "\<forall>A. independent rows A \<longrightarrow> card A \<le> card (joints rows h)"
    "\<forall>A. independent rows A \<longrightarrow> card A = card (joints rows h) \<longrightarrow> choice_weight rows A \<le> choice_weight rows (joints rows h)"
    "\<exists>R \<phi>. dual_on h R \<phi>"
proof -
  let ?n = "length rows"
  obtain g where g: "build_network rows columns = Ok g" "built rows columns columns g"
    using build_network_correct [of rows columns] ok by auto
  from match_loop_correct [OF built_flow [OF g(2) big] built_layout [OF g(2) ok(1)] shifted_refl, of "min ?n columns"]
  obtain h M where h: "match_loop (min ?n columns) g 0 = Ok h" "flow_inv (int (largest_order rows)) h" "shifted M g h"
    "min ?n columns \<le> M \<or> (\<exists>K. cut h K)" by blast
  obtain R \<phi> where w: "wired h" and d: "dual_on h R \<phi>" using h(2) by (auto simp: flow_inv_def)
  have f: "final_state rows columns M h" by (rule shifted_final [OF g(2) ok(1) h(3) w])
  have "\<exists>r. \<forall>i < ?n. assigned_column ?n h i = Some (r i) \<and> (\<forall>j. r i = Some j \<longleftrightarrow> (\<exists>k. joined rows h i k \<and> column (rows ! i ! k) = j))"
    using assigned_column_correct [OF f] by metis
  then obtain r where r: "\<And>i. i < ?n \<Longrightarrow> assigned_column ?n h i = Some (r i)"
    "\<And>i j. i < ?n \<Longrightarrow> r i = Some j \<longleftrightarrow> (\<exists>k. joined rows h i k \<and> column (rows ! i ! k) = j)" by blast
  let ?xs = "map r [0..<?n]"
  have "those (map (assigned_column ?n h) [0..<?n]) = Some ?xs" using r(1) by (simp add: those_map_Some_iff)
  then have "maximum_weight_matching rows columns = Ok ?xs" using g(1) h(1) by (simp add: maximum_weight_matching_def)
  moreover have "assigned_pairs ?xs = pair_of rows ` joints rows h"
  proof (intro set_eqI iffI)
    fix p assume "p \<in> assigned_pairs ?xs"
    then obtain i j where p: "p = (i, j)" "i < ?n" "r i = Some j" by (auto simp: assigned_pairs_def)
    then obtain k where "joined rows h i k" "column (rows ! i ! k) = j" using r(2) by blast
    then show "p \<in> pair_of rows ` joints rows h" using p(1) by (force simp: joints_def pair_of_def)
  next
    fix p assume "p \<in> pair_of rows ` joints rows h"
    then obtain i k where p: "p = (i, column (rows ! i ! k))" "joined rows h i k" by (auto simp: joints_def pair_of_def)
    then have "i < ?n" by (simp add: joined_def)
    then show "p \<in> assigned_pairs ?xs" using p r(2) by (auto simp: assigned_pairs_def)
  qed
  moreover have "card A \<le> card (joints rows h)" if A: "independent rows A" for A
    using h(4)
  proof
    assume "min ?n columns \<le> M"
    then show ?thesis using independent_card [OF A ok(1)] joints_card [OF f] by (metis le_trans)
  next
    assume "\<exists>K. cut h K"
    then show ?thesis using cut_bounds [OF f _ A] by blast
  qed
  ultimately show thesis
    by (intro that [of ?xs M h]) (use f d dual_bounds [OF f d] in \<open>simp, simp, simp, simp, simp, simp, blast\<close>)
qed

lemma maximum_weight_matching_best:
  assumes ds: "\<forall>es \<in> set rows. distinct (map column es)" and ok: "columns_ok rows columns" "length rows + columns + 2 \<le> usize_max"
    and big: "int (largest_order rows) * int (length rows + columns + 2) < i64_max"
  obtains xs u v where "maximum_weight_matching rows columns = Ok xs" "length xs = length rows"
    "is_assignment rows (assigned_pairs xs)"
    "\<And>P. is_assignment rows P \<Longrightarrow> card P \<le> card (assigned_pairs xs) \<and>
       (card P = card (assigned_pairs xs) \<longrightarrow> assignment_weight rows P \<le> assignment_weight rows (assigned_pairs xs))"
    "\<And>i e. i < length rows \<Longrightarrow> e \<in> set (rows ! i) \<Longrightarrow> int (order e) \<le> v (column e) - u i"
    "\<And>i j. (i, j) \<in> assigned_pairs xs \<Longrightarrow> \<exists>e. matched_entry (rows ! i) j = Some e \<and> int (order e) = v j - u i"
proof -
  obtain xs h M where xs: "maximum_weight_matching rows columns = Ok xs" "length xs = length rows" "final_state rows columns M h"
    "assigned_pairs xs = pair_of rows ` joints rows h"
    "\<forall>A. independent rows A \<longrightarrow> card A \<le> card (joints rows h)"
    "\<forall>A. independent rows A \<longrightarrow> card A = card (joints rows h) \<longrightarrow> choice_weight rows A \<le> choice_weight rows (joints rows h)"
    "\<exists>R \<phi>. dual_on h R \<phi>"
    by (rule maximum_weight_matching_run [OF ok big]) (rule that)
  note J = joints_independent [OF xs(3)]
  note own = choice_pairs [OF J ds]
  have best: "card P \<le> card (assigned_pairs xs) \<and>
      (card P = card (assigned_pairs xs) \<longrightarrow> assignment_weight rows P \<le> assignment_weight rows (assigned_pairs xs))"
    if P: "is_assignment rows P" for P
  proof -
    obtain A where A: "independent rows A" "pair_of rows ` A = P" using pairs_choice [OF P] by blast
    note c = choice_pairs [OF A(1) ds, unfolded A(2)]
    show ?thesis unfolding xs(4) own(2,3) c(2,3) using xs(5,6) A(1) by blast
  qed
  obtain R \<phi> where "dual_on h R \<phi>" using xs(7) by blast
  from tight_potentials [OF xs(3) this] obtain u v where
    uv: "\<And>i k. i < length rows \<Longrightarrow> k < length (rows ! i) \<Longrightarrow> int (order (rows ! i ! k)) \<le> v (column (rows ! i ! k)) - u i"
      "\<And>i k. (i, k) \<in> joints rows h \<Longrightarrow> int (order (rows ! i ! k)) = v (column (rows ! i ! k)) - u i" by blast
  show thesis
  proof (rule that [OF xs(1,2) _ best])
    show "is_assignment rows (assigned_pairs xs)" unfolding xs(4) by (rule own(1))
    show "int (order e) \<le> v (column e) - u i" if "i < length rows" "e \<in> set (rows ! i)" for i e
      using uv(1) [OF that(1)] that(2) by (auto simp: in_set_conv_nth)
    fix i j assume "(i, j) \<in> assigned_pairs xs"
    then obtain p where p: "p \<in> joints rows h" "(i, j) = pair_of rows p" unfolding xs(4) by blast
    obtain k where k: "p = (i, k)" "j = column (rows ! i ! k)" using p(2) by (cases p) (simp add: pair_of_def)
    have ik: "(i, k) \<in> joints rows h" using p(1) k(1) by simp
    have "matched_entry (rows ! i) j = Some (rows ! i ! k)"
      unfolding k(2) using matched_entry_nth [of "rows ! i" k] ds independentD(1,2) [OF J ik] by simp
    then show "\<exists>e. matched_entry (rows ! i) j = Some e \<and> int (order e) = v j - u i" using uv(2) [OF ik] k(2) by blast
  qed
qed

text \<open>C12: The assignment of signature rows to columns answers exactly when every entry names a
  column and the network's size fits a machine word, and its answer is an assignment of the
  most rows possible; among the assignments of that many rows none has a
  larger total order. The rows name a column at most once, and the orders are small
  enough for the costs of a path to stay in the machine range; then no cost overflows
  and no step of the search fails.\<close>

theorem maximum_weight_matching_optimal:
  assumes "\<forall>es \<in> set rows. distinct (map column es)"
    and "int (largest_order rows) * int (length rows + columns + 2) < i64_max"
  shows "if columns_ok rows columns \<and> length rows + columns + 2 \<le> usize_max
    then \<exists>xs. maximum_weight_matching rows columns = Ok xs \<and> length xs = length rows \<and>
      is_assignment rows (assigned_pairs xs) \<and>
      (\<forall>P. is_assignment rows P \<longrightarrow> card P \<le> card (assigned_pairs xs) \<and>
         (card P = card (assigned_pairs xs) \<longrightarrow> assignment_weight rows P \<le> assignment_weight rows (assigned_pairs xs)))
    else \<exists>m. maximum_weight_matching rows columns = Err m"
proof (cases "columns_ok rows columns \<and> length rows + columns + 2 \<le> usize_max")
  case False
  then show ?thesis using build_network_correct [of rows columns] by (auto simp: maximum_weight_matching_def)
next
  case True
  obtain xs where xs: "maximum_weight_matching rows columns = Ok xs" "length xs = length rows" "is_assignment rows (assigned_pairs xs)"
    "\<forall>P. is_assignment rows P \<longrightarrow> card P \<le> card (assigned_pairs xs) \<and>
       (card P = card (assigned_pairs xs) \<longrightarrow> assignment_weight rows P \<le> assignment_weight rows (assigned_pairs xs))"
    using maximum_weight_matching_best [OF assms(1) conjunct1 [OF True] conjunct2 [OF True] assms(2)] by metis
  then show ?thesis unfolding if_P [OF True] by blast
qed

theorem maximum_weight_matching_optimal_witness:
  "assignment_weight [[\<lparr>column = 0, order = 2\<rparr>, \<lparr>column = 1, order = 1\<rparr>], [\<lparr>column = 0, order = 1\<rparr>], [\<lparr>column = 1, order = 3\<rparr>]] {(1, 0), (2, 1)}
   \<le> assignment_weight [[\<lparr>column = 0, order = 2\<rparr>, \<lparr>column = 1, order = 1\<rparr>], [\<lparr>column = 0, order = 1\<rparr>], [\<lparr>column = 1, order = 3\<rparr>]]
        (assigned_pairs [Some 0, None, Some 1])"
proof -
  let ?rows = "[[\<lparr>column = 0, order = 2\<rparr>, \<lparr>column = 1, order = 1\<rparr>], [\<lparr>column = 0, order = 1\<rparr>], [\<lparr>column = 1, order = 3\<rparr>]]"
  have run: "maximum_weight_matching ?rows 2 = Ok [Some 0, None, Some 1]" by code_simp
  have "largest_order ?rows = 3" by code_simp
  then have "\<forall>es \<in> set ?rows. distinct (map column es)" "int (largest_order ?rows) * int (length ?rows + 2 + 2) < i64_max"
    by (simp_all add: machine_int)
  note t = maximum_weight_matching_optimal [OF this]
  have fits: "columns_ok ?rows 2 \<and> length ?rows + 2 + 2 \<le> usize_max" by (simp add: columns_ok_def machine_int)
  have best: "\<forall>P. is_assignment ?rows P \<longrightarrow> card P = card (assigned_pairs [Some 0, None, Some 1]) \<longrightarrow>
      assignment_weight ?rows P \<le> assignment_weight ?rows (assigned_pairs [Some 0, None, Some 1])"
    using t [unfolded if_P [OF fits]] run by auto
  have "assigned_pairs [Some 0, None, Some 1] = {(0, 0), (2, 1)}"
    by (auto simp: assigned_pairs_def less_Suc_eq eval_nat_numeral)
  then have "card {(1, 0), (2, 1 :: nat)} = card (assigned_pairs [Some 0, None, Some 1])" by simp
  moreover have "is_assignment ?rows {(1, 0), (2, 1)}" by (simp add: is_assignment_def matched_entry_def)
  ultimately show ?thesis using best by blast
qed

end
