(* ===== verification/Differential_Structure.thy ===== *)
theory Differential_Structure
  imports Weighted_Matching Sorting
begin

text \<open>
  The structural differentiation analysis (\<open>differential_structure.rs\<close> of
  \<open>rumoca-phase-structural\<close>): columns for the scalar unknowns, signature rows, the assignment, the
  check that it is square, the lower bounds, the least offsets and the certificate. What the
  walk over the expressions of an equation reports, the coordinates it mentions with their scalar, is an
  argument, as are the variables of the checked DAE and which algebraic unknowns are
  constant in time.
\<close>

section \<open>Model\<close>

datatype VariableRole = Parameter | Constant | Input | State | Algebraic | Output | DiscreteReal | DiscreteValue

record VariableView =
  variable_name :: string
  variable_span :: Span
  variable_role :: VariableRole
  variable_scalar_count :: "nat option"

datatype CoordinateView =
  Parameter nat | Input nat | State nat | Derivative nat | Algebraic nat
| DiscreteReal nat | DiscreteValue nat | PreDiscreteReal nat | PreDiscreteValue nat
| PreState nat | PreAlgebraic nat | Time | ClockInterval nat | Condition nat
| Delay nat | Previous nat | Terminal nat | Binder nat | FunctionParameter nat

record DifferentialCoordinate =
  coordinate_variable :: nat
  coordinate_scalar :: nat

record DifferentialStructure =
  ds_variables :: "DifferentialCoordinate list"
  ds_rows :: "SignatureEntry list list"
  ds_matching :: "nat list"
  ds_equation_orders :: "nat list"
  ds_variable_orders :: "nat list"
  ds_formal_dimension :: nat
  ds_invariant_columns :: "bool list"

text \<open>A projected residual: the walk fails, or reports coordinates with their scalar.\<close>

type_synonym projection = "StructuralError + (CoordinateView \<times> nat) list"

definition contract :: "Span list \<Rightarrow> string \<Rightarrow> StructuralError" where
  "contract spans reason =
     (case spans of span # _ \<Rightarrow> ContractViolation reason span | [] \<Rightarrow> UnspannedContractViolation reason)"

definition continuous_role :: "VariableRole \<Rightarrow> bool" where
  "continuous_role role \<longleftrightarrow> role \<in> {VariableRole.State, VariableRole.Algebraic, VariableRole.Output}"

definition push_coordinate ::
  "nat \<Rightarrow> Span \<Rightarrow> DifferentialCoordinate list \<Rightarrow> nat \<Rightarrow> (StructuralError + DifferentialCoordinate list) option" where
  "push_coordinate var span cols scalar =
     (case chk_u32 scalar of None \<Rightarrow> Err (contract [span] ''differential coordinate exceeds u32'')
      | Some scalar \<Rightarrow> Ok (cols @ [\<lparr>coordinate_variable = var, coordinate_scalar = scalar\<rparr>]))"

definition push_variable ::
  "DifferentialCoordinate list \<times> nat option list \<Rightarrow> nat \<times> VariableView \<Rightarrow>
   (StructuralError + DifferentialCoordinate list \<times> nat option list) option" where
  "push_variable = (\<lambda>(cols, bases) (var, variable).
     case variable_scalar_count variable of
       None \<Rightarrow> Err (contract [variable_span variable] ''differential coordinates require primitive scalar views'')
     | Some count \<Rightarrow>
         (case upd bases var (Some (length cols)) of None \<Rightarrow> None
          | Some bases \<Rightarrow> bindQ (foldQ (push_coordinate var (variable_span variable)) cols [0..<count])
              (\<lambda>cols. Ok (cols, bases))))"

definition variable_columns ::
  "VariableView list \<Rightarrow> (StructuralError + DifferentialCoordinate list \<times> nat option list) option" where
  "variable_columns views =
     foldQ push_variable ([], replicate (length views) None)
       (filter (\<lambda>(_, variable). continuous_role (variable_role variable)) (enumerate 0 views))"

definition coordinate_order :: "CoordinateView \<Rightarrow> (nat \<times> nat) option" where
  "coordinate_order coordinate =
     (case coordinate of State v \<Rightarrow> Some (v, 0) | Derivative v \<Rightarrow> Some (v, 1) | Algebraic v \<Rightarrow> Some (v, 0) | _ \<Rightarrow> None)"

text \<open>\<open>None\<close> is a panic: no base, or a column outside the machine range.\<close>

definition coordinate_column :: "nat option list \<Rightarrow> CoordinateView \<Rightarrow> nat \<Rightarrow> (nat \<times> nat) option option" where
  "coordinate_column bases coordinate scalar =
     (case coordinate_order coordinate of None \<Rightarrow> Some None
      | Some (variable, ord) \<Rightarrow> do {
          held \<leftarrow> idx bases variable;
          base \<leftarrow> held;
          col \<leftarrow> chk_usize (base + scalar);
          Some (Some (col, ord))
        })"

text \<open>\<open>entries.entry(column).or_default()\<close> raised to at least \<open>ord\<close>; the map is the list of its
  entries by ascending column.\<close>

fun raise_entry :: "SignatureEntry list \<Rightarrow> nat \<Rightarrow> nat \<Rightarrow> SignatureEntry list" where
  "raise_entry [] col ord = [\<lparr>column = col, order = max 0 ord\<rparr>]"
| "raise_entry (e # es) col ord =
     (if col < column e then \<lparr>column = col, order = max 0 ord\<rparr> # e # es
      else if col = column e then e\<lparr>order := max (order e) ord\<rparr> # es
      else e # raise_entry es col ord)"

definition project_coordinate ::
  "nat option list \<Rightarrow> SignatureEntry list \<Rightarrow> CoordinateView \<times> nat \<Rightarrow> SignatureEntry list option" where
  "project_coordinate bases entries = (\<lambda>(coordinate, scalar).
     map_option (\<lambda>found. case found of None \<Rightarrow> entries | Some (col, ord) \<Rightarrow> raise_entry entries col ord)
       (coordinate_column bases coordinate scalar))"

definition project_signature :: "nat option list \<Rightarrow> projection \<Rightarrow> (StructuralError + SignatureEntry list) option" where
  "project_signature bases residual =
     (case residual of Inl e \<Rightarrow> Err e
      | Inr mentions \<Rightarrow> map_option Inr (try_fold (project_coordinate bases) [] mentions))"

section \<open>Lower bounds\<close>

definition mark_coordinate :: "nat option list \<Rightarrow> nat list \<Rightarrow> CoordinateView \<times> nat \<Rightarrow> nat list option" where
  "mark_coordinate bases bounds = (\<lambda>(coordinate, scalar).
     case coordinate of
       Derivative _ \<Rightarrow>
         (case coordinate_column bases coordinate scalar of None \<Rightarrow> None
          | Some None \<Rightarrow> Some bounds
          | Some (Some (col, _)) \<Rightarrow> upd bounds col 1)
     | _ \<Rightarrow> Some bounds)"

definition mark_initial_derivative_columns ::
  "nat option list \<Rightarrow> nat list \<Rightarrow> projection \<Rightarrow> (StructuralError + nat list) option" where
  "mark_initial_derivative_columns bases bounds residual =
     (case residual of Inl e \<Rightarrow> Err e
      | Inr mentions \<Rightarrow> map_option Inr (try_fold (mark_coordinate bases) bounds mentions))"

definition state_derivative_lower_bounds ::
  "projection list \<Rightarrow> nat \<Rightarrow> nat option list \<Rightarrow> (StructuralError + nat list) option" where
  "state_derivative_lower_bounds initialization variable_count bases =
     foldQ (mark_initial_derivative_columns bases) (replicate variable_count 0) initialization"

definition raise_bound :: "nat list \<Rightarrow> (nat \<times> DifferentialCoordinate) \<times> bool \<Rightarrow> nat" where
  "raise_bound order_bounds = (\<lambda>((bound, coordinate), invariant).
     let requested = (case idx order_bounds (coordinate_variable coordinate) of None \<Rightarrow> 0 | Some b \<Rightarrow> b) in
     if \<not> invariant then max bound requested else bound)"

section \<open>The analysis\<close>

definition unused_labels ::
  "VariableView list \<Rightarrow> DifferentialCoordinate list \<Rightarrow> bool list \<Rightarrow> (string \<times> Span) list option" where
  "unused_labels views cols used =
     those (map (\<lambda>(coordinate, _). map_option (\<lambda>variable.
         (variable_name variable @ '' (scalar '' @ show_nat (coordinate_scalar coordinate) @ '')'', variable_span variable))
       (idx views (coordinate_variable coordinate))) (filter (\<lambda>(_, u). \<not> u) (zip cols used)))"

definition require_square_matching ::
  "VariableView list \<Rightarrow> DifferentialCoordinate list \<Rightarrow> SignatureEntry list list \<Rightarrow> nat option list \<Rightarrow>
   (StructuralError + nat list) option" where
  "require_square_matching views cols rows matching =
     (let count = matched_count matching in
      if count = length rows \<and> count = length cols then map_option Inr (those matching)
      else
        (case try_fold (\<lambda>used col. upd used col True) (replicate (length cols) False) (List.map_filter id matching) of
           None \<Rightarrow> None
         | Some used \<Rightarrow>
             (case unused_labels views cols used of None \<Rightarrow> None
              | Some labels \<Rightarrow>
                  Err (Singular (length rows) (length cols) count (map equation_index_label (unmatched matching))
                    (map fst labels) (map snd labels) \<lparr>witness_equations = 0, witness_unknowns = 0, witness_sample = []\<rparr>))))"

definition project_rows ::
  "nat option list \<Rightarrow> (Span \<times> projection) list \<Rightarrow> (StructuralError + Span list \<times> SignatureEntry list list) option" where
  "project_rows bases owners =
     foldQ (\<lambda>(spans, rows) (span, residual). bindQ (project_signature bases residual) (\<lambda>entries. Ok (spans @ [span], rows @ [entries])))
       ([], []) owners"

definition with_contract :: "Span list \<Rightarrow> (string + 'a) option \<Rightarrow> (StructuralError + 'a) option" where
  "with_contract spans r = map_option (case_sum (\<lambda>m. Inl (contract spans m)) Inr) r"

definition analyze_differential_structure ::
  "VariableView list \<Rightarrow> (Span \<times> projection) list \<Rightarrow> projection list \<Rightarrow> (nat \<Rightarrow> bool) \<Rightarrow> nat list \<Rightarrow>
   (StructuralError + DifferentialStructure) option" where
  "analyze_differential_structure views owners initialization algebraic_invariant order_bounds =
     bindQ (variable_columns views) (\<lambda>(cols, bases).
     bindQ (project_rows bases owners) (\<lambda>(spans, rows).
     if rows = [] \<and> cols = [] then Err EmptySystem
     else bindQ (with_contract spans (maximum_weight_matching rows (length cols))) (\<lambda>matching.
     bindQ (require_square_matching views cols rows matching) (\<lambda>matching.
     bindQ (state_derivative_lower_bounds initialization (length cols) bases) (\<lambda>bounds.
     let invariant_columns = map (\<lambda>coordinate. algebraic_invariant (coordinate_variable coordinate)) cols;
         lower = map (raise_bound order_bounds) (zip (zip bounds cols) invariant_columns) in
     bindQ (with_contract spans (least_offsets_with_lower_bounds rows matching lower invariant_columns)) (\<lambda>(equations, orders).
     bindQ (with_contract spans (map_option (case_sum (\<lambda>_. Inl ''differential assignment certificate is invalid'') Inr)
         (certify rows matching equations orders invariant_columns))) (\<lambda>dimension.
       Ok \<lparr>ds_variables = cols, ds_rows = rows, ds_matching = matching, ds_equation_orders = equations,
            ds_variable_orders = orders, ds_formal_dimension = dimension, ds_invariant_columns = invariant_columns\<rparr>)))))))"

section \<open>Reading a structure\<close>

text \<open>The outer \<open>None\<close> is an index panic, the inner one a row outside the structure.\<close>

definition matched_variable :: "DifferentialStructure \<Rightarrow> nat \<Rightarrow> DifferentialCoordinate option option" where
  "matched_variable S r =
     (case idx (ds_matching S) r of None \<Rightarrow> Some None | Some col \<Rightarrow> map_option Some (idx (ds_variables S) col))"

definition signature_row :: "DifferentialStructure \<Rightarrow> nat \<Rightarrow> (DifferentialCoordinate \<times> nat) list option option" where
  "signature_row S r =
     (case idx (ds_rows S) r of None \<Rightarrow> Some None
      | Some entries \<Rightarrow> map_option Some (those (map (\<lambda>entry. map_option (\<lambda>v. (v, order entry)) (idx (ds_variables S) (column entry))) entries)))"

end
