(* ===== verification/Tensor_Offsets.thy ===== *)
theory Tensor_Offsets
  imports Differential_Structure
begin

text \<open>
  Differential orders of whole owners (\<open>differential_structure/tensor_offsets.rs\<close> of
  \<open>rumoca-phase-structural\<close>). The scalar rows of one equation owner and the scalar columns of
  one declaration are ranges; their orders are raised until they are the same throughout a range.
  State selection asks for more orders on top. \<open>None\<close> is a panic.
\<close>

section \<open>Ranges of rows and columns\<close>

type_synonym owner_range = "nat \<times> nat"

datatype StateSelect = Default | Never | Avoid | Prefer | Always

record SelectableView = VariableView +
  continuous_state_select :: "StateSelect option"

record PreferredAdmission =
  admitted_variable :: nat
  raised_owners :: "(nat \<times> nat) list"

record TensorDifferentialOffsets =
  tensor_source :: DifferentialStructure
  tensor_equations :: "nat list"
  tensor_variables :: "nat list"
  tensor_preferred :: "PreferredAdmission list"

record OwnerGroups =
  group_rows :: "owner_range list"
  group_columns :: "owner_range list"

text \<open>The segment \<open>values[range]\<close>, and \<open>values[range].fill(v)\<close>.\<close>

definition segment :: "'a list \<Rightarrow> owner_range \<Rightarrow> 'a list option" where
  "segment values = (\<lambda>(a, b). if a \<le> b \<and> b \<le> length values then Some (take (b - a) (drop a values)) else None)"

definition fill_segment :: "'a list \<Rightarrow> owner_range \<Rightarrow> 'a \<Rightarrow> 'a list option" where
  "fill_segment values = (\<lambda>(a, b) v.
     if a \<le> b \<and> b \<le> length values then Some (take a values @ replicate (b - a) v @ drop b values) else None)"

definition raise :: "nat \<Rightarrow> nat \<Rightarrow> nat \<times> bool" where
  "raise held value = (if value \<le> held then (held, False) else (value, True))"

definition equalize_group :: "nat list \<times> bool \<Rightarrow> owner_range \<Rightarrow> (nat list \<times> bool) option" where
  "equalize_group = (\<lambda>(values, changed) (a, b).
     case segment values (a, b) of None \<Rightarrow> None
     | Some seg \<Rightarrow>
         (let maximum = fold max seg 0; raised = map (\<lambda>v. raise v maximum) seg in
          Some (take a values @ map fst raised @ drop b values, changed \<or> list_ex snd raised)))"

definition equalize :: "nat list \<Rightarrow> owner_range list \<Rightarrow> (nat list \<times> bool) option" where
  "equalize values groups = try_fold equalize_group (values, False) groups"

fun partitions_from :: "nat \<Rightarrow> owner_range list \<Rightarrow> nat \<Rightarrow> bool" where
  "partitions_from stop [] count \<longleftrightarrow> stop = count"
| "partitions_from stop ((a, b) # groups) count \<longleftrightarrow> \<not> (a \<noteq> stop \<or> b < a \<or> b > count) \<and> partitions_from b groups count"

definition partitions :: "owner_range list \<Rightarrow> nat \<Rightarrow> bool" where
  "partitions groups count = partitions_from 0 groups count"

fun uniform :: "nat list \<Rightarrow> owner_range list \<Rightarrow> bool option" where
  "uniform values [] = Some True"
| "uniform values ((a, b) # groups) =
     (case (case idx values a of None \<Rightarrow> Some (b \<le> a)
            | Some first \<Rightarrow> map_option (list_all (\<lambda>v. v = first)) (segment values (a, b))) of
        None \<Rightarrow> None
      | Some True \<Rightarrow> uniform values groups
      | Some False \<Rightarrow> Some False)"

text \<open>The columns of each declaration.\<close>

function column_groups_from :: "DifferentialCoordinate list \<Rightarrow> nat \<Rightarrow> owner_range list" where
  "column_groups_from cs start =
     (if start < length cs
      then (let stop = length (takeWhile (\<lambda>c. coordinate_variable c = coordinate_variable (cs ! start)) (drop start cs)) + start
            in (start, stop) # column_groups_from cs stop)
      else [])"
  by pat_completeness auto

termination
proof (relation "measure (\<lambda>(cs, start). length cs - start)")
  fix cs :: "DifferentialCoordinate list" and start x
  assume s: "start < length cs"
    and x: "x = length (takeWhile (\<lambda>c. coordinate_variable c = coordinate_variable (cs ! start)) (drop start cs)) + start"
  have "drop start cs = cs ! start # drop (Suc start) cs" using s by (simp add: Cons_nth_drop_Suc)
  then have "start < x" unfolding x by simp
  then show "((cs, x), cs, start) \<in> measure (\<lambda>(cs, start). length cs - start)" using s by simp
qed simp

declare column_groups_from.simps [simp del]

definition declaration_column_groups :: "DifferentialStructure \<Rightarrow> owner_range list" where
  "declaration_column_groups S = column_groups_from (ds_variables S) 0"

section \<open>Refinement\<close>

definition relax_order ::
  "nat list \<Rightarrow> bool list \<Rightarrow> nat \<Rightarrow> nat list \<times> bool \<Rightarrow> SignatureEntry \<Rightarrow> (string + nat list \<times> bool) option" where
  "relax_order eqs invariant_columns r = (\<lambda>(vars, changed) entry.
     if invariant_at invariant_columns (column entry) then Ok (vars, changed)
     else case idx eqs r of None \<Rightarrow> None
     | Some offset \<Rightarrow>
         (case chk_u32 (offset + order entry) of None \<Rightarrow> Err ''tensor differential order overflow''
          | Some value \<Rightarrow>
              (case idx vars (column entry) of None \<Rightarrow> Err ''tensor differential signature column is out of range''
               | Some held \<Rightarrow>
                   (case raise held value of (held, r) \<Rightarrow> Ok (vars[column entry := held], changed \<or> r)))))"

definition relax_variable_orders ::
  "nat list \<Rightarrow> nat list \<Rightarrow> SignatureEntry list list \<Rightarrow> bool list \<Rightarrow> (string + nat list \<times> bool) option" where
  "relax_variable_orders eqs vars rows invariant_columns =
     foldQ (\<lambda>s (r, entries). foldQ (relax_order eqs invariant_columns r) s entries) (vars, False) (enumerate 0 rows)"

definition refine_row ::
  "SignatureEntry list list \<Rightarrow> nat list \<Rightarrow> nat list \<times> bool \<Rightarrow> nat \<times> nat \<Rightarrow> (string + nat list \<times> bool) option" where
  "refine_row rows vars = (\<lambda>(eqs, changed) (r, col).
     case idx rows r of None \<Rightarrow> None
     | Some entries \<Rightarrow>
         (case List.find (\<lambda>entry. column entry = col) entries of
            None \<Rightarrow> Err ''tensor differential matching claims an absent edge''
          | Some entry \<Rightarrow>
              (case idx vars col of None \<Rightarrow> None
               | Some variable \<Rightarrow>
                   (if variable < order entry then Err ''negative tensor differential equation order''
                    else case idx eqs r of None \<Rightarrow> None
                    | Some held \<Rightarrow>
                        (case raise held (variable - order entry) of (held, ch) \<Rightarrow> Ok (eqs[r := held], changed \<or> ch))))))"

definition refine_sweep ::
  "SignatureEntry list list \<Rightarrow> nat list \<Rightarrow> OwnerGroups \<Rightarrow> bool list \<Rightarrow> nat list \<times> nat list \<Rightarrow>
   (string + (nat list \<times> nat list) \<times> bool) option" where
  "refine_sweep rows matching groups invariant_columns = (\<lambda>(eqs, vars).
     case equalize eqs (group_rows groups) of None \<Rightarrow> None
     | Some (eqs, ch1) \<Rightarrow>
         bindQ (relax_variable_orders eqs vars rows invariant_columns) (\<lambda>(vars, ch2).
         case equalize vars (group_columns groups) of None \<Rightarrow> None
         | Some (vars, ch3) \<Rightarrow>
             bindQ (foldQ (refine_row rows vars) (eqs, (ch1 \<or> ch2) \<or> ch3) (enumerate 0 matching)) (\<lambda>(eqs, changed).
             Ok ((eqs, vars), changed))))"

fun refine_loop ::
  "SignatureEntry list list \<Rightarrow> nat list \<Rightarrow> OwnerGroups \<Rightarrow> bool list \<Rightarrow> nat \<Rightarrow> nat list \<times> nat list \<Rightarrow>
   (string + (nat list \<times> nat list) option) option" where
  "refine_loop rows matching groups invariant_columns 0 s = Ok None"
| "refine_loop rows matching groups invariant_columns (Suc k) s =
     bindQ (refine_sweep rows matching groups invariant_columns s) (\<lambda>(s, changed).
       if \<not> changed then Ok (Some s) else refine_loop rows matching groups invariant_columns k s)"

definition refine ::
  "SignatureEntry list list \<Rightarrow> nat list \<Rightarrow> nat list \<times> nat list \<Rightarrow> OwnerGroups \<Rightarrow> bool list \<Rightarrow>
   (string + (nat list \<times> nat list) option) option" where
  "refine rows matching = (\<lambda>(eqs, vars) groups invariant_columns.
     if length rows \<noteq> length matching \<or> length rows \<noteq> length eqs \<or> length rows \<noteq> length vars \<or>
        length rows \<noteq> length invariant_columns \<or> \<not> partitions (group_rows groups) (length eqs) \<or>
        \<not> partitions (group_columns groups) (length vars)
     then Err ''tensor differential offset groups do not cover their source views''
     else case chk_usize (length (group_rows groups) + length (group_columns groups)) of
       None \<Rightarrow> Err ''tensor differential owner count overflow''
     | Some nodes \<Rightarrow> refine_loop rows matching groups invariant_columns (Suc nodes) (eqs, vars))"

section \<open>State selection\<close>

definition raised_rows :: "owner_range list \<Rightarrow> nat list \<Rightarrow> nat list \<Rightarrow> (nat \<times> nat) list option" where
  "raised_rows groups next_eqs eqs =
     try_fold (\<lambda>acc (a, b). if b \<le> a then Some acc
       else do { n \<leftarrow> idx next_eqs a; e \<leftarrow> idx eqs a; Some (if n > e then acc @ [(a, e)] else acc) }) [] groups"

text \<open>The state of both selection loops: the orders and the admissions so far.\<close>

type_synonym selection = "(nat list \<times> nat list) \<times> PreferredAdmission list"

definition admit ::
  "DifferentialStructure \<Rightarrow> OwnerGroups \<Rightarrow> owner_range \<Rightarrow> nat list \<times> nat list \<Rightarrow> selection \<Rightarrow> selection option" where
  "admit S groups g next s = do {
     owners \<leftarrow> raised_rows (group_rows groups) (fst next) (fst (fst s));
     c \<leftarrow> idx (ds_variables S) (fst g);
     Some (next, snd s @ [\<lparr>admitted_variable = coordinate_variable c, raised_owners = owners\<rparr>])
   }"

definition admit_group ::
  "DifferentialStructure \<Rightarrow> OwnerGroups \<Rightarrow> (owner_range \<Rightarrow> bool option) \<Rightarrow> selection \<Rightarrow> owner_range \<Rightarrow>
   (string + selection) option" where
  "admit_group S groups requested s g =
     (case idx (snd (fst s)) (fst g) of None \<Rightarrow> None
      | Some v \<Rightarrow>
          (if v > 0 then Ok s
           else case idx (ds_invariant_columns S) (fst g) of None \<Rightarrow> None
           | Some iv \<Rightarrow>
               (if iv then Ok s
                else case requested g of None \<Rightarrow> None
                | Some req \<Rightarrow>
                    (if \<not> req then Ok s
                     else case fill_segment (snd (fst s)) g 1 of None \<Rightarrow> None
                     | Some raised \<Rightarrow>
                         bindQ (refine (ds_rows S) (ds_matching S) (fst (fst s), raised) groups (ds_invariant_columns S)) (\<lambda>found.
                           case found of None \<Rightarrow> Ok s
                           | Some next \<Rightarrow> map_option Inr (admit S groups g next s))))))"

definition admit_preferred ::
  "DifferentialStructure \<Rightarrow> OwnerGroups \<Rightarrow> (owner_range \<Rightarrow> bool option) \<Rightarrow> nat list \<times> nat list \<Rightarrow> (string + selection) option" where
  "admit_preferred S groups requested s = foldQ (admit_group S groups requested) (s, []) (group_columns groups)"

definition FORMAL_ORDER_PROFILE :: nat where
  "FORMAL_ORDER_PROFILE = 2"

definition states_unchanged :: "(nat \<Rightarrow> bool option) \<Rightarrow> nat list \<Rightarrow> nat list \<Rightarrow> bool option" where
  "states_unchanged differentiated next_vars raised =
     try_fold (\<lambda>all (col, (n, current)). if \<not> all then Some False else if n = current then Some True else map_option Not (differentiated col))
       True (enumerate 0 (zip next_vars raised))"

partial_function (option) deepen_loop ::
  "DifferentialStructure \<Rightarrow> OwnerGroups \<Rightarrow> (nat \<Rightarrow> bool option) \<Rightarrow> owner_range \<Rightarrow> selection \<Rightarrow> (string + selection) option" where
  "deepen_loop S groups differentiated g s =
     (case idx (snd (fst s)) (fst g) of None \<Rightarrow> None
      | Some v \<Rightarrow>
          (case fill_segment (snd (fst s)) g ((v + 1) mod 2 ^ 32) of None \<Rightarrow> None
           | Some raised \<Rightarrow>
               (case refine (ds_rows S) (ds_matching S) (fst (fst s), raised) groups (ds_invariant_columns S) of
                  None \<Rightarrow> None
                | Some (Inl m) \<Rightarrow> Err m
                | Some (Inr None) \<Rightarrow> Ok s
                | Some (Inr (Some next)) \<Rightarrow>
                    (case states_unchanged differentiated (snd next) raised of None \<Rightarrow> None
                     | Some unchanged \<Rightarrow>
                         (if \<not> unchanged \<or> list_ex (\<lambda>x. x > FORMAL_ORDER_PROFILE) (fst next)
                          then Ok s
                          else case admit S groups g next s of None \<Rightarrow> None
                          | Some s \<Rightarrow> deepen_loop S groups differentiated g s)))))"

declare deepen_loop.simps [code]

definition deepen_group ::
  "DifferentialStructure \<Rightarrow> OwnerGroups \<Rightarrow> (owner_range \<Rightarrow> bool option) \<Rightarrow> (nat \<Rightarrow> bool option) \<Rightarrow> selection \<Rightarrow> owner_range \<Rightarrow>
   (string + selection) option" where
  "deepen_group S groups requested differentiated s g =
     (case idx (snd (fst s)) (fst g) of None \<Rightarrow> None
      | Some v \<Rightarrow>
          (if v = 0 then Ok s
           else case requested g of None \<Rightarrow> None
           | Some req \<Rightarrow> (if \<not> req then Ok s else deepen_loop S groups differentiated g s)))"

definition deepen_requested ::
  "DifferentialStructure \<Rightarrow> OwnerGroups \<Rightarrow> (owner_range \<Rightarrow> bool option) \<Rightarrow> (nat \<Rightarrow> bool option) \<Rightarrow> nat list \<times> nat list \<Rightarrow>
   (string + selection) option" where
  "deepen_requested S groups requested differentiated s =
     foldQ (deepen_group S groups requested differentiated) (s, []) (group_columns groups)"

section \<open>The analysis of whole owners\<close>

text \<open>What the walk over the rows of one owner reports: it fails, or visits a span per scalar row.\<close>

type_synonym owner_walk = "StructuralError + Span list"

definition owner_row_groups :: "owner_walk list \<Rightarrow> (StructuralError + owner_range list \<times> Span list) option" where
  "owner_row_groups owners =
     foldQ (\<lambda>(groups, spans) owner. case owner of Inl e \<Rightarrow> Err e
       | Inr rs \<Rightarrow> Ok (groups @ [(length spans, length spans + length rs)], spans @ rs)) ([], []) owners"

definition coordinate_view :: "SelectableView list \<Rightarrow> DifferentialStructure \<Rightarrow> nat \<Rightarrow> SelectableView option" where
  "coordinate_view views S col = do { c \<leftarrow> idx (ds_variables S) col; idx views (coordinate_variable c) }"

definition requests :: "SelectableView list \<Rightarrow> DifferentialStructure \<Rightarrow> StateSelect \<Rightarrow> nat \<Rightarrow> bool option" where
  "requests views S request col = map_option (\<lambda>v. continuous_state_select v = Some request) (coordinate_view views S col)"

definition withheld_group :: "DifferentialStructure \<Rightarrow> nat set \<Rightarrow> owner_range \<Rightarrow> bool option" where
  "withheld_group S withheld g = map_option (\<lambda>c. coordinate_variable c \<in> withheld) (idx (ds_variables S) (fst g))"

definition requested_orders :: "SelectableView list \<Rightarrow> DifferentialStructure \<Rightarrow> nat list option" where
  "requested_orders views S =
     those (map (\<lambda>(col, ord). map_option (\<lambda>always. if always then max ord 1 else ord) (requests views S Always col))
       (enumerate 0 (ds_variable_orders S)))"

definition prefers :: "SelectableView list \<Rightarrow> DifferentialStructure \<Rightarrow> nat set \<Rightarrow> owner_range \<Rightarrow> bool option" where
  "prefers views S withheld g =
     (case requests views S Prefer (fst g) of None \<Rightarrow> None
      | Some False \<Rightarrow> Some False
      | Some True \<Rightarrow> map_option Not (withheld_group S withheld g))"

definition undifferentiated :: "SelectableView list \<Rightarrow> DifferentialStructure \<Rightarrow> nat set \<Rightarrow> owner_range \<Rightarrow> bool option" where
  "undifferentiated views S withheld g =
     (case coordinate_view views S (fst g) of None \<Rightarrow> None
      | Some v \<Rightarrow>
          (if variable_role v \<noteq> VariableRole.State \<and> continuous_state_select v \<in> {Some Always, Some Prefer}
           then map_option Not (withheld_group S withheld g) else Some False))"

definition differentiated :: "SelectableView list \<Rightarrow> DifferentialStructure \<Rightarrow> nat \<Rightarrow> bool option" where
  "differentiated views S col =
     (case idx (ds_variables S) col of None \<Rightarrow> None
      | Some c \<Rightarrow> (case idx views (coordinate_variable c) of None \<Rightarrow> Some False
                   | Some v \<Rightarrow> Some (variable_role v = VariableRole.State)))"

definition certificate_holds :: "DifferentialStructure \<Rightarrow> OwnerGroups \<Rightarrow> nat list \<times> nat list \<Rightarrow> bool option" where
  "certificate_holds S groups = (\<lambda>(eqs, vars).
     case certify (ds_rows S) (ds_matching S) eqs vars (ds_invariant_columns S) of None \<Rightarrow> None
     | Some dimension \<Rightarrow>
         (if dimension \<noteq> Inr (ds_formal_dimension S) then Some False
          else case uniform eqs (group_rows groups) of None \<Rightarrow> None
          | Some False \<Rightarrow> Some False
          | Some True \<Rightarrow> uniform vars (group_columns groups)))"

definition analyze_tensor_offsets ::
  "DifferentialStructure \<Rightarrow> SelectableView list \<Rightarrow> owner_walk list \<Rightarrow> nat set \<Rightarrow>
   (StructuralError + TensorDifferentialOffsets option) option" where
  "analyze_tensor_offsets S views owners withheld =
     bindQ (owner_row_groups owners) (\<lambda>(rs, spans).
     let groups = \<lparr>group_rows = rs, group_columns = declaration_column_groups S\<rparr> in
     case requested_orders views S of None \<Rightarrow> None
     | Some vars \<Rightarrow>
     bindQ (with_contract spans
         (refine (ds_rows S) (ds_matching S) (ds_equation_orders S, vars) groups (ds_invariant_columns S))) (\<lambda>found.
     case found of None \<Rightarrow> Ok None
     | Some s \<Rightarrow>
     bindQ (with_contract spans (admit_preferred S groups (prefers views S withheld) s)) (\<lambda>(s, preferred).
     bindQ (with_contract spans
         (deepen_requested S groups (undifferentiated views S withheld) (differentiated views S) s)) (\<lambda>(s, deepened).
     case certificate_holds S groups s of None \<Rightarrow> None
     | Some False \<Rightarrow> Err (contract spans ''tensor differential offset certificate is invalid'')
     | Some True \<Rightarrow>
         Ok (Some \<lparr>tensor_source = S, tensor_equations = fst s, tensor_variables = snd s, tensor_preferred = preferred @ deepened\<rparr>)))))"

end
