(* ===== verification/Differential_Structure_Correct.thy ===== *)
theory Differential_Structure_Correct
  imports Differential_Structure
begin

text \<open>
  The structural differentiation analysis is total on checked input and decides whether every equation
  can own an unknown: a signature row holds the highest order of every unknown mentioned, the
  assignment is the best perfect one, its potentials show that offsets exist, and the
  certificate accepts them. Without columns constant in time the analysis therefore
  succeeds exactly on the square systems with a perfect assignment.
\<close>

section \<open>Signature rows\<close>

definition ascending :: "SignatureEntry list \<Rightarrow> bool" where
  "ascending es \<longleftrightarrow> sorted_wrt (<) (map column es)"

lemma ascending_simps [simp]:
  "ascending []" "ascending (e # es) \<longleftrightarrow> (\<forall>e' \<in> set es. column e < column e') \<and> ascending es"
  by (auto simp: ascending_def)

lemma ascending_distinct: "ascending es \<Longrightarrow> distinct (map column es)"
  by (induction es) auto

text \<open>The set of (column, order) pairs of a row whose orders are the largest demanded.\<close>

definition largest_orders :: "(nat \<times> nat) set \<Rightarrow> (nat \<times> nat) set" where
  "largest_orders D = {(j, k) \<in> D. \<forall>o'. (j, o') \<in> D \<longrightarrow> o' \<le> k}"

abbreviation entry_pairs :: "SignatureEntry list \<Rightarrow> (nat \<times> nat) set" where
  "entry_pairs es \<equiv> (\<lambda>e. (column e, order e)) ` set es"

lemma raise_entry_columns: "column ` set (raise_entry es col ord) = insert col (column ` set es)"
  by (induction es) auto

lemma raise_entry_ascending: "ascending es \<Longrightarrow> ascending (raise_entry es col ord)"
proof (induction es)
  case (Cons e es)
  have "e' \<in> set (raise_entry es col ord) \<Longrightarrow> column e' \<in> insert col (column ` set es)" for e'
    using raise_entry_columns [of es col ord] by blast
  then show ?case using Cons by (auto; fastforce)
qed simp

lemma raise_entry_pairs:
  assumes "ascending es"
  shows "entry_pairs (raise_entry es col ord) =
    {(j, k) \<in> entry_pairs es. j \<noteq> col} \<union>
    {(col, k) | k. (\<forall>k'. (col, k') \<notin> entry_pairs es) \<and> k = ord \<or> (\<exists>k'. (col, k') \<in> entry_pairs es \<and> k = max k' ord)}"
  using assms
proof (induction es)
  case (Cons e es)
  consider "col < column e" | "col = column e" | "column e < col" by linarith
  then show ?case
  proof cases
    case 1
    then have "column x \<noteq> col" if "x \<in> set (e # es)" for x using Cons.prems that by fastforce
    then have no: "(col, k) \<notin> entry_pairs (e # es)" for k by blast
    have "insert (col, ord) E = {(j, k) \<in> E. j \<noteq> col} \<union>
        {(col, k) | k. (\<forall>k'. (col, k') \<notin> E) \<and> k = ord \<or> (\<exists>k'. (col, k') \<in> E \<and> k = max k' ord)}"
      if "\<And>k. (col, k) \<notin> E" for E using that by auto
    from this [OF no] show ?thesis using 1 by simp
  next
    case 2
    then have "column x \<noteq> col" if "x \<in> set es" for x using Cons.prems that by fastforce
    then have no: "(col, k) \<notin> entry_pairs es" for k by blast
    have "insert (col, max a ord) E = {(j, k) \<in> insert (col, a) E. j \<noteq> col} \<union>
        {(col, k) | k. (\<forall>k'. (col, k') \<notin> insert (col, a) E) \<and> k = ord \<or> (\<exists>k'. (col, k') \<in> insert (col, a) E \<and> k = max k' ord)}"
      if "\<And>k. (col, k) \<notin> E" for E a using that by auto
    from this [OF no, of "order e"] show ?thesis using 2 by simp
  next
    case 3
    then have "raise_entry (e # es) col ord = e # raise_entry es col ord" by simp
    then show ?thesis using Cons.IH Cons.prems 3 by auto
  qed
qed auto

lemma raise_entry_largest:
  assumes "ascending es" "entry_pairs es = largest_orders D" and fin: "finite D"
  shows "entry_pairs (raise_entry es col ord) = largest_orders (insert (col, ord) D)"
proof -
  have ex: "\<exists>k'. (col, k') \<in> largest_orders D" if "(col, k) \<in> D" for k
  proof -
    let ?S = "{o'. (col, o') \<in> D}"
    have "?S \<subseteq> snd ` D" by force
    then have "finite ?S" using fin finite_subset by blast
    moreover have "k \<in> ?S" using that by simp
    ultimately have "Max ?S \<in> ?S \<and> (\<forall>o' \<in> ?S. o' \<le> Max ?S)" by (metis Max_ge Max_in empty_iff)
    then show ?thesis unfolding largest_orders_def by blast
  qed
  show ?thesis
    unfolding raise_entry_pairs [OF assms(1)] assms(2)
  proof (intro set_eqI iffI)
    fix p assume p: "p \<in> {(j, k) \<in> largest_orders D. j \<noteq> col} \<union>
      {(col, k) | k. (\<forall>k'. (col, k') \<notin> largest_orders D) \<and> k = ord \<or> (\<exists>k'. (col, k') \<in> largest_orders D \<and> k = max k' ord)}"
    then consider j k where "p = (j, k)" "(j, k) \<in> largest_orders D" "j \<noteq> col"
      | "p = (col, ord)" "\<forall>k'. (col, k') \<notin> largest_orders D"
      | k' where "p = (col, max k' ord)" "(col, k') \<in> largest_orders D" by blast
    then show "p \<in> largest_orders (insert (col, ord) D)"
    proof cases
      case 1
      then show ?thesis by (simp add: largest_orders_def)
    next
      case 2
      then have "(col, k) \<notin> D" for k using ex by blast
      then show ?thesis using 2(1) by (simp add: largest_orders_def)
    next
      case 3
      then show ?thesis by (auto simp: largest_orders_def max_def intro: order_trans)
    qed
  next
    fix p assume "p \<in> largest_orders (insert (col, ord) D)"
    then obtain j k where p: "p = (j, k)" "(j, k) \<in> insert (col, ord) D" "\<And>o'. (j, o') \<in> insert (col, ord) D \<Longrightarrow> o' \<le> k"
      unfolding largest_orders_def by blast
    show "p \<in> {(j, k) \<in> largest_orders D. j \<noteq> col} \<union>
      {(col, k) | k. (\<forall>k'. (col, k') \<notin> largest_orders D) \<and> k = ord \<or> (\<exists>k'. (col, k') \<in> largest_orders D \<and> k = max k' ord)}"
    proof (cases "j = col")
      case False
      then show ?thesis using p unfolding largest_orders_def by blast
    next
      case True
      show ?thesis
      proof (cases "\<exists>k'. (col, k') \<in> largest_orders D")
        case False
        then have "\<And>k. (col, k) \<notin> D" using ex by blast
        then show ?thesis using p True False by auto
      next
        case cD: True
        then obtain k' where k': "(col, k') \<in> D" "\<And>o'. (col, o') \<in> D \<Longrightarrow> o' \<le> k'" "(col, k') \<in> largest_orders D"
          unfolding largest_orders_def by blast
        have "k = max k' ord"
        proof -
          have "k' \<le> k" "ord \<le> k" using p(3) [of k'] p(3) [of ord] k'(1) True by blast+
          moreover have "k = ord \<or> k \<le> k'" using p(2) k'(2) True by blast
          ultimately show ?thesis by linarith
        qed
        then show ?thesis using p(1) True k'(3) by blast
      qed
    qed
  qed
qed

text \<open>What a list of reported coordinates demands.\<close>

definition demanded :: "nat option list \<Rightarrow> (CoordinateView \<times> nat) list \<Rightarrow> (nat \<times> nat) set" where
  "demanded bases cs = {(j, k). \<exists>x s. (x, s) \<in> set cs \<and> coordinate_column bases x s = Some (Some (j, k))}"

lemma demanded_finite [simp]: "finite (demanded bases cs)"
proof -
  have "demanded bases cs \<subseteq> (\<lambda>(x, s). the (the (coordinate_column bases x s))) ` set cs"
    by (force simp: demanded_def)
  then show ?thesis by (rule finite_subset) simp
qed

lemma project_signature_correct:
  assumes "project_signature bases (Inr cs) = Ok es"
  shows "ascending es \<and> entry_pairs es = largest_orders (demanded bases cs)"
proof -
  have "try_fold (project_coordinate bases) [] cs = Some es" using assms by (simp add: project_signature_def)
  then show ?thesis
  proof (induction cs arbitrary: es rule: rev_induct)
    case Nil
    then show ?case by (simp add: demanded_def largest_orders_def)
  next
    case (snoc c cs)
    obtain x s where c: "c = (x, s)" by (cases c)
    obtain es0 where es0: "try_fold (project_coordinate bases) [] cs = Some es0" "project_coordinate bases es0 c = Some es"
      using snoc.prems by (auto simp: try_fold_append split: option.splits)
    note IH = snoc.IH [OF es0(1)]
    obtain found where f: "coordinate_column bases x s = Some found"
      "es = (case found of None \<Rightarrow> es0 | Some (col, ord) \<Rightarrow> raise_entry es0 col ord)"
      using es0(2) c by (auto simp: project_coordinate_def)
    show ?case
    proof (cases found)
      case None
      then have "demanded bases (cs @ [c]) = demanded bases cs" using f c by (auto simp: demanded_def)
      then show ?thesis using IH f None by simp
    next
      case (Some p)
      obtain col ord where p: "p = (col, ord)" by (cases p)
      have "demanded bases (cs @ [c]) = insert (col, ord) (demanded bases cs)" using f c Some p by (auto simp: demanded_def)
      then show ?thesis
        using raise_entry_ascending raise_entry_largest [of es0 "demanded bases cs" col ord] IH f Some p by simp
    qed
  qed
qed

section \<open>Columns\<close>

text \<open>Checked variables: a continuous one has a scalar count within the machine range.\<close>

definition views_ok :: "VariableView list \<Rightarrow> bool" where
  "views_ok views \<longleftrightarrow> (\<forall>w \<in> set views. continuous_role (variable_role w) \<longrightarrow>
     (\<exists>c. variable_scalar_count w = Some c \<and> c \<le> u32_max + 1))"

definition variable_scalars :: "nat \<times> VariableView \<Rightarrow> DifferentialCoordinate list" where
  "variable_scalars = (\<lambda>(v, w). map (\<lambda>s. \<lparr>coordinate_variable = v, coordinate_scalar = s\<rparr>) [0..<the (variable_scalar_count w)])"

definition continuous_views :: "VariableView list \<Rightarrow> (nat \<times> VariableView) list" where
  "continuous_views views = filter (\<lambda>(_, w). continuous_role (variable_role w)) (enumerate 0 views)"

text \<open>The columns in order: every continuous variable, scalar by scalar.\<close>

definition scalar_columns :: "VariableView list \<Rightarrow> DifferentialCoordinate list" where
  "scalar_columns views = concat (map variable_scalars (continuous_views views))"

lemma push_coordinates:
  "c \<le> u32_max + 1 \<Longrightarrow> foldQ (push_coordinate v sp) cols [0..<c] =
     Ok (cols @ map (\<lambda>s. \<lparr>coordinate_variable = v, coordinate_scalar = s\<rparr>) [0..<c])"
  by (induction c) (auto simp: foldQ_append push_coordinate_def chk_u32_def)

lemma push_variables:
  assumes "distinct (map fst xs)" "\<forall>(v, w) \<in> set xs. v < length bases \<and> (\<exists>c. variable_scalar_count w = Some c \<and> c \<le> u32_max + 1)"
  shows "\<exists>bases'. foldQ push_variable (cols, bases) xs = Ok (cols @ concat (map variable_scalars xs), bases') \<and>
    length bases' = length bases \<and> (\<forall>v. v \<notin> fst ` set xs \<longrightarrow> bases' ! v = bases ! v) \<and>
    (\<forall>(v, w) \<in> set xs. \<exists>b. bases' ! v = Some b \<and> (\<forall>s < the (variable_scalar_count w).
       b + s < length (cols @ concat (map variable_scalars xs)) \<and>
       (cols @ concat (map variable_scalars xs)) ! (b + s) = \<lparr>coordinate_variable = v, coordinate_scalar = s\<rparr>))"
  using assms
proof (induction xs arbitrary: cols bases)
  case (Cons x xs)
  obtain v w where x: "x = (v, w)" by (cases x)
  obtain c where c: "variable_scalar_count w = Some c" "c \<le> u32_max + 1" and v: "v < length bases" using Cons.prems(2) x by auto
  let ?bases = "bases[v := Some (length cols)]" and ?cols = "cols @ variable_scalars x"
  have step: "push_variable (cols, bases) x = Ok (?cols, ?bases)"
    using push_coordinates [OF c(2), of v "variable_span w" cols] c(1) v x by (simp add: push_variable_def variable_scalars_def)
  have vx: "v \<notin> fst ` set xs" using Cons.prems(1) x by simp
  from Cons.IH [of ?bases ?cols] Cons.prems obtain bases' where
    b: "foldQ push_variable (?cols, ?bases) xs = Ok (?cols @ concat (map variable_scalars xs), bases')"
      "length bases' = length bases" "\<And>u. u \<notin> fst ` set xs \<Longrightarrow> bases' ! u = ?bases ! u"
      "\<And>u z. (u, z) \<in> set xs \<Longrightarrow> \<exists>b. bases' ! u = Some b \<and> (\<forall>s < the (variable_scalar_count z).
       b + s < length (?cols @ concat (map variable_scalars xs)) \<and>
       (?cols @ concat (map variable_scalars xs)) ! (b + s) = \<lparr>coordinate_variable = u, coordinate_scalar = s\<rparr>)" by fastforce
  have all: "cols @ concat (map variable_scalars (x # xs)) = ?cols @ concat (map variable_scalars xs)" by simp
  have "bases' ! v = Some (length cols)" using b(3) [OF vx] v by simp
  moreover have "length cols + s < length (?cols @ concat (map variable_scalars xs)) \<and>
      (?cols @ concat (map variable_scalars xs)) ! (length cols + s) = \<lparr>coordinate_variable = v, coordinate_scalar = s\<rparr>"
    if "s < the (variable_scalar_count w)" for s
    using that x by (simp add: variable_scalars_def nth_append)
  ultimately have own: "\<exists>b. bases' ! u = Some b \<and> (\<forall>s < the (variable_scalar_count z).
       b + s < length (?cols @ concat (map variable_scalars xs)) \<and>
       (?cols @ concat (map variable_scalars xs)) ! (b + s) = \<lparr>coordinate_variable = u, coordinate_scalar = s\<rparr>)"
    if "(u, z) \<in> set (x # xs)" for u z
    using that b(4) x by auto
  have "bases' ! u = bases ! u" if "u \<notin> fst ` set (x # xs)" for u using that b(3) [of u] x by auto
  then show ?case unfolding all using step b(1,2) own by (intro exI [of _ bases'] conjI) auto
qed auto

lemma enumerate_0_set: "(v, w) \<in> set (enumerate 0 xs) \<longleftrightarrow> v < length xs \<and> w = xs ! v"
  by (auto simp: in_set_enumerate_eq)

lemma continuous_views_set:
  "(v, w) \<in> set (continuous_views views) \<longleftrightarrow> v < length views \<and> w = views ! v \<and> continuous_role (variable_role w)"
  by (auto simp: continuous_views_def enumerate_0_set)

lemma variable_columns_correct:
  assumes "views_ok views"
  obtains bases where "variable_columns views = Ok (scalar_columns views, bases)" "length bases = length views"
    "\<And>v. v < length views \<Longrightarrow> continuous_role (variable_role (views ! v)) \<Longrightarrow>
       \<exists>b c. bases ! v = Some b \<and> variable_scalar_count (views ! v) = Some c \<and>
         (\<forall>s < c. b + s < length (scalar_columns views) \<and> scalar_columns views ! (b + s) = \<lparr>coordinate_variable = v, coordinate_scalar = s\<rparr>)"
    "\<And>v. v < length views \<Longrightarrow> \<not> continuous_role (variable_role (views ! v)) \<Longrightarrow> bases ! v = None"
proof -
  have d: "distinct (map fst (continuous_views views))"
    unfolding continuous_views_def by (rule distinct_map_filter) simp
  have c: "v < length (replicate (length views) (None :: nat option)) \<and> (\<exists>c. variable_scalar_count w = Some c \<and> c \<le> u32_max + 1)"
    if "(v, w) \<in> set (continuous_views views)" for v w
    using that assms by (auto simp: continuous_views_set views_ok_def)
  from push_variables [OF d, of "replicate (length views) None" "[]"] c obtain bases where
    b: "foldQ push_variable ([], replicate (length views) None) (continuous_views views) = Ok (scalar_columns views, bases)"
      "length bases = length views" "\<And>v. v \<notin> fst ` set (continuous_views views) \<Longrightarrow> bases ! v = replicate (length views) None ! v"
      "\<And>v w. (v, w) \<in> set (continuous_views views) \<Longrightarrow> \<exists>b. bases ! v = Some b \<and> (\<forall>s < the (variable_scalar_count w).
       b + s < length (scalar_columns views) \<and> scalar_columns views ! (b + s) = \<lparr>coordinate_variable = v, coordinate_scalar = s\<rparr>)"
    by (fastforce simp: scalar_columns_def)
  show thesis
  proof (rule that [of bases])
    show "variable_columns views = Ok (scalar_columns views, bases)" using b(1) by (simp add: variable_columns_def continuous_views_def)
    show "length bases = length views" by (rule b(2))
    fix v assume v: "v < length views"
    show "\<exists>b c. bases ! v = Some b \<and> variable_scalar_count (views ! v) = Some c \<and>
         (\<forall>s < c. b + s < length (scalar_columns views) \<and> scalar_columns views ! (b + s) = \<lparr>coordinate_variable = v, coordinate_scalar = s\<rparr>)"
      if "continuous_role (variable_role (views ! v))"
      using b(4) [of v "views ! v"] c [of v "views ! v"] that v by (auto simp: continuous_views_set)
    show "bases ! v = None" if "\<not> continuous_role (variable_role (views ! v))"
      using b(3) [of v] that v by (force simp: continuous_views_set)
  qed
qed

lemma scalar_columns_variable: "c \<in> set (scalar_columns views) \<Longrightarrow> coordinate_variable c < length views"
  by (auto simp: scalar_columns_def variable_scalars_def continuous_views_set)

section \<open>Projections and lower bounds\<close>

text \<open>A reported coordinate names a continuous variable and one of its scalars, or is none of the unknowns.\<close>

definition mention_ok :: "VariableView list \<Rightarrow> CoordinateView \<times> nat \<Rightarrow> bool" where
  "mention_ok views = (\<lambda>(x, s). \<forall>v k. coordinate_order x = Some (v, k) \<longrightarrow>
     v < length views \<and> continuous_role (variable_role (views ! v)) \<and> (\<exists>c. variable_scalar_count (views ! v) = Some c \<and> s < c))"

definition projection_ok :: "VariableView list \<Rightarrow> projection \<Rightarrow> bool" where
  "projection_ok views p \<longleftrightarrow> (\<exists>cs. p = Inr cs \<and> (\<forall>c \<in> set cs. mention_ok views c))"

lemma coordinate_order_le: "coordinate_order x = Some (v, k) \<Longrightarrow> k \<le> 1"
  by (auto simp: coordinate_order_def split: CoordinateView.splits)

text \<open>What the columns give a list of coordinates to work with.\<close>

definition bases_ok :: "VariableView list \<Rightarrow> nat option list \<Rightarrow> bool" where
  "bases_ok views bases \<longleftrightarrow> length bases = length views \<and> (\<forall>v < length views. continuous_role (variable_role (views ! v)) \<longrightarrow>
     (\<exists>b c. bases ! v = Some b \<and> variable_scalar_count (views ! v) = Some c \<and>
       (\<forall>s < c. b + s < length (scalar_columns views) \<and>
         scalar_columns views ! (b + s) = \<lparr>coordinate_variable = v, coordinate_scalar = s\<rparr>)))"

lemma coordinate_column_ok:
  assumes b: "bases_ok views bases" and u: "length (scalar_columns views) \<le> usize_max" and m: "mention_ok views (x, s)"
  shows "\<exists>r. coordinate_column bases x s = Some r \<and> (\<forall>j k. r = Some (j, k) \<longrightarrow> j < length (scalar_columns views) \<and> k \<le> 1 \<and>
    (\<exists>v. coordinate_order x = Some (v, k) \<and> scalar_columns views ! j = \<lparr>coordinate_variable = v, coordinate_scalar = s\<rparr>)) \<and>
    (r = None \<longleftrightarrow> coordinate_order x = None)"
proof (cases "coordinate_order x")
  case None
  then show ?thesis by (simp add: coordinate_column_def)
next
  case (Some p)
  obtain v k where p: "coordinate_order x = Some (v, k)" using Some by (cases p) simp
  then obtain c where v: "v < length views" "continuous_role (variable_role (views ! v))" "variable_scalar_count (views ! v) = Some c" "s < c"
    using m by (auto simp: mention_ok_def)
  then obtain a where a: "bases ! v = Some a" "a + s < length (scalar_columns views)"
    "scalar_columns views ! (a + s) = \<lparr>coordinate_variable = v, coordinate_scalar = s\<rparr>" and l: "length bases = length views"
    using b unfolding bases_ok_def by fastforce
  have "coordinate_column bases x s = Some (Some (a + s, k))"
    using p v(1) l a(1,2) u by (simp add: coordinate_column_def chk_usize_def)
  then show ?thesis using a(2,3) p coordinate_order_le [OF p] by simp
qed

lemma project_signature_total:
  assumes b: "bases_ok views bases" and u: "length (scalar_columns views) \<le> usize_max" and p: "projection_ok views p"
  shows "\<exists>es cs. p = Inr cs \<and> project_signature bases p = Ok es \<and> ascending es \<and> entry_pairs es = largest_orders (demanded bases cs) \<and>
    (\<forall>e \<in> set es. column e < length (scalar_columns views) \<and> order e \<le> 1)"
proof -
  obtain cs where cs: "p = Inr cs" "\<And>c. c \<in> set cs \<Longrightarrow> mention_ok views c" using p by (auto simp: projection_ok_def)
  have "\<exists>es'. project_coordinate bases es c = Some es'" if "c \<in> set cs" for es c
    using coordinate_column_ok [OF b u, of "fst c" "snd c"] cs(2) [OF that] by (cases c) (auto simp: project_coordinate_def)
  then obtain es where "try_fold (project_coordinate bases) [] cs = Some es" using try_fold_defined by metis
  then have es: "project_signature bases (Inr cs) = Ok es" by (simp add: project_signature_def)
  note c = project_signature_correct [OF es]
  have "column e < length (scalar_columns views) \<and> order e \<le> 1" if "e \<in> set es" for e
  proof -
    have "(column e, order e) \<in> largest_orders (demanded bases cs)" using c that by blast
    then obtain x s where x: "(x, s) \<in> set cs" "coordinate_column bases x s = Some (Some (column e, order e))"
      by (auto simp: largest_orders_def demanded_def)
    then show ?thesis using coordinate_column_ok [OF b u cs(2) [OF x(1)]] by auto
  qed
  then show ?thesis using cs(1) es c by blast
qed

lemma project_rows_total:
  assumes b: "bases_ok views bases" and u: "length (scalar_columns views) \<le> usize_max" and p: "\<forall>(sp, p) \<in> set owners. projection_ok views p"
  shows "\<exists>rows. project_rows bases owners = Ok (map fst owners, rows) \<and> list_all2 (\<lambda>(sp, p) es. \<exists>cs. p = Inr cs \<and>
      ascending es \<and> entry_pairs es = largest_orders (demanded bases cs) \<and>
      (\<forall>e \<in> set es. column e < length (scalar_columns views) \<and> order e \<le> 1)) owners rows"
proof -
  let ?R = "\<lambda>(sp :: Span, p) es. \<exists>cs. p = Inr cs \<and> ascending es \<and> entry_pairs es = largest_orders (demanded bases cs) \<and>
      (\<forall>e \<in> set es. column e < length (scalar_columns views) \<and> order e \<le> 1)"
  let ?f = "\<lambda>(spans, rows) (span, residual). bindQ (project_signature bases residual) (\<lambda>entries. Ok (spans @ [span], rows @ [entries]))"
  have "\<exists>rows. foldQ ?f (sps, rs) os = Ok (sps @ map fst os, rs @ rows) \<and> list_all2 ?R os rows"
    if "\<forall>(sp, p) \<in> set os. projection_ok views p" for sps rs os
    using that
  proof (induction os arbitrary: sps rs)
    case (Cons o' os)
    obtain sp p where o': "o' = (sp, p)" by (cases o')
    obtain es cs where es: "p = Inr cs" "project_signature bases p = Ok es" "ascending es" "entry_pairs es = largest_orders (demanded bases cs)"
      "\<forall>e \<in> set es. column e < length (scalar_columns views) \<and> order e \<le> 1"
      using project_signature_total [OF b u, of p] Cons.prems o' by auto
    obtain rows where "foldQ ?f (sps @ [sp], rs @ [es]) os = Ok ((sps @ [sp]) @ map fst os, (rs @ [es]) @ rows)" "list_all2 ?R os rows"
      using Cons.IH [of "sps @ [sp]" "rs @ [es]"] Cons.prems by auto
    then show ?case using es o' by (intro exI [of _ "es # rows"]) simp
  qed simp
  from this [OF p, of "[]" "[]"] show ?thesis by (simp add: project_rows_def)
qed

text \<open>A column is marked when an initial equation mentions its derivative.\<close>

definition marked_columns :: "nat option list \<Rightarrow> (CoordinateView \<times> nat) list \<Rightarrow> nat set" where
  "marked_columns bases cs = {j. \<exists>v s. (Derivative v, s) \<in> set cs \<and> coordinate_column bases (Derivative v) s = Some (Some (j, 1))}"

lemma mark_coordinates:
  assumes b: "bases_ok views bases" and u: "length (scalar_columns views) \<le> usize_max" and m: "\<forall>c \<in> set cs. mention_ok views c"
    and l: "length bounds = length (scalar_columns views)"
  shows "\<exists>bounds'. try_fold (mark_coordinate bases) bounds cs = Some bounds' \<and> length bounds' = length bounds \<and>
    (\<forall>j < length bounds. bounds' ! j = (if j \<in> marked_columns bases cs then 1 else bounds ! j))"
  using m l
proof (induction cs arbitrary: bounds)
  case Nil
  then show ?case by (simp add: marked_columns_def)
next
  case (Cons c cs)
  obtain x s where c: "c = (x, s)" by (cases c)
  show ?case
  proof (cases "\<exists>v. x = Derivative v")
    case False
    then have "mark_coordinate bases bounds c = Some bounds" "marked_columns bases (c # cs) = marked_columns bases cs"
      using c by (auto simp: mark_coordinate_def marked_columns_def split: CoordinateView.splits)
    then show ?thesis using Cons.IH [of bounds] Cons.prems by auto
  next
    case True
    then obtain v where v: "x = Derivative v" by blast
    have "mention_ok views (x, s)" using Cons.prems(1) c by simp
    from coordinate_column_ok [OF b u this] obtain j k where
      j: "coordinate_column bases x s = Some (Some (j, k))" "j < length bounds" "coordinate_order x = Some (v, k)"
      using Cons.prems(2) v by (fastforce simp: coordinate_order_def)
    have k: "k = 1" using j(3) v by (simp add: coordinate_order_def)
    have "marked_columns bases (c # cs) = insert j (marked_columns bases cs)" using c v j(1) k by (auto simp: marked_columns_def)
    moreover have "mark_coordinate bases bounds c = Some (bounds[j := 1])" using c v j(1,2) by (simp add: mark_coordinate_def)
    moreover obtain bounds' where "try_fold (mark_coordinate bases) (bounds[j := 1]) cs = Some bounds'" "length bounds' = length bounds"
      "\<forall>i < length bounds. bounds' ! i = (if i \<in> marked_columns bases cs then 1 else bounds[j := 1] ! i)"
      using Cons.IH [of "bounds[j := 1]"] Cons.prems by auto
    ultimately show ?thesis by (auto simp: nth_list_update)
  qed
qed

lemma state_derivative_lower_bounds_correct:
  assumes b: "bases_ok views bases" and u: "length (scalar_columns views) \<le> usize_max" and p: "\<forall>p \<in> set ps. projection_ok views p"
  shows "\<exists>bounds. state_derivative_lower_bounds ps (length (scalar_columns views)) bases = Ok bounds \<and>
    length bounds = length (scalar_columns views) \<and>
    (\<forall>j < length bounds. bounds ! j = (if \<exists>cs. Inr cs \<in> set ps \<and> j \<in> marked_columns bases cs then 1 else 0))"
proof -
  have "\<exists>bounds'. foldQ (mark_initial_derivative_columns bases) bounds ps = Ok bounds' \<and> length bounds' = length bounds \<and>
      (\<forall>j < length bounds. bounds' ! j = (if \<exists>cs. Inr cs \<in> set ps \<and> j \<in> marked_columns bases cs then 1 else bounds ! j))"
    if "\<forall>p \<in> set ps. projection_ok views p" "length bounds = length (scalar_columns views)" for bounds
    using that
  proof (induction ps arbitrary: bounds)
    case (Cons p ps)
    obtain cs where cs: "p = Inr cs" "\<forall>c \<in> set cs. mention_ok views c" using Cons.prems(1) by (auto simp: projection_ok_def)
    obtain b1 where b1: "try_fold (mark_coordinate bases) bounds cs = Some b1" "length b1 = length bounds"
      "\<forall>j < length bounds. b1 ! j = (if j \<in> marked_columns bases cs then 1 else bounds ! j)"
      using mark_coordinates [OF b u cs(2) Cons.prems(2)] by blast
    obtain b2 where b2: "foldQ (mark_initial_derivative_columns bases) b1 ps = Ok b2" "length b2 = length b1"
      "\<forall>j < length b1. b2 ! j = (if \<exists>cs. Inr cs \<in> set ps \<and> j \<in> marked_columns bases cs then 1 else b1 ! j)"
      using Cons.IH [of b1] Cons.prems b1(2) by auto
    have "b2 ! j = (if \<exists>cs. Inr cs \<in> set (p # ps) \<and> j \<in> marked_columns bases cs then 1 else bounds ! j)" if "j < length bounds" for j
      using b2(3) b1(2,3) that cs(1) by auto
    moreover have "mark_initial_derivative_columns bases bounds p = Ok b1"
      using b1(1) cs(1) by (simp add: mark_initial_derivative_columns_def)
    then have "foldQ (mark_initial_derivative_columns bases) bounds (p # ps) = Ok b2" using b2(1) by simp
    ultimately show ?case using b1(2) b2(2) by (intro exI [of _ b2]) simp
  qed simp
  from this [OF p, of "replicate (length (scalar_columns views)) 0"] show ?thesis
    by (auto simp: state_derivative_lower_bounds_def)
qed

section \<open>Perfect assignments\<close>

lemma assigned_pairs_Some: "assigned_pairs (map Some f) = (\<lambda>i. (i, f ! i)) ` {..<length f}"
  by (auto simp: assigned_pairs_def)

lemma assigned_pairs_card: "card (assigned_pairs xs) = matched_count xs"
proof -
  have "assigned_pairs xs = (\<lambda>i. (i, the (xs ! i))) ` {i. i < length xs \<and> xs ! i \<noteq> None}"
    by (force simp: assigned_pairs_def)
  moreover have "inj_on (\<lambda>i. (i, the (xs ! i))) {i. i < length xs \<and> xs ! i \<noteq> None}" by (rule inj_onI) simp
  ultimately have "card (assigned_pairs xs) = card {i. i < length xs \<and> xs ! i \<noteq> None}" using card_image by metis
  then show ?thesis by (simp add: matched_count_def length_filter_conv_card)
qed

lemma perfect_pairs:
  assumes "perfect_in rows f"
  shows "is_assignment rows (assigned_pairs (map Some f))" "card (assigned_pairs (map Some f)) = length rows"
    "assignment_weight rows (assigned_pairs (map Some f)) = matching_weight rows f"
proof -
  have f: "length f = length rows" "distinct f" "\<And>i. i < length rows \<Longrightarrow> matched_entry (rows ! i) (f ! i) \<noteq> None"
    using assms by (simp_all add: perfect_in_def)
  have inj: "inj_on (\<lambda>i. (i, f ! i)) {..<length f}" by (rule inj_onI) simp
  show "card (assigned_pairs (map Some f)) = length rows"
    unfolding assigned_pairs_Some card_image [OF inj] using f(1) by simp
  have "f ! i = f ! j \<Longrightarrow> i = j" if "i < length f" "j < length f" for i j
    using nth_eq_iff_index_eq [OF f(2) that] by simp
  then have "inj_on snd (assigned_pairs (map Some f))" "inj_on fst (assigned_pairs (map Some f))"
    unfolding assigned_pairs_Some by (auto intro!: inj_onI)
  then show "is_assignment rows (assigned_pairs (map Some f))"
    using f(1,3) by (auto simp: is_assignment_def assigned_pairs_Some)
  show "assignment_weight rows (assigned_pairs (map Some f)) = matching_weight rows f"
    unfolding assignment_weight_def assigned_pairs_Some sum.reindex [OF inj] matching_weight_def
    by (simp add: matched_order_def f(1))
qed

lemma pairs_perfect:
  assumes a: "is_assignment rows (assigned_pairs (map Some f))" and l: "length f = length rows" and ok: "columns_ok rows (length rows)"
  shows "perfect_in rows f"
proof -
  have m: "matched_entry (rows ! i) (f ! i) \<noteq> None" if "i < length rows" for i
    using a that l by (auto simp: is_assignment_def assigned_pairs_Some)
  have d: "distinct f"
    unfolding distinct_conv_nth
  proof (intro allI impI)
    fix i j assume ij: "i < length f" "j < length f" "i \<noteq> j"
    have "(i, f ! i) \<in> assigned_pairs (map Some f)" "(j, f ! j) \<in> assigned_pairs (map Some f)" using ij by (auto simp: assigned_pairs_Some)
    moreover have "inj_on snd (assigned_pairs (map Some f))" using a by (simp add: is_assignment_def)
    ultimately show "f ! i \<noteq> f ! j" using ij(3) unfolding inj_on_def by fastforce
  qed
  have "f ! i < length rows" if i: "i < length rows" for i
  proof -
    obtain e where "matched_entry (rows ! i) (f ! i) = Some e" using m [OF i] by blast
    then have "e \<in> set (rows ! i)" "column e = f ! i" using matched_entry_Some by blast+
    then show ?thesis using ok nth_mem [OF i] unfolding columns_ok_def by metis
  qed
  then have "set f \<subseteq> {..<length rows}" using l by (auto simp: in_set_conv_nth)
  then have "set f = {..<length rows}" using d l distinct_card by (metis card_lessThan card_subset_eq finite_lessThan)
  then show ?thesis using d l m by (simp add: perfect_in_def)
qed

definition best_perfect :: "SignatureEntry list list \<Rightarrow> nat list \<Rightarrow> bool" where
  "best_perfect rows f \<longleftrightarrow> perfect_in rows f \<and> (\<forall>g. perfect_in rows g \<longrightarrow> matching_weight rows g \<le> matching_weight rows f)"

lemma those_all:
  assumes "matched_count xs = length xs"
  obtains f where "xs = map Some f" "those xs = Some f"
proof -
  have "length (filter (\<lambda>s. \<not> s \<noteq> None) xs) = 0"
    using sum_length_filter_compl [of "\<lambda>s. s \<noteq> None" xs] assms by (simp add: matched_count_def)
  then have "\<forall>x \<in> set xs. x \<noteq> None" by (simp add: filter_empty_conv)
  then have x: "xs = map Some (map the xs)" by (simp add: map_idI)
  have "those (map Some f) = Some f" for f :: "'a list" by (induction f) simp_all
  then show thesis using that [of "map the xs"] x by metis
qed

text \<open>Values of rows and columns that bound the orders, tight on a perfect assignment, give offsets.\<close>

lemma potentials_admissible:
  assumes p: "perfect_in rows f" and ok: "columns_ok rows (length rows)"
    and le: "\<And>i e. i < length rows \<Longrightarrow> e \<in> set (rows ! i) \<Longrightarrow> int (order e) \<le> v (column e) - u i"
    and eq: "\<And>i. i < length rows \<Longrightarrow> \<exists>e. matched_entry (rows ! i) (f ! i) = Some e \<and> int (order e) = v (f ! i) - u i"
    and lower: "length lower = length rows"
  shows "\<exists>c d. admissible rows f lower (replicate (length rows) False) c d"
proof -
  let ?n = "length rows"
  define K where "K = (\<Sum>i<?n. \<bar>u i\<bar>) + (\<Sum>j<?n. \<bar>v j\<bar>) + (\<Sum>j<?n. int (lower ! j))"
  have member: "g i \<le> (\<Sum>i<?n. g i)" if "i < ?n" "\<And>i. 0 \<le> g i" for g :: "nat \<Rightarrow> int" and i
    by (rule member_le_sum) (use that in auto)
  have nn: "0 \<le> (\<Sum>i<?n. \<bar>u i\<bar>)" "0 \<le> (\<Sum>j<?n. \<bar>v j\<bar>)" "0 \<le> (\<Sum>j<?n. int (lower ! j))" by (simp_all add: sum_nonneg)
  have uK: "0 \<le> u i + K" if "i < ?n" for i
    using member [OF that, of "\<lambda>i. \<bar>u i\<bar>"] nn unfolding K_def by linarith
  have vK: "int (lower ! j) \<le> v j + K" if "j < ?n" for j
    using member [OF that, of "\<lambda>i. \<bar>v i\<bar>"] member [OF that, of "\<lambda>j. int (lower ! j)"] nn unfolding K_def by linarith
  let ?c = "map (\<lambda>i. nat (u i + K)) [0..<?n]" and ?d = "map (\<lambda>j. nat (v j + K)) [0..<?n]"
  have cols: "column e < ?n" if "i < ?n" "e \<in> set (rows ! i)" for i e using ok nth_mem [OF that(1)] that(2) unfolding columns_ok_def by blast
  have "admissible rows f lower (replicate ?n False) ?c ?d"
    unfolding admissible_def
  proof (intro conjI allI impI ballI)
    show "length f = ?n" using p by (simp add: perfect_in_def)
    show "lower ! j \<le> ?d ! j" if "j < ?n" for j using vK [OF that] that by simp
    show "?d ! j = lower ! j" if "j < ?n" "replicate ?n False ! j" for j using that by simp
    show "column e < ?n" "?c ! i + order e \<le> ?d ! column e" if "i < ?n" "e \<in> set (rows ! i)" for i e
      using cols [OF that] le [OF that] uK [OF that(1)] that(1) by simp_all
    show "\<exists>e. matched_entry (rows ! i) (f ! i) = Some e \<and> ?d ! (f ! i) = ?c ! i + order e" if i: "i < ?n" for i
    proof -
      obtain e where e: "matched_entry (rows ! i) (f ! i) = Some e" "int (order e) = v (f ! i) - u i" using eq [OF i] by blast
      have "f ! i < ?n" using matched_entry_Some [OF e(1)] cols [OF i, of e] by simp
      moreover have "nat (v (f ! i) + K) = nat (u i + K) + order e" using e(2) uK [OF i] by linarith
      ultimately show ?thesis using e(1) i by simp
    qed
  qed (use lower in simp_all)
  then show ?thesis by blast
qed

section \<open>What the analysis asks of the assignment\<close>

definition assignable :: "SignatureEntry list list \<Rightarrow> nat \<Rightarrow> bool" where
  "assignable rows m \<longleftrightarrow> (\<forall>es \<in> set rows. distinct (map column es)) \<and> columns_ok rows m \<and>
     length rows + m + 2 \<le> usize_max \<and> int (largest_order rows) * int (length rows + m + 2) < i64_max"

definition best_assignment :: "SignatureEntry list list \<Rightarrow> nat option list \<Rightarrow> bool" where
  "best_assignment rows xs \<longleftrightarrow> length xs = length rows \<and> is_assignment rows (assigned_pairs xs) \<and>
     (\<forall>P. is_assignment rows P \<longrightarrow> card P \<le> card (assigned_pairs xs) \<and>
       (card P = card (assigned_pairs xs) \<longrightarrow> assignment_weight rows P \<le> assignment_weight rows (assigned_pairs xs)))"

text \<open>Prices of the rows and columns that no order exceeds and every assigned order meets.\<close>

definition priced :: "SignatureEntry list list \<Rightarrow> nat option list \<Rightarrow> bool" where
  "priced rows xs \<longleftrightarrow> (\<exists>u v. (\<forall>i < length rows. \<forall>e \<in> set (rows ! i). int (order e) \<le> v (column e) - u i) \<and>
     (\<forall>i j. (i, j) \<in> assigned_pairs xs \<longrightarrow> (\<exists>e. matched_entry (rows ! i) j = Some e \<and> int (order e) = v j - u i)))"

locale weighted_assigner =
  fixes assign :: "SignatureEntry list list \<Rightarrow> nat \<Rightarrow> (string + nat option list) option"
  assumes assign_best: "assignable rows m \<Longrightarrow> \<exists>xs. assign rows m = Ok xs \<and> best_assignment rows xs \<and> priced rows xs"
begin

lemma answer:
  assumes "assignable rows m"
  shows "\<exists>xs. assign rows m = Ok xs \<and> length xs = length rows \<and> (\<forall>j. Some j \<in> set xs \<longrightarrow> j < m) \<and>
    (\<exists>P. is_assignment rows P \<and> card P = matched_count xs) \<and> (\<forall>P. is_assignment rows P \<longrightarrow> card P \<le> matched_count xs)"
proof -
  obtain xs where xs: "assign rows m = Ok xs" "best_assignment rows xs" using assign_best [OF assms] by blast
  have len: "length xs = length rows" and asg: "is_assignment rows (assigned_pairs xs)" using xs(2) by (simp_all add: best_assignment_def)
  have "j < m" if sj: "Some j \<in> set xs" for j
  proof -
    obtain i where i: "i < length rows" "xs ! i = Some j" using sj unfolding in_set_conv_nth len by blast
    then have "(i, j) \<in> assigned_pairs xs" using len by (simp add: assigned_pairs_def)
    then obtain e where "matched_entry (rows ! i) j = Some e" using asg by (fastforce simp: is_assignment_def)
    then have "e \<in> set (rows ! i)" "column e = j" using matched_entry_Some by blast+
    then show ?thesis using assms nth_mem [OF i(1)] by (auto simp: assignable_def columns_ok_def)
  qed
  then show ?thesis using xs len asg assigned_pairs_card [of xs] unfolding best_assignment_def by metis
qed

lemma perfect_answer:
  assumes a: "assignable rows (length rows)" and f: "assign rows (length rows) = Ok (map Some f)"
  shows "best_perfect rows f"
    "length lower = length rows \<Longrightarrow> \<exists>c d. admissible rows f lower (replicate (length rows) False) c d"
proof -
  have xs: "best_assignment rows (map Some f)" "priced rows (map Some f)" using assign_best [OF a] f by auto
  have len: "length f = length rows" and ok: "columns_ok rows (length rows)" using xs(1) a by (simp_all add: best_assignment_def assignable_def)
  have p: "perfect_in rows f" by (rule pairs_perfect [OF _ len ok]) (use xs(1) in \<open>simp add: best_assignment_def\<close>)
  have "matching_weight rows g \<le> matching_weight rows f" if "perfect_in rows g" for g
    using xs(1) perfect_pairs [OF that] perfect_pairs [OF p] unfolding best_assignment_def by metis
  then show "best_perfect rows f" using p by (simp add: best_perfect_def)
  assume lower: "length lower = length rows"
  obtain u v where uv: "\<And>i e. i < length rows \<Longrightarrow> e \<in> set (rows ! i) \<Longrightarrow> int (order e) \<le> v (column e) - u i"
    "\<And>i j. (i, j) \<in> assigned_pairs (map Some f) \<Longrightarrow> \<exists>e. matched_entry (rows ! i) j = Some e \<and> int (order e) = v j - u i"
    using xs(2) unfolding priced_def by blast
  have eq: "\<exists>e. matched_entry (rows ! i) (f ! i) = Some e \<and> int (order e) = v (f ! i) - u i" if "i < length rows" for i
    by (rule uv(2)) (use that len in \<open>auto simp: assigned_pairs_Some\<close>)
  show "\<exists>c d. admissible rows f lower (replicate (length rows) False) c d"
    by (rule potentials_admissible [OF p ok uv(1) eq lower])
qed

end

lemma maximum_weight_matching_assigner:
  assumes "assignable rows m"
  shows "\<exists>xs. maximum_weight_matching rows m = Ok xs \<and> best_assignment rows xs \<and> priced rows xs"
proof -
  have a: "\<forall>es \<in> set rows. distinct (map column es)" "columns_ok rows m" "length rows + m + 2 \<le> usize_max"
    "int (largest_order rows) * int (length rows + m + 2) < i64_max" using assms by (simp_all add: assignable_def)
  obtain xs u v where xs: "maximum_weight_matching rows m = Ok xs" "length xs = length rows" "is_assignment rows (assigned_pairs xs)"
    "\<And>P. is_assignment rows P \<Longrightarrow> card P \<le> card (assigned_pairs xs) \<and>
       (card P = card (assigned_pairs xs) \<longrightarrow> assignment_weight rows P \<le> assignment_weight rows (assigned_pairs xs))"
    "\<And>i e. i < length rows \<Longrightarrow> e \<in> set (rows ! i) \<Longrightarrow> int (order e) \<le> v (column e) - u i"
    "\<And>i j. (i, j) \<in> assigned_pairs xs \<Longrightarrow> \<exists>e. matched_entry (rows ! i) j = Some e \<and> int (order e) = v j - u i"
    by (rule maximum_weight_matching_best [OF a]) (rule that)
  have "best_assignment rows xs" unfolding best_assignment_def using xs(2-4) by blast
  moreover have "priced rows xs" unfolding priced_def using xs(5,6) by blast
  ultimately show ?thesis using xs(1) by blast
qed

interpretation wm: weighted_assigner maximum_weight_matching
  by unfold_locales (rule maximum_weight_matching_assigner)

section \<open>The steps of the analysis\<close>

lemma largest_order_le:
  assumes "\<And>es e. es \<in> set rows \<Longrightarrow> e \<in> set es \<Longrightarrow> order e \<le> L"
  shows "largest_order rows \<le> L"
proof -
  have "fold max xs a \<le> L" if "a \<le> L" "\<forall>x \<in> set xs. x \<le> L" for xs :: "nat list" and a using that by (induction xs arbitrary: a) auto
  then show ?thesis unfolding largest_order_def using assms by auto
qed

lemma require_square_matching_correct:
  assumes cols: "\<forall>c \<in> set cols. coordinate_variable c < length views"
    and xs: "length xs = length rows" "\<And>j. Some j \<in> set xs \<Longrightarrow> j < length cols"
  shows "(\<exists>f. require_square_matching views cols rows xs = Ok f \<and> xs = map Some f \<and> length rows = length cols) \<or>
    ((\<exists>es us sps w. require_square_matching views cols rows xs = Err (Singular (length rows) (length cols) (matched_count xs) es us sps w)) \<and>
      (length rows = length cols \<longrightarrow> matched_count xs \<noteq> length rows))"
proof (cases "matched_count xs = length rows \<and> matched_count xs = length cols")
  case True
  then obtain f where "xs = map Some f" "those xs = Some f" using those_all [of xs] xs(1) by auto
  then show ?thesis using True by (simp add: require_square_matching_def)
next
  case False
  let ?step = "\<lambda>used col. upd used col True"
  have "\<exists>used. try_fold ?step (replicate (length cols) False) (List.map_filter id xs) = Some used \<and> length used = length cols"
    by (rule try_fold_total) (use xs(2) in \<open>auto simp: List.map_filter_def\<close>)
  then obtain used where used: "try_fold ?step (replicate (length cols) False) (List.map_filter id xs) = Some used" by blast
  have "\<exists>labels. unused_labels views cols used = Some labels"
  proof -
    let ?g = "\<lambda>(coordinate, _ :: bool). map_option (\<lambda>variable.
         (variable_name variable @ '' (scalar '' @ show_nat (coordinate_scalar coordinate) @ '')'', variable_span variable))
       (idx views (coordinate_variable coordinate))"
    let ?zs = "filter (\<lambda>(_, u). \<not> u) (zip cols used)"
    have "?g z \<noteq> None" if "z \<in> set ?zs" for z
    proof -
      have "coordinate_variable (fst z) < length views" using that cols by (auto dest: set_zip_leftD)
      then show ?thesis by (simp add: case_prod_beta)
    qed
    then have "\<exists>ys. those (map ?g ?zs) = Some ys" using those_map_None_iff [of ?g ?zs] by blast
    then show ?thesis by (simp add: unused_labels_def)
  qed
  then show ?thesis using used False by (fastforce simp: require_square_matching_def Let_def)
qed

lemma certify_least:
  assumes p: "perfect_in rows f" and ok: "columns_ok rows (length rows)" and adm: "admissible rows f lower iv c d"
    and d: "\<forall>j < length rows. d ! j \<le> u32_max" and n: "length rows \<le> u32_max"
  shows "certify rows f c d iv = Ok (matching_weight rows f)"
proof -
  let ?n = "length rows"
  note a = admissibleD [OF adm]
  have cols: "column e < ?n" if "i < ?n" "e \<in> set (rows ! i)" for i e using ok nth_mem [OF that(1)] that(2) unfolding columns_ok_def by blast
  have "row_certified f c d iv i (rows ! i)" if i: "i < ?n" for i
    unfolding row_certified_def
  proof (intro conjI ballI impI)
    obtain e where e: "matched_entry (rows ! i) (f ! i) = Some e" "d ! (f ! i) = c ! i + order e" using a(5) [OF i] by blast
    show "\<exists>e. matched_entry (rows ! i) (f ! i) = Some e \<and> d ! (f ! i) = c ! i + order e" using e by blast
    show "f ! i < length f" using matched_entry_Some [OF e(1)] cols [OF i, of e] a(1) by auto
    show "column e < length f" if "e \<in> set (rows ! i)" for e using cols [OF i that] a(1) by simp
    show "c ! i + order e \<le> d ! column e" if "e \<in> set (rows ! i)" "\<not> iv ! column e" for e
      using a(3) [OF i that(1)] that(2) invariant_at_less [of iv "column e"] by blast
  qed
  moreover have "sum_list d \<le> usize_max"
  proof -
    have "sum_list d = (\<Sum>j<?n. d ! j)" using a(2) by (simp add: sum_list_nth)
    also have "\<dots> \<le> (\<Sum>j<?n. u32_max)" by (rule sum_mono) (use d in simp)
    also have "\<dots> \<le> u32_max * u32_max" using n by simp
    also have "\<dots> \<le> usize_max" by (simp add: machine_int u32_max_def usize_max_def)
    finally show ?thesis .
  qed
  ultimately show ?thesis using a(1,2) p by (simp add: certify_eq perfect_in_def)
qed

section \<open>The property\<close>

definition signature_rows :: "VariableView list \<Rightarrow> nat option list \<Rightarrow> (Span \<times> projection) list \<Rightarrow> SignatureEntry list list \<Rightarrow> bool" where
  "signature_rows views bases owners rows \<longleftrightarrow> list_all2 (\<lambda>(sp, p) es. \<exists>cs. p = Inr cs \<and>
      ascending es \<and> entry_pairs es = largest_orders (demanded bases cs) \<and>
      (\<forall>e \<in> set es. column e < length (scalar_columns views) \<and> order e \<le> 1)) owners rows"

definition time_invariant :: "(nat \<Rightarrow> bool) \<Rightarrow> VariableView list \<Rightarrow> bool list" where
  "time_invariant invariant views = map (\<lambda>c. invariant (coordinate_variable c)) (scalar_columns views)"

text \<open>
  The lower bounds: one where an initial equation mentions the derivative, and the requested bound of
  the variable where the column is not constant in time.
\<close>

definition lower_bounds :: "VariableView list \<Rightarrow> nat option list \<Rightarrow> projection list \<Rightarrow> (nat \<Rightarrow> bool) \<Rightarrow> nat list \<Rightarrow> nat list \<Rightarrow> bool" where
  "lower_bounds views bases initialization invariant order_bounds lower \<longleftrightarrow> length lower = length (scalar_columns views) \<and>
     (\<forall>j < length lower. let v = coordinate_variable (scalar_columns views ! j) in
        lower ! j = max (if \<exists>cs. Inr cs \<in> set initialization \<and> j \<in> marked_columns bases cs then 1 else 0)
          (if invariant v \<or> length order_bounds \<le> v then 0 else order_bounds ! v))"

lemma raised_bounds:
  assumes "length bounds = length (scalar_columns views)"
    and "\<forall>j < length bounds. bounds ! j = (if \<exists>cs. Inr cs \<in> set ps \<and> j \<in> marked_columns bases cs then 1 else 0)"
  shows "lower_bounds views bases ps invariant order_bounds
    (map (raise_bound order_bounds) (zip (zip bounds (scalar_columns views)) (time_invariant invariant views)))"
  using assms by (auto simp: lower_bounds_def raise_bound_def time_invariant_def Let_def idx_def)

lemma lower_bounds_le:
  assumes "lower_bounds views bases ps invariant order_bounds lower" "\<forall>b \<in> set order_bounds. b \<le> B" "j < length lower"
  shows "lower ! j \<le> B + 1"
proof -
  let ?v = "coordinate_variable (scalar_columns views ! j)"
  have "order_bounds ! ?v \<le> B" if "?v < length order_bounds" using assms(2) nth_mem [OF that] by blast
  then show ?thesis using assms(1,3) by (fastforce simp: lower_bounds_def Let_def max_def)
qed

text \<open>After the assignment: the offsets of a best perfect assignment and their certificate.\<close>

lemma offsets_certified:
  assumes best: "best_perfect rows f" and ok: "columns_ok rows (length rows)" and ord: "\<And>es e. es \<in> set rows \<Longrightarrow> e \<in> set es \<Longrightarrow> order e \<le> 1"
    and free: "\<exists>c d. admissible rows f lower (replicate (length rows) False) c d"
    and lower: "\<And>j. j < length rows \<Longrightarrow> lower ! j \<le> B + 1"
    and iv: "length iv = length rows" and big: "B + length rows + 2 \<le> u32_max"
  shows "(\<exists>c d. least_offsets_with_lower_bounds rows f lower iv = Ok (c, d) \<and> least_admissible rows f lower iv c d \<and>
      certify rows f c d iv = Ok (matching_weight rows f)) \<or>
    ((\<exists>m. least_offsets_with_lower_bounds rows f lower iv = Err m) \<and> True \<in> set iv \<and> (\<nexists>c d. admissible rows f lower iv c d))"
proof (cases "\<exists>c d. admissible rows f lower iv c d")
  case True
  then obtain c' d' where adm: "admissible rows f lower iv c' d'" by blast
  have small: "column e < length rows \<and> order e \<le> 1" if "r < length rows" "e \<in> set (rows ! r)" for r e
    using ord [OF nth_mem [OF that(1)] that(2)] ok nth_mem [OF that(1)] that(2) unfolding columns_ok_def by blast
  have "B + 1 + Suc (length rows) * 1 \<le> u32_max" using big by simp
  then have "\<exists>c d. least_offsets_with_lower_bounds rows f lower iv = Ok (c, d) \<and> least_admissible rows f lower iv c d \<and>
      (\<forall>j < length rows. d ! j \<le> u32_max)"
    by (rule least_offsets_total [OF adm, rotated 2]) (fact small, fact lower)
  then obtain c d where
    cd: "least_offsets_with_lower_bounds rows f lower iv = Ok (c, d)" "least_admissible rows f lower iv c d"
      "\<forall>j < length rows. d ! j \<le> u32_max" by blast
  have "certify rows f c d iv = Ok (matching_weight rows f)"
    by (rule certify_least [OF _ ok _ cd(3)]) (use best cd(2) big in \<open>auto simp: best_perfect_def least_admissible_def\<close>)
  then show ?thesis using cd(1,2) by blast
next
  case False
  have "True \<in> set iv"
  proof (rule ccontr)
    assume "True \<notin> set iv"
    then have "iv = replicate (length rows) False" using iv by (metis (full_types) replicate_length_same)
    then show False using False free by blast
  qed
  moreover have "\<exists>m. least_offsets_with_lower_bounds rows f lower iv = Err m"
    by (cases rule: least_offsets_cases [of rows f lower iv]) (use False in \<open>auto simp: least_admissible_def\<close>)
  ultimately show ?thesis using False by blast
qed

text \<open>What the analysis answers, and what each answer says of the signature rows.\<close>

definition structure_of ::
  "VariableView list \<Rightarrow> SignatureEntry list list \<Rightarrow> nat list \<Rightarrow> (nat \<Rightarrow> bool) \<Rightarrow> DifferentialStructure \<Rightarrow> bool" where
  "structure_of views rows lower invariant S \<longleftrightarrow> length rows = length (scalar_columns views) \<and>
     ds_variables S = scalar_columns views \<and> ds_rows S = rows \<and> ds_invariant_columns S = time_invariant invariant views \<and>
     best_perfect rows (ds_matching S) \<and> ds_formal_dimension S = matching_weight rows (ds_matching S) \<and>
     least_admissible rows (ds_matching S) lower (ds_invariant_columns S) (ds_equation_orders S) (ds_variable_orders S)"

definition refusal_of ::
  "VariableView list \<Rightarrow> SignatureEntry list list \<Rightarrow> nat list \<Rightarrow> (nat \<Rightarrow> bool) \<Rightarrow> StructuralError \<Rightarrow> bool" where
  "refusal_of views rows lower invariant e \<longleftrightarrow> (case e of
     EmptySystem \<Rightarrow> rows = [] \<and> scalar_columns views = []
   | Singular n m k _ _ _ _ \<Rightarrow> n = length rows \<and> m = length (scalar_columns views) \<and>
       (\<exists>P. is_assignment rows P \<and> card P = k) \<and> (\<forall>P. is_assignment rows P \<longrightarrow> card P \<le> k) \<and> (n = m \<longrightarrow> k < n)
   | _ \<Rightarrow> True \<in> set (time_invariant invariant views) \<and>
       (\<exists>f. best_perfect rows f \<and> (\<nexists>c d. admissible rows f lower (time_invariant invariant views) c d)))"

lemma structure_lookups:
  assumes S: "structure_of views rows lower invariant S" and ok: "columns_ok rows (length (scalar_columns views))" and r: "r < length rows"
  shows "\<exists>c. matched_variable S r = Some (Some c)"
    "signature_row S r = Some (Some (map (\<lambda>e. (scalar_columns views ! column e, order e)) (rows ! r)))"
proof -
  have d: "length rows = length (scalar_columns views)" "ds_variables S = scalar_columns views" "ds_rows S = rows" "perfect_in rows (ds_matching S)"
    using S by (simp_all add: structure_of_def best_perfect_def)
  have m: "ds_matching S ! r < length rows" "length (ds_matching S) = length rows"
    using d(4) r nth_mem [of r "ds_matching S"] by (auto simp: perfect_in_def)
  then show "\<exists>c. matched_variable S r = Some (Some c)" using r d(1,2) by (simp add: matched_variable_def)
  have "column e < length (scalar_columns views)" if "e \<in> set (rows ! r)" for e using ok nth_mem [OF r] that unfolding columns_ok_def by blast
  then have "those (map (\<lambda>entry. map_option (\<lambda>v. (v, order entry)) (idx (scalar_columns views) (column entry))) (rows ! r)) =
      Some (map (\<lambda>e. (scalar_columns views ! column e, order e)) (rows ! r))"
    unfolding those_map_Some_iff by simp
  then show "signature_row S r = Some (Some (map (\<lambda>e. (scalar_columns views ! column e, order e)) (rows ! r)))"
    using r d(2,3) by (simp add: signature_row_def)
qed

lemma with_contract_simps [simp]:
  "with_contract spans (Ok x) = Ok x" "with_contract spans (Err m) = Err (contract spans m)" "with_contract spans None = None"
  by (simp_all add: with_contract_def)

lemma contract_cases: "(\<exists>sp. contract spans m = ContractViolation m sp) \<or> contract spans m = UnspannedContractViolation m"
  by (auto simp: contract_def split: list.splits)

lemma signature_rows_D:
  assumes "signature_rows views bases owners rows" "es \<in> set rows"
  shows "ascending es" "e \<in> set es \<Longrightarrow> column e < length (scalar_columns views) \<and> order e \<le> 1"
proof -
  obtain i where i: "i < length rows" "es = rows ! i" using assms(2) by (auto simp: in_set_conv_nth)
  obtain sp p where "owners ! i = (sp, p)" by (cases "owners ! i")
  then have "ascending es \<and> (\<forall>e \<in> set es. column e < length (scalar_columns views) \<and> order e \<le> 1)"
    using assms(1) i unfolding signature_rows_def by (auto simp: list_all2_conv_all_nth)
  then show "ascending es" "e \<in> set es \<Longrightarrow> column e < length (scalar_columns views) \<and> order e \<le> 1" by blast+
qed

lemma analysis_cases:
  assumes v: "views_ok views" and o: "\<forall>(sp, p) \<in> set owners. projection_ok views p" and ps: "\<forall>p \<in> set ps. projection_ok views p"
    and u: "int (length owners + length (scalar_columns views) + 2) < i64_max"
    and ob: "\<forall>x \<in> set order_bounds. x \<le> B" and big: "B + length owners + 2 \<le> u32_max"
  shows "\<exists>bases rows lower. variable_columns views = Ok (scalar_columns views, bases) \<and> signature_rows views bases owners rows \<and>
    lower_bounds views bases ps invariant order_bounds lower \<and>
    ((\<exists>S. analyze_differential_structure views owners ps invariant order_bounds = Ok S \<and> structure_of views rows lower invariant S) \<or>
     (\<exists>e. analyze_differential_structure views owners ps invariant order_bounds = Err e \<and> refusal_of views rows lower invariant e))"
proof -
  let ?cols = "scalar_columns views" and ?run = "analyze_differential_structure views owners ps invariant order_bounds"
  obtain bases where bases: "variable_columns views = Ok (?cols, bases)" and b: "bases_ok views bases"
    using variable_columns_correct [OF v] unfolding bases_ok_def by metis
  have us: "length ?cols \<le> usize_max" using u by (simp add: machine_int)
  obtain rows where rows: "project_rows bases owners = Ok (map fst owners, rows)" "signature_rows views bases owners rows"
    using project_rows_total [OF b us o] unfolding signature_rows_def by blast
  note rd = signature_rows_D [OF rows(2)]
  have len: "length rows = length owners" using rows(2) by (simp add: signature_rows_def list_all2_lengthD)
  obtain bounds where bounds: "state_derivative_lower_bounds ps (length ?cols) bases = Ok bounds" "length bounds = length ?cols"
    "\<forall>j < length bounds. bounds ! j = (if \<exists>cs. Inr cs \<in> set ps \<and> j \<in> marked_columns bases cs then 1 else 0)"
    using state_derivative_lower_bounds_correct [OF b us ps] by blast
  define iv where "iv = time_invariant invariant views"
  define lower where "lower = map (raise_bound order_bounds) (zip (zip bounds ?cols) iv)"
  have lb: "lower_bounds views bases ps invariant order_bounds lower"
    unfolding lower_def iv_def by (rule raised_bounds [OF bounds(2,3)])
  have start: "?run = (if rows = [] \<and> ?cols = [] then Err EmptySystem
     else bindQ (with_contract (map fst owners) (maximum_weight_matching rows (length ?cols))) (\<lambda>xs.
     bindQ (require_square_matching views ?cols rows xs) (\<lambda>f.
     bindQ (with_contract (map fst owners) (least_offsets_with_lower_bounds rows f lower iv)) (\<lambda>(c, d).
     bindQ (with_contract (map fst owners) (map_option (case_sum (\<lambda>_. Inl ''differential assignment certificate is invalid'') Inr)
         (certify rows f c d iv))) (\<lambda>dimension.
       Ok \<lparr>ds_variables = ?cols, ds_rows = rows, ds_matching = f, ds_equation_orders = c,
            ds_variable_orders = d, ds_formal_dimension = dimension, ds_invariant_columns = iv\<rparr>)))))"
    unfolding analyze_differential_structure_def bases rows(1) bounds(1) bindQ_simps prod.case Let_def
    by (simp add: lower_def iv_def time_invariant_def)
  show ?thesis
  proof (cases "rows = [] \<and> ?cols = []")
    case True
    then have "refusal_of views rows lower invariant EmptySystem" by (simp add: refusal_of_def)
    moreover have "?run = Err EmptySystem" unfolding start using True by simp
    ultimately show ?thesis using bases rows(2) lb by blast
  next
    case False
    have ds: "\<forall>es \<in> set rows. distinct (map column es)" using rd(1) ascending_distinct by blast
    have ok: "columns_ok rows (length ?cols)" using rd(2) by (simp add: columns_ok_def)
    have lo: "largest_order rows \<le> 1" by (rule largest_order_le) (use rd(2) in blast)
    consider "largest_order rows = 0" | "largest_order rows = 1" using lo by linarith
    then have mag: "int (largest_order rows) * int (length rows + length ?cols + 2) < i64_max"
      by cases (use u len in \<open>simp_all add: i64_max_def\<close>)
    have fits: "length rows + length ?cols + 2 \<le> usize_max" using u len by (simp add: machine_int)
    have asg: "assignable rows (length ?cols)" unfolding assignable_def using ds ok fits mag by blast
    from wm.answer [OF this] obtain xs P where xs: "maximum_weight_matching rows (length ?cols) = Ok xs" "length xs = length rows"
      "is_assignment rows P" "card P = matched_count xs" "\<And>P. is_assignment rows P \<Longrightarrow> card P \<le> matched_count xs"
      and "\<And>j. Some j \<in> set xs \<Longrightarrow> j < length ?cols" by blast
    moreover have "\<forall>c \<in> set ?cols. coordinate_variable c < length views" using scalar_columns_variable by blast
    ultimately have square: "(\<exists>f. require_square_matching views ?cols rows xs = Ok f \<and> xs = map Some f \<and> length rows = length ?cols) \<or>
      ((\<exists>es us sps w. require_square_matching views ?cols rows xs = Err (Singular (length rows) (length ?cols) (matched_count xs) es us sps w)) \<and>
        (length rows = length ?cols \<longrightarrow> matched_count xs \<noteq> length rows))"
      using require_square_matching_correct xs(2) by blast
    then
    show ?thesis
    proof (elim disjE conjE exE)
      fix f assume f: "require_square_matching views ?cols rows xs = Ok f" "xs = map Some f" "length rows = length ?cols"
      have asg': "assignable rows (length rows)" and run': "maximum_weight_matching rows (length rows) = Ok (map Some f)"
        and okn: "columns_ok rows (length rows)" using asg xs(1) ok f(2,3) by simp_all
      have best: "best_perfect rows f" by (rule wm.perfect_answer(1) [OF asg' run'])
      have ll: "length lower = length rows" "\<And>j. j < length rows \<Longrightarrow> lower ! j \<le> B + 1"
        using lb f(3) lower_bounds_le [OF lb ob] by (simp_all add: lower_bounds_def)
      have "length iv = length rows" using f(3) by (simp add: iv_def time_invariant_def)
      from offsets_certified [OF best okn _ wm.perfect_answer(2) [OF asg' run' ll(1)] ll(2) this] rd(2) big len
      consider c d where "least_offsets_with_lower_bounds rows f lower iv = Ok (c, d)" "least_admissible rows f lower iv c d"
          "certify rows f c d iv = Ok (matching_weight rows f)"
        | m where "least_offsets_with_lower_bounds rows f lower iv = Err m" "True \<in> set iv" "\<nexists>c d. admissible rows f lower iv c d"
        by auto
      then show ?thesis
      proof cases
        case (1 c d)
        let ?S = "\<lparr>ds_variables = ?cols, ds_rows = rows, ds_matching = f, ds_equation_orders = c,
            ds_variable_orders = d, ds_formal_dimension = matching_weight rows f, ds_invariant_columns = iv\<rparr>"
        have "?run = Ok ?S" unfolding start if_not_P [OF False] using xs(1) f(1) 1 by simp
        moreover have "structure_of views rows lower invariant ?S"
          using f(3) best 1(2) by (simp add: structure_of_def iv_def)
        ultimately show ?thesis using bases rows(2) lb by blast
      next
        case (2 m)
        have "?run = Err (contract (map fst owners) m)" unfolding start if_not_P [OF False] using xs(1) f(1) 2(1) by simp
        moreover have "refusal_of views rows lower invariant (contract (map fst owners) m)"
          using contract_cases [of "map fst owners" m] best 2(2,3) by (auto simp: refusal_of_def iv_def)
        ultimately show ?thesis using bases rows(2) lb by blast
      qed
    next
      fix es us sps w
      assume s: "require_square_matching views ?cols rows xs = Err (Singular (length rows) (length ?cols) (matched_count xs) es us sps w)"
        "length rows = length ?cols \<longrightarrow> matched_count xs \<noteq> length rows"
      have "?run = Err (Singular (length rows) (length ?cols) (matched_count xs) es us sps w)" unfolding start if_not_P [OF False] using xs(1) s(1) by simp
      moreover have "matched_count xs \<le> length rows" using xs(2) by (simp add: matched_count_def flip: xs(2))
      then have "refusal_of views rows lower invariant (Singular (length rows) (length ?cols) (matched_count xs) es us sps w)"
        using s(2) xs(3-5) by (auto simp: refusal_of_def)
      ultimately show ?thesis using bases rows(2) lb by blast
    qed
  qed
qed

text \<open>C11: On checked input the structural differentiation analysis always answers. Its rows hold, for each
  unknown a scalar equation mentions, the highest order mentioned. If it answers with a
  structure, the matching is a perfect assignment of the largest total order, the formal
  dimension is that total, and the offsets are the least ones above the bounds from initial
  equations and requests. A singular report means that no perfect assignment exists, and its count
  is the largest possible; the empty report that there is nothing to analyse. Any other refusal
  involves a column constant in time and an optimal assignment without admissible offsets, so without
  such columns every square system with a perfect assignment gets its offsets and its certificate.\<close>

theorem analyze_differential_structure_decided:
  assumes "views_ok views" and "\<forall>(sp, p) \<in> set owners. projection_ok views p" and "\<forall>p \<in> set initialization. projection_ok views p"
    and "int (length owners + length (scalar_columns views) + 2) < i64_max"
    and "\<forall>x \<in> set order_bounds. x \<le> B" and "B + length owners + 2 \<le> u32_max"
  shows "\<exists>bases rows lower. variable_columns views = Ok (scalar_columns views, bases) \<and> signature_rows views bases owners rows \<and>
    lower_bounds views bases initialization invariant order_bounds lower \<and>
    (case analyze_differential_structure views owners initialization invariant order_bounds of
       None \<Rightarrow> False
     | Some (Inr S) \<Rightarrow> structure_of views rows lower invariant S
     | Some (Inl e) \<Rightarrow> refusal_of views rows lower invariant e)"
  using analysis_cases [OF assms, of invariant] by fastforce

theorem analyze_differential_structure_decided_witness:
  "\<exists>bases rows lower. variable_columns [\<lparr>variable_name = ''x'', variable_span = (0, 0, 1), variable_role = VariableRole.State, variable_scalar_count = Some 1\<rparr>,
       \<lparr>variable_name = ''y'', variable_span = (0, 2, 3), variable_role = VariableRole.Algebraic, variable_scalar_count = Some 1\<rparr>] =
     Ok (scalar_columns [\<lparr>variable_name = ''x'', variable_span = (0, 0, 1), variable_role = VariableRole.State, variable_scalar_count = Some 1\<rparr>,
       \<lparr>variable_name = ''y'', variable_span = (0, 2, 3), variable_role = VariableRole.Algebraic, variable_scalar_count = Some 1\<rparr>], bases) \<and>
   best_perfect rows [1, 0] \<and> least_admissible rows [1, 0] lower [False, False] [0, 1] [1, 0]"
proof -
  let ?x = "\<lparr>variable_name = ''x'', variable_span = (0, 0, 1), variable_role = VariableRole.State, variable_scalar_count = Some 1\<rparr>"
  let ?y = "\<lparr>variable_name = ''y'', variable_span = (0, 2, 3), variable_role = VariableRole.Algebraic, variable_scalar_count = Some 1\<rparr>"
  let ?os = "[((0, 4, 5), Inr [(Derivative 0, 0), (Algebraic 1, 0)]), ((0, 6, 7), Inr [(State 0, 0), (Time, 0)])] :: (Span \<times> projection) list"
  let ?c = "\<lambda>v. \<lparr>coordinate_variable = v, coordinate_scalar = 0\<rparr>"
  let ?S = "\<lparr>ds_variables = [?c 0, ?c 1], ds_rows = [[\<lparr>column = 0, order = 1\<rparr>, \<lparr>column = 1, order = 0\<rparr>], [\<lparr>column = 0, order = 0\<rparr>]],
    ds_matching = [1, 0], ds_equation_orders = [0, 1], ds_variable_orders = [1, 0], ds_formal_dimension = 0, ds_invariant_columns = [False, False]\<rparr>"
  have run: "analyze_differential_structure [?x, ?y] ?os [] (\<lambda>_. False) [] = Ok ?S" by code_simp
  have cols: "scalar_columns [?x, ?y] = [?c 0, ?c 1]" by code_simp
  have a: "views_ok [?x, ?y]" "\<forall>(sp, p) \<in> set ?os. projection_ok [?x, ?y] p" "\<forall>p \<in> set []. projection_ok [?x, ?y] p"
    "int (length ?os + length (scalar_columns [?x, ?y]) + 2) < i64_max" "\<forall>x \<in> set []. x \<le> (0 :: nat)" "0 + length ?os + 2 \<le> u32_max"
    unfolding cols by (simp_all add: views_ok_def projection_ok_def mention_ok_def coordinate_order_def continuous_role_def machine_int)
  show ?thesis
    using analyze_differential_structure_decided [OF a, of "\<lambda>_. False", unfolded run] by (auto simp: structure_of_def)
qed

end
