(* ===== verification/Tensor_Offsets_Correct.thy ===== *)
theory Tensor_Offsets_Correct
  imports Tensor_Offsets Differential_Structure_Correct
begin

text \<open>
  The refinement finds the least orders above the given ones that are uniform on every owner and
  close the signature, and the number of sweeps it allows is enough: contracted to one node
  per owner a sweep advances every path by a row and a column.
\<close>

section \<open>Ranges\<close>

definition same_group :: "owner_range list \<Rightarrow> nat \<Rightarrow> nat \<Rightarrow> bool" where
  "same_group groups i j \<longleftrightarrow> (\<exists>(a, b) \<in> set groups. a \<le> i \<and> i < b \<and> a \<le> j \<and> j < b)"

definition uniform_on :: "nat list \<Rightarrow> owner_range list \<Rightarrow> bool" where
  "uniform_on xs groups \<longleftrightarrow> (\<forall>i j. same_group groups i j \<longrightarrow> xs ! i = xs ! j)"

lemma same_group_sym: "same_group groups i j \<Longrightarrow> same_group groups j i"
  by (auto simp: same_group_def)

lemma partitions_from_range:
  "partitions_from s groups n \<Longrightarrow> (a, b) \<in> set groups \<Longrightarrow> s \<le> a \<and> a \<le> b \<and> b \<le> n"
  by (induction groups arbitrary: s) fastforce+

lemma partitions_from_le: "partitions_from s groups n \<Longrightarrow> s \<le> n"
  by (cases groups) auto

lemma partitions_from_cover:
  "partitions_from s groups n \<Longrightarrow> s \<le> i \<Longrightarrow> i < n \<Longrightarrow> \<exists>(a, b) \<in> set groups. a \<le> i \<and> i < b"
proof (induction groups arbitrary: s)
  case (Cons g groups)
  obtain a b where g: "g = (a, b)" by (cases g)
  show ?case
  proof (cases "i < b")
    case False
    then have "\<exists>(a, b) \<in> set groups. a \<le> i \<and> i < b" using Cons.IH [of b] Cons.prems g by simp
    then show ?thesis by auto
  qed (use Cons.prems g in auto)
qed simp

lemma same_group_refl: "partitions groups n \<Longrightarrow> i < n \<Longrightarrow> same_group groups i i"
  using partitions_from_cover [of 0 groups n i] by (auto simp: partitions_def same_group_def)

lemma same_group_less: "partitions groups n \<Longrightarrow> same_group groups i j \<Longrightarrow> i < n \<and> j < n"
  using partitions_from_range [of 0 groups n] by (fastforce simp: partitions_def same_group_def)

lemma same_group_above: "partitions_from s groups n \<Longrightarrow> same_group groups i j \<Longrightarrow> s \<le> i \<and> s \<le> j \<and> i < n \<and> j < n"
  using partitions_from_range [of s groups n] unfolding same_group_def by fastforce

lemma same_group_Cons:
  assumes "partitions_from s ((a, b) # groups) n"
  shows "same_group ((a, b) # groups) i j \<longleftrightarrow> (if i < b then a \<le> i \<and> a \<le> j \<and> j < b else same_group groups i j)"
proof -
  have "b \<le> i" if "same_group groups i j" using same_group_above [of b groups n i j] assms that by simp
  moreover have "same_group ((a, b) # groups) i j \<longleftrightarrow> (a \<le> i \<and> i < b \<and> a \<le> j \<and> j < b) \<or> same_group groups i j"
    by (auto simp: same_group_def)
  ultimately show ?thesis by auto
qed

lemma same_group_trans: "partitions groups n \<Longrightarrow> same_group groups i j \<Longrightarrow> same_group groups j k \<Longrightarrow> same_group groups i k"
proof -
  have "partitions_from s groups n \<Longrightarrow> same_group groups i j \<Longrightarrow> same_group groups j k \<Longrightarrow> same_group groups i k" for s
  proof (induction groups arbitrary: s)
    case (Cons g groups)
    obtain a b where g: "g = (a, b)" by (cases g)
    note sg = same_group_Cons [OF Cons.prems(1) [unfolded g]]
    have p: "partitions_from b groups n" using Cons.prems(1) g by simp
    show ?case
    proof (cases "i < b")
      case True
      then have "j < b" "a \<le> i" "a \<le> k" "k < b" using Cons.prems(2,3) by (simp_all add: g sg split: if_splits)
      then show ?thesis using True by (simp add: g sg)
    next
      case False
      then have ij: "same_group groups i j" using Cons.prems(2) by (simp add: g sg)
      then have "\<not> j < b" using same_group_above [OF p ij] by simp
      then have "same_group groups j k" using Cons.prems(3) by (simp add: g sg)
      then show ?thesis using Cons.IH [OF p ij] False by (simp add: g sg)
    qed
  qed (simp add: same_group_def)
  then show "partitions groups n \<Longrightarrow> same_group groups i j \<Longrightarrow> same_group groups j k \<Longrightarrow> same_group groups i k"
    by (simp add: partitions_def)
qed

lemma fold_max_le: "fold max xs a \<le> x \<longleftrightarrow> a \<le> x \<and> (\<forall>v \<in> set xs. v \<le> (x :: nat))"
  by (induction xs arbitrary: a) auto

lemma equalize_groups:
  assumes "partitions_from s groups (length xs)"
  shows "\<exists>ys. try_fold equalize_group (xs, ch) groups = Some (ys, ch \<or> ys \<noteq> xs) \<and> length ys = length xs \<and>
    (\<forall>i < s. ys ! i = xs ! i) \<and> (\<forall>i < length xs. xs ! i \<le> ys ! i) \<and>
    (\<forall>i < length xs. s \<le> i \<longrightarrow> (\<forall>x. ys ! i \<le> x \<longleftrightarrow> (\<forall>j. same_group groups i j \<longrightarrow> xs ! j \<le> x)))"
  using assms
proof (induction groups arbitrary: s xs ch)
  case (Cons g groups)
  obtain b where g: "g = (s, b)" "s \<le> b" "b \<le> length xs" and p: "partitions_from b groups (length xs)"
    using Cons.prems by (cases g) auto
  let ?seg = "take (b - s) (drop s xs)"
  define M where "M = fold max ?seg 0"
  define xs1 where "xs1 = take s xs @ map (\<lambda>v. fst (raise v M)) ?seg @ drop b xs"
  have seg: "segment xs (s, b) = Some ?seg" using g by (simp add: segment_def)
  have M: "M \<le> x \<longleftrightarrow> (\<forall>j. s \<le> j \<and> j < b \<longrightarrow> xs ! j \<le> x)" for x
  proof -
    have "set ?seg = (\<lambda>j. xs ! j) ` {s..<b}"
    proof -
      have "?seg = map ((!) xs) [s..<b]" using g by (intro nth_equalityI) auto
      then show ?thesis by simp
    qed
    then show ?thesis unfolding M_def fold_max_le by auto
  qed
  have Mge: "xs ! j \<le> M" if "s \<le> j" "j < b" for j using M [of M] that by blast
  have fr: "fst (raise v M) = M" if "v \<le> M" for v using that by (auto simp: raise_def)
  have len: "length xs1 = length xs" using g by (simp add: xs1_def)
  have at: "xs1 ! i = (if s \<le> i \<and> i < b then M else xs ! i)" if "i < length xs" for i
    using that g Mge by (auto simp: xs1_def nth_append fr min_def)
  have ch1: "list_ex snd (map (\<lambda>v. raise v M) ?seg) \<longleftrightarrow> xs1 \<noteq> xs"
  proof -
    have sr: "snd (raise v M) \<longleftrightarrow> v < M" for v by (auto simp: raise_def)
    have "list_ex snd (map (\<lambda>v. raise v M) ?seg) \<longleftrightarrow> (\<exists>v \<in> set ?seg. v < M)" by (simp add: list_ex_iff sr)
    also have "\<dots> \<longleftrightarrow> (\<exists>j. s \<le> j \<and> j < b \<and> xs ! j < M)"
    proof -
      have "?seg = map ((!) xs) [s..<b]" using g by (intro nth_equalityI) auto
      then show ?thesis by auto
    qed
    also have "\<dots> \<longleftrightarrow> xs1 \<noteq> xs"
    proof
      assume "\<exists>j. s \<le> j \<and> j < b \<and> xs ! j < M"
      then obtain j where "s \<le> j" "j < b" "xs ! j < M" by blast
      then show "xs1 \<noteq> xs" using at [of j] g(3) by auto
    next
      assume "xs1 \<noteq> xs"
      then obtain j where j: "j < length xs" "xs1 ! j \<noteq> xs ! j" using len by (metis nth_equalityI)
      then have "s \<le> j \<and> j < b \<and> M \<noteq> xs ! j" using at [OF j(1)] by (simp split: if_splits)
      then show "\<exists>j. s \<le> j \<and> j < b \<and> xs ! j < M" using Mge [of j] by (intro exI [of _ j]) simp
    qed
    finally show ?thesis .
  qed
  have step: "equalize_group (xs, ch) g = Some (xs1, ch \<or> xs1 \<noteq> xs)"
    unfolding ch1 [symmetric] using seg by (simp add: equalize_group_def g(1) Let_def M_def o_def xs1_def)
  from Cons.IH [of b xs1 "ch \<or> xs1 \<noteq> xs"] p len obtain ys where
    ys: "try_fold equalize_group (xs1, ch \<or> xs1 \<noteq> xs) groups = Some (ys, (ch \<or> xs1 \<noteq> xs) \<or> ys \<noteq> xs1)" "length ys = length xs"
      "\<And>i. i < b \<Longrightarrow> ys ! i = xs1 ! i" "\<And>i. i < length xs \<Longrightarrow> xs1 ! i \<le> ys ! i"
      "\<And>i x. i < length xs \<Longrightarrow> b \<le> i \<Longrightarrow> ys ! i \<le> x \<longleftrightarrow> (\<forall>j. same_group groups i j \<longrightarrow> xs1 ! j \<le> x)" by auto
  note sg = same_group_Cons [OF Cons.prems [unfolded g(1)]]
  have up: "xs ! i \<le> xs1 ! i" if "i < length xs" for i using at [OF that] Mge [of i] by auto
  have flag: "((ch \<or> xs1 \<noteq> xs) \<or> ys \<noteq> xs1) = (ch \<or> ys \<noteq> xs)"
  proof -
    have "xs1 = xs" if "ys = xs"
    proof (rule nth_equalityI [OF len])
      fix i assume "i < length xs1"
      then have "i < length xs" using len by simp
      then show "xs1 ! i = xs ! i" using up [of i] ys(4) [of i] that by simp
    qed
    then show ?thesis by auto
  qed
  have "ys ! i \<le> x \<longleftrightarrow> (\<forall>j. same_group (g # groups) i j \<longrightarrow> xs ! j \<le> x)" if i: "i < length xs" "s \<le> i" for i x
  proof (cases "i < b")
    case True
    then have "ys ! i = M" using ys(3) at [OF i(1)] i(2) by simp
    then show ?thesis using M [of x] True i(2) by (simp add: g(1) sg)
  next
    case False
    have "xs1 ! j = xs ! j" if "same_group groups i j" for j
      using at [of j] same_group_above [OF p that] by simp
    then show ?thesis using ys(5) [OF i(1)] False by (auto simp: g(1) sg)
  qed
  moreover have "ys ! i = xs ! i" if "i < s" for i
    using ys(3) [of i] at [of i] that g by simp
  moreover have "xs ! i \<le> ys ! i" if "i < length xs" for i using up [OF that] ys(4) [OF that] by simp
  ultimately show ?case using step ys(1,2) flag by (intro exI [of _ ys]) simp
qed simp

lemma equalize_correct:
  assumes "partitions groups (length xs)"
  obtains ys where "equalize xs groups = Some (ys, ys \<noteq> xs)" "length ys = length xs"
    "\<And>i. i < length xs \<Longrightarrow> xs ! i \<le> ys ! i"
    "\<And>i x. i < length xs \<Longrightarrow> ys ! i \<le> x \<longleftrightarrow> (\<forall>j. same_group groups i j \<longrightarrow> xs ! j \<le> x)"
  using equalize_groups [of 0 groups xs False] assms that by (fastforce simp: partitions_def equalize_def)

section \<open>One sweep\<close>

abbreviation below :: "nat list \<Rightarrow> nat list \<Rightarrow> bool" where
  "below \<equiv> list_all2 (\<le>)"

lemma below_nth: "below xs ys \<longleftrightarrow> length xs = length ys \<and> (\<forall>i < length xs. xs ! i \<le> ys ! i)"
  by (rule list_all2_conv_all_nth)

lemma below_refl [simp]: "below xs xs" by (simp add: below_nth)

lemma below_trans: "below xs ys \<Longrightarrow> below ys zs \<Longrightarrow> below xs zs"
  by (fastforce simp: below_nth intro: order_trans)

lemma below_antisym: "below xs ys \<Longrightarrow> below ys xs \<Longrightarrow> xs = ys"
  unfolding below_nth by (intro nth_equalityI) (auto intro: le_antisym)

lemma grow_flag: "below xs ys \<Longrightarrow> below ys zs \<Longrightarrow> (ys \<noteq> xs \<or> zs \<noteq> ys) = (zs \<noteq> xs)"
  using below_antisym [of xs ys] by auto

text \<open>A loop that only raises values, with and without the flag that a value changed.\<close>

lemma foldQ_flag:
  assumes "\<And>s ch x. x \<in> set xs \<Longrightarrow> (\<exists>s'. f s x = Ok s' \<and> g (s, ch) x = Ok (s', ch \<or> s' \<noteq> s) \<and> below s s') \<or>
      ((\<exists>m. f s x = Err m) \<and> (\<exists>m. g (s, ch) x = Err m))"
  shows "(\<exists>s'. foldQ f s xs = Ok s' \<and> foldQ g (s, ch) xs = Ok (s', ch \<or> s' \<noteq> s) \<and> below s s') \<or>
      ((\<exists>m. foldQ f s xs = Err m) \<and> (\<exists>m. foldQ g (s, ch) xs = Err m))"
  using assms
proof (induction xs arbitrary: s ch)
  case (Cons x xs)
  from Cons.prems [OF list.set_intros(1), of s ch] show ?case
  proof (elim disjE exE conjE)
    fix s' assume x: "f s x = Ok s'" "g (s, ch) x = Ok (s', ch \<or> s' \<noteq> s)" "below s s'"
    have "(\<exists>s''. foldQ f s' xs = Ok s'' \<and> foldQ g (s', ch \<or> s' \<noteq> s) xs = Ok (s'', (ch \<or> s' \<noteq> s) \<or> s'' \<noteq> s') \<and> below s' s'') \<or>
      ((\<exists>m. foldQ f s' xs = Err m) \<and> (\<exists>m. foldQ g (s', ch \<or> s' \<noteq> s) xs = Err m))"
      using Cons.IH [of s' "ch \<or> s' \<noteq> s"] Cons.prems by (meson list.set_intros(2))
    then show ?thesis
    proof (elim disjE exE conjE)
      fix s'' assume s'': "foldQ f s' xs = Ok s''" "foldQ g (s', ch \<or> s' \<noteq> s) xs = Ok (s'', (ch \<or> s' \<noteq> s) \<or> s'' \<noteq> s')" "below s' s''"
      have "((ch \<or> s' \<noteq> s) \<or> s'' \<noteq> s') = (ch \<or> s'' \<noteq> s)" using grow_flag [OF x(3) s''(3)] by blast
      then show ?thesis using x s'' below_trans [OF x(3) s''(3)] by simp
    qed (use x in simp)
  qed auto
qed simp

lemma relax_order_step:
  assumes "r < length eqs"
  shows "(\<exists>vs'. relax_entry eqs iv r vs e = Ok vs' \<and> relax_order eqs iv r (vs, ch) e = Ok (vs', ch \<or> vs' \<noteq> vs) \<and> below vs vs') \<or>
    ((\<exists>m. relax_entry eqs iv r vs e = Err m) \<and> (\<exists>m. relax_order eqs iv r (vs, ch) e = Err m))"
proof -
  consider "invariant_at iv (column e)" | "\<not> invariant_at iv (column e)" "u32_max < eqs ! r + order e"
    | "\<not> invariant_at iv (column e)" "eqs ! r + order e \<le> u32_max" "length vs \<le> column e"
    | "\<not> invariant_at iv (column e)" "eqs ! r + order e \<le> u32_max" "column e < length vs"
    by (meson not_less)
  then show ?thesis
  proof cases
    case 4
    let ?j = "column e" and ?v = "eqs ! r + order e"
    have "vs[?j := max (vs ! ?j) ?v] \<noteq> vs \<longleftrightarrow> \<not> ?v \<le> vs ! ?j"
    proof
      assume "vs[?j := max (vs ! ?j) ?v] \<noteq> vs"
      then show "\<not> ?v \<le> vs ! ?j" by (metis list_update_id max.absorb1)
    next
      assume v: "\<not> ?v \<le> vs ! ?j"
      show "vs[?j := max (vs ! ?j) ?v] \<noteq> vs"
      proof
        assume "vs[?j := max (vs ! ?j) ?v] = vs"
        then have "vs[?j := max (vs ! ?j) ?v] ! ?j = vs ! ?j" by simp
        then show False using 4(3) v by simp
      qed
    qed
    moreover have "below vs (vs[?j := max (vs ! ?j) ?v])" using 4(3) by (auto simp: below_nth nth_list_update)
    ultimately show ?thesis using 4 assms by (simp add: relax_entry_def relax_order_def raise_def max_def chk_u32_def)
  qed (use assms in \<open>auto simp: relax_entry_def relax_order_def chk_u32_def\<close>)
qed

lemma relax_orders:
  assumes "length rows \<le> length eqs"
  shows "(\<exists>vs'. relax_variable_offsets eqs vs rows iv = Ok vs' \<and> relax_variable_orders eqs vs rows iv = Ok (vs', vs' \<noteq> vs) \<and> below vs vs') \<or>
    ((\<exists>m. relax_variable_offsets eqs vs rows iv = Err m) \<and> (\<exists>m. relax_variable_orders eqs vs rows iv = Err m))"
proof -
  let ?f = "\<lambda>vs (r, es). foldQ (relax_entry eqs iv r) vs es" and ?g = "\<lambda>s (r, es). foldQ (relax_order eqs iv r) s es"
  have "(\<exists>s'. ?f s x = Ok s' \<and> ?g (s, ch) x = Ok (s', ch \<or> s' \<noteq> s) \<and> below s s') \<or> ((\<exists>m. ?f s x = Err m) \<and> (\<exists>m. ?g (s, ch) x = Err m))"
    if x: "x \<in> set (enumerate 0 rows)" for s ch x
  proof -
    obtain r es where xe: "x = (r, es)" by (cases x)
    then have "r < length rows" using x by (simp add: enumerate_0_set)
    then have res: "x = (r, es)" "r < length eqs" using xe assms by simp_all
    from foldQ_flag [of es "relax_entry eqs iv r" "relax_order eqs iv r" s ch, OF relax_order_step [OF res(2)]]
    show ?thesis unfolding res(1) prod.case .
  qed
  from foldQ_flag [of "enumerate 0 rows" ?f ?g vs False, OF this] show ?thesis
    unfolding relax_variable_offsets_def relax_variable_orders_def by simp
qed

lemma refine_rows:
  assumes "\<And>i. i < length ms \<Longrightarrow> \<exists>e. matched_entry (rows ! (k + i)) (ms ! i) = Some e \<and> order e \<le> vars ! (ms ! i)"
    and "\<And>i. i < length ms \<Longrightarrow> ms ! i < length vars" and "k + length ms \<le> length rows" "length eqs = length rows"
  shows "\<exists>eqs'. foldQ (refine_row rows vars) (eqs, ch) (enumerate k ms) = Ok (eqs', ch \<or> eqs' \<noteq> eqs) \<and> length eqs' = length eqs \<and>
    (\<forall>i < length eqs. eqs' ! i = (if k \<le> i \<and> i < k + length ms
       then max (eqs ! i) (vars ! (ms ! (i - k)) - order (the (matched_entry (rows ! i) (ms ! (i - k))))) else eqs ! i))"
  using assms
proof (induction ms arbitrary: k eqs ch)
  case (Cons m ms)
  obtain e where e: "matched_entry (rows ! k) m = Some e" "order e \<le> vars ! m" using Cons.prems(1) [of 0] by auto
  have k: "k < length rows" "m < length vars" using Cons.prems(2) [of 0] Cons.prems(3) by auto
  let ?v = "vars ! m - order e"
  define eqs1 where "eqs1 = eqs[k := max (eqs ! k) ?v]"
  have flag: "eqs1 \<noteq> eqs \<longleftrightarrow> \<not> ?v \<le> eqs ! k"
  proof
    assume "eqs1 \<noteq> eqs"
    then show "\<not> ?v \<le> eqs ! k" unfolding eqs1_def by (metis list_update_id max.absorb1)
  next
    assume v: "\<not> ?v \<le> eqs ! k"
    have "eqs1 ! k \<noteq> eqs ! k" using v k(1) Cons.prems(4) by (simp add: eqs1_def)
    then show "eqs1 \<noteq> eqs" by metis
  qed
  have step: "refine_row rows vars (eqs, ch) (k, m) = Ok (eqs1, ch \<or> eqs1 \<noteq> eqs)"
    unfolding flag using e k Cons.prems(4) by (simp add: refine_row_def raise_def eqs1_def max_def flip: matched_entry_def)
  have l1: "length eqs1 = length rows" using Cons.prems(4) by (simp add: eqs1_def)
  have "\<exists>e. matched_entry (rows ! (Suc k + i)) (ms ! i) = Some e \<and> order e \<le> vars ! (ms ! i)" "ms ! i < length vars" if "i < length ms" for i
    using Cons.prems(1,2) [of "Suc i"] that by auto
  from Cons.IH [of "Suc k" eqs1 "ch \<or> eqs1 \<noteq> eqs", OF this _ l1] Cons.prems(3) obtain eqs' where
    r: "foldQ (refine_row rows vars) (eqs1, ch \<or> eqs1 \<noteq> eqs) (enumerate (Suc k) ms) = Ok (eqs', (ch \<or> eqs1 \<noteq> eqs) \<or> eqs' \<noteq> eqs1)"
      "length eqs' = length eqs1"
      "\<And>i. i < length eqs1 \<Longrightarrow> eqs' ! i = (if Suc k \<le> i \<and> i < Suc k + length ms
       then max (eqs1 ! i) (vars ! (ms ! (i - Suc k)) - order (the (matched_entry (rows ! i) (ms ! (i - Suc k))))) else eqs1 ! i)"
    by auto
  have "below eqs eqs1" using Cons.prems(4) k by (auto simp: below_nth eqs1_def nth_list_update)
  moreover have "below eqs1 eqs'" using r(2,3) by (auto simp: below_nth)
  ultimately have f: "((ch \<or> eqs1 \<noteq> eqs) \<or> eqs' \<noteq> eqs1) = (ch \<or> eqs' \<noteq> eqs)" using grow_flag by blast
  have "eqs' ! i = (if k \<le> i \<and> i < k + length (m # ms)
       then max (eqs ! i) (vars ! ((m # ms) ! (i - k)) - order (the (matched_entry (rows ! i) ((m # ms) ! (i - k))))) else eqs ! i)"
    if i: "i < length eqs" for i
  proof (cases "i = k")
    case True
    then show ?thesis using r(3) [of i] l1 k e Cons.prems(4) by (simp add: eqs1_def)
  next
    case False
    then have "eqs1 ! i = eqs ! i" by (simp add: eqs1_def)
    moreover have "k < i \<Longrightarrow> (m # ms) ! (i - k) = ms ! (i - Suc k)" by (simp add: nth_Cons')
    ultimately show ?thesis using r(3) [of i] l1 Cons.prems(4) i False by auto
  qed
  then show ?case using step r(1,2) f l1 Cons.prems(4) by (intro exI [of _ eqs']) simp
qed simp

text \<open>Where a refinement starts: ranges that cover the rows and columns, and a matching of entries
  whose order the column already has.\<close>

definition sweepable :: "SignatureEntry list list \<Rightarrow> nat list \<Rightarrow> OwnerGroups \<Rightarrow> bool list \<Rightarrow> nat list \<Rightarrow> bool" where
  "sweepable rows matching groups iv d0 \<longleftrightarrow> length matching = length rows \<and> length iv = length rows \<and> length d0 = length rows \<and>
     partitions (group_rows groups) (length rows) \<and> partitions (group_columns groups) (length rows) \<and>
     (\<forall>i < length rows. \<forall>e \<in> set (rows ! i). column e < length rows) \<and>
     (\<forall>i < length rows. \<exists>e. matched_entry (rows ! i) (matching ! i) = Some e \<and> order e \<le> d0 ! (matching ! i))"

lemma sweepableD:
  assumes "sweepable rows matching groups iv d0"
  shows "length matching = length rows" "length iv = length rows" "length d0 = length rows"
    "partitions (group_rows groups) (length rows)" "partitions (group_columns groups) (length rows)"
    "i < length rows \<Longrightarrow> e \<in> set (rows ! i) \<Longrightarrow> column e < length rows"
    "i < length rows \<Longrightarrow> \<exists>e. matched_entry (rows ! i) (matching ! i) = Some e \<and> order e \<le> d0 ! (matching ! i)"
    "i < length rows \<Longrightarrow> matching ! i < length rows"
proof -
  show g: "length matching = length rows" "length iv = length rows" "length d0 = length rows"
    "partitions (group_rows groups) (length rows)" "partitions (group_columns groups) (length rows)"
    "i < length rows \<Longrightarrow> e \<in> set (rows ! i) \<Longrightarrow> column e < length rows"
    "i < length rows \<Longrightarrow> \<exists>e. matched_entry (rows ! i) (matching ! i) = Some e \<and> order e \<le> d0 ! (matching ! i)" for i e
    using assms unfolding sweepable_def by blast+
  show "i < length rows \<Longrightarrow> matching ! i < length rows"
    using g(6,7) [of i] matched_entry_Some [of "rows ! i" "matching ! i"] by metis
qed

abbreviation matched_by :: "SignatureEntry list list \<Rightarrow> nat list \<Rightarrow> nat \<Rightarrow> nat" where
  "matched_by rows matching i \<equiv> order (the (matched_entry (rows ! i) (matching ! i)))"

definition sweeps_to ::
  "SignatureEntry list list \<Rightarrow> nat list \<Rightarrow> OwnerGroups \<Rightarrow> bool list \<Rightarrow> nat list \<Rightarrow> nat list \<Rightarrow> nat list \<Rightarrow> nat list \<Rightarrow> nat list \<Rightarrow> bool" where
  "sweeps_to rows matching groups iv c d c1 c2 d2 \<longleftrightarrow> length c1 = length rows \<and> length c2 = length rows \<and> length d2 = length rows \<and>
     below c c1 \<and> below d d2 \<and>
     (\<forall>i < length rows. \<forall>x. c1 ! i \<le> x \<longleftrightarrow> (\<forall>r. same_group (group_rows groups) i r \<longrightarrow> c ! r \<le> x)) \<and>
     (\<forall>j < length rows. \<forall>x. d2 ! j \<le> x \<longleftrightarrow> (\<forall>j'. same_group (group_columns groups) j j' \<longrightarrow> d ! j' \<le> x \<and>
        (\<forall>i < length rows. \<forall>e \<in> set (rows ! i). \<forall>v. demand iv (c1 ! i) e j' v \<longrightarrow> v \<le> x))) \<and>
     (\<forall>i < length rows. c2 ! i = max (c1 ! i) (d2 ! (matching ! i) - matched_by rows matching i))"

lemma refine_sweep_cases:
  assumes s: "sweepable rows matching groups iv d0" and lc: "length c = length rows" and d: "below d0 d"
  obtains (overflow) m c1 i e where "refine_sweep rows matching groups iv (c, d) = Err m" "i < length rows" "e \<in> set (rows ! i)"
      "\<not> invariant_at iv (column e)" "c1 ! i + order e > u32_max"
      "\<And>i x. i < length rows \<Longrightarrow> c1 ! i \<le> x \<longleftrightarrow> (\<forall>r. same_group (group_rows groups) i r \<longrightarrow> c ! r \<le> x)"
  | (ok) c1 c2 d2 where "refine_sweep rows matching groups iv (c, d) = Ok ((c2, d2), c2 \<noteq> c \<or> d2 \<noteq> d)"
      "sweeps_to rows matching groups iv c d c1 c2 d2"
proof -
  note sd = sweepableD [OF s]
  let ?n = "length rows"
  have ld: "length d = ?n" using d sd(3) by (simp add: below_nth)
  obtain c1 where c1: "equalize c (group_rows groups) = Some (c1, c1 \<noteq> c)" "length c1 = ?n" "below c c1"
    "\<And>i x. i < ?n \<Longrightarrow> c1 ! i \<le> x \<longleftrightarrow> (\<forall>r. same_group (group_rows groups) i r \<longrightarrow> c ! r \<le> x)"
    using equalize_correct [of "group_rows groups" c] sd(4) lc by (metis below_nth)
  have le: "0 + ?n \<le> length c1" using c1(2) by simp
  have "length rows \<le> length c1" using c1(2) by simp
  from relax_orders [OF this, of d iv] show thesis
  proof (elim disjE exE conjE, goal_cases)
    case (1 d1)
    from relax_rows [OF le, of iv d] 1(1)
    have char: "\<And>j x. j < ?n \<Longrightarrow> d1 ! j \<le> x \<longleftrightarrow> d ! j \<le> x \<and> (\<forall>i < ?n. \<forall>e \<in> set (rows ! i). \<forall>v. demand iv (c1 ! i) e j v \<longrightarrow> v \<le> x)"
      unfolding relax_variable_offsets_def using ld by auto
    have l1: "length d1 = ?n" using 1(3) ld by (simp add: below_nth)
    obtain d2 where d2: "equalize d1 (group_columns groups) = Some (d2, d2 \<noteq> d1)" "length d2 = ?n" "below d1 d2"
      "\<And>j x. j < ?n \<Longrightarrow> d2 ! j \<le> x \<longleftrightarrow> (\<forall>j'. same_group (group_columns groups) j j' \<longrightarrow> d1 ! j' \<le> x)"
      using equalize_correct [of "group_columns groups" d1] sd(5) l1 by (metis below_nth)
    have dd: "below d d2" using below_trans [OF 1(3) d2(3)] .
    have m: "\<exists>e. matched_entry (rows ! (0 + i)) (matching ! i) = Some e \<and> order e \<le> d2 ! (matching ! i)" "matching ! i < length d2"
      if "i < length matching" for i
    proof -
      have i: "i < ?n" using that sd(1) by simp
      show "matching ! i < length d2" using sd(8) [OF i] d2(2) by simp
      have "d0 ! (matching ! i) \<le> d2 ! (matching ! i)" using below_trans [OF d dd] sd(3) sd(8) [OF i] by (simp add: below_nth)
      then show "\<exists>e. matched_entry (rows ! (0 + i)) (matching ! i) = Some e \<and> order e \<le> d2 ! (matching ! i)"
        using sd(7) [OF i] by (metis add_0 order_trans)
    qed
    have "0 + length matching \<le> ?n" using sd(1) by simp
    from refine_rows [OF m this c1(2), of "((c1 \<noteq> c) \<or> (d1 \<noteq> d)) \<or> (d2 \<noteq> d1)"] obtain c2 where
      c2: "foldQ (refine_row rows d2) (c1, ((c1 \<noteq> c) \<or> (d1 \<noteq> d)) \<or> (d2 \<noteq> d1)) (enumerate 0 matching) =
          Ok (c2, (((c1 \<noteq> c) \<or> (d1 \<noteq> d)) \<or> (d2 \<noteq> d1)) \<or> c2 \<noteq> c1)" "length c2 = ?n"
        "\<And>i. i < ?n \<Longrightarrow> c2 ! i = max (c1 ! i) (d2 ! (matching ! i) - matched_by rows matching i)"
      using c1(2) sd(1) by auto
    have "below c1 c2" using c1(2) c2(2,3) by (simp add: below_nth)
    then have flag: "((((c1 \<noteq> c) \<or> (d1 \<noteq> d)) \<or> (d2 \<noteq> d1)) \<or> c2 \<noteq> c1) = (c2 \<noteq> c \<or> d2 \<noteq> d)"
      using grow_flag [OF c1(3)] grow_flag [OF 1(3) d2(3)] by blast
    have run: "refine_sweep rows matching groups iv (c, d) = Ok ((c2, d2), c2 \<noteq> c \<or> d2 \<noteq> d)"
      unfolding flag [symmetric] using c1(1) 1(2) d2(1) c2(1) by (simp add: refine_sweep_def)
    have "d2 ! j \<le> x \<longleftrightarrow> (\<forall>j'. same_group (group_columns groups) j j' \<longrightarrow> d ! j' \<le> x \<and>
        (\<forall>i < ?n. \<forall>e \<in> set (rows ! i). \<forall>v. demand iv (c1 ! i) e j' v \<longrightarrow> v \<le> x))" if "j < ?n" for j x
      unfolding d2(4) [OF that] using char same_group_less [OF sd(5)] by meson
    then have "sweeps_to rows matching groups iv c d c1 c2 d2"
      unfolding sweeps_to_def using c1(2-4) c2(2,3) d2(2) dd by blast
    then show thesis using ok run by blast
  next
    case (2 m m')
    from relax_rows [OF le, of iv d] 2(1)
    obtain i e where i: "i < ?n" "e \<in> set (rows ! i)" "\<not> entry_fits iv ?n (c1 ! i) e"
      unfolding relax_variable_offsets_def using ld by auto
    have "refine_sweep rows matching groups iv (c, d) = Err m'" using c1(1) 2(2) by (simp add: refine_sweep_def)
    moreover have "\<not> invariant_at iv (column e)" "c1 ! i + order e > u32_max"
      using i(3) sd(6) [OF i(1,2)] by (auto simp: entry_fits_def)
    ultimately show thesis using overflow i(1,2) c1(4) by blast
  qed
qed

section \<open>Closed orders\<close>

definition closed_orders ::
  "SignatureEntry list list \<Rightarrow> nat list \<Rightarrow> OwnerGroups \<Rightarrow> bool list \<Rightarrow> nat list \<Rightarrow> nat list \<Rightarrow> bool" where
  "closed_orders rows matching groups iv c d \<longleftrightarrow> length c = length rows \<and> length d = length rows \<and>
     uniform_on c (group_rows groups) \<and> uniform_on d (group_columns groups) \<and>
     (\<forall>i < length rows. \<forall>e \<in> set (rows ! i). \<not> invariant_at iv (column e) \<longrightarrow> c ! i + order e \<le> d ! column e) \<and>
     (\<forall>i < length rows. d ! (matching ! i) \<le> c ! i + matched_by rows matching i)"

lemma closed_ordersD:
  assumes "closed_orders rows matching groups iv c d"
  shows "length c = length rows" "length d = length rows" "same_group (group_rows groups) i r \<Longrightarrow> c ! i = c ! r"
    "same_group (group_columns groups) j k \<Longrightarrow> d ! j = d ! k"
    "i < length rows \<Longrightarrow> e \<in> set (rows ! i) \<Longrightarrow> \<not> invariant_at iv (column e) \<Longrightarrow> c ! i + order e \<le> d ! column e"
    "i < length rows \<Longrightarrow> d ! (matching ! i) \<le> c ! i + matched_by rows matching i"
  using assms unfolding closed_orders_def uniform_on_def by blast+

text \<open>A sweep stays below every closed pair.\<close>

lemma sweep_below:
  assumes s: "sweepable rows matching groups iv d0" and cl: "closed_orders rows matching groups iv c' d'"
    and st: "sweeps_to rows matching groups iv c d c1 c2 d2" and c: "below c c'" and d: "below d d'"
  shows "below c1 c'" "below c2 c'" "below d2 d'"
proof -
  note sd = sweepableD [OF s] and k = closed_ordersD [OF cl]
  let ?n = "length rows"
  have t: "length c1 = ?n" "length c2 = ?n" "length d2 = ?n"
    "\<And>i x. i < ?n \<Longrightarrow> c1 ! i \<le> x \<longleftrightarrow> (\<forall>r. same_group (group_rows groups) i r \<longrightarrow> c ! r \<le> x)"
    "\<And>j x. j < ?n \<Longrightarrow> d2 ! j \<le> x \<longleftrightarrow> (\<forall>j'. same_group (group_columns groups) j j' \<longrightarrow> d ! j' \<le> x \<and>
        (\<forall>i < ?n. \<forall>e \<in> set (rows ! i). \<forall>v. demand iv (c1 ! i) e j' v \<longrightarrow> v \<le> x))"
    "\<And>i. i < ?n \<Longrightarrow> c2 ! i = max (c1 ! i) (d2 ! (matching ! i) - matched_by rows matching i)"
    using st unfolding sweeps_to_def by blast+
  have lc: "length c = ?n" "length d = ?n" using c d k(1,2) by (simp_all add: below_nth)
  have c1: "c1 ! i \<le> c' ! i" if i: "i < ?n" for i
    unfolding t(4) [OF i]
  proof (intro allI impI)
    fix r assume r: "same_group (group_rows groups) i r"
    then have "r < ?n" using same_group_less [OF sd(4)] by blast
    then show "c ! r \<le> c' ! i" using c k(3) [OF r] lc by (simp add: below_nth)
  qed
  then show "below c1 c'" using t(1) k(1) by (simp add: below_nth)
  have d2: "d2 ! j \<le> d' ! j" if j: "j < ?n" for j
    unfolding t(5) [OF j]
  proof (intro allI impI conjI ballI)
    fix j' assume r: "same_group (group_columns groups) j j'"
    then have jn: "j' < ?n" using same_group_less [OF sd(5)] by blast
    then show "d ! j' \<le> d' ! j" using d k(4) [OF r] lc by (simp add: below_nth)
    fix i e v assume i: "i < ?n" "e \<in> set (rows ! i)" "demand iv (c1 ! i) e j' v"
    then have "v = c1 ! i + order e" "column e = j'" "\<not> invariant_at iv (column e)" by (auto simp: demand_def)
    then show "v \<le> d' ! j" using k(5) [OF i(1,2)] c1 [OF i(1)] k(4) [OF r] by simp
  qed
  then show "below d2 d'" using t(3) k(2) by (simp add: below_nth)
  have "c2 ! i \<le> c' ! i" if i: "i < ?n" for i
    using c1 [OF i] d2 [OF sd(8) [OF i]] k(6) [OF i] unfolding t(6) [OF i] by linarith
  then show "below c2 c'" using t(2) k(1) by (simp add: below_nth)
qed

text \<open>A sweep that changes nothing shows that the pair is closed, and a closed pair is not changed.\<close>

lemma sweep_fixed:
  assumes s: "sweepable rows matching groups iv d0" and d: "below d0 d" and st: "sweeps_to rows matching groups iv c d c1 c d"
  shows "closed_orders rows matching groups iv c d"
proof -
  note sd = sweepableD [OF s]
  let ?n = "length rows"
  have t: "length c1 = ?n" "length c = ?n" "length d = ?n" "below c c1"
    "\<And>i x. i < ?n \<Longrightarrow> c1 ! i \<le> x \<longleftrightarrow> (\<forall>r. same_group (group_rows groups) i r \<longrightarrow> c ! r \<le> x)"
    "\<And>j x. j < ?n \<Longrightarrow> d ! j \<le> x \<longleftrightarrow> (\<forall>j'. same_group (group_columns groups) j j' \<longrightarrow> d ! j' \<le> x \<and>
        (\<forall>i < ?n. \<forall>e \<in> set (rows ! i). \<forall>v. demand iv (c1 ! i) e j' v \<longrightarrow> v \<le> x))"
    "\<And>i. i < ?n \<Longrightarrow> c ! i = max (c1 ! i) (d ! (matching ! i) - matched_by rows matching i)"
    using st unfolding sweeps_to_def by blast+
  have "c1 ! i = c ! i" if i: "i < ?n" for i
  proof (rule antisym)
    show "c1 ! i \<le> c ! i" using t(7) [OF i] by simp
    show "c ! i \<le> c1 ! i" using t(2,4) i by (simp add: below_nth)
  qed
  then have c1: "c1 = c" using t(1,2) by (simp add: nth_equalityI)
  have cg: "c ! r \<le> c ! i" if "same_group (group_rows groups) i r" for i r
    using t(5) [of i "c ! i"] that same_group_less [OF sd(4)] unfolding c1 by blast
  have dg: "d ! j' \<le> d ! j \<and> (\<forall>i < ?n. \<forall>e \<in> set (rows ! i). \<forall>v. demand iv (c ! i) e j' v \<longrightarrow> v \<le> d ! j)"
    if "same_group (group_columns groups) j j'" for j j'
    using t(6) [of j "d ! j"] that same_group_less [OF sd(5) that] unfolding c1 by blast
  show ?thesis
    unfolding closed_orders_def uniform_on_def
  proof (intro conjI allI impI ballI)
    show "c ! i = c ! r" if "same_group (group_rows groups) i r" for i r
      using cg [OF that] cg [OF same_group_sym [OF that]] by simp
    show "d ! i = d ! r" if "same_group (group_columns groups) i r" for i r
      using dg [OF that] dg [OF same_group_sym [OF that]] by simp
    show "c ! i + order e \<le> d ! column e" if "i < ?n" "e \<in> set (rows ! i)" "\<not> invariant_at iv (column e)" for i e
    proof -
      have "same_group (group_columns groups) (column e) (column e)" by (rule same_group_refl [OF sd(5) sd(6) [OF that(1,2)]])
      moreover have "demand iv (c ! i) e (column e) (c ! i + order e)" using that(3) by (simp add: demand_def)
      ultimately show ?thesis using dg that(1,2) by blast
    qed
    show "d ! (matching ! i) \<le> c ! i + matched_by rows matching i" if "i < ?n" for i
      using t(7) [OF that] by linarith
  qed (use t in simp_all)
qed

lemma closed_sweep:
  assumes s: "sweepable rows matching groups iv d0" and cl: "closed_orders rows matching groups iv c d"
    and st: "sweeps_to rows matching groups iv c d c1 c2 d2"
  shows "c2 = c" "d2 = d"
proof -
  note b = sweep_below [OF s cl st below_refl below_refl]
  have t: "below c c1" "below d d2" "length c2 = length rows" "length c1 = length rows"
    "\<And>i. i < length rows \<Longrightarrow> c2 ! i = max (c1 ! i) (d2 ! (matching ! i) - matched_by rows matching i)"
    using st unfolding sweeps_to_def by blast+
  have "below c1 c2" using t(3-5) by (simp add: below_nth)
  then show "c2 = c" using below_antisym b(2) below_trans [OF t(1)] by blast
  show "d2 = d" using below_antisym b(3) t(2) by blast
qed

section \<open>The number of sweeps\<close>

definition in_group :: "OwnerGroups \<Rightarrow> nat \<Rightarrow> nat \<Rightarrow> bool" where
  "in_group groups p i \<longleftrightarrow> p < length (group_rows groups) \<and> fst (group_rows groups ! p) \<le> i \<and> i < snd (group_rows groups ! p)"

lemma in_group_same: "in_group groups p i \<Longrightarrow> in_group groups p r \<Longrightarrow> same_group (group_rows groups) i r"
  unfolding in_group_def same_group_def by (metis (mono_tags, lifting) case_prod_beta nth_mem)

lemma same_in_group:
  assumes "same_group (group_rows groups) i r"
  shows "\<exists>p. in_group groups p i \<and> in_group groups p r"
proof -
  obtain a b where ab: "(a, b) \<in> set (group_rows groups)" "a \<le> i" "i < b" "a \<le> r" "r < b" using assms by (auto simp: same_group_def)
  then obtain p where "p < length (group_rows groups)" "group_rows groups ! p = (a, b)" by (auto simp: in_set_conv_nth)
  then show ?thesis using ab by (intro exI [of _ p]) (simp add: in_group_def)
qed

lemma in_group_first: "in_group groups p i \<Longrightarrow> in_group groups p (fst (group_rows groups ! p))"
  by (simp add: in_group_def)

lemma in_group_less: "partitions (group_rows groups) n \<Longrightarrow> in_group groups p i \<Longrightarrow> i < n"
  using in_group_same same_group_less by blast

text \<open>The sweep contracted to the row owners, as an operator on their orders.\<close>

definition owner_bases ::
  "SignatureEntry list list \<Rightarrow> nat list \<Rightarrow> OwnerGroups \<Rightarrow> nat list \<Rightarrow> nat list \<Rightarrow> nat \<Rightarrow> int set" where
  "owner_bases rows matching groups c0 d0 p = insert 0 ({int (c0 ! i) | i. in_group groups p i} \<union>
     {int (d0 ! j) - int (matched_by rows matching i) | i j. in_group groups p i \<and> same_group (group_columns groups) (matching ! i) j})"

definition owner_shifts :: "SignatureEntry list list \<Rightarrow> nat list \<Rightarrow> OwnerGroups \<Rightarrow> bool list \<Rightarrow> nat \<Rightarrow> (nat \<times> int) set" where
  "owner_shifts rows matching groups iv p = {(q, int (order e) - int (matched_by rows matching i)) | q r e i.
     in_group groups p i \<and> in_group groups q r \<and> e \<in> set (rows ! r) \<and> \<not> invariant_at iv (column e) \<and>
     same_group (group_columns groups) (matching ! i) (column e)}"

definition owner_operator ::
  "SignatureEntry list list \<Rightarrow> nat list \<Rightarrow> OwnerGroups \<Rightarrow> bool list \<Rightarrow> nat list \<Rightarrow> nat list \<Rightarrow> (nat \<Rightarrow> int) \<Rightarrow> nat \<Rightarrow> int" where
  "owner_operator rows matching groups iv c0 d0 x p =
     Max (owner_bases rows matching groups c0 d0 p \<union> (\<lambda>(q, w). x q + w) ` owner_shifts rows matching groups iv p)"

lemma owner_sets_finite:
  assumes s: "sweepable rows matching groups iv d0"
  shows "finite (owner_bases rows matching groups c0 d0 p)" "finite (owner_shifts rows matching groups iv p)"
proof -
  note sd = sweepableD [OF s]
  let ?n = "length rows"
  have "{int (c0 ! i) | i. in_group groups p i} \<subseteq> (\<lambda>i. int (c0 ! i)) ` {..<?n}"
    using in_group_less [OF sd(4)] by blast
  then have 1: "finite {int (c0 ! i) | i. in_group groups p i}" by (rule finite_subset) simp
  have "{int (d0 ! j) - int (matched_by rows matching i) | i j. in_group groups p i \<and> same_group (group_columns groups) (matching ! i) j}
      \<subseteq> (\<lambda>(i, j). int (d0 ! j) - int (matched_by rows matching i)) ` ({..<?n} \<times> {..<?n})"
  proof
    fix z assume "z \<in> {int (d0 ! j) - int (matched_by rows matching i) | i j. in_group groups p i \<and> same_group (group_columns groups) (matching ! i) j}"
    then obtain i j where z: "z = int (d0 ! j) - int (matched_by rows matching i)" "in_group groups p i" "same_group (group_columns groups) (matching ! i) j"
      by blast
    have "i < ?n" "j < ?n" using in_group_less [OF sd(4) z(2)] same_group_less [OF sd(5) z(3)] by simp_all
    then show "z \<in> (\<lambda>(i, j). int (d0 ! j) - int (matched_by rows matching i)) ` ({..<?n} \<times> {..<?n})"
      unfolding z(1) by (intro image_eqI [where x = "(i, j)"]) auto
  qed
  then have 2: "finite {int (d0 ! j) - int (matched_by rows matching i) | i j. in_group groups p i \<and> same_group (group_columns groups) (matching ! i) j}"
    by (rule finite_subset) simp
  show "finite (owner_bases rows matching groups c0 d0 p)" unfolding owner_bases_def using 1 2 by simp
  have "owner_shifts rows matching groups iv p \<subseteq>
      (\<lambda>(q, (r, e), i). (q, int (order e) - int (matched_by rows matching i))) `
        ({..<length (group_rows groups)} \<times> (SIGMA r : {..<?n}. set (rows ! r)) \<times> {..<?n})"
  proof
    fix z assume "z \<in> owner_shifts rows matching groups iv p"
    then obtain q r e i where z: "z = (q, int (order e) - int (matched_by rows matching i))" "in_group groups p i" "in_group groups q r"
      "e \<in> set (rows ! r)" unfolding owner_shifts_def by blast
    have "q < length (group_rows groups)" "r < ?n" "i < ?n" using z(2,3) in_group_less [OF sd(4)] by (simp_all add: in_group_def)
    then show "z \<in> (\<lambda>(q, (r, e), i). (q, int (order e) - int (matched_by rows matching i))) `
        ({..<length (group_rows groups)} \<times> (SIGMA r : {..<?n}. set (rows ! r)) \<times> {..<?n})"
      unfolding z(1) using z(4) by (intro image_eqI [where x = "(q, (r, e), i)"]) auto
  qed
  then show "finite (owner_shifts rows matching groups iv p)" by (rule finite_subset) auto
qed

lemma owner_operator_le:
  assumes s: "sweepable rows matching groups iv d0"
  shows "owner_operator rows matching groups iv c0 d0 x p \<le> y \<longleftrightarrow>
    Max (owner_bases rows matching groups c0 d0 p) \<le> y \<and> (\<forall>(q, w) \<in> owner_shifts rows matching groups iv p. x q + w \<le> y)"
    "Max (owner_bases rows matching groups c0 d0 p) \<le> y \<longleftrightarrow> 0 \<le> y \<and> (\<forall>i. in_group groups p i \<longrightarrow> int (c0 ! i) \<le> y) \<and>
       (\<forall>i j. in_group groups p i \<longrightarrow> same_group (group_columns groups) (matching ! i) j \<longrightarrow>
          int (d0 ! j) \<le> y + int (matched_by rows matching i))"
proof -
  have fin: "finite (owner_bases rows matching groups c0 d0 p)" "finite (owner_shifts rows matching groups iv p)"
    by (rule owner_sets_finite [OF s])+
  have ne: "owner_bases rows matching groups c0 d0 p \<noteq> {}" by (simp add: owner_bases_def)
  show "owner_operator rows matching groups iv c0 d0 x p \<le> y \<longleftrightarrow>
    Max (owner_bases rows matching groups c0 d0 p) \<le> y \<and> (\<forall>(q, w) \<in> owner_shifts rows matching groups iv p. x q + w \<le> y)"
    unfolding owner_operator_def using fin ne by (subst Max_le_iff) (auto simp: Max_le_iff)
  have mem: "z \<in> owner_bases rows matching groups c0 d0 p \<longleftrightarrow> z = 0 \<or> (\<exists>i. z = int (c0 ! i) \<and> in_group groups p i) \<or>
      (\<exists>i j. z = int (d0 ! j) - int (matched_by rows matching i) \<and> in_group groups p i \<and> same_group (group_columns groups) (matching ! i) j)" for z
    unfolding owner_bases_def by blast
  have sub: "int a - int b \<le> y \<longleftrightarrow> int a \<le> y + int b" for a b by linarith
  show "Max (owner_bases rows matching groups c0 d0 p) \<le> y \<longleftrightarrow> 0 \<le> y \<and> (\<forall>i. in_group groups p i \<longrightarrow> int (c0 ! i) \<le> y) \<and>
       (\<forall>i j. in_group groups p i \<longrightarrow> same_group (group_columns groups) (matching ! i) j \<longrightarrow>
          int (d0 ! j) \<le> y + int (matched_by rows matching i))"
    unfolding Max_le_iff [OF fin(1) ne] Ball_def mem sub [symmetric] by blast
qed

text \<open>While a closed pair lies above, the contracted iteration stands still after one step per owner.\<close>

lemma owner_iteration_stops:
  assumes s: "sweepable rows matching groups iv d0" and cl: "closed_orders rows matching groups iv c' d'"
    and b: "below c0 c'" "below d0 d'" and p: "p < length (group_rows groups)"
  defines "F \<equiv> owner_operator rows matching groups iv c0 d0"
  shows "(F ^^ Suc (length (group_rows groups))) (\<lambda>_. 0) p = (F ^^ length (group_rows groups)) (\<lambda>_. 0) p"
proof (rule difference_iteration_stops [OF _ _ _ _ _ p])
  note sd = sweepableD [OF s] and k = closed_ordersD [OF cl]
  show "F x p \<le> y \<longleftrightarrow> Max (owner_bases rows matching groups c0 d0 p) \<le> y \<and> (\<forall>(q, w) \<in> owner_shifts rows matching groups iv p. x q + w \<le> y)"
    for x p y unfolding F_def by (rule owner_operator_le(1) [OF s])
  show "q < length (group_rows groups)" if "(q, w) \<in> owner_shifts rows matching groups iv p" for p q w
    using that by (auto simp: owner_shifts_def in_group_def)
  show "0 \<le> F (\<lambda>_. 0) p" for p
    using owner_operator_le(1) [OF s, of c0 "\<lambda>_. 0" p "F (\<lambda>_. 0) p"] owner_operator_le(2) [OF s, of c0 p "F (\<lambda>_. 0) p"] by (simp add: F_def)
  define X where "X = (\<lambda>p. if in_group groups p (fst (group_rows groups ! p)) then int (c' ! fst (group_rows groups ! p)) else 0)"
  show X0: "0 \<le> X p" for p by (simp add: X_def)
  have x: "X p = int (c' ! i)" if "in_group groups p i" for p i
    using k(3) [OF in_group_same [OF that in_group_first [OF that]]] in_group_first [OF that] by (simp add: X_def)
  have c0: "int (c0 ! i) \<le> X p" if "in_group groups p i" for p i
    unfolding x [OF that] using b(1) in_group_less [OF sd(4) that] k(1) by (simp add: below_nth)
  moreover have col: "d' ! j \<le> c' ! i + matched_by rows matching i" if "in_group groups p i" "same_group (group_columns groups) (matching ! i) j" for p i j
    using k(6) [OF in_group_less [OF sd(4) that(1)]] k(4) [OF that(2)] by simp
  moreover have d0: "int (d0 ! j) \<le> X p + int (matched_by rows matching i)"
    if "in_group groups p i" "same_group (group_columns groups) (matching ! i) j" for p i j
  proof -
    have "d0 ! j \<le> d' ! j" using b(2) same_group_less [OF sd(5) that(2)] k(2) by (simp add: below_nth)
    then show ?thesis unfolding x [OF that(1)] using col [OF that] by linarith
  qed
  moreover have sh: "X q + w \<le> X p" if "(q, w) \<in> owner_shifts rows matching groups iv p" for p q w
  proof -
    obtain r e i where z: "in_group groups p i" "in_group groups q r" "e \<in> set (rows ! r)" "\<not> invariant_at iv (column e)"
      "same_group (group_columns groups) (matching ! i) (column e)" "w = int (order e) - int (matched_by rows matching i)"
      using \<open>(q, w) \<in> _\<close> by (auto simp: owner_shifts_def)
    show ?thesis unfolding x [OF z(1)] x [OF z(2)] z(6)
      using k(5) [OF in_group_less [OF sd(4) z(2)] z(3,4)] col [OF z(1,5)] by linarith
  qed
  ultimately show "F X p \<le> X p" for p
    unfolding F_def owner_operator_le [OF s] using X0 by blast
qed

section \<open>The loop\<close>

text \<open>\<open>reached k\<close>: after \<open>k\<close> sweeps the orders are at least the \<open>k\<close>-th contracted iterate, owner by owner.\<close>

definition reached ::
  "SignatureEntry list list \<Rightarrow> nat list \<Rightarrow> OwnerGroups \<Rightarrow> bool list \<Rightarrow> nat list \<Rightarrow> nat list \<Rightarrow> nat \<Rightarrow> nat list \<Rightarrow> nat list \<Rightarrow> bool" where
  "reached rows matching groups iv c0 d0 k c d \<longleftrightarrow> below c0 c \<and> below d0 d \<and>
     (\<forall>p y. 0 \<le> y \<longrightarrow> (\<forall>i. in_group groups p i \<longrightarrow> int (c ! i) \<le> y) \<longrightarrow>
        ((owner_operator rows matching groups iv c0 d0) ^^ k) (\<lambda>_. 0) p \<le> y)"

lemma sweeps_toD:
  assumes "sweeps_to rows matching groups iv c d c1 c2 d2"
  shows "length c1 = length rows" "length c2 = length rows" "length d2 = length rows" "below c c1" "below d d2"
    "i < length rows \<Longrightarrow> c1 ! i \<le> x \<longleftrightarrow> (\<forall>r. same_group (group_rows groups) i r \<longrightarrow> c ! r \<le> x)"
    "j < length rows \<Longrightarrow> d2 ! j \<le> x \<longleftrightarrow> (\<forall>j'. same_group (group_columns groups) j j' \<longrightarrow> d ! j' \<le> x \<and>
        (\<forall>i < length rows. \<forall>e \<in> set (rows ! i). \<forall>v. demand iv (c1 ! i) e j' v \<longrightarrow> v \<le> x))"
    "i < length rows \<Longrightarrow> c2 ! i = max (c1 ! i) (d2 ! (matching ! i) - matched_by rows matching i)"
  using assms unfolding sweeps_to_def by blast+

lemma sweep_grows: "sweeps_to rows matching groups iv c d c1 c2 d2 \<Longrightarrow> below c1 c2"
  using sweeps_toD(1,2,8) [of rows matching groups iv c d c1 c2 d2] by (simp add: below_nth)

lemma sweep_edges:
  assumes s: "sweepable rows matching groups iv d0" and st: "sweeps_to rows matching groups iv c d c1 c2 d2"
  shows "same_group (group_columns groups) j j' \<Longrightarrow> d ! j' \<le> d2 ! j"
    "same_group (group_columns groups) j (column e) \<Longrightarrow> r < length rows \<Longrightarrow> e \<in> set (rows ! r) \<Longrightarrow> \<not> invariant_at iv (column e) \<Longrightarrow>
       c1 ! r + order e \<le> d2 ! j"
    "same_group (group_rows groups) i r \<Longrightarrow> c ! r \<le> c1 ! i"
proof -
  note sd = sweepableD [OF s] and t = sweeps_toD [OF st]
  have d: "d ! j' \<le> d2 ! j \<and> (\<forall>i < length rows. \<forall>e \<in> set (rows ! i). \<forall>v. demand iv (c1 ! i) e j' v \<longrightarrow> v \<le> d2 ! j)"
    if "same_group (group_columns groups) j j'" for j j'
    using t(7) [of j "d2 ! j"] same_group_less [OF sd(5) that] that by blast
  then show "same_group (group_columns groups) j j' \<Longrightarrow> d ! j' \<le> d2 ! j" by blast
  show "c1 ! r + order e \<le> d2 ! j"
    if "same_group (group_columns groups) j (column e)" "r < length rows" "e \<in> set (rows ! r)" "\<not> invariant_at iv (column e)"
  proof -
    have "demand iv (c1 ! r) e (column e) (c1 ! r + order e)" using that(4) by (simp add: demand_def)
    then show ?thesis using d [OF that(1)] that(2,3) by blast
  qed
  show "c ! r \<le> c1 ! i" if "same_group (group_rows groups) i r"
    using t(6) [of i "c1 ! i"] same_group_less [OF sd(4) that] that by blast
qed

lemma reached_equal:
  assumes s: "sweepable rows matching groups iv d0" and r: "reached rows matching groups iv c0 d0 k c d"
    and st: "sweeps_to rows matching groups iv c d c1 c2 d2" and i: "in_group groups p i"
  shows "((owner_operator rows matching groups iv c0 d0) ^^ k) (\<lambda>_. 0) p \<le> int (c1 ! i)"
proof -
  have "int (c ! r) \<le> int (c1 ! i)" if "in_group groups p r" for r
    using sweep_edges(3) [OF s st in_group_same [OF i that]] by simp
  then show ?thesis using r unfolding reached_def by (metis of_nat_0_le_iff)
qed

lemma reached_step:
  assumes s: "sweepable rows matching groups iv d0" and r: "reached rows matching groups iv c0 d0 k c d"
    and st: "sweeps_to rows matching groups iv c d c1 c2 d2"
  shows "reached rows matching groups iv c0 d0 (Suc k) c2 d2"
proof -
  note sd = sweepableD [OF s] and t = sweeps_toD [OF st] and e = sweep_edges [OF s st]
  let ?A = "((owner_operator rows matching groups iv c0 d0) ^^ k) (\<lambda>_. 0)"
  have b: "below c0 c" "below d0 d" using r by (simp_all add: reached_def)
  have b2: "below c0 c2" "below d0 d2"
    using below_trans [OF b(1) below_trans [OF t(4) sweep_grows [OF st]]] below_trans [OF b(2) t(5)] by blast+
  have up: "d2 ! (matching ! i) \<le> c2 ! i + matched_by rows matching i" if "i < length rows" for i using t(8) [OF that] by linarith
  have "owner_operator rows matching groups iv c0 d0 ?A p \<le> y" if y: "0 \<le> y" "\<And>i. in_group groups p i \<Longrightarrow> int (c2 ! i) \<le> y" for p y
    unfolding owner_operator_le [OF s]
  proof (intro conjI allI impI ballI)
    show "0 \<le> y" by (rule y(1))
    show "int (c0 ! i) \<le> y" if "in_group groups p i" for i
    proof -
      have "c0 ! i \<le> c2 ! i" using b2(1) t(2) in_group_less [OF sd(4) that] by (simp add: below_nth)
      then show ?thesis using y(2) [OF that] by linarith
    qed
    show "int (d0 ! j) \<le> y + int (matched_by rows matching i)"
      if "in_group groups p i" "same_group (group_columns groups) (matching ! i) j" for i j
    proof -
      have "d0 ! j \<le> d ! j" using b(2) sd(3) same_group_less [OF sd(5) that(2)] by (simp add: below_nth)
      then show ?thesis using e(1) [OF that(2)] up [OF in_group_less [OF sd(4) that(1)]] y(2) [OF that(1)] by linarith
    qed
    fix z assume "z \<in> owner_shifts rows matching groups iv p"
    then obtain q r a i where z: "z = (q, int (order a) - int (matched_by rows matching i))" "in_group groups p i" "in_group groups q r"
      "a \<in> set (rows ! r)" "\<not> invariant_at iv (column a)" "same_group (group_columns groups) (matching ! i) (column a)"
      unfolding owner_shifts_def by blast
    have "?A q \<le> int (c1 ! r)" by (rule reached_equal [OF s \<open>reached rows matching groups iv c0 d0 k c d\<close> st z(3)])
    moreover have "c1 ! r + order a \<le> d2 ! (matching ! i)" by (rule e(2) [OF z(6) in_group_less [OF sd(4) z(3)] z(4,5)])
    ultimately show "case z of (q, w) \<Rightarrow> ?A q + w \<le> y"
      using up [OF in_group_less [OF sd(4) z(2)]] y(2) [OF z(2)] unfolding z(1) prod.case by linarith
  qed
  then show ?thesis using b2 unfolding reached_def funpow.simps o_def by blast
qed

text \<open>The orders stay below every point that the contracted operator does not raise.\<close>

lemma partitions_from_apart:
  "partitions_from s groups n \<Longrightarrow> p < q \<Longrightarrow> q < length groups \<Longrightarrow> snd (groups ! p) \<le> fst (groups ! q)"
proof (induction groups arbitrary: s p q)
  case (Cons g groups)
  obtain a b where g: "g = (a, b)" by (cases g)
  show ?case
  proof (cases p)
    case 0
    have "(fst (groups ! (q - 1)), snd (groups ! (q - 1))) \<in> set groups" using Cons.prems(2,3) by simp
    then show ?thesis using partitions_from_range [of b groups n] Cons.prems g 0 by (fastforce simp: nth_Cons')
  next
    case (Suc p')
    then show ?thesis using Cons.IH [of b p' "q - 1"] Cons.prems g by (auto simp: nth_Cons')
  qed
qed simp

lemma in_group_unique:
  assumes "partitions (group_rows groups) n" "in_group groups p i" "in_group groups q i"
  shows "p = q"
  using partitions_from_apart [of 0 "group_rows groups" n p q] partitions_from_apart [of 0 "group_rows groups" n q p] assms
  unfolding partitions_def in_group_def by (metis leD linorder_neqE_nat order_le_less_trans)

definition under ::
  "SignatureEntry list list \<Rightarrow> nat list \<Rightarrow> OwnerGroups \<Rightarrow> (nat \<Rightarrow> int) \<Rightarrow> nat list \<Rightarrow> nat list \<Rightarrow> bool" where
  "under rows matching groups A c d \<longleftrightarrow>
     (\<forall>p i. in_group groups p i \<longrightarrow> int (c ! i) \<le> A p) \<and>
     (\<forall>p i j. in_group groups p i \<longrightarrow> same_group (group_columns groups) (matching ! i) j \<longrightarrow>
        int (d ! j) \<le> A p + int (matched_by rows matching i))"

lemma under_start:
  assumes s: "sweepable rows matching groups iv d0"
    and A: "\<And>p. p < length (group_rows groups) \<Longrightarrow> owner_operator rows matching groups iv c0 d0 A p \<le> A p"
  shows "under rows matching groups A c0 d0"
proof -
  have "Max (owner_bases rows matching groups c0 d0 p) \<le> A p" if "in_group groups p i" for p i
    using owner_operator_le(1) [OF s, of c0 A p "A p"] A [of p] that by (simp add: in_group_def)
  then show ?thesis unfolding under_def using owner_operator_le(2) [OF s] by blast
qed

lemma under_sweep:
  assumes s: "sweepable rows matching groups iv d0"
    and A: "\<And>p. p < length (group_rows groups) \<Longrightarrow> owner_operator rows matching groups iv c0 d0 A p \<le> A p"
    and u: "under rows matching groups A c d" and st: "sweeps_to rows matching groups iv c d c1 c2 d2"
  shows "in_group groups p i \<Longrightarrow> int (c1 ! i) \<le> A p" "under rows matching groups A c2 d2"
proof -
  note sd = sweepableD [OF s] and t = sweeps_toD [OF st]
  have uc: "int (c ! i) \<le> A p" if "in_group groups p i" for p i using u that unfolding under_def by blast
  have ud: "int (d ! j) \<le> A p + int (matched_by rows matching i)"
    if "in_group groups p i" "same_group (group_columns groups) (matching ! i) j" for p i j using u that unfolding under_def by blast
  have Ash: "A q + int (order a) \<le> A p + int (matched_by rows matching i)"
    if i: "in_group groups p i" "in_group groups q r" "a \<in> set (rows ! r)" "\<not> invariant_at iv (column a)"
      "same_group (group_columns groups) (matching ! i) (column a)" for p q r a i
  proof -
    have "(q, int (order a) - int (matched_by rows matching i)) \<in> owner_shifts rows matching groups iv p"
      unfolding owner_shifts_def using i by blast
    then show ?thesis using owner_operator_le(1) [OF s, of c0 A p "A p"] A [of p] i(1) unfolding in_group_def by fastforce
  qed
  show c1: "int (c1 ! i) \<le> A p" if i: "in_group groups p i" for p i
  proof -
    have A0: "0 \<le> A p" using uc [OF i] by linarith
    have "c1 ! i \<le> nat (A p)"
      unfolding t(6) [OF in_group_less [OF sd(4) i]]
    proof (intro allI impI)
      fix r assume "same_group (group_rows groups) i r"
      then obtain q where q: "in_group groups q i" "in_group groups q r" using same_in_group by blast
      have "q = p" by (rule in_group_unique [OF sd(4) q(1) i])
      then show "c ! r \<le> nat (A p)" using uc [OF q(2)] by simp
    qed
    then show ?thesis using A0 by linarith
  qed
  have d2: "int (d2 ! j) \<le> A p + int (matched_by rows matching i)"
    if i: "in_group groups p i" "same_group (group_columns groups) (matching ! i) j" for p i j
  proof -
    have j: "j < length rows" using same_group_less [OF sd(5) i(2)] by blast
    have nn: "0 \<le> A p + int (matched_by rows matching i)" using uc [OF i(1)] by linarith
    have "d2 ! j \<le> nat (A p + int (matched_by rows matching i))"
      unfolding t(7) [OF j]
    proof (intro allI impI conjI ballI)
      fix j' assume j': "same_group (group_columns groups) j j'"
      have mj: "same_group (group_columns groups) (matching ! i) j'" by (rule same_group_trans [OF sd(5) i(2) j'])
      show "d ! j' \<le> nat (A p + int (matched_by rows matching i))" using ud [OF i(1) mj] by linarith
      fix r e v assume r: "r < length rows" "e \<in> set (rows ! r)" "demand iv (c1 ! r) e j' v"
      then have v: "v = c1 ! r + order e" "column e = j'" "\<not> invariant_at iv (column e)" by (auto simp: demand_def)
      obtain q where q: "in_group groups q r" using same_in_group [OF same_group_refl [OF sd(4) r(1)]] by blast
      have "same_group (group_columns groups) (matching ! i) (column e)" using mj v(2) by simp
      from Ash [OF i(1) q r(2) v(3) this] c1 [OF q] show "v \<le> nat (A p + int (matched_by rows matching i))"
        unfolding v(1) by linarith
    qed
    then show ?thesis using nn by linarith
  qed
  have "int (c2 ! i) \<le> A p" if i: "in_group groups p i" for p i
  proof -
    have l: "i < length rows" by (rule in_group_less [OF sd(4) i])
    have "int (d2 ! (matching ! i)) \<le> A p + int (matched_by rows matching i)"
      by (rule d2 [OF i same_group_refl [OF sd(5) sd(8) [OF l]]])
    then show ?thesis using c1 [OF i] unfolding t(8) [OF l] by linarith
  qed
  then show "under rows matching groups A c2 d2" unfolding under_def using d2 by blast
qed

text \<open>Once the contracted iterate that the orders have reached is not raised any more, a sweep closes them.\<close>

lemma reached_closed:
  assumes s: "sweepable rows matching groups iv d0" and st: "sweeps_to rows matching groups iv c d c1 c2 d2"
    and r: "reached rows matching groups iv c0 d0 k c d"
    and A: "A = ((owner_operator rows matching groups iv c0 d0) ^^ k) (\<lambda>_. 0)"
    and st_fix: "\<And>p. p < length (group_rows groups) \<Longrightarrow> owner_operator rows matching groups iv c0 d0 A p \<le> A p"
    and u: "under rows matching groups A c d"
  shows "closed_orders rows matching groups iv c2 d2"
proof -
  note sd = sweepableD [OF s] and t = sweeps_toD [OF st] and e = sweep_edges [OF s st]
  have c1: "int (c1 ! i) = A p" if i: "in_group groups p i" for p i
    using under_sweep(1) [OF s st_fix u st i] reached_equal [OF s r st i] unfolding A by simp
  have u2: "under rows matching groups A c2 d2" by (rule under_sweep(2) [OF s st_fix u st])
  have up: "d2 ! (matching ! i) \<le> c1 ! i + matched_by rows matching i" if i: "i < length rows" for i
  proof -
    obtain p where p: "in_group groups p i" using same_in_group [OF same_group_refl [OF sd(4) i]] by blast
    have "int (d2 ! (matching ! i)) \<le> A p + int (matched_by rows matching i)"
      using u2 p same_group_refl [OF sd(5) sd(8) [OF i]] unfolding under_def by blast
    then show ?thesis using c1 [OF p] by linarith
  qed
  have c2: "c2 ! i = c1 ! i" if "i < length rows" for i using t(8) [OF that] up [OF that] by simp
  show ?thesis
    unfolding closed_orders_def uniform_on_def
  proof (intro conjI allI impI ballI)
    show "c2 ! i = c2 ! j" if ij: "same_group (group_rows groups) i j" for i j
    proof -
      obtain p where p: "in_group groups p i" "in_group groups p j" using same_in_group [OF ij] by blast
      have "c1 ! i = c1 ! j" using c1 [OF p(1)] c1 [OF p(2)] by simp
      then show ?thesis using c2 same_group_less [OF sd(4) ij] by simp
    qed
    show "d2 ! i = d2 ! j" if ij: "same_group (group_columns groups) i j" for i j
    proof (rule antisym)
      have le: "d2 ! i \<le> d2 ! j" if ij: "same_group (group_columns groups) i j" for i j
        unfolding t(7) [OF conjunct1 [OF same_group_less [OF sd(5) ij]]]
      proof (intro allI impI)
        fix j' assume "same_group (group_columns groups) i j'"
        from same_group_trans [OF sd(5) same_group_sym [OF ij] this]
        show "d ! j' \<le> d2 ! j \<and> (\<forall>i < length rows. \<forall>e \<in> set (rows ! i). \<forall>v. demand iv (c1 ! i) e j' v \<longrightarrow> v \<le> d2 ! j)"
          using t(7) [of j "d2 ! j"] same_group_less [OF sd(5) ij] by blast
      qed
      show "d2 ! i \<le> d2 ! j" by (rule le [OF ij])
      show "d2 ! j \<le> d2 ! i" by (rule le [OF same_group_sym [OF ij]])
    qed
    show "c2 ! i + order a \<le> d2 ! column a" if a: "i < length rows" "a \<in> set (rows ! i)" "\<not> invariant_at iv (column a)" for i a
      using e(2) [OF same_group_refl [OF sd(5) sd(6) [OF a(1,2)]] a] c2 [OF a(1)] by simp
    show "d2 ! (matching ! i) \<le> c2 ! i + matched_by rows matching i" if "i < length rows" for i
      using up [OF that] c2 [OF that] by simp
  qed (use t in simp_all)
qed


text \<open>While a closed pair of 32-bit column orders lies above, a sweep does not overflow.\<close>

lemma sweep_runs:
  assumes s: "sweepable rows matching groups iv d0" and cl: "closed_orders rows matching groups iv c' d'"
    and u32: "\<forall>x \<in> set d'. x \<le> u32_max" and c: "below c c'" and d: "below d d'" and d0: "below d0 d"
  obtains c1 c2 d2 where "refine_sweep rows matching groups iv (c, d) = Ok ((c2, d2), c2 \<noteq> c \<or> d2 \<noteq> d)"
    "sweeps_to rows matching groups iv c d c1 c2 d2"
proof -
  note sd = sweepableD [OF s] and k = closed_ordersD [OF cl]
  have lc: "length c = length rows" using c k(1) by (simp add: below_nth)
  from s lc d0 show thesis
  proof (cases rule: refine_sweep_cases)
    case (overflow m c1 i e)
    have "c1 ! i \<le> c' ! i"
      unfolding overflow(6) [OF overflow(2)]
    proof (intro allI impI)
      fix r assume r: "same_group (group_rows groups) i r"
      have "c ! r \<le> c' ! r" using c same_group_less [OF sd(4) r] lc by (simp add: below_nth)
      then show "c ! r \<le> c' ! i" using k(3) [OF r] by simp
    qed
    then have "u32_max < d' ! column e" using k(5) [OF overflow(2-4)] overflow(5) by linarith
    moreover have "d' ! column e \<in> set d'" using sd(6) [OF overflow(2,3)] k(2) by simp
    ultimately show thesis using u32 by fastforce
  qed (rule that)
qed

lemma refine_loop_closes:
  assumes s: "sweepable rows matching groups iv d0" and cl: "closed_orders rows matching groups iv c' d'"
    and u32: "\<forall>x \<in> set d'. x \<le> u32_max"
    and A: "A = ((owner_operator rows matching groups iv c0 d0) ^^ length (group_rows groups)) (\<lambda>_. 0)"
    and stands: "\<And>p. p < length (group_rows groups) \<Longrightarrow> owner_operator rows matching groups iv c0 d0 A p \<le> A p"
  shows "reached rows matching groups iv c0 d0 k c d \<Longrightarrow> under rows matching groups A c d \<Longrightarrow> below c c' \<Longrightarrow> below d d' \<Longrightarrow>
    k \<le> length (group_rows groups) \<Longrightarrow> length (group_rows groups) + 2 - k \<le> fuel \<Longrightarrow>
    \<exists>z. refine_loop rows matching groups iv fuel (c, d) = Ok (Some z)"
proof (induction fuel arbitrary: k c d)
  case (Suc fuel)
  have d0: "below d0 d" using Suc.prems(1) by (simp add: reached_def)
  obtain c1 c2 d2 where st: "refine_sweep rows matching groups iv (c, d) = Ok ((c2, d2), c2 \<noteq> c \<or> d2 \<noteq> d)"
    "sweeps_to rows matching groups iv c d c1 c2 d2"
    by (rule sweep_runs [OF s cl u32 Suc.prems(3,4) d0])
  have b: "below c2 c'" "below d2 d'" "below d0 d2"
    using sweep_below(2,3) [OF s cl st(2) Suc.prems(3,4)] below_trans [OF d0 sweeps_toD(5) [OF st(2)]] by simp_all
  have r2: "reached rows matching groups iv c0 d0 (Suc k) c2 d2" by (rule reached_step [OF s Suc.prems(1) st(2)])
  have u2: "under rows matching groups A c2 d2" by (rule under_sweep(2) [OF s stands Suc.prems(2) st(2)])
  have step: "refine_loop rows matching groups iv (Suc fuel) (c, d) =
      (if c2 = c \<and> d2 = d then Ok (Some (c2, d2)) else refine_loop rows matching groups iv fuel (c2, d2))"
    by (auto simp: st(1))
  show ?case
  proof (cases "c2 = c \<and> d2 = d")
    case False
    then have rest: "refine_loop rows matching groups iv (Suc fuel) (c, d) = refine_loop rows matching groups iv fuel (c2, d2)"
      unfolding step by (rule if_not_P)
    show ?thesis
    proof (cases "k < length (group_rows groups)")
      case True
      then have "\<exists>z. refine_loop rows matching groups iv fuel (c2, d2) = Ok (Some z)"
        using Suc.IH [OF r2 u2 b(1,2)] Suc.prems(6) by simp
      then show ?thesis unfolding rest .
    next
      case False
      then have k: "k = length (group_rows groups)" using Suc.prems(5) by simp
      have "A = ((owner_operator rows matching groups iv c0 d0) ^^ k) (\<lambda>_. 0)" unfolding k by (rule A)
      from reached_closed [OF s st(2) Suc.prems(1) this stands Suc.prems(2)]
      have closed: "closed_orders rows matching groups iv c2 d2" .
      obtain c3 c4 d4 where st2: "refine_sweep rows matching groups iv (c2, d2) = Ok ((c4, d4), c4 \<noteq> c2 \<or> d4 \<noteq> d2)"
        "sweeps_to rows matching groups iv c2 d2 c3 c4 d4"
        by (rule sweep_runs [OF s cl u32 b])
      have "c4 = c2" "d4 = d2" using closed_sweep [OF s closed st2(2)] by simp_all
      then have same: "refine_sweep rows matching groups iv (c2, d2) = Ok ((c2, d2), False)" using st2(1) by simp
      obtain fuel' where fuel: "fuel = Suc fuel'" using Suc.prems(6) k by (cases fuel) auto
      have "refine_loop rows matching groups iv fuel (c2, d2) = Ok (Some (c2, d2))" unfolding fuel by (simp add: same)
      then show ?thesis unfolding rest by blast
    qed
  next
    case True
    then show ?thesis unfolding step by simp
  qed
qed simp

text \<open>What the loop returns is closed and least.\<close>

lemma refine_loop_least:
  assumes s: "sweepable rows matching groups iv d0"
  shows "length c = length rows \<Longrightarrow> below d0 d \<Longrightarrow> refine_loop rows matching groups iv fuel (c, d) \<noteq> None \<and>
    (\<forall>z1 z2. refine_loop rows matching groups iv fuel (c, d) = Ok (Some (z1, z2)) \<longrightarrow>
       closed_orders rows matching groups iv z1 z2 \<and> below c z1 \<and> below d z2 \<and>
       (\<forall>c' d'. closed_orders rows matching groups iv c' d' \<longrightarrow> below c c' \<longrightarrow> below d d' \<longrightarrow> below z1 c' \<and> below z2 d'))"
proof (induction fuel arbitrary: c d)
  case (Suc fuel)
  from s Suc.prems show ?case
  proof (cases rule: refine_sweep_cases)
    case (overflow m c1 i e)
    then show ?thesis by simp
  next
    case (ok c1 c2 d2)
    note t = sweeps_toD [OF ok(2)]
    have up: "below c c2" "below d d2" "below d0 d2"
      using below_trans [OF t(4) sweep_grows [OF ok(2)]] t(5) below_trans [OF Suc.prems(2) t(5)] by blast+
    show ?thesis
    proof (cases "c2 = c \<and> d2 = d")
      case True
      then have "closed_orders rows matching groups iv c d" using sweep_fixed [OF s Suc.prems(2)] ok(2) by blast
      moreover have "refine_loop rows matching groups iv (Suc fuel) (c, d) = Ok (Some (c, d))" using ok(1) True by simp
      ultimately show ?thesis by simp
    next
      case False
      then have run: "refine_loop rows matching groups iv (Suc fuel) (c, d) = refine_loop rows matching groups iv fuel (c2, d2)"
        using ok(1) by auto
      note ih = Suc.IH [OF t(2) up(3)]
      show ?thesis
        unfolding run
      proof (intro conjI allI impI)
        show "refine_loop rows matching groups iv fuel (c2, d2) \<noteq> None" using ih by blast
        fix z1 z2 assume z: "refine_loop rows matching groups iv fuel (c2, d2) = Ok (Some (z1, z2))"
        note i = ih [THEN conjunct2, rule_format, OF z]
        show "closed_orders rows matching groups iv z1 z2" using i by blast
        show "below c z1" "below d z2" using i up(1,2) below_trans by blast+
        fix c' d' assume cl: "closed_orders rows matching groups iv c' d'" and b: "below c c'" "below d d'"
        have "below c2 c'" "below d2 d'" using sweep_below(2,3) [OF s cl ok(2) b] by simp_all
        then show "below z1 c'" "below z2 d'" using i cl by blast+
      qed
    qed
  qed
qed simp

lemma refine_loop_start:
  assumes s: "sweepable rows matching groups iv vars" and cl: "closed_orders rows matching groups iv c' d'"
    and u32: "\<forall>x \<in> set d'. x \<le> u32_max" and b: "below eqs c'" "below vars d'"
    and fuel: "fuel = Suc (length (group_rows groups) + length (group_columns groups))"
  shows "\<exists>z. refine_loop rows matching groups iv fuel (eqs, vars) = Ok (Some z)"
proof (cases "group_columns groups")
  case Nil
  note sd = sweepableD [OF s]
  have n: "length rows = 0" using sd(5) Nil by (simp add: partitions_def)
  obtain c1 c2 d2 where st: "refine_sweep rows matching groups iv (eqs, vars) = Ok ((c2, d2), c2 \<noteq> eqs \<or> d2 \<noteq> vars)"
    "sweeps_to rows matching groups iv eqs vars c1 c2 d2"
    by (rule sweep_runs [OF s cl u32 b below_refl])
  have "length eqs = 0" "length c2 = 0" "length vars = 0" "length d2 = 0"
    using b closed_ordersD(1,2) [OF cl] sweeps_toD(2,3) [OF st(2)] n by (simp_all add: below_nth)
  then have "c2 = eqs" "d2 = vars" by simp_all
  then show ?thesis using st(1) unfolding fuel by simp
next
  case (Cons g gs)
  let ?F = "owner_operator rows matching groups iv eqs vars" and ?N = "length (group_rows groups)"
  define A where "A = (?F ^^ ?N) (\<lambda>_. 0)"
  have A: "?F A p \<le> A p" if "p < ?N" for p
    using owner_iteration_stops [OF s cl b that] by (simp add: A_def)
  have "reached rows matching groups iv eqs vars 0 eqs vars" by (simp add: reached_def)
  moreover have "under rows matching groups A eqs vars" by (rule under_start [OF s A])
  ultimately show ?thesis
    using refine_loop_closes [OF s cl u32 A_def A, of 0 eqs vars fuel] b fuel Cons by simp
qed

text \<open>The answer of a refinement: the least closed pair, or there is none of 32-bit orders.\<close>

definition least_closed ::
  "SignatureEntry list list \<Rightarrow> nat list \<Rightarrow> OwnerGroups \<Rightarrow> bool list \<Rightarrow> nat list \<times> nat list \<Rightarrow> nat list \<times> nat list \<Rightarrow> bool" where
  "least_closed rows matching groups iv = (\<lambda>(c0, d0) (c, d). closed_orders rows matching groups iv c d \<and> below c0 c \<and> below d0 d \<and>
     (\<forall>c' d'. closed_orders rows matching groups iv c' d' \<longrightarrow> below c0 c' \<longrightarrow> below d0 d' \<longrightarrow> below c c' \<and> below d d'))"

definition no_closed ::
  "SignatureEntry list list \<Rightarrow> nat list \<Rightarrow> OwnerGroups \<Rightarrow> bool list \<Rightarrow> nat list \<times> nat list \<Rightarrow> bool" where
  "no_closed rows matching groups iv = (\<lambda>(c0, d0). \<nexists>c d. closed_orders rows matching groups iv c d \<and>
     below c0 c \<and> below d0 d \<and> (\<forall>x \<in> set d. x \<le> u32_max))"

lemma refine_cases:
  assumes s: "sweepable rows matching groups iv vars" and l: "length eqs = length rows"
    and size: "length (group_rows groups) + length (group_columns groups) \<le> usize_max"
  obtains (found) s' where "refine rows matching (eqs, vars) groups iv = Ok (Some s')" "least_closed rows matching groups iv (eqs, vars) s'"
  | (missing) "refine rows matching (eqs, vars) groups iv = Ok None" "no_closed rows matching groups iv (eqs, vars)"
  | (refused) m where "refine rows matching (eqs, vars) groups iv = Err m" "no_closed rows matching groups iv (eqs, vars)"
proof -
  note sd = sweepableD [OF s]
  define fuel where fuel: "fuel = Suc (length (group_rows groups) + length (group_columns groups))"
  let ?r = "refine_loop rows matching groups iv fuel (eqs, vars)"
  have run: "refine rows matching (eqs, vars) groups iv = ?r"
    using sd(1-5) l size by (simp add: refine_def chk_usize_def fuel)
  have least: "?r \<noteq> None \<and> (\<forall>z1 z2. ?r = Ok (Some (z1, z2)) \<longrightarrow>
       closed_orders rows matching groups iv z1 z2 \<and> below eqs z1 \<and> below vars z2 \<and>
       (\<forall>c' d'. closed_orders rows matching groups iv c' d' \<longrightarrow> below eqs c' \<longrightarrow> below vars d' \<longrightarrow> below z1 c' \<and> below z2 d'))"
    by (rule refine_loop_least [OF s l below_refl])
  have none: "no_closed rows matching groups iv (eqs, vars)" if no: "\<nexists>z. ?r = Ok (Some z)"
    unfolding no_closed_def prod.case
  proof (rule notI, elim exE conjE)
    fix c d assume a: "closed_orders rows matching groups iv c d" "below eqs c" "below vars d" "\<forall>x \<in> set d. x \<le> u32_max"
    from refine_loop_start [OF s a(1,4,2,3) fuel] no show False by blast
  qed
  show thesis
  proof (cases ?r)
    case None
    then show thesis using least by blast
  next
    case (Some v)
    show thesis
    proof (cases v)
      case (Inl m)
      show thesis by (rule refused [of m]) (use run Some Inl none in simp_all)
    next
      case (Inr w)
      show thesis
      proof (cases w)
        case None
        show thesis by (rule missing) (use run Some Inr None none in simp_all)
      next
        case (Some z)
        obtain z1 z2 where z: "z = (z1, z2)" by (cases z)
        have r: "?r = Ok (Some (z1, z2))" using \<open>?r = Some v\<close> Inr Some z by simp
        have "least_closed rows matching groups iv (eqs, vars) (z1, z2)"
          unfolding least_closed_def prod.case using least r by blast
        then show thesis using found run r by simp
      qed
    qed
  qed
qed

text \<open>C14: The refinement of the offsets of whole owners decides its problem. From covering ranges and a matching
  of entries it never panics; a pair it returns is uniform on every equation owner and every
  declaration, closes the signature, lies above the given orders and is least among all such pairs. If it
  gives up, because its sweeps ran out or an order left the 32-bit range, then no such pair of 32-bit
  orders exists: one sweep more than there are owners is enough.\<close>

theorem refine_decided:
  assumes "sweepable rows matching groups iv vars" and "length eqs = length rows"
    and "length (group_rows groups) + length (group_columns groups) \<le> usize_max"
  shows "case refine rows matching (eqs, vars) groups iv of
     None \<Rightarrow> False
   | Some (Inr (Some s)) \<Rightarrow> least_closed rows matching groups iv (eqs, vars) s
   | Some (Inr None) \<Rightarrow> no_closed rows matching groups iv (eqs, vars)
   | Some (Inl m) \<Rightarrow> no_closed rows matching groups iv (eqs, vars)"
  using assms by (cases rule: refine_cases) auto

theorem refine_decided_witness:
  "least_closed [[\<lparr>column = 0, order = 1\<rparr>], [\<lparr>column = 1, order = 0\<rparr>]] [0, 1] \<lparr>group_rows = [(0, 1), (1, 2)], group_columns = [(0, 2)]\<rparr>
     [False, False] ([0, 0], [1, 0]) ([0, 1], [1, 1])"
proof -
  let ?rows = "[[\<lparr>column = 0, order = 1\<rparr>], [\<lparr>column = 1, order = 0\<rparr>]]"
  let ?g = "\<lparr>group_rows = [(0, 1), (1, 2)], group_columns = [(0, 2)]\<rparr>"
  have run: "refine ?rows [0, 1] ([0, 0], [1, 0]) ?g [False, False] = Ok (Some ([0, 1], [1, 1]))" by code_simp
  have s: "sweepable ?rows [0, 1] ?g [False, False] [1, 0]"
    by (simp add: sweepable_def partitions_def matched_entry_def less_Suc_eq numeral_2_eq_2)
  have l: "length [0, 0 :: nat] = length ?rows" "length (group_rows ?g) + length (group_columns ?g) \<le> usize_max"
    by (simp_all add: machine_int)
  show ?thesis using refine_decided [OF s l, unfolded run] by simp
qed

end
