(* ===== verification/Tensor_Selection.thy ===== *)
theory Tensor_Selection
  imports Tensor_Offsets_Correct "HOL-Library.Sublist"
begin

text \<open>
  State selection on the orders of whole owners: every preferred declaration gets its formal
  successor, the deepening of requested declarations ends, and the analysis of
  \<open>tensor_offsets.rs\<close> answers without a panic.
\<close>

section \<open>One raise\<close>

definition selectable :: "DifferentialStructure \<Rightarrow> OwnerGroups \<Rightarrow> bool" where
  "selectable S groups \<longleftrightarrow> length (ds_variables S) = length (ds_rows S) \<and> (\<forall>(a, b) \<in> set (group_columns groups). a < b) \<and>
     length (group_rows groups) + length (group_columns groups) \<le> usize_max"

definition standing :: "DifferentialStructure \<Rightarrow> OwnerGroups \<Rightarrow> nat list \<times> nat list \<Rightarrow> bool" where
  "standing S groups = (\<lambda>(c, d). sweepable (ds_rows S) (ds_matching S) groups (ds_invariant_columns S) d \<and>
     closed_orders (ds_rows S) (ds_matching S) groups (ds_invariant_columns S) c d)"

lemma sweepable_below:
  assumes s: "sweepable rows matching groups iv d0" and b: "below d0 d"
  shows "sweepable rows matching groups iv d"
proof -
  note sd = sweepableD [OF s]
  have ld: "length d = length rows" using b sd(3) by (simp add: below_nth)
  have "\<exists>e. matched_entry (rows ! i) (matching ! i) = Some e \<and> order e \<le> d ! (matching ! i)" if i: "i < length rows" for i
  proof -
    have "d0 ! (matching ! i) \<le> d ! (matching ! i)" using b sd(3) sd(8) [OF i] by (simp add: below_nth)
    then show ?thesis using sd(7) [OF i] order_trans by blast
  qed
  then show ?thesis unfolding sweepable_def using sd(1,2,4,5,6) ld by blast
qed

text \<open>A closed pair raised by one everywhere is closed.\<close>

lemma closed_raised:
  assumes s: "sweepable rows matching groups iv d0" and cl: "closed_orders rows matching groups iv c d"
  shows "closed_orders rows matching groups iv (map Suc c) (map Suc d)"
proof -
  note sd = sweepableD [OF s] and k = closed_ordersD [OF cl]
  show ?thesis
    unfolding closed_orders_def uniform_on_def
  proof (intro conjI allI impI ballI)
    show "map Suc c ! i = map Suc c ! r" if "same_group (group_rows groups) i r" for i r
      using k(1,3) that same_group_less [OF sd(4) that] by simp
    show "map Suc d ! i = map Suc d ! r" if "same_group (group_columns groups) i r" for i r
      using k(2,4) that same_group_less [OF sd(5) that] by simp
    show "map Suc c ! i + order e \<le> map Suc d ! column e" if "i < length rows" "e \<in> set (rows ! i)" "\<not> invariant_at iv (column e)" for i e
      using k(1,2) k(5) [OF that] sd(6) [OF that(1,2)] that(1) by simp
    show "map Suc d ! (matching ! i) \<le> map Suc c ! i + matched_by rows matching i" if "i < length rows" for i
      using k(1,2) k(6) [OF that] sd(8) [OF that] that by simp
  qed (use k(1,2) in simp_all)
qed

lemma below_raised: "below c c' \<Longrightarrow> below c (map Suc c')"
  by (fastforce simp: below_nth)

lemma fill_segment_nth:
  assumes "a \<le> b" "b \<le> length d"
  obtains r where "fill_segment d (a, b) v = Some r" "length r = length d"
    "\<And>j. j < length d \<Longrightarrow> r ! j = (if a \<le> j \<and> j < b then v else d ! j)"
proof
  show "fill_segment d (a, b) v = Some (take a d @ replicate (b - a) v @ drop b d)" using assms by (simp add: fill_segment_def)
  show "length (take a d @ replicate (b - a) v @ drop b d) = length d" using assms by simp
  show "(take a d @ replicate (b - a) v @ drop b d) ! j = (if a \<le> j \<and> j < b then v else d ! j)" if "j < length d" for j
    using assms that by (auto simp: nth_append)
qed

text \<open>Raising one declaration succeeds as soon as some closed pair of 32-bit orders lies above.\<close>

lemma raise_declaration:
  assumes sel: "selectable S groups" and st: "standing S groups (c, d)" and g: "(a, b) \<in> set (group_columns groups)"
    and v: "d ! a \<le> v" and cl: "closed_orders (ds_rows S) (ds_matching S) groups (ds_invariant_columns S) c' d'"
    and b: "below c c'" "below d d'" "v \<le> d' ! a" and u32: "\<forall>x \<in> set d'. x \<le> u32_max"
  obtains r c1 d1 where "fill_segment d (a, b) v = Some r"
    "\<And>j. j < length (ds_rows S) \<Longrightarrow> r ! j = (if a \<le> j \<and> j < b then v else d ! j)"
    "refine (ds_rows S) (ds_matching S) (c, r) groups (ds_invariant_columns S) = Ok (Some (c1, d1))"
    "standing S groups (c1, d1)" "below c c1" "below r d1" "below d d1" "v \<le> d1 ! a" "below c1 c'" "below d1 d'"
proof -
  have sw: "sweepable (ds_rows S) (ds_matching S) groups (ds_invariant_columns S) d"
    and cd: "closed_orders (ds_rows S) (ds_matching S) groups (ds_invariant_columns S) c d"
    using st by (simp_all add: standing_def)
  note sd = sweepableD [OF sw] and k = closed_ordersD [OF cd] and k' = closed_ordersD [OF cl]
  let ?n = "length (ds_rows S)"
  have ab: "a < b" "b \<le> ?n" using sel g partitions_from_range [of 0 "group_columns groups" ?n a b] sd(5)
    by (auto simp: selectable_def partitions_def)
  obtain r where r: "fill_segment d (a, b) v = Some r" "length r = length d"
    "\<And>j. j < length d \<Longrightarrow> r ! j = (if a \<le> j \<and> j < b then v else d ! j)"
    by (rule fill_segment_nth [of a b d v]) (use ab sd(3) in auto)
  have same: "same_group (group_columns groups) a j" if "a \<le> j" "j < b" for j
    unfolding same_group_def by (rule bexI [OF _ g]) (use that ab in simp)
  have dr: "d ! j \<le> r ! j \<and> r ! j \<le> d' ! j" if j: "j < ?n" for j
  proof (cases "a \<le> j \<and> j < b")
    case True
    then have "d ! j = d ! a" "d' ! j = d' ! a" using k(4) k'(4) same by metis+
    then show ?thesis using r(3) [of j] j sd(3) True v b(3) by simp
  next
    case False
    then show ?thesis using r(3) [of j] j sd(3) b(2) by (auto simp: below_nth)
  qed
  have lr: "length r = ?n" using r(2) sd(3) by simp
  have br: "below d r" "below r d'" using dr lr sd(3) k'(2) by (simp_all add: below_nth)
  have swr: "sweepable (ds_rows S) (ds_matching S) groups (ds_invariant_columns S) r" by (rule sweepable_below [OF sw br(1)])
  have no: "\<not> no_closed (ds_rows S) (ds_matching S) groups (ds_invariant_columns S) (c, r)"
    using cl b(1) br(2) u32 by (auto simp: no_closed_def)
  have size: "length (group_rows groups) + length (group_columns groups) \<le> usize_max" using sel by (simp add: selectable_def)
  from swr k(1) size show thesis
  proof (cases rule: refine_cases)
    case (found s)
    obtain c1 d1 where s: "s = (c1, d1)" by (cases s)
    have f: "closed_orders (ds_rows S) (ds_matching S) groups (ds_invariant_columns S) c1 d1" "below c c1" "below r d1"
      "below c1 c'" "below d1 d'"
      using found(2) cl b(1) br(2) unfolding s least_closed_def prod.case by blast+
    have "v \<le> d1 ! a" using f(3) r(3) [of a] ab sd(3) lr unfolding below_nth by (metis less_le_trans order_refl)
    moreover have "standing S groups (c1, d1)"
      unfolding standing_def prod.case using sweepable_below [OF swr f(3)] f(1) by blast
    ultimately show thesis
      using that [OF r(1) _ found(1) [unfolded s]] r(3) sd(3) f(2-5) below_trans [OF br(1) f(3)] by simp
  qed (use no in blast)+
qed

text \<open>The owners an admission records.\<close>

definition owners_raised :: "owner_range list \<Rightarrow> nat list \<Rightarrow> nat list \<Rightarrow> (nat \<times> nat) list" where
  "owners_raised groups c' c = map (\<lambda>(a, _). (a, c ! a)) (filter (\<lambda>(a, b). a < b \<and> c ! a < c' ! a) groups)"

lemma raised_rows_eq:
  assumes "\<And>a b. (a, b) \<in> set groups \<Longrightarrow> a < b \<Longrightarrow> a < length c \<and> a < length c'"
  shows "raised_rows groups c' c = Some (owners_raised groups c' c)"
proof -
  have "try_fold (\<lambda>acc (a, b). if b \<le> a then Some acc
       else do { n \<leftarrow> idx c' a; e \<leftarrow> idx c a; Some (if n > e then acc @ [(a, e)] else acc) }) acc groups =
      Some (acc @ owners_raised groups c' c)" for acc
    using assms
  proof (induction groups arbitrary: acc)
    case (Cons g groups)
    obtain a b where g: "g = (a, b)" by (cases g)
    note ih = Cons.IH [OF Cons.prems [OF list.set_intros(2)]]
    show ?case
    proof (cases "a < b")
      case True
      then have "a < length c" "a < length c'" using Cons.prems [of a b] g by auto
      then show ?thesis using ih True g by (simp add: owners_raised_def)
    next
      case False
      then show ?thesis using ih g by (simp add: owners_raised_def)
    qed
  qed (simp add: owners_raised_def)
  then show ?thesis by (simp add: raised_rows_def)
qed

lemma admit_eq:
  assumes sel: "selectable S groups" and st: "standing S groups (c, d)" and l: "length c1 = length c"
    and g: "(a, b) \<in> set (group_columns groups)"
  shows "admit S groups (a, b) (c1, d1) ((c, d), acc) = Some ((c1, d1),
    acc @ [\<lparr>admitted_variable = coordinate_variable (ds_variables S ! a), raised_owners = owners_raised (group_rows groups) c1 c\<rparr>])"
proof -
  have sw: "sweepable (ds_rows S) (ds_matching S) groups (ds_invariant_columns S) d"
    and k: "length c = length (ds_rows S)" using st closed_ordersD(1) by (auto simp: standing_def)
  note sd = sweepableD [OF sw]
  have "raised_rows (group_rows groups) c1 c = Some (owners_raised (group_rows groups) c1 c)"
  proof (rule raised_rows_eq)
    fix a b assume "(a, b) \<in> set (group_rows groups)" "a < b"
    then show "a < length c \<and> a < length c1"
      using partitions_from_range [of 0 "group_rows groups" "length (ds_rows S)" a b] sd(4) k l by (auto simp: partitions_def)
  qed
  moreover have "a < length (ds_variables S)"
    using partitions_from_range [of 0 "group_columns groups" "length (ds_rows S)" a b] sd(5) sel g by (auto simp: partitions_def selectable_def)
  ultimately show ?thesis by (simp add: admit_def)
qed

section \<open>Preferred declarations\<close>

lemma standingD:
  assumes "standing S groups (c, d)"
  shows "sweepable (ds_rows S) (ds_matching S) groups (ds_invariant_columns S) d"
    "closed_orders (ds_rows S) (ds_matching S) groups (ds_invariant_columns S) c d"
    "length c = length (ds_rows S)" "length d = length (ds_rows S)" "length (ds_invariant_columns S) = length (ds_rows S)"
    "partitions (group_columns groups) (length (ds_rows S))"
proof -
  show s: "sweepable (ds_rows S) (ds_matching S) groups (ds_invariant_columns S) d"
    and c: "closed_orders (ds_rows S) (ds_matching S) groups (ds_invariant_columns S) c d"
    using assms by (simp_all add: standing_def)
  show "length c = length (ds_rows S)" "length d = length (ds_rows S)" by (rule closed_ordersD [OF c])+
  show "length (ds_invariant_columns S) = length (ds_rows S)" "partitions (group_columns groups) (length (ds_rows S))"
    by (rule sweepableD [OF s])+
qed

lemma column_range:
  assumes "selectable S groups" and "standing S groups (c, d)" and "(a, b) \<in> set (group_columns groups)"
  shows "a < b" "b \<le> length (ds_rows S)"
  using assms partitions_from_range [of 0 "group_columns groups" "length (ds_rows S)" a b] standingD(6)
  by (auto simp: selectable_def partitions_def)

text \<open>One declaration: it is passed over if it has an order, is constant in time or is not wanted; otherwise
  it gets its order, within one above any closed pair that has it.\<close>

lemma admit_group_cases:
  assumes sel: "selectable S groups" and st: "standing S groups (c, d)" and g: "(a, b) \<in> set (group_columns groups)"
    and req: "requested (a, b) = Some w"
    and cl: "closed_orders (ds_rows S) (ds_matching S) groups (ds_invariant_columns S) c' d'"
    and b: "below c c'" "below d d'" "0 < d' ! a" and u32: "\<forall>x \<in> set d'. x \<le> u32_max"
  obtains (skip) "admit_group S groups requested ((c, d), acc) (a, b) = Ok ((c, d), acc)"
      "w \<Longrightarrow> \<not> ds_invariant_columns S ! a \<Longrightarrow> 0 < d ! a"
  | (raise) c1 d1 x where "admit_group S groups requested ((c, d), acc) (a, b) = Ok ((c1, d1), acc @ [x])"
      "admitted_variable x = coordinate_variable (ds_variables S ! a)" "w"
      "standing S groups (c1, d1)" "below c c1" "below d d1" "below c1 c'" "below d1 d'" "0 < d1 ! a"
proof -
  have ab: "a < length (ds_rows S)" using column_range [OF sel st g] by simp
  have i: "idx d a = Some (d ! a)" "idx (ds_invariant_columns S) a = Some (ds_invariant_columns S ! a)"
    using ab standingD(4,5) [OF st] by simp_all
  show thesis
  proof (cases "0 < d ! a \<or> ds_invariant_columns S ! a \<or> \<not> w")
    case True
    show thesis by (rule skip) (use True i req in \<open>auto simp: admit_group_def\<close>)
  next
    case False
    then have o: "d ! a \<le> 1" and one: "1 \<le> d' ! a" using b(3) by simp_all
    obtain r c1 d1 where r: "fill_segment d (a, b) 1 = Some r"
      "refine (ds_rows S) (ds_matching S) (c, r) groups (ds_invariant_columns S) = Ok (Some (c1, d1))"
      "standing S groups (c1, d1)" "below c c1" "below d d1" "1 \<le> d1 ! a" "below c1 c'" "below d1 d'"
      by (rule raise_declaration [OF sel st g o cl b(1,2) one u32]) (rule that)
    have "length c1 = length c" using r(4) by (simp add: below_nth)
    then have "admit_group S groups requested ((c, d), acc) (a, b) = Ok ((c1, d1),
        acc @ [\<lparr>admitted_variable = coordinate_variable (ds_variables S ! a), raised_owners = owners_raised (group_rows groups) c1 c\<rparr>])"
      using False i req r(1,2) admit_eq [OF sel st _ g] by (simp add: admit_group_def)
    then show thesis by (rule raise) (use False r in simp_all)
  qed
qed

definition wanted :: "(owner_range \<Rightarrow> bool option) \<Rightarrow> owner_range \<Rightarrow> bool" where
  "wanted requested g \<longleftrightarrow> requested g = Some True"

lemma admit_preferred_run:
  assumes sel: "selectable S groups" and st: "standing S groups (c, d)"
    and req: "\<forall>g \<in> set (group_columns groups). requested g \<noteq> None" and u32: "\<forall>x \<in> set d. x < u32_max"
  obtains c1 d1 adm gs where "admit_preferred S groups requested (c, d) = Ok ((c1, d1), adm)"
    "standing S groups (c1, d1)" "below c c1" "below d d1" "below c1 (map Suc c)" "below d1 (map Suc d)"
    "\<forall>(a, b) \<in> set (group_columns groups). wanted requested (a, b) \<longrightarrow> \<not> ds_invariant_columns S ! a \<longrightarrow> 0 < d1 ! a"
    "subseq gs (filter (wanted requested) (group_columns groups))"
    "map admitted_variable adm = map (\<lambda>g. coordinate_variable (ds_variables S ! fst g)) gs"
proof -
  let ?gs = "group_columns groups"
  note sw = standingD(1) [OF st] and cd = standingD(2) [OF st]
  define P where "P k s \<longleftrightarrow> standing S groups (fst s) \<and> below c (fst (fst s)) \<and> below d (snd (fst s)) \<and>
      below (fst (fst s)) (map Suc c) \<and> below (snd (fst s)) (map Suc d) \<and>
      (\<forall>i < k. wanted requested (?gs ! i) \<longrightarrow> \<not> ds_invariant_columns S ! fst (?gs ! i) \<longrightarrow> 0 < snd (fst s) ! fst (?gs ! i)) \<and>
      (\<exists>gs. subseq gs (filter (wanted requested) (take k ?gs)) \<and>
         map admitted_variable (snd s) = map (\<lambda>g. coordinate_variable (ds_variables S ! fst g)) gs)" for k and s :: selection
  have cl: "closed_orders (ds_rows S) (ds_matching S) groups (ds_invariant_columns S) (map Suc c) (map Suc d)"
    by (rule closed_raised [OF sw cd])
  have big: "\<forall>x \<in> set (map Suc d). x \<le> u32_max" using u32 by auto
  have "\<exists>s'. foldQ (admit_group S groups requested) ((c, d), []) ?gs = Ok s' \<and> P (length ?gs) s'"
  proof (rule foldQ_steps)
    show "P 0 ((c, d), [])" unfolding P_def using st by (auto simp: below_raised)
    fix k s assume k: "k < length ?gs" and "P k s"
    obtain c1 d1 adm where s: "s = ((c1, d1), adm)" by (metis surj_pair)
    obtain a b where ab: "?gs ! k = (a, b)" by fastforce
    have g: "(a, b) \<in> set ?gs" using k ab by (metis nth_mem)
    obtain w where w: "requested (a, b) = Some w" using req g by blast
    have p: "standing S groups (c1, d1)" "below c c1" "below d d1" "below c1 (map Suc c)" "below d1 (map Suc d)"
      "\<And>i. i < k \<Longrightarrow> wanted requested (?gs ! i) \<Longrightarrow> \<not> ds_invariant_columns S ! fst (?gs ! i) \<Longrightarrow> 0 < d1 ! fst (?gs ! i)"
      using \<open>P k s\<close> unfolding P_def s by simp_all
    obtain gs where gs: "subseq gs (filter (wanted requested) (take k ?gs))"
      "map admitted_variable adm = map (\<lambda>g. coordinate_variable (ds_variables S ! fst g)) gs"
      using \<open>P k s\<close> unfolding P_def s by auto
    have pos: "0 < map Suc d ! a" using column_range [OF sel st g] standingD(4) [OF st] by simp
    have take: "take (Suc k) ?gs = take k ?gs @ [(a, b)]" using k ab by (simp add: take_Suc_conv_app_nth)
    from sel p(1) g w cl p(4,5) pos big
    show "\<exists>s'. admit_group S groups requested s (?gs ! k) = Ok s' \<and> P (Suc k) s'"
      unfolding s ab
    proof (cases rule: admit_group_cases [where acc = adm])
      case skip
      have "0 < d1 ! fst (?gs ! i)" if "i < Suc k" "wanted requested (?gs ! i)" "\<not> ds_invariant_columns S ! fst (?gs ! i)" for i
      proof (cases "i = k")
        case True
        then show ?thesis using skip(2) that(2,3) w ab by (simp add: wanted_def)
      next
        case False
        then show ?thesis using p(6) that by simp
      qed
      moreover have "subseq gs (filter (wanted requested) (take (Suc k) ?gs))"
        unfolding take by (simp add: gs(1) subseq_rev_drop_many)
      ultimately have "P (Suc k) ((c1, d1), adm)" unfolding P_def using p(1-5) gs(2) by auto
      then show "\<exists>s'. admit_group S groups requested ((c1, d1), adm) (a, b) = Ok s' \<and> P (Suc k) s'" using skip(1) by blast
    next
      case (raise c2 d2 x)
      have "0 < d2 ! fst (?gs ! i)" if "i < Suc k" "wanted requested (?gs ! i)" "\<not> ds_invariant_columns S ! fst (?gs ! i)" for i
      proof (cases "i = k")
        case True
        then show ?thesis using raise(9) ab by simp
      next
        case False
        then have "0 < d1 ! fst (?gs ! i)" using p(6) that by simp
        moreover have "fst (?gs ! i) < length d1"
          using column_range [OF sel st, of "fst (?gs ! i)" "snd (?gs ! i)"] False that(1) k standingD(4) [OF p(1)] by simp
        ultimately show ?thesis using raise(6) by (fastforce simp: below_nth)
      qed
      moreover have "subseq (gs @ [(a, b)]) (filter (wanted requested) (take (Suc k) ?gs))"
        unfolding take using gs(1) w raise(3) by (simp add: wanted_def)
      moreover have "map admitted_variable (adm @ [x]) = map (\<lambda>g. coordinate_variable (ds_variables S ! fst g)) (gs @ [(a, b)])"
        using gs(2) raise(2) by simp
      ultimately have "P (Suc k) ((c2, d2), adm @ [x])"
        unfolding P_def fst_conv snd_conv using raise(4,7,8) below_trans [OF p(2) raise(5)] below_trans [OF p(3) raise(6)] by blast
      then show "\<exists>s'. admit_group S groups requested ((c1, d1), adm) (a, b) = Ok s' \<and> P (Suc k) s'" using raise(1) by blast
    qed
  qed
  then obtain s' where s': "foldQ (admit_group S groups requested) ((c, d), []) ?gs = Ok s'" "P (length ?gs) s'" by blast
  obtain c1 d1 adm where s: "s' = ((c1, d1), adm)" by (metis surj_pair)
  have run: "admit_preferred S groups requested (c, d) = Ok ((c1, d1), adm)" using s'(1) s by (simp add: admit_preferred_def)
  have all: "\<forall>(a, b) \<in> set ?gs. wanted requested (a, b) \<longrightarrow> \<not> ds_invariant_columns S ! a \<longrightarrow> 0 < d1 ! a"
  proof
    fix g assume "g \<in> set ?gs"
    then obtain i where "i < length ?gs" "g = ?gs ! i" by (auto simp: in_set_conv_nth)
    then show "case g of (a, b) \<Rightarrow> wanted requested (a, b) \<longrightarrow> \<not> ds_invariant_columns S ! a \<longrightarrow> 0 < d1 ! a"
      using s'(2) unfolding P_def s by (auto split: prod.split)
  qed
  show thesis
    using s'(2) unfolding P_def s fst_conv snd_conv take_all [OF order_refl]
    by (elim conjE exE) (rule that [OF run _ _ _ _ _ all])
qed

section \<open>Deepening\<close>

lemma states_unchanged_eq:
  assumes "\<And>i. i < length xs \<Longrightarrow> moves i \<noteq> None"
  shows "states_unchanged moves xs ys =
    Some (\<forall>i < min (length xs) (length ys). xs ! i = ys ! i \<or> moves i = Some False)"
proof -
  define f where "f = (\<lambda>all (col, (n :: nat, current)). if \<not> all then Some False else if n = current then Some True else map_option Not (moves col))"
  have step: "f all (k, x, y) = Some (all \<and> (x = y \<or> moves k = Some False))" if m: "moves k \<noteq> None" for all k x y
  proof -
    obtain v where "moves k = Some v" using m by blast
    then show ?thesis by (cases all; cases v) (simp_all add: f_def)
  qed
  have "try_fold f all (enumerate k zs) = Some (all \<and> (\<forall>i < length zs. fst (zs ! i) = snd (zs ! i) \<or> moves (k + i) = Some False))"
    if "\<And>i. i < length zs \<Longrightarrow> moves (k + i) \<noteq> None" for all k and zs :: "(nat \<times> nat) list"
    using that
  proof (induction zs arbitrary: all k)
    case (Cons z zs)
    obtain x y where z: "z = (x, y)" by (cases z)
    have d: "moves k \<noteq> None" using Cons.prems [of 0] by simp
    have ih: "try_fold f all (enumerate (Suc k) zs) =
        Some (all \<and> (\<forall>i < length zs. fst (zs ! i) = snd (zs ! i) \<or> moves (Suc k + i) = Some False))" for all
    proof (rule Cons.IH)
      show "moves (Suc k + i) \<noteq> None" if "i < length zs" for i using Cons.prems [of "Suc i"] that by simp
    qed
    have split: "(\<forall>i < length (z # zs). fst ((z # zs) ! i) = snd ((z # zs) ! i) \<or> moves (k + i) = Some False) \<longleftrightarrow>
        (x = y \<or> moves k = Some False) \<and> (\<forall>i < length zs. fst (zs ! i) = snd (zs ! i) \<or> moves (Suc k + i) = Some False)"
      unfolding z by (simp add: All_less_Suc2)
    show ?case
      unfolding split unfolding enumerate_simps try_fold.simps z step [OF d] option.case ih conj_assoc by (rule refl)
  qed simp
  from this [of "zip xs ys" 0 True] show ?thesis
    using assms by (simp add: states_unchanged_def f_def)
qed

text \<open>What a deepening keeps and reaches, where the orders of the signature are at most \<open>B\<close>.\<close>

definition deepened ::
  "DifferentialStructure \<Rightarrow> OwnerGroups \<Rightarrow> (nat \<Rightarrow> bool option) \<Rightarrow> (nat \<Rightarrow> bool) \<Rightarrow> selection \<Rightarrow> selection \<Rightarrow> bool" where
  "deepened S groups moves free = (\<lambda>((c, d), acc) ((c1, d1), acc1).
     standing S groups (c1, d1) \<and> below c c1 \<and> below d d1 \<and> (\<forall>x \<in> set d1. x < u32_max) \<and>
     (c1 \<noteq> c \<or> d1 \<noteq> d \<longrightarrow> (\<forall>x \<in> set c1. x \<le> FORMAL_ORDER_PROFILE)) \<and>
     (\<forall>j < length (ds_rows S). moves j = Some True \<longrightarrow> \<not> free j \<longrightarrow> d1 ! j = d ! j) \<and>
     (\<exists>adm. acc1 = acc @ adm \<and> (\<forall>x \<in> set adm. \<exists>j < length (ds_rows S). free j \<and> admitted_variable x = coordinate_variable (ds_variables S ! j))))"

lemma deepenedD:
  assumes "deepened S groups moves free ((c, d), acc) ((c1, d1), acc1)"
  shows "standing S groups (c1, d1)" "below c c1" "below d d1" "\<forall>x \<in> set d1. x < u32_max"
    "c1 \<noteq> c \<or> d1 \<noteq> d \<Longrightarrow> \<forall>x \<in> set c1. x \<le> FORMAL_ORDER_PROFILE"
    "j < length (ds_rows S) \<Longrightarrow> moves j = Some True \<Longrightarrow> \<not> free j \<Longrightarrow> d1 ! j = d ! j"
    "\<exists>adm. acc1 = acc @ adm \<and> (\<forall>x \<in> set adm. \<exists>j < length (ds_rows S). free j \<and> admitted_variable x = coordinate_variable (ds_variables S ! j))"
  using assms unfolding deepened_def prod.case by blast+

lemma deepened_refl:
  "standing S groups (c, d) \<Longrightarrow> \<forall>x \<in> set d. x < u32_max \<Longrightarrow> deepened S groups moves free ((c, d), acc) ((c, d), acc)"
  by (simp add: deepened_def)

lemma deepened_trans:
  assumes "deepened S groups moves free s1 s2" and "deepened S groups moves free s2 s3"
  shows "deepened S groups moves free s1 s3"
proof -
  obtain c d acc where s1: "s1 = ((c, d), acc)" by (metis surj_pair)
  obtain c1 d1 acc1 where s2: "s2 = ((c1, d1), acc1)" by (metis surj_pair)
  obtain c2 d2 acc2 where s3: "s3 = ((c2, d2), acc2)" by (metis surj_pair)
  note a = deepenedD [OF assms(1) [unfolded s1 s2]] and b = deepenedD [OF assms(2) [unfolded s2 s3]]
  show ?thesis
    unfolding deepened_def s1 s3 prod.case
  proof (intro conjI impI allI)
    show "below c c2" "below d d2" using below_trans a(2,3) b(2,3) by blast+
    show "\<forall>x \<in> set c2. x \<le> FORMAL_ORDER_PROFILE" if "c2 \<noteq> c \<or> d2 \<noteq> d"
    proof (cases "c2 = c1 \<and> d2 = d1")
      case True
      then show ?thesis using a(5) that by simp
    qed (use b(5) in blast)
    show "d2 ! j = d ! j" if "j < length (ds_rows S)" "moves j = Some True" "\<not> free j" for j
      using a(6) [OF that] b(6) [OF that] by simp
    obtain x y where x: "acc1 = acc @ x" "acc2 = acc1 @ y" "\<forall>z \<in> set x. \<exists>j < length (ds_rows S). free j \<and> admitted_variable z = coordinate_variable (ds_variables S ! j)"
      "\<forall>z \<in> set y. \<exists>j < length (ds_rows S). free j \<and> admitted_variable z = coordinate_variable (ds_variables S ! j)"
      using a(7) b(7) by blast
    show "\<exists>adm. acc2 = acc @ adm \<and> (\<forall>x \<in> set adm. \<exists>j < length (ds_rows S). free j \<and> admitted_variable x = coordinate_variable (ds_variables S ! j))"
      by (rule exI [of _ "x @ y"]) (use x in auto)
  qed (use b(1,4) in blast)+
qed

text \<open>A column whose equation keeps its order at most the profile cannot rise for ever.\<close>

lemma profile_bound:
  assumes st: "standing S groups (c, d)" and p: "perfect_in (ds_rows S) (ds_matching S)"
    and B: "\<And>i e. i < length (ds_rows S) \<Longrightarrow> e \<in> set (ds_rows S ! i) \<Longrightarrow> order e \<le> B"
    and low: "\<forall>x \<in> set c. x \<le> FORMAL_ORDER_PROFILE"
  shows "\<forall>x \<in> set d. x \<le> FORMAL_ORDER_PROFILE + B"
proof
  fix x assume "x \<in> set d"
  then obtain j where j: "j < length (ds_rows S)" "x = d ! j" using standingD(4) [OF st] by (auto simp: in_set_conv_nth)
  have "j \<in> set (ds_matching S)" "length (ds_matching S) = length (ds_rows S)" using p j(1) by (auto simp: perfect_in_def)
  then obtain i where i: "i < length (ds_rows S)" "ds_matching S ! i = j" by (auto simp: in_set_conv_nth)
  obtain e where e: "matched_entry (ds_rows S ! i) (ds_matching S ! i) = Some e" using p i(1) by (auto simp: perfect_in_def)
  have "order e \<le> B" using B [OF i(1)] matched_entry_Some [OF e] by blast
  moreover have "c ! i \<le> FORMAL_ORDER_PROFILE" using low i(1) standingD(3) [OF st] by simp
  ultimately show "x \<le> FORMAL_ORDER_PROFILE + B" using closed_ordersD(6) [OF standingD(2) [OF st] i(1)] i(2) j(2) e by simp
qed

lemma deepen_loop_run:
  assumes sel: "selectable S groups" and p: "perfect_in (ds_rows S) (ds_matching S)"
    and B: "\<And>i e. i < length (ds_rows S) \<Longrightarrow> e \<in> set (ds_rows S ! i) \<Longrightarrow> order e \<le> B" and B': "FORMAL_ORDER_PROFILE + B < u32_max"
    and diff: "\<And>j. j < length (ds_rows S) \<Longrightarrow> moves j \<noteq> None"
    and g: "(a, b) \<in> set (group_columns groups)" and free: "\<And>j. a \<le> j \<Longrightarrow> j < b \<Longrightarrow> free j"
  shows "standing S groups (c, d) \<Longrightarrow> \<forall>x \<in> set d. x < u32_max \<Longrightarrow>
    \<exists>s'. deepen_loop S groups moves (a, b) ((c, d), acc) = Ok s' \<and> deepened S groups moves free ((c, d), acc) s'"
proof (induction "FORMAL_ORDER_PROFILE + B - d ! a" arbitrary: c d acc rule: less_induct)
  case (less d c acc)
  note st = less.prems(1) and u32 = less.prems(2)
  note sw = standingD(1) [OF st] and cd = standingD(2) [OF st]
  have ab: "a < b" "b \<le> length (ds_rows S)" by (rule column_range [OF sel st g])+
  have a: "a < length d" using ab standingD(4) [OF st] by simp
  then have mod: "(d ! a + 1) mod 2 ^ 32 = d ! a + 1" using u32 nth_mem [OF a] by (fastforce simp: machine_int)
  have cl: "closed_orders (ds_rows S) (ds_matching S) groups (ds_invariant_columns S) (map Suc c) (map Suc d)"
    by (rule closed_raised [OF sw cd])
  have big: "\<forall>x \<in> set (map Suc d). x \<le> u32_max" using u32 by auto
  have "d ! a \<le> d ! a + 1" "d ! a + 1 \<le> map Suc d ! a" using a by simp_all
  from raise_declaration [OF sel st g this(1) cl _ _ this(2) big] below_raised [OF below_refl]
  obtain r c1 d1 where r: "fill_segment d (a, b) (d ! a + 1) = Some r"
    "\<And>j. j < length (ds_rows S) \<Longrightarrow> r ! j = (if a \<le> j \<and> j < b then d ! a + 1 else d ! j)"
    "refine (ds_rows S) (ds_matching S) (c, r) groups (ds_invariant_columns S) = Ok (Some (c1, d1))"
    "standing S groups (c1, d1)" "below c c1" "below r d1" "below d d1" "d ! a + 1 \<le> d1 ! a"
    by metis
  have lr: "length r = length (ds_rows S)" "length d1 = length (ds_rows S)"
    using r(6) standingD(4) [OF r(4)] by (simp_all add: below_nth)
  define U where "U \<longleftrightarrow> (\<forall>j < length (ds_rows S). d1 ! j = r ! j \<or> moves j = Some False)"
  have U: "states_unchanged moves d1 r = Some U"
    unfolding U_def using states_unchanged_eq [of d1 moves r] diff lr by simp
  let ?x = "\<lparr>admitted_variable = coordinate_variable (ds_variables S ! a), raised_owners = owners_raised (group_rows groups) c1 c\<rparr>"
  have adm: "admit S groups (a, b) (c1, d1) ((c, d), acc) = Some ((c1, d1), acc @ [?x])"
    by (rule admit_eq [OF sel st _ g]) (use r(5) in \<open>simp add: below_nth\<close>)
  have step: "deepen_loop S groups moves (a, b) ((c, d), acc) =
      (if \<not> U \<or> list_ex (\<lambda>x. x > FORMAL_ORDER_PROFILE) c1 then Ok ((c, d), acc)
       else deepen_loop S groups moves (a, b) ((c1, d1), acc @ [?x]))"
    by (subst deepen_loop.simps) (simp add: a mod [simplified] r(1) [simplified] r(3) U adm)
  show ?case
  proof (cases "\<not> U \<or> list_ex (\<lambda>x. x > FORMAL_ORDER_PROFILE) c1")
    case True
    have "deepen_loop S groups moves (a, b) ((c, d), acc) = Ok ((c, d), acc)" unfolding step by (rule if_P [OF True])
    then show ?thesis using deepened_refl [OF st u32] by blast
  next
    case False
    then have low: "\<forall>x \<in> set c1. x \<le> FORMAL_ORDER_PROFILE" by (auto simp: list_ex_iff not_less)
    have bound: "\<forall>x \<in> set d1. x \<le> FORMAL_ORDER_PROFILE + B" by (rule profile_bound [OF r(4) p B low])
    have a1: "d1 ! a \<le> FORMAL_ORDER_PROFILE + B" using bound lr(2) ab by simp
    have u1: "\<forall>x \<in> set d1. x < u32_max" using bound B' by fastforce
    have one: "deepened S groups moves free ((c, d), acc) ((c1, d1), acc @ [?x])"
      unfolding deepened_def prod.case
    proof (intro conjI impI allI)
      show "d1 ! j = d ! j" if j: "j < length (ds_rows S)" "moves j = Some True" "\<not> free j" for j
      proof -
        have "d1 ! j = r ! j" using False j(1,2) unfolding U_def by auto
        moreover have "\<not> (a \<le> j \<and> j < b)" using free j(3) by blast
        ultimately show ?thesis using r(2) [OF j(1)] by simp
      qed
      have "a < length (ds_rows S)" "free a" using ab free by simp_all
      then show "\<exists>adm. acc @ [?x] = acc @ adm \<and> (\<forall>x \<in> set adm. \<exists>j < length (ds_rows S). free j \<and> admitted_variable x = coordinate_variable (ds_variables S ! j))"
        by (intro exI [of _ "[?x]"]) auto
    qed (use r low u1 in simp_all)
    have "FORMAL_ORDER_PROFILE + B - d1 ! a < FORMAL_ORDER_PROFILE + B - d ! a" using r(8) a1 by linarith
    from less.hyps [OF this r(4) u1, of "acc @ [?x]"] obtain s' where
      s': "deepen_loop S groups moves (a, b) ((c1, d1), acc @ [?x]) = Ok s'"
        "deepened S groups moves free ((c1, d1), acc @ [?x]) s'" by blast
    have "deepen_loop S groups moves (a, b) ((c, d), acc) = Ok s'" unfolding step using s'(1) by (simp only: if_not_P [OF False])
    then show ?thesis using deepened_trans [OF one s'(2)] by blast
  qed
qed

lemma deepen_requested_run:
  assumes sel: "selectable S groups" and p: "perfect_in (ds_rows S) (ds_matching S)"
    and B: "\<And>i e. i < length (ds_rows S) \<Longrightarrow> e \<in> set (ds_rows S ! i) \<Longrightarrow> order e \<le> B" and B': "FORMAL_ORDER_PROFILE + B < u32_max"
    and diff: "\<And>j. j < length (ds_rows S) \<Longrightarrow> moves j \<noteq> None"
    and req: "\<forall>g \<in> set (group_columns groups). requested g \<noteq> None"
    and free: "\<And>a b j. (a, b) \<in> set (group_columns groups) \<Longrightarrow> wanted requested (a, b) \<Longrightarrow> a \<le> j \<Longrightarrow> j < b \<Longrightarrow> free j"
    and st: "standing S groups (c, d)" and u32: "\<forall>x \<in> set d. x < u32_max"
  shows "\<exists>s'. deepen_requested S groups requested moves (c, d) = Ok s' \<and> deepened S groups moves free ((c, d), []) s'"
  unfolding deepen_requested_def
proof (rule foldQ_total [where I = "deepened S groups moves free ((c, d), [])"])
  show "deepened S groups moves free ((c, d), []) ((c, d), [])" by (rule deepened_refl [OF st u32])
  fix s g assume g: "g \<in> set (group_columns groups)" and s: "deepened S groups moves free ((c, d), []) s"
  obtain c1 d1 acc where s1: "s = ((c1, d1), acc)" by (metis surj_pair)
  note k = deepenedD [OF s [unfolded s1]]
  obtain a b where ab: "g = (a, b)" by (cases g)
  obtain w where w: "requested (a, b) = Some w" using req g ab by blast
  have a: "a < length d1" using column_range [OF sel k(1) g [unfolded ab]] standingD(4) [OF k(1)] by simp
  show "\<exists>s'. deepen_group S groups requested moves s g = Ok s' \<and> deepened S groups moves free ((c, d), []) s'"
  proof (cases "d1 ! a = 0 \<or> \<not> w")
    case True
    then have "deepen_group S groups requested moves s g = Ok s" using a w by (auto simp: deepen_group_def s1 ab)
    then show ?thesis using s by blast
  next
    case False
    then have run: "deepen_group S groups requested moves s g = deepen_loop S groups moves (a, b) ((c1, d1), acc)"
      using a w by (simp add: deepen_group_def s1 ab)
    have fr: "free j" if "a \<le> j" "j < b" for j using free [of a b j] g w False that ab by (simp add: wanted_def)
    have "\<exists>s'. deepen_loop S groups moves (a, b) ((c1, d1), acc) = Ok s' \<and> deepened S groups moves free ((c1, d1), acc) s'"
      by (rule deepen_loop_run [OF sel p _ B' _ g [unfolded ab] _ k(1,4)]) (fact B diff fr)+
    then show ?thesis unfolding run using deepened_trans [OF s [unfolded s1]] by blast
  qed
qed

section \<open>Declarations\<close>

lemma column_groups_from_correct:
  "start \<le> length cs \<Longrightarrow> partitions_from start (column_groups_from cs start) (length cs) \<and>
     length (column_groups_from cs start) \<le> length cs - start \<and>
     (\<forall>(a, b) \<in> set (column_groups_from cs start). a < b \<and> b \<le> length cs \<and>
        (\<forall>j. a \<le> j \<longrightarrow> j < b \<longrightarrow> coordinate_variable (cs ! j) = coordinate_variable (cs ! a)))"
proof (induction cs start rule: column_groups_from.induct)
  case (1 cs start)
  show ?case
  proof (cases "start < length cs")
    case True
    define same :: "DifferentialCoordinate \<Rightarrow> bool" where "same c \<longleftrightarrow> coordinate_variable c = coordinate_variable (cs ! start)" for c
    define stop where "stop = length (takeWhile same (drop start cs)) + start"
    have groups: "column_groups_from cs start = (start, stop) # column_groups_from cs stop"
      using True by (subst column_groups_from.simps) (simp add: stop_def same_def [abs_def] Let_def)
    have "drop start cs = cs ! start # drop (Suc start) cs" using True by (simp add: Cons_nth_drop_Suc)
    then have lt: "start < stop" unfolding stop_def by (simp add: same_def)
    have "length (takeWhile same (drop start cs)) \<le> length cs - start" using length_takeWhile_le [of same "drop start cs"] by simp
    then have le: "stop \<le> length cs" using True unfolding stop_def by simp
    have first: "coordinate_variable (cs ! j) = coordinate_variable (cs ! start)" if "start \<le> j" "j < stop" for j
    proof -
      have k: "j - start < length (takeWhile same (drop start cs))" using that unfolding stop_def by simp
      have "takeWhile same (drop start cs) ! (j - start) = cs ! j"
        using takeWhile_nth [OF k] that(1) True le that(2) by simp
      moreover have "same (takeWhile same (drop start cs) ! (j - start))" using nth_mem [OF k] by (blast dest: set_takeWhileD)
      ultimately show ?thesis by (simp add: same_def)
    qed
    have ih: "partitions_from stop (column_groups_from cs stop) (length cs) \<and>
     length (column_groups_from cs stop) \<le> length cs - stop \<and>
     (\<forall>(a, b) \<in> set (column_groups_from cs stop). a < b \<and> b \<le> length cs \<and>
        (\<forall>j. a \<le> j \<longrightarrow> j < b \<longrightarrow> coordinate_variable (cs ! j) = coordinate_variable (cs ! a)))"
      by (rule "1.IH" [OF True _ le]) (simp add: stop_def same_def [abs_def])
    show ?thesis
      unfolding groups list.set ball_simps prod.case
    proof (intro conjI)
      show "partitions_from start ((start, stop) # column_groups_from cs stop) (length cs)" using ih lt le by simp
      show "length ((start, stop) # column_groups_from cs stop) \<le> length cs - start"
      proof -
        have "length (column_groups_from cs stop) \<le> length cs - stop" using ih by blast
        then show ?thesis using lt le unfolding list.size by linarith
      qed
    qed (use ih lt le first in blast)+
  next
    case False
    then have "column_groups_from cs start = []" by (subst column_groups_from.simps) simp
    then show ?thesis using 1 False by simp
  qed
qed

lemma declaration_groups:
  "partitions (declaration_column_groups S) (length (ds_variables S))"
  "length (declaration_column_groups S) \<le> length (ds_variables S)"
  "(a, b) \<in> set (declaration_column_groups S) \<Longrightarrow> a < b \<and> b \<le> length (ds_variables S)"
  "(a, b) \<in> set (declaration_column_groups S) \<Longrightarrow> a \<le> j \<Longrightarrow> j < b \<Longrightarrow>
     coordinate_variable (ds_variables S ! j) = coordinate_variable (ds_variables S ! a)"
  using column_groups_from_correct [of 0 "ds_variables S"] unfolding declaration_column_groups_def partitions_def by auto

lemma partitions_from_snoc:
  "partitions_from s groups n \<Longrightarrow> partitions_from s (groups @ [(n, n + k)]) (n + k)"
proof (induction groups arbitrary: s)
  case (Cons g groups)
  obtain a b where g: "g = (a, b)" by (cases g)
  then show ?case using Cons by (simp add: partitions_from_le)
qed simp

lemma owner_row_groups_partition:
  assumes "owner_row_groups owners = Ok (rs, spans)"
  shows "partitions rs (length spans)" "length rs = length owners"
proof -
  let ?f = "\<lambda>(groups, spans) owner. case owner of Inl e \<Rightarrow> Err e
       | Inr rs \<Rightarrow> Ok (groups @ [(length spans, length spans + length rs)], spans @ rs)"
  have "foldQ ?f (groups, sp) owners = Ok (rs, spans) \<Longrightarrow> partitions groups (length sp) \<Longrightarrow>
      partitions rs (length spans) \<and> length rs = length groups + length owners" for groups :: "owner_range list" and sp :: "Span list"
  proof (induction owners arbitrary: groups sp)
    case (Cons w owners)
    then obtain ws where w: "w = Inr ws" by (cases w) auto
    have "partitions rs (length spans) \<and> length rs = length (groups @ [(length sp, length sp + length ws)]) + length owners"
    proof (rule Cons.IH)
      show "foldQ ?f (groups @ [(length sp, length sp + length ws)], sp @ ws) owners = Ok (rs, spans)"
        using Cons.prems(1) by (simp add: w)
      show "partitions (groups @ [(length sp, length sp + length ws)]) (length (sp @ ws))"
        using partitions_from_snoc [of 0 groups "length sp" "length ws"] Cons.prems(2) by (simp add: partitions_def)
    qed
    then show ?case by simp
  qed simp
  from this [of "[]" "[]"] show "partitions rs (length spans)" "length rs = length owners"
    using assms by (simp_all add: owner_row_groups_def partitions_def)
qed

lemma uniform_correct:
  assumes "partitions groups (length vals)" and u: "uniform_on vals groups"
  shows "uniform vals groups = Some True"
proof -
  have "uniform vals gs = Some True" if "set gs \<subseteq> set groups" for gs
    using that
  proof (induction gs)
    case (Cons g gs)
    obtain a b where g: "g = (a, b)" by (cases g)
    have ab: "a \<le> b" "b \<le> length vals"
      using partitions_from_range [of 0 groups "length vals" a b] assms(1) Cons.prems g by (auto simp: partitions_def)
    have ih: "uniform vals gs = Some True" using Cons by simp
    have seg: "segment vals (a, b) = Some (take (b - a) (drop a vals))" using ab by (simp add: segment_def)
    show ?case
    proof (cases "a < length vals")
      case True
      have "list_all (\<lambda>v. v = vals ! a) (take (b - a) (drop a vals))"
        unfolding list_all_length
      proof (intro allI impI)
        fix k assume k: "k < length (take (b - a) (drop a vals))"
        then have "same_group groups (a + k) a"
          unfolding same_group_def by (intro bexI [of _ "(a, b)"]) (use Cons.prems g ab in auto)
        then have "vals ! (a + k) = vals ! a" using u unfolding uniform_on_def by blast
        then show "take (b - a) (drop a vals) ! k = vals ! a" using k ab by (simp add: nth_drop)
      qed
      then show ?thesis using True ih seg g by simp
    next
      case False
      then show ?thesis using ab ih g by simp
    qed
  qed simp
  then show ?thesis by blast
qed

section \<open>The certificate\<close>

lemma closed_certified:
  assumes st: "standing S groups (c, d)" and p: "perfect_in (ds_rows S) (ds_matching S)"
    and dim: "ds_formal_dimension S = matching_weight (ds_rows S) (ds_matching S)"
    and u32: "\<forall>x \<in> set d. x < u32_max" and n: "length (ds_rows S) \<le> u32_max"
  shows "(certificate_holds S groups (c, d) = Some True \<and>
       (\<forall>i < length (ds_rows S). d ! (ds_matching S ! i) = c ! i + matched_by (ds_rows S) (ds_matching S) i)) \<or>
     (certificate_holds S groups (c, d) = Some False \<and> True \<in> set (ds_invariant_columns S))"
proof -
  let ?R = "ds_rows S" and ?m = "ds_matching S" and ?iv = "ds_invariant_columns S"
  note sw = standingD(1) [OF st] and cd = standingD(2) [OF st] and l = standingD(3-5) [OF st]
  note sd = sweepableD [OF sw] and k = closed_ordersD [OF cd]
  have u: "uniform c (group_rows groups) = Some True" "uniform d (group_columns groups) = Some True"
    by (rule uniform_correct; use sd(4,5) l cd in \<open>simp add: closed_orders_def\<close>)+
  have len: "length ?m = length ?R \<and> length c = length ?R \<and> length d = length ?R \<and> length ?iv = length ?R" using l sd(1) by simp
  have matched: "\<exists>e. matched_entry (?R ! i) (?m ! i) = Some e" if "i < length ?R" for i using sd(7) [OF that] by blast
  show ?thesis
  proof (cases "certify ?R ?m c d ?iv = Ok (matching_weight ?R ?m)")
    case True
    then have cert: "\<forall>i < length ?R. row_certified ?m c d ?iv i (?R ! i)" by (auto simp: certify_eq split: if_splits)
    have "d ! (?m ! i) = c ! i + matched_by ?R ?m i" if i: "i < length ?R" for i
      using cert i matched [OF i] by (auto simp: row_certified_def)
    then show ?thesis using True u dim by (simp add: certificate_holds_def)
  next
    case False
    then have err: "certify ?R ?m c d ?iv = Err ()" unfolding certify_eq by (simp split: if_splits)
    then have no: "certificate_holds S groups (c, d) = Some False" by (simp add: certificate_holds_def)
    have "True \<in> set ?iv"
    proof (rule ccontr)
      assume iv: "True \<notin> set ?iv"
      have ninv: "\<not> invariant_at ?iv j" for j using iv invariant_at_less [of ?iv j] by (auto simp: in_set_conv_nth)
      have niv: "\<not> ?iv ! j" if "j < length ?R" for j using iv that l(3) by (auto simp: in_set_conv_nth)
      have "row_certified ?m c d ?iv i (?R ! i)" if i: "i < length ?R" for i
      proof -
        obtain e where e: "matched_entry (?R ! i) (?m ! i) = Some e" using matched [OF i] by blast
        have me: "e \<in> set (?R ! i)" "column e = ?m ! i" using matched_entry_Some [OF e] by simp_all
        have "c ! i + order e \<le> d ! (?m ! i)" using k(5) [OF i me(1) ninv] me(2) by simp
        moreover have "d ! (?m ! i) \<le> c ! i + order e" using k(6) [OF i] e by simp
        ultimately have eq: "d ! (?m ! i) = c ! i + order e" by simp
        show ?thesis
          unfolding row_certified_def using eq e sd(1,8) i k(5) [OF i _ ninv] sd(6) [OF i] niv l by auto
      qed
      moreover have "distinct ?m" using p by (simp add: perfect_in_def)
      moreover have "sum_list d \<le> usize_max"
      proof -
        have "sum_list d \<le> length d * u32_max" using u32 sum_list_mono [of d "\<lambda>x. x" "\<lambda>_. u32_max"]
          by (simp add: sum_list_triv less_imp_le)
        also have "\<dots> \<le> u32_max * u32_max" using l(2) n by simp
        also have "\<dots> \<le> usize_max" by (simp add: machine_int)
        finally show ?thesis .
      qed
      ultimately show False using err len by (simp add: certify_eq)
    qed
    then show ?thesis using no by blast
  qed
qed

section \<open>The analysis\<close>

text \<open>The input: a structure as the structural differentiation analysis returns it, whose coordinates
  belong to declared variables.\<close>

definition tensor_input :: "DifferentialStructure \<Rightarrow> SelectableView list \<Rightarrow> nat \<Rightarrow> bool" where
  "tensor_input S views B \<longleftrightarrow> (let n = length (ds_rows S) in
     length (ds_variables S) = n \<and> length (ds_equation_orders S) = n \<and> length (ds_variable_orders S) = n \<and>
     length (ds_invariant_columns S) = n \<and> n \<le> u32_max \<and> perfect_in (ds_rows S) (ds_matching S) \<and>
     (\<forall>i < n. \<forall>e \<in> set (ds_rows S ! i). column e < n \<and> order e \<le> B) \<and> FORMAL_ORDER_PROFILE + B < u32_max \<and>
     (\<forall>i < n. matched_by (ds_rows S) (ds_matching S) i \<le> ds_variable_orders S ! (ds_matching S ! i)) \<and>
     ds_formal_dimension S = matching_weight (ds_rows S) (ds_matching S) \<and>
     (\<forall>j < n. \<forall>k < n. coordinate_variable (ds_variables S ! j) = coordinate_variable (ds_variables S ! k) \<longrightarrow>
        ds_invariant_columns S ! j = ds_invariant_columns S ! k) \<and>
     (\<forall>c \<in> set (ds_variables S). coordinate_variable c < length views))"

lemma tensor_inputD:
  assumes "tensor_input S views B"
  shows "length (ds_variables S) = length (ds_rows S)" "length (ds_equation_orders S) = length (ds_rows S)"
    "length (ds_variable_orders S) = length (ds_rows S)" "length (ds_invariant_columns S) = length (ds_rows S)"
    "length (ds_rows S) \<le> u32_max" "perfect_in (ds_rows S) (ds_matching S)"
    "i < length (ds_rows S) \<Longrightarrow> e \<in> set (ds_rows S ! i) \<Longrightarrow> column e < length (ds_rows S)"
    "i < length (ds_rows S) \<Longrightarrow> e \<in> set (ds_rows S ! i) \<Longrightarrow> order e \<le> B" "FORMAL_ORDER_PROFILE + B < u32_max"
    "i < length (ds_rows S) \<Longrightarrow> matched_by (ds_rows S) (ds_matching S) i \<le> ds_variable_orders S ! (ds_matching S ! i)"
    "ds_formal_dimension S = matching_weight (ds_rows S) (ds_matching S)"
    "c \<in> set (ds_variables S) \<Longrightarrow> coordinate_variable c < length views"
    "j < length (ds_rows S) \<Longrightarrow> k < length (ds_rows S) \<Longrightarrow> coordinate_variable (ds_variables S ! j) = coordinate_variable (ds_variables S ! k) \<Longrightarrow>
       ds_invariant_columns S ! j = ds_invariant_columns S ! k"
  using assms unfolding tensor_input_def Let_def by blast+

lemma coordinate_view_total:
  assumes "tensor_input S views B" and j: "j < length (ds_rows S)"
  shows "coordinate_view views S j = Some (views ! coordinate_variable (ds_variables S ! j))"
    "requests views S r j = Some (continuous_state_select (views ! coordinate_variable (ds_variables S ! j)) = Some r)"
    "differentiated views S j = Some (variable_role (views ! coordinate_variable (ds_variables S ! j)) = VariableRole.State)"
proof -
  note d = tensor_inputD [OF assms(1)]
  have i: "idx (ds_variables S) j = Some (ds_variables S ! j)" using j d(1) by simp
  have "coordinate_variable (ds_variables S ! j) < length views" by (rule d(12)) (simp add: j d(1))
  then have v: "idx views (coordinate_variable (ds_variables S ! j)) = Some (views ! coordinate_variable (ds_variables S ! j))" by simp
  show c: "coordinate_view views S j = Some (views ! coordinate_variable (ds_variables S ! j))"
    unfolding coordinate_view_def i by (simp del: idx_Some add: v)
  then show "requests views S r j = Some (continuous_state_select (views ! coordinate_variable (ds_variables S ! j)) = Some r)"
    by (simp add: requests_def)
  show "differentiated views S j = Some (variable_role (views ! coordinate_variable (ds_variables S ! j)) = VariableRole.State)"
    unfolding differentiated_def i option.case v by (rule refl)
qed

text \<open>The structures that the differential analysis returns are inputs of the analysis of whole owners.\<close>

lemma structure_tensor_input:
  assumes S: "structure_of base rows lower invariant S" and rows: "signature_rows base bases owners rows"
    and n: "length rows \<le> u32_max" and views: "length views = length base"
  shows "tensor_input S views 1"
proof -
  have d: "length rows = length (scalar_columns base)" "ds_variables S = scalar_columns base" "ds_rows S = rows"
    "ds_invariant_columns S = time_invariant invariant base" "perfect_in rows (ds_matching S)"
    "ds_formal_dimension S = matching_weight rows (ds_matching S)"
    and adm: "admissible rows (ds_matching S) lower (ds_invariant_columns S) (ds_equation_orders S) (ds_variable_orders S)"
    using S unfolding structure_of_def best_perfect_def least_admissible_def by blast+
  have l: "length (ds_equation_orders S) = length rows" "length (ds_variable_orders S) = length rows"
    using adm unfolding admissible_def by blast+
  have m: "matched_by rows (ds_matching S) i \<le> ds_variable_orders S ! (ds_matching S ! i)" if "i < length rows" for i
  proof -
    obtain e where "matched_entry (rows ! i) (ds_matching S ! i) = Some e"
      "ds_variable_orders S ! (ds_matching S ! i) = ds_equation_orders S ! i + order e"
      using adm \<open>i < length rows\<close> unfolding admissible_def by blast
    then show ?thesis by simp
  qed
  have e: "column e < length rows \<and> order e \<le> 1" if "i < length rows" "e \<in> set (rows ! i)" for i e
    using signature_rows_D(2) [OF rows nth_mem [OF that(1)] that(2)] d(1) by simp
  have iv: "ds_invariant_columns S ! j = invariant (coordinate_variable (ds_variables S ! j))" if "j < length rows" for j
    using that d(1,2,4) by (simp add: time_invariant_def)
  have il: "length (ds_invariant_columns S) = length rows" using d(1,4) by (simp add: time_invariant_def)
  have p: "FORMAL_ORDER_PROFILE + 1 < u32_max" by (simp add: FORMAL_ORDER_PROFILE_def machine_int)
  show ?thesis
    unfolding tensor_input_def Let_def d(3)
  proof (intro conjI allI impI ballI)
    show "ds_invariant_columns S ! j = ds_invariant_columns S ! k"
      if "j < length rows" "k < length rows" "coordinate_variable (ds_variables S ! j) = coordinate_variable (ds_variables S ! k)" for j k
      using iv [OF that(1)] iv [OF that(2)] that(3) by simp
    show "coordinate_variable c < length views" if "c \<in> set (ds_variables S)" for c
      using scalar_columns_variable that d(2) views by simp
    show "column a < length rows" "order a \<le> 1" if "i < length rows" "a \<in> set (rows ! i)" for i a using e [OF that] by simp_all
  qed (use d l m il n p in simp_all)
qed

text \<open>The orders the refinement starts from, and the columns that may be selected.\<close>

definition asked_orders :: "SelectableView list \<Rightarrow> DifferentialStructure \<Rightarrow> nat list" where
  "asked_orders views S = map (\<lambda>j. if requests views S Always j = Some True then max (ds_variable_orders S ! j) 1
     else ds_variable_orders S ! j) [0..<length (ds_variable_orders S)]"

definition may_select :: "SelectableView list \<Rightarrow> DifferentialStructure \<Rightarrow> nat set \<Rightarrow> nat \<Rightarrow> bool" where
  "may_select views S withheld j \<longleftrightarrow> coordinate_variable (ds_variables S ! j) \<notin> withheld \<and>
     (\<exists>v. coordinate_view views S j = Some v \<and> continuous_state_select v \<in> {Some Always, Some Prefer})"

lemma requested_orders_eq:
  assumes "tensor_input S views B"
  shows "requested_orders views S = Some (asked_orders views S)"
proof -
  note d = tensor_inputD [OF assms]
  have "those (map (\<lambda>(col, ord). map_option (\<lambda>always. if always then max ord 1 else ord) (requests views S Always col))
       (enumerate 0 (ds_variable_orders S))) = Some (asked_orders views S)"
    unfolding those_map_Some_iff
  proof (intro conjI allI impI)
    show "length (asked_orders views S) = length (enumerate 0 (ds_variable_orders S))" by (simp add: asked_orders_def)
    fix j assume "j < length (enumerate 0 (ds_variable_orders S))"
    then have j: "j < length (ds_variable_orders S)" by simp
    then obtain b where "requests views S Always j = Some b" using coordinate_view_total(2) [OF assms, of j] d(3) by auto
    then show "(case enumerate 0 (ds_variable_orders S) ! j of (col, ord) \<Rightarrow>
        map_option (\<lambda>always. if always then max ord 1 else ord) (requests views S Always col)) = Some (asked_orders views S ! j)"
      using j by (simp add: nth_enumerate_eq asked_orders_def)
  qed
  then show ?thesis by (simp add: requested_orders_def)
qed

lemma prefers_total:
  assumes "tensor_input S views B" and g: "fst g < length (ds_rows S)"
  shows "prefers views S withheld g = Some (requests views S Prefer (fst g) = Some True \<and> coordinate_variable (ds_variables S ! fst g) \<notin> withheld)"
proof -
  have i: "idx (ds_variables S) (fst g) = Some (ds_variables S ! fst g)" using g tensor_inputD(1) [OF assms(1)] by simp
  show ?thesis
    unfolding prefers_def withheld_group_def i using coordinate_view_total(2) [OF assms, of Prefer]
    by (cases "continuous_state_select (views ! coordinate_variable (ds_variables S ! fst g)) = Some Prefer") simp_all
qed

lemma undifferentiated_total:
  assumes "tensor_input S views B" and g: "fst g < length (ds_rows S)"
  shows "\<exists>w. undifferentiated views S withheld g = Some w \<and>
    (w \<longrightarrow> may_select views S withheld (fst g) \<and> differentiated views S (fst g) = Some False)"
proof -
  have i: "idx (ds_variables S) (fst g) = Some (ds_variables S ! fst g)" using g tensor_inputD(1) [OF assms(1)] by simp
  note t = coordinate_view_total [OF assms]
  show ?thesis
    unfolding undifferentiated_def withheld_group_def i t(1) t(3) may_select_def by auto
qed

definition tensor_answer ::
  "SelectableView list \<Rightarrow> DifferentialStructure \<Rightarrow> OwnerGroups \<Rightarrow> nat set \<Rightarrow> TensorDifferentialOffsets \<Rightarrow> bool" where
  "tensor_answer views S groups withheld T \<longleftrightarrow> tensor_source T = S \<and>
     closed_orders (ds_rows S) (ds_matching S) groups (ds_invariant_columns S) (tensor_equations T) (tensor_variables T) \<and>
     below (ds_equation_orders S) (tensor_equations T) \<and> below (asked_orders views S) (tensor_variables T) \<and>
     (\<forall>i < length (ds_rows S). tensor_variables T ! (ds_matching S ! i) = tensor_equations T ! i + matched_by (ds_rows S) (ds_matching S) i) \<and>
     (\<forall>j < length (ds_rows S). requests views S Prefer j = Some True \<longrightarrow> coordinate_variable (ds_variables S ! j) \<notin> withheld \<longrightarrow>
        \<not> ds_invariant_columns S ! j \<longrightarrow> 0 < tensor_variables T ! j) \<and>
     (\<forall>x \<in> set (tensor_preferred T). \<exists>j < length (ds_rows S). may_select views S withheld j \<and>
        admitted_variable x = coordinate_variable (ds_variables S ! j))"

text \<open>The size of the least closed orders: every owner adds at most one largest order.\<close>

lemma owner_iterate_bound:
  assumes s: "sweepable rows matching groups iv d0" and lc: "length c0 = length rows"
    and c0: "\<forall>x \<in> set c0. x \<le> V" and d0: "\<forall>x \<in> set d0. x \<le> V"
    and B: "\<And>i e. i < length rows \<Longrightarrow> e \<in> set (rows ! i) \<Longrightarrow> order e \<le> B"
  shows "((owner_operator rows matching groups iv c0 d0) ^^ k) (\<lambda>_. 0) p \<le> int (V + k * B)"
proof (induction k arbitrary: p)
  case (Suc k)
  note sd = sweepableD [OF s]
  let ?A = "((owner_operator rows matching groups iv c0 d0) ^^ k) (\<lambda>_. 0)"
  have "owner_operator rows matching groups iv c0 d0 ?A p \<le> int (V + Suc k * B)"
    unfolding owner_operator_le [OF s]
  proof (intro conjI allI impI ballI)
    show "int (c0 ! i) \<le> int (V + Suc k * B)" if "in_group groups p i" for i
    proof -
      have "c0 ! i \<le> V" using c0 in_group_less [OF sd(4) that] lc by simp
      then have "c0 ! i \<le> V + Suc k * B" by (rule trans_le_add1)
      then show ?thesis by (simp only: of_nat_le_iff)
    qed
    show "int (d0 ! j) \<le> int (V + Suc k * B) + int (matched_by rows matching i)" if "same_group (group_columns groups) (matching ! i) j" for i j
    proof -
      have "d0 ! j \<le> V" using d0 same_group_less [OF sd(5) that] sd(3) by simp
      then have "d0 ! j \<le> V + Suc k * B + matched_by rows matching i" by (intro trans_le_add1)
      then show ?thesis unfolding of_nat_add [symmetric] of_nat_le_iff .
    qed
    fix z assume "z \<in> owner_shifts rows matching groups iv p"
    then obtain q r a i where z: "z = (q, int (order a) - int (matched_by rows matching i))" "in_group groups q r" "a \<in> set (rows ! r)"
      unfolding owner_shifts_def by blast
    have "order a \<le> B" by (rule B [OF in_group_less [OF sd(4) z(2)] z(3)])
    then show "case z of (q, w) \<Rightarrow> ?A q + w \<le> int (V + Suc k * B)" using Suc.IH [of q] unfolding z(1) prod.case by simp
  qed simp
  then show ?case by simp
qed simp

lemma refine_loop_under:
  assumes s: "sweepable rows matching groups iv d0"
    and A: "\<And>p. p < length (group_rows groups) \<Longrightarrow> owner_operator rows matching groups iv c0 d0 A p \<le> A p"
  shows "length c = length rows \<Longrightarrow> below d0 d \<Longrightarrow> under rows matching groups A c d \<Longrightarrow>
    refine_loop rows matching groups iv fuel (c, d) = Ok (Some (z1, z2)) \<Longrightarrow> under rows matching groups A z1 z2"
proof (induction fuel arbitrary: c d)
  case (Suc fuel)
  from s Suc.prems(1,2) show ?case
  proof (cases rule: refine_sweep_cases)
    case (overflow m c1 i e)
    then show ?thesis using Suc.prems(4) by simp
  next
    case (ok c1 c2 d2)
    have u: "under rows matching groups A c2 d2" by (rule under_sweep(2) [OF s A Suc.prems(3) ok(2)])
    show ?thesis
    proof (cases "c2 = c \<and> d2 = d")
      case True
      then show ?thesis using Suc.prems(4) ok(1) u by simp
    next
      case False
      then have "refine_loop rows matching groups iv fuel (c2, d2) = Ok (Some (z1, z2))" using Suc.prems(4) ok(1) by auto
      then show ?thesis using Suc.IH [OF sweeps_toD(2) [OF ok(2)] below_trans [OF Suc.prems(2) sweeps_toD(5) [OF ok(2)]] u] by blast
    qed
  qed
qed simp

lemma refine_bound:
  assumes s: "sweepable rows matching groups iv vars" and l: "length eqs = length rows"
    and run: "refine rows matching (eqs, vars) groups iv = Ok (Some (c, d))"
    and cl: "closed_orders rows matching groups iv c d" and b: "below eqs c" "below vars d"
    and p: "perfect_in rows matching" and V: "\<forall>x \<in> set eqs. x \<le> V" "\<forall>x \<in> set vars. x \<le> V"
    and B: "\<And>i e. i < length rows \<Longrightarrow> e \<in> set (rows ! i) \<Longrightarrow> order e \<le> B"
  shows "\<forall>x \<in> set d. x \<le> V + Suc (length (group_rows groups)) * B"
proof
  let ?N = "length (group_rows groups)"
  note sd = sweepableD [OF s] and k = closed_ordersD [OF cl]
  define A where "A = ((owner_operator rows matching groups iv eqs vars) ^^ ?N) (\<lambda>_. 0)"
  have A: "owner_operator rows matching groups iv eqs vars A q \<le> A q" if "q < ?N" for q
    using owner_iteration_stops [OF s cl b that] by (simp add: A_def)
  have loop: "\<exists>fuel. refine_loop rows matching groups iv fuel (eqs, vars) = Ok (Some (c, d))"
    using run by (auto simp: refine_def chk_usize_def simp del: refine_loop.simps split: if_splits)
  then obtain fuel where fuel: "refine_loop rows matching groups iv fuel (eqs, vars) = Ok (Some (c, d))" by blast
  have u: "under rows matching groups A c d"
    by (rule refine_loop_under [OF s A l below_refl under_start [OF s A] fuel])
  fix x assume "x \<in> set d"
  then obtain j where j: "j < length rows" "x = d ! j" using k(2) by (auto simp: in_set_conv_nth)
  have "j \<in> set matching" "length matching = length rows" using p j(1) by (auto simp: perfect_in_def)
  then obtain i where i: "i < length rows" "matching ! i = j" by (auto simp: in_set_conv_nth)
  obtain q where q: "in_group groups q i" using same_in_group [OF same_group_refl [OF sd(4) i(1)]] by blast
  obtain e where e: "matched_entry (rows ! i) (matching ! i) = Some e" using p i(1) by (auto simp: perfect_in_def)
  have "order e \<le> B" using B [OF i(1)] matched_entry_Some [OF e] by blast
  then have "matched_by rows matching i \<le> B" using e by simp
  moreover have "int (d ! j) \<le> A q + int (matched_by rows matching i)"
    using u q same_group_refl [OF sd(5) sd(8) [OF i(1)]] i(2) unfolding under_def by blast
  moreover have "A q \<le> int (V + ?N * B)" unfolding A_def by (rule owner_iterate_bound [OF s l V B])
  ultimately have "int (d ! j) \<le> int (V + ?N * B) + int B" by linarith
  then have "d ! j \<le> V + ?N * B + B" unfolding of_nat_add [symmetric] of_nat_le_iff .
  then show "x \<le> V + Suc ?N * B" using j(2) by simp
qed

lemma asked_orders_nth:
  "length (asked_orders views S) = length (ds_variable_orders S)"
  "j < length (ds_variable_orders S) \<Longrightarrow> ds_variable_orders S ! j \<le> asked_orders views S ! j"
  "\<forall>x \<in> set (ds_variable_orders S). x \<le> V \<Longrightarrow> 1 \<le> V \<Longrightarrow> \<forall>x \<in> set (asked_orders views S). x \<le> V"
  by (auto simp: asked_orders_def)

lemma tensor_setup:
  assumes inp: "tensor_input S views B" and walk: "owner_row_groups owners = Ok (rs, spans)" "length spans = length (ds_rows S)"
    and size: "length owners + length (ds_rows S) \<le> usize_max"
  defines "G \<equiv> \<lparr>group_rows = rs, group_columns = declaration_column_groups S\<rparr>"
  shows "selectable S G" "sweepable (ds_rows S) (ds_matching S) G (ds_invariant_columns S) (asked_orders views S)"
    "length (group_rows G) = length owners"
proof -
  note d = tensor_inputD [OF inp] and g = declaration_groups [where S = S] and w = owner_row_groups_partition [OF walk(1)]
  show "length (group_rows G) = length owners" using w(2) by (simp add: G_def)
  have "length rs + length (declaration_column_groups S) \<le> usize_max" using w(2) g(2) d(1) size by simp
  then show "selectable S G" using g(3) d(1) by (auto simp: selectable_def G_def)
  have "\<exists>e. matched_entry (ds_rows S ! i) (ds_matching S ! i) = Some e \<and> order e \<le> asked_orders views S ! (ds_matching S ! i)"
    if i: "i < length (ds_rows S)" for i
  proof -
    obtain e where e: "matched_entry (ds_rows S ! i) (ds_matching S ! i) = Some e" using d(6) i by (auto simp: perfect_in_def)
    have "ds_matching S ! i < length (ds_variable_orders S)"
      using matched_entry_Some [OF e] d(7) [OF i, of e] unfolding d(3) by simp
    then have "ds_variable_orders S ! (ds_matching S ! i) \<le> asked_orders views S ! (ds_matching S ! i)" by (rule asked_orders_nth(2))
    then show ?thesis using d(10) [OF i] e by simp
  qed
  then show "sweepable (ds_rows S) (ds_matching S) G (ds_invariant_columns S) (asked_orders views S)"
    unfolding sweepable_def using d(3,4,6,7) w(1) walk(2) g(1) d(1) by (simp add: G_def perfect_in_def asked_orders_nth(1))
qed

text \<open>What the two selection loops give column by column.\<close>

lemma preferred_columns:
  assumes inp: "tensor_input S views B" and sel: "selectable S groups" and st: "standing S groups (c1, d1)" and st2: "standing S groups (c2, d2)"
    and up: "below d1 d2" and cols: "group_columns groups = declaration_column_groups S"
    and all: "\<forall>(a, b) \<in> set (group_columns groups). wanted (prefers views S withheld) (a, b) \<longrightarrow> \<not> ds_invariant_columns S ! a \<longrightarrow> 0 < d1 ! a"
    and j: "j < length (ds_rows S)" "requests views S Prefer j = Some True" "coordinate_variable (ds_variables S ! j) \<notin> withheld"
      "\<not> ds_invariant_columns S ! j"
  shows "0 < d2 ! j"
proof -
  have "same_group (group_columns groups) j j" by (rule same_group_refl [OF standingD(6) [OF st] j(1)])
  then obtain a b where g: "(a, b) \<in> set (group_columns groups)" "a \<le> j" "j < b" unfolding same_group_def by blast
  have an: "a < length (ds_rows S)" using column_range [OF sel st g(1)] by simp
  have v: "coordinate_variable (ds_variables S ! j) = coordinate_variable (ds_variables S ! a)"
    using declaration_groups(4) [of a b S j] g by (simp add: cols)
  have "requests views S Prefer a = Some True" using j(2) coordinate_view_total(2) [OF inp] j(1) an v by simp
  then have "wanted (prefers views S withheld) (a, b)"
    using prefers_total [OF inp, of "(a, b)" withheld] an j(3) v by (simp add: wanted_def)
  moreover have "\<not> ds_invariant_columns S ! a" using tensor_inputD(13) [OF inp j(1) an v] j(4) by simp
  ultimately have "0 < d1 ! a" using all g(1) by blast
  moreover have "d1 ! a \<le> d2 ! a" using up an standingD(4) [OF st] by (simp add: below_nth)
  moreover have "d2 ! a = d2 ! j"
  proof (rule closed_ordersD(4) [OF standingD(2) [OF st2]])
    show "same_group (group_columns groups) a j" unfolding same_group_def by (rule bexI [OF _ g(1)]) (use g in simp)
  qed
  ultimately show ?thesis by simp
qed

lemma admitted_columns:
  assumes inp: "tensor_input S views B" and less: "\<And>g. g \<in> set cols \<Longrightarrow> fst g < length (ds_rows S)"
    and gs: "subseq gs (filter (wanted (prefers views S withheld)) cols)"
    and adm: "map admitted_variable adm = map (\<lambda>g. coordinate_variable (ds_variables S ! fst g)) gs" and x: "x \<in> set adm"
  shows "\<exists>j < length (ds_rows S). may_select views S withheld j \<and> admitted_variable x = coordinate_variable (ds_variables S ! j)"
proof -
  have "admitted_variable x \<in> set (map (\<lambda>g. coordinate_variable (ds_variables S ! fst g)) gs)"
    unfolding adm [symmetric] using x by simp
  then obtain g where g: "g \<in> set gs" "admitted_variable x = coordinate_variable (ds_variables S ! fst g)" by auto
  have "g \<in> set (filter (wanted (prefers views S withheld)) cols)" using list_emb_set [OF gs g(1)] by blast
  then have gg: "g \<in> set cols" "wanted (prefers views S withheld) g" by simp_all
  note n = less [OF gg(1)]
  have "may_select views S withheld (fst g)"
    using prefers_total [OF inp n, of withheld] gg(2) coordinate_view_total(1,2) [OF inp n] by (simp add: wanted_def may_select_def)
  then show ?thesis using g(2) n by blast
qed

lemma tensor_cases:
  assumes inp: "tensor_input S views B" and walk: "owner_row_groups owners = Ok (rs, spans)" "length spans = length (ds_rows S)"
    and size: "length owners + length (ds_rows S) \<le> usize_max"
    and V: "1 \<le> V" "\<forall>x \<in> set (ds_equation_orders S). x \<le> V" "\<forall>x \<in> set (ds_variable_orders S). x \<le> V"
    and big: "V + Suc (length owners) * B + 1 < u32_max"
  defines "G \<equiv> \<lparr>group_rows = rs, group_columns = declaration_column_groups S\<rparr>"
  shows "(\<exists>T. analyze_tensor_offsets S views owners withheld = Ok (Some T) \<and> tensor_answer views S G withheld T) \<or>
    (\<exists>e. analyze_tensor_offsets S views owners withheld = Err e \<and> True \<in> set (ds_invariant_columns S)) \<or>
    ((analyze_tensor_offsets S views owners withheld = Ok None \<or> (\<exists>e. analyze_tensor_offsets S views owners withheld = Err e)) \<and>
       no_closed (ds_rows S) (ds_matching S) G (ds_invariant_columns S) (ds_equation_orders S, asked_orders views S))"
proof -
  note d = tensor_inputD [OF inp]
  let ?n = "length (ds_rows S)" and ?R = "ds_rows S" and ?m = "ds_matching S" and ?iv = "ds_invariant_columns S"
  let ?e0 = "ds_equation_orders S" and ?d0 = "asked_orders views S" and ?run = "analyze_tensor_offsets S views owners withheld"
  have sel: "selectable S G" and sw: "sweepable ?R ?m G ?iv ?d0" and lr: "length (group_rows G) = length owners"
    unfolding G_def by (rule tensor_setup [OF inp walk size])+
  have gsize: "length (group_rows G) + length (group_columns G) \<le> usize_max" using sel by (simp add: selectable_def)
  have start: "?run = bindQ (with_contract spans (refine ?R ?m (?e0, ?d0) G ?iv)) (\<lambda>found.
     case found of None \<Rightarrow> Ok None
     | Some s \<Rightarrow>
     bindQ (with_contract spans (admit_preferred S G (prefers views S withheld) s)) (\<lambda>(s, preferred).
     bindQ (with_contract spans
         (deepen_requested S G (undifferentiated views S withheld) (differentiated views S) s)) (\<lambda>(s, deepened).
     case certificate_holds S G s of None \<Rightarrow> None
     | Some False \<Rightarrow> Err (contract spans ''tensor differential offset certificate is invalid'')
     | Some True \<Rightarrow>
         Ok (Some \<lparr>tensor_source = S, tensor_equations = fst s, tensor_variables = snd s, tensor_preferred = preferred @ deepened\<rparr>))))"
    unfolding analyze_tensor_offsets_def walk(1) requested_orders_eq [OF inp] G_def by (simp add: Let_def)
  from sw d(2) gsize show ?thesis
  proof (cases rule: refine_cases)
    case missing
    then show ?thesis unfolding start by simp
  next
    case (refused m)
    then show ?thesis unfolding start by simp
  next
    case (found s)
    obtain c dd where s: "s = (c, dd)" by (cases s)
    have f: "closed_orders ?R ?m G ?iv c dd" "below ?e0 c" "below ?d0 dd"
      using found(2) unfolding s least_closed_def prod.case by blast+
    have st: "standing S G (c, dd)" unfolding standing_def prod.case using sweepable_below [OF sw f(3)] f(1) by blast
    have "\<forall>x \<in> set dd. x \<le> V + Suc (length (group_rows G)) * B"
      by (rule refine_bound [OF sw d(2) found(1) [unfolded s] f d(6) V(2) asked_orders_nth(3) [OF V(3,1)] d(8)])
    then have u: "\<forall>x \<in> set dd. Suc x < u32_max" using big lr by fastforce
    have gcols: "fst g < ?n" if "g \<in> set (group_columns G)" for g
      using column_range [OF sel st, of "fst g" "snd g"] that by simp
    have req: "\<forall>g \<in> set (group_columns G). prefers views S withheld g \<noteq> None" using prefers_total [OF inp] gcols by simp
    have u0: "\<forall>x \<in> set dd. x < u32_max" using u by auto
    obtain c1 d1 adm gs where a: "admit_preferred S G (prefers views S withheld) (c, dd) = Ok ((c1, d1), adm)"
      "standing S G (c1, d1)" "below c c1" "below dd d1" "below d1 (map Suc dd)"
      "\<forall>(a, b) \<in> set (group_columns G). wanted (prefers views S withheld) (a, b) \<longrightarrow> \<not> ?iv ! a \<longrightarrow> 0 < d1 ! a"
      "subseq gs (filter (wanted (prefers views S withheld)) (group_columns G))"
      "map admitted_variable adm = map (\<lambda>g. coordinate_variable (ds_variables S ! fst g)) gs"
      by (rule admit_preferred_run [OF sel st req u0]) (rule that)
    have u1: "\<forall>x \<in> set d1. x < u32_max"
    proof
      fix x assume "x \<in> set d1"
      then obtain j where j: "j < length d1" "x = d1 ! j" by (auto simp: in_set_conv_nth)
      then have "x \<le> Suc (dd ! j)" "j < length dd" using a(5) by (auto simp: below_nth)
      then show "x < u32_max" using u by (fastforce dest: nth_mem)
    qed
    define free where "free j \<longleftrightarrow> may_select views S withheld j \<and> differentiated views S j = Some False" for j
    have same: "may_select views S withheld j = may_select views S withheld a \<and> differentiated views S j = differentiated views S a"
      if "(a, b) \<in> set (group_columns G)" "a \<le> j" "j < b" for a b j
    proof -
      have "coordinate_variable (ds_variables S ! j) = coordinate_variable (ds_variables S ! a)"
        using declaration_groups(4) [of a b S j] that by (simp add: G_def)
      moreover have "j < ?n" "a < ?n" using column_range [OF sel st that(1)] that(2,3) by simp_all
      ultimately show ?thesis unfolding may_select_def by (simp add: coordinate_view_total [OF inp])
    qed
    have fr: "free j" if "(a, b) \<in> set (group_columns G)" "wanted (undifferentiated views S withheld) (a, b)" "a \<le> j" "j < b" for a b j
    proof -
      have "free a" using undifferentiated_total [OF inp gcols [OF that(1)], of withheld] that(2) by (auto simp: wanted_def free_def)
      then show ?thesis using same [OF that(1,3,4)] by (simp add: free_def)
    qed
    have ureq: "\<forall>g \<in> set (group_columns G). undifferentiated views S withheld g \<noteq> None"
      using undifferentiated_total [OF inp gcols] by blast
    have diff: "differentiated views S j \<noteq> None" if "j < ?n" for j using coordinate_view_total(3) [OF inp that] by simp
    have "\<exists>s'. deepen_requested S G (undifferentiated views S withheld) (differentiated views S) (c1, d1) = Ok s' \<and>
        deepened S G (differentiated views S) free ((c1, d1), []) s'"
      by (rule deepen_requested_run [OF sel d(6) d(8) d(9) diff ureq fr a(2) u1])
    then obtain c2 d2 dp where dr: "deepen_requested S G (undifferentiated views S withheld) (differentiated views S) (c1, d1) = Ok ((c2, d2), dp)"
      "deepened S G (differentiated views S) free ((c1, d1), []) ((c2, d2), dp)" by (metis surj_pair)
    note k = deepenedD [OF dr(2)]
    have run: "?run = (case certificate_holds S G (c2, d2) of None \<Rightarrow> None
     | Some False \<Rightarrow> Err (contract spans ''tensor differential offset certificate is invalid'')
     | Some True \<Rightarrow> Ok (Some \<lparr>tensor_source = S, tensor_equations = c2, tensor_variables = d2, tensor_preferred = adm @ dp\<rparr>))"
      unfolding start found(1) s by (simp add: a(1) dr(1) split: option.split bool.split)
    from closed_certified [OF k(1) d(6,11) k(4) d(5)] show ?thesis
    proof (elim disjE conjE)
      assume cert: "certificate_holds S G (c2, d2) = Some True"
        "\<forall>i < ?n. d2 ! (?m ! i) = c2 ! i + matched_by ?R ?m i"
      let ?T = "\<lparr>tensor_source = S, tensor_equations = c2, tensor_variables = d2, tensor_preferred = adm @ dp\<rparr>"
      have pref: "0 < d2 ! j" if "j < ?n" "requests views S Prefer j = Some True" "coordinate_variable (ds_variables S ! j) \<notin> withheld" "\<not> ?iv ! j" for j
        by (rule preferred_columns [OF inp sel a(2) k(1,3) _ a(6) that]) (simp add: G_def)
      have adms: "\<exists>j < ?n. may_select views S withheld j \<and> admitted_variable x = coordinate_variable (ds_variables S ! j)" if "x \<in> set (adm @ dp)" for x
        using admitted_columns [OF inp gcols a(7,8), of x] k(7) that unfolding free_def by fastforce
      have "tensor_answer views S G withheld ?T"
        unfolding tensor_answer_def TensorDifferentialOffsets.select_convs
      proof (intro conjI allI impI ballI)
        show "closed_orders ?R ?m G ?iv c2 d2" by (rule standingD(2) [OF k(1)])
        show "below ?e0 c2" by (rule below_trans [OF f(2) below_trans [OF a(3) k(2)]])
        show "below ?d0 d2" by (rule below_trans [OF f(3) below_trans [OF a(4) k(3)]])
      qed (use cert(2) pref adms in blast)+
      then show ?thesis using run cert(1) by simp
    next
      assume "certificate_holds S G (c2, d2) = Some False" "True \<in> set ?iv"
      then show ?thesis using run by simp
    qed
  qed
qed

section \<open>Properties\<close>

text \<open>C16: From orders that close the signature and leave room for one more, every preference is granted. The
  admission loop never fails and passes over no wanted declaration that varies in time: each gets its
  formal successor, in declaration order and at most once, and no order rises by more
  than one, however many declarations are admitted. The resulting orders are closed again.\<close>

theorem admit_preferred_grants:
  assumes "selectable S groups" and "standing S groups (c, d)"
    and "\<forall>g \<in> set (group_columns groups). requested g \<noteq> None" and "\<forall>x \<in> set d. x < u32_max"
  shows "\<exists>c' d' admitted gs. admit_preferred S groups requested (c, d) = Ok ((c', d'), admitted) \<and>
    standing S groups (c', d') \<and> below c c' \<and> below d d' \<and> below c' (map Suc c) \<and> below d' (map Suc d) \<and>
    (\<forall>(a, b) \<in> set (group_columns groups). wanted requested (a, b) \<longrightarrow> \<not> ds_invariant_columns S ! a \<longrightarrow> 0 < d' ! a) \<and>
    subseq gs (filter (wanted requested) (group_columns groups)) \<and>
    map admitted_variable admitted = map (\<lambda>g. coordinate_variable (ds_variables S ! fst g)) gs"
  by (rule admit_preferred_run [OF assms]) blast

text \<open>C15: The deepening of requested declarations ends. From closed orders of 32 bits and a perfect assignment, the
  loop, which the source leaves unbounded, returns for every declaration, because an accepted
  raise leaves every equation at most at the profile and so bounds the column by the profile and the
  order of its matched entry. The result is closed, no order falls, no equation is beyond the
  profile unless nothing was raised, and a differentiated column that belongs to no requested declaration
  keeps its order.\<close>

theorem deepen_requested_ends:
  assumes "selectable S groups" and "standing S groups (c, d)" and "perfect_in (ds_rows S) (ds_matching S)"
    and "\<And>i e. i < length (ds_rows S) \<Longrightarrow> e \<in> set (ds_rows S ! i) \<Longrightarrow> order e \<le> B" and "FORMAL_ORDER_PROFILE + B < u32_max"
    and "\<And>j. j < length (ds_rows S) \<Longrightarrow> moves j \<noteq> None"
    and "\<forall>g \<in> set (group_columns groups). requested g \<noteq> None" and "\<forall>x \<in> set d. x < u32_max"
  shows "\<exists>c' d' admitted. deepen_requested S groups requested moves (c, d) = Ok ((c', d'), admitted) \<and>
    standing S groups (c', d') \<and> below c c' \<and> below d d' \<and>
    (c' \<noteq> c \<or> d' \<noteq> d \<longrightarrow> (\<forall>x \<in> set c'. x \<le> FORMAL_ORDER_PROFILE)) \<and>
    (\<forall>j < length (ds_rows S). moves j = Some True \<longrightarrow>
       (\<forall>(a, b) \<in> set (group_columns groups). a \<le> j \<longrightarrow> j < b \<longrightarrow> \<not> wanted requested (a, b)) \<longrightarrow> d' ! j = d ! j)"
proof -
  define free where "free j \<longleftrightarrow> (\<exists>(a, b) \<in> set (group_columns groups). wanted requested (a, b) \<and> a \<le> j \<and> j < b)" for j
  have fr: "free j" if "(a, b) \<in> set (group_columns groups)" "wanted requested (a, b)" "a \<le> j" "j < b" for a b j
    unfolding free_def by (rule bexI [OF _ that(1)]) (use that in simp)
  have "\<exists>s'. deepen_requested S groups requested moves (c, d) = Ok s' \<and> deepened S groups moves free ((c, d), []) s'"
    by (rule deepen_requested_run [OF assms(1,3,4,5,6,7) fr assms(2,8)])
  then obtain c' d' adm where r: "deepen_requested S groups requested moves (c, d) = Ok ((c', d'), adm)"
    "deepened S groups moves free ((c, d), []) ((c', d'), adm)" by (metis surj_pair)
  note k = deepenedD [OF r(2)]
  have "d' ! j = d ! j" if "j < length (ds_rows S)" "moves j = Some True"
    "\<forall>(a, b) \<in> set (group_columns groups). a \<le> j \<longrightarrow> j < b \<longrightarrow> \<not> wanted requested (a, b)" for j
    by (rule k(6) [OF that(1,2)]) (use that(3) in \<open>auto simp: free_def\<close>)
  then show ?thesis using r(1) k(1-3,5) by blast
qed

text \<open>C13: The analysis of whole owners always answers on a structure that the differential analysis returned,
  when the rows of the owners are the rows of the structure. Either it returns orders that are uniform on
  every equation owner and every declaration, close the signature, agree with the assignment, are
  at least the scalar offsets and the requests \<open>Always\<close>, and give every preferred declaration that is not
  withheld and varies in time a formal successor, each admission being of a declaration that asked for
  it. Or there are no such orders of 32 bits at all, or some column is constant in time.\<close>

theorem analyze_tensor_offsets_decided:
  assumes "tensor_input S views B" and "owner_row_groups owners = Ok (rs, spans)" and "length spans = length (ds_rows S)"
    and "length owners + length (ds_rows S) \<le> usize_max" and "1 \<le> V"
    and "\<forall>x \<in> set (ds_equation_orders S). x \<le> V" and "\<forall>x \<in> set (ds_variable_orders S). x \<le> V"
    and "V + Suc (length owners) * B + 1 < u32_max"
  shows "let G = \<lparr>group_rows = rs, group_columns = declaration_column_groups S\<rparr>;
      none = no_closed (ds_rows S) (ds_matching S) G (ds_invariant_columns S) (ds_equation_orders S, asked_orders views S) in
    case analyze_tensor_offsets S views owners withheld of
      None \<Rightarrow> False
    | Some (Inr (Some T)) \<Rightarrow> tensor_answer views S G withheld T
    | Some (Inr None) \<Rightarrow> none
    | Some (Inl e) \<Rightarrow> none \<or> True \<in> set (ds_invariant_columns S)"
  using tensor_cases [OF assms, of withheld] by (auto simp: Let_def)

text \<open>A system in which the preferred algebraic \<open>y\<close> lies beside the state \<open>x\<close>.\<close>

theorem admit_preferred_grants_witness:
  "let S = \<lparr>ds_variables = [\<lparr>coordinate_variable = 0, coordinate_scalar = 0\<rparr>, \<lparr>coordinate_variable = 1, coordinate_scalar = 0\<rparr>],
      ds_rows = [[\<lparr>column = 0, order = 1\<rparr>, \<lparr>column = 1, order = 0\<rparr>], [\<lparr>column = 0, order = 0\<rparr>]],
      ds_matching = [1, 0], ds_equation_orders = [0, 1], ds_variable_orders = [1, 0], ds_formal_dimension = 0, ds_invariant_columns = [False, False]\<rparr> in
   \<exists>c' d' admitted. admit_preferred S \<lparr>group_rows = [(0, 1), (1, 2)], group_columns = [(0, 1), (1, 2)]\<rparr> (\<lambda>g. Some (g = (1, 2)))
     ([0, 1], [1, 0]) = Ok ((c', d'), admitted) \<and> 0 < d' ! 1"
proof -
  let ?S = "\<lparr>ds_variables = [\<lparr>coordinate_variable = 0, coordinate_scalar = 0\<rparr>, \<lparr>coordinate_variable = 1, coordinate_scalar = 0\<rparr>],
      ds_rows = [[\<lparr>column = 0, order = 1\<rparr>, \<lparr>column = 1, order = 0\<rparr>], [\<lparr>column = 0, order = 0\<rparr>]],
      ds_matching = [1, 0], ds_equation_orders = [0, 1], ds_variable_orders = [1, 0], ds_formal_dimension = 0, ds_invariant_columns = [False, False]\<rparr>"
  let ?G = "\<lparr>group_rows = [(0, 1), (1, 2)], group_columns = [(0, 1), (1, 2)]\<rparr> :: OwnerGroups"
  have a: "selectable ?S ?G" by (simp add: selectable_def machine_int)
  have b: "standing ?S ?G ([0, 1], [1, 0])"
    by (auto simp: standing_def sweepable_def closed_orders_def uniform_on_def same_group_def partitions_def matched_entry_def
        less_Suc_eq numeral_2_eq_2)
  have c: "\<forall>g \<in> set (group_columns ?G). Some (g = (1, 2)) \<noteq> None" "\<forall>x \<in> set [1, 0 :: nat]. x < u32_max" by (simp_all add: machine_int)
  from admit_preferred_grants [OF a b c] show ?thesis unfolding Let_def wanted_def by simp blast
qed

theorem deepen_requested_ends_witness:
  "let S = \<lparr>ds_variables = [\<lparr>coordinate_variable = 0, coordinate_scalar = 0\<rparr>], ds_rows = [[\<lparr>column = 0, order = 0\<rparr>]],
      ds_matching = [0], ds_equation_orders = [0], ds_variable_orders = [0], ds_formal_dimension = 0, ds_invariant_columns = [False]\<rparr> in
   \<exists>c' d' admitted. deepen_requested S \<lparr>group_rows = [(0, 1)], group_columns = [(0, 1)]\<rparr> (\<lambda>_. Some True) (\<lambda>_. Some False)
     ([1], [1]) = Ok ((c', d'), admitted) \<and> below [1] d'"
proof -
  let ?S = "\<lparr>ds_variables = [\<lparr>coordinate_variable = 0, coordinate_scalar = 0\<rparr>], ds_rows = [[\<lparr>column = 0, order = 0\<rparr>]],
      ds_matching = [0], ds_equation_orders = [0], ds_variable_orders = [0], ds_formal_dimension = 0, ds_invariant_columns = [False]\<rparr>"
  let ?G = "\<lparr>group_rows = [(0, 1)], group_columns = [(0, 1)]\<rparr> :: OwnerGroups"
  have a: "selectable ?S ?G" by (simp add: selectable_def machine_int)
  have b: "standing ?S ?G ([1], [1])"
    by (auto simp: standing_def sweepable_def closed_orders_def uniform_on_def same_group_def partitions_def matched_entry_def)
  have c: "perfect_in (ds_rows ?S) (ds_matching ?S)" by (auto simp: perfect_in_def matched_entry_def)
  have d: "\<And>i e. i < length (ds_rows ?S) \<Longrightarrow> e \<in> set (ds_rows ?S ! i) \<Longrightarrow> order e \<le> 0" "FORMAL_ORDER_PROFILE + 0 < u32_max"
    "\<And>j. j < length (ds_rows ?S) \<Longrightarrow> Some False \<noteq> (None :: bool option)" "\<forall>g \<in> set (group_columns ?G). Some True \<noteq> None" "\<forall>x \<in> set [1 :: nat]. x < u32_max"
    by (simp_all add: FORMAL_ORDER_PROFILE_def machine_int)
  have e: "\<exists>c' d' adm. deepen_requested ?S ?G (\<lambda>_. Some True) (\<lambda>_. Some False) ([1], [1]) = Ok ((c', d'), adm) \<and> below [1] d'"
    if "\<exists>c' d' adm. deepen_requested ?S ?G (\<lambda>_. Some True) (\<lambda>_. Some False) ([1], [1]) = Ok ((c', d'), adm) \<and> P c' d' \<and> Q c' d' \<and>
      below [1] d' \<and> R c' d'" for P Q R using that by blast
  from deepen_requested_ends [where requested = "\<lambda>_. Some True" and moves = "\<lambda>_. Some False", OF a b c d]
  show ?thesis unfolding Let_def by (rule e)
qed

theorem analyze_tensor_offsets_decided_witness:
  "\<exists>S views T. tensor_answer views S \<lparr>group_rows = [(0, 1), (1, 2)], group_columns = [(0, 1), (1, 2)]\<rparr> {} T \<and>
     tensor_equations T = [1, 2] \<and> tensor_variables T = [2, 1]"
proof -
  let ?S = "\<lparr>ds_variables = [\<lparr>coordinate_variable = 0, coordinate_scalar = 0\<rparr>, \<lparr>coordinate_variable = 1, coordinate_scalar = 0\<rparr>],
      ds_rows = [[\<lparr>column = 0, order = 1\<rparr>, \<lparr>column = 1, order = 0\<rparr>], [\<lparr>column = 0, order = 0\<rparr>]],
      ds_matching = [1, 0], ds_equation_orders = [0, 1], ds_variable_orders = [1, 0], ds_formal_dimension = 0, ds_invariant_columns = [False, False]\<rparr>"
  let ?x = "\<lparr>variable_name = ''x'', variable_span = (0, 0, 1), variable_role = VariableRole.State, variable_scalar_count = Some 1,
    continuous_state_select = Some Default\<rparr>"
  let ?y = "\<lparr>variable_name = ''y'', variable_span = (0, 2, 3), variable_role = VariableRole.State, variable_scalar_count = Some 1,
    continuous_state_select = Some Prefer\<rparr>"
  let ?os = "[Inr [(0, 4, 5)], Inr [(0, 6, 7)]] :: owner_walk list"
  have walk: "owner_row_groups ?os = Ok ([(0, 1), (1, 2)], [(0, 4, 5), (0, 6, 7)])" by code_simp
  have cols: "declaration_column_groups ?S = [(0, 1), (1, 2)]" by code_simp
  have run: "analyze_tensor_offsets ?S [?x, ?y] ?os {} = Ok (Some \<lparr>tensor_source = ?S, tensor_equations = [1, 2],
      tensor_variables = [2, 1], tensor_preferred = [\<lparr>admitted_variable = 1, raised_owners = [(0, 0), (1, 1)]\<rparr>]\<rparr>)"
    by code_simp
  have inp: "tensor_input ?S [?x, ?y] 1"
    by (auto simp: tensor_input_def perfect_in_def matched_entry_def matching_weight_def matched_order_def FORMAL_ORDER_PROFILE_def
        machine_int less_Suc_eq numeral_2_eq_2)
  have rest: "length [(0, 4, 5), (0, 6, 7) :: Span] = length (ds_rows ?S)" "length ?os + length (ds_rows ?S) \<le> usize_max" "1 \<le> (1 :: nat)"
    "\<forall>x \<in> set (ds_equation_orders ?S). x \<le> 1" "\<forall>x \<in> set (ds_variable_orders ?S). x \<le> 1" "1 + Suc (length ?os) * 1 + 1 < u32_max"
    by (simp_all add: machine_int)
  from analyze_tensor_offsets_decided [OF inp walk rest, of "{}", unfolded run cols Let_def]
  show ?thesis by (intro exI conjI) auto
qed

end
