(* ===== verification/Spec2Isabelle.thy ===== *)
theory Spec2Isabelle
  imports Intervals Clock_Lattice Odometer Sorting_Correct Declaration_Runs Index_Queries Dependency_Graph Tensor_Selection
begin

text \<open>
  Verification of the deterministic core of \<open>rumoca\<close>, a compiler for the Modelica language.

  The compiler turns a Modelica model into a system of differential and algebraic equations
  and sorts it for a solver. Between the built system and the solver stand a structural phase
  (\<open>src/crates/rumoca-phase-structural\<close>, below \<open>ST\<close>) and a library of exact integer data
  types that every phase shares (\<open>src/crates/rumoca-core\<close>, below \<open>CORE\<close>). This development
  models both and proves them correct.

  \<^bold>\<open>How the parts interact.\<close> The incidence builder reports which scalar equation mentions which
  unknown, as compressed rows. The matching assigns every equation an unknown, seeding the
  affine equation families directly and growing the matching by augmenting paths. If no
  perfect matching exists a report names an over-determined set of equations. Otherwise every
  equation depends on the equations that own its other unknowns; the strongly connected
  components of that graph, computed with the compact families condensed to one node,
  are the blocks, and a block of more than one equation is an algebraic loop, which tearing
  splits into iteration variables and a causal sequence. The families are described over
  structured index domains, and the sets of array elements they touch are index sets.
  A second analysis asks how often each equation must be differentiated: it assigns every equation
  an unknown so that the derivative orders sum to a maximum, takes the least offsets that
  fit the assignment, certifies them, and then raises them until they are the same throughout
  each equation owner and each declaration.

  \<^bold>\<open>Theories and sources.\<close>
  \<^item> \<open>Prelude\<close>: machine integers as \<open>int\<close> or \<open>nat\<close> with their checks and wrap-around, the
    \<open>Result\<close> and \<open>Option\<close> idioms, checked indexing of slices, loops as \<open>try_fold\<close>.
  \<^item> \<open>Integer_Arith\<close> (\<open>CORE/integer_division.rs\<close>, \<open>CORE/integer_binary.rs\<close>): \<open>div\<close>, \<open>mod\<close>,
    \<open>rem\<close> and the folded Integer operators.
  \<^item> \<open>Intervals\<close> (\<open>CORE/structured_domain/interval.rs\<close>): intervals with unproven endpoints.
  \<^item> \<open>Clock_Lattice\<close> (\<open>CORE/clock_lattice.rs\<close>): exact fractions of \<open>i128\<close> and the clock
    conversion operators of the language.
  \<^item> \<open>Structured_Domain\<close> (\<open>CORE/structured_domain.rs\<close>): affine forms, array geometry, scalar
    names and index domains with their row-major numbering.
  \<^item> \<open>Index_Sets\<close>, \<open>Progression_Sets\<close>, \<open>Index_Queries\<close>
    (\<open>CORE/structured_domain/index_sets.rs\<close>): arithmetic progressions, their boxes and unions,
    the sets they denote, and the queries of affine subscripts.
  \<^item> \<open>Graph\<close>: adjacency lists and the contract \<open>scc_provider\<close> of a component computation;
    \<open>Tarjan\<close> (\<open>ST/tarjan.rs\<close>) and \<open>Dependency_Graph\<close> (\<open>CORE/dependency_graph.rs\<close>) provide it.
  \<^item> \<open>Incidence\<close> (\<open>ST/incidence.rs\<close>, \<open>ST/incidence/rows.rs\<close>): compressed rows, the affine
    family descriptors and the dependency graph of a matching; \<open>Odometer\<close> relates the two
    ways in which a family is walked.
  \<^item> \<open>Matching\<close>, \<open>Matching_Correct\<close> (\<open>ST/matching.rs\<close>): seeding, augmentation, preferences.
  \<^item> \<open>Substitution\<close>: the contract \<open>solve_planner\<close> of a triangular plan; \<open>Tearing\<close>
    (\<open>ST/tearing.rs\<close>) and \<open>Sorting_Correct\<close> provide it.
  \<^item> \<open>Blt\<close>, \<open>Blt_Correct\<close>, \<open>Declaration_Runs\<close> (\<open>ST/blt.rs\<close>, \<open>ST/blt/declaration_runs.rs\<close>):
    blocks, the compact families among them, and what a block reports of its declarations.
  \<^item> \<open>Sorting\<close>, \<open>Sorting_Correct\<close> (\<open>ST/lib.rs\<close>, \<open>ST/types.rs\<close>): sorting a system from its
    incidence, and the report of a singular system.
  \<^item> \<open>Assignment\<close>, \<open>Assignment_Correct\<close>, \<open>Assignment_Optimal\<close>, \<open>Weighted_Matching\<close>
    (\<open>ST/differential_structure/assignment.rs\<close>): the assignment of largest total order by shortest
    augmenting paths with potentials.
  \<^item> \<open>Differential_Offsets\<close> (\<open>ST/differential_structure/offsets.rs\<close>): the iteration that finds the
    offsets, and the certificate that checks them.
  \<^item> \<open>Differential_Structure\<close>, \<open>Differential_Structure_Correct\<close>
    (\<open>ST/differential_structure.rs\<close>): columns, signature rows and the composed analysis.
  \<^item> \<open>Tensor_Offsets\<close>, \<open>Tensor_Offsets_Correct\<close>, \<open>Tensor_Selection\<close>
    (\<open>ST/differential_structure/tensor_offsets.rs\<close>): the orders of whole owners and the selection of
    states among them.

  \<^bold>\<open>Interfaces.\<close> Where one part relies on another the promise is a locale, interpreted on the
  code's model: \<open>scc_provider\<close> (a component computation), \<open>maximum_matcher\<close> (a matching that
  cannot be enlarged), \<open>covers\<close> (a set of elements that holds the result of an operation),
  \<open>solve_planner\<close> (a plan that can be solved in its order) and \<open>weighted_assigner\<close> (a perfect
  assignment of the largest total order).

  \<^bold>\<open>Correspondence.\<close> A struct is a record, an enum a datatype, a function of the source a
  definition of the same name, a loop a recursion on its remaining work or a \<open>try_fold\<close> over
  its iterator. An index out of range, a failed \<open>expect\<close> and an arithmetic panic are \<open>None\<close>;
  an error value is \<open>Inl\<close> of the constructor the source names. Explicit stacks are lists with
  their top first. Integers are \<open>int\<close> or \<open>nat\<close> with each \<open>checked_\<close> operation testing the
  range of its type; unchecked operations wrap, as in a release build with a 64-bit \<open>usize\<close>.

  \<^bold>\<open>What the lemmas show.\<close> The numeric types compute the mathematical operation and fail exactly
  when the result does not fit. The index types denote sets, read as they are documented, and their operations are the
  set operations. Each graph walk keeps an invariant of its stack and its marks and ends;
  its result satisfies a specification stated without the walk: components are the
  classes of mutual reachability in dependency order, a matching is valid and maximum (with a
  set of equations that proves it), the causal targets it satisfies are the lexicographically
  best ones that a matching of the same equations can satisfy, blocks
  and torn loops are solve orders, so that solving them one after the other satisfies every
  equation. Sorting succeeds exactly when a perfect matching exists. The weighted assignment is
  optimal among all assignments, its potentials bound the offsets, the offsets are the least ones,
  and a certified assignment is optimal among those that agree with it on the columns constant in
  time, and among all where there are none. The orders of
  whole owners are the least uniform ones above the given orders, every preference is granted, and
  the deepening of requested declarations ends.

  \<^bold>\<open>Bounds.\<close> Every loop is a total function, apart from the path reversal \<open>backtrack\<close> of the weighted
  assignment and \<open>deepen_loop\<close> of the state selection, where \<open>None\<close> also stands for a loop that
  does not end; both are proved to return. The passes that the source itself
  limits, those of the offsets and the sweeps of the whole-owner orders, are proved to be enough.
  Orders times nodes stay below the largest \<open>i64\<close> and offsets below the largest \<open>u32\<close>
  where a theorem says so. The set theorems on
  index sets assume coordinates below \<open>2 ^ 62\<close> in magnitude (\<open>indexable\<close>) and positions
  below \<open>2 ^ 61\<close> (\<open>small_index\<close>), because the unchecked element count of a progression wraps at
  \<open>2 ^ 63\<close> elements; the theorem on ranges states what becomes of the ranges that reach it. The
  limits on the number of offsets, pieces and residue classes are those of the source, and past
  them the code answers that it does not know. Capacity reservation is an argument, as it can
  fail at any point.

  \<^bold>\<open>Not modelled.\<close> The plain matching of \<open>ST/matching.rs\<close> that grows by phases of shortest paths, the walk
  of the structural differentiation over expressions and initial equations, and the test whether a variable
  is constant in time are left out or enter as arguments. Parsing, name resolution, typing, instantiation, flattening and the passes that
  rewrite expressions work on syntax trees of several hundred constructors; the walk that
  fills the incidence rows, labels and warnings read those trees and enter as arguments.
  Evaluation on \<open>f64\<close>, real intervals, simulation and the numerical solvers are outside
  the model of numbers chosen here. Code generation and the execution back ends emit text
  or calls to external generators; bindings, transports, the command line and the editor
  protocol are glue.
\<close>

section \<open>Properties across the components\<close>

text \<open>C27: The search of the structural phase and the two walks of the core library are
  interchangeable providers of components: on every graph whose edges stay in range both
  return, and they find the same components.\<close>

theorem component_providers_agree:
  assumes "adj_ok (length adj) adj"
  shows "\<exists>C cs. tarjan_scc (length adj) adj = Some C \<and> dependency_first_sccs adj = Some (Inr cs) \<and>
    set ` set C = (\<lambda>c. set (members c)) ` set cs"
proof -
  obtain C where C: "tarjan_scc (length adj) adj = Some C" "scc_sequence (length adj) adj C"
    using tj.scc_ok [OF assms] by blast
  obtain cs where cs: "dependency_first_sccs adj = Some (Inr cs)" "scc_sequence (length adj) adj (map members cs)"
    using dependency_first_sccs_ok [OF assms] by blast
  have "set ` set C = set ` set (map members cs)" by (rule scc_sequence_unique [OF C(2) cs(2)])
  then show ?thesis using C(1) cs(1) by (auto simp: image_image)
qed

theorem component_providers_agree_witness:
  "\<exists>C cs. tarjan_scc 4 [[1], [0, 2], [2], [0]] = Some C \<and> dependency_first_sccs [[1], [0, 2], [2], [0]] = Some (Inr cs) \<and>
    set ` set C = (\<lambda>c. set (members c)) ` set cs"
proof -
  have "adj_ok (length [[1], [0, 2], [2], [0 :: nat]]) [[1], [0, 2], [2], [0]]"
    by (auto simp: adj_ok_def nbrs_def less_Suc_eq eval_nat_numeral)
  from component_providers_agree [OF this] show ?thesis by (simp add: eval_nat_numeral)
qed

end
